(* ===== verification/Oph_Prelude.thy ===== *)
theory Oph_Prelude
  imports Main "HOL-Library.Word" "HOL-Library.Multiset" "HOL-Library.Char_ord"
begin

text \<open>
  Shared material of the library.

  \<^item> C strings are Isabelle strings: the characters before the terminating NUL. A pointer into a
    string is the suffix it points to, so \<open>strchr\<close> returns a suffix and a difference of two
    \<open>strlen\<close>s is a difference of lengths.
  \<^item> A function whose C counterpart runs into undefined behaviour on some input (a read or a write
    out of bounds, a null pointer handed to the C library) returns an \<open>option\<close>, with \<open>None\<close> for
    exactly these inputs.
  \<^item> Memory allocation is assumed to succeed; the branches that only report an allocation failure
    are not part of the models.
  \<^item> The collections \<open>cstr\<close> and \<open>code_defs\<close> gather the rewrite rules that the
    component proofs and the evaluations of concrete inputs use.
\<close>

named_theorems cstr \<open>rewrite rules on C strings\<close>
named_theorems code_defs \<open>definitions to unfold when a concrete input is evaluated\<close>

section \<open>Limits of the buffers\<close>

definition OPH_MAX_STRING_SIZE :: nat where [code_defs]: "OPH_MAX_STRING_SIZE = 4096"
definition OPH_WORKFLOW_MAX_STRING :: nat where [code_defs]: "OPH_WORKFLOW_MAX_STRING = 2048"

section \<open>Return codes of the server\<close>

datatype server_code =
    OPH_SERVER_OK
  | OPH_SERVER_UNKNOWN
  | OPH_SERVER_NULL_POINTER
  | OPH_SERVER_ERROR
  | OPH_SERVER_IO_ERROR
  | OPH_SERVER_AUTH_ERROR
  | OPH_SERVER_SYSTEM_ERROR
  | OPH_SERVER_WRONG_PARAMETER_ERROR
  | OPH_SERVER_NO_RESPONSE

section \<open>The string functions of the C library\<close>

fun strchr :: "string \<Rightarrow> char \<Rightarrow> string option" where
  "strchr [] c = None"
| "strchr (x # xs) c = (if x = c then Some (x # xs) else strchr xs c)"

lemma strchr_None [simp]: "strchr s c = None \<longleftrightarrow> c \<notin> set s"
  by (induction s) auto

lemma strchr_notin [simp]: "c \<notin> set s \<Longrightarrow> strchr s c = None"
  by simp

lemma strchr_Some_conv: "strchr s c = Some t \<longleftrightarrow> (\<exists>p t'. s = p @ t \<and> t = c # t' \<and> c \<notin> set p)"
proof (induction s)
  case Nil
  then show ?case by simp
next
  case (Cons x s)
  show ?case
  proof (cases "x = c")
    case True
    then show ?thesis by (auto simp: Cons_eq_append_conv)
  next
    case False
    then show ?thesis using Cons by (auto simp: Cons_eq_append_conv)
  qed
qed

lemma strchr_append [cstr]: "c \<notin> set p \<Longrightarrow> strchr (p @ c # t) c = Some (c # t)"
  by (induction p) auto

lemma strchr_length: "strchr s c = Some t \<Longrightarrow> 0 < length t \<and> length t \<le> length s"
  by (auto simp: strchr_Some_conv)

lemma strchr_hd: "strchr s c = Some t \<Longrightarrow> \<exists>t'. t = c # t'"
  by (auto simp: strchr_Some_conv)

lemma strchr_tl_length: "strchr s c = Some t \<Longrightarrow> length (tl t) < length s"
  by (auto simp: strchr_Some_conv)

text \<open>The letters change case as in the C locale.\<close>

definition tolower :: "char \<Rightarrow> char" where
  [code_defs]: "tolower c = (let n = of_char c :: nat in if 65 \<le> n \<and> n \<le> 90 then char_of (n + 32) else c)"

definition toupper :: "char \<Rightarrow> char" where
  [code_defs]: "toupper c = (let n = of_char c :: nat in if 97 \<le> n \<and> n \<le> 122 then char_of (n - 32) else c)"

text \<open>The comparisons as the code uses them: \<open>!strcmp\<close>, \<open>!strncmp\<close>, \<open>!strcasecmp\<close>, \<open>!strncasecmp\<close>.\<close>

definition strncmp_eq :: "string \<Rightarrow> string \<Rightarrow> nat \<Rightarrow> bool" where
  [code_defs]: "strncmp_eq s t n \<longleftrightarrow> take n s = take n t"

definition strcasecmp_eq :: "string \<Rightarrow> string \<Rightarrow> bool" where
  [code_defs]: "strcasecmp_eq s t \<longleftrightarrow> map tolower s = map tolower t"

definition strncasecmp_eq :: "string \<Rightarrow> string \<Rightarrow> nat \<Rightarrow> bool" where
  [code_defs]: "strncasecmp_eq s t n \<longleftrightarrow> map tolower (take n s) = map tolower (take n t)"

lemma strncasecmp_eq_refl [simp]: "strncasecmp_eq s s n"
  by (simp add: strncasecmp_eq_def)

lemma strncasecmp_eq_sym: "strncasecmp_eq s t n \<longleftrightarrow> strncasecmp_eq t s n"
  by (auto simp: strncasecmp_eq_def)

lemma strncasecmp_eq_trans: "strncasecmp_eq s t n \<Longrightarrow> strncasecmp_eq t u n \<Longrightarrow> strncasecmp_eq s u n"
  by (simp add: strncasecmp_eq_def)

lemma strncasecmp_eq_take [simp]:
  "strncasecmp_eq (take n s) t n \<longleftrightarrow> strncasecmp_eq s t n"
  "strncasecmp_eq s (take n t) n \<longleftrightarrow> strncasecmp_eq s t n"
  by (simp_all add: strncasecmp_eq_def)

lemma strcasecmp_eq_refl [simp]: "strcasecmp_eq s s"
  by (simp add: strcasecmp_eq_def)

text \<open>\<open>strcmp (s, t) > 0\<close>: the order of the unsigned character codes.\<close>

fun strcmp_gt :: "string \<Rightarrow> string \<Rightarrow> bool" where
  "strcmp_gt [] t = False"
| "strcmp_gt (x # s) [] = True"
| "strcmp_gt (x # s) (y # t) =
     (if x = y then strcmp_gt s t else (of_char y :: nat) < of_char x)"

lemma strcmp_gt_irrefl [simp]: "\<not> strcmp_gt s s"
  by (induction s) auto

lemma of_char_nat_eq [simp]: "(of_char x :: nat) = of_char y \<longleftrightarrow> x = y"
  by simp

lemma strcmp_total: "\<not> strcmp_gt s t \<Longrightarrow> \<not> strcmp_gt t s \<Longrightarrow> s = t"
proof (induction s t rule: strcmp_gt.induct)
  case (1 t)
  then show ?case by (cases t) auto
next
  case (3 x s y t)
  then show ?case
    by (cases "x = y") (auto simp: not_less intro: order.antisym)
qed simp

lemma strcmp_gt_asym: "strcmp_gt s t \<Longrightarrow> \<not> strcmp_gt t s"
  by (induction s t rule: strcmp_gt.induct) (auto split: if_splits)

lemma strcmp_gt_trans: "strcmp_gt s t \<Longrightarrow> strcmp_gt t u \<Longrightarrow> strcmp_gt s u"
proof (induction s t arbitrary: u rule: strcmp_gt.induct)
  case (2 x s)
  then show ?case by (cases u) auto
next
  case (3 x s y t)
  then show ?case by (cases u) (auto split: if_splits)
qed simp

text \<open>
  Splitting at a separator. \<open>splitc\<close> keeps empty pieces (the \<open>strchr\<close> loops of the code);
  \<open>strtok\<close> drops them (the \<open>strtok_r\<close> loops).
\<close>

fun splitc :: "char \<Rightarrow> string \<Rightarrow> string list" where
  "splitc c [] = [[]]"
| "splitc c (x # xs) =
     (if x = c then [] # splitc c xs
      else (case splitc c xs of [] \<Rightarrow> [[x]] | p # ps \<Rightarrow> (x # p) # ps))"

definition strtok :: "char \<Rightarrow> string \<Rightarrow> string list" where
  [code_defs]: "strtok c s = filter (\<lambda>p. p \<noteq> []) (splitc c s)"

lemma splitc_nonempty [simp]: "splitc c s \<noteq> []"
  by (induction s) (auto split: list.splits)

lemma splitc_no_sep [cstr]: "c \<notin> set s \<Longrightarrow> splitc c s = [s]"
  by (induction s) auto

lemma splitc_append [cstr]: "c \<notin> set p \<Longrightarrow> splitc c (p @ c # t) = p # splitc c t"
  by (induction p) auto

lemma splitc_parts: "p \<in> set (splitc c s) \<Longrightarrow> c \<notin> set p"
proof (induction s arbitrary: p)
  case (Cons x s)
  then show ?case by (cases "splitc c s") (auto split: if_splits)
qed simp

fun joinc :: "char \<Rightarrow> string list \<Rightarrow> string" where
  "joinc c [] = []"
| "joinc c [p] = p"
| "joinc c (p # q # ps) = p @ c # joinc c (q # ps)"

lemma joinc_Cons_cons: "joinc c ((x # p) # ps) = x # joinc c (p # ps)"
  by (cases ps) auto

lemma joinc_splitc [simp]: "joinc c (splitc c s) = s"
proof (induction s)
  case (Cons x s)
  show ?case
  proof (cases "x = c")
    case True
    with Cons show ?thesis by (cases "splitc c s") auto
  next
    case False
    obtain p ps where "splitc c s = p # ps" by (cases "splitc c s") auto
    with Cons False show ?thesis by (simp add: joinc_Cons_cons)
  qed
qed simp

lemma splitc_joinc:
  "ps \<noteq> [] \<Longrightarrow> \<forall>p\<in>set ps. c \<notin> set p \<Longrightarrow> splitc c (joinc c ps) = ps"
  by (induction c ps rule: joinc.induct) (auto simp: cstr)

lemma splitc_cases:
  obtains "c \<notin> set s" and "splitc c s = [s]"
  | p t where "s = p @ c # t" and "c \<notin> set p" and "splitc c s = p # splitc c t"
  by (metis split_list_first splitc_append splitc_no_sep)

lemma length_splitc: "length (splitc c s) \<le> Suc (length s)"
  by (induction s) (auto split: list.splits)

lemma strtok_parts: "p \<in> set (strtok c s) \<Longrightarrow> p \<noteq> [] \<and> c \<notin> set p"
  by (auto simp: strtok_def dest: splitc_parts)

section \<open>Decimal numbers\<close>

text \<open>\<open>%d\<close> of the \<open>printf\<close> family.\<close>

definition digit_char :: "nat \<Rightarrow> char" where
  [code_defs]: "digit_char d = char_of (48 + d)"

fun show_nat :: "nat \<Rightarrow> string" where
  "show_nat n = (if n < 10 then [digit_char n] else show_nat (n div 10) @ [digit_char (n mod 10)])"

declare show_nat.simps [simp del]

definition show_int :: "int \<Rightarrow> string" where
  [code_defs]: "show_int i = (if i < 0 then CHR ''-'' # show_nat (nat (- i)) else show_nat (nat i))"

text \<open>\<open>strtol (s, NULL, 10)\<close> of a 64-bit \<open>long\<close>: white space, a sign, digits, saturating.\<close>

definition LONG_MAX :: int where [code_defs]: "LONG_MAX = 9223372036854775807"
definition LONG_MIN :: int where [code_defs]: "LONG_MIN = - 9223372036854775808"

definition is_space :: "char \<Rightarrow> bool" where
  [code_defs]: "is_space c \<longleftrightarrow> (let n = of_char c :: nat in n = 32 \<or> (9 \<le> n \<and> n \<le> 13))"

definition is_digit :: "char \<Rightarrow> bool" where
  [code_defs]: "is_digit c \<longleftrightarrow> (let n = of_char c :: nat in 48 \<le> n \<and> n \<le> 57)"

definition digit_val :: "char \<Rightarrow> nat" where
  [code_defs]: "digit_val c = of_char c - 48"

fun read_digits :: "nat \<Rightarrow> string \<Rightarrow> nat" where
  "read_digits n [] = n"
| "read_digits n (c # s) = (if is_digit c then read_digits (10 * n + digit_val c) s else n)"

definition clamp_long :: "int \<Rightarrow> int" where
  [code_defs]: "clamp_long i = max LONG_MIN (min LONG_MAX i)"

definition strtol :: "string \<Rightarrow> int" where
  [code_defs]: "strtol s = clamp_long
     (case dropWhile is_space s of
        [] \<Rightarrow> 0
      | c # t \<Rightarrow>
          if c = CHR ''-'' then - int (read_digits 0 t)
          else if c = CHR ''+'' then int (read_digits 0 t)
          else int (read_digits 0 (c # t)))"

lemma strtol_range: "LONG_MIN \<le> strtol s \<and> strtol s \<le> LONG_MAX"
  by (auto simp: strtol_def clamp_long_def LONG_MIN_def LONG_MAX_def)

lemma is_digit_digit_char [simp]: "d < 10 \<Longrightarrow> is_digit (digit_char d)"
  by (simp add: is_digit_def digit_char_def)

lemma digit_val_digit_char [simp]: "d < 10 \<Longrightarrow> digit_val (digit_char d) = d"
  by (simp add: digit_val_def digit_char_def)

lemma show_nat_digits: "c \<in> set (show_nat n) \<Longrightarrow> is_digit c"
proof (induction n rule: show_nat.induct)
  case (1 n)
  then show ?case
    by (cases "n < 10") (auto simp: show_nat.simps [of n])
qed

lemma show_nat_nonempty [simp]: "show_nat n \<noteq> []"
  by (subst show_nat.simps) simp

lemma read_digits_append:
  "\<forall>c\<in>set s. is_digit c \<Longrightarrow> read_digits n (s @ t) = read_digits (read_digits n s) t"
  by (induction s arbitrary: n) auto

lemma read_digits_show_nat [simp]: "read_digits 0 (show_nat n) = n"
proof (induction n rule: show_nat.induct)
  case (1 n)
  show ?case
  proof (cases "n < 10")
    case True
    then show ?thesis by (simp add: show_nat.simps [of n])
  next
    case False
    then show ?thesis
      using 1 show_nat_digits [of _ "n div 10"]
      by (simp add: show_nat.simps [of n] read_digits_append)
  qed
qed

lemma show_nat_hd:
  obtains c t where "show_nat n = c # t" and "is_digit c"
  by (metis list.set_intros(1) neq_Nil_conv show_nat_digits show_nat_nonempty)

lemma is_digit_not_space: "is_digit c \<Longrightarrow> \<not> is_space c \<and> c \<noteq> CHR ''-'' \<and> c \<noteq> CHR ''+''"
  by (auto simp: is_digit_def is_space_def Let_def)

lemma strtol_show_int:
  assumes "LONG_MIN \<le> i" and "i \<le> LONG_MAX"
  shows "strtol (show_int i) = i"
proof (cases "i < 0")
  case True
  then show ?thesis
    using assms by (simp add: strtol_def show_int_def is_space_def clamp_long_def)
next
  case False
  obtain c t where ct: "show_nat (nat i) = c # t" and "is_digit c"
    by (rule show_nat_hd)
  then have c: "\<not> is_space c" "c \<noteq> CHR ''-''" "c \<noteq> CHR ''+''"
    by (auto dest: is_digit_not_space)
  have "read_digits 0 (c # t) = nat i"
    by (simp flip: ct)
  with False c ct assms show ?thesis
    by (simp add: strtol_def show_int_def clamp_long_def)
qed

section \<open>Lists\<close>

lemma nth_update_if: "(xs[i := v]) ! j = (if i = j \<and> i < length xs then v else xs ! j)"
  by (cases "i < length xs") (auto simp: nth_list_update list_update_beyond)

section \<open>Conversions\<close>

text \<open>The conversions to \<open>int\<close> and \<open>long\<close>: reduction modulo the width.\<close>

definition c_int :: "int \<Rightarrow> int" where
  [code_defs]: "c_int i = (i + 2147483648) mod 4294967296 - 2147483648"

definition c_long :: "int \<Rightarrow> int" where
  [code_defs]: "c_long i = (i + 9223372036854775808) mod 18446744073709551616 - 9223372036854775808"

lemma c_long_id: "LONG_MIN \<le> i \<Longrightarrow> i \<le> LONG_MAX \<Longrightarrow> c_long i = i"
  by (simp add: c_long_def LONG_MIN_def LONG_MAX_def)

lemma c_int_id: "- 2147483648 \<le> i \<Longrightarrow> i \<le> 2147483647 \<Longrightarrow> c_int i = i"
  by (simp add: c_int_def)

lemma c_int_range: "- 2147483648 \<le> c_int i \<and> c_int i \<le> 2147483647"
  unfolding c_int_def by linarith

section \<open>Lists of options\<close>

lemma those_map_ex:
  assumes "\<forall>x\<in>set xs. \<exists>y. f x = Some y \<and> P x y"
  shows "\<exists>ys. those (map f xs) = Some ys \<and> list_all2 P xs ys"
  using assms by (induction xs) (fastforce split: option.splits)+

lemma those_map_Some: "\<forall>x\<in>set xs. f x = Some (g x) \<Longrightarrow> those (map f xs) = Some (map g xs)"
  by (induction xs) auto

section \<open>Results\<close>

text \<open>
  The result of a function that may fail: \<open>None\<close> is undefined behaviour, \<open>Inl\<close> an error code, \<open>Inr\<close> a value. A function goes on with the
  value, and a loop over a list ends at the first error.
\<close>

definition and_then :: "('e + 'a) option \<Rightarrow> ('a \<Rightarrow> ('e + 'b) option) \<Rightarrow> ('e + 'b) option" where
  [code_defs]: "and_then r f = (case r of None \<Rightarrow> None | Some (Inl e) \<Rightarrow> Some (Inl e) | Some (Inr x) \<Rightarrow> f x)"

fun each :: "('a \<Rightarrow> ('e + 'b) option) \<Rightarrow> 'a list \<Rightarrow> ('e + 'b list) option" where
  "each f [] = Some (Inr [])"
| "each f (x # xs) = and_then (f x) (\<lambda>y. and_then (each f xs) (\<lambda>ys. Some (Inr (y # ys))))"

lemma and_then_simps [simp]:
  "and_then None f = None" "and_then (Some (Inl e)) f = Some (Inl e)" "and_then (Some (Inr x)) f = f x"
  by (simp_all add: and_then_def)

lemma and_then_Inr [simp]: "and_then r f = Some (Inr y) \<longleftrightarrow> (\<exists>x. r = Some (Inr x) \<and> f x = Some (Inr y))"
  by (auto simp: and_then_def split: option.splits sum.splits)

lemma and_then_cong [fundef_cong]:
  "r = r' \<Longrightarrow> (\<And>x. r' = Some (Inr x) \<Longrightarrow> f x = g x) \<Longrightarrow> and_then r f = and_then r' g"
  by (auto simp: and_then_def split: option.splits sum.splits)

lemma each_Inr: "each f xs = Some (Inr ys) \<longleftrightarrow> list_all2 (\<lambda>x y. f x = Some (Inr y)) xs ys"
  by (induction xs arbitrary: ys) (auto simp: list_all2_Cons1)

lemma each_nth: "each f xs = Some (Inr ys) \<Longrightarrow> length ys = length xs \<and> (\<forall>i < length xs. f (xs ! i) = Some (Inr (ys ! i)))"
  by (simp add: each_Inr list_all2_conv_all_nth)

lemma each_InrI: "(\<And>x. x \<in> set xs \<Longrightarrow> f x = Some (Inr (g x))) \<Longrightarrow> each f xs = Some (Inr (map g xs))"
  by (induction xs) auto

end
