(* ===== verification/Hashtbl.thy ===== *)
theory Hashtbl
  imports Oph_Prelude
begin

text \<open>
  The chained hash table of \<^verbatim>\<open>src/src/hashtbl.c\<close>. A table is an array of chains; a chain is the list of
  its nodes from the head pointer on. A node carries the copied payload and its size; the callers
  pass the size of the whole object (for a text its length), so the copy of that many bytes is the object itself, and the payload is abstract. The size of
  a table is a 64-bit \<open>hash_size\<close>; a table of size 0 is outside the model (the code would divide by
  zero), which the invariant \<open>hashtbl_ok\<close> states. \<open>hashtbl_get\<close> is at the same time the abstraction
  of a table to a finite map. The locale \<open>string_env\<close> is the contract the workflow code relies on
  when it keeps its variables in such a table.
\<close>

section \<open>Data\<close>

type_synonym hash_size = "64 word"

record 'v hashnode =
  hn_key :: string
  hn_data :: 'v
  hn_size :: nat

record 'v hashtbl =
  ht_size :: hash_size
  ht_nodes :: "'v hashnode list list"
  ht_hashfunc :: "string \<Rightarrow> hash_size"

section \<open>Operations\<close>

fun def_hashfunc_from :: "hash_size \<Rightarrow> string \<Rightarrow> hash_size" where
  "def_hashfunc_from hash [] = hash"
| "def_hashfunc_from hash (c # key) = def_hashfunc_from (hash + of_nat (of_char c)) key"

definition def_hashfunc :: "string \<Rightarrow> hash_size" where
  [code_defs]: "def_hashfunc key = def_hashfunc_from 0 key"

definition hashtbl_create :: "hash_size \<Rightarrow> (string \<Rightarrow> hash_size) option \<Rightarrow> 'v hashtbl" where
  [code_defs]: "hashtbl_create sz hashfunc =
     \<lparr>ht_size = sz, ht_nodes = replicate (unat sz) [],
      ht_hashfunc = (case hashfunc of Some f \<Rightarrow> f | None \<Rightarrow> def_hashfunc)\<rparr>"

definition bucket_of :: "'v hashtbl \<Rightarrow> string \<Rightarrow> nat" where
  [code_defs]: "bucket_of h key = unat (ht_hashfunc h key mod ht_size h)"

fun chain_find :: "string \<Rightarrow> 'v hashnode list \<Rightarrow> 'v hashnode option" where
  "chain_find key [] = None"
| "chain_find key (node # chain) = (if hn_key node = key then Some node else chain_find key chain)"

fun chain_remove :: "string \<Rightarrow> 'v hashnode list \<Rightarrow> 'v hashnode list option" where
  "chain_remove key [] = None"
| "chain_remove key (node # chain) =
     (if hn_key node = key then Some chain else map_option (Cons node) (chain_remove key chain))"

definition hashtbl_insert_with_size ::
    "'v hashtbl \<Rightarrow> string \<Rightarrow> 'v \<Rightarrow> nat \<Rightarrow> int \<times> 'v hashtbl" where
  [code_defs]: "hashtbl_insert_with_size h key data sz =
     (let hash = bucket_of h key; chain = ht_nodes h ! hash in
      case chain_find key chain of
        Some _ \<Rightarrow> (- 1, h)
      | None \<Rightarrow>
          (0, h\<lparr>ht_nodes := (ht_nodes h)
                 [hash := \<lparr>hn_key = key, hn_data = data, hn_size = sz\<rparr> # chain]\<rparr>))"

definition hashtbl_insert :: "string hashtbl \<Rightarrow> string \<Rightarrow> string \<Rightarrow> int \<times> string hashtbl" where
  [code_defs]: "hashtbl_insert h key data = hashtbl_insert_with_size h key data (length data)"

definition hashtbl_remove :: "'v hashtbl \<Rightarrow> string \<Rightarrow> int \<times> 'v hashtbl" where
  [code_defs]: "hashtbl_remove h key =
     (let hash = bucket_of h key in
      case chain_remove key (ht_nodes h ! hash) of
        None \<Rightarrow> (- 1, h)
      | Some chain \<Rightarrow> (0, h\<lparr>ht_nodes := (ht_nodes h)[hash := chain]\<rparr>))"

definition hashtbl_get :: "'v hashtbl \<Rightarrow> string \<Rightarrow> 'v option" where
  [code_defs]: "hashtbl_get h key =
     map_option hn_data (chain_find key (ht_nodes h ! bucket_of h key))"

text \<open>The copy loop of \<open>hashtbl_duplicate\<close> stops at the first insertion that fails.\<close>

fun copy_nodes :: "'v hashnode list \<Rightarrow> 'v hashtbl \<Rightarrow> 'v hashtbl option" where
  "copy_nodes [] t = Some t"
| "copy_nodes (node # ns) t =
     (case hashtbl_insert_with_size t (hn_key node) (hn_data node) (hn_size node) of
        (rc, t') \<Rightarrow> if rc \<noteq> 0 then None else copy_nodes ns t')"

definition hashtbl_duplicate :: "'v hashtbl \<Rightarrow> 'v hashtbl option" where
  [code_defs]: "hashtbl_duplicate h =
     copy_nodes (concat (ht_nodes h)) (hashtbl_create (ht_size h) (Some (ht_hashfunc h)))"

text \<open>
  The loop of \<open>hashtbl_resize\<close> inserts every node into the new table and removes it from the old
  one, ignoring both return codes.
\<close>

fun move_nodes :: "'v hashnode list \<Rightarrow> 'v hashtbl \<Rightarrow> 'v hashtbl \<Rightarrow> 'v hashtbl \<times> 'v hashtbl" where
  "move_nodes [] new old = (new, old)"
| "move_nodes (node # ns) new old =
     move_nodes ns
       (snd (hashtbl_insert_with_size new (hn_key node) (hn_data node) (hn_size node)))
       (snd (hashtbl_remove old (hn_key node)))"

definition hashtbl_resize :: "'v hashtbl \<Rightarrow> hash_size \<Rightarrow> int \<times> 'v hashtbl" where
  [code_defs]: "hashtbl_resize h sz =
     (case move_nodes (concat (ht_nodes h)) (hashtbl_create sz (Some (ht_hashfunc h))) h of
        (new, old) \<Rightarrow> (0, old\<lparr>ht_size := ht_size new, ht_nodes := ht_nodes new\<rparr>))"

fun scan_buckets :: "'v hashnode list list \<Rightarrow> 'v hashnode option" where
  "scan_buckets [] = None"
| "scan_buckets (chain # bs) = (case chain of node # _ \<Rightarrow> Some node | [] \<Rightarrow> scan_buckets bs)"

text \<open>\<open>hashtbl_next\<close>: \<open>None\<close> is the return code -1, \<open>Some\<close> the key and the data written on 0.\<close>

definition hashtbl_next :: "'v hashtbl \<Rightarrow> string option \<Rightarrow> (string \<times> 'v) option" where
  [code_defs]: "hashtbl_next h key =
     map_option (\<lambda>node. (hn_key node, hn_data node))
      (case key of
         None \<Rightarrow> scan_buckets (ht_nodes h)
       | Some k \<Rightarrow>
           (let hash = bucket_of h k in
            case dropWhile (\<lambda>node. hn_key node \<noteq> k) (ht_nodes h ! hash) of
              [] \<Rightarrow> None
            | _ # rest \<Rightarrow> scan_buckets (rest # drop (Suc hash) (ht_nodes h))))"

section \<open>Invariant\<close>

definition hashtbl_ok :: "'v hashtbl \<Rightarrow> bool" where
  "hashtbl_ok h \<longleftrightarrow> ht_size h \<noteq> 0 \<and> length (ht_nodes h) = unat (ht_size h) \<and>
     (\<forall>i < length (ht_nodes h). \<forall>n \<in> set (ht_nodes h ! i). bucket_of h (hn_key n) = i) \<and>
     (\<forall>i < length (ht_nodes h). distinct (map hn_key (ht_nodes h ! i)))"

lemma chain_find_map_of:
  "map_option hn_data (chain_find k c) = map_of (map (\<lambda>n. (hn_key n, hn_data n)) c) k"
  by (induction c) auto

lemma chain_find_None: "chain_find k c = None \<longleftrightarrow> k \<notin> hn_key ` set c"
  by (induction c) auto

lemma chain_remove_None: "chain_remove k c = None \<longleftrightarrow> k \<notin> hn_key ` set c"
  by (induction c) auto

lemma chain_remove_set: "chain_remove k c = Some c' \<Longrightarrow> set c' \<subseteq> set c"
  by (induction c arbitrary: c') (auto split: if_splits)

lemma chain_remove_distinct:
  "chain_remove k c = Some c' \<Longrightarrow> distinct (map hn_key c) \<Longrightarrow>
   distinct (map hn_key c') \<and> k \<notin> hn_key ` set c'"
proof (induction c arbitrary: c')
  case (Cons n c)
  then show ?case
    by (cases "hn_key n = k") (fastforce dest: chain_remove_set)+
qed simp

lemma chain_remove_find:
  "chain_remove k c = Some c' \<Longrightarrow> k' \<noteq> k \<Longrightarrow> chain_find k' c' = chain_find k' c"
  by (induction c arbitrary: c') (auto split: if_splits)

lemma bucket_of_less: "hashtbl_ok h \<Longrightarrow> bucket_of h k < length (ht_nodes h)"
  by (simp add: hashtbl_ok_def bucket_of_def unat_mod word_gt_0_no unat_gt_0)

lemma bucket_of_update [simp]: "bucket_of (h\<lparr>ht_nodes := ns\<rparr>) k = bucket_of h k"
  by (simp add: bucket_of_def)

lemma hashtbl_ok_create: "sz \<noteq> 0 \<Longrightarrow> hashtbl_ok (hashtbl_create sz f)"
  by (simp add: hashtbl_ok_def hashtbl_create_def)

lemma hashtbl_get_create [simp]: "sz \<noteq> 0 \<Longrightarrow> hashtbl_get (hashtbl_create sz f) k = None"
  by (simp add: hashtbl_get_def hashtbl_create_def bucket_of_def unat_mod unat_gt_0)

lemma hashtbl_get_None:
  "hashtbl_get h k = None \<longleftrightarrow> k \<notin> hn_key ` set (ht_nodes h ! bucket_of h k)"
  by (simp add: hashtbl_get_def chain_find_None)

lemma insert_bound:
  "hashtbl_get h k \<noteq> None \<Longrightarrow> hashtbl_insert_with_size h k d s = (- 1, h)"
  by (auto simp: hashtbl_get_def hashtbl_insert_with_size_def Let_def)

lemma insert_fresh:
  assumes "hashtbl_ok h" and "hashtbl_get h k = None"
  obtains h' where "hashtbl_insert_with_size h k d s = (0, h')" and "hashtbl_ok h'"
    and "hashtbl_get h' = (hashtbl_get h)(k \<mapsto> d)"
    and "ht_size h' = ht_size h" and "ht_hashfunc h' = ht_hashfunc h"
proof -
  let ?b = "bucket_of h k" and ?n = "\<lparr>hn_key = k, hn_data = d, hn_size = s\<rparr>"
  let ?h = "h\<lparr>ht_nodes := (ht_nodes h)[?b := ?n # ht_nodes h ! ?b]\<rparr>"
  have less: "?b < length (ht_nodes h)"
    using assms(1) by (rule bucket_of_less)
  have none: "chain_find k (ht_nodes h ! ?b) = None"
    using assms(2) by (simp add: hashtbl_get_def)
  have eq: "hashtbl_insert_with_size h k d s = (0, ?h)"
    using none by (simp add: hashtbl_insert_with_size_def Let_def)
  have ok: "hashtbl_ok ?h"
    using assms(1) less none
    by (auto simp: hashtbl_ok_def nth_list_update chain_find_None)
  have get: "hashtbl_get ?h = (hashtbl_get h)(k \<mapsto> d)"
    using less by (auto simp: hashtbl_get_def nth_list_update)
  show thesis
    by (rule that [OF eq ok get]) simp_all
qed

lemma remove_unbound: "hashtbl_get h k = None \<Longrightarrow> hashtbl_remove h k = (- 1, h)"
  by (simp add: hashtbl_get_None hashtbl_remove_def Let_def chain_remove_None [symmetric])

lemma remove_bound:
  assumes "hashtbl_ok h" and "hashtbl_get h k \<noteq> None"
  obtains h' where "hashtbl_remove h k = (0, h')" and "hashtbl_ok h'"
    and "hashtbl_get h' = (hashtbl_get h)(k := None)"
    and "ht_size h' = ht_size h" and "ht_hashfunc h' = ht_hashfunc h"
proof -
  let ?b = "bucket_of h k"
  have less: "?b < length (ht_nodes h)"
    using assms(1) by (rule bucket_of_less)
  obtain c where c: "chain_remove k (ht_nodes h ! ?b) = Some c"
    using assms(2) chain_remove_None [of k] by (auto simp: hashtbl_get_None)
  let ?h = "h\<lparr>ht_nodes := (ht_nodes h)[?b := c]\<rparr>"
  have eq: "hashtbl_remove h k = (0, ?h)"
    using c by (simp add: hashtbl_remove_def Let_def)
  have dist: "distinct (map hn_key c)" "k \<notin> hn_key ` set c"
    using assms(1) less chain_remove_distinct [OF c] by (auto simp: hashtbl_ok_def)
  have ok: "hashtbl_ok ?h"
    using assms(1) less dist chain_remove_set [OF c]
    by (auto simp: hashtbl_ok_def nth_list_update)
  have get: "hashtbl_get ?h = (hashtbl_get h)(k := None)"
    using less dist(2) chain_remove_find [OF c]
    by (auto simp: hashtbl_get_def nth_list_update chain_find_None [symmetric])
  show thesis
    by (rule that [OF eq ok get]) simp_all
qed

section \<open>The table as a map\<close>

abbreviation node_pair :: "'v hashnode \<Rightarrow> string \<times> 'v" where
  "node_pair n \<equiv> (hn_key n, hn_data n)"

lemma nodes_split:
  assumes "hashtbl_ok h"
  shows "concat (ht_nodes h) = concat (take (bucket_of h k) (ht_nodes h)) @
    ht_nodes h ! bucket_of h k @ concat (drop (Suc (bucket_of h k)) (ht_nodes h))"
  using id_take_nth_drop [OF bucket_of_less [OF assms, of k]]
  by (metis concat.simps(2) concat_append)

lemma key_in_bucket:
  assumes "hashtbl_ok h" and "n \<in> set (ht_nodes h ! i)" and "i < length (ht_nodes h)"
  shows "bucket_of h (hn_key n) = i"
  using assms by (auto simp: hashtbl_ok_def)

lemma set_concat_nth: "x \<in> set (concat bs) \<Longrightarrow> \<exists>i < length bs. x \<in> set (bs ! i)"
  by (induction bs) (auto, force)

lemma key_not_elsewhere:
  assumes "hashtbl_ok h"
  shows "k \<notin> hn_key ` set (concat (take (bucket_of h k) (ht_nodes h)))"
    and "k \<notin> hn_key ` set (concat (drop (Suc (bucket_of h k)) (ht_nodes h)))"
proof -
  show "k \<notin> hn_key ` set (concat (take (bucket_of h k) (ht_nodes h)))"
  proof
    assume "k \<in> hn_key ` set (concat (take (bucket_of h k) (ht_nodes h)))"
    then obtain n where "n \<in> set (concat (take (bucket_of h k) (ht_nodes h)))" and n: "hn_key n = k"
      by blast
    from set_concat_nth [OF this(1)] obtain i
      where i: "i < bucket_of h k" "i < length (ht_nodes h)" "n \<in> set (ht_nodes h ! i)"
      by auto
    from key_in_bucket [OF assms i(3,2)] i(1) n show False by simp
  qed
  show "k \<notin> hn_key ` set (concat (drop (Suc (bucket_of h k)) (ht_nodes h)))"
  proof
    assume "k \<in> hn_key ` set (concat (drop (Suc (bucket_of h k)) (ht_nodes h)))"
    then obtain n where "n \<in> set (concat (drop (Suc (bucket_of h k)) (ht_nodes h)))" and n: "hn_key n = k"
      by blast
    from set_concat_nth [OF this(1)] obtain i where i: "Suc (bucket_of h k) + i < length (ht_nodes h)"
      "n \<in> set (ht_nodes h ! (Suc (bucket_of h k) + i))"
      by (auto simp: less_diff_conv add.commute)
    from key_in_bucket [OF assms i(2,1)] n show False by simp
  qed
qed

lemma distinct_keys_buckets:
  "(\<And>i n. i < length bs \<Longrightarrow> n \<in> set (bs ! i) \<Longrightarrow> f (hn_key n) = m + i) \<Longrightarrow>
   (\<And>i. i < length bs \<Longrightarrow> distinct (map hn_key (bs ! i))) \<Longrightarrow> distinct (map hn_key (concat bs))"
proof (induction bs arbitrary: m)
  case (Cons b bs)
  have tail: "f (hn_key n) = Suc m + i" if "i < length bs" "n \<in> set (bs ! i)" for i n
    using Cons.prems(1) [of "Suc i" n] that by simp
  have b: "f (hn_key n) = m" if "n \<in> set b" for n
    using Cons.prems(1) [of 0 n] that by simp
  have "hn_key n \<noteq> hn_key n'" if n: "n \<in> set b" and n': "n' \<in> set (concat bs)" for n n'
  proof -
    obtain i where "i < length bs" "n' \<in> set (bs ! i)"
      using set_concat_nth [OF n'] by blast
    then show ?thesis using tail [of i n'] b [OF n] by auto
  qed
  then have "hn_key ` set b \<inter> hn_key ` set (concat bs) = {}"
    by auto
  moreover have "distinct (map hn_key (concat bs))"
    using Cons.prems(2) [of "Suc _"] by (intro Cons.IH [of "Suc m"]) (simp_all add: tail)
  moreover have "distinct (map hn_key b)"
    using Cons.prems(2) [of 0] by simp
  ultimately show ?case by (simp del: set_concat map_concat)
qed simp

lemma distinct_keys: "hashtbl_ok h \<Longrightarrow> distinct (map hn_key (concat (ht_nodes h)))"
  by (rule distinct_keys_buckets [where f = "bucket_of h" and m = 0]) (auto simp: hashtbl_ok_def)

lemma map_of_keys_None: "k \<notin> hn_key ` set ns \<Longrightarrow> map_of (map node_pair ns) k = None"
  by (auto simp: map_of_eq_None_iff)

lemma hashtbl_get_map_of:
  assumes "hashtbl_ok h"
  shows "hashtbl_get h k = map_of (map node_pair (concat (ht_nodes h))) k"
  using key_not_elsewhere [OF assms, of k]
  by (subst nodes_split [OF assms, of k])
    (simp add: map_add_def map_of_keys_None hashtbl_get_def chain_find_map_of split: option.split
      del: set_concat)

lemma copy_nodes_ok:
  assumes "hashtbl_ok t" and "distinct (map hn_key ns)" and "\<forall>n\<in>set ns. hashtbl_get t (hn_key n) = None"
  shows "\<exists>t'. copy_nodes ns t = Some t' \<and> hashtbl_ok t' \<and>
    hashtbl_get t' = hashtbl_get t ++ map_of (map node_pair ns) \<and>
    ht_size t' = ht_size t \<and> ht_hashfunc t' = ht_hashfunc t"
  using assms
proof (induction ns arbitrary: t)
  case (Cons n ns)
  from Cons.prems obtain t1 where t1: "hashtbl_insert_with_size t (hn_key n) (hn_data n) (hn_size n) = (0, t1)"
    and ok: "hashtbl_ok t1" and get: "hashtbl_get t1 = (hashtbl_get t)(hn_key n \<mapsto> hn_data n)"
    and same: "ht_size t1 = ht_size t" "ht_hashfunc t1 = ht_hashfunc t"
    by (metis insert_fresh list.set_intros(1))
  have "\<forall>m\<in>set ns. hashtbl_get t1 (hn_key m) = None"
    using Cons.prems get by (auto simp: image_iff)
  with Cons.IH [OF ok] Cons.prems(2) obtain t' where "copy_nodes ns t1 = Some t'" "hashtbl_ok t'"
    "hashtbl_get t' = hashtbl_get t1 ++ map_of (map node_pair ns)"
    "ht_size t' = ht_size t1" "ht_hashfunc t' = ht_hashfunc t1"
    by auto
  moreover have "hashtbl_get t1 ++ map_of (map node_pair ns) = hashtbl_get t ++ map_of (map node_pair (n # ns))"
    using Cons.prems(2) get by (simp add: map_add_upd_left dom_map_of_conv_image_fst image_image)
  ultimately show ?case
    using t1 same by (simp del: map_of.simps list.map)
qed simp

lemma move_nodes_copy: "copy_nodes ns new = Some t \<Longrightarrow> fst (move_nodes ns new old) = t"
  by (induction ns arbitrary: new old) (auto split: if_splits prod.splits)

lemma hashtbl_remove_hashfunc [simp]: "ht_hashfunc (snd (hashtbl_remove h k)) = ht_hashfunc h"
  by (auto simp: hashtbl_remove_def Let_def split: option.splits)

lemma move_nodes_hashfunc [simp]: "ht_hashfunc (snd (move_nodes ns new old)) = ht_hashfunc old"
  by (induction ns arbitrary: new old) auto

lemma copy_table:
  assumes "hashtbl_ok h" and "sz \<noteq> 0"
  obtains t where "copy_nodes (concat (ht_nodes h)) (hashtbl_create sz (Some (ht_hashfunc h))) = Some t"
    and "hashtbl_ok t" and "hashtbl_get t = hashtbl_get h" and "ht_size t = sz"
    and "ht_hashfunc t = ht_hashfunc h"
proof -
  let ?t = "hashtbl_create sz (Some (ht_hashfunc h)) :: 'a hashtbl"
  have empty: "hashtbl_get ?t = Map.empty"
    using assms(2) by (simp add: fun_eq_iff)
  obtain t where t: "copy_nodes (concat (ht_nodes h)) ?t = Some t" "hashtbl_ok t"
    "hashtbl_get t = hashtbl_get ?t ++ map_of (map node_pair (concat (ht_nodes h)))"
    "ht_size t = ht_size ?t" "ht_hashfunc t = ht_hashfunc ?t"
    using copy_nodes_ok [OF hashtbl_ok_create [OF assms(2)] distinct_keys [OF assms(1)]] assms(2)
    by force
  have "hashtbl_get t = hashtbl_get h"
    using t(3) empty by (simp add: fun_eq_iff hashtbl_get_map_of [OF assms(1)])
  with t show thesis
    by (intro that [of t]) (simp_all add: hashtbl_create_def)
qed

lemma scan_buckets_concat: "scan_buckets bs = (case concat bs of [] \<Rightarrow> None | n # _ \<Rightarrow> Some n)"
proof (induction bs)
  case (Cons b bs)
  then show ?case by (cases b) simp_all
qed simp

lemma dropWhile_key:
  "distinct (map hn_key (us @ n # vs)) \<Longrightarrow>
   dropWhile (\<lambda>m. hn_key m \<noteq> hn_key n) (us @ n # vs) = n # vs"
  by (induction us) auto

lemma append_cons_unique:
  "xs @ n # ys = xs' @ n # ys' \<Longrightarrow> n \<notin> set xs \<Longrightarrow> n \<notin> set xs' \<Longrightarrow> xs = xs' \<and> ys = ys'"
  by (induction xs arbitrary: xs') (auto simp: Cons_eq_append_conv append_eq_Cons_conv)

section \<open>The contract of a variable environment\<close>

text \<open>
  The code that stores workflow and task variables uses three operations only: look a variable up,
  insert one (refused when the name is bound), and remove one. \<open>rem\<close> followed by \<open>ins\<close> is how
  \<open>oph_endfor_impl\<close> advances a loop variable.
\<close>

locale string_env =
  fixes get :: "'h \<Rightarrow> string \<Rightarrow> 'v option"
    and ins :: "'h \<Rightarrow> string \<Rightarrow> 'v \<Rightarrow> nat \<Rightarrow> int \<times> 'h"
    and rem :: "'h \<Rightarrow> string \<Rightarrow> int \<times> 'h"
    and inv :: "'h \<Rightarrow> bool"
  assumes ins_bound: "get h k \<noteq> None \<Longrightarrow> ins h k d s = (- 1, h)"
    and ins_fresh: "inv h \<Longrightarrow> get h k = None \<Longrightarrow>
      fst (ins h k d s) = 0 \<and> inv (snd (ins h k d s)) \<and> get (snd (ins h k d s)) = (get h)(k \<mapsto> d)"
    and rem_unbound: "get h k = None \<Longrightarrow> rem h k = (- 1, h)"
    and rem_bound: "inv h \<Longrightarrow> get h k \<noteq> None \<Longrightarrow>
      fst (rem h k) = 0 \<and> inv (snd (rem h k)) \<and> get (snd (rem h k)) = (get h)(k := None)"
begin

lemma ins_inv: "inv h \<Longrightarrow> inv (snd (ins h k d s))"
  by (cases "get h k") (simp_all add: ins_bound ins_fresh)

lemma rem_inv: "inv h \<Longrightarrow> inv (snd (rem h k))"
  by (cases "get h k") (simp_all add: rem_unbound rem_bound)

lemma rem_get: "inv h \<Longrightarrow> get (snd (rem h k)) = (get h)(k := None)"
  by (cases "get h k") (auto simp: rem_unbound rem_bound)

lemma ins_keeps: "inv h \<Longrightarrow> get h k' = Some v \<Longrightarrow> get (snd (ins h k d s)) k' = Some v"
  by (cases "get h k") (auto simp: ins_bound ins_fresh)

lemma ins_get_other: "inv h \<Longrightarrow> k' \<noteq> k \<Longrightarrow> get (snd (ins h k d s)) k' = get h k'"
  by (cases "get h k") (auto simp: ins_bound ins_fresh)

lemma ins_rc: "inv h \<Longrightarrow> fst (ins h k d s) = 0 \<longleftrightarrow> get h k = None"
  by (cases "get h k") (auto simp: ins_bound ins_fresh)

lemma ins_default: "inv h \<Longrightarrow>
  get (snd (ins h k d s)) k = Some (case get h k of None \<Rightarrow> d | Some v \<Rightarrow> v)"
  by (cases "get h k") (auto simp: ins_bound ins_fresh)

lemma replace:
  assumes "inv h"
  shows "fst (ins (snd (rem h k)) k d s) = 0"
    and "get (snd (ins (snd (rem h k)) k d s)) = (get h)(k \<mapsto> d)"
    and "inv (snd (ins (snd (rem h k)) k d s))"
  using assms by (simp_all add: ins_fresh rem_get rem_inv)

end

interpretation ht: string_env hashtbl_get hashtbl_insert_with_size hashtbl_remove hashtbl_ok
proof unfold_locales
  show "fst (hashtbl_insert_with_size h k d s) = 0 \<and> hashtbl_ok (snd (hashtbl_insert_with_size h k d s)) \<and>
      hashtbl_get (snd (hashtbl_insert_with_size h k d s)) = (hashtbl_get h)(k \<mapsto> d)"
    if "hashtbl_ok h" "hashtbl_get h k = None" for h :: "'a hashtbl" and k d s
    using that by (metis insert_fresh fst_conv snd_conv)
  show "fst (hashtbl_remove h k) = 0 \<and> hashtbl_ok (snd (hashtbl_remove h k)) \<and>
      hashtbl_get (snd (hashtbl_remove h k)) = (hashtbl_get h)(k := None)"
    if "hashtbl_ok h" "hashtbl_get h k \<noteq> None" for h :: "'a hashtbl" and k
    using that by (metis remove_bound fst_conv snd_conv)
qed (simp_all add: insert_bound remove_unbound)

section \<open>Properties\<close>

text \<open>
  C9: the table refines a finite map. On a well-formed table an insertion of a new key succeeds and
  binds exactly this key, an insertion of a bound key returns -1 and changes nothing, a removal
  unbinds exactly its key or returns -1 when the key is not bound, and both keep the table
  well-formed.
\<close>

theorem hashtbl_refines_map:
  assumes "hashtbl_ok h"
  shows "hashtbl_ok (snd (hashtbl_insert_with_size h k d s)) \<and> hashtbl_ok (snd (hashtbl_remove h k))
    \<and> fst (hashtbl_insert_with_size h k d s) = (if hashtbl_get h k = None then 0 else - 1)
    \<and> hashtbl_get (snd (hashtbl_insert_with_size h k d s)) =
        (if hashtbl_get h k = None then (hashtbl_get h)(k \<mapsto> d) else hashtbl_get h)
    \<and> fst (hashtbl_remove h k) = (if hashtbl_get h k = None then - 1 else 0)
    \<and> hashtbl_get (snd (hashtbl_remove h k)) = (hashtbl_get h)(k := None)"
  using ht.ins_fresh [OF assms, of k d s] ht.rem_bound [OF assms, of k]
  by (auto simp: ht.ins_inv ht.rem_inv ht.ins_bound ht.rem_unbound ht.rem_get assms)

definition demo_table :: "string hashtbl" where
  "demo_table = snd (hashtbl_insert (snd (hashtbl_insert (hashtbl_create 4 None) ''ab'' ''x'')) ''ba'' ''y'')"

lemma demo_table_ok: "hashtbl_ok demo_table"
  unfolding demo_table_def hashtbl_insert_def by (intro ht.ins_inv hashtbl_ok_create) simp

theorem hashtbl_refines_map_witness:
  "hashtbl_ok (snd (hashtbl_insert_with_size demo_table ''ab'' ''z'' 1)) \<and>
   fst (hashtbl_insert_with_size demo_table ''ab'' ''z'' 1) = - 1 \<and>
   hashtbl_get (snd (hashtbl_remove demo_table ''ab'')) ''ba'' = Some ''y''"
proof -
  have "hashtbl_get demo_table ''ab'' = Some ''x''" and "hashtbl_get demo_table ''ba'' = Some ''y''"
    by code_simp+
  then show ?thesis
    using hashtbl_refines_map [OF demo_table_ok, of "''ab''" "''z''" 1] by simp
qed

text \<open>
  Remark: copying and rehashing lose nothing. On a well-formed table \<open>hashtbl_duplicate\<close> always succeeds
  and \<open>hashtbl_resize\<close> to any non-zero size returns 0; both results are well-formed and answer
  every look-up as the original table does.
\<close>

theorem hashtbl_copy_resize:
  assumes "hashtbl_ok h" and "sz \<noteq> 0"
  shows "(\<exists>t. hashtbl_duplicate h = Some t \<and> hashtbl_ok t \<and> hashtbl_get t = hashtbl_get h \<and> ht_size t = ht_size h)
    \<and> (\<exists>t. hashtbl_resize h sz = (0, t) \<and> hashtbl_ok t \<and> hashtbl_get t = hashtbl_get h \<and> ht_size t = sz)"
proof
  have "ht_size h \<noteq> 0" using assms(1) by (simp add: hashtbl_ok_def)
  with assms(1) show "\<exists>t. hashtbl_duplicate h = Some t \<and> hashtbl_ok t \<and> hashtbl_get t = hashtbl_get h \<and> ht_size t = ht_size h"
    by (metis copy_table hashtbl_duplicate_def)
next
  obtain t where t: "copy_nodes (concat (ht_nodes h)) (hashtbl_create sz (Some (ht_hashfunc h))) = Some t"
    "hashtbl_ok t" "hashtbl_get t = hashtbl_get h" "ht_size t = sz" "ht_hashfunc t = ht_hashfunc h"
    using assms by (rule copy_table)
  let ?m = "move_nodes (concat (ht_nodes h)) (hashtbl_create sz (Some (ht_hashfunc h))) h"
  have "hashtbl_resize h sz = (0, (snd ?m)\<lparr>ht_size := ht_size t, ht_nodes := ht_nodes t\<rparr>)"
    using move_nodes_copy [OF t(1), of h] by (auto simp: hashtbl_resize_def split: prod.split)
  also have "(snd ?m)\<lparr>ht_size := ht_size t, ht_nodes := ht_nodes t\<rparr> = t"
    using t(5) by (intro hashtbl.equality) simp_all
  finally show "\<exists>t. hashtbl_resize h sz = (0, t) \<and> hashtbl_ok t \<and> hashtbl_get t = hashtbl_get h \<and> ht_size t = sz"
    using t by auto
qed

theorem hashtbl_copy_resize_witness:
  "\<exists>t. hashtbl_resize demo_table 3 = (0, t) \<and> hashtbl_get t = hashtbl_get demo_table \<and>
     hashtbl_get t ''ba'' = Some ''y''"
proof -
  have "hashtbl_get demo_table ''ba'' = Some ''y''"
    by code_simp
  then show ?thesis
    using hashtbl_copy_resize [OF demo_table_ok, of 3] by auto
qed

lemma dropWhile_bucket:
  assumes "hashtbl_ok h" and "concat (ht_nodes h) = xs @ n # ys"
  obtains vs where "dropWhile (\<lambda>m. hn_key m \<noteq> hn_key n) (ht_nodes h ! bucket_of h (hn_key n)) = n # vs"
    and "ys = vs @ concat (drop (Suc (bucket_of h (hn_key n))) (ht_nodes h))"
proof -
  let ?b = "bucket_of h (hn_key n)"
  have "n \<in> set (concat (ht_nodes h))" using assms(2) by simp
  from set_concat_nth [OF this] obtain i where i: "i < length (ht_nodes h)" "n \<in> set (ht_nodes h ! i)"
    by blast
  then have "n \<in> set (ht_nodes h ! ?b)" using key_in_bucket [OF assms(1) i(2,1)] by simp
  then obtain us vs where uv: "ht_nodes h ! ?b = us @ n # vs" by (auto dest: split_list)
  have dist: "distinct (concat (ht_nodes h))"
    using distinct_keys [OF assms(1)] by (simp only: distinct_map)
  have eq: "xs @ n # ys = (concat (take ?b (ht_nodes h)) @ us) @ n # (vs @ concat (drop (Suc ?b) (ht_nodes h)))"
    using nodes_split [OF assms(1), of "hn_key n"] assms(2) uv by simp
  have "ys = vs @ concat (drop (Suc ?b) (ht_nodes h))"
  proof -
    have "distinct (xs @ n # ys)" using dist assms(2) by simp
    moreover from this eq have "distinct ((concat (take ?b (ht_nodes h)) @ us) @ n # (vs @ concat (drop (Suc ?b) (ht_nodes h))))"
      by simp
    ultimately have "n \<notin> set xs" and "n \<notin> set (concat (take ?b (ht_nodes h)) @ us)"
      by (simp_all only: distinct_append) auto
    then show ?thesis using append_cons_unique [OF eq] by blast
  qed
  moreover have "distinct (map hn_key (ht_nodes h ! ?b))"
    using assms(1) bucket_of_less [OF assms(1)] by (simp add: hashtbl_ok_def)
  ultimately show thesis
    using that [of vs] uv by (simp only: dropWhile_key)
qed

text \<open>
  Remark: \<open>hashtbl_next\<close> enumerates the table. Starting from a null key it delivers the first node of the
  concatenated chains, and from the key of any node the node after it, until it returns -1 at the
  end: every node is delivered exactly once.
\<close>

theorem hashtbl_next_enumerates:
  assumes "hashtbl_ok h"
  shows "hashtbl_next h None = (case concat (ht_nodes h) of [] \<Rightarrow> None | m # _ \<Rightarrow> Some (hn_key m, hn_data m))
    \<and> (\<forall>xs n ys. concat (ht_nodes h) = xs @ n # ys \<longrightarrow>
        hashtbl_next h (Some (hn_key n)) = (case ys of [] \<Rightarrow> None | m # _ \<Rightarrow> Some (hn_key m, hn_data m)))
    \<and> distinct (map hn_key (concat (ht_nodes h)))"
proof (intro conjI allI impI)
  show "hashtbl_next h None = (case concat (ht_nodes h) of [] \<Rightarrow> None | m # _ \<Rightarrow> Some (hn_key m, hn_data m))"
    by (cases "concat (ht_nodes h)")
      (simp_all add: hashtbl_next_def scan_buckets_concat del: concat_eq_Nil_conv)
  show "distinct (map hn_key (concat (ht_nodes h)))"
    using assms by (rule distinct_keys)
  fix xs n ys
  assume "concat (ht_nodes h) = xs @ n # ys"
  then obtain vs
    where vs: "dropWhile (\<lambda>m. hn_key m \<noteq> hn_key n) (ht_nodes h ! bucket_of h (hn_key n)) = n # vs"
      "ys = vs @ concat (drop (Suc (bucket_of h (hn_key n))) (ht_nodes h))"
    using dropWhile_bucket [OF assms] by blast
  have "hashtbl_next h (Some (hn_key n)) =
      map_option node_pair (scan_buckets (vs # drop (Suc (bucket_of h (hn_key n))) (ht_nodes h)))"
    by (simp add: hashtbl_next_def Let_def vs(1))
  also have "\<dots> = (case ys of [] \<Rightarrow> None | m # _ \<Rightarrow> Some (hn_key m, hn_data m))"
    by (cases ys) (simp_all add: scan_buckets_concat vs(2) [symmetric])
  finally show "hashtbl_next h (Some (hn_key n)) = (case ys of [] \<Rightarrow> None | m # _ \<Rightarrow> Some (hn_key m, hn_data m))" .
qed

theorem hashtbl_next_enumerates_witness:
  "hashtbl_next demo_table None = Some (''ba'', ''y'') \<and>
   hashtbl_next demo_table (Some ''ba'') = Some (''ab'', ''x'') \<and>
   hashtbl_next demo_table (Some ''ab'') = None"
proof -
  define m n :: "string hashnode"
    where "m = \<lparr>hn_key = ''ba'', hn_data = ''y'', hn_size = 1\<rparr>"
      and "n = \<lparr>hn_key = ''ab'', hn_data = ''x'', hn_size = 1\<rparr>"
  have c: "concat (ht_nodes demo_table) = [m, n]"
    unfolding m_def n_def by code_simp
  have "hashtbl_next demo_table (Some (hn_key m)) = Some (hn_key n, hn_data n)"
    using hashtbl_next_enumerates [OF demo_table_ok] c
    by (metis (no_types, lifting) append_Nil list.simps(5))
  moreover have "hashtbl_next demo_table (Some (hn_key n)) = None"
    using hashtbl_next_enumerates [OF demo_table_ok] c
    by (metis (no_types, lifting) append_Cons append_Nil list.simps(4))
  ultimately show ?thesis
    using hashtbl_next_enumerates [OF demo_table_ok] c by (simp add: m_def n_def)
qed

end
