(* ===== verification/Trash.thy ===== *)
theory Trash
  imports Oph_Prelude
begin

text \<open>
  The keyed store of released identifiers of \<^verbatim>\<open>src/src/oph_trash.c\<close>: a list of nodes, each with a key
  (the session) and the items of that key in the order of their insertion. A comparison of a
  non-null key with a node whose key is null is undefined behaviour (\<open>strcmp\<close> of a null pointer)
  and is the value \<open>None\<close>. The locale \<open>fifo\<close> is the queue contract the server relies on.
\<close>

section \<open>Data and operations\<close>

datatype trash_code = OPH_TRASH_OK | OPH_TRASH_ERROR

record oph_trash_node =
  tn_key :: "string option"
  tn_items :: "int list"

type_synonym oph_trash = "oph_trash_node list"

definition oph_trash_create :: oph_trash where
  [code_defs]: "oph_trash_create = []"

text \<open>The search loop: \<open>Some None\<close> is the end of the list, \<open>Some (Some i)\<close> the first match.\<close>

fun trash_find :: "string option \<Rightarrow> oph_trash \<Rightarrow> nat option option" where
  "trash_find key [] = Some None"
| "trash_find key (tmp # ns) =
     (case key of
        None \<Rightarrow> Some (Some 0)
      | Some k \<Rightarrow>
          (case tn_key tmp of
             None \<Rightarrow> None
           | Some k' \<Rightarrow> if k' = k then Some (Some 0) else map_option (map_option Suc) (trash_find key ns)))"

text \<open>
  A node for a new key becomes the head of the list, followed by what followed the old head:
  \<open>tmp->next = trash->trash ? trash->trash->next : NULL\<close>.
\<close>

definition oph_trash_append :: "oph_trash \<Rightarrow> string option \<Rightarrow> int \<Rightarrow> (trash_code \<times> oph_trash) option" where
  [code_defs]: "oph_trash_append t key item =
     (case trash_find key t of
        None \<Rightarrow> None
      | Some (Some i) \<Rightarrow>
          Some (OPH_TRASH_OK, t[i := (t ! i)\<lparr>tn_items := tn_items (t ! i) @ [item]\<rparr>])
      | Some None \<Rightarrow> Some (OPH_TRASH_OK, \<lparr>tn_key = key, tn_items = [item]\<rparr> # tl t))"

definition oph_trash_extract ::
    "oph_trash \<Rightarrow> string option \<Rightarrow> (trash_code \<times> int \<times> oph_trash) option" where
  [code_defs]: "oph_trash_extract t key =
     (case trash_find key t of
        None \<Rightarrow> None
      | Some None \<Rightarrow> Some (OPH_TRASH_ERROR, 0, t)
      | Some (Some i) \<Rightarrow>
          (case tn_items (t ! i) of
             [] \<Rightarrow> Some (OPH_TRASH_ERROR, 0, t)
           | [item] \<Rightarrow> Some (OPH_TRASH_OK, item, take i t @ drop (Suc i) t)
           | item # rest \<Rightarrow> Some (OPH_TRASH_OK, item, t[i := (t ! i)\<lparr>tn_items := rest\<rparr>])))"

text \<open>
  One pass of the exchange sort of \<open>oph_trash_order\<close>. The variable \<open>swap\<close> serves as the exchange
  buffer and as the flag of the outer loop: it holds the larger item of the last exchange.
\<close>

fun order_pass :: "int list \<Rightarrow> int \<Rightarrow> int list \<times> int" where
  "order_pass (x # y # xs) swap =
     (if x > y then (let (r, s) = order_pass (x # xs) x in (y # r, s))
      else (let (r, s) = order_pass (y # xs) swap in (x # r, s)))"
| "order_pass xs swap = (xs, swap)"

fun inversions :: "int list \<Rightarrow> nat" where
  "inversions [] = 0"
| "inversions (x # xs) = size (filter_mset (\<lambda>y. y < x) (mset xs)) + inversions xs"

lemma mset_order_pass [simp]: "mset (fst (order_pass xs s)) = mset xs"
  by (induction xs s rule: order_pass.induct) (auto simp: Let_def split: prod.splits)

lemma inversions_order_pass:
  "inversions (fst (order_pass xs s)) \<le> inversions xs \<and>
   (snd (order_pass xs s) \<noteq> s \<longrightarrow> inversions (fst (order_pass xs s)) < inversions xs)"
proof (induction xs s rule: order_pass.induct)
  case (1 x y xs s)
  show ?case
  proof (cases "x > y")
    case True
    obtain r t where rt: "order_pass (x # xs) x = (r, t)" by fastforce
    have m: "mset r = add_mset x (mset xs)" using mset_order_pass [of "x # xs" x] rt by simp
    have "inversions r \<le> inversions (x # xs)" using "1.IH"(1) True rt by auto
    then have "inversions (y # r) < inversions (x # y # xs)" using True m by simp
    then show ?thesis using True rt by simp
  next
    case False
    obtain r t where rt: "order_pass (y # xs) s = (r, t)" by fastforce
    have m: "mset r = add_mset y (mset xs)" using mset_order_pass [of "y # xs" s] rt by simp
    show ?thesis using "1.IH"(2) False rt m by auto
  qed
qed simp_all

function order_loop :: "int list \<Rightarrow> int list" where
  "order_loop xs = (case order_pass xs 0 of (ys, swap) \<Rightarrow> if swap \<noteq> 0 then order_loop ys else ys)"
  by pat_completeness auto
termination
  using inversions_order_pass [of _ 0]
  by (relation "measure inversions") (auto, metis fst_conv snd_conv)

declare order_loop.simps [simp del]

definition oph_trash_order :: "oph_trash \<Rightarrow> string option \<Rightarrow> (trash_code \<times> oph_trash) option" where
  [code_defs]: "oph_trash_order t key =
     (case trash_find key t of
        None \<Rightarrow> None
      | Some None \<Rightarrow> Some (OPH_TRASH_ERROR, t)
      | Some (Some i) \<Rightarrow>
          Some (OPH_TRASH_OK, t[i := (t ! i)\<lparr>tn_items := order_loop (tn_items (t ! i))\<rparr>]))"

definition oph_trash_size :: "oph_trash \<Rightarrow> string option \<Rightarrow> (trash_code \<times> 32 word) option" where
  [code_defs]: "oph_trash_size t key =
     (case trash_find key t of
        None \<Rightarrow> None
      | Some None \<Rightarrow> Some (OPH_TRASH_ERROR, 0)
      | Some (Some i) \<Rightarrow>
          if tn_items (t ! i) = [] then Some (OPH_TRASH_ERROR, 0)
          else Some (OPH_TRASH_OK, of_nat (length (tn_items (t ! i)))))"

section \<open>Lemmas\<close>

lemma trash_find_less: "trash_find key t = Some (Some i) \<Longrightarrow> i < length t"
  by (induction t arbitrary: i) (auto split: option.splits if_splits)

lemma trash_find_key: "trash_find (Some k) t = Some (Some i) \<Longrightarrow> tn_key (t ! i) = Some k"
  by (induction t arbitrary: i) (auto split: option.splits if_splits)

lemma order_pass_stable:
  "\<forall>x\<in>set xs. 0 \<le> x \<Longrightarrow> snd (order_pass xs s) = 0 \<Longrightarrow> s = 0 \<and> sorted xs \<and> fst (order_pass xs s) = xs"
proof (induction xs s rule: order_pass.induct)
  case (1 x y xs s)
  then show ?case
    by (cases "x > y") (fastforce simp: Let_def split: prod.splits)+
qed simp_all

lemma order_loop_sorts: "\<forall>x\<in>set xs. 0 \<le> x \<Longrightarrow> sorted (order_loop xs) \<and> mset (order_loop xs) = mset xs"
proof (induction xs rule: order_loop.induct)
  case (1 xs)
  obtain ys s where p: "order_pass xs 0 = (ys, s)" by fastforce
  have m: "mset ys = mset xs" using mset_order_pass [of xs 0] p by simp
  have "set ys = set xs" using m by (rule mset_eq_setD)
  show ?case
  proof (cases "s = 0")
    case True
    then show ?thesis
      using order_pass_stable [OF "1.prems", of 0] p by (simp add: order_loop.simps [of xs])
  next
    case False
    then have "sorted (order_loop ys) \<and> mset (order_loop ys) = mset ys"
      using "1.IH" [OF p [symmetric]] "1.prems" \<open>set ys = set xs\<close> by simp
    then show ?thesis using False p m by (simp add: order_loop.simps [of xs])
  qed
qed

section \<open>The queue contract\<close>

locale fifo =
  fixes enq :: "'q \<Rightarrow> 'a \<Rightarrow> 'q"
    and deq :: "'q \<Rightarrow> ('a \<times> 'q) option"
    and contents :: "'q \<Rightarrow> 'a list"
    and inv :: "'q \<Rightarrow> bool"
  assumes inv_enq: "inv q \<Longrightarrow> inv (enq q x)"
    and contents_enq: "inv q \<Longrightarrow> contents (enq q x) = contents q @ [x]"
    and deq_empty: "inv q \<Longrightarrow> contents q = [] \<Longrightarrow> deq q = None"
    and deq_cons: "inv q \<Longrightarrow> contents q = x # xs \<Longrightarrow> \<exists>q'. deq q = Some (x, q') \<and> inv q' \<and> contents q' = xs"
begin

fun deq_all :: "nat \<Rightarrow> 'q \<Rightarrow> 'a list \<times> 'q" where
  "deq_all 0 q = ([], q)"
| "deq_all (Suc n) q =
     (case deq q of None \<Rightarrow> ([], q) | Some (x, q') \<Rightarrow> (case deq_all n q' of (xs, q'') \<Rightarrow> (x # xs, q'')))"

lemma enq_all: "inv q \<Longrightarrow> inv (foldl enq q xs) \<and> contents (foldl enq q xs) = contents q @ xs"
  by (induction xs arbitrary: q) (simp_all add: inv_enq contents_enq)

lemma deq_all_contents:
  "inv q \<Longrightarrow> n = length (contents q) \<Longrightarrow>
   fst (deq_all n q) = contents q \<and> inv (snd (deq_all n q)) \<and> contents (snd (deq_all n q)) = []"
proof (induction n arbitrary: q)
  case (Suc n)
  then obtain x xs where "contents q = x # xs" by (cases "contents q") auto
  with Suc obtain q' where "deq q = Some (x, q')" "inv q'" "contents q' = xs" using deq_cons by blast
  with Suc.IH [of q'] Suc.prems(2) \<open>contents q = x # xs\<close> show ?case by (auto split: prod.split)
qed simp

lemma in_order:
  assumes "inv q" and "contents q = []"
  shows "fst (deq_all (length xs) (foldl enq q xs)) = xs"
  using deq_all_contents [of "foldl enq q xs" "length xs"] enq_all [OF assms(1), of xs] assms(2) by simp

end

text \<open>
  The trash with the traffic of one key: the state the server creates per object when all its
  workflows belong to one session.
\<close>

definition key_enq :: "string option \<Rightarrow> oph_trash \<Rightarrow> int \<Rightarrow> oph_trash" where
  "key_enq key t x = (case oph_trash_append t key x of Some (_, t') \<Rightarrow> t' | None \<Rightarrow> t)"

definition key_deq :: "string option \<Rightarrow> oph_trash \<Rightarrow> (int \<times> oph_trash) option" where
  "key_deq key t = (case oph_trash_extract t key of Some (OPH_TRASH_OK, x, t') \<Rightarrow> Some (x, t') | _ \<Rightarrow> None)"

definition key_only :: "string option \<Rightarrow> oph_trash \<Rightarrow> bool" where
  "key_only key t \<longleftrightarrow> t = [] \<or> (\<exists>x xs. t = [\<lparr>tn_key = key, tn_items = x # xs\<rparr>])"

definition key_contents :: "oph_trash \<Rightarrow> int list" where
  "key_contents t = concat (map tn_items t)"

lemma trash_find_own [simp]: "trash_find key [\<lparr>tn_key = key, tn_items = xs\<rparr>] = Some (Some 0)"
  by (cases key) simp_all

interpretation tq: fifo "key_enq key" "key_deq key" key_contents "key_only key"
proof unfold_locales
  fix q and x :: int and xs
  assume inv: "key_only key q"
  then show "key_only key (key_enq key q x)"
    by (cases key) (auto simp: key_only_def key_enq_def oph_trash_append_def)
  from inv show "key_contents (key_enq key q x) = key_contents q @ [x]"
    by (cases key) (auto simp: key_only_def key_enq_def oph_trash_append_def key_contents_def)
  from inv show "key_deq key q = None" if "key_contents q = []"
    using that by (cases key) (auto simp: key_only_def key_deq_def oph_trash_extract_def key_contents_def)
  from inv show "\<exists>q'. key_deq key q = Some (x, q') \<and> key_only key q' \<and> key_contents q' = xs"
    if "key_contents q = x # xs"
    using that by (cases key) (auto simp: key_only_def key_deq_def oph_trash_extract_def key_contents_def split: list.split)
qed

section \<open>Properties\<close>

text \<open>
  Remark: \<open>oph_trash_order\<close> terminates and sorts. When the items of the selected node are not negative
  (they are marker identifiers), its items become a sorted permutation of themselves, and every
  other node stays as it is.
\<close>

theorem oph_trash_order_sorts:
  assumes "trash_find key t = Some (Some i)" and "\<forall>x\<in>set (tn_items (t ! i)). 0 \<le> x"
  shows "\<exists>ys. oph_trash_order t key = Some (OPH_TRASH_OK, t[i := (t ! i)\<lparr>tn_items := ys\<rparr>]) \<and>
    sorted ys \<and> mset ys = mset (tn_items (t ! i))"
  using assms order_loop_sorts [OF assms(2)] by (auto simp: oph_trash_order_def)

theorem oph_trash_order_sorts_witness:
  "\<exists>ys. oph_trash_order [\<lparr>tn_key = Some ''s'', tn_items = [3, 1, 2]\<rparr>] (Some ''s'') =
      Some (OPH_TRASH_OK, [\<lparr>tn_key = Some ''s'', tn_items = ys\<rparr>]) \<and> sorted ys \<and> mset ys = {#3, 1, 2#}"
  using oph_trash_order_sorts [of "Some ''s''" "[\<lparr>tn_key = Some ''s'', tn_items = [3, 1, 2]\<rparr>]" 0]
  by (simp add: ac_simps)

text \<open>
  Remark: the flag of the exchange sort doubles as the exchange buffer, so an exchange whose larger item
  is 0 counts as no exchange: with a negative item the loop can stop before the items are sorted.
\<close>

theorem oph_trash_order_unsorted:
  "oph_trash_order [\<lparr>tn_key = None, tn_items = [0, -1, -2]\<rparr>] None =
     Some (OPH_TRASH_OK, [\<lparr>tn_key = None, tn_items = [-1, -2, 0]\<rparr>])"
  by (simp add: oph_trash_order_def order_loop.simps)

text \<open>
  Remark: for the traffic of one key the trash is a first-in first-out queue: after appending \<open>xs\<close> to an
  empty trash, as many extractions return exactly \<open>xs\<close> in this order.
\<close>

theorem oph_trash_fifo:
  "fst (tq.deq_all key (length xs) (foldl (key_enq key) oph_trash_create xs)) = xs"
  by (rule tq.in_order) (simp_all add: key_only_def key_contents_def oph_trash_create_def)

text \<open>
  Remark: appending under a key that has no node yet drops the node at the head of the list: the new node
  is linked to the successor of the old head, so every item kept for the old head's key is lost.
\<close>

theorem oph_trash_append_drops_head:
  assumes "trash_find (Some k) (n # ns) = Some None"
  shows "oph_trash_append (n # ns) (Some k) x =
      Some (OPH_TRASH_OK, \<lparr>tn_key = Some k, tn_items = [x]\<rparr> # ns)"
  using assms by (simp add: oph_trash_append_def)

theorem oph_trash_append_drops_head_witness:
  "oph_trash_append [\<lparr>tn_key = Some ''a'', tn_items = [1, 2]\<rparr>] (Some ''b'') 7 =
     Some (OPH_TRASH_OK, [\<lparr>tn_key = Some ''b'', tn_items = [7]\<rparr>])"
  by (rule oph_trash_append_drops_head) simp

end
