(* ===== verification/Subset.thy ===== *)
theory Subset
  imports Oph_Prelude
begin

text \<open>
  The subset strings of \<^verbatim>\<open>src/src/oph_subset_library.c\<close> (\<open>start:stride:end\<close> triples separated by commas)
  and the loop of \<open>oph_for_impl\<close> that turns a parsed subset into the list of loop indexes.
  \<open>long\<close> values are integers in the 64-bit range, \<open>unsigned long\<close> values are 64-bit words. \<open>None\<close> is
  undefined behaviour: a string that does not fit the 1024-byte buffers, a signed overflow of
  \<open>end - start\<close>, or a write beyond the arrays, which are sized by the number of non-empty pieces
  (counted with \<open>strtok_r\<close>) but filled once per piece (found with \<open>strchr\<close>).
\<close>

section \<open>Data\<close>

definition OPH_SUBSET_LIB_MAX_STRING_LENGTH :: nat where
  [code_defs]: "OPH_SUBSET_LIB_MAX_STRING_LENGTH = 1024"

datatype subset_code = OPH_SUBSET_LIB_DATA_ERR | OPH_SUBSET_LIB_NULL_POINTER_ERR | OPH_SUBSET_LIB_SYSTEM_ERR

datatype oph_subset_type = OPH_SUBSET_LIB_SINGLE | OPH_SUBSET_LIB_INTERVAL | OPH_SUBSET_LIB_STRIDE

record oph_subset =
  ss_type :: "oph_subset_type list"
  ss_start :: "int list"
  ss_end :: "int list"
  ss_stride :: "64 word list"
  ss_count :: "64 word list"
  ss_total :: "64 word"
  ss_number :: nat

text \<open>One column of these arrays: the entries at one index.\<close>

record subset_item =
  si_type :: oph_subset_type
  si_start :: int
  si_end :: int
  si_stride :: "64 word"

section \<open>Operations\<close>

text \<open>The value of one parameter: the clause \<open>end\<close> stands for \<open>max\<close> (here \<open>mx\<close>), refused when it is 0.\<close>

definition param_value :: "int \<Rightarrow> string \<Rightarrow> int option" where
  [code_defs]: "param_value mx tok =
     (if strncasecmp_eq tok ''end'' 3 then (if mx \<noteq> 0 then Some mx else None)
      else Some (strtol tok))"

fun parse_params :: "int \<Rightarrow> nat \<Rightarrow> string list \<Rightarrow> subset_item \<Rightarrow> subset_item option" where
  "parse_params mx number [] it = Some it"
| "parse_params mx number (tok # toks) it =
     (if number = 0 then
        (case param_value mx tok of
           None \<Rightarrow> None
         | Some v \<Rightarrow> parse_params mx (Suc number) toks
             \<lparr>si_type = OPH_SUBSET_LIB_SINGLE, si_start = v, si_end = v, si_stride = 1\<rparr>)
      else if number = 1 then
        (case param_value mx tok of
           None \<Rightarrow> None
         | Some v \<Rightarrow> parse_params mx (Suc number) toks
             (it\<lparr>si_end := v, si_type := OPH_SUBSET_LIB_INTERVAL\<rparr>))
      else if number = 2 then
        (case param_value mx tok of
           None \<Rightarrow> None
         | Some v \<Rightarrow>
             (let stride = word_of_int (si_end it) :: 64 word in
              parse_params mx (Suc number) toks
                (it\<lparr>si_stride := stride, si_end := v,
                    si_type := (if stride > 1 then OPH_SUBSET_LIB_STRIDE else si_type it)\<rparr>)))
      else None)"

definition item_count :: "subset_item \<Rightarrow> 64 word" where
  [code_defs]: "item_count it = 1 + word_of_int (si_end it - si_start it) div si_stride it"

definition uninit_item :: subset_item where
  [code_defs]: "uninit_item = \<lparr>si_type = OPH_SUBSET_LIB_SINGLE, si_start = 0, si_end = 0, si_stride = 0\<rparr>"

text \<open>One piece between commas; \<open>uninit_item\<close> is the fresh memory, overwritten on every path.\<close>

definition parse_piece :: "int \<Rightarrow> string \<Rightarrow> (subset_code + subset_item) option" where
  [code_defs]: "parse_piece mx piece =
     (case parse_params mx 0 (strtok CHR '':'' piece) uninit_item of
        None \<Rightarrow> Some (Inl OPH_SUBSET_LIB_DATA_ERR)
      | Some it0 \<Rightarrow>
          (let it = (if strtok CHR '':'' piece = [] then
                       \<lparr>si_type = OPH_SUBSET_LIB_INTERVAL, si_start = 1,
                        si_end = (if mx \<noteq> 0 then mx else 1), si_stride = 1\<rparr>
                     else it0) in
           if si_stride it = 0 \<or> si_start it > si_end it then Some (Inl OPH_SUBSET_LIB_DATA_ERR)
           else if si_end it - si_start it > LONG_MAX then None
           else Some (Inr it)))"

text \<open>The loop over the pieces; \<open>room\<close> is the number of array entries not yet written.\<close>

fun parse_pieces :: "int \<Rightarrow> nat \<Rightarrow> string list \<Rightarrow> (subset_code + subset_item list) option" where
  "parse_pieces mx room [] = Some (Inr [])"
| "parse_pieces mx room (piece # ps) =
     (if room = 0 then None
      else (case parse_piece mx piece of
              None \<Rightarrow> None
            | Some (Inl e) \<Rightarrow> Some (Inl e)
            | Some (Inr it) \<Rightarrow>
                (case parse_pieces mx (room - 1) ps of
                   None \<Rightarrow> None
                 | Some (Inl e) \<Rightarrow> Some (Inl e)
                 | Some (Inr its) \<Rightarrow> Some (Inr (it # its)))))"

definition subset_of_items :: "nat \<Rightarrow> subset_item list \<Rightarrow> oph_subset" where
  [code_defs]: "subset_of_items number its =
     \<lparr>ss_type = map si_type its, ss_start = map si_start its, ss_end = map si_end its,
      ss_stride = map si_stride its, ss_count = map item_count its,
      ss_total = sum_list (map item_count its), ss_number = number\<rparr>"

definition oph_subset_parse :: "string \<Rightarrow> nat \<Rightarrow> int \<Rightarrow> (subset_code + oph_subset) option" where
  [code_defs]: "oph_subset_parse cond len mx =
     (if len \<ge> OPH_SUBSET_LIB_MAX_STRING_LENGTH then None
      else
        (let temp = take len cond; number = length (strtok CHR '','' temp) in
         if number = 0 then Some (Inl OPH_SUBSET_LIB_DATA_ERR)
         else (case parse_pieces mx number (splitc CHR '','' temp) of
                 None \<Rightarrow> None
               | Some (Inl e) \<Rightarrow> Some (Inl e)
               | Some (Inr its) \<Rightarrow> Some (Inr (subset_of_items number its)))))"

text \<open>
  The index loop of \<open>oph_for_impl\<close> and \<open>oph_workflow_parallel_fco\<close>: \<open>room\<close> is the number of entries of
  \<open>ivalues\<close> not yet written; the conversions to \<open>int\<close> and \<open>long\<close> wrap.
\<close>

fun fill_values :: "nat \<Rightarrow> int \<Rightarrow> 64 word \<Rightarrow> int \<Rightarrow> int list" where
  "fill_values 0 value stride end = []"
| "fill_values (Suc room) value stride end =
     c_int value # (let value' = c_long (value + uint stride) in
       if value' \<le> end then fill_values room value' stride end else [])"

fun fill_subsets :: "nat \<Rightarrow> (int \<times> 64 word \<times> int) list \<Rightarrow> int list" where
  "fill_subsets room [] = []"
| "fill_subsets room ((start, stride, end) # ss) =
     (if room = 0 then []
      else (let vs = fill_values room start stride end in vs @ fill_subsets (room - length vs) ss))"

definition subset_ivalues :: "oph_subset \<Rightarrow> int list" where
  [code_defs]: "subset_ivalues s =
     fill_subsets (nat (c_int (uint (ss_total s)))) (zip (ss_start s) (zip (ss_stride s) (ss_end s)))"

section \<open>Lemmas\<close>

definition item_ok :: "subset_item \<Rightarrow> bool" where
  "item_ok it \<longleftrightarrow> si_stride it \<noteq> 0 \<and> si_start it \<le> si_end it \<and> si_end it - si_start it \<le> LONG_MAX"

lemma parse_piece_ok: "parse_piece mx p = Some (Inr it) \<Longrightarrow> item_ok it"
  by (auto simp: parse_piece_def item_ok_def Let_def split: option.splits if_splits)

lemma parse_pieces_ok:
  "parse_pieces mx room ps = Some (Inr its) \<Longrightarrow>
   list_all item_ok its \<and> length its = length ps \<and> length ps \<le> room"
proof (induction mx room ps arbitrary: its rule: parse_pieces.induct)
  case (2 mx room p ps)
  then show ?case
    by (fastforce split: if_splits option.splits sum.splits dest: parse_piece_ok)
qed simp

lemma parse_pieces_room:
  "length ps \<le> room \<Longrightarrow> parse_pieces mx room ps = None \<Longrightarrow> \<exists>p\<in>set ps. parse_piece mx p = None"
  by (induction mx room ps rule: parse_pieces.induct) (auto split: option.splits sum.splits)

lemma parse_pieces_overflow:
  "room < length ps \<Longrightarrow> \<forall>p\<in>set ps. \<exists>it. parse_piece mx p = Some (Inr it) \<Longrightarrow> parse_pieces mx room ps = None"
  by (induction mx room ps rule: parse_pieces.induct) (fastforce split: option.splits sum.splits)+

lemma strtok_length: "length (strtok c s) \<le> length (splitc c s)"
  by (simp add: strtok_def)

text \<open>The count of one item, as a natural number.\<close>

lemma unat_item_count:
  assumes "item_ok it"
  shows "unat (item_count it) = 1 + nat (si_end it - si_start it) div unat (si_stride it)"
proof -
  let ?d = "nat (si_end it - si_start it)"
  have d: "int ?d = si_end it - si_start it" and le: "?d \<le> 9223372036854775807"
    using assms by (auto simp: item_ok_def LONG_MAX_def)
  have "word_of_int (si_end it - si_start it) = (of_nat ?d :: 64 word)"
    by (metis d of_int_of_nat_eq)
  moreover have "unat (of_nat ?d :: 64 word) = ?d"
    using le by (simp add: unat_of_nat take_bit_nat_eq_self)
  ultimately have q: "unat (word_of_int (si_end it - si_start it) div si_stride it) = ?d div unat (si_stride it)"
    by (simp add: unat_div)
  have "?d div unat (si_stride it) \<le> ?d" by (rule div_le_dividend)
  with le have "?d div unat (si_stride it) < 18446744073709551615" by linarith
  then show ?thesis
    unfolding item_count_def using q by (simp add: unat_word_ariths)
qed

lemma param_value_range:
  "param_value mx tok = Some v \<Longrightarrow> LONG_MIN \<le> mx \<Longrightarrow> LONG_MIN \<le> v"
  using strtol_range [of tok] by (auto simp: param_value_def split: if_splits)

lemma parse_params_range:
  "parse_params mx n toks it = Some it' \<Longrightarrow> LONG_MIN \<le> mx \<Longrightarrow> LONG_MIN \<le> si_start it \<Longrightarrow>
   LONG_MIN \<le> si_start it'"
  by (induction mx n toks it rule: parse_params.induct)
    (auto simp: Let_def dest: param_value_range split: option.splits if_splits)

lemma parse_piece_range:
  "parse_piece mx p = Some (Inr it) \<Longrightarrow> LONG_MIN \<le> mx \<Longrightarrow> LONG_MIN \<le> si_start it"
  by (auto simp: parse_piece_def Let_def uninit_item_def LONG_MIN_def split: option.splits if_splits
      dest!: parse_params_range)

lemma parse_pieces_range:
  "parse_pieces mx room ps = Some (Inr its) \<Longrightarrow> LONG_MIN \<le> mx \<Longrightarrow> \<forall>it\<in>set its. LONG_MIN \<le> si_start it"
  by (induction mx room ps arbitrary: its rule: parse_pieces.induct)
    (auto split: option.splits sum.splits if_splits dest: parse_piece_range)

text \<open>The indexes of one item: the arithmetic progression from its start by its stride.\<close>

definition progression :: "int \<Rightarrow> 64 word \<Rightarrow> nat \<Rightarrow> int list" where
  "progression start stride n = map (\<lambda>j. c_int (start + int j * uint stride)) [0..<n]"

lemma progression_Suc:
  "progression v s (Suc n) = c_int v # progression (v + uint s) s n"
  by (simp add: progression_def upt_conv_Cons map_Suc_upt [symmetric] algebra_simps del: upt_Suc)

lemma length_progression [simp]: "length (progression v s n) = n"
  by (simp add: progression_def)

lemma fill_values_progression:
  assumes "0 < k" and "uint s = int k" and "LONG_MIN \<le> v" and "v \<le> e" and "e + int k \<le> LONG_MAX"
    and "1 + nat (e - v) div k \<le> room"
  shows "fill_values room v s e = progression v s (1 + nat (e - v) div k)"
  using assms(3-)
proof (induction room arbitrary: v)
  case (Suc room)
  have v': "c_long (v + int k) = v + int k"
    using Suc.prems(1-3) by (intro c_long_id) linarith+
  show ?case
  proof (cases "v + int k \<le> e")
    case True
    have "nat (e - v) = k + nat (e - (v + int k))" using True by linarith
    then have q: "nat (e - v) div k = Suc (nat (e - (v + int k)) div k)"
      using assms(1) by (simp add: div_add_self1)
    have "fill_values room (v + int k) s e = progression (v + int k) s (1 + nat (e - (v + int k)) div k)"
      using Suc.prems True q by (intro Suc.IH) linarith+
    then show ?thesis using True v' q assms(2) by (simp add: Let_def progression_Suc)
  next
    case False
    then have "nat (e - v) < k" using assms(1) by linarith
    then have "nat (e - v) div k = 0" by simp
    then show ?thesis
      using False v' assms(2) by (simp add: Let_def progression_Suc) (simp add: progression_def)
  qed
qed simp

definition item_triple :: "subset_item \<Rightarrow> int \<times> 64 word \<times> int" where
  "item_triple it = (si_start it, si_stride it, si_end it)"

lemma zip_items:
  "zip (map si_start its) (zip (map si_stride its) (map si_end its)) = map item_triple its"
  by (induction its) (simp_all add: item_triple_def)

definition item_indexes :: "subset_item \<Rightarrow> int list" where
  "item_indexes it = progression (si_start it) (si_stride it) (unat (item_count it))"

lemma fill_subsets_items:
  "list_all item_ok its \<Longrightarrow> \<forall>it\<in>set its. LONG_MIN \<le> si_start it \<and> si_end it + uint (si_stride it) \<le> LONG_MAX \<Longrightarrow>
   fill_subsets (sum_list (map (\<lambda>it. unat (item_count it)) its)) (map item_triple its) = concat (map item_indexes its)"
proof (induction its)
  case (Cons it its)
  then have ok: "item_ok it" by simp
  have c: "unat (item_count it) = 1 + nat (si_end it - si_start it) div unat (si_stride it)"
    by (rule unat_item_count [OF ok])
  have "fill_values (sum_list (map (\<lambda>it. unat (item_count it)) (it # its))) (si_start it) (si_stride it) (si_end it) = item_indexes it"
    unfolding item_indexes_def c
    using ok Cons.prems c by (intro fill_values_progression) (auto simp: item_ok_def unat_gt_0)
  moreover have "length (item_indexes it) = unat (item_count it)"
    by (simp add: item_indexes_def)
  moreover have "unat (item_count it) \<noteq> 0"
    using c by simp
  ultimately show ?case
    using Cons by (simp add: item_triple_def Let_def del: fill_values.simps sum_list_eq_0_iff)
qed simp

lemma unat_sum_list_words:
  fixes ws :: "64 word list"
  shows "sum_list (map unat ws) < 2 ^ 64 \<Longrightarrow> unat (sum_list ws) = sum_list (map unat ws)"
proof (induction ws)
  case (Cons w ws)
  then have "unat w + unat (sum_list ws) < 2 ^ 64" by simp
  then have "unat (w + sum_list ws) = unat w + unat (sum_list ws)"
    by (simp add: unat_word_ariths)
  with Cons show ?case by simp
qed simp

lemma item_members:
  assumes "item_ok it" and "- 2147483648 \<le> si_start it" and "si_end it \<le> 2147483647"
  shows "progression (si_start it) (si_stride it) (unat (item_count it)) =
    map (\<lambda>j. si_start it + int j * uint (si_stride it)) [0..<unat (item_count it)]"
proof -
  have "c_int (si_start it + int j * uint (si_stride it)) = si_start it + int j * uint (si_stride it)" if "j < unat (item_count it)" for j
  proof -
    have "j \<le> nat (si_end it - si_start it) div unat (si_stride it)" using that unat_item_count [OF assms(1)] by simp
    then have "j * unat (si_stride it) \<le> nat (si_end it - si_start it)"
      using assms(1) by (simp add: less_eq_div_iff_mult_less_eq item_ok_def unat_gt_0)
    then have "int (j * unat (si_stride it)) \<le> si_end it - si_start it" using assms(1) unfolding item_ok_def by linarith
    then have "int j * uint (si_stride it) \<le> si_end it - si_start it" by simp
    moreover have "0 \<le> int j * uint (si_stride it)" by simp
    ultimately show ?thesis using assms(2,3) by (intro c_int_id) linarith+
  qed
  then show ?thesis by (simp add: progression_def)
qed

section \<open>Properties\<close>

text \<open>
  C31: a successful parse yields a well-formed subset. Every array has one entry per comma-separated
  piece, every stride is non-zero, no interval is empty, each count is the number of members of
  the progression from start to end, without wrap-around, and the total is the sum of the counts.
\<close>

theorem oph_subset_parse_wf:
  assumes "oph_subset_parse cond len mx = Some (Inr s)"
  shows "length (ss_type s) = ss_number s \<and> length (ss_start s) = ss_number s \<and> length (ss_end s) = ss_number s
    \<and> length (ss_stride s) = ss_number s \<and> length (ss_count s) = ss_number s \<and> 0 < ss_number s
    \<and> ss_total s = sum_list (ss_count s)
    \<and> (\<forall>i < ss_number s. ss_stride s ! i \<noteq> 0 \<and> ss_start s ! i \<le> ss_end s ! i \<and>
        unat (ss_count s ! i) = 1 + nat (ss_end s ! i - ss_start s ! i) div unat (ss_stride s ! i))"
proof -
  let ?t = "take len cond"
  obtain its where its: "parse_pieces mx (length (strtok CHR '','' ?t)) (splitc CHR '','' ?t) = Some (Inr its)"
    and s: "s = subset_of_items (length (strtok CHR '','' ?t)) its" and "0 < length (strtok CHR '','' ?t)"
    using assms by (auto simp: oph_subset_parse_def Let_def split: if_splits option.splits sum.splits)
  moreover have "length its = length (strtok CHR '','' ?t)"
    using parse_pieces_ok [OF its] strtok_length [of "CHR '',''" ?t] by auto
  moreover have "item_ok (its ! i)" if "i < length its" for i
    using parse_pieces_ok [OF its] that by (auto simp: list_all_length)
  ultimately show ?thesis
    by (auto simp: subset_of_items_def unat_item_count) (auto simp: item_ok_def)
qed

theorem oph_subset_parse_wf_witness:
  "\<exists>s. oph_subset_parse ''1:3:10'' 8 0 = Some (Inr s) \<and> ss_number s = 1 \<and> unat (ss_count s ! 0) = 4"
proof -
  obtain s where s: "oph_subset_parse ''1:3:10'' 8 0 = Some (Inr s)"
    and "ss_number s = 1" "ss_start s = [1]" "ss_end s = [10]" "ss_stride s = [3]"
    by (rule that) (code_simp, simp_all)
  with oph_subset_parse_wf [OF s] show ?thesis by simp
qed

text \<open>
  C30: the loop indexes are the members of the parsed intervals, converted to \<open>int\<close>. For a subset with fewer than
  2^31 members whose bounds leave room for one more stride within \<open>long\<close>, the index loop of \<open>oph_for_impl\<close> fills
  the whole array of \<open>total\<close> entries, in order, with the members of the progressions of the intervals, each converted to \<open>int\<close>; when the
  intervals lie within the range of \<open>int\<close>, these are the members themselves.
\<close>

theorem subset_ivalues_exact:
  assumes "oph_subset_parse cond len mx = Some (Inr s)" and "LONG_MIN \<le> mx"
    and "sum_list (map unat (ss_count s)) < 2147483648"
    and "\<forall>i < ss_number s. ss_end s ! i + uint (ss_stride s ! i) \<le> LONG_MAX"
  shows "subset_ivalues s =
      concat (map (\<lambda>i. progression (ss_start s ! i) (ss_stride s ! i) (unat (ss_count s ! i))) [0..<ss_number s])
    \<and> length (subset_ivalues s) = unat (ss_total s)
    \<and> ((\<forall>i < ss_number s. - 2147483648 \<le> ss_start s ! i \<and> ss_end s ! i \<le> 2147483647) \<longrightarrow>
       subset_ivalues s = concat (map (\<lambda>i. map (\<lambda>j. ss_start s ! i + int j * uint (ss_stride s ! i)) [0..<unat (ss_count s ! i)]) [0..<ss_number s]))"
proof -
  let ?t = "take len cond"
  obtain its where its: "parse_pieces mx (length (strtok CHR '','' ?t)) (splitc CHR '','' ?t) = Some (Inr its)"
    and s: "s = subset_of_items (length (strtok CHR '','' ?t)) its"
    using assms(1) by (auto simp: oph_subset_parse_def Let_def split: if_splits option.splits sum.splits)
  have len: "length its = ss_number s"
    using parse_pieces_ok [OF its] strtok_length [of "CHR '',''" ?t] by (auto simp: s subset_of_items_def)
  have ok: "list_all item_ok its" using parse_pieces_ok [OF its] by simp
  have range: "\<forall>it\<in>set its. LONG_MIN \<le> si_start it \<and> si_end it + uint (si_stride it) \<le> LONG_MAX"
    using parse_pieces_range [OF its assms(2)] assms(4) len
    by (auto simp: s subset_of_items_def in_set_conv_nth)
  have tot: "unat (ss_total s) = sum_list (map (\<lambda>it. unat (item_count it)) its)"
    using unat_sum_list_words [of "map item_count its"] assms(3) by (simp add: s subset_of_items_def comp_def)
  moreover have "sum_list (map (\<lambda>it. unat (item_count it)) its) = sum_list (map unat (ss_count s))"
    by (simp add: s subset_of_items_def comp_def)
  moreover have "uint (ss_total s) = int (unat (ss_total s))"
    by simp
  ultimately have "uint (ss_total s) < 2147483648" and "0 \<le> uint (ss_total s)"
    using assms(3) by linarith+
  then have "nat (c_int (uint (ss_total s))) = unat (ss_total s)"
    unfolding c_int_def by (simp add: mod_pos_pos_trivial)
  then have eq: "subset_ivalues s = concat (map item_indexes its)"
    using fill_subsets_items [OF ok range] tot
    by (simp add: subset_ivalues_def) (simp add: s subset_of_items_def zip_items)
  moreover have "map item_indexes its =
      map (\<lambda>i. progression (ss_start s ! i) (ss_stride s ! i) (unat (ss_count s ! i))) [0..<ss_number s]"
    using len by (intro nth_equalityI) (simp_all add: s subset_of_items_def item_indexes_def)
  moreover have "length (concat (map item_indexes its)) = unat (ss_total s)"
    unfolding tot by (induction its) (simp_all add: item_indexes_def)
  moreover have "progression (ss_start s ! i) (ss_stride s ! i) (unat (ss_count s ! i)) =
      map (\<lambda>j. ss_start s ! i + int j * uint (ss_stride s ! i)) [0..<unat (ss_count s ! i)]"
    if "i < ss_number s" "- 2147483648 \<le> ss_start s ! i" "ss_end s ! i \<le> 2147483647" for i
    using that item_members [of "its ! i"] ok len by (simp add: s subset_of_items_def list_all_length)
  ultimately show ?thesis by (auto intro!: arg_cong [of _ _ concat])
qed

theorem subset_ivalues_exact_witness:
  "\<exists>s. oph_subset_parse ''1:3:10'' 8 0 = Some (Inr s) \<and> subset_ivalues s = [1, 4, 7, 10]"
proof -
  obtain s where s: "oph_subset_parse ''1:3:10'' 8 0 = Some (Inr s)"
    and f: "ss_number s = 1" "ss_start s = [1]" "ss_end s = [10]" "ss_stride s = [3]" "ss_count s = [4]"
    by (rule that) (code_simp, simp_all)
  have "LONG_MIN \<le> 0" by (simp add: LONG_MIN_def)
  from subset_ivalues_exact [OF s this] f show ?thesis
    using s by (simp add: LONG_MAX_def progression_def c_int_def upt_rec)
qed

text \<open>
  Remark: a string with more comma-separated pieces than non-empty ones (\<open>"1,,2"\<close>, or a trailing comma)
  whose pieces are all acceptable makes the parser write beyond the arrays it allocated.
\<close>

theorem oph_subset_parse_overflow:
  assumes "len < OPH_SUBSET_LIB_MAX_STRING_LENGTH" and "strtok CHR '','' (take len cond) \<noteq> []"
    and "length (strtok CHR '','' (take len cond)) < length (splitc CHR '','' (take len cond))"
    and "\<forall>p\<in>set (splitc CHR '','' (take len cond)). \<exists>it. parse_piece mx p = Some (Inr it)"
  shows "oph_subset_parse cond len mx = None"
  using assms parse_pieces_overflow [OF assms(3,4)] by (simp add: oph_subset_parse_def Let_def)

theorem oph_subset_parse_overflow_witness: "oph_subset_parse ''1,'' 2 0 = None"
proof (rule oph_subset_parse_overflow)
  show "\<forall>p\<in>set (splitc CHR '','' (take 2 ''1,'')). \<exists>it. parse_piece 0 p = Some (Inr it)"
    by (simp add: code_defs is_space_def)
qed (simp_all add: code_defs)

text \<open>
  Remark: without empty pieces the arrays are never overrun: a string that fits the buffers and whose
  pieces are all non-empty is parsed or refused, unless an interval is longer than a \<open>long\<close> can hold.
\<close>

theorem oph_subset_parse_defined:
  assumes "len < OPH_SUBSET_LIB_MAX_STRING_LENGTH" and "[] \<notin> set (splitc CHR '','' (take len cond))"
    and "\<forall>p\<in>set (splitc CHR '','' (take len cond)). parse_piece mx p \<noteq> None"
  shows "oph_subset_parse cond len mx \<noteq> None"
proof -
  have "strtok CHR '','' (take len cond) = splitc CHR '','' (take len cond)"
    using assms(2) by (auto simp: strtok_def filter_id_conv)
  with assms parse_pieces_room show ?thesis
    by (fastforce simp: oph_subset_parse_def Let_def split: option.splits sum.splits)
qed

theorem oph_subset_parse_defined_witness: "oph_subset_parse ''1:2:9,4'' 7 0 \<noteq> None"
  by (rule oph_subset_parse_defined) (simp_all add: code_defs is_space_def split: list.split)

end
