(* ===== verification/Args_Parser.thy ===== *)
theory Args_Parser
  imports Oph_Prelude
begin

text \<open>
  The argument lists of \<^verbatim>\<open>src/src/oph_parser.c\<close>: splitting a program into queries and a query into
  \<open>key=value;\<close> pairs, looking up and replacing an argument, printing a list, and ordering the list of
  the queries of a program. A linked list of \<open>oph_argument\<close> is the list of its nodes.
\<close>

section \<open>Data\<close>

record oph_argument =
  arg_key :: string
  arg_value :: string

record oph_arguments =
  args_id :: int
  args_item :: "oph_argument list"

definition OPH_MAX_PROGRAM_SIZE :: nat where [code_defs]: "OPH_MAX_PROGRAM_SIZE = 1048576"
definition OPH_SHORT_STRING_SIZE :: nat where [code_defs]: "OPH_SHORT_STRING_SIZE = 128"

section \<open>The list of queries\<close>

definition oph_append_args_list ::
    "oph_arguments list \<Rightarrow> oph_argument list \<Rightarrow> int \<Rightarrow> server_code \<times> oph_arguments list" where
  [code_defs]: "oph_append_args_list list item i =
     (if item = [] then (OPH_SERVER_NULL_POINTER, list)
      else (OPH_SERVER_OK, \<lparr>args_id = i, args_item = item\<rparr> # list))"

text \<open>
  One traversal of \<open>oph_order_args_list\<close>: \<open>item\<close> moves past its successor while its identifier is
  larger; the second component counts the exchanges.
\<close>

fun args_pass :: "oph_arguments list \<Rightarrow> oph_arguments list \<times> nat" where
  "args_pass (item # nxt # rest) =
     (if args_id item > args_id nxt then (let (r, c) = args_pass (item # rest) in (nxt # r, Suc c))
      else (let (r, c) = args_pass (nxt # rest) in (item # r, c)))"
| "args_pass list = (list, 0)"

fun args_inversions :: "oph_arguments list \<Rightarrow> nat" where
  "args_inversions [] = 0"
| "args_inversions (x # xs) =
     size (filter_mset (\<lambda>y. args_id y < args_id x) (mset xs)) + args_inversions xs"

lemma mset_args_pass [simp]: "mset (fst (args_pass xs)) = mset xs"
  by (induction xs rule: args_pass.induct) (auto simp: Let_def split: prod.splits)

lemma args_inversions_pass:
  "args_inversions (fst (args_pass xs)) + snd (args_pass xs) \<le> args_inversions xs"
proof (induction xs rule: args_pass.induct)
  case (1 x y xs)
  show ?case
  proof (cases "args_id x > args_id y")
    case True
    obtain r c where rc: "args_pass (x # xs) = (r, c)" by fastforce
    have "mset r = add_mset x (mset xs)" using mset_args_pass [of "x # xs"] rc by simp
    then show ?thesis using "1.IH"(1) True rc by (simp add: Let_def)
  next
    case False
    obtain r c where rc: "args_pass (y # xs) = (r, c)" by fastforce
    have "mset r = add_mset y (mset xs)" using mset_args_pass [of "y # xs"] rc by simp
    then show ?thesis using "1.IH"(2) False rc by (simp add: Let_def)
  qed
qed simp_all

function oph_order_args_list :: "oph_arguments list \<Rightarrow> oph_arguments list" where
  "oph_order_args_list list =
     (case list of
        [] \<Rightarrow> list
      | [_] \<Rightarrow> list
      | _ \<Rightarrow> (case args_pass list of (l, cnt) \<Rightarrow> if cnt \<noteq> 0 then oph_order_args_list l else l))"
  by pat_completeness auto
termination
proof (relation "measure args_inversions")
  fix list :: "oph_arguments list" and l cnt x2 x21 x22 x23
  assume "(l, cnt) = args_pass list" and "cnt \<noteq> 0"
  then show "(l, list) \<in> measure args_inversions"
    using args_inversions_pass [of list] by (cases "args_pass list") simp
qed simp

declare oph_order_args_list.simps [simp del]

section \<open>Splitting a program and a query\<close>

text \<open>The loop of \<open>oph_parse_program\<close>, from the pointer \<open>ptr0\<close> and the counter on.\<close>

function program_loop :: "nat \<Rightarrow> string \<Rightarrow> server_code \<times> oph_argument list \<times> nat" where
  "program_loop counter ptr0 =
     (if ptr0 = [] then (OPH_SERVER_OK, [], counter)
      else (case strchr ptr0 (CHR 0x0A) of
              None \<Rightarrow> (OPH_SERVER_OK, [], counter)
            | Some nl \<Rightarrow>
                (let ptr1 = tl nl; counter' = Suc counter in
                 if length ptr0 - length ptr1 > OPH_MAX_STRING_SIZE then (OPH_SERVER_ERROR, [], counter')
                 else (case program_loop counter' ptr1 of
                         (OPH_SERVER_OK, args, c) \<Rightarrow>
                           (OPH_SERVER_OK,
                            \<lparr>arg_key = take (OPH_SHORT_STRING_SIZE - 1) (show_nat counter'),
                             arg_value = take (length ptr0 - length ptr1 - 1) ptr0\<rparr> # args, c)
                       | (e, args, c) \<Rightarrow> (e, [], c)))))"
  by pat_completeness auto
termination
  by (relation "measure (\<lambda>(_, s). length s)") (auto dest: strchr_tl_length)

declare program_loop.simps [simp del]

definition oph_parse_program :: "string \<Rightarrow> server_code \<times> oph_argument list \<times> nat" where
  [code_defs]: "oph_parse_program task_string =
     (let program = take (OPH_MAX_PROGRAM_SIZE - 1) (task_string @ [CHR 0x0A]) in
      case program_loop 0 program of
        (OPH_SERVER_OK, args, counter) \<Rightarrow>
          (if counter = 0 then OPH_SERVER_ERROR else OPH_SERVER_OK, args, counter)
      | r \<Rightarrow> r)"

text \<open>
  Where the value at \<open>ptr1\<close> ends: a bracketed value runs at least to its closing bracket. The result
  is the pointer after the next separator, \<open>Inr None\<close> when there is none, and the error of an
  unclosed bracket as \<open>Inl\<close>.
\<close>

definition value_end :: "string \<Rightarrow> server_code + string option" where
  [code_defs]: "value_end ptr1 =
     (if take 1 ptr1 = ''['' then
        (case strchr ptr1 CHR '']'' of
           None \<Rightarrow> Inl OPH_SERVER_ERROR
         | Some ptr3 \<Rightarrow> Inr (map_option tl (strchr ptr3 CHR '';'')))
      else if take 1 ptr1 = ''{'' then
        (case strchr ptr1 CHR ''}'' of
           None \<Rightarrow> Inl OPH_SERVER_ERROR
         | Some ptr3 \<Rightarrow> Inr (map_option tl (strchr ptr3 CHR '';'')))
      else Inr (map_option tl (strchr ptr1 CHR '';'')))"

lemma value_end_length: "value_end ptr1 = Inr (Some ptr2) \<Longrightarrow> length ptr2 < length ptr1"
  by (auto simp: value_end_def strchr_Some_conv split: if_splits option.splits)

text \<open>The pairs from \<open>ptr0\<close> on; the flag is false when the loop ends at an unclosed bracket.\<close>

function query_loop :: "string \<Rightarrow> bool \<times> oph_argument list" where
  "query_loop ptr0 =
     (case strchr ptr0 CHR ''='' of
        None \<Rightarrow> (True, [])
      | Some eq \<Rightarrow>
          (let ptr1 = tl eq in
           case value_end ptr1 of
             Inl _ \<Rightarrow> (False, [])
           | Inr None \<Rightarrow> (True, [])
           | Inr (Some ptr2) \<Rightarrow>
               (case query_loop ptr2 of
                  (ok, args) \<Rightarrow>
                    (ok, \<lparr>arg_key = take (length ptr0 - length ptr1 - 1) ptr0,
                          arg_value = take (length ptr1 - length ptr2 - 1) ptr1\<rparr> # args))))"
  by pat_completeness auto
termination
  by (relation "measure length") (auto dest!: value_end_length strchr_tl_length)

declare query_loop.simps [simp del]

definition oph_parse_query :: "string \<Rightarrow> server_code \<times> oph_argument list \<times> nat" where
  [code_defs]: "oph_parse_query task_string =
     (case query_loop task_string of
        (ok, args) \<Rightarrow>
          (if \<not> ok \<or> args = [] then OPH_SERVER_ERROR else OPH_SERVER_OK, args, length args))"

section \<open>Look-up, replacement, printing\<close>

fun find_arg :: "oph_argument list \<Rightarrow> string \<Rightarrow> oph_argument option" where
  "find_arg [] key = None"
| "find_arg (tmp # args) key =
     (if strncasecmp_eq (arg_key tmp) key OPH_MAX_STRING_SIZE then Some tmp else find_arg args key)"

definition oph_get_arg :: "oph_argument list \<Rightarrow> string \<Rightarrow> server_code + string" where
  [code_defs]: "oph_get_arg args key =
     (if args = [] then Inl OPH_SERVER_NULL_POINTER
      else (case find_arg args key of
              Some tmp \<Rightarrow> Inr (take OPH_MAX_STRING_SIZE (arg_value tmp))
            | None \<Rightarrow> Inl OPH_SERVER_UNKNOWN))"

fun oph_set_arg :: "oph_argument list \<Rightarrow> string \<Rightarrow> string \<Rightarrow> oph_argument list" where
  "oph_set_arg [] key v =
     [\<lparr>arg_key = take OPH_MAX_STRING_SIZE key, arg_value = take OPH_MAX_STRING_SIZE v\<rparr>]"
| "oph_set_arg (tmp # args) key v =
     (if strncasecmp_eq (arg_key tmp) key OPH_MAX_STRING_SIZE
      then \<lparr>arg_key = take OPH_MAX_STRING_SIZE key, arg_value = take OPH_MAX_STRING_SIZE v\<rparr> # args
      else tmp # oph_set_arg args key v)"

definition hidden_arg :: "bool \<Rightarrow> string \<Rightarrow> bool" where
  [code_defs]: "hidden_arg add_datacube_input key \<longleftrightarrow>
     (let eq = (\<lambda>k. strncasecmp_eq k key OPH_MAX_STRING_SIZE) in
      eq ''ncores'' \<or> eq ''nhost'' \<or> eq ''exec_mode'' \<or> (eq ''cube'' \<and> \<not> add_datacube_input) \<or>
      eq ''src_path'' \<or> eq ''measure'' \<or> eq ''callback_url'')"

definition print_arg :: "oph_argument \<Rightarrow> string" where
  [code_defs]: "print_arg a = take OPH_MAX_STRING_SIZE (arg_key a) @ ''='' @
     take OPH_MAX_STRING_SIZE (arg_value a) @ '';''"

definition oph_arg_to_string :: "oph_argument list \<Rightarrow> bool \<Rightarrow> string" where
  [code_defs]: "oph_arg_to_string args add_datacube_input =
     concat (map print_arg (filter (\<lambda>a. \<not> hidden_arg add_datacube_input (arg_key a)) args))"

section \<open>Lemmas\<close>

lemma args_pass_zero: "snd (args_pass xs) = 0 \<Longrightarrow> sorted (map args_id xs) \<and> fst (args_pass xs) = xs"
  by (induction xs rule: args_pass.induct) (auto simp: Let_def split: prod.splits if_splits)

lemma args_pass_stable:
  "filter (\<lambda>x. args_id x = k) (fst (args_pass xs)) = filter (\<lambda>x. args_id x = k) xs"
  by (induction xs rule: args_pass.induct) (auto simp: Let_def split: prod.splits if_splits)

lemma order_args_list_step:
  assumes "args_pass xs = (ys, c)"
  shows "oph_order_args_list xs =
    (if length xs < 2 then xs else if c \<noteq> 0 then oph_order_args_list ys else ys)"
  using assms by (subst oph_order_args_list.simps) (auto split: list.split)

lemma order_args_list_sorted:
  "sorted (map args_id (oph_order_args_list xs)) \<and> mset (oph_order_args_list xs) = mset xs \<and>
   (\<forall>k. filter (\<lambda>x. args_id x = k) (oph_order_args_list xs) = filter (\<lambda>x. args_id x = k) xs)"
proof (induction "args_inversions xs" arbitrary: xs rule: less_induct)
  case less
  obtain ys c where p: "args_pass xs = (ys, c)" by fastforce
  note step = order_args_list_step [OF p]
  consider "length xs < 2" | "\<not> length xs < 2" "c = 0" | "\<not> length xs < 2" "c \<noteq> 0" by blast
  then show ?case
  proof cases
    case 1
    then have "sorted (map args_id xs)" by (cases xs rule: args_pass.cases) auto
    with 1 step show ?thesis by simp
  next
    case 2
    then show ?thesis using step args_pass_zero [of xs] p by simp
  next
    case 3
    have "mset ys = mset xs" using mset_args_pass [of xs] p by simp
    moreover have "filter (\<lambda>x. args_id x = k) ys = filter (\<lambda>x. args_id x = k) xs" for k
      using args_pass_stable [of k xs] p by simp
    moreover have "args_inversions ys < args_inversions xs"
      using args_inversions_pass [of xs] p 3 by simp
    ultimately show ?thesis using less [of ys] step 3 by simp
  qed
qed

text \<open>The contract of a list of arguments that a client reads and updates by key.\<close>

locale arg_store =
  fixes lookup :: "'s \<Rightarrow> 'k \<Rightarrow> 'v option"
    and put :: "'s \<Rightarrow> 'k \<Rightarrow> 'v \<Rightarrow> 's"
    and same :: "'k \<Rightarrow> 'k \<Rightarrow> bool"
    and clip :: "'v \<Rightarrow> 'v"
  assumes lookup_put_same: "same k k' \<Longrightarrow> lookup (put s k v) k' = Some (clip v)"
    and lookup_put_other: "\<not> same k k' \<Longrightarrow> lookup (put s k v) k' = lookup s k'"
begin

lemma lookup_puts:
  "lookup (fold (\<lambda>(k, v) s. put s k v) kvs s) k' =
     (case filter (\<lambda>(k, v). same k k') kvs of
        [] \<Rightarrow> lookup s k'
      | ms \<Rightarrow> Some (clip (snd (last ms))))"
proof (induction kvs rule: rev_induct)
  case Nil
  then show ?case by simp
next
  case (snoc kv kvs)
  obtain k v where kv: "kv = (k, v)" by fastforce
  have "(case xs @ [y] of [] \<Rightarrow> z | ms \<Rightarrow> Some (clip (snd (last ms)))) = Some (clip (snd y))"
    for xs and y :: "'k \<times> 'v" and z
    by (cases xs) auto
  then show ?case
    by (cases "same k k'") (simp_all add: kv lookup_put_same lookup_put_other snoc.IH)
qed

lemma put_put:
  "same k k' \<Longrightarrow> lookup (put (put s k v) k' w) j = (if same k' j then Some (clip w) else lookup (put s k v) j)"
  by (simp add: lookup_put_same lookup_put_other)

end

definition arg_lookup :: "oph_argument list \<Rightarrow> string \<Rightarrow> string option" where
  "arg_lookup args key =
     (case oph_get_arg args key of Inr v \<Rightarrow> Some v | Inl _ \<Rightarrow> None)"

lemma arg_lookup_find:
  "arg_lookup args key = map_option (\<lambda>a. take OPH_MAX_STRING_SIZE (arg_value a)) (find_arg args key)"
  by (auto simp: arg_lookup_def oph_get_arg_def split: option.splits)

lemma find_arg_set_same:
  assumes "strncasecmp_eq key key' OPH_MAX_STRING_SIZE"
  shows "map_option arg_value (find_arg (oph_set_arg args key v) key') = Some (take OPH_MAX_STRING_SIZE v)"
proof (induction args)
  case (Cons a args)
  show ?case
  proof (cases "strncasecmp_eq (arg_key a) key OPH_MAX_STRING_SIZE")
    case True
    then show ?thesis using assms by simp
  next
    case False
    then have "\<not> strncasecmp_eq (arg_key a) key' OPH_MAX_STRING_SIZE"
      using assms by (metis strncasecmp_eq_trans strncasecmp_eq_sym)
    with False Cons show ?thesis by simp
  qed
qed (simp add: assms)

lemma find_arg_set_other:
  assumes "\<not> strncasecmp_eq key key' OPH_MAX_STRING_SIZE"
  shows "find_arg (oph_set_arg args key v) key' = find_arg args key'"
proof (induction args)
  case (Cons a args)
  show ?case
  proof (cases "strncasecmp_eq (arg_key a) key OPH_MAX_STRING_SIZE")
    case True
    then have "\<not> strncasecmp_eq (arg_key a) key' OPH_MAX_STRING_SIZE"
      using assms by (metis strncasecmp_eq_trans strncasecmp_eq_sym)
    with True assms show ?thesis by simp
  next
    case False
    with Cons show ?thesis by simp
  qed
qed (simp add: assms)

interpretation av: arg_store arg_lookup oph_set_arg
  "\<lambda>k k'. strncasecmp_eq k k' OPH_MAX_STRING_SIZE" "take OPH_MAX_STRING_SIZE"
proof
  fix k k' :: string and args v
  assume "strncasecmp_eq k k' OPH_MAX_STRING_SIZE"
  from find_arg_set_same [OF this, of args v]
  show "arg_lookup (oph_set_arg args k v) k' = Some (take OPH_MAX_STRING_SIZE v)"
    by (auto simp: arg_lookup_find)
next
  fix k k' :: string and args v
  assume "\<not> strncasecmp_eq k k' OPH_MAX_STRING_SIZE"
  from find_arg_set_other [OF this, of args v]
  show "arg_lookup (oph_set_arg args k v) k' = arg_lookup args k'"
    by (simp add: arg_lookup_find)
qed

text \<open>The values that survive printing and parsing.\<close>

definition value_ok :: "string \<Rightarrow> bool" where
  [code_defs]: "value_ok v \<longleftrightarrow>
     (if take 1 v = ''['' then (case strchr v CHR '']'' of None \<Rightarrow> False | Some t \<Rightarrow> CHR '';'' \<notin> set t)
      else if take 1 v = ''{'' then (case strchr v CHR ''}'' of None \<Rightarrow> False | Some t \<Rightarrow> CHR '';'' \<notin> set t)
      else CHR '';'' \<notin> set v)"

definition arg_ok :: "oph_argument \<Rightarrow> bool" where
  [code_defs]: "arg_ok a \<longleftrightarrow> CHR ''='' \<notin> set (arg_key a) \<and> value_ok (arg_value a) \<and>
     length (arg_key a) \<le> OPH_MAX_STRING_SIZE \<and> length (arg_value a) \<le> OPH_MAX_STRING_SIZE"

lemma strchr_append_in: "strchr s c = Some t \<Longrightarrow> strchr (s @ u) c = Some (t @ u)"
  by (auto simp: strchr_Some_conv)

lemma value_end_ok:
  assumes "value_ok v"
  shows "value_end (v @ CHR '';'' # t) = Inr (Some t)"
proof (cases v)
  case Nil
  then show ?thesis by (simp add: value_end_def)
next
  case (Cons x w)
  have close: "\<exists>u. strchr (v @ CHR '';'' # t) c = Some u \<and> strchr u CHR '';'' = Some (CHR '';'' # t)"
    if "case strchr v c of None \<Rightarrow> False | Some t \<Rightarrow> CHR '';'' \<notin> set t" for c
    using that strchr_append_in [of v c _ "CHR '';'' # t"]
    by (auto simp: strchr_append split: option.splits)
  have "take 1 (v @ CHR '';'' # t) = take 1 v" by (simp add: Cons)
  then show ?thesis
    using assms close [of "CHR '']''"] close [of "CHR ''}''"] strchr_append [of "CHR '';''" v t]
    unfolding value_end_def value_ok_def by (auto split: if_splits simp del: strchr.simps)
qed

lemma query_loop_print:
  assumes "arg_ok a"
  shows "query_loop (print_arg a @ t) = (case query_loop t of (ok, args) \<Rightarrow> (ok, a # args))"
proof -
  have s: "print_arg a @ t = arg_key a @ CHR ''='' # (arg_value a @ CHR '';'' # t)"
    using assms by (simp add: print_arg_def arg_ok_def)
  have "strchr (print_arg a @ t) CHR ''='' = Some (CHR ''='' # arg_value a @ CHR '';'' # t)"
    unfolding s using assms by (simp add: strchr_append arg_ok_def)
  moreover have "value_end (arg_value a @ CHR '';'' # t) = Inr (Some t)"
    using assms by (simp add: value_end_ok arg_ok_def)
  ultimately show ?thesis
    by (subst query_loop.simps) (simp add: s split: prod.split)
qed

lemma query_loop_prints:
  "\<forall>a\<in>set args. arg_ok a \<Longrightarrow> query_loop (concat (map print_arg args)) = (True, args)"
  by (induction args) (simp_all add: query_loop_print query_loop.simps [of "[]"])

lemma length_show_nat: "n < 10 ^ Suc k \<Longrightarrow> length (show_nat n) \<le> Suc k"
proof (induction k arbitrary: n)
  case 0
  then show ?case by (simp add: show_nat.simps [of n])
next
  case (Suc k)
  show ?case
  proof (cases "n < 10")
    case False
    have "n div 10 < 10 ^ Suc k" using Suc.prems by (simp add: less_mult_imp_div_less)
    from Suc.IH [OF this] False show ?thesis by (simp add: show_nat.simps [of n])
  qed (simp add: show_nat.simps [of n])
qed

lemma program_loop_lines:
  assumes "\<forall>l\<in>set ls. CHR 0x0A \<notin> set l \<and> length l < OPH_MAX_STRING_SIZE"
    and "counter + length ls < 10 ^ 127"
  shows "program_loop counter (concat (map (\<lambda>l. l @ [CHR 0x0A]) ls)) =
    (OPH_SERVER_OK, map (\<lambda>(i, l). \<lparr>arg_key = show_nat i, arg_value = l\<rparr>)
       (zip [Suc counter..<Suc (counter + length ls)] ls), counter + length ls)"
  using assms
proof (induction ls arbitrary: counter)
  case Nil
  then show ?case by (simp add: program_loop.simps)
next
  case (Cons l ls)
  let ?r = "concat (map (\<lambda>l. l @ [CHR 0x0A]) ls)"
  have k: "length (show_nat (Suc counter)) \<le> OPH_SHORT_STRING_SIZE - Suc 0"
    using length_show_nat [of "Suc counter" 126] Cons.prems(2) by (simp add: OPH_SHORT_STRING_SIZE_def del: power_Suc)
  have s: "strchr (l @ CHR 0x0A # ?r) (CHR 0x0A) = Some (CHR 0x0A # ?r)"
    using Cons.prems by (simp add: strchr_append)
  have u: "[Suc counter..<Suc (counter + length (l # ls))] =
      Suc counter # [Suc (Suc counter)..<Suc (Suc counter + length ls)]"
    by (simp add: upt_rec)
  have ih: "program_loop (Suc counter) ?r =
    (OPH_SERVER_OK, map (\<lambda>(i, l). \<lparr>arg_key = show_nat i, arg_value = l\<rparr>)
       (zip [Suc (Suc counter)..<Suc (Suc counter + length ls)] ls), Suc counter + length ls)"
    using Cons by simp
  show ?case
    unfolding u using Cons.prems
    by (subst program_loop.simps) (simp add: s k ih Let_def)
qed

lemma concat_lines: "ls \<noteq> [] \<Longrightarrow> concat (map (\<lambda>l. l @ [c]) ls) = joinc c ls @ [c]"
  by (induction c ls rule: joinc.induct) auto

section \<open>Properties\<close>

text \<open>
  Remark: \<open>oph_order_args_list\<close> returns for every list and sorts it by the identifiers, and the sort is
  stable: queries with the same identifier keep their order.\<close>

theorem oph_order_args_list_stable_sort: "oph_order_args_list xs = sort_key args_id xs"
proof (rule sym, rule properties_for_sort_key)
  show "mset (oph_order_args_list xs) = mset xs"
    and "sorted (map args_id (oph_order_args_list xs))"
    using order_args_list_sorted [of xs] by auto
  show "filter (\<lambda>x. args_id k = args_id x) (oph_order_args_list xs) = filter (\<lambda>x. args_id k = args_id x) xs" for k
    using order_args_list_sorted [of xs] by (simp add: eq_commute [of "args_id k"])
qed

text \<open>
  Remark: after any sequence of \<open>oph_set_arg\<close> calls, \<open>oph_get_arg\<close> returns the value of the last call
  whose key is the requested one up to case (cut to the size of the buffer), and what it returned before
  when there is none.\<close>

theorem oph_get_arg_after_sets:
  "(case oph_get_arg (fold (\<lambda>(k, v) args. oph_set_arg args k v) kvs args) key of
      Inr v \<Rightarrow> Some v | Inl e \<Rightarrow> None) =
   (case filter (\<lambda>(k, v). strncasecmp_eq k key OPH_MAX_STRING_SIZE) kvs of
      [] \<Rightarrow> (case oph_get_arg args key of Inr v \<Rightarrow> Some v | Inl e \<Rightarrow> None)
    | ms \<Rightarrow> Some (take OPH_MAX_STRING_SIZE (snd (last ms))))"
  using av.lookup_puts [of kvs args key] by (simp only: arg_lookup_def)

text \<open>
  C29: \<open>oph_parse_query\<close> inverts \<open>oph_arg_to_string\<close>: printing a list of arguments that fit the
  buffers, with no \<open>=\<close> in a key and a separator in a value only inside a leading bracket, and parsing
  the text gives the printed arguments back in order.\<close>

theorem oph_parse_query_roundtrip:
  assumes "\<forall>a\<in>set args. arg_ok a" and "args' = filter (\<lambda>a. \<not> hidden_arg cube (arg_key a)) args"
    and "args' \<noteq> []"
  shows "oph_parse_query (oph_arg_to_string args cube) = (OPH_SERVER_OK, args', length args')"
  using assms query_loop_prints [of args'] by (simp add: oph_parse_query_def oph_arg_to_string_def)

theorem oph_parse_query_roundtrip_witness:
  "oph_parse_query (oph_arg_to_string
      [\<lparr>arg_key = ''a'', arg_value = ''[x;y]''\<rparr>, \<lparr>arg_key = ''NCORES'', arg_value = ''2''\<rparr>,
       \<lparr>arg_key = ''b'', arg_value = ''1''\<rparr>] True) =
   (OPH_SERVER_OK, [\<lparr>arg_key = ''a'', arg_value = ''[x;y]''\<rparr>, \<lparr>arg_key = ''b'', arg_value = ''1''\<rparr>], 2)"
  by (subst oph_parse_query_roundtrip [where args' = "[\<lparr>arg_key = ''a'', arg_value = ''[x;y]''\<rparr>,
       \<lparr>arg_key = ''b'', arg_value = ''1''\<rparr>]"]) (code_simp | simp)+

text \<open>
  Remark: \<open>oph_parse_program\<close> numbers the lines of a program: for a text below the size of the buffer
  whose lines fit a query it succeeds, the keys are \<open>1, 2, \<dots>\<close> and the values the lines, empty
  ones included.\<close>

theorem oph_parse_program_lines:
  assumes "length task_string < OPH_MAX_PROGRAM_SIZE - 1"
    and "\<forall>l\<in>set (splitc (CHR 0x0A) task_string). length l < OPH_MAX_STRING_SIZE"
  shows "oph_parse_program task_string =
    (let ls = splitc (CHR 0x0A) task_string in
     (OPH_SERVER_OK, map (\<lambda>(i, l). \<lparr>arg_key = show_nat i, arg_value = l\<rparr>) (zip [1..<Suc (length ls)] ls),
      length ls))"
proof -
  let ?ls = "splitc (CHR 0x0A) task_string"
  have "take (OPH_MAX_PROGRAM_SIZE - 1) (task_string @ [CHR 0x0A]) = concat (map (\<lambda>l. l @ [CHR 0x0A]) ?ls)"
    using assms(1) concat_lines [of ?ls "CHR 0x0A"] by simp
  moreover have "length ?ls < 10 ^ 127"
    using assms(1) length_splitc [of "CHR 0x0A" task_string] by (simp add: OPH_MAX_PROGRAM_SIZE_def)
  ultimately show ?thesis
    using program_loop_lines [of ?ls 0] assms(2) splitc_parts [of _ "CHR 0x0A" task_string]
    by (simp add: oph_parse_program_def Let_def)
qed

theorem oph_parse_program_lines_witness:
  "oph_parse_program ''a=1;\<newline>b=2;'' =
    (OPH_SERVER_OK, [\<lparr>arg_key = ''1'', arg_value = ''a=1;''\<rparr>, \<lparr>arg_key = ''2'', arg_value = ''b=2;''\<rparr>], 2)"
proof (subst oph_parse_program_lines)
  show "length ''a=1;\<newline>b=2;'' < OPH_MAX_PROGRAM_SIZE - 1"
    and "\<forall>l\<in>set (splitc (CHR 0x0A) ''a=1;\<newline>b=2;''). length l < OPH_MAX_STRING_SIZE"
    by (simp_all add: code_defs)
qed code_simp

end
