(* ===== verification/Task_String.thy ===== *)
theory Task_String
  imports Oph_Prelude
begin

text \<open>
  The part of \<^verbatim>\<open>src/src/oph_task_parser_library.c\<close> that reads a task string \<open>key=value;key=value|value;\<close>: the
  syntax check, the look-up of a parameter, the membership test in a list of values, and the
  splitting of a multiple value. \<open>OPH_TP_SKIP_SEPARATOR\<close> is the NUL character, which no C string
  contains, so the branches on it (and the flags \<open>skip_flag\<close> and \<open>skip_check\<close>, which only they
  set) are never taken and are left out.
\<close>

section \<open>Operations\<close>

datatype tp_code = OPH_TP_TASK_PARSER_SUCCESS | OPH_TP_TASK_PARSER_ERROR | OPH_TP_TASK_SYSTEM_ERROR

definition is_tp_separator :: "char \<Rightarrow> bool" where
  [code_defs]: "is_tp_separator c \<longleftrightarrow> c = CHR ''='' \<or> c = CHR ''|'' \<or> c = CHR '';''"

fun validate_loop :: "char \<Rightarrow> char \<Rightarrow> bool \<Rightarrow> string \<Rightarrow> tp_code" where
  "validate_loop last_char previous_char first_flag [] = OPH_TP_TASK_PARSER_SUCCESS"
| "validate_loop last_char previous_char first_flag (c # s) =
     (if c = CHR ''='' then
        (if (last_char \<noteq> CHR '';'' \<and> last_char \<noteq> CHR ''='') \<or> is_tp_separator previous_char
         then OPH_TP_TASK_PARSER_ERROR
         else validate_loop CHR ''='' c False s)
      else if c = CHR '';'' then
        (if first_flag then OPH_TP_TASK_PARSER_ERROR
         else if last_char = CHR '';'' \<or> is_tp_separator previous_char then OPH_TP_TASK_PARSER_ERROR
         else validate_loop CHR '';'' c first_flag s)
      else if c = CHR ''|'' then
        (if first_flag then OPH_TP_TASK_PARSER_ERROR
         else if last_char = CHR '';'' \<or> is_tp_separator previous_char then OPH_TP_TASK_PARSER_ERROR
         else validate_loop CHR ''|'' c first_flag s)
      else validate_loop last_char c first_flag s)"

definition oph_tp_validate_task_string :: "string \<Rightarrow> tp_code" where
  [code_defs]: "oph_tp_validate_task_string task_string = validate_loop CHR '';'' (CHR 0x00) True task_string"

text \<open>
  The loop of \<open>oph_tp_find_param_in_task_string\<close> from \<open>ptr_begin\<close> on. \<open>Inr\<close> is the value written
  on success; \<open>None\<close> is the copy of a negative number of characters, when the first \<open>=\<close> comes
  after the first \<open>;\<close>.
\<close>

function find_param_loop :: "string \<Rightarrow> string \<Rightarrow> (tp_code + string) option" where
  "find_param_loop ptr_begin param =
     (case strchr ptr_begin CHR '';'' of
        None \<Rightarrow> Some (Inl OPH_TP_TASK_PARSER_ERROR)
      | Some ptr_end \<Rightarrow>
          (case strchr ptr_begin CHR ''='' of
             None \<Rightarrow> Some (Inl OPH_TP_TASK_SYSTEM_ERROR)
           | Some ptr_equal \<Rightarrow>
               if strncmp_eq ptr_begin param (length ptr_begin - length ptr_equal) \<and>
                  strncmp_eq ptr_begin param (length param)
               then (let start_char = tl ptr_equal; stop_char = ptr_end in
                     if length start_char < length stop_char then None
                     else Some (Inr (take (length start_char - length stop_char) start_char)))
               else find_param_loop (tl ptr_end) param))"
  by pat_completeness auto
termination
  by (relation "measure (\<lambda>(b, _). length b)") (auto dest: strchr_tl_length)

declare find_param_loop.simps [simp del]

definition oph_tp_find_param_in_task_string :: "string \<Rightarrow> string \<Rightarrow> (tp_code + string) option" where
  [code_defs]: "oph_tp_find_param_in_task_string task_string param = find_param_loop task_string param"

function oph_tp_match_value_in_xml_value_list :: "string \<Rightarrow> string \<Rightarrow> tp_code" where
  "oph_tp_match_value_in_xml_value_list v ptr_begin =
     (case strchr ptr_begin CHR ''|'' of
        Some ptr_end \<Rightarrow>
          if strncmp_eq ptr_begin v (length ptr_begin - length ptr_end) \<and> strncmp_eq ptr_begin v (length v)
          then OPH_TP_TASK_PARSER_SUCCESS
          else oph_tp_match_value_in_xml_value_list v (tl ptr_end)
      | None \<Rightarrow>
          if strncmp_eq ptr_begin v (length ptr_begin) \<and> strncmp_eq ptr_begin v (length v)
          then OPH_TP_TASK_PARSER_SUCCESS
          else OPH_TP_TASK_PARSER_ERROR)"
  by pat_completeness auto
termination
  by (relation "measure (\<lambda>(_, b). length b)") (auto dest: strchr_tl_length)

declare oph_tp_match_value_in_xml_value_list.simps [simp del]

text \<open>
  The first loop of \<open>oph_tp_parse_multiple_value_param\<close> counts the values (\<open>param_num\<close>) and the
  size of the largest (\<open>msize\<close>); the second stores the values into \<open>room\<close> buffers of \<open>msize + 1\<close>
  bytes, \<open>None\<close> being a write outside of them.
\<close>

fun count_values :: "string \<Rightarrow> nat \<Rightarrow> nat \<Rightarrow> nat \<Rightarrow> nat \<times> nat" where
  "count_values [] param_num msize csize = (param_num, if msize < csize then csize else msize)"
| "count_values (c # s) param_num msize csize =
     (let csize = csize + 1 in
      if c = CHR ''|'' then count_values s (param_num + 1) (if msize < csize then csize else msize) 0
      else count_values s param_num msize csize)"

function store_values :: "nat \<Rightarrow> nat \<Rightarrow> string \<Rightarrow> string list option" where
  "store_values room msize ptr_begin =
     (case strchr ptr_begin CHR ''|'' of
        Some ptr_end \<Rightarrow>
          if room = 0 \<or> length ptr_begin - length ptr_end > msize then None
          else map_option (Cons (take (length ptr_begin - length ptr_end) ptr_begin))
                 (store_values (room - 1) msize (tl ptr_end))
      | None \<Rightarrow> if room = 0 \<or> length ptr_begin > msize then None else Some [ptr_begin])"
  by pat_completeness auto
termination
  by (relation "measure (\<lambda>(_, _, b). length b)") (auto dest: strchr_tl_length)

declare store_values.simps [simp del]

definition oph_tp_parse_multiple_value_param :: "string \<Rightarrow> (tp_code \<times> string list \<times> nat) option" where
  [code_defs]: "oph_tp_parse_multiple_value_param values =
     (if values = [] then Some (OPH_TP_TASK_PARSER_SUCCESS, [], 0)
      else if list_ex (\<lambda>c. c = CHR ''='' \<or> c = CHR '';'') values then Some (OPH_TP_TASK_PARSER_ERROR, [], 0)
      else (case count_values values 1 0 0 of
              (param_num, msize) \<Rightarrow>
                map_option (\<lambda>l. (OPH_TP_TASK_PARSER_SUCCESS, l, param_num))
                  (store_values param_num msize values)))"

section \<open>Lemmas\<close>

text \<open>The pairs a task string denotes: one for each part that a \<open>;\<close> ends, cut at its first \<open>=\<close>.\<close>

definition cut_pair :: "string \<Rightarrow> string \<times> string" where
  [code_defs]: "cut_pair p = (takeWhile (\<lambda>c. c \<noteq> CHR ''='') p, tl (dropWhile (\<lambda>c. c \<noteq> CHR ''='') p))"

definition task_pairs :: "string \<Rightarrow> (string \<times> string) list" where
  [code_defs]: "task_pairs s = map cut_pair (butlast (splitc CHR '';'' s))"

lemma validate_loop_segments:
  assumes "validate_loop l prev f s = OPH_TP_TASK_PARSER_SUCCESS" and "splitc CHR '';'' s = p # ps"
  shows "(ps \<noteq> [] \<longrightarrow> l = CHR '';'' \<longrightarrow> CHR ''='' \<in> set p) \<and> (\<forall>q\<in>set (butlast ps). CHR ''='' \<in> set q)"
  using assms
proof (induction s arbitrary: l prev f p ps)
  case Nil
  then show ?case by simp
next
  case (Cons c s)
  obtain p' ps' where s: "splitc CHR '';'' s = p' # ps'" by (cases "splitc CHR '';'' s") auto
  show ?case
  proof (cases "c = CHR '';''")
    case True
    then have "l \<noteq> CHR '';''" and ok: "validate_loop CHR '';'' c f s = OPH_TP_TASK_PARSER_SUCCESS"
      using Cons.prems by (auto split: if_splits)
    moreover have "p = []" "ps = p' # ps'" using Cons.prems(2) True s by auto
    ultimately show ?thesis using Cons.IH [OF ok s] by (cases ps') auto
  next
    case False
    then have p: "p = c # p'" "ps = ps'" using Cons.prems(2) s by auto
    from Cons.prems(1) False obtain l' f' where
      ok: "validate_loop l' c f' s = OPH_TP_TASK_PARSER_SUCCESS" and "l = CHR '';'' \<longrightarrow> c \<noteq> CHR ''='' \<longrightarrow> l' = l"
      by (auto split: if_splits)
    with Cons.IH [OF ok s] p show ?thesis by auto
  qed
qed

lemma validate_segments:
  assumes "oph_tp_validate_task_string s = OPH_TP_TASK_PARSER_SUCCESS"
    and "q \<in> set (butlast (splitc CHR '';'' s))"
  shows "CHR ''='' \<in> set q"
proof -
  obtain p ps where s: "splitc CHR '';'' s = p # ps" by (cases "splitc CHR '';'' s") auto
  with validate_loop_segments [OF assms(1) [unfolded oph_tp_validate_task_string_def] s] assms(2)
  show ?thesis by (cases ps) auto
qed

lemma prefix_value:
  assumes "c \<notin> set v"
  shows "strncmp_eq (p @ c # t) v (length p) \<and> strncmp_eq (p @ c # t) v (length v) \<longleftrightarrow> v = p"
proof
  assume "strncmp_eq (p @ c # t) v (length p) \<and> strncmp_eq (p @ c # t) v (length v)"
  then have p: "p = take (length p) v" and v: "v = take (length v) (p @ c # t)"
    by (simp_all add: strncmp_eq_def)
  have "length v \<le> length p"
  proof (rule ccontr)
    assume "\<not> length v \<le> length p"
    then have "c \<in> set (take (length v) (p @ c # t))"
      by (cases "length v - length p") auto
    with v assms show False by metis
  qed
  with p show "v = p" by simp
qed (simp add: strncmp_eq_def)

lemma find_param_segment:
  assumes "CHR '';'' \<notin> set p" and "CHR ''='' \<in> set p" and "CHR ''='' \<notin> set param"
  shows "find_param_loop (p @ CHR '';'' # t) param =
    (if param = fst (cut_pair p) then Some (Inr (snd (cut_pair p))) else find_param_loop t param)"
proof -
  obtain k v where p: "p = k @ CHR ''='' # v" and k: "CHR ''='' \<notin> set k"
    using split_list_first [OF assms(2)] by blast
  have cut: "cut_pair p = (k, v)"
    using k by (auto simp: cut_pair_def p takeWhile_append dropWhile_append)
  have e: "strchr (p @ CHR '';'' # t) CHR '';'' = Some (CHR '';'' # t)"
    using assms(1) by (rule strchr_append)
  have q: "strchr (p @ CHR '';'' # t) CHR ''='' = Some (CHR ''='' # v @ CHR '';'' # t)"
    using k by (simp add: p strchr_append)
  have "strncmp_eq (p @ CHR '';'' # t) param (length k) \<and> strncmp_eq (p @ CHR '';'' # t) param (length param)
      \<longleftrightarrow> param = k"
    using prefix_value [OF assms(3), of k "v @ CHR '';'' # t"] by (simp add: p)
  moreover have "length (p @ CHR '';'' # t) - length (CHR ''='' # v @ CHR '';'' # t) = length k"
    by (simp add: p)
  ultimately show ?thesis
    by (subst find_param_loop.simps) (simp add: e q cut Let_def)
qed

lemma find_param_pairs:
  assumes "\<forall>q\<in>set (butlast (splitc CHR '';'' s)). CHR ''='' \<in> set q" and "CHR ''='' \<notin> set param"
  shows "find_param_loop s param =
    Some (case map_of (task_pairs s) param of Some v \<Rightarrow> Inr v | None \<Rightarrow> Inl OPH_TP_TASK_PARSER_ERROR)"
  using assms(1)
proof (induction s rule: length_induct)
  case (1 s)
  show ?case
  proof (cases rule: splitc_cases [of "CHR '';''" s])
    case 1
    then show ?thesis by (simp add: find_param_loop.simps task_pairs_def)
  next
    case (2 p t)
    then have seg: "CHR ''='' \<in> set p" and rest: "\<forall>q\<in>set (butlast (splitc CHR '';'' t)). CHR ''='' \<in> set q"
      using "1.prems" by auto
    have "find_param_loop t param =
      Some (case map_of (task_pairs t) param of Some v \<Rightarrow> Inr v | None \<Rightarrow> Inl OPH_TP_TASK_PARSER_ERROR)"
      using "1.IH" 2 rest by simp
    then show ?thesis
      using find_param_segment [OF 2(2) seg assms(2), of t] 2
      by (auto simp: task_pairs_def cut_pair_def)
  qed
qed

lemma strncmp_eq_both: "strncmp_eq b v (length b) \<and> strncmp_eq b v (length v) \<longleftrightarrow> b = v"
  by (auto simp: strncmp_eq_def) (metis nat_le_linear take_all)


lemma match_value_splitc:
  assumes "CHR ''|'' \<notin> set v"
  shows "oph_tp_match_value_in_xml_value_list v s =
    (if v \<in> set (splitc CHR ''|'' s) then OPH_TP_TASK_PARSER_SUCCESS else OPH_TP_TASK_PARSER_ERROR)"
proof (induction s rule: length_induct)
  case (1 s)
  show ?case
  proof (cases rule: splitc_cases [of "CHR ''|''" s])
    case 1
    then show ?thesis
      by (subst oph_tp_match_value_in_xml_value_list.simps) (auto simp: strncmp_eq_both)
  next
    case (2 p t)
    have e: "strchr s CHR ''|'' = Some (CHR ''|'' # t)" using 2 by (simp add: strchr_append)
    have "oph_tp_match_value_in_xml_value_list v t =
      (if v \<in> set (splitc CHR ''|'' t) then OPH_TP_TASK_PARSER_SUCCESS else OPH_TP_TASK_PARSER_ERROR)"
      using "1.IH" 2 by simp
    moreover have "strncmp_eq s v (length s - length (CHR ''|'' # t)) \<and> strncmp_eq s v (length v) \<longleftrightarrow> v = p"
      using prefix_value [OF assms, of p t] 2 by simp
    ultimately show ?thesis
      by (subst oph_tp_match_value_in_xml_value_list.simps) (simp add: e 2(3))
  qed
qed

lemma count_values_bound:
  assumes "count_values s pn ms cs = (pn', ms')" and "splitc CHR ''|'' s = p # ps"
  shows "pn' = pn + length ps \<and> ms \<le> ms' \<and> cs + length p \<le> ms' \<and> (\<forall>q\<in>set ps. length q \<le> ms')"
  using assms
proof (induction s arbitrary: pn ms cs p ps)
  case (Cons c s)
  obtain p' ps' where s: "splitc CHR ''|'' s = p' # ps'" by (cases "splitc CHR ''|'' s") auto
  show ?case
  proof (cases "c = CHR ''|''")
    case True
    then have "count_values s (Suc pn) (if ms < Suc cs then Suc cs else ms) 0 = (pn', ms')"
      using Cons.prems(1) by (simp add: Let_def cong del: if_weak_cong split del: if_split)
    note ih = Cons.IH [OF this s]
    have "p = []" "ps = p' # ps'" using Cons.prems(2) True s by auto
    with ih show ?thesis by (auto split: if_splits)
  next
    case False
    then have "count_values s pn ms (cs + 1) = (pn', ms')" using Cons.prems by (simp add: Let_def)
    from Cons.IH [OF this s] False Cons.prems(2) s show ?thesis by auto
  qed
qed (auto split: if_splits)

lemma store_values_splitc:
  "length (splitc CHR ''|'' s) \<le> room \<Longrightarrow> \<forall>q\<in>set (splitc CHR ''|'' s). length q \<le> msize \<Longrightarrow>
   store_values room msize s = Some (splitc CHR ''|'' s)"
proof (induction s arbitrary: room rule: length_induct)
  case (1 s)
  show ?case
  proof (cases rule: splitc_cases [of "CHR ''|''" s])
    case 1
    then show ?thesis using "1.prems" by (subst store_values.simps) simp
  next
    case (2 p t)
    have e: "strchr s CHR ''|'' = Some (CHR ''|'' # t)" using 2 by (simp add: strchr_append)
    have "store_values (room - 1) msize t = Some (splitc CHR ''|'' t)"
      using "1.IH" "1.prems" 2 by auto
    moreover have "length s - length (CHR ''|'' # t) = length p" and "take (length p) s = p"
      using 2 by simp_all
    moreover have "room \<noteq> 0" and "length p \<le> msize"
      using "1.prems" 2(3) by auto
    ultimately show ?thesis
      by (subst store_values.simps) (simp add: e 2(3))
  qed
qed

section \<open>Properties\<close>

text \<open>
  C19: on a task string that \<open>oph_tp_validate_task_string\<close> accepts, the look-up of a parameter never
  runs out of bounds and never reports a system error: it returns the value of the first pair with
  that key, and the parser error when there is none.\<close>

theorem find_param_after_validate:
  assumes "oph_tp_validate_task_string task_string = OPH_TP_TASK_PARSER_SUCCESS" and "CHR ''='' \<notin> set param"
  shows "oph_tp_find_param_in_task_string task_string param =
    Some (case map_of (task_pairs task_string) param of Some v \<Rightarrow> Inr v | None \<Rightarrow> Inl OPH_TP_TASK_PARSER_ERROR)"
  unfolding oph_tp_find_param_in_task_string_def
  using find_param_pairs validate_segments [OF assms(1)] assms(2) by blast

theorem find_param_after_validate_witness:
  "oph_tp_find_param_in_task_string ''cube=a|b;n=4;'' ''n'' = Some (Inr ''4'')"
proof (subst find_param_after_validate)
  show "oph_tp_validate_task_string ''cube=a|b;n=4;'' = OPH_TP_TASK_PARSER_SUCCESS" by code_simp
  show "CHR ''='' \<notin> set ''n''" by simp
qed code_simp

text \<open>
  Remark: the look-up in a task string that was not validated can compute a negative length, when a part
  has no \<open>=\<close> of its own: the copy then runs out of bounds.\<close>

theorem find_param_out_of_bounds:
  "oph_tp_find_param_in_task_string ''a;=b;'' ''a;'' = None \<and>
   oph_tp_validate_task_string ''a;=b;'' = OPH_TP_TASK_PARSER_ERROR"
  by code_simp

text \<open>
  Remark: \<open>oph_tp_match_value_in_xml_value_list\<close> is membership: a value without the separator is accepted
  exactly when it is one of the values of the list.\<close>

theorem match_value_is_membership:
  assumes "CHR ''|'' \<notin> set v"
  shows "oph_tp_match_value_in_xml_value_list v values = OPH_TP_TASK_PARSER_SUCCESS \<longleftrightarrow>
    v \<in> set (splitc CHR ''|'' values)"
  by (simp add: match_value_splitc [OF assms])

theorem match_value_is_membership_witness:
  "oph_tp_match_value_in_xml_value_list ''no'' ''yes|no'' = OPH_TP_TASK_PARSER_SUCCESS"
  by (subst match_value_is_membership) simp_all

text \<open>
  Remark: \<open>oph_tp_parse_multiple_value_param\<close> never writes outside the buffers it sized in its first pass;
  it refuses a text with \<open>=\<close> or \<open>;\<close>, and otherwise returns the values between the separators and
  their number (none for the empty text).\<close>

theorem parse_multiple_value_param_split:
  "oph_tp_parse_multiple_value_param values =
    Some (if values = [] then (OPH_TP_TASK_PARSER_SUCCESS, [], 0)
          else if CHR ''='' \<in> set values \<or> CHR '';'' \<in> set values then (OPH_TP_TASK_PARSER_ERROR, [], 0)
          else (OPH_TP_TASK_PARSER_SUCCESS, splitc CHR ''|'' values, length (splitc CHR ''|'' values)))"
proof -
  obtain p ps where s: "splitc CHR ''|'' values = p # ps" by (cases "splitc CHR ''|'' values") auto
  obtain pn ms where c: "count_values values 1 0 0 = (pn, ms)" by fastforce
  have "pn = Suc (length ps) \<and> length p \<le> ms \<and> (\<forall>q\<in>set ps. length q \<le> ms)"
    using count_values_bound [OF c s] by simp
  then have "store_values pn ms values = Some (splitc CHR ''|'' values)" and "pn = length (splitc CHR ''|'' values)"
    using s by (simp_all add: store_values_splitc)
  then show ?thesis
    unfolding oph_tp_parse_multiple_value_param_def c by (auto simp: list_ex_iff)
qed

end
