(* ===== verification/Task_Params.thy ===== *)
theory Task_Params
  imports Complex_Main Hashtbl Task_String
begin

text \<open>
  The part of \<^verbatim>\<open>src/src/oph_task_parser_library.c\<close> that checks the arguments of a task against the XML description
  of its operator: the choice of the XML file in a folder, the check of one argument, the table of all
  arguments of a task, and the look-up of a single one with the role the operator requires.

  The folder, the XML reader (libxml, with the validation against the DTD) and the floating-point
  conversions are parameters: the record \<open>tp_env\<close>. A buffer of the code is its content (\<open>None\<close> while
  it is not initialised) with its capacity where the code does not size it after the text it stores.
\<close>

section \<open>Data\<close>

text \<open>
  A node of an XML document, as what the calls of libxml answer about it: its name, whether it is an element
  (\<open>xmlChildElementCount\<close>), its attributes (\<open>xmlGetProp\<close>), the content of its first child
  (\<open>xmlNodeGetContent (node->xmlChildrenNode)\<close>), and its children.
\<close>

datatype xml_node = XNode (xn_name: string) (xn_element: bool) (xmlGetProp: "string \<Rightarrow> string option")
  (xn_content: "string option") (xn_children: "xml_node list")

record tp_env =
  tp_folder :: "(string \<times> bool) list option" \<comment> \<open>the entries, with: is a link or a regular file\<close>
  tp_document :: "string \<Rightarrow> xml_node option" \<comment> \<open>the root of a parsed and validated document\<close>
  tp_strtod :: "string \<Rightarrow> real"
  tp_show_f :: "real \<Rightarrow> string"

definition OPH_TP_BUFLEN :: nat where [code_defs]: "OPH_TP_BUFLEN = OPH_MAX_STRING_SIZE"
definition OPH_TP_TASKLEN :: nat where [code_defs]: "OPH_TP_TASKLEN = OPH_MAX_STRING_SIZE"

section \<open>The XML file of an operator\<close>

fun strrchr :: "string \<Rightarrow> char \<Rightarrow> string option" where
  "strrchr [] c = None"
| "strrchr (x # s) c =
     (case strrchr s c of Some t \<Rightarrow> Some t | None \<Rightarrow> if x = c then Some (x # s) else None)"

fun strcasestr :: "string \<Rightarrow> string \<Rightarrow> bool" where
  "strcasestr [] n = (n = [])"
| "strcasestr (x # s) n = (strncasecmp_eq (x # s) n (length n) \<or> strcasestr s n)"

text \<open>
  What both passes of \<open>oph_tp_retrieve_function_xml_file\<close> do with an entry: \<open>Inr None\<close> skips it, \<open>Inr
  (Some fields)\<close> is a matching entry with the fields of its version (the parts between the last
  underscore and the last dot), \<open>None\<close> is \<open>strlen\<close> of a null pointer, when no dot follows the last
  underscore.
\<close>

definition entry_version :: "string \<Rightarrow> string \<times> bool \<Rightarrow> (tp_code + string list option) option" where
  [code_defs]: "entry_version xml_filename ent =
     (case ent of (d_name, is_file) \<Rightarrow>
        if \<not> is_file \<or> \<not> strcasestr d_name xml_filename then Some (Inr None)
        else (case (strrchr d_name CHR ''_'', strrchr d_name CHR ''.'') of
                (Some ptr1, Some ptr2) \<Rightarrow>
                  if \<not> strcasecmp_eq xml_filename (take (length d_name - length ptr1 + 1) d_name)
                  then Some (Inr None)
                  else if CHR ''.'' \<notin> set (tl ptr1) then None
                  else Some (Inr (Some (butlast (splitc CHR ''.'' (tl ptr1)))))
              | _ \<Rightarrow> Some (Inl OPH_TP_TASK_SYSTEM_ERROR)))"

definition xml_extension :: "string \<Rightarrow> bool" where
  [code_defs]: "xml_extension d_name =
     (case strrchr d_name CHR ''.'' of
        None \<Rightarrow> False
      | Some ptr2 \<Rightarrow> strncasecmp_eq (tl ptr2) ''xml'' (length ''xml'') \<and>
          strncasecmp_eq (tl ptr2) ''xml'' (length (tl ptr2)))"

text \<open>
  The first pass: the largest field (\<open>maxlen\<close>), the largest number of fields (\<open>maxversionlen\<close>) and the
  number of matching entries seen up to the first one with the extension of an XML file, where it stops.
\<close>

fun first_pass :: "string \<Rightarrow> (string \<times> bool) list \<Rightarrow> nat \<Rightarrow> nat \<Rightarrow> nat \<Rightarrow>
    (tp_code + nat \<times> nat \<times> nat) option" where
  "first_pass xml_filename [] maxlen maxversionlen cnt = Some (Inl OPH_TP_TASK_SYSTEM_ERROR)"
| "first_pass xml_filename (ent # dir) maxlen maxversionlen cnt =
     (case entry_version xml_filename ent of
        None \<Rightarrow> None
      | Some (Inl e) \<Rightarrow> Some (Inl e)
      | Some (Inr None) \<Rightarrow> first_pass xml_filename dir maxlen maxversionlen cnt
      | Some (Inr (Some vers)) \<Rightarrow>
          (let maxlen = fold (\<lambda>f m. if length f > m then length f else m) vers maxlen;
               maxversionlen = (if length vers > maxversionlen then length vers else maxversionlen);
               cnt = cnt + 1 in
           if \<not> xml_extension (fst ent) then first_pass xml_filename dir maxlen maxversionlen cnt
           else Some (Inr (maxlen, maxversionlen, cnt))))"

definition show_padded :: "nat \<Rightarrow> int \<Rightarrow> string" where
  [code_defs]: "show_padded w v =
     (let sign = (if v < 0 then ''-'' else ''''); digits = show_nat (nat (abs v)) in
      sign @ replicate (w - length sign - length digits) CHR ''0'' @ digits)"

definition version_key :: "nat \<Rightarrow> nat \<Rightarrow> string list \<Rightarrow> string" where
  [code_defs]: "version_key maxlen maxversionlen vers =
     concat (map (\<lambda>f. take maxlen (show_padded maxlen (c_int (strtol f)))) vers @
             replicate (maxversionlen - length vers) (take maxlen (show_padded maxlen 0)))"

text \<open>The second pass: the version keys and the names of the first \<open>cnt\<close> matching entries.\<close>

fun second_pass :: "string \<Rightarrow> (string \<times> bool) list \<Rightarrow> nat \<Rightarrow> nat \<Rightarrow> nat \<Rightarrow>
    (tp_code + (string \<times> string) list) option" where
  "second_pass xml_filename [] maxlen maxversionlen cnt = Some (Inr [])"
| "second_pass xml_filename (ent # dir) maxlen maxversionlen cnt =
     (case entry_version xml_filename ent of
        None \<Rightarrow> None
      | Some (Inl e) \<Rightarrow> Some (Inl e)
      | Some (Inr None) \<Rightarrow> second_pass xml_filename dir maxlen maxversionlen cnt
      | Some (Inr (Some vers)) \<Rightarrow>
          (let v = (version_key maxlen maxversionlen vers, fst ent) in
           if cnt = 1 then Some (Inr [v])
           else (case second_pass xml_filename dir maxlen maxversionlen (cnt - 1) of
                   Some (Inr vs) \<Rightarrow> Some (Inr (v # vs))
                 | r \<Rightarrow> r)))"

fun latest_version :: "string \<times> string \<Rightarrow> (string \<times> string) list \<Rightarrow> string \<times> string" where
  "latest_version best [] = best"
| "latest_version best (v # vs) = latest_version (if strcmp_gt (fst v) (fst best) then v else best) vs"

definition oph_tp_retrieve_function_xml_file ::
    "string \<Rightarrow> string option \<Rightarrow> (string \<times> bool) list option \<Rightarrow> (tp_code + string) option" where
  [code_defs]: "oph_tp_retrieve_function_xml_file function_name function_version folder =
     (case folder of
        None \<Rightarrow> Some (Inl OPH_TP_TASK_SYSTEM_ERROR)
      | Some dir \<Rightarrow>
         (case function_version of
            None \<Rightarrow>
              (let xml_filename = take (OPH_TP_BUFLEN - 1) (function_name @ ''_operator_'') in
               case first_pass xml_filename dir 0 0 0 of
                 None \<Rightarrow> None
               | Some (Inl e) \<Rightarrow> Some (Inl e)
               | Some (Inr (maxlen, maxversionlen, cnt)) \<Rightarrow>
                   (case second_pass xml_filename dir maxlen maxversionlen cnt of
                      None \<Rightarrow> None
                    | Some (Inl e) \<Rightarrow> Some (Inl e)
                    | Some (Inr []) \<Rightarrow> None
                    | Some (Inr (v # vs)) \<Rightarrow> Some (Inr (take (OPH_TP_BUFLEN - 1) (snd (latest_version v vs))))))
          | Some version \<Rightarrow>
              (let xml_filename =
                 take (OPH_TP_BUFLEN - 1) (function_name @ ''_operator_'' @ version @ ''.xml'') in
               case find (\<lambda>(d_name, is_file). is_file \<and> strcasecmp_eq xml_filename d_name) dir of
                 None \<Rightarrow> Some (Inl OPH_TP_TASK_SYSTEM_ERROR)
               | Some (d_name, _) \<Rightarrow> Some (Inr (take (OPH_TP_BUFLEN - 1) d_name)))))"

section \<open>One argument\<close>

text \<open>
  The checks on a value of type \<open>int\<close> and \<open>double\<close>. \<open>cap\<close> is the capacity of \<open>tmp_value\<close>, which is replaced
  by the only admissible value when the two limits agree; \<open>None\<close> is a write beyond it, or the conversion
  to \<open>int\<close> of a floating-point number out of its range.
\<close>

definition check_int :: "xml_node \<Rightarrow> nat \<Rightarrow> string \<Rightarrow> (tp_code + string) option" where
  [code_defs]: "check_int node cap tmp_value =
     (let numeric_value = c_int (strtol tmp_value) in
      case (xmlGetProp node ''minvalue'', xmlGetProp node ''maxvalue'') of
        (Some mn, Some mx) \<Rightarrow>
          (let min_value = c_int (strtol mn); max_value = c_int (strtol mx) in
           if min_value = max_value then
             (if length (show_int min_value) < cap then Some (Inr (show_int min_value)) else None)
           else if numeric_value < min_value then Some (Inl OPH_TP_TASK_PARSER_ERROR)
           else if numeric_value > max_value then Some (Inl OPH_TP_TASK_PARSER_ERROR)
           else Some (Inr tmp_value))
      | (Some mn, None) \<Rightarrow>
          if numeric_value < c_int (strtol mn) then Some (Inl OPH_TP_TASK_PARSER_ERROR)
          else Some (Inr tmp_value)
      | (None, Some mx) \<Rightarrow>
          if numeric_value > c_int (strtol mx) then Some (Inl OPH_TP_TASK_PARSER_ERROR)
          else Some (Inr tmp_value)
      | (None, None) \<Rightarrow> Some (Inr tmp_value))"

definition c_int_of_double :: "real \<Rightarrow> int option" where
  "c_int_of_double d =
     (let i = (if d < 0 then \<lceil>d\<rceil> else \<lfloor>d\<rfloor>) in
      if - 2147483648 \<le> i \<and> i \<le> 2147483647 then Some i else None)"

definition check_real :: "tp_env \<Rightarrow> xml_node \<Rightarrow> nat \<Rightarrow> string \<Rightarrow> (tp_code + string) option" where
  "check_real env node cap tmp_value =
     (case c_int_of_double (tp_strtod env tmp_value) of
        None \<Rightarrow> None
      | Some i \<Rightarrow>
          (let numeric_value = real_of_int i in
           case (xmlGetProp node ''minvalue'', xmlGetProp node ''maxvalue'') of
             (Some mn, Some mx) \<Rightarrow>
               (let min_value = tp_strtod env mn; max_value = tp_strtod env mx in
                if min_value = max_value then
                  (if length (tp_show_f env min_value) < cap then Some (Inr (tp_show_f env min_value))
                   else None)
                else if numeric_value < min_value then Some (Inl OPH_TP_TASK_PARSER_ERROR)
                else if numeric_value > max_value then Some (Inl OPH_TP_TASK_PARSER_ERROR)
                else Some (Inr tmp_value))
           | (Some mn, None) \<Rightarrow>
               if numeric_value < tp_strtod env mn then Some (Inl OPH_TP_TASK_PARSER_ERROR)
               else Some (Inr tmp_value)
           | (None, Some mx) \<Rightarrow>
               if numeric_value > tp_strtod env mx then Some (Inl OPH_TP_TASK_PARSER_ERROR)
               else Some (Inr tmp_value)
           | (None, None) \<Rightarrow> Some (Inr tmp_value)))"

definition oph_tp_validate_task_string_param ::
    "tp_env \<Rightarrow> string \<Rightarrow> xml_node \<Rightarrow> string \<Rightarrow> nat \<Rightarrow> string option \<Rightarrow> (tp_code \<times> string option) option" where
  [code_defs]: "oph_tp_validate_task_string_param env task_string xml_node param cap v =
     (let store = (\<lambda>s. if length s < cap then Some (OPH_TP_TASK_PARSER_SUCCESS, Some s) else None) in
      case oph_tp_find_param_in_task_string task_string param of
        None \<Rightarrow> None
      | Some (Inl _) \<Rightarrow>
          if xmlGetProp xml_node ''mandatory'' = Some ''no'' then
            (case xmlGetProp xml_node ''default'' of
               Some d \<Rightarrow> store d
             | None \<Rightarrow> Some (OPH_TP_TASK_PARSER_ERROR, v))
          else Some (OPH_TP_TASK_PARSER_ERROR, v)
      | Some (Inr tmp_value) \<Rightarrow>
          (case xmlGetProp xml_node ''type'' of
             None \<Rightarrow> Some (OPH_TP_TASK_PARSER_SUCCESS, v)
           | Some ty \<Rightarrow>
               (case (if ty = ''int'' then check_int xml_node (length task_string + 1) tmp_value
                      else if ty = ''double'' then check_real env xml_node (length task_string + 1) tmp_value
                      else Some (Inr tmp_value)) of
                  None \<Rightarrow> None
                | Some (Inl e) \<Rightarrow> Some (e, v)
                | Some (Inr tmp_value) \<Rightarrow>
                    (case xmlGetProp xml_node ''values'' of
                       None \<Rightarrow> store tmp_value
                     | Some vs \<Rightarrow>
                         if oph_tp_match_value_in_xml_value_list tmp_value vs \<noteq> OPH_TP_TASK_PARSER_SUCCESS
                         then Some (OPH_TP_TASK_PARSER_ERROR, v)
                         else store tmp_value))))"

section \<open>The arguments of a task\<close>

text \<open>
  The loop over the children of the node \<open>args\<close>. The value is checked in a buffer of \<open>len + 10\<close> bytes;
  \<open>None\<close> includes the insertion of a buffer that was never written.
\<close>

fun params_loop :: "tp_env \<Rightarrow> string \<Rightarrow> xml_node list \<Rightarrow> string hashtbl \<Rightarrow> (tp_code \<times> string hashtbl) option" where
  "params_loop env task_string [] tbl = Some (OPH_TP_TASK_PARSER_SUCCESS, tbl)"
| "params_loop env task_string (subnode # nodes) tbl =
     (if xn_name subnode \<noteq> ''argument'' then params_loop env task_string nodes tbl
      else (case xn_content subnode of
              None \<Rightarrow> params_loop env task_string nodes tbl
            | Some content \<Rightarrow>
               (case oph_tp_validate_task_string_param env task_string subnode content
                       (length task_string + 10) None of
                  None \<Rightarrow> None
                | Some (rc, v) \<Rightarrow>
                    if rc \<noteq> OPH_TP_TASK_PARSER_SUCCESS then Some (OPH_TP_TASK_PARSER_ERROR, tbl)
                    else (case v of
                            None \<Rightarrow> None
                          | Some value1 \<Rightarrow>
                             (let tbl = snd (hashtbl_insert tbl content value1) in
                              if xmlGetProp subnode ''allownot'' \<noteq> Some ''yes''
                              then params_loop env task_string nodes tbl
                              else (let key1 = take (OPH_TP_TASKLEN - 1) (content @ ''!'') in
                                    case oph_tp_validate_task_string_param env task_string subnode key1
                                           (length task_string + 10) (Some value1) of
                                      Some (OPH_TP_TASK_PARSER_SUCCESS, Some value2) \<Rightarrow>
                                        params_loop env task_string nodes (snd (hashtbl_insert tbl key1 value2))
                                    | Some (OPH_TP_TASK_PARSER_SUCCESS, None) \<Rightarrow> None
                                    | Some _ \<Rightarrow> Some (OPH_TP_TASK_PARSER_ERROR, tbl)
                                    | None \<Rightarrow> None))))))"

definition find_node :: "string \<Rightarrow> xml_node list \<Rightarrow> xml_node option" where
  [code_defs]: "find_node name nodes = find (\<lambda>n. xn_name n = name) nodes"

text \<open>The name of the operator in capitals and the root of its document, as both clients compute them.\<close>

definition operator_document :: "tp_env \<Rightarrow> string \<Rightarrow> (tp_code + xml_node) option" where
  [code_defs]: "operator_document env operator =
     (if length operator \<ge> OPH_TP_TASKLEN then None
      else (case oph_tp_retrieve_function_xml_file (map toupper operator) None (tp_folder env) of
              None \<Rightarrow> None
            | Some (Inl _) \<Rightarrow> Some (Inl OPH_TP_TASK_SYSTEM_ERROR)
            | Some (Inr filename) \<Rightarrow>
                (case tp_document env filename of
                   None \<Rightarrow> Some (Inl OPH_TP_TASK_SYSTEM_ERROR)
                 | Some doc \<Rightarrow> Some (Inr doc))))"

definition oph_tp_task_params_parser ::
    "tp_env \<Rightarrow> string \<Rightarrow> string option \<Rightarrow> string hashtbl option \<Rightarrow>
     (tp_code \<times> string hashtbl option) option" where
  [code_defs]: "oph_tp_task_params_parser env operator task_string tbl =
     (case task_string of
        None \<Rightarrow> Some (OPH_TP_TASK_PARSER_SUCCESS, tbl)
      | Some task_string \<Rightarrow>
          if task_string = [] then Some (OPH_TP_TASK_PARSER_SUCCESS, tbl)
          else if oph_tp_validate_task_string task_string \<noteq> OPH_TP_TASK_PARSER_SUCCESS
          then Some (OPH_TP_TASK_PARSER_ERROR, tbl)
          else (case operator_document env operator of
                  None \<Rightarrow> None
                | Some (Inl e) \<Rightarrow> Some (e, tbl)
                | Some (Inr doc) \<Rightarrow>
                    (case find_node ''args'' (xn_children doc) of
                       None \<Rightarrow> Some (OPH_TP_TASK_PARSER_SUCCESS, tbl)
                     | Some node \<Rightarrow>
                         (let number_arguments = length (filter xn_element (xn_children node)) in
                          map_option (map_prod id Some)
                            (params_loop env task_string (xn_children node)
                               (hashtbl_create (of_nat (number_arguments + 1)) None))))))"

definition param_of_key :: "string \<Rightarrow> xml_node list \<Rightarrow> (xml_node \<times> string) option" where
  [code_defs]: "param_of_key key nodes =
     map_option (\<lambda>n. (n, the (xn_content n)))
      (find (\<lambda>n. xn_name n = ''argument'' \<and>
               (case xn_content n of None \<Rightarrow> False | Some c \<Rightarrow> strncmp_eq c key OPH_TP_TASKLEN)) nodes)"

text \<open>
  \<open>oph_tp_task_param_checker_and_role\<close>: the return code, the buffer \<open>value\<close> and the buffer \<open>role\<close>, whose
  outer option is the null pointer that \<open>oph_tp_task_param_checker\<close> passes.
\<close>

definition oph_tp_task_param_checker_and_role ::
    "tp_env \<Rightarrow> string \<Rightarrow> string \<Rightarrow> string \<Rightarrow> string option \<Rightarrow> string option option \<Rightarrow>
     (tp_code \<times> string option \<times> string option option) option" where
  [code_defs]: "oph_tp_task_param_checker_and_role env operator task_string key v role =
     (if oph_tp_validate_task_string task_string \<noteq> OPH_TP_TASK_PARSER_SUCCESS
      then Some (OPH_TP_TASK_PARSER_ERROR, v, role)
      else
       (case operator_document env operator of
          None \<Rightarrow> None
        | Some (Inl e) \<Rightarrow> Some (e, v, role)
        | Some (Inr doc) \<Rightarrow>
            (let role' =
               (case role of
                  None \<Rightarrow> None
                | Some r \<Rightarrow>
                    (case find_node ''info'' (xn_children doc) of
                       None \<Rightarrow> role
                     | Some info \<Rightarrow>
                         (case find_node ''permission'' (xn_children info) of
                            None \<Rightarrow> role
                          | Some p \<Rightarrow> (case xn_content p of None \<Rightarrow> role | Some c \<Rightarrow> Some (Some c)))))
             in case (case find_node ''args'' (xn_children doc) of
                        None \<Rightarrow> None
                      | Some node \<Rightarrow> param_of_key key (xn_children node)) of
                  None \<Rightarrow> Some (OPH_TP_TASK_PARSER_SUCCESS, v, role')
                | Some (subnode, content) \<Rightarrow>
                    (case oph_tp_validate_task_string_param env task_string subnode content
                            (length task_string + 1) (Some task_string) of
                       None \<Rightarrow> None
                     | Some (rc, value1) \<Rightarrow>
                         if rc \<noteq> OPH_TP_TASK_PARSER_SUCCESS then Some (OPH_TP_TASK_PARSER_ERROR, v, role)
                         else Some (OPH_TP_TASK_PARSER_SUCCESS, value1, role')))))"

definition oph_tp_task_param_checker ::
    "tp_env \<Rightarrow> string \<Rightarrow> string \<Rightarrow> string \<Rightarrow> string option \<Rightarrow> (tp_code \<times> string option) option" where
  [code_defs]: "oph_tp_task_param_checker env operator task_string key v =
     map_option (\<lambda>(rc, v, role). (rc, v)) (oph_tp_task_param_checker_and_role env operator task_string key v None)"

section \<open>Lemmas\<close>

lemma entry_version_match:
  assumes "entry_version x ent = Some (Inr (Some vs))"
  shows "snd ent \<and> strcasestr (fst ent) x \<and>
    (\<exists>ptr1. strrchr (fst ent) CHR ''_'' = Some ptr1 \<and>
      strcasecmp_eq x (take (length (fst ent) - length ptr1 + 1) (fst ent)))"
  using assms by (auto simp: entry_version_def split: prod.splits if_splits option.splits)

lemma second_pass_entries:
  assumes "second_pass x dir ml mv cnt = Some (Inr vs)" and "v \<in> set vs"
  shows "\<exists>ent\<in>set dir. snd v = fst ent \<and> (\<exists>fs. entry_version x ent = Some (Inr (Some fs)))"
  using assms
proof (induction dir arbitrary: cnt vs)
  case (Cons ent dir)
  show ?case
  proof (cases "\<exists>fs. entry_version x ent = Some (Inr (Some fs))")
    case True
    with Cons.prems have "v = (fst v, fst ent) \<or>
        (\<exists>vs'. second_pass x dir ml mv (cnt - 1) = Some (Inr vs') \<and> v \<in> set vs')"
      by (auto simp: Let_def split: if_splits option.splits sum.splits)
    with Cons.IH True show ?thesis by (metis list.set_intros(1) list.set_intros(2) snd_conv)
  next
    case False
    with Cons.prems have "second_pass x dir ml mv cnt = Some (Inr vs)"
      by (auto split: option.splits sum.splits)
    with Cons.IH Cons.prems(2) show ?thesis by (metis list.set_intros(2))
  qed
qed simp

lemma latest_version_in: "latest_version v vs \<in> set (v # vs)"
  by (induction vs arbitrary: v) (auto split: if_splits)

lemma check_int_range:
  assumes "check_int node cap w = Some (Inr v)"
  shows "(\<forall>a. xmlGetProp node ''minvalue'' = Some a \<longrightarrow> c_int (strtol a) \<le> c_int (strtol v)) \<and>
    (\<forall>b. xmlGetProp node ''maxvalue'' = Some b \<longrightarrow> c_int (strtol v) \<le> c_int (strtol b))"
proof -
  have "c_int (strtol (show_int (c_int i))) = c_int i" for i
    using c_int_range [of i] strtol_show_int [of "c_int i"]
    by (simp add: LONG_MIN_def LONG_MAX_def c_int_id)
  with assms show ?thesis
    by (auto simp: check_int_def Let_def split: option.splits if_splits)
qed

lemma check_error:
  "check_int node cap w = Some (Inl e) \<Longrightarrow> e = OPH_TP_TASK_PARSER_ERROR"
  "check_real env node cap w = Some (Inl e) \<Longrightarrow> e = OPH_TP_TASK_PARSER_ERROR"
  by (auto simp: check_int_def check_real_def Let_def split: option.splits if_splits)

text \<open>The keys the loop binds for a node, in order.\<close>

definition node_keys :: "xml_node \<Rightarrow> string list" where
  [code_defs]: "node_keys n =
     (if xn_name n \<noteq> ''argument'' then []
      else (case xn_content n of
              None \<Rightarrow> []
            | Some c \<Rightarrow> c # (if xmlGetProp n ''allownot'' = Some ''yes''
                           then [take (OPH_TP_TASKLEN - 1) (c @ ''!'')] else [])))"

lemma hashtbl_insert_facts:
  assumes "hashtbl_ok t"
  shows "hashtbl_ok (snd (hashtbl_insert t k v))"
    and "hashtbl_get t k' = Some w \<Longrightarrow> hashtbl_get (snd (hashtbl_insert t k v)) k' = Some w"
    and "k' \<noteq> k \<Longrightarrow> hashtbl_get (snd (hashtbl_insert t k v)) k' = hashtbl_get t k'"
    and "hashtbl_get t k = None \<Longrightarrow> hashtbl_get (snd (hashtbl_insert t k v)) k = Some v"
  using assms by (simp_all add: hashtbl_insert_def ht.ins_inv ht.ins_keeps ht.ins_get_other ht.ins_default)

text \<open>One turn of the loop that does not end it: the tables it goes through.\<close>

lemma params_loop_step:
  assumes "params_loop env ts (n # ns) t = Some (OPH_TP_TASK_PARSER_SUCCESS, t')" and "hashtbl_ok t"
  obtains u where "params_loop env ts ns u = Some (OPH_TP_TASK_PARSER_SUCCESS, t')" and "hashtbl_ok u"
    and "\<forall>k. k \<notin> set (node_keys n) \<longrightarrow> hashtbl_get u k = hashtbl_get t k"
    and "\<forall>k v. hashtbl_get t k = Some v \<longrightarrow> hashtbl_get u k = Some v"
    and "\<forall>c. xn_name n = ''argument'' \<longrightarrow> xn_content n = Some c \<longrightarrow> hashtbl_get t c = None \<longrightarrow>
      (\<exists>v. oph_tp_validate_task_string_param env ts n c (length ts + 10) None =
              Some (OPH_TP_TASK_PARSER_SUCCESS, Some v) \<and> hashtbl_get u c = Some v)"
proof (cases "xn_name n = ''argument'' \<and> xn_content n \<noteq> None")
  case False
  then have "params_loop env ts ns t = Some (OPH_TP_TASK_PARSER_SUCCESS, t')"
    using assms(1) by (auto split: if_splits)
  then show ?thesis using False assms(2) by (intro that [of t]) auto
next
  case True
  then obtain c where arg: "xn_name n = ''argument''" and c: "xn_content n = Some c" by blast
  from assms(1) arg c obtain v where
    v: "oph_tp_validate_task_string_param env ts n c (length ts + 10) None =
      Some (OPH_TP_TASK_PARSER_SUCCESS, Some v)"
    by (auto split: option.splits if_splits)
  note ins = hashtbl_insert_facts
  show ?thesis
  proof (cases "xmlGetProp n ''allownot'' = Some ''yes''")
    case False
    then show ?thesis
      using assms arg c v
      by (intro that [of "snd (hashtbl_insert t c v)"]) (auto simp: ins node_keys_def)
  next
    case True
    let ?k = "take (OPH_TP_TASKLEN - 1) (c @ ''!'')"
    from assms(1) arg c v True obtain w where
      "params_loop env ts ns (snd (hashtbl_insert (snd (hashtbl_insert t c v)) ?k w)) =
        Some (OPH_TP_TASK_PARSER_SUCCESS, t')"
      by (auto simp: Let_def split: option.splits tp_code.splits)
    then show ?thesis
      using assms(2) arg c v True
      by (intro that [of "snd (hashtbl_insert (snd (hashtbl_insert t c v)) ?k w)"])
        (auto simp: ins node_keys_def)
  qed
qed

lemma params_loop_keeps:
  assumes "params_loop env ts ns t = Some (OPH_TP_TASK_PARSER_SUCCESS, t')" and "hashtbl_ok t"
  shows "hashtbl_ok t' \<and> (\<forall>k v. hashtbl_get t k = Some v \<longrightarrow> hashtbl_get t' k = Some v) \<and>
    (\<forall>k. k \<notin> (\<Union>n\<in>set ns. set (node_keys n)) \<longrightarrow> hashtbl_get t' k = hashtbl_get t k)"
  using assms
proof (induction ns arbitrary: t)
  case (Cons m ns)
  obtain u where
    u: "params_loop env ts ns u = Some (OPH_TP_TASK_PARSER_SUCCESS, t')" "hashtbl_ok u"
    and other: "\<forall>k. k \<notin> set (node_keys m) \<longrightarrow> hashtbl_get u k = hashtbl_get t k"
    and kept: "\<forall>k v. hashtbl_get t k = Some v \<longrightarrow> hashtbl_get u k = Some v"
    and here: "\<forall>c. xn_name m = ''argument'' \<longrightarrow> xn_content m = Some c \<longrightarrow> hashtbl_get t c = None \<longrightarrow>
      (\<exists>v. oph_tp_validate_task_string_param env ts m c (length ts + 10) None =
              Some (OPH_TP_TASK_PARSER_SUCCESS, Some v) \<and> hashtbl_get u c = Some v)"
    by (rule params_loop_step [OF Cons.prems(1,2)])
  from Cons.IH [OF u] show ?case using other kept by auto
qed simp

lemma params_loop_binds:
  assumes "params_loop env ts ns t = Some (OPH_TP_TASK_PARSER_SUCCESS, t')" and "hashtbl_ok t"
    and "distinct (concat (map node_keys ns))" and "\<forall>k\<in>set (concat (map node_keys ns)). hashtbl_get t k = None"
    and "n \<in> set ns" and "xn_name n = ''argument''" and "xn_content n = Some c"
  shows "\<exists>v. oph_tp_validate_task_string_param env ts n c (length ts + 10) None =
      Some (OPH_TP_TASK_PARSER_SUCCESS, Some v) \<and> hashtbl_get t' c = Some v"
  using assms
proof (induction ns arbitrary: t)
  case (Cons m ns)
  obtain u where
    u: "params_loop env ts ns u = Some (OPH_TP_TASK_PARSER_SUCCESS, t')" "hashtbl_ok u"
    and other: "\<forall>k. k \<notin> set (node_keys m) \<longrightarrow> hashtbl_get u k = hashtbl_get t k"
    and kept: "\<forall>k v. hashtbl_get t k = Some v \<longrightarrow> hashtbl_get u k = Some v"
    and here: "\<forall>c. xn_name m = ''argument'' \<longrightarrow> xn_content m = Some c \<longrightarrow> hashtbl_get t c = None \<longrightarrow>
      (\<exists>v. oph_tp_validate_task_string_param env ts m c (length ts + 10) None =
              Some (OPH_TP_TASK_PARSER_SUCCESS, Some v) \<and> hashtbl_get u c = Some v)"
    by (rule params_loop_step [OF Cons.prems(1,2)])
  show ?case
  proof (cases "n = m")
    case True
    then have "hashtbl_get t c = None" using Cons.prems by (auto simp: node_keys_def)
    with here True Cons.prems(6,7) params_loop_keeps [OF u] show ?thesis by blast
  next
    case False
    have "hashtbl_get u k = None" if "k \<in> set (concat (map node_keys ns))" for k
    proof -
      have "k \<notin> set (node_keys m)" using that Cons.prems(3) by auto
      with other that Cons.prems(4) show ?thesis by simp
    qed
    moreover have "distinct (concat (map node_keys ns))" and "n \<in> set ns" using Cons.prems(3,5) False by auto
    ultimately show ?thesis using Cons.IH [OF u] Cons.prems(6,7) by blast
  qed
qed simp

section \<open>Properties\<close>

text \<open>
  Remark: the file that \<open>oph_tp_retrieve_function_xml_file\<close> returns without a requested version is an entry
  of the folder, a regular file or a link, whose name up to the last underscore is the name of the
  operator followed by \<open>_operator_\<close>, up to case.\<close>

theorem retrieve_xml_file_matches:
  assumes "oph_tp_retrieve_function_xml_file name None (Some dir) = Some (Inr filename)"
    and "\<forall>ent\<in>set dir. length (fst ent) < OPH_TP_BUFLEN"
  shows "(filename, True) \<in> set dir \<and>
    (\<exists>ptr1. strrchr filename CHR ''_'' = Some ptr1 \<and>
       strcasecmp_eq (take (OPH_TP_BUFLEN - 1) (name @ ''_operator_''))
         (take (length filename - length ptr1 + 1) filename))"
proof -
  let ?x = "take (OPH_TP_BUFLEN - 1) (name @ ''_operator_'')"
  from assms(1) obtain ml mv cnt v vs where
    "second_pass ?x dir ml mv cnt = Some (Inr (v # vs))"
    and f: "filename = take (OPH_TP_BUFLEN - 1) (snd (latest_version v vs))"
    by (auto simp: oph_tp_retrieve_function_xml_file_def Let_def
        split: option.splits sum.splits list.splits prod.splits)
  from second_pass_entries [OF this(1) latest_version_in] obtain ent fs where
    ent: "ent \<in> set dir" "snd (latest_version v vs) = fst ent" "entry_version ?x ent = Some (Inr (Some fs))"
    by blast
  then have "filename = fst ent" using f assms(2) by auto
  then show ?thesis using entry_version_match [OF ent(3)] ent(1) by (metis prod.collapse)
qed

theorem retrieve_xml_file_matches_witness:
  "oph_tp_retrieve_function_xml_file ''OPH_A'' None (Some [(''.'', False), (''OPH_A_operator_1.0.xml'', True)]) =
     Some (Inr ''OPH_A_operator_1.0.xml'') \<and>
   (''OPH_A_operator_1.0.xml'', True) \<in> set [(''.'', False), (''OPH_A_operator_1.0.xml'', True)]"
proof -
  have r: "oph_tp_retrieve_function_xml_file ''OPH_A'' None
      (Some [(''.'', False), (''OPH_A_operator_1.0.xml'', True)]) = Some (Inr ''OPH_A_operator_1.0.xml'')"
    by code_simp
  have "\<forall>ent\<in>set [(''.'', False), (''OPH_A_operator_1.0.xml'', True)]. length (fst ent) < OPH_TP_BUFLEN"
    by (simp add: code_defs)
  from retrieve_xml_file_matches [OF r this] r show ?thesis by blast
qed

text \<open>
  Remark: the search for the latest version stops at the first XML file of the operator in the folder, so a
  later entry with a higher version is not taken.\<close>

theorem retrieve_xml_file_not_latest:
  "oph_tp_retrieve_function_xml_file ''OPH_A'' None
     (Some [(''OPH_A_operator_1.0.xml'', True), (''OPH_A_operator_2.0.xml'', True)]) =
   Some (Inr ''OPH_A_operator_1.0.xml'')"
  by code_simp

text \<open>
  Remark: a value that \<open>oph_tp_validate_task_string_param\<close> accepts for a parameter present in the task
  string lies between the limits of its description when the type is \<open>int\<close>, and is one of the listed
  values when there is a list.\<close>

theorem validate_param_sound:
  assumes "oph_tp_validate_task_string_param env task_string node param cap v0 =
      Some (OPH_TP_TASK_PARSER_SUCCESS, Some v)"
    and "oph_tp_find_param_in_task_string task_string param = Some (Inr w)"
    and "xmlGetProp node ''type'' = Some ty"
  shows "(ty = ''int'' \<longrightarrow> (\<forall>a. xmlGetProp node ''minvalue'' = Some a \<longrightarrow> c_int (strtol a) \<le> c_int (strtol v))) \<and>
    (ty = ''int'' \<longrightarrow> (\<forall>b. xmlGetProp node ''maxvalue'' = Some b \<longrightarrow> c_int (strtol v) \<le> c_int (strtol b))) \<and>
    (\<forall>vs. xmlGetProp node ''values'' = Some vs \<longrightarrow> CHR ''|'' \<notin> set v \<longrightarrow> v \<in> set (splitc CHR ''|'' vs))"
proof -
  from assms obtain t where
    t: "(if ty = ''int'' then check_int node (length task_string + 1) w
         else if ty = ''double'' then check_real env node (length task_string + 1) w
         else Some (Inr w)) = Some (Inr t)" (is "?check = _")
    unfolding oph_tp_validate_task_string_param_def
    by (cases ?check) (auto simp: Let_def split: sum.splits if_splits dest: check_error)
  then have v: "t = v" and m: "\<forall>vs. xmlGetProp node ''values'' = Some vs \<longrightarrow>
      oph_tp_match_value_in_xml_value_list v vs = OPH_TP_TASK_PARSER_SUCCESS"
    using assms by (auto simp: oph_tp_validate_task_string_param_def Let_def split: option.splits if_splits)
  show ?thesis
    using t m check_int_range [of node "length task_string + 1" w v]
    by (auto simp: v match_value_splitc split: if_splits)
qed

definition demo_arg :: xml_node where
  [code_defs]: "demo_arg = XNode ''argument'' True
     (map_of [(''type'', ''int''), (''mandatory'', ''no''), (''default'', ''1''), (''minvalue'', ''1''),
      (''maxvalue'', ''8'')]) (Some ''ncores'') []"

theorem validate_param_sound_witness:
  "c_int (strtol ''1'') \<le> c_int (strtol ''4'') \<and> c_int (strtol ''4'') \<le> c_int (strtol ''8'')"
proof -
  have a: "oph_tp_validate_task_string_param env ''ncores=4;'' demo_arg ''ncores'' 20 None =
      Some (OPH_TP_TASK_PARSER_SUCCESS, Some ''4'')" for env
    by code_simp
  have b: "oph_tp_find_param_in_task_string ''ncores=4;'' ''ncores'' = Some (Inr ''4'')"
    and c: "xmlGetProp demo_arg ''type'' = Some ''int''"
    and d: "xmlGetProp demo_arg ''minvalue'' = Some ''1''"
    and e: "xmlGetProp demo_arg ''maxvalue'' = Some ''8''" by code_simp+
  show ?thesis using validate_param_sound [OF a b c] d e by blast
qed

text \<open>
  C23: after \<open>oph_tp_task_params_parser\<close> succeeds on a description whose arguments have distinct names,
  the table satisfies its invariant and binds each described argument to the value that the check of
  that argument returned, and it binds no other key.\<close>

theorem task_params_parser_binds:
  assumes "oph_tp_task_params_parser env operator (Some ts) tbl = Some (OPH_TP_TASK_PARSER_SUCCESS, Some t)"
    and "ts \<noteq> []" and "operator_document env operator = Some (Inr doc)"
    and "find_node ''args'' (xn_children doc) = Some node"
    and "distinct (concat (map node_keys (xn_children node)))"
    and "length (xn_children node) < 1000000"
  shows "hashtbl_ok t \<and>
    (\<forall>n\<in>set (xn_children node). \<forall>c. xn_name n = ''argument'' \<and> xn_content n = Some c \<longrightarrow>
       (\<exists>v. oph_tp_validate_task_string_param env ts n c (length ts + 10) None =
              Some (OPH_TP_TASK_PARSER_SUCCESS, Some v) \<and> hashtbl_get t c = Some v)) \<and>
    (\<forall>k. k \<notin> (\<Union>n\<in>set (xn_children node). set (node_keys n)) \<longrightarrow> hashtbl_get t k = None)"
proof -
  let ?m = "Suc (length (filter xn_element (xn_children node)))"
  define t0 :: "string hashtbl" where "t0 = hashtbl_create (of_nat ?m) None"
  have l: "params_loop env ts (xn_children node) t0 = Some (OPH_TP_TASK_PARSER_SUCCESS, t)"
    using assms(1-4) by (auto simp: oph_tp_task_params_parser_def Let_def t0_def split: if_splits)
  have "?m \<le> 1000000"
    using assms(6) length_filter_le [of xn_element "xn_children node"] by linarith
  then have "?m < 2 ^ 64" by (rule le_less_trans) simp
  then have nz: "(of_nat ?m :: 64 word) \<noteq> 0"
    unfolding word_of_nat_eq_0_iff by (auto dest: dvd_imp_le)
  then have ok: "hashtbl_ok t0" and e: "hashtbl_get t0 k = None" for k
    unfolding t0_def by (auto intro: hashtbl_ok_create hashtbl_get_create simp del: of_nat_Suc)
  show ?thesis
    using params_loop_keeps [OF l ok] params_loop_binds [OF l ok assms(5)] e by simp
qed

definition demo_env :: tp_env where
  [code_defs]: "demo_env = \<lparr>tp_folder = Some [(''OPH_A_operator_1.0.xml'', True)],
     tp_document = (\<lambda>_. Some (XNode ''operator'' True Map.empty None [XNode ''args'' True Map.empty None [demo_arg]])),
     tp_strtod = (\<lambda>_. 0), tp_show_f = (\<lambda>_. ''0.000000'')\<rparr>"

theorem task_params_parser_binds_witness:
  "\<exists>t. oph_tp_task_params_parser demo_env ''oph_a'' (Some ''ncores=4;'') None =
         Some (OPH_TP_TASK_PARSER_SUCCESS, Some t) \<and> hashtbl_get t ''ncores'' = Some ''4''"
proof -
  let ?args = "XNode ''args'' True Map.empty None [demo_arg]"
  let ?doc = "XNode ''operator'' True Map.empty None [?args]"
  have "oph_tp_retrieve_function_xml_file (map toupper ''oph_a'') None (Some [(''OPH_A_operator_1.0.xml'', True)]) =
      Some (Inr ''OPH_A_operator_1.0.xml'')" by code_simp
  then have d: "operator_document demo_env ''oph_a'' = Some (Inr ?doc)"
    by (simp add: operator_document_def demo_env_def OPH_TP_TASKLEN_def OPH_MAX_STRING_SIZE_def)
  have f: "find_node ''args'' (xn_children ?doc) = Some ?args"
    by (simp add: find_node_def)
  have k: "distinct (concat (map node_keys (xn_children ?args)))"
    and v: "oph_tp_validate_task_string_param demo_env ''ncores=4;'' demo_arg ''ncores''
      (length ''ncores=4;'' + 10) None = Some (OPH_TP_TASK_PARSER_SUCCESS, Some ''4'')"
    and n: "xn_name demo_arg = ''argument''" "xn_content demo_arg = Some ''ncores''"
    by code_simp+
  have a: "xmlGetProp demo_arg ''allownot'' = None"
    and t: "oph_tp_validate_task_string ''ncores=4;'' = OPH_TP_TASK_PARSER_SUCCESS" by code_simp+
  obtain t where t: "oph_tp_task_params_parser demo_env ''oph_a'' (Some ''ncores=4;'') None =
      Some (OPH_TP_TASK_PARSER_SUCCESS, Some t)"
    using d f t v n a by (simp add: oph_tp_task_params_parser_def)
  have "length (xn_children ?args) < 1000000" by simp
  from task_params_parser_binds [OF t _ d f k this] v n t show ?thesis by simp
qed

text \<open>
  Remark: a value of type \<open>double\<close> is truncated to an integer before it is compared with the limits, so a
  value above the maximum is accepted.\<close>

theorem validate_param_double_truncated:
  assumes "tp_strtod env ''1.9'' = 19 / 10" and "tp_strtod env ''1.5'' = 3 / 2"
  shows "oph_tp_validate_task_string_param env ''x=1.9;''
      (XNode ''argument'' True (map_of [(''type'', ''double''), (''maxvalue'', ''1.5'')]) (Some ''x'') []) ''x'' 16 None =
    Some (OPH_TP_TASK_PARSER_SUCCESS, Some ''1.9'')"
proof -
  have "oph_tp_find_param_in_task_string ''x=1.9;'' ''x'' = Some (Inr ''1.9'')" by code_simp
  moreover have "c_int_of_double (19 / 10) = Some 1" by (simp add: c_int_of_double_def)
  ultimately show ?thesis
    by (simp add: oph_tp_validate_task_string_param_def check_real_def assms)
qed

theorem validate_param_double_truncated_witness:
  "oph_tp_validate_task_string_param
      (demo_env\<lparr>tp_strtod := (\<lambda>s. if s = ''1.9'' then 19 / 10 else 3 / 2)\<rparr>) ''x=1.9;''
      (XNode ''argument'' True (map_of [(''type'', ''double''), (''maxvalue'', ''1.5'')]) (Some ''x'') []) ''x'' 16 None =
    Some (OPH_TP_TASK_PARSER_SUCCESS, Some ''1.9'')"
  by (rule validate_param_double_truncated) simp_all

end
