(* ===== verification/Workflow_Structs.thy ===== *)
theory Workflow_Structs
  imports Hashtbl Trash
begin

text \<open>
  The data of a workflow (\<^verbatim>\<open>src/src/oph_workflow/oph_workflow_structs.h\<close>) and the operations of
  \<^verbatim>\<open>oph_workflow_structs.c\<close>: the stack of the loops, the output records, the copies of tasks and the growth of
  the task array. Parallel arrays with a common count are lists of records; a pointer that may be null is
  an option. The array \<open>tasks\<close> has one entry more than \<open>tasks_num\<close>, for the final task.
\<close>

section \<open>Data\<close>

datatype wf_code =
    OPH_WORKFLOW_EXIT_SUCCESS
  | OPH_WORKFLOW_EXIT_GENERIC_ERROR
  | OPH_WORKFLOW_EXIT_MEMORY_ERROR
  | OPH_WORKFLOW_EXIT_BAD_PARAM_ERROR
  | OPH_WORKFLOW_EXIT_AUTH_ERROR
  | OPH_WORKFLOW_EXIT_TASK_NAME_ERROR
  | OPH_WORKFLOW_EXIT_FLOW_CONTROL_ERROR
  | OPH_WORKFLOW_EXIT_UNSUPPORTED_ERROR

type_synonym oph_workflow_ordered_list = "(string option \<times> string option) list"

record oph_workflow_var =
  v_caller :: int
  v_svalue :: string
  v_ivalue :: int

record oph_workflow_arg =
  a_key :: string
  a_value :: "string option"
  a_list :: oph_workflow_ordered_list

record oph_workflow_light_task =
  l_idjob :: int
  l_markerid :: int
  l_status :: int
  l_ncores :: int
  l_nhosts :: int
  l_nthreads :: int
  l_arguments :: "(string \<times> string option) list"
  l_response :: "string option"
  l_is_marked_to_be_aborted :: bool

record oph_workflow_dep =
  d_argument :: "string option"
  d_order :: "string option"
  d_task_name :: "string option"
  d_task_index :: int
  d_type :: "string option"
  d_filter :: "string option"
  d_output_argument :: "string option"
  d_output_order :: "string option"

record oph_workflow_task =
  t_idjob :: int
  t_markerid :: int
  t_status :: int
  t_name :: "string option"
  t_operator :: "string option"
  t_type :: "string option"
  t_rtype :: "string option"
  t_role :: int
  t_ncores :: int
  t_nhosts :: int
  t_nthreads :: int
  t_arguments :: "oph_workflow_arg list"
  t_deps :: "oph_workflow_dep list"
  t_residual_deps_num :: int
  t_dependents_indexes :: "int list"
  t_outputs :: "(string option \<times> string option) list"
  t_outputs_file :: int
  t_light_tasks :: "oph_workflow_light_task list"
  t_residual_light_tasks_num :: int
  t_retry_num :: int
  t_residual_retry_num :: int
  t_residual_auto_retry_num :: int
  t_is_marked_for_auto_retry :: bool
  t_response :: "string option"
  t_exit_action :: int
  t_run :: bool
  t_save :: bool
  t_parent :: int
  t_child :: int
  t_nesting_level :: int
  t_parallel_mode :: int
  t_is_marked :: bool
  t_vars :: "oph_workflow_var hashtbl option"
  t_on_error :: "string option"
  t_on_exit :: "string option"
  t_is_skipped :: bool
  t_branch_num :: int
  t_is_known :: bool
  t_forward :: bool
  t_is_marked_to_be_aborted :: bool
  t_backoff_time :: int
  t_backoff_type :: char
  t_checkpoint :: "string option"
  t_query :: "string option"
  t_massive_expansion :: bool

record oph_workflow_light_task_out =
  lo_markerid :: int
  lo_status :: int
  lo_response :: "string option"

record oph_workflow_task_out =
  o_markerid :: int
  o_status :: int
  o_name :: "string option"
  o_light_task_outs :: "oph_workflow_light_task_out list"
  o_response :: "string option"

record oph_workflow_stack_task =
  s_arguments :: "oph_workflow_arg list"
  s_deps_task_index :: "int list"
  s_residual_deps_num :: int
  s_dependents_indexes :: "int list"

record oph_workflow_stack =
  k_caller :: int
  k_index :: int
  k_tasks :: "oph_workflow_stack_task list"
  k_name :: string
  k_svalues :: "string option list option"
  k_ivalues :: "int list option"
  k_values_num :: int

record oph_workflow =
  w_idjob :: int
  w_workflowid :: int
  w_markerid :: int
  w_status :: int
  w_is_closed :: bool
  w_username :: "string option"
  w_password :: "string option"
  w_os_username :: "string option"
  w_iduser :: int
  w_userrole :: int
  w_ip_address :: "string option"
  w_name :: "string option"
  w_author :: "string option"
  w_abstract :: "string option"
  w_url :: "string option"
  w_sessionid :: "string option"
  w_exec_mode :: "string option"
  w_ncores :: int
  w_nhosts :: int
  w_nthreads :: int
  w_command :: "string option"
  w_cwd :: "string option"
  w_cdd :: "string option"
  w_cube :: "string option"
  w_callback_url :: "string option"
  w_tasks :: "oph_workflow_task list"
  w_tasks_num :: nat
  w_residual_tasks_num :: int
  w_response :: "string option"
  w_run :: bool
  w_save :: bool
  w_output :: "oph_workflow_task_out list"
  w_parallel_mode :: int
  w_vars :: "oph_workflow_var hashtbl"
  w_stack :: "oph_workflow_stack list"
  w_on_error :: "string option"
  w_on_exit :: "string option"
  w_output_format :: int
  w_host_partition :: "string option"
  w_host_partition_orig :: "string option"
  w_waiting_tasks_num :: int
  w_project :: "string option"
  w_checkpoint :: "string option"
  w_direct_output :: bool
  w_exit_cubes :: "oph_trash option"
  w_exit_containers :: "oph_trash option"

text \<open>The task of all zero bytes that \<open>calloc\<close> gives.\<close>

definition zero_task :: oph_workflow_task where
  [code_defs]: "zero_task =
     \<lparr>t_idjob = 0, t_markerid = 0, t_status = 0, t_name = None, t_operator = None, t_type = None,
      t_rtype = None, t_role = 0, t_ncores = 0, t_nhosts = 0, t_nthreads = 0, t_arguments = [], t_deps = [],
      t_residual_deps_num = 0, t_dependents_indexes = [], t_outputs = [], t_outputs_file = 0,
      t_light_tasks = [], t_residual_light_tasks_num = 0, t_retry_num = 0, t_residual_retry_num = 0,
      t_residual_auto_retry_num = 0, t_is_marked_for_auto_retry = False, t_response = None,
      t_exit_action = 0, t_run = False, t_save = False, t_parent = 0, t_child = 0, t_nesting_level = 0,
      t_parallel_mode = 0, t_is_marked = False, t_vars = None, t_on_error = None, t_on_exit = None,
      t_is_skipped = False, t_branch_num = 0, t_is_known = False, t_forward = False,
      t_is_marked_to_be_aborted = False, t_backoff_time = 0, t_backoff_type = CHR 0x00, t_checkpoint = None, t_query = None, t_massive_expansion = False\<rparr>"

definition empty_workflow :: oph_workflow where
  [code_defs]: "empty_workflow =
     \<lparr>w_idjob = 0, w_workflowid = 0, w_markerid = 0, w_status = 0, w_is_closed = False, w_username = None,
      w_password = None, w_os_username = None, w_iduser = 0, w_userrole = 0, w_ip_address = None, w_name = None,
      w_author = None, w_abstract = None, w_url = None,
      w_sessionid = None, w_exec_mode = None, w_ncores = 0, w_nhosts = 0, w_nthreads = 0, w_command = None, w_cwd = None,
      w_cdd = None, w_cube = None, w_callback_url = None, w_tasks = [zero_task], w_tasks_num = 0,
      w_residual_tasks_num = 0, w_response = None, w_run = False, w_save = False, w_output = [],
      w_parallel_mode = 0, w_vars = hashtbl_create 3 None, w_stack = [], w_on_error = None,
      w_on_exit = None, w_output_format = 0, w_host_partition = None, w_host_partition_orig = None, w_waiting_tasks_num = 0, w_project = None, w_checkpoint = None,
      w_direct_output = False, w_exit_cubes = None, w_exit_containers = None\<rparr>"

section \<open>Operations\<close>

text \<open>
  \<open>oph_workflow_free\<close> of a workflow with waiting tasks only marks the request, by the sign of their
  number, and keeps the structure; \<open>None\<close> is the released structure.
\<close>

definition oph_workflow_free :: "oph_workflow \<Rightarrow> oph_workflow option" where
  [code_defs]: "oph_workflow_free w =
     (if w_waiting_tasks_num w \<noteq> 0
      then Some (if w_waiting_tasks_num w > 0
                 then w\<lparr>w_waiting_tasks_num := - w_waiting_tasks_num w\<rparr> else w)
      else None)"

text \<open>
  \<open>oph_workflow_save_task_output\<close> duplicates the response of the task and moves the responses of its
  light tasks. It also duplicates the name; every task that \<open>oph_workflow_load\<close> builds has one, so the null name is not a case of the model.
\<close>

definition oph_workflow_save_task_output ::
    "oph_workflow_task \<Rightarrow> wf_code \<times> oph_workflow_task_out \<times> oph_workflow_task" where
  [code_defs]: "oph_workflow_save_task_output task =
     (OPH_WORKFLOW_EXIT_SUCCESS,
      \<lparr>o_markerid = t_markerid task, o_status = t_status task, o_name = t_name task,
       o_light_task_outs = map (\<lambda>l. \<lparr>lo_markerid = l_markerid l, lo_status = l_status l,
         lo_response = l_response l\<rparr>) (t_light_tasks task),
       o_response = t_response task\<rparr>,
      task\<lparr>t_light_tasks := map (\<lambda>l. l\<lparr>l_response := None\<rparr>) (t_light_tasks task)\<rparr>)"

fun oph_workflow_copy_list :: "oph_workflow_ordered_list \<Rightarrow> oph_workflow_ordered_list" where
  "oph_workflow_copy_list [] = []"
| "oph_workflow_copy_list ((key, object) # list) = (key, object) # oph_workflow_copy_list list"

definition copy_arg :: "oph_workflow_arg \<Rightarrow> oph_workflow_arg" where
  [code_defs]: "copy_arg a = \<lparr>a_key = a_key a, a_value = a_value a, a_list = oph_workflow_copy_list (a_list a)\<rparr>"

definition stack_task :: "oph_workflow_task \<Rightarrow> oph_workflow_stack_task" where
  [code_defs]: "stack_task t =
     \<lparr>s_arguments = map copy_arg (t_arguments t), s_deps_task_index = map d_task_index (t_deps t),
      s_residual_deps_num = t_residual_deps_num t, s_dependents_indexes = t_dependents_indexes t\<rparr>"

definition oph_workflow_push ::
    "oph_workflow \<Rightarrow> int \<Rightarrow> string option \<Rightarrow> string option list option \<Rightarrow> int list option \<Rightarrow> int \<Rightarrow>
     wf_code \<times> oph_workflow" where
  [code_defs]: "oph_workflow_push w caller name svalues ivalues values_num =
     (case name of
        None \<Rightarrow> (OPH_WORKFLOW_EXIT_BAD_PARAM_ERROR, w)
      | Some name \<Rightarrow>
          if values_num \<le> 0 then (OPH_WORKFLOW_EXIT_BAD_PARAM_ERROR, w)
          else (OPH_WORKFLOW_EXIT_SUCCESS,
            w\<lparr>w_stack :=
                 \<lparr>k_caller = caller, k_index = 0, k_tasks = map stack_task (take (w_tasks_num w) (w_tasks w)),
                  k_name = name, k_svalues = svalues, k_ivalues = ivalues, k_values_num = values_num\<rparr>
                 # w_stack w\<rparr>))"

text \<open>
  \<open>oph_workflow_pop\<close> unlinks the entry after \<open>prev\<close>, the head when \<open>prev\<close> is null; \<open>prev\<close> is the
  position of an entry of the stack.
\<close>

definition oph_workflow_pop :: "oph_workflow \<Rightarrow> nat option \<Rightarrow> wf_code \<times> oph_workflow" where
  [code_defs]: "oph_workflow_pop w prev =
     (let i = (case prev of None \<Rightarrow> 0 | Some p \<Rightarrow> Suc p) in
      (OPH_WORKFLOW_EXIT_SUCCESS, w\<lparr>w_stack := take i (w_stack w) @ drop (Suc i) (w_stack w)\<rparr>))"

text \<open>
  \<open>oph_workflow_expand\<close>: \<open>None\<close> is the read of a task array shorter than its count, or the copy of a
  final task beyond it.
\<close>

definition oph_workflow_expand :: "oph_workflow \<Rightarrow> nat \<Rightarrow> (wf_code \<times> oph_workflow) option" where
  [code_defs]: "oph_workflow_expand w tasks_num =
     (if tasks_num \<le> w_tasks_num w then Some (OPH_WORKFLOW_EXIT_BAD_PARAM_ERROR, w)
      else if length (w_tasks w) \<noteq> Suc (w_tasks_num w) then None
      else Some (OPH_WORKFLOW_EXIT_SUCCESS,
        w\<lparr>w_tasks := take (w_tasks_num w) (w_tasks w) @
                     replicate (tasks_num - w_tasks_num w) zero_task @ [w_tasks w ! w_tasks_num w],
           w_tasks_num := tasks_num, w_residual_tasks_num := int tasks_num\<rparr>))"

text \<open>
  The name of a copy: \<open>name (suffix)\<close>, and \<open>name (a,suffix)\<close> when the source is already such a copy.
  \<open>None\<close> is the empty name, whose last character the code reads.
\<close>

definition copy_name :: "string \<Rightarrow> int \<Rightarrow> string option" where
  [code_defs]: "copy_name name suffix =
     (if suffix < 0 then Some name
      else if name = [] then None
      else if last name = CHR '')'' then Some (butlast name @ '','' @ show_int suffix @ '')'')
      else Some (name @ '' ('' @ show_int suffix @ '')''))"

definition copy_dep :: "oph_workflow_dep \<Rightarrow> oph_workflow_dep" where
  [code_defs]: "copy_dep d = d\<lparr>d_task_name := None\<rparr>"

definition oph_workflow_copy_task ::
    "oph_workflow_task \<Rightarrow> int \<Rightarrow> (wf_code \<times> oph_workflow_task) option" where
  [code_defs]: "oph_workflow_copy_task s suffix =
     (case (case t_name s of None \<Rightarrow> Some None | Some n \<Rightarrow> map_option Some (copy_name n suffix)) of
        None \<Rightarrow> None
      | Some name \<Rightarrow>
          (let d = s\<lparr>t_name := name, t_arguments := map copy_arg (t_arguments s),
                     t_deps := map copy_dep (t_deps s)\<rparr> in
           case t_vars s of
             None \<Rightarrow> Some (OPH_WORKFLOW_EXIT_SUCCESS, d)
           | Some vars \<Rightarrow>
               (case hashtbl_duplicate vars of
                  None \<Rightarrow> Some (OPH_WORKFLOW_EXIT_MEMORY_ERROR, d\<lparr>t_vars := None\<rparr>)
                | Some vars' \<Rightarrow> Some (OPH_WORKFLOW_EXIT_SUCCESS, d\<lparr>t_vars := Some vars'\<rparr>))))"

section \<open>Lemmas\<close>

lemma copy_list_id [simp]: "oph_workflow_copy_list l = l"
  by (induction l rule: oph_workflow_copy_list.induct) auto

lemma copy_arg_id [simp]: "copy_arg = id"
  by (rule ext) (simp add: copy_arg_def)

lemma show_int_inj:
  assumes "0 \<le> i" and "0 \<le> j" and "show_int i = show_int j"
  shows "i = j"
proof -
  have "show_nat (nat i) = show_nat (nat j)" using assms by (simp add: show_int_def)
  then have "nat i = nat j" by (metis read_digits_show_nat)
  with assms show ?thesis by simp
qed

lemma open_bracket_split:
  assumes "n @ CHR ''('' # d = m @ CHR ''('' # e" and "CHR ''('' \<notin> set d" and "CHR ''('' \<notin> set e"
  shows "n = m \<and> d = e"
  using assms by (auto simp: append_eq_append_conv2 append_eq_Cons_conv Cons_eq_append_conv)

lemma show_int_no_bracket: "0 \<le> i \<Longrightarrow> CHR ''('' \<notin> set (show_int i) \<and> CHR '')'' \<notin> set (show_int i)"
  using show_nat_digits [of "CHR ''(''" "nat i"] show_nat_digits [of "CHR '')''" "nat i"]
  by (auto simp: show_int_def is_digit_def Let_def)

section \<open>Properties\<close>

text \<open>
  Remark: \<open>oph_workflow_push\<close> followed by \<open>oph_workflow_pop\<close> of the head restores the workflow, and the pushed
  entry is a snapshot of what a loop changes of each task: its arguments, the sources of its
  dependencies and its dependents.\<close>

theorem oph_workflow_push_pop:
  assumes "values_num > 0"
  shows "(case oph_workflow_push w caller (Some name) sv iv values_num of
      (rc, w') \<Rightarrow> rc = OPH_WORKFLOW_EXIT_SUCCESS \<and>
        (case oph_workflow_pop w' None of (rc', w'') \<Rightarrow> rc' = OPH_WORKFLOW_EXIT_SUCCESS \<and> w'' = w) \<and>
        (\<exists>k. w_stack w' = k # w_stack w \<and> k_caller k = caller \<and> k_index k = 0 \<and> k_values_num k = values_num \<and>
          (\<forall>i < min (w_tasks_num w) (length (w_tasks w)).
             s_arguments (k_tasks k ! i) = t_arguments (w_tasks w ! i) \<and>
             s_deps_task_index (k_tasks k ! i) = map d_task_index (t_deps (w_tasks w ! i)) \<and>
             s_residual_deps_num (k_tasks k ! i) = t_residual_deps_num (w_tasks w ! i) \<and>
             s_dependents_indexes (k_tasks k ! i) = t_dependents_indexes (w_tasks w ! i))))"
  using assms by (simp add: oph_workflow_push_def oph_workflow_pop_def stack_task_def)


theorem oph_workflow_push_pop_witness:
  "snd (oph_workflow_pop (snd (oph_workflow_push empty_workflow 2 (Some ''i'') None (Some [1, 2]) 2)) None) =
     empty_workflow"
  using oph_workflow_push_pop [of 2 empty_workflow 2 "''i''" None "Some [1, 2]"]
  by (auto split: prod.splits)

text \<open>
  Remark: \<open>oph_workflow_copy_task\<close> of a task with a name keeps everything but its name and the names of the
  tasks it depends on: arguments, indexes of the dependencies, dependents, and the variables as a map.\<close>

theorem oph_workflow_copy_task_faithful:
  assumes "t_name s = Some n" and "n \<noteq> []" and "t_vars s = Some vars" and "hashtbl_ok vars"
  shows "\<exists>d vars'. oph_workflow_copy_task s suffix = Some (OPH_WORKFLOW_EXIT_SUCCESS, d) \<and>
    t_name d = copy_name n suffix \<and> t_vars d = Some vars' \<and> hashtbl_ok vars' \<and>
    hashtbl_get vars' = hashtbl_get vars \<and>
    map d_task_index (t_deps d) = map d_task_index (t_deps s) \<and>
    d\<lparr>t_name := t_name s, t_deps := t_deps s, t_vars := t_vars s\<rparr> = s"
proof -
  have "copy_name n suffix \<noteq> None" using assms(2) by (simp add: copy_name_def)
  then obtain nm where nm: "copy_name n suffix = Some nm" by blast
  from assms(4) have "ht_size vars \<noteq> 0" by (simp add: hashtbl_ok_def)
  from copy_table [OF assms(4) this] obtain t where
    "hashtbl_duplicate vars = Some t" "hashtbl_ok t" "hashtbl_get t = hashtbl_get vars"
    by (auto simp: hashtbl_duplicate_def)
  then show ?thesis
    using assms(1,3) nm by (simp add: oph_workflow_copy_task_def copy_dep_def comp_def)
qed

theorem oph_workflow_copy_task_faithful_witness:
  "\<exists>d. oph_workflow_copy_task (zero_task\<lparr>t_name := Some ''a (1)'', t_vars := Some (hashtbl_create 5 None)\<rparr>) 2 =
         Some (OPH_WORKFLOW_EXIT_SUCCESS, d) \<and> t_name d = Some ''a (1,2)''"
proof -
  have "copy_name ''a (1)'' 2 = Some ''a (1,2)''" by code_simp
  moreover have "hashtbl_ok (hashtbl_create 5 None :: oph_workflow_var hashtbl)"
    by (simp add: hashtbl_ok_create)
  ultimately show ?thesis
    using oph_workflow_copy_task_faithful
      [of "zero_task\<lparr>t_name := Some ''a (1)'', t_vars := Some (hashtbl_create 5 None)\<rparr>" "''a (1)''"
        "hashtbl_create 5 None" 2] by auto
qed

text \<open>
  Remark: the names of the copies of a parallel loop do not clash: two copies of tasks that are not copies
  themselves have the same name only when the source name and the suffix are the same.\<close>

theorem copy_name_injective:
  assumes "0 \<le> i" and "0 \<le> j" and "n \<noteq> []" and "m \<noteq> []" and "last n \<noteq> CHR '')''" and "last m \<noteq> CHR '')''"
  shows "copy_name n i = copy_name m j \<longleftrightarrow> n = m \<and> i = j"
proof
  assume "copy_name n i = copy_name m j"
  then have "(n @ '' '') @ CHR ''('' # (show_int i @ '')'') = (m @ '' '') @ CHR ''('' # (show_int j @ '')'')"
    using assms by (simp add: copy_name_def)
  from open_bracket_split [OF this] show_int_no_bracket [OF assms(1)] show_int_no_bracket [OF assms(2)]
  have "n @ '' '' = m @ '' ''" and "show_int i @ '')'' = show_int j @ '')''" by simp_all
  then show "n = m \<and> i = j" using show_int_inj [OF assms(1,2)] by simp
qed simp

theorem copy_name_injective_witness:
  "copy_name ''load'' 3 = Some ''load (3)'' \<and> copy_name ''load'' 3 \<noteq> copy_name ''load'' 4"
  using copy_name_injective [of 3 4 "''load''" "''load''"] by (auto, code_simp)

end
