(* ===== verification/Workflow_Graph.thy ===== *)
theory Workflow_Graph
  imports Workflow_Structs
begin

text \<open>
  The first half of \<^verbatim>\<open>src/src/oph_workflow/oph_workflow_setup.c\<close>: resolving the names of the dependencies
  (\<open>oph_workflow_indexing\<close>), the validation of a workflow with its test for a directed acyclic graph
  (\<open>oph_workflow_validate\<close>), and the initial tasks (\<open>oph_workflow_init\<close>). A node of the graph is referred to
  by its index; \<open>None\<close> is the comparison of a null name or an index out of the array.
\<close>

section \<open>Indexing\<close>

fun find_name :: "string \<Rightarrow> oph_workflow_task list \<Rightarrow> nat \<Rightarrow> nat option option" where
  "find_name name [] k = Some None"
| "find_name name (t # ts) k =
     (case t_name t of
        None \<Rightarrow> None
      | Some n \<Rightarrow> if n = name then Some (Some k) else find_name name ts (Suc k))"

definition set_dep_index :: "nat \<Rightarrow> nat \<Rightarrow> int \<Rightarrow> oph_workflow_task list \<Rightarrow> oph_workflow_task list" where
  [code_defs]: "set_dep_index i j k tasks =
     tasks[i := (tasks ! i)\<lparr>t_deps := (t_deps (tasks ! i))[j := (t_deps (tasks ! i) ! j)\<lparr>d_task_index := k\<rparr>]\<rparr>]"

definition add_dependent :: "nat \<Rightarrow> int \<Rightarrow> oph_workflow_task list \<Rightarrow> oph_workflow_task list" where
  [code_defs]: "add_dependent k i tasks =
     tasks[k := (tasks ! k)\<lparr>t_dependents_indexes := t_dependents_indexes (tasks ! k) @ [i]\<rparr>]"

fun index_deps :: "nat \<Rightarrow> nat \<Rightarrow> nat list \<Rightarrow> oph_workflow_task list \<Rightarrow>
    (wf_code \<times> oph_workflow_task list) option" where
  "index_deps tasks_num i [] tasks = Some (OPH_WORKFLOW_EXIT_SUCCESS, tasks)"
| "index_deps tasks_num i (j # js) tasks =
     (case (d_task_name (t_deps (tasks ! i) ! j), t_name (tasks ! i)) of
        (Some dname, Some name) \<Rightarrow>
          if dname = name then Some (OPH_WORKFLOW_EXIT_BAD_PARAM_ERROR, tasks)
          else (case find_name dname (take tasks_num tasks) 0 of
                  None \<Rightarrow> None
                | Some None \<Rightarrow> Some (OPH_WORKFLOW_EXIT_BAD_PARAM_ERROR, tasks)
                | Some (Some k) \<Rightarrow>
                    index_deps tasks_num i js (add_dependent k (int i) (set_dep_index i j (int k) tasks)))
      | _ \<Rightarrow> None)"

fun index_tasks :: "nat \<Rightarrow> nat list \<Rightarrow> oph_workflow_task list \<Rightarrow>
    (wf_code \<times> oph_workflow_task list) option" where
  "index_tasks tasks_num [] tasks = Some (OPH_WORKFLOW_EXIT_SUCCESS, tasks)"
| "index_tasks tasks_num (i # is) tasks =
     (case index_deps tasks_num i [0..<length (t_deps (tasks ! i))] tasks of
        Some (OPH_WORKFLOW_EXIT_SUCCESS, tasks') \<Rightarrow> index_tasks tasks_num is tasks'
      | r \<Rightarrow> r)"

definition oph_workflow_indexing ::
    "oph_workflow_task list \<Rightarrow> nat \<Rightarrow> (wf_code \<times> oph_workflow_task list) option" where
  [code_defs]: "oph_workflow_indexing tasks tasks_num =
     (if tasks_num < 1 then Some (OPH_WORKFLOW_EXIT_BAD_PARAM_ERROR, tasks)
      else if tasks_num > length tasks then None
      else index_tasks tasks_num [0..<tasks_num] tasks)"

section \<open>The test for a directed acyclic graph\<close>

record workflow_node =
  out_edges :: "int list"
  out_edges_num :: int
  in_edges :: "int list"
  in_edges_num :: int

definition make_node :: "oph_workflow_task \<Rightarrow> workflow_node" where
  [code_defs]: "make_node t =
     \<lparr>out_edges = t_dependents_indexes t, out_edges_num = int (length (t_dependents_indexes t)),
      in_edges = map d_task_index (t_deps t), in_edges_num = int (length (t_deps t))\<rparr>"

text \<open>The queue \<open>S\<close>: the nodes from the head on.\<close>

definition workflow_s_add :: "nat list \<Rightarrow> nat \<Rightarrow> wf_code \<times> nat list" where
  [code_defs]: "workflow_s_add s node = (OPH_WORKFLOW_EXIT_SUCCESS, s @ [node])"

definition workflow_s_remove :: "nat list \<Rightarrow> wf_code \<times> nat option \<times> nat list" where
  [code_defs]: "workflow_s_remove s =
     (case s of
        [] \<Rightarrow> (OPH_WORKFLOW_EXIT_BAD_PARAM_ERROR, None, [])
      | n # rest \<Rightarrow> (OPH_WORKFLOW_EXIT_SUCCESS, Some n, rest))"

text \<open>The loop over \<open>in_edges\<close> marks the first edge from \<open>n\<close> with -1.\<close>

fun clear_edge :: "int \<Rightarrow> int list \<Rightarrow> int list option" where
  "clear_edge n [] = None"
| "clear_edge n (e # es) = (if e = n then Some (- 1 # es) else map_option (Cons e) (clear_edge n es))"

definition remove_in_edge :: "nat \<Rightarrow> nat \<Rightarrow> workflow_node list \<Rightarrow> nat list \<Rightarrow> workflow_node list \<times> nat list" where
  [code_defs]: "remove_in_edge n m graph S =
     (case clear_edge (int n) (in_edges (graph ! m)) of
        None \<Rightarrow> (graph, S)
      | Some es \<Rightarrow>
          (let num = in_edges_num (graph ! m) - 1 in
           (graph[m := (graph ! m)\<lparr>in_edges := es, in_edges_num := num\<rparr>],
            if num = 0 then snd (workflow_s_add S m) else S)))"

fun out_loop :: "nat \<Rightarrow> nat list \<Rightarrow> workflow_node list \<Rightarrow> nat list \<Rightarrow> (workflow_node list \<times> nat list) option" where
  "out_loop n [] graph S = Some (graph, S)"
| "out_loop n (i # is) graph S =
     (let e = out_edges (graph ! n) ! i in
      if e = - 1 then out_loop n is graph S
      else if e < 0 \<or> nat e \<ge> length graph then None
      else (case remove_in_edge n (nat e)
                   (graph[n := (graph ! n)\<lparr>out_edges := (out_edges (graph ! n))[i := - 1],
                                           out_edges_num := out_edges_num (graph ! n) - 1\<rparr>]) S of
              (graph', S') \<Rightarrow> out_loop n is graph' S'))"

definition live :: "int list \<Rightarrow> nat" where
  "live es = length (filter (\<lambda>e. e \<noteq> - 1) es)"

definition live_edges :: "workflow_node list \<Rightarrow> nat" where
  "live_edges graph = sum_list (map (\<lambda>n. live (out_edges n)) graph)"

lemma live_Cons [simp]: "live (e # es) = (if e = - 1 then live es else Suc (live es))"
  by (simp add: live_def)

lemma live_update: "i < length es \<Longrightarrow> es ! i \<noteq> - 1 \<Longrightarrow> Suc (live (es[i := - 1])) = live es"
  by (induction es arbitrary: i) (auto split: nat.splits simp: nth_Cons)

lemma sum_list_update_nat:
  fixes xs :: "nat list"
  shows "i < length xs \<Longrightarrow> sum_list (xs[i := v]) + xs ! i = sum_list xs + v"
  by (induction xs arbitrary: i) (auto split: nat.splits)

lemma live_edges_update:
  "n < length g \<Longrightarrow> live_edges (g[n := x]) + live (out_edges (g ! n)) = live_edges g + live (out_edges x)"
  using sum_list_update_nat [of n "map (\<lambda>n. live (out_edges n)) g" "live (out_edges x)"]
  by (simp add: live_edges_def map_update)

lemma remove_in_edge_measure:
  "remove_in_edge n m g S = (g', S') \<Longrightarrow>
     length g' = length g \<and> length S' \<le> Suc (length S) \<and> (\<forall>x. out_edges (g' ! x) = out_edges (g ! x))"
  by (auto simp: remove_in_edge_def workflow_s_add_def Let_def nth_update_if split: option.splits)

lemma live_edges_cong:
  "length g' = length g \<Longrightarrow> \<forall>x. out_edges (g' ! x) = out_edges (g ! x) \<Longrightarrow> live_edges g' = live_edges g"
  unfolding live_edges_def by (auto intro!: arg_cong [where f = sum_list] nth_equalityI)

lemma out_loop_measure:
  assumes "out_loop n is g S = Some (g', S')" and "n < length g" and "\<forall>i\<in>set is. i < length (out_edges (g ! n))"
  shows "length g' = length g \<and> live_edges g' + length S' \<le> live_edges g + length S"
  using assms
proof (induction "is" arbitrary: g S)
  case (Cons i "is")
  let ?e = "out_edges (g ! n) ! i"
  show ?case
  proof (cases "?e = - 1")
    case True
    with Cons show ?thesis by (simp add: Let_def)
  next
    case False
    let ?x = "(g ! n)\<lparr>out_edges := (out_edges (g ! n))[i := - 1], out_edges_num := out_edges_num (g ! n) - 1\<rparr>"
    obtain g1 S1 where r: "remove_in_edge n (nat ?e) (g[n := ?x]) S = (g1, S1)" by fastforce
    then have o: "out_loop n is g1 S1 = Some (g', S')"
      using Cons.prems(1) False by (simp add: Let_def split: if_splits)
    note m = remove_in_edge_measure [OF r]
    have "Suc (live (out_edges ?x)) = live (out_edges (g ! n))"
      using live_update Cons.prems(3) False by simp
    then have "live_edges (g[n := ?x]) < live_edges g"
      using live_edges_update [OF Cons.prems(2), of ?x] by simp
    moreover have "live_edges g1 = live_edges (g[n := ?x])"
      using m by (intro live_edges_cong) auto
    moreover have "length g' = length g1 \<and> live_edges g' + length S' \<le> live_edges g1 + length S1"
      using Cons.IH [OF o] Cons.prems(2,3) m by auto
    ultimately show ?thesis using m by auto
  qed
qed simp

lemma top_sort_measure:
  "out_loop n [0..<length (out_edges (g ! n))] g rest = Some (g', S') \<Longrightarrow> \<not> length g \<le> n \<Longrightarrow>
    live_edges g' + length S' < Suc (live_edges g + length rest)"
  using out_loop_measure [of n "[0..<length (out_edges (g ! n))]" g rest g' S'] by simp

text \<open>The loop of the topological sort, as long as \<open>S\<close> is not empty.\<close>

function top_sort :: "workflow_node list \<Rightarrow> nat list \<Rightarrow> workflow_node list option" where
  "top_sort graph S =
     (case workflow_s_remove S of
        (_, None, _) \<Rightarrow> Some graph
      | (_, Some n, rest) \<Rightarrow>
          if n \<ge> length graph then None
          else (case out_loop n [0..<length (out_edges (graph ! n))] graph rest of
                  None \<Rightarrow> None
                | Some (graph', S') \<Rightarrow> top_sort graph' S'))"
  by pat_completeness auto
termination
  by (relation "measure (\<lambda>(g, S). live_edges g + length S)")
    (auto simp: workflow_s_remove_def split: list.splits dest: top_sort_measure)

declare top_sort.simps [simp del]

section \<open>Validation\<close>

fun same_name :: "string option \<Rightarrow> string option list \<Rightarrow> bool option" where
  "same_name x [] = Some False"
| "same_name x (y # ys) =
     (case (x, y) of
        (Some a, Some b) \<Rightarrow> if a = b then Some True else same_name x ys
      | _ \<Rightarrow> None)"

fun check_names :: "string option list \<Rightarrow> wf_code option" where
  "check_names [] = Some OPH_WORKFLOW_EXIT_SUCCESS"
| "check_names (x # xs) =
     (case same_name x xs of
        None \<Rightarrow> None
      | Some True \<Rightarrow> Some OPH_WORKFLOW_EXIT_TASK_NAME_ERROR
      | Some False \<Rightarrow> check_names xs)"

text \<open>
  The scan of a value: the number of open brackets after it, \<open>None\<close> at a separator outside of them. The
  counter \<open>bracket_on\<close> is declared before the loops over the tasks and their arguments and is never
  reset.
\<close>

fun scan_value :: "string \<Rightarrow> nat \<Rightarrow> nat option" where
  "scan_value [] bracket_on = Some bracket_on"
| "scan_value (c # s) bracket_on =
     (if c = CHR ''['' then scan_value s (bracket_on + 1)
      else if bracket_on \<noteq> 0 \<and> c = CHR '']'' then scan_value s (bracket_on - 1)
      else if bracket_on = 0 \<and> c = CHR '';'' then None
      else scan_value s bracket_on)"

fun check_args :: "oph_workflow_arg list \<Rightarrow> nat \<Rightarrow> (wf_code + nat) option" where
  "check_args [] bracket_on = Some (Inr bracket_on)"
| "check_args (a # as) bracket_on =
     (if CHR '';'' \<in> set (a_key a) then Some (Inl OPH_WORKFLOW_EXIT_BAD_PARAM_ERROR)
      else if CHR ''='' \<in> set (a_key a) then Some (Inl OPH_WORKFLOW_EXIT_BAD_PARAM_ERROR)
      else (case a_value a of
              None \<Rightarrow> None
            | Some v \<Rightarrow>
                (case scan_value v bracket_on of
                   None \<Rightarrow> Some (Inl OPH_WORKFLOW_EXIT_BAD_PARAM_ERROR)
                 | Some b \<Rightarrow> check_args as b)))"

definition test_dag :: "workflow_node list \<Rightarrow> wf_code option" where
  [code_defs]: "test_dag graph =
     (case top_sort graph (filter (\<lambda>i. in_edges_num (graph ! i) = 0) [0..<length graph]) of
        None \<Rightarrow> None
      | Some g \<Rightarrow>
          if list_ex (\<lambda>n. in_edges_num n \<noteq> 0 \<or> out_edges_num n \<noteq> 0) g
          then Some OPH_WORKFLOW_EXIT_BAD_PARAM_ERROR
          else Some OPH_WORKFLOW_EXIT_SUCCESS)"

definition oph_workflow_validate :: "oph_workflow \<Rightarrow> wf_code option" where
  [code_defs]: "oph_workflow_validate w =
     (let tasks = take (w_tasks_num w) (w_tasks w) in
      if w_tasks_num w > length (w_tasks w) then None
      else (case check_names (map t_name tasks) of
              Some OPH_WORKFLOW_EXIT_SUCCESS \<Rightarrow>
                (case check_args (concat (map t_arguments tasks)) 0 of
                   None \<Rightarrow> None
                 | Some (Inl e) \<Rightarrow> Some e
                 | Some (Inr _) \<Rightarrow> test_dag (map make_node tasks))
            | r \<Rightarrow> r))"

definition oph_workflow_init :: "oph_workflow_task list \<Rightarrow> nat \<Rightarrow> wf_code \<times> nat list" where
  [code_defs]: "oph_workflow_init tasks tasks_num =
     (let initial = filter (\<lambda>i. t_deps (tasks ! i) = []) [0..<tasks_num] in
      if tasks_num < 1 then (OPH_WORKFLOW_EXIT_BAD_PARAM_ERROR, [])
      else if initial = [] then (OPH_WORKFLOW_EXIT_BAD_PARAM_ERROR, [])
      else (OPH_WORKFLOW_EXIT_SUCCESS, initial))"

section \<open>Lemmas on the topological sort\<close>

definition graph_ok :: "workflow_node list \<Rightarrow> bool" where
  "graph_ok g \<longleftrightarrow> (\<forall>n < length g.
     set (out_edges (g ! n)) \<subseteq> {- 1..<int (length g)} \<and> set (in_edges (g ! n)) \<subseteq> {- 1..<int (length g)} \<and>
     out_edges_num (g ! n) = int (live (out_edges (g ! n))) \<and>
     in_edges_num (g ! n) = int (live (in_edges (g ! n))) \<and>
     (\<forall>m < length g. count (mset (out_edges (g ! n))) (int m) = count (mset (in_edges (g ! m))) (int n)))"

definition edges :: "workflow_node list \<Rightarrow> (nat \<times> nat) set" where
  "edges g = {(n, m). n < length g \<and> m < length g \<and> int m \<in> set (out_edges (g ! n))}"

lemma graph_okD:
  assumes "graph_ok g" and "n < length g"
  shows "set (out_edges (g ! n)) \<subseteq> {- 1..<int (length g)}"
    and "set (in_edges (g ! n)) \<subseteq> {- 1..<int (length g)}"
    and "out_edges_num (g ! n) = int (live (out_edges (g ! n)))"
    and "in_edges_num (g ! n) = int (live (in_edges (g ! n)))"
    and "m < length g \<Longrightarrow> count (mset (out_edges (g ! n))) (int m) = count (mset (in_edges (g ! m))) (int n)"
  using assms by (auto simp: graph_ok_def)

lemma live_0: "live es = 0 \<longleftrightarrow> (\<forall>e\<in>set es. e = - 1)"
  by (auto simp: live_def filter_empty_conv)

lemma marked_iff:
  assumes "set es \<subseteq> {- 1..<int N}"
  shows "(\<forall>e\<in>set es. e = - 1) \<longleftrightarrow> (\<forall>n < N. int n \<notin> set es)"
proof
  assume r: "\<forall>n < N. int n \<notin> set es"
  show "\<forall>e\<in>set es. e = - 1"
  proof (rule ballI, rule ccontr)
    fix e assume e: "e \<in> set es" "e \<noteq> - 1"
    then have "int (nat e) = e" and "nat e < N" using assms by fastforce+
    with r e show False by metis
  qed
qed force

lemma clear_edge_None: "clear_edge n es = None \<longleftrightarrow> n \<notin> set es"
  by (induction es) auto

lemma clear_edge_Some:
  "clear_edge n es = Some es' \<Longrightarrow> add_mset n (mset es') = add_mset (- 1) (mset es)"
proof (induction es arbitrary: es')
  case (Cons e es)
  show ?case
  proof (cases "e = n")
    case False
    with Cons.prems obtain r where "clear_edge n es = Some r" "es' = e # r" by auto
    with Cons.IH show ?thesis by (metis add_mset_commute mset.simps(2))
  qed (use Cons.prems in auto)
qed simp

lemma live_clear: "clear_edge n es = Some es' \<Longrightarrow> n \<noteq> - 1 \<Longrightarrow> Suc (live es') = live es"
  by (induction es arbitrary: es') (auto split: if_splits)

lemma in_edge_iff:
  assumes "graph_ok g" and "n < length g" and "m < length g"
  shows "(n, m) \<in> edges g \<longleftrightarrow> int n \<in> set (in_edges (g ! m))"
proof -
  have "int m \<in> set (out_edges (g ! n)) \<longleftrightarrow> int n \<in> set (in_edges (g ! m))"
    using graph_okD(5) [OF assms] by (metis count_greater_zero_iff set_mset_mset)
  then show ?thesis using assms by (simp add: edges_def)
qed

lemma in_num_0:
  assumes "graph_ok g" and "m < length g"
  shows "in_edges_num (g ! m) = 0 \<longleftrightarrow> (\<forall>n. (n, m) \<notin> edges g)"
proof -
  have "in_edges_num (g ! m) = 0 \<longleftrightarrow> (\<forall>e\<in>set (in_edges (g ! m)). e = - 1)"
    using graph_okD(4) [OF assms] by (simp add: live_0)
  also have "\<dots> \<longleftrightarrow> (\<forall>n < length g. int n \<notin> set (in_edges (g ! m)))"
    using graph_okD(2) [OF assms] by (rule marked_iff)
  also have "\<dots> \<longleftrightarrow> (\<forall>n. (n, m) \<notin> edges g)"
    using in_edge_iff [OF assms(1) _ assms(2)] by (auto simp: edges_def)
  finally show ?thesis .
qed

lemma out_num_0:
  assumes "graph_ok g" and "n < length g"
  shows "out_edges_num (g ! n) = 0 \<longleftrightarrow> (\<forall>m. (n, m) \<notin> edges g)"
proof -
  have "out_edges_num (g ! n) = 0 \<longleftrightarrow> (\<forall>e\<in>set (out_edges (g ! n)). e = - 1)"
    using graph_okD(3) [OF assms] by (simp add: live_0)
  also have "\<dots> \<longleftrightarrow> (\<forall>m < length g. int m \<notin> set (out_edges (g ! n)))"
    using graph_okD(1) [OF assms] by (rule marked_iff)
  also have "\<dots> \<longleftrightarrow> (\<forall>m. (n, m) \<notin> edges g)"
    using assms(2) by (auto simp: edges_def)
  finally show ?thesis .
qed

text \<open>One edge removed from both of its ends.\<close>

definition drop_edge :: "workflow_node list \<Rightarrow> nat \<Rightarrow> nat \<Rightarrow> workflow_node list" where
  "drop_edge g n i = g[n := (g ! n)\<lparr>out_edges := (out_edges (g ! n))[i := - 1],
                                  out_edges_num := out_edges_num (g ! n) - 1\<rparr>]"

definition edge_removal ::
    "workflow_node list \<Rightarrow> nat \<Rightarrow> nat \<Rightarrow> nat \<Rightarrow> int list \<Rightarrow> workflow_node list \<Rightarrow> bool" where
  "edge_removal g n i m es g' \<longleftrightarrow> graph_ok g \<and> n < length g \<and> i < length (out_edges (g ! n)) \<and>
     out_edges (g ! n) ! i = int m \<and> m < length g \<and> clear_edge (int n) (in_edges (g ! m)) = Some es \<and>
     g' = (drop_edge g n i)[m := (drop_edge g n i ! m)\<lparr>in_edges := es,
             in_edges_num := in_edges_num (g ! m) - 1\<rparr>]"

lemma edge_removal_fields:
  assumes "edge_removal g n i m es g'"
  shows "length g' = length g"
    and "x < length g \<Longrightarrow> out_edges (g' ! x) = (if x = n then (out_edges (g ! n))[i := - 1] else out_edges (g ! x))"
    and "x < length g \<Longrightarrow> in_edges (g' ! x) = (if x = m then es else in_edges (g ! x))"
    and "x < length g \<Longrightarrow> out_edges_num (g' ! x) = out_edges_num (g ! x) - (if x = n then 1 else 0)"
    and "x < length g \<Longrightarrow> in_edges_num (g' ! x) = in_edges_num (g ! x) - (if x = m then 1 else 0)"
  using assms by (auto simp: edge_removal_def drop_edge_def nth_update_if)

lemma edge_removal_counts:
  assumes "edge_removal g n i m es g'"
  shows "count (mset ((out_edges (g ! n))[i := - 1])) (int x) =
      count (mset (out_edges (g ! n))) (int x) - (if x = m then 1 else 0)"
    and "count (mset es) (int x) = count (mset (in_edges (g ! m))) (int x) - (if x = n then 1 else 0)"
    and "set es \<subseteq> insert (- 1) (set (in_edges (g ! m)))"
proof -
  have r: "i < length (out_edges (g ! n))" "out_edges (g ! n) ! i = int m"
    "clear_edge (int n) (in_edges (g ! m)) = Some es" using assms by (simp_all add: edge_removal_def)
  show "count (mset ((out_edges (g ! n))[i := - 1])) (int x) =
      count (mset (out_edges (g ! n))) (int x) - (if x = m then 1 else 0)"
    using r(1,2) by (simp add: mset_update)
  have "count (add_mset (int n) (mset es)) (int x) = count (add_mset (- 1) (mset (in_edges (g ! m)))) (int x)"
    using clear_edge_Some [OF r(3)] by simp
  then show "count (mset es) (int x) = count (mset (in_edges (g ! m))) (int x) - (if x = n then 1 else 0)"
    by (auto split: if_splits)
  show "set es \<subseteq> insert (- 1) (set (in_edges (g ! m)))"
    using arg_cong [OF clear_edge_Some [OF r(3)], of set_mset] by auto
qed

lemma edge_removal_ok:
  assumes "edge_removal g n i m es g'"
  shows "graph_ok g'"
proof -
  note fs = edge_removal_fields [OF assms] and cs = edge_removal_counts [OF assms]
  have ok: "graph_ok g" and i: "i < length (out_edges (g ! n))" and m: "out_edges (g ! n) ! i = int m"
    and es: "clear_edge (int n) (in_edges (g ! m)) = Some es" using assms by (auto simp: edge_removal_def)
  show ?thesis
    unfolding graph_ok_def fs(1)
  proof (intro allI impI conjI)
    fix x assume x: "x < length g"
    note old = graph_okD [OF ok x]
    show "set (out_edges (g' ! x)) \<subseteq> {- 1..<int (length g)}"
      using old(1) set_update_subset_insert [of "out_edges (g ! n)" i "- 1"] by (auto simp: fs x)
    show "set (in_edges (g' ! x)) \<subseteq> {- 1..<int (length g)}"
      using old(2) cs(3) by (auto simp: fs x)
    show "out_edges_num (g' ! x) = int (live (out_edges (g' ! x)))"
      using old(3) live_update [OF i] m by (auto simp: fs x)
    show "in_edges_num (g' ! x) = int (live (in_edges (g' ! x)))"
      using old(4) live_clear [OF es] by (auto simp: fs x)
    fix y assume y: "y < length g"
    show "count (mset (out_edges (g' ! x))) (int y) = count (mset (in_edges (g' ! y))) (int x)"
      using old(5) [OF y] by (auto simp: fs x y cs)
  qed
qed

lemma edge_removal_edges:
  assumes "edge_removal g n i m es g'"
  shows "edges g' \<subseteq> edges g" and "x \<noteq> n \<Longrightarrow> (x, y) \<in> edges g' \<longleftrightarrow> (x, y) \<in> edges g"
  using set_update_subset_insert [of "out_edges (g ! n)" i "- 1"]
  by (auto simp: edges_def edge_removal_fields [OF assms] split: if_splits)

text \<open>
  What a run of \<open>out_loop\<close> keeps: the graph stays consistent, edges only disappear, and only those that
  leave \<open>n\<close>; the nodes appended to \<open>S\<close> are exactly those that lost their last incoming edge.
\<close>

lemma out_loop_run:
  assumes "graph_ok g" and "n < length g" and "\<forall>i\<in>set is. i < length (out_edges (g ! n))"
  shows "\<exists>g' S'. out_loop n is g S = Some (g', S') \<and> length g' = length g \<and> graph_ok g' \<and>
    edges g' \<subseteq> edges g \<and> (\<forall>x y. x \<noteq> n \<longrightarrow> ((x, y) \<in> edges g' \<longleftrightarrow> (x, y) \<in> edges g)) \<and>
    length (out_edges (g' ! n)) = length (out_edges (g ! n)) \<and>
    (\<forall>i < length (out_edges (g ! n)).
       out_edges (g' ! n) ! i = (if i \<in> set is then - 1 else out_edges (g ! n) ! i)) \<and>
    set S \<subseteq> set S' \<and>
    (\<forall>x\<in>set S'. x \<in> set S \<or> (x < length g \<and> in_edges_num (g' ! x) = 0)) \<and>
    (\<forall>x < length g. in_edges_num (g' ! x) = 0 \<longrightarrow> in_edges_num (g ! x) = 0 \<or> x \<in> set S') \<and>
    (\<forall>x < length g. in_edges_num (g ! x) = 0 \<longrightarrow> in_edges_num (g' ! x) = 0)"
  using assms
proof (induction "is" arbitrary: g S)
  case Nil
  then show ?case by simp
next
  case (Cons i "is")
  let ?e = "out_edges (g ! n) ! i"
  have il: "i < length (out_edges (g ! n))" using Cons.prems(3) by simp
  show ?case
  proof (cases "?e = - 1")
    case True
    then have "out_loop n (i # is) g S = out_loop n is g S" by (simp add: Let_def)
    then show ?thesis using Cons.IH [OF Cons.prems(1,2), of S] Cons.prems(3) True by fastforce
  next
    case False
    with graph_okD(1) [OF Cons.prems(1,2)] il have "- 1 < ?e" and el: "?e < int (length g)"
      using nth_mem [OF il] by fastforce+
    then have "0 \<le> ?e" by linarith
    then obtain m where m: "?e = int m" by (rule nonneg_int_cases)
    with el have ml: "m < length g" by simp
    have "count (mset (in_edges (g ! m))) (int n) = count (mset (out_edges (g ! n))) (int m)"
      using graph_okD(5) [OF Cons.prems(1,2) ml] by simp
    moreover have "int m \<in> set (out_edges (g ! n))" using m nth_mem [OF il] by simp
    ultimately have "int n \<in> set (in_edges (g ! m))"
      by (metis count_greater_zero_iff set_mset_mset)
    then obtain es where es: "clear_edge (int n) (in_edges (g ! m)) = Some es"
      using clear_edge_None by fastforce
    define g1 where "g1 = (drop_edge g n i)[m := (drop_edge g n i ! m)\<lparr>in_edges := es,
                 in_edges_num := in_edges_num (g ! m) - 1\<rparr>]"
    have er: "edge_removal g n i m es g1"
      unfolding edge_removal_def using Cons.prems(1,2) il m ml es g1_def by blast
    define S1 where "S1 = (if in_edges_num (g ! m) - 1 = 0 then S @ [m] else S)"
    have "in_edges (drop_edge g n i ! m) = in_edges (g ! m)"
      and "in_edges_num (drop_edge g n i ! m) = in_edges_num (g ! m)"
      by (simp_all add: drop_edge_def nth_update_if)
    then have step: "out_loop n (i # is) g S = out_loop n is g1 S1"
      using m ml es by (simp add: Let_def remove_in_edge_def workflow_s_add_def g1_def S1_def
          flip: drop_edge_def)
    note fs = edge_removal_fields [OF er] and ok1 = edge_removal_ok [OF er]
      and ed = edge_removal_edges [OF er]
    have o1: "out_edges (g1 ! n) = (out_edges (g ! n))[i := - 1]" using fs(2) Cons.prems(2) by simp
    have nn: "in_edges_num (g ! x) \<ge> 0 \<and> in_edges_num (g1 ! x) \<ge> 0" if "x < length g" for x
      using graph_okD(4) [OF Cons.prems(1)] graph_okD(4) [OF ok1] fs(1) that by simp
    obtain g' S' where run: "out_loop n is g1 S1 = Some (g', S')" and len: "length g' = length g1"
      and ok': "graph_ok g'" and sub: "edges g' \<subseteq> edges g1"
      and oth: "\<forall>x y. x \<noteq> n \<longrightarrow> ((x, y) \<in> edges g' \<longleftrightarrow> (x, y) \<in> edges g1)"
      and lo: "length (out_edges (g' ! n)) = length (out_edges (g1 ! n))"
      and out: "\<forall>i < length (out_edges (g1 ! n)).
        out_edges (g' ! n) ! i = (if i \<in> set is then - 1 else out_edges (g1 ! n) ! i)"
      and S': "set S1 \<subseteq> set S'" "\<forall>x\<in>set S'. x \<in> set S1 \<or> (x < length g1 \<and> in_edges_num (g' ! x) = 0)"
      and z: "\<forall>x < length g1. in_edges_num (g' ! x) = 0 \<longrightarrow> in_edges_num (g1 ! x) = 0 \<or> x \<in> set S'"
        "\<forall>x < length g1. in_edges_num (g1 ! x) = 0 \<longrightarrow> in_edges_num (g' ! x) = 0"
      using Cons.IH [OF ok1, of S1] Cons.prems(2,3) fs(1) o1 by auto
    have S1: "set S \<subseteq> set S1" "\<forall>x\<in>set S1. x \<in> set S \<or> (x = m \<and> in_edges_num (g1 ! m) = 0)"
      "in_edges_num (g1 ! m) = 0 \<longrightarrow> m \<in> set S1"
      using fs(5) [OF ml] by (auto simp: S1_def split: if_splits)
    have z1: "in_edges_num (g1 ! x) = 0 \<longrightarrow> in_edges_num (g ! x) = 0 \<or> x \<in> set S1"
      and z2: "in_edges_num (g ! x) = 0 \<longrightarrow> in_edges_num (g1 ! x) = 0" if "x < length g" for x
      using fs(5) [OF that] S1(3) nn [OF that] by (auto split: if_splits)
    show ?thesis
    proof (intro exI conjI)
      show "out_loop n (i # is) g S = Some (g', S')" using step run by simp
      show "length g' = length g" using len fs(1) by simp
      show "graph_ok g'" by (rule ok')
      show "edges g' \<subseteq> edges g" using sub ed(1) by blast
      show "\<forall>x y. x \<noteq> n \<longrightarrow> ((x, y) \<in> edges g' \<longleftrightarrow> (x, y) \<in> edges g)" using oth ed(2) by blast
      show "length (out_edges (g' ! n)) = length (out_edges (g ! n))" using lo o1 by simp
      show "\<forall>j < length (out_edges (g ! n)).
          out_edges (g' ! n) ! j = (if j \<in> set (i # is) then - 1 else out_edges (g ! n) ! j)"
        using out o1 by (auto simp: nth_list_update)
      show "set S \<subseteq> set S'" using S1(1) S'(1) by blast
      show "\<forall>x\<in>set S'. x \<in> set S \<or> (x < length g \<and> in_edges_num (g' ! x) = 0)"
        using S'(2) S1(2) z(2) fs(1) ml by auto
      show "\<forall>x < length g. in_edges_num (g' ! x) = 0 \<longrightarrow> in_edges_num (g ! x) = 0 \<or> x \<in> set S'"
        using z(1) z1 S'(1) fs(1) by fastforce
      show "\<forall>x < length g. in_edges_num (g ! x) = 0 \<longrightarrow> in_edges_num (g' ! x) = 0"
        using z(2) z2 fs(1) by simp
    qed
  qed
qed

text \<open>
  The invariant of the sort: the nodes of \<open>S\<close> have no incoming edge, and every node without one is in
  \<open>S\<close> or has lost all its outgoing edges.
\<close>

definition sort_inv :: "workflow_node list \<Rightarrow> nat list \<Rightarrow> bool" where
  "sort_inv g S \<longleftrightarrow> graph_ok g \<and> (\<forall>n\<in>set S. n < length g \<and> in_edges_num (g ! n) = 0) \<and>
     (\<forall>n < length g. in_edges_num (g ! n) = 0 \<longrightarrow> n \<in> set S \<or> (\<forall>m. (n, m) \<notin> edges g))"

lemma sort_step:
  assumes "sort_inv g (n # S)"
  obtains g' S' where "out_loop n [0..<length (out_edges (g ! n))] g S = Some (g', S')"
    and "sort_inv g' S'" and "length g' = length g" and "edges g' \<subseteq> edges g"
    and "\<forall>x y. x \<noteq> n \<longrightarrow> ((x, y) \<in> edges g' \<longleftrightarrow> (x, y) \<in> edges g)"
proof -
  have ok: "graph_ok g" and n: "n < length g" using assms by (simp_all add: sort_inv_def)
  obtain g' S' where run: "out_loop n [0..<length (out_edges (g ! n))] g S = Some (g', S')"
    and len: "length g' = length g" and ok': "graph_ok g'" and sub: "edges g' \<subseteq> edges g"
    and oth: "\<forall>x y. x \<noteq> n \<longrightarrow> ((x, y) \<in> edges g' \<longleftrightarrow> (x, y) \<in> edges g)"
    and lo: "length (out_edges (g' ! n)) = length (out_edges (g ! n))"
    and out: "\<forall>i < length (out_edges (g ! n)).
      out_edges (g' ! n) ! i = (if i \<in> set [0..<length (out_edges (g ! n))] then - 1 else out_edges (g ! n) ! i)"
    and S': "set S \<subseteq> set S'" "\<forall>x\<in>set S'. x \<in> set S \<or> (x < length g \<and> in_edges_num (g' ! x) = 0)"
    and z: "\<forall>x < length g. in_edges_num (g' ! x) = 0 \<longrightarrow> in_edges_num (g ! x) = 0 \<or> x \<in> set S'"
      "\<forall>x < length g. in_edges_num (g ! x) = 0 \<longrightarrow> in_edges_num (g' ! x) = 0"
    using out_loop_run [OF ok n, of "[0..<length (out_edges (g ! n))]" S] by auto
  have none: "(n, m) \<notin> edges g'" for m
    using out lo by (auto simp: edges_def in_set_conv_nth)
  have "sort_inv g' S'"
    unfolding sort_inv_def
  proof (intro conjI ballI allI impI)
    show "graph_ok g'" by (rule ok')
    fix x assume "x \<in> set S'"
    then show "x < length g'" and "in_edges_num (g' ! x) = 0"
      using S'(2) z(2) assms len by (auto simp: sort_inv_def)
  next
    fix x assume x: "x < length g'" "in_edges_num (g' ! x) = 0"
    consider "x = n" | "x \<in> set S'" | "x \<noteq> n" "in_edges_num (g ! x) = 0" using z(1) x len by auto
    then show "x \<in> set S' \<or> (\<forall>m. (x, m) \<notin> edges g')"
    proof cases
      case 3
      with assms x(1) len have "x \<in> set S \<or> (\<forall>m. (x, m) \<notin> edges g)"
        unfolding sort_inv_def by (metis set_ConsD)
      with S'(1) sub show ?thesis by blast
    qed (use none in auto)
  qed
  with that run len sub oth show thesis by blast
qed

text \<open>
  The sort returns, and its result keeps the edges inside every set of nodes that each have a predecessor
  in the set.
\<close>

lemma top_sort_run:
  assumes "sort_inv g S"
  shows "\<exists>g'. top_sort g S = Some g' \<and> sort_inv g' [] \<and> length g' = length g \<and> edges g' \<subseteq> edges g \<and>
    (\<forall>C. (\<forall>m\<in>C. \<exists>n\<in>C. (n, m) \<in> edges g) \<longrightarrow> (\<forall>m\<in>C. \<exists>n\<in>C. (n, m) \<in> edges g'))"
  using assms
proof (induction g S rule: top_sort.induct)
  case (1 g S)
  show ?case
  proof (cases S)
    case Nil
    then show ?thesis using 1 by (auto simp: top_sort.simps workflow_s_remove_def)
  next
    case (Cons n rest)
    with 1 obtain g' S' where run: "out_loop n [0..<length (out_edges (g ! n))] g rest = Some (g', S')"
      and inv: "sort_inv g' S'" and len: "length g' = length g" and sub: "edges g' \<subseteq> edges g"
      and oth: "\<forall>x y. x \<noteq> n \<longrightarrow> ((x, y) \<in> edges g' \<longleftrightarrow> (x, y) \<in> edges g)"
      by (metis sort_step)
    have n: "n < length g" and zero: "in_edges_num (g ! n) = 0" and ok: "graph_ok g"
      using 1 Cons by (auto simp: sort_inv_def)
    have step: "top_sort g S = top_sort g' S'"
      using Cons n run by (subst top_sort.simps) (simp add: workflow_s_remove_def)
    have c: "\<forall>m\<in>C. \<exists>x\<in>C. (x, m) \<in> edges g'" if "\<forall>m\<in>C. \<exists>x\<in>C. (x, m) \<in> edges g" for C
    proof -
      have "n \<notin> C" using that zero in_num_0 [OF ok n] by blast
      with that oth show ?thesis by metis
    qed
    have rm: "workflow_s_remove S = (OPH_WORKFLOW_EXIT_SUCCESS, Some n, rest)"
      using Cons by (simp add: workflow_s_remove_def)
    have "\<exists>h. top_sort g' S' = Some h \<and> sort_inv h [] \<and> length h = length g' \<and> edges h \<subseteq> edges g' \<and>
        (\<forall>C. (\<forall>m\<in>C. \<exists>n\<in>C. (n, m) \<in> edges g') \<longrightarrow> (\<forall>m\<in>C. \<exists>n\<in>C. (n, m) \<in> edges h))"
      using 1(1) rm n run inv by auto
    then show ?thesis using step len sub c by (metis subset_trans)
  qed
qed

lemma finite_edges: "finite (edges g)"
  by (rule finite_subset [of _ "{..<length g} \<times> {..<length g}"]) (auto simp: edges_def)

lemma no_edges_if_acyclic:
  assumes "sort_inv g []" and "acyclic (edges g)"
  shows "edges g = {}"
proof (rule ccontr)
  assume "edges g \<noteq> {}"
  then obtain x0 where "x0 \<in> {n. \<exists>m. (n, m) \<in> edges g}" by auto
  from wfE_min [OF finite_acyclic_wf [OF finite_edges assms(2)] this]
  obtain z where "z \<in> {n. \<exists>m. (n, m) \<in> edges g}"
    and min: "\<And>y. (y, z) \<in> edges g \<Longrightarrow> y \<notin> {n. \<exists>m. (n, m) \<in> edges g}" by blast
  then obtain m where z: "(z, m) \<in> edges g" by blast
  have zl: "z < length g" using z by (auto simp: edges_def)
  with z assms(1) have "in_edges_num (g ! z) \<noteq> 0" by (auto simp: sort_inv_def)
  with in_num_0 [of g z] zl assms(1) obtain y where "(y, z) \<in> edges g"
    by (auto simp: sort_inv_def)
  with min [of y] show False by blast
qed

lemma cycle_nodes:
  "\<forall>m\<in>{x. (x, x) \<in> r\<^sup>+}. \<exists>n\<in>{x. (x, x) \<in> r\<^sup>+}. (n, m) \<in> r"
proof
  fix m assume "m \<in> {x. (x, x) \<in> r\<^sup>+}"
  then obtain n where "(m, n) \<in> r\<^sup>*" "(n, m) \<in> r" by (auto dest: tranclD2)
  then show "\<exists>n\<in>{x. (x, x) \<in> r\<^sup>+}. (n, m) \<in> r" by (auto intro: rtrancl_into_trancl2)
qed

lemma test_dag_acyclic:
  assumes "graph_ok g"
  shows "test_dag g =
    Some (if acyclic (edges g) then OPH_WORKFLOW_EXIT_SUCCESS else OPH_WORKFLOW_EXIT_BAD_PARAM_ERROR)"
proof -
  let ?S = "filter (\<lambda>i. in_edges_num (g ! i) = 0) [0..<length g]"
  have "sort_inv g ?S" using assms by (auto simp: sort_inv_def)
  then obtain h where run: "top_sort g ?S = Some h" and inv: "sort_inv h []" and sub: "edges h \<subseteq> edges g"
    and c: "\<And>C. (\<forall>m\<in>C. \<exists>n\<in>C. (n, m) \<in> edges g) \<Longrightarrow> (\<forall>m\<in>C. \<exists>n\<in>C. (n, m) \<in> edges h)"
    using top_sort_run by metis
  have ok: "graph_ok h" using inv by (simp add: sort_inv_def)
  have "list_ex (\<lambda>n. in_edges_num n \<noteq> 0 \<or> out_edges_num n \<noteq> 0) h \<longleftrightarrow> edges h \<noteq> {}"
  proof
    assume "list_ex (\<lambda>n. in_edges_num n \<noteq> 0 \<or> out_edges_num n \<noteq> 0) h"
    then obtain x where "x < length h" "in_edges_num (h ! x) \<noteq> 0 \<or> out_edges_num (h ! x) \<noteq> 0"
      by (auto simp: list_ex_length)
    with in_num_0 [OF ok, of x] out_num_0 [OF ok, of x] show "edges h \<noteq> {}" by blast
  next
    assume "edges h \<noteq> {}"
    then obtain a b where "(a, b) \<in> edges h" by auto
    moreover from this have "b < length h" by (simp add: edges_def)
    ultimately show "list_ex (\<lambda>n. in_edges_num n \<noteq> 0 \<or> out_edges_num n \<noteq> 0) h"
      using in_num_0 [OF ok, of b] by (auto simp: list_ex_length)
  qed
  moreover have "edges h = {} \<longleftrightarrow> acyclic (edges g)"
  proof
    assume "edges h = {}"
    with c [OF cycle_nodes] show "acyclic (edges g)" by (auto simp: acyclic_def)
  next
    assume "acyclic (edges g)"
    then show "edges h = {}" using no_edges_if_acyclic [OF inv] acyclic_subset sub by blast
  qed
  ultimately show ?thesis using run by (simp add: test_dag_def)
qed

section \<open>Lemmas on indexing\<close>

text \<open>
  Between the tasks of an array: the index stored with a dependency is -1 or valid, and a task appears among
  the dependents of another as often as it depends on it.
\<close>

definition index_inv :: "nat \<Rightarrow> oph_workflow_task list \<Rightarrow> bool" where
  "index_inv N ts \<longleftrightarrow> N \<le> length ts \<and> (\<forall>i < N.
     d_task_index ` set (t_deps (ts ! i)) \<subseteq> {- 1..<int N} \<and>
     set (t_dependents_indexes (ts ! i)) \<subseteq> {0..<int N} \<and>
     (\<forall>k < N. count (mset (t_dependents_indexes (ts ! k))) (int i) =
              count (mset (map d_task_index (t_deps (ts ! i)))) (int k)))"

definition same_deps :: "oph_workflow_task list \<Rightarrow> oph_workflow_task list \<Rightarrow> bool" where
  "same_deps ts ts' \<longleftrightarrow> length ts' = length ts \<and>
     (\<forall>x. t_name (ts' ! x) = t_name (ts ! x) \<and> t_arguments (ts' ! x) = t_arguments (ts ! x) \<and>
          map d_task_name (t_deps (ts' ! x)) = map d_task_name (t_deps (ts ! x)))"

lemma find_name_Some:
  "find_name n ts k = Some (Some j) \<Longrightarrow> k \<le> j \<and> j - k < length ts \<and> t_name (ts ! (j - k)) = Some n"
proof (induction n ts k rule: find_name.induct)
  case (2 name t ts k)
  show ?case
  proof (cases "t_name t = Some name")
    case True
    then show ?thesis using 2 by auto
  next
    case False
    with "2.prems" have "find_name name ts (Suc k) = Some (Some j)" by (auto split: option.splits if_splits)
    with "2.IH" False "2.prems" have "Suc k \<le> j \<and> j - Suc k < length ts \<and> t_name (ts ! (j - Suc k)) = Some name"
      by (auto split: option.splits if_splits)
    then show ?thesis by (auto simp: nth_Cons' Suc_diff_le)
  qed
qed simp

lemma index_step:
  assumes "index_inv N ts" and "i < N" and "j < length (t_deps (ts ! i))" and "k < N"
    and "d_task_index (t_deps (ts ! i) ! j) = - 1"
    and "ts' = add_dependent k (int i) (set_dep_index i j (int k) ts)"
  shows "index_inv N ts'" and "same_deps ts ts'"
    and "\<forall>x. map d_task_index (t_deps (ts' ! x)) =
      (if x = i then (map d_task_index (t_deps (ts ! i)))[j := int k] else map d_task_index (t_deps (ts ! x)))"
proof -
  have len: "i < length ts" "k < length ts" "N \<le> length ts" using assms(1,2,4) by (auto simp: index_inv_def)
  have deps: "map d_task_index (t_deps (ts' ! x)) =
      (if x = i then (map d_task_index (t_deps (ts ! i)))[j := int k] else map d_task_index (t_deps (ts ! x)))"
    and names: "t_name (ts' ! x) = t_name (ts ! x)" "t_arguments (ts' ! x) = t_arguments (ts ! x)"
      "map d_task_name (t_deps (ts' ! x)) = map d_task_name (t_deps (ts ! x))"
    and dependents: "t_dependents_indexes (ts' ! x) =
      (if x = k then t_dependents_indexes (ts ! k) @ [int i] else t_dependents_indexes (ts ! x))" for x
    using len assms(3)
    by (auto simp: assms(6) add_dependent_def set_dep_index_def nth_update_if map_update
        intro!: nth_equalityI)
  show "same_deps ts ts'"
    unfolding same_deps_def using names by (simp add: assms(6) add_dependent_def set_dep_index_def)
  show "\<forall>x. map d_task_index (t_deps (ts' ! x)) =
      (if x = i then (map d_task_index (t_deps (ts ! i)))[j := int k] else map d_task_index (t_deps (ts ! x)))"
    using deps by blast
  have cdep: "count (mset ((map d_task_index (t_deps (ts ! i)))[j := int k])) (int y) =
      count (mset (map d_task_index (t_deps (ts ! i)))) (int y) + (if y = k then 1 else 0)" for y
    using assms(3,5) by (simp add: mset_update del: mset_map)
  show "index_inv N ts'"
    unfolding index_inv_def
  proof (intro conjI allI impI)
    show "N \<le> length ts'" using len(3) by (simp add: assms(6) add_dependent_def set_dep_index_def)
    fix x assume x: "x < N"
    have "d_task_index ` set (t_deps (ts' ! x)) = set (map d_task_index (t_deps (ts' ! x)))" by simp
    also have "\<dots> \<subseteq> {- 1..<int N}"
    proof -
      have old: "set (map d_task_index (t_deps (ts ! y))) \<subseteq> {- 1..<int N}" if "y < N" for y
        using assms(1) that by (simp add: index_inv_def)
      have "set ((map d_task_index (t_deps (ts ! i)))[j := int k]) \<subseteq> {- 1..<int N}"
        using set_update_subset_insert [of "map d_task_index (t_deps (ts ! i))" j "int k"]
          old [OF assms(2)] assms(4) by fastforce
      then show ?thesis unfolding deps using old [OF x] by (auto simp del: set_map)
    qed
    finally show "d_task_index ` set (t_deps (ts' ! x)) \<subseteq> {- 1..<int N}" .
    show "set (t_dependents_indexes (ts' ! x)) \<subseteq> {0..<int N}"
      using assms(1,2) x by (auto simp: dependents index_inv_def)
    fix y assume y: "y < N"
    have "count (mset (t_dependents_indexes (ts ! y))) (int x) =
        count (mset (map d_task_index (t_deps (ts ! x)))) (int y)"
      using assms(1) x y by (simp add: index_inv_def)
    then show "count (mset (t_dependents_indexes (ts' ! y))) (int x) =
        count (mset (map d_task_index (t_deps (ts' ! x)))) (int y)"
      unfolding deps dependents using cdep [of y] by (auto simp del: mset_map)
  qed
qed

lemma same_deps_trans: "same_deps a b \<Longrightarrow> same_deps b c \<Longrightarrow> same_deps a c"
  by (simp add: same_deps_def)

lemma same_deps_length: "same_deps a b \<Longrightarrow> length (t_deps (b ! x)) = length (t_deps (a ! x))"
  by (metis length_map same_deps_def)

text \<open>
  A successful run of the inner loop gives every remaining dependency of task \<open>i\<close> the index of a task
  with its name, and changes no other dependency.
\<close>

lemma index_deps_run:
  assumes "index_deps N i js ts = Some (OPH_WORKFLOW_EXIT_SUCCESS, ts')" and "index_inv N ts" and "i < N"
    and "\<forall>j\<in>set js. j < length (t_deps (ts ! i)) \<and> d_task_index (t_deps (ts ! i) ! j) = - 1" and "distinct js"
  shows "index_inv N ts' \<and> same_deps ts ts' \<and>
    (\<forall>x. x \<noteq> i \<longrightarrow> map d_task_index (t_deps (ts' ! x)) = map d_task_index (t_deps (ts ! x))) \<and>
    (\<forall>j < length (t_deps (ts ! i)). j \<notin> set js \<longrightarrow>
       d_task_index (t_deps (ts' ! i) ! j) = d_task_index (t_deps (ts ! i) ! j)) \<and>
    (\<forall>j\<in>set js. \<exists>k < N. d_task_index (t_deps (ts' ! i) ! j) = int k \<and>
       t_name (ts ! k) = d_task_name (t_deps (ts ! i) ! j) \<and> d_task_name (t_deps (ts ! i) ! j) \<noteq> None)"
  using assms
proof (induction js arbitrary: ts)
  case Nil
  then show ?case by (simp add: same_deps_def)
next
  case (Cons j js)
  have j: "j < length (t_deps (ts ! i))" and m: "d_task_index (t_deps (ts ! i) ! j) = - 1" and "j \<notin> set js"
    using Cons.prems(4,5) by auto
  from Cons.prems(1) obtain dn k where dn: "d_task_name (t_deps (ts ! i) ! j) = Some dn"
    and f: "find_name dn (take N ts) 0 = Some (Some k)"
    and r: "index_deps N i js (add_dependent k (int i) (set_dep_index i j (int k) ts)) =
      Some (OPH_WORKFLOW_EXIT_SUCCESS, ts')"
    by (auto split: option.splits if_splits)
  have k: "k < N" and kn: "t_name (ts ! k) = Some dn" using find_name_Some [OF f] by auto
  define ts1 where "ts1 = add_dependent k (int i) (set_dep_index i j (int k) ts)"
  note st = index_step [OF Cons.prems(2,3) j k m ts1_def]
  have len: "length (t_deps (ts1 ! x)) = length (t_deps (ts ! x))" for x using same_deps_length [OF st(2)] .
  have idx: "d_task_index (t_deps (ts1 ! i) ! a) = (if a = j then int k else d_task_index (t_deps (ts ! i) ! a))"
    if "a < length (t_deps (ts ! i))" for a
    using arg_cong [OF st(3) [rule_format, of i], of "\<lambda>l. l ! a"] that len j by (simp add: nth_list_update)
  have nam: "d_task_name (t_deps (ts1 ! i) ! a) = d_task_name (t_deps (ts ! i) ! a)"
    if "a < length (t_deps (ts ! i))" for a
    using st(2) that len unfolding same_deps_def by (metis length_map nth_map)
  have tn: "t_name (ts1 ! x) = t_name (ts ! x)" for x using st(2) by (simp add: same_deps_def)
  have pre: "\<forall>a\<in>set js. a < length (t_deps (ts1 ! i)) \<and> d_task_index (t_deps (ts1 ! i) ! a) = - 1"
    using Cons.prems(4) len idx \<open>j \<notin> set js\<close> by auto
  note ih = Cons.IH [OF r [folded ts1_def] st(1) Cons.prems(3) pre]
  have d: "distinct js" using Cons.prems(5) by simp
  show ?case
  proof (intro conjI)
    show "index_inv N ts'" and "same_deps ts ts'" using ih [OF d] st(2) same_deps_trans by blast+
    show "\<forall>x. x \<noteq> i \<longrightarrow> map d_task_index (t_deps (ts' ! x)) = map d_task_index (t_deps (ts ! x))"
      using ih [OF d] st(3) by auto
    show "\<forall>a < length (t_deps (ts ! i)). a \<notin> set (j # js) \<longrightarrow>
        d_task_index (t_deps (ts' ! i) ! a) = d_task_index (t_deps (ts ! i) ! a)"
      using ih [OF d] idx len by auto
    show "\<forall>a\<in>set (j # js). \<exists>k < N. d_task_index (t_deps (ts' ! i) ! a) = int k \<and>
        t_name (ts ! k) = d_task_name (t_deps (ts ! i) ! a) \<and> d_task_name (t_deps (ts ! i) ! a) \<noteq> None"
    proof
      fix a assume a: "a \<in> set (j # js)"
      show "\<exists>k < N. d_task_index (t_deps (ts' ! i) ! a) = int k \<and>
        t_name (ts ! k) = d_task_name (t_deps (ts ! i) ! a) \<and> d_task_name (t_deps (ts ! i) ! a) \<noteq> None"
      proof (cases "a = j")
        case True
        have "d_task_index (t_deps (ts' ! i) ! j) = d_task_index (t_deps (ts1 ! i) ! j)"
          using ih [OF d] j len \<open>j \<notin> set js\<close> by simp
        then show ?thesis using True idx [OF j] k kn dn by auto
      next
        case False
        then show ?thesis using a ih [OF d] nam tn Cons.prems(4) by (metis list.set_intros(2) set_ConsD)
      qed
    qed
  qed
qed

lemma index_tasks_run:
  assumes "index_tasks N is ts = Some (OPH_WORKFLOW_EXIT_SUCCESS, ts')" and "index_inv N ts" and "distinct is"
    and "\<forall>i\<in>set is. i < N \<and> (\<forall>d\<in>set (t_deps (ts ! i)). d_task_index d = - 1)"
  shows "index_inv N ts' \<and> same_deps ts ts' \<and>
    (\<forall>x. x \<notin> set is \<longrightarrow> map d_task_index (t_deps (ts' ! x)) = map d_task_index (t_deps (ts ! x))) \<and>
    (\<forall>i\<in>set is. \<forall>j < length (t_deps (ts ! i)). \<exists>k < N. d_task_index (t_deps (ts' ! i) ! j) = int k \<and>
       t_name (ts ! k) = d_task_name (t_deps (ts ! i) ! j) \<and> d_task_name (t_deps (ts ! i) ! j) \<noteq> None)"
  using assms
proof (induction "is" arbitrary: ts)
  case Nil
  then show ?case by (simp add: same_deps_def)
next
  case (Cons i "is")
  from Cons.prems(1) obtain ts1 where
    r1: "index_deps N i [0..<length (t_deps (ts ! i))] ts = Some (OPH_WORKFLOW_EXIT_SUCCESS, ts1)"
    and r2: "index_tasks N is ts1 = Some (OPH_WORKFLOW_EXIT_SUCCESS, ts')"
    by (auto split: option.splits wf_code.splits)
  have d: "distinct is" "i \<notin> set is" "i < N" using Cons.prems(3,4) by auto
  have one: "index_inv N ts1 \<and> same_deps ts ts1 \<and>
    (\<forall>x. x \<noteq> i \<longrightarrow> map d_task_index (t_deps (ts1 ! x)) = map d_task_index (t_deps (ts ! x))) \<and>
    (\<forall>j < length (t_deps (ts ! i)). \<exists>k < N. d_task_index (t_deps (ts1 ! i) ! j) = int k \<and>
       t_name (ts ! k) = d_task_name (t_deps (ts ! i) ! j) \<and> d_task_name (t_deps (ts ! i) ! j) \<noteq> None)"
    using index_deps_run [OF r1 Cons.prems(2) d(3)] Cons.prems(4) by auto
  have pre: "\<forall>x\<in>set is. x < N \<and> (\<forall>d\<in>set (t_deps (ts1 ! x)). d_task_index d = - 1)"
  proof
    fix x assume x: "x \<in> set is"
    then have "map d_task_index (t_deps (ts1 ! x)) = map d_task_index (t_deps (ts ! x))"
      using one d(2) by metis
    then have "d_task_index ` set (t_deps (ts1 ! x)) = d_task_index ` set (t_deps (ts ! x))"
      by (metis image_set)
    moreover have "d_task_index ` set (t_deps (ts ! x)) \<subseteq> {- 1}" using Cons.prems(4) x by auto
    ultimately show "x < N \<and> (\<forall>d\<in>set (t_deps (ts1 ! x)). d_task_index d = - 1)"
      using Cons.prems(4) x by auto
  qed
  note rest = Cons.IH [OF r2 conjunct1 [OF one] d(1) pre]
  have nam: "t_name (ts1 ! x) = t_name (ts ! x)" "length (t_deps (ts1 ! x)) = length (t_deps (ts ! x))"
    "map d_task_name (t_deps (ts1 ! x)) = map d_task_name (t_deps (ts ! x))" for x
    using one same_deps_length by (auto simp: same_deps_def)
  have dn: "d_task_name (t_deps (ts1 ! x) ! j) = d_task_name (t_deps (ts ! x) ! j)"
    if "j < length (t_deps (ts ! x))" for x j
    using nam(2,3) [of x] that by (metis nth_map)
  show ?case
  proof (intro conjI)
    show "index_inv N ts'" and "same_deps ts ts'" using rest one same_deps_trans by blast+
    show "\<forall>x. x \<notin> set (i # is) \<longrightarrow> map d_task_index (t_deps (ts' ! x)) = map d_task_index (t_deps (ts ! x))"
      using rest one by auto
    show "\<forall>x\<in>set (i # is). \<forall>j < length (t_deps (ts ! x)). \<exists>k < N. d_task_index (t_deps (ts' ! x) ! j) = int k \<and>
       t_name (ts ! k) = d_task_name (t_deps (ts ! x) ! j) \<and> d_task_name (t_deps (ts ! x) ! j) \<noteq> None"
    proof (intro ballI allI impI)
      fix x j assume x: "x \<in> set (i # is)" and j: "j < length (t_deps (ts ! x))"
      show "\<exists>k < N. d_task_index (t_deps (ts' ! x) ! j) = int k \<and>
        t_name (ts ! k) = d_task_name (t_deps (ts ! x) ! j) \<and> d_task_name (t_deps (ts ! x) ! j) \<noteq> None"
      proof (cases "x = i")
        case True
        have "map d_task_index (t_deps (ts' ! i)) = map d_task_index (t_deps (ts1 ! i))"
          using rest d(2) by blast
        then have "d_task_index (t_deps (ts' ! i) ! j) = d_task_index (t_deps (ts1 ! i) ! j)"
          using j True nam(2) by (metis length_map nth_map)
        then show ?thesis using one j True by auto
      next
        case False
        with x have "x \<in> set is" by simp
        then have "\<exists>k < N. d_task_index (t_deps (ts' ! x) ! j) = int k \<and>
            t_name (ts1 ! k) = d_task_name (t_deps (ts1 ! x) ! j) \<and> d_task_name (t_deps (ts1 ! x) ! j) \<noteq> None"
          using rest j nam(2) by simp
        then show ?thesis using dn [OF j] nam(1) by simp
      qed
    qed
  qed
qed

text \<open>The dependencies of a workflow as a relation on the tasks, by their names.\<close>

definition dep_rel :: "nat \<Rightarrow> oph_workflow_task list \<Rightarrow> (nat \<times> nat) set" where
  "dep_rel N ts = {(k, i). k < N \<and> i < N \<and> t_name (ts ! k) \<noteq> None \<and>
     t_name (ts ! k) \<in> d_task_name ` set (t_deps (ts ! i))}"

text \<open>
  The tasks as the parser of a workflow leaves them: no task knows its dependents. The indexes of the dependencies are not looked at, for
  the indexing sets all of them; the proofs start from the value \<open>-1\<close>.
\<close>

definition not_indexed :: "nat \<Rightarrow> oph_workflow_task list \<Rightarrow> bool" where
  [code_defs]: "not_indexed N ts \<longleftrightarrow> N \<le> length ts \<and> list_all (\<lambda>t. t_dependents_indexes t = []) (take N ts)"

definition unset_indexes :: "nat \<Rightarrow> oph_workflow_task list \<Rightarrow> bool" where
  "unset_indexes N ts \<longleftrightarrow> not_indexed N ts \<and> (\<forall>i < N. \<forall>d\<in>set (t_deps (ts ! i)). d_task_index d = - 1)"

lemma unset_indexesD:
  "unset_indexes N ts \<Longrightarrow> i < N \<Longrightarrow> t_dependents_indexes (ts ! i) = [] \<and> (\<forall>d\<in>set (t_deps (ts ! i)). d_task_index d = - 1)"
  unfolding unset_indexes_def not_indexed_def list_all_length by auto

lemma count_image_const:
  "\<forall>x\<in>set xs. f x = c \<Longrightarrow> count (mset (map f xs)) y = (if y = c then length xs else 0)"
  by (induction xs) auto

lemma unset_indexes_inv:
  assumes "unset_indexes N ts"
  shows "index_inv N ts"
  unfolding index_inv_def
proof (intro conjI allI impI)
  show "N \<le> length ts" using assms by (simp add: unset_indexes_def not_indexed_def)
  fix i assume i: "i < N"
  show "d_task_index ` set (t_deps (ts ! i)) \<subseteq> {- 1..<int N}"
    and "set (t_dependents_indexes (ts ! i)) \<subseteq> {0..<int N}"
    using unset_indexesD [OF assms i] by auto
  fix k assume k: "k < N"
  have "count (mset (map d_task_index (t_deps (ts ! i)))) (int k) = 0"
    using count_image_const [of "t_deps (ts ! i)" d_task_index "- 1"] unset_indexesD [OF assms i] by simp
  then show "count (mset (t_dependents_indexes (ts ! k))) (int i) =
      count (mset (map d_task_index (t_deps (ts ! i)))) (int k)"
    using unset_indexesD [OF assms k] by simp
qed

lemma indexing_run_unset:
  assumes "oph_workflow_indexing ts N = Some (OPH_WORKFLOW_EXIT_SUCCESS, ts')" and "unset_indexes N ts"
  shows "index_inv N ts'" and "same_deps ts ts'" and "1 \<le> N"
    and "i < N \<Longrightarrow> j < length (t_deps (ts ! i)) \<Longrightarrow> \<exists>k < N. d_task_index (t_deps (ts' ! i) ! j) = int k \<and>
       t_name (ts ! k) = d_task_name (t_deps (ts ! i) ! j) \<and> d_task_name (t_deps (ts ! i) ! j) \<noteq> None"
proof -
  have r: "index_tasks N [0..<N] ts = Some (OPH_WORKFLOW_EXIT_SUCCESS, ts')" and "1 \<le> N"
    using assms(1) by (auto simp: oph_workflow_indexing_def split: if_splits)
  have "\<forall>i\<in>set [0..<N]. i < N \<and> (\<forall>d\<in>set (t_deps (ts ! i)). d_task_index d = - 1)"
    using unset_indexesD [OF assms(2)] by auto
  note run = index_tasks_run [OF r unset_indexes_inv [OF assms(2)] distinct_upt this]
  show "index_inv N ts'" and "same_deps ts ts'" and "1 \<le> N" using run \<open>1 \<le> N\<close> by auto
  show "\<exists>k < N. d_task_index (t_deps (ts' ! i) ! j) = int k \<and>
       t_name (ts ! k) = d_task_name (t_deps (ts ! i) ! j) \<and> d_task_name (t_deps (ts ! i) ! j) \<noteq> None"
    if "i < N" "j < length (t_deps (ts ! i))"
    using run that by simp
qed

text \<open>The indexing with the indexes at the positions \<open>A\<close> forgotten.\<close>

definition forget_deps :: "nat set \<Rightarrow> oph_workflow_task \<Rightarrow> oph_workflow_task" where
  "forget_deps J t = t\<lparr>t_deps := map (\<lambda>j. if j \<in> J then (t_deps t ! j)\<lparr>d_task_index := - 1\<rparr> else t_deps t ! j) [0..<length (t_deps t)]\<rparr>"

definition forget :: "(nat \<Rightarrow> nat set) \<Rightarrow> oph_workflow_task list \<Rightarrow> oph_workflow_task list" where
  "forget A ts = map (\<lambda>i. forget_deps (A i) (ts ! i)) [0..<length ts]"

lemma forget_deps_simps [simp]:
  "t_name (forget_deps J t) = t_name t" "t_arguments (forget_deps J t) = t_arguments t"
  "t_dependents_indexes (forget_deps J t) = t_dependents_indexes t" "length (t_deps (forget_deps J t)) = length (t_deps t)"
  "map d_task_name (t_deps (forget_deps J t)) = map d_task_name (t_deps t)"
  by (auto simp: forget_deps_def intro: nth_equalityI)

lemma forget_deps_nth:
  "j < length (t_deps t) \<Longrightarrow> t_deps (forget_deps J t) ! j = (if j \<in> J then (t_deps t ! j)\<lparr>d_task_index := - 1\<rparr> else t_deps t ! j)"
  by (simp add: forget_deps_def)

lemma forget_deps_none:
  assumes "\<forall>j < length (t_deps t). j \<notin> J"
  shows "forget_deps J t = t"
proof -
  have "map (\<lambda>j. if j \<in> J then (t_deps t ! j)\<lparr>d_task_index := - 1\<rparr> else t_deps t ! j) [0..<length (t_deps t)] = t_deps t"
    using assms by (intro nth_equalityI) auto
  then show ?thesis by (simp add: forget_deps_def)
qed

lemma forget_nth [simp]: "i < length ts \<Longrightarrow> forget A ts ! i = forget_deps (A i) (ts ! i)" "length (forget A ts) = length ts"
  by (simp_all add: forget_def)

lemma forget_none: "\<forall>i < length ts. \<forall>j < length (t_deps (ts ! i)). j \<notin> A i \<Longrightarrow> forget A ts = ts"
  by (intro nth_equalityI) (simp_all add: forget_deps_none)

lemma find_name_names: "map t_name ts = map t_name us \<Longrightarrow> find_name n ts k = find_name n us k"
proof (induction n ts k arbitrary: us rule: find_name.induct)
  case (2 n t ts k)
  then obtain u us' where "us = u # us'" "t_name u = t_name t" "map t_name ts = map t_name us'" by auto
  with 2 show ?case by (auto split: option.splits)
qed simp

lemma nth_beyond: "length xs = length ys \<Longrightarrow> length xs \<le> n \<Longrightarrow> xs ! n = ys ! n"
  by (induction xs ys arbitrary: n rule: list_induct2) (auto simp: nth_Cons split: nat.splits)

lemma forget_names: "map t_name (take N (forget A ts)) = map t_name (take N ts)"
  by (rule nth_equalityI) simp_all

lemma forget_set_dep:
  assumes "i < length ts" and "j < length (t_deps (ts ! i))"
  shows "set_dep_index i j k (forget A ts) = forget (A(i := A i - {j})) (set_dep_index i j k ts)"
proof (rule nth_equalityI)
  fix x assume "x < length (set_dep_index i j k (forget A ts))"
  then have x: "x < length ts" by (simp add: set_dep_index_def)
  have "(t_deps (forget_deps (A i) (ts ! i)))[j := (t_deps (forget_deps (A i) (ts ! i)) ! j)\<lparr>d_task_index := k\<rparr>] =
      t_deps (forget_deps (A i - {j}) ((ts ! i)\<lparr>t_deps := (t_deps (ts ! i))[j := (t_deps (ts ! i) ! j)\<lparr>d_task_index := k\<rparr>]\<rparr>))"
    using assms(2) by (intro nth_equalityI) (auto simp: forget_deps_nth nth_list_update)
  then show "set_dep_index i j k (forget A ts) ! x = forget (A(i := A i - {j})) (set_dep_index i j k ts) ! x"
    using x assms(1) by (cases "x = i") (simp_all add: set_dep_index_def nth_list_update forget_deps_def)
qed (simp add: set_dep_index_def)

lemma forget_add_dependent:
  assumes "k < length ts"
  shows "add_dependent k i (forget A ts) = forget A (add_dependent k i ts)"
proof (rule nth_equalityI)
  fix x assume "x < length (add_dependent k i (forget A ts))"
  then show "add_dependent k i (forget A ts) ! x = forget A (add_dependent k i ts) ! x"
    using assms by (cases "x = k") (simp_all add: add_dependent_def nth_list_update forget_deps_def)
qed (simp add: add_dependent_def)

lemma update_lengths:
  "length (set_dep_index i j k ts) = length ts" "length (t_deps (set_dep_index i j k ts ! x)) = length (t_deps (ts ! x))"
  "length (add_dependent k' i' ts) = length ts" "length (t_deps (add_dependent k' i' ts ! x)) = length (t_deps (ts ! x))"
proof -
  show "length (t_deps (set_dep_index i j k ts ! x)) = length (t_deps (ts ! x))"
    by (cases "i < length ts") (simp_all add: set_dep_index_def nth_list_update list_update_beyond)
  show "length (t_deps (add_dependent k' i' ts ! x)) = length (t_deps (ts ! x))"
    by (cases "k' < length ts") (simp_all add: add_dependent_def nth_list_update list_update_beyond)
qed (simp_all add: set_dep_index_def add_dependent_def)

lemma index_deps_forget:
  assumes "index_deps N i js ts = Some (OPH_WORKFLOW_EXIT_SUCCESS, ts')" and "i < length ts" and "N \<le> length ts"
    and "\<forall>j\<in>set js. j < length (t_deps (ts ! i))"
  shows "index_deps N i js (forget A ts) = Some (OPH_WORKFLOW_EXIT_SUCCESS, forget (A(i := A i - set js)) ts') \<and> length ts' = length ts \<and>
    (\<forall>x. length (t_deps (ts' ! x)) = length (t_deps (ts ! x)))"
  using assms
proof (induction js arbitrary: ts A)
  case (Cons j js)
  obtain dname name k where n: "d_task_name (t_deps (ts ! i) ! j) = Some dname" "t_name (ts ! i) = Some name" "dname \<noteq> name"
    and k: "find_name dname (take N ts) 0 = Some (Some k)"
    and r: "index_deps N i js (add_dependent k (int i) (set_dep_index i j (int k) ts)) = Some (OPH_WORKFLOW_EXIT_SUCCESS, ts')"
    using Cons.prems(1) by (auto split: option.splits if_splits)
  let ?ts = "add_dependent k (int i) (set_dep_index i j (int k) ts)"
  have kN: "k < length ts" using find_name_Some [OF k] Cons.prems(3) by simp
  have len: "length ?ts = length ts" "length (t_deps (?ts ! x)) = length (t_deps (ts ! x))" for x
    by (simp_all add: update_lengths)
  have "find_name dname (take N (forget A ts)) 0 = Some (Some k)" using k find_name_names [OF forget_names] by metis
  moreover have "d_task_name (t_deps (forget A ts ! i) ! j) = Some dname" "t_name (forget A ts ! i) = Some name"
    using n(1,2) Cons.prems(2,4) by (simp_all add: forget_deps_nth)
  moreover have "add_dependent k (int i) (set_dep_index i j (int k) (forget A ts)) = forget (A(i := A i - {j})) ?ts"
    using forget_set_dep [of i ts j "int k" A] forget_add_dependent [of k "set_dep_index i j (int k) ts" "int i"] Cons.prems(2,4) kN
    by (simp add: set_dep_index_def)
  moreover have "A i - {j} - set js = A i - set (j # js)" by auto
  moreover have "i < length ?ts" "N \<le> length ?ts" "\<forall>j\<in>set js. j < length (t_deps (?ts ! i))" using Cons.prems(2-4) len by simp_all
  note IH = Cons.IH [OF r this, of "A(i := A i - {j})", unfolded fun_upd_same fun_upd_upd]
  ultimately show ?case using IH len n(3) by (simp add: fun_upd_def)
qed simp

lemma index_tasks_forget:
  assumes "index_tasks N is ts = Some (OPH_WORKFLOW_EXIT_SUCCESS, ts')" and "N \<le> length ts" and "\<forall>i\<in>set is. i < N"
  shows "index_tasks N is (forget A ts) = Some (OPH_WORKFLOW_EXIT_SUCCESS,
      forget (\<lambda>i. if i \<in> set is then A i - {0..<length (t_deps (ts ! i))} else A i) ts') \<and>
    length ts' = length ts \<and> (\<forall>x. length (t_deps (ts' ! x)) = length (t_deps (ts ! x)))"
  using assms
proof (induction "is" arbitrary: ts A)
  case (Cons i "is")
  from Cons.prems(1) obtain ts1 where
    r1: "index_deps N i [0..<length (t_deps (ts ! i))] ts = Some (OPH_WORKFLOW_EXIT_SUCCESS, ts1)"
    and r2: "index_tasks N is ts1 = Some (OPH_WORKFLOW_EXIT_SUCCESS, ts')"
    by (auto split: option.splits wf_code.splits)
  let ?A = "A(i := A i - {0..<length (t_deps (ts ! i))})"
  have one: "index_deps N i [0..<length (t_deps (ts ! i))] (forget A ts) = Some (OPH_WORKFLOW_EXIT_SUCCESS, forget ?A ts1)"
    "length ts1 = length ts" "\<And>x. length (t_deps (ts1 ! x)) = length (t_deps (ts ! x))"
    using index_deps_forget [OF r1, of A] Cons.prems(2,3) by auto
  have "(\<lambda>x. if x \<in> set is then ?A x - {0..<length (t_deps (ts1 ! x))} else ?A x) =
      (\<lambda>x. if x \<in> set (i # is) then A x - {0..<length (t_deps (ts ! x))} else A x)"
    using one(3) by (auto simp: fun_eq_iff)
  then show ?case using Cons.IH [OF r2, of ?A] one Cons.prems(2,3) by (auto simp: fun_upd_def)
qed simp

lemma indexing_run:
  assumes "oph_workflow_indexing ts N = Some (OPH_WORKFLOW_EXIT_SUCCESS, ts')" and "not_indexed N ts"
  shows "index_inv N ts'" and "same_deps ts ts'" and "1 \<le> N"
    and "i < N \<Longrightarrow> j < length (t_deps (ts ! i)) \<Longrightarrow> \<exists>k < N. d_task_index (t_deps (ts' ! i) ! j) = int k \<and>
       t_name (ts ! k) = d_task_name (t_deps (ts ! i) ! j) \<and> d_task_name (t_deps (ts ! i) ! j) \<noteq> None"
proof -
  let ?A = "\<lambda>i. if i < N then UNIV else {}"
  have r: "index_tasks N [0..<N] ts = Some (OPH_WORKFLOW_EXIT_SUCCESS, ts')" and N: "1 \<le> N" "N \<le> length ts"
    using assms(1) by (auto simp: oph_workflow_indexing_def split: if_splits)
  note f = index_tasks_forget [OF r N(2), of ?A]
  have "forget (\<lambda>i. if i \<in> set [0..<N] then ?A i - {0..<length (t_deps (ts ! i))} else ?A i) ts' = ts'"
    using f by (intro forget_none) auto
  then have ix: "oph_workflow_indexing (forget ?A ts) N = Some (OPH_WORKFLOW_EXIT_SUCCESS, ts')"
    using f N by (simp add: oph_workflow_indexing_def)
  have "unset_indexes N (forget ?A ts)"
    using assms(2) N by (auto simp: unset_indexes_def not_indexed_def list_all_length in_set_conv_nth forget_deps_nth)
  note run = indexing_run_unset [OF ix this]
  have same: "t_name (forget ?A ts ! x) = t_name (ts ! x)" "t_arguments (forget ?A ts ! x) = t_arguments (ts ! x)"
    "map d_task_name (t_deps (forget ?A ts ! x)) = map d_task_name (t_deps (ts ! x))" if "x < length ts" for x using that by simp_all
  show "index_inv N ts'" and "1 \<le> N" by (rule run)+
  show "same_deps ts ts'" using run(2) same nth_beyond [of "forget ?A ts" ts]
    unfolding same_deps_def by (metis forget_nth(2) linorder_not_less)
  show "\<exists>k < N. d_task_index (t_deps (ts' ! i) ! j) = int k \<and>
       t_name (ts ! k) = d_task_name (t_deps (ts ! i) ! j) \<and> d_task_name (t_deps (ts ! i) ! j) \<noteq> None"
    if "i < N" "j < length (t_deps (ts ! i))"
    using run(4) [of i j] that N by (auto simp: forget_deps_nth)
qed

lemma indexed_edge:
  assumes "oph_workflow_indexing ts N = Some (OPH_WORKFLOW_EXIT_SUCCESS, ts')" and "not_indexed N ts"
    and "distinct (map t_name (take N ts))" and "k < N" and "i < N"
  shows "int k \<in> d_task_index ` set (t_deps (ts' ! i)) \<longleftrightarrow> (k, i) \<in> dep_rel N ts"
proof -
  note run = indexing_run [OF assms(1,2)]
  have len: "length (t_deps (ts' ! i)) = length (t_deps (ts ! i))" using same_deps_length [OF run(2)] .
  have inj: "k1 = k2" if "k1 < N" "k2 < N" "t_name (ts ! k1) = t_name (ts ! k2)" for k1 k2
    using assms(2,3) that by (auto simp: distinct_conv_nth not_indexed_def)
  show ?thesis
  proof
    assume "int k \<in> d_task_index ` set (t_deps (ts' ! i))"
    then obtain j where j: "j < length (t_deps (ts' ! i))" "d_task_index (t_deps (ts' ! i) ! j) = int k"
      by (auto simp: in_set_conv_nth)
    with run(4) [OF assms(5), of j] len have "t_name (ts ! k) = d_task_name (t_deps (ts ! i) ! j)"
      "d_task_name (t_deps (ts ! i) ! j) \<noteq> None" by auto
    with j(1) len assms(4,5) show "(k, i) \<in> dep_rel N ts" by (auto simp: dep_rel_def)
  next
    assume "(k, i) \<in> dep_rel N ts"
    then obtain j where j: "j < length (t_deps (ts ! i))" "t_name (ts ! k) = d_task_name (t_deps (ts ! i) ! j)"
      by (auto simp: dep_rel_def in_set_conv_nth)
    from run(4) [OF assms(5) j(1)] obtain k' where "k' < N" "d_task_index (t_deps (ts' ! i) ! j) = int k'"
      "t_name (ts ! k') = d_task_name (t_deps (ts ! i) ! j)" by blast
    with inj [OF assms(4)] j len show "int k \<in> d_task_index ` set (t_deps (ts' ! i))"
      by (metis image_eqI nth_mem)
  qed
qed

lemma indexed_graph:
  assumes "oph_workflow_indexing ts N = Some (OPH_WORKFLOW_EXIT_SUCCESS, ts')" and "not_indexed N ts"
    and "distinct (map t_name (take N ts))"
  shows "graph_ok (map make_node (take N ts'))" and "edges (map make_node (take N ts')) = dep_rel N ts"
proof -
  note run = indexing_run [OF assms(1,2)]
  have len: "N \<le> length ts'" using run(1) by (simp add: index_inv_def)
  have nonneg: "d_task_index d \<noteq> - 1" if "i < N" "d \<in> set (t_deps (ts' ! i))" for i d
    using run(4) [OF that(1)] that(2) same_deps_length [OF run(2), of i] by (fastforce simp: in_set_conv_nth)
  have nodes: "map make_node (take N ts') ! i = make_node (ts' ! i)" if "i < N" for i
    using that len by simp
  have l: "length (map make_node (take N ts')) = N" using len by simp
  have inv: "d_task_index ` set (t_deps (ts' ! i)) \<subseteq> {- 1..<int N}"
    "set (t_dependents_indexes (ts' ! i)) \<subseteq> {0..<int N}"
    "k < N \<Longrightarrow> count (mset (t_dependents_indexes (ts' ! k))) (int i) =
      count (mset (map d_task_index (t_deps (ts' ! i)))) (int k)" if "i < N" for i k
    using run(1) that by (auto simp: index_inv_def)
  have live: "live es = length es" if "- 1 \<notin> set es" for es
    using that by (induction es) (auto simp: live_def)
  show "graph_ok (map make_node (take N ts'))"
    unfolding graph_ok_def l
  proof (intro allI impI conjI)
    fix i assume i: "i < N"
    have "- 1 \<notin> set (t_dependents_indexes (ts' ! i))" using inv(2) [OF i] by fastforce
    then show "out_edges_num (map make_node (take N ts') ! i) =
        int (live (out_edges (map make_node (take N ts') ! i)))"
      using nodes [OF i] live by (simp add: make_node_def)
    have "- 1 \<notin> set (map d_task_index (t_deps (ts' ! i)))" using nonneg [OF i] by force
    from live [OF this] show "in_edges_num (map make_node (take N ts') ! i) =
        int (live (in_edges (map make_node (take N ts') ! i)))"
      using nodes [OF i] by (simp add: make_node_def)
    show "set (out_edges (map make_node (take N ts') ! i)) \<subseteq> {- 1..<int N}"
      and "set (in_edges (map make_node (take N ts') ! i)) \<subseteq> {- 1..<int N}"
      using inv(1,2) [OF i] nodes [OF i] by (auto simp: make_node_def)
    fix m assume m: "m < N"
    show "count (mset (out_edges (map make_node (take N ts') ! i))) (int m) =
        count (mset (in_edges (map make_node (take N ts') ! m))) (int i)"
      using inv(3) [OF m i] nodes [OF i] nodes [OF m] by (simp add: make_node_def)
  qed
  show "edges (map make_node (take N ts')) = dep_rel N ts"
  proof (intro set_eqI, clarify)
    fix k i
    have "int i \<in> set (t_dependents_indexes (ts' ! k)) \<longleftrightarrow> (k, i) \<in> dep_rel N ts" if "k < N" "i < N"
      using inv(3) [OF that(2,1)] indexed_edge [OF assms that]
      by (metis count_greater_zero_iff set_map set_mset_mset)
    then show "(k, i) \<in> edges (map make_node (take N ts')) \<longleftrightarrow> (k, i) \<in> dep_rel N ts"
      unfolding edges_def l using nodes by (auto simp: make_node_def dep_rel_def)
  qed
qed

lemma same_name_iff:
  "\<forall>y\<in>set (x # ys). y \<noteq> None \<Longrightarrow> same_name x ys = Some (x \<in> set ys)"
  by (induction ys) auto

lemma check_names_iff:
  "\<forall>x\<in>set xs. x \<noteq> None \<Longrightarrow>
   check_names xs = Some (if distinct xs then OPH_WORKFLOW_EXIT_SUCCESS else OPH_WORKFLOW_EXIT_TASK_NAME_ERROR)"
  by (induction xs) (auto simp: same_name_iff split: bool.splits)

lemma check_args_error: "check_args as b = Some (Inl e) \<Longrightarrow> e = OPH_WORKFLOW_EXIT_BAD_PARAM_ERROR"
  by (induction as b rule: check_args.induct) (auto split: option.splits if_splits)

lemma same_deps_names:
  assumes "same_deps ts ts'"
  shows "map t_name (take N ts') = map t_name (take N ts)"
    and "map t_arguments (take N ts') = map t_arguments (take N ts)"
  using assms by (auto simp: same_deps_def intro!: nth_equalityI)

text \<open>The indexing changes the indexes of the dependencies and the dependents only.\<close>

definition unlinked :: "oph_workflow_task \<Rightarrow> oph_workflow_task" where
  "unlinked t = t\<lparr>t_dependents_indexes := [], t_deps := map (\<lambda>d. d\<lparr>d_task_index := 0\<rparr>) (t_deps t)\<rparr>"

lemma map_update_same: "f x = f (xs ! i) \<Longrightarrow> map f (xs[i := x]) = map f xs"
  by (cases "i < length xs") (simp_all add: map_update list_update_same_conv list_update_beyond)

lemma unlinked_add_dependent: "map unlinked (add_dependent k i ts) = map unlinked ts"
  unfolding add_dependent_def by (rule map_update_same) (simp add: unlinked_def)

lemma unlinked_set_dep_index: "map unlinked (set_dep_index i j k ts) = map unlinked ts"
proof -
  let ?f = "\<lambda>d :: oph_workflow_dep. d\<lparr>d_task_index := 0\<rparr>"
  have same: "unlinked (t\<lparr>t_deps := ds\<rparr>) = unlinked t" if "map ?f ds = map ?f (t_deps t)" for t ds
    using that by (cases t) (simp add: unlinked_def)
  show ?thesis unfolding set_dep_index_def by (intro map_update_same same) simp
qed

lemma index_deps_unlinked: "index_deps N i js ts = Some (rc, ts') \<Longrightarrow> map unlinked ts' = map unlinked ts"
  by (induction N i js ts rule: index_deps.induct)
    (auto simp: unlinked_add_dependent unlinked_set_dep_index split: option.splits if_splits)

lemma index_tasks_unlinked: "index_tasks N is ts = Some (rc, ts') \<Longrightarrow> map unlinked ts' = map unlinked ts"
proof (induction N "is" ts rule: index_tasks.induct)
  case (2 N i "is" ts)
  obtain r u where u: "index_deps N i [0..<length (t_deps (ts ! i))] ts = Some (r, u)"
    using "2.prems" by (auto split: option.splits prod.splits)
  show ?case
  proof (cases "r = OPH_WORKFLOW_EXIT_SUCCESS")
    case True
    then show ?thesis using 2 u index_deps_unlinked [OF u] by simp
  next
    case False
    then have "ts' = u" using "2.prems" u by (cases r) simp_all
    then show ?thesis using index_deps_unlinked [OF u] by simp
  qed
qed simp

lemma indexing_unlinked: "oph_workflow_indexing ts N = Some (rc, ts') \<Longrightarrow> map unlinked ts' = map unlinked ts"
  by (auto simp: oph_workflow_indexing_def dest: index_tasks_unlinked split: if_splits)

lemma validate_success_iff:
  assumes "oph_workflow_indexing (w_tasks w) (w_tasks_num w) = Some (OPH_WORKFLOW_EXIT_SUCCESS, ts')"
    and "not_indexed (w_tasks_num w) (w_tasks w)"
    and "\<forall>t\<in>set (take (w_tasks_num w) (w_tasks w)). t_name t \<noteq> None"
  shows "oph_workflow_validate (w\<lparr>w_tasks := ts'\<rparr>) = Some OPH_WORKFLOW_EXIT_SUCCESS \<longleftrightarrow>
    distinct (map t_name (take (w_tasks_num w) (w_tasks w))) \<and>
    (\<exists>b. check_args (concat (map t_arguments (take (w_tasks_num w) (w_tasks w)))) 0 = Some (Inr b)) \<and>
    acyclic (dep_rel (w_tasks_num w) (w_tasks w))"
proof -
  note sd = indexing_run(2) [OF assms(1,2)]
  have len: "\<not> w_tasks_num w > length ts'"
    using sd assms(2) by (simp add: same_deps_def not_indexed_def)
  have cn: "check_names (map t_name (take (w_tasks_num w) (w_tasks w))) =
      Some (if distinct (map t_name (take (w_tasks_num w) (w_tasks w)))
            then OPH_WORKFLOW_EXIT_SUCCESS else OPH_WORKFLOW_EXIT_TASK_NAME_ERROR)"
    using assms(3) by (intro check_names_iff) auto
  show ?thesis
  proof (cases "distinct (map t_name (take (w_tasks_num w) (w_tasks w)))")
    case True
    have "test_dag (map make_node (take (w_tasks_num w) ts')) =
        Some (if acyclic (dep_rel (w_tasks_num w) (w_tasks w)) then OPH_WORKFLOW_EXIT_SUCCESS
              else OPH_WORKFLOW_EXIT_BAD_PARAM_ERROR)"
      using test_dag_acyclic indexed_graph [OF assms(1,2) True] by simp
    then show ?thesis
      using len cn True
      by (auto simp: oph_workflow_validate_def Let_def same_deps_names [OF sd]
          split: option.splits sum.splits if_splits dest: check_args_error)
  next
    case False
    then show ?thesis
      using len cn by (simp add: oph_workflow_validate_def Let_def same_deps_names [OF sd])
  qed
qed

section \<open>Properties\<close>

text \<open>
  C1: a workflow whose dependencies were resolved by \<open>oph_workflow_indexing\<close> passes
  \<open>oph_workflow_validate\<close> exactly when the names of its tasks are distinct, its arguments pass the check
  of reserved characters, and the dependencies between its tasks, by name, have no cycle. The test
  terminates for every graph and never leaves the arrays.\<close>

theorem oph_workflow_validate_iff_dag:
  assumes "oph_workflow_indexing (w_tasks w) (w_tasks_num w) = Some (OPH_WORKFLOW_EXIT_SUCCESS, ts')"
    and "not_indexed (w_tasks_num w) (w_tasks w)"
    and "\<forall>t\<in>set (take (w_tasks_num w) (w_tasks w)). t_name t \<noteq> None"
  shows "oph_workflow_validate (w\<lparr>w_tasks := ts'\<rparr>) = Some OPH_WORKFLOW_EXIT_SUCCESS \<longleftrightarrow>
    distinct (map t_name (take (w_tasks_num w) (w_tasks w))) \<and>
    (\<exists>b. check_args (concat (map t_arguments (take (w_tasks_num w) (w_tasks w)))) 0 = Some (Inr b)) \<and>
    acyclic (dep_rel (w_tasks_num w) (w_tasks w))"
  by (rule validate_success_iff [OF assms])

definition demo_dep :: "string \<Rightarrow> oph_workflow_dep" where
  [code_defs]: "demo_dep n = \<lparr>d_argument = None, d_order = None, d_task_name = Some n, d_task_index = - 1, d_type = None,
     d_filter = None, d_output_argument = None, d_output_order = None\<rparr>"

definition demo_workflow :: "oph_workflow_dep list \<Rightarrow> oph_workflow" where
  [code_defs]: "demo_workflow ds = empty_workflow
     \<lparr>w_tasks := [zero_task\<lparr>t_name := Some ''a'', t_deps := ds\<rparr>,
                 zero_task\<lparr>t_name := Some ''b'', t_deps := [demo_dep ''a'']\<rparr>, zero_task],
      w_tasks_num := 2\<rparr>"

definition demo_indexed :: "oph_workflow_task list" where
  [code_defs]: "demo_indexed =
     (case oph_workflow_indexing (w_tasks (demo_workflow [])) 2 of Some (_, ts) \<Rightarrow> ts | None \<Rightarrow> [])"

lemma demo_indexing:
  "oph_workflow_indexing (w_tasks (demo_workflow [])) 2 = Some (OPH_WORKFLOW_EXIT_SUCCESS, demo_indexed)"
  "not_indexed 2 (w_tasks (demo_workflow []))"
  "\<forall>t\<in>set (take 2 (w_tasks (demo_workflow []))). t_name t \<noteq> None"
  "w_tasks_num (demo_workflow []) = 2"
  by (simp_all add: code_defs eval_nat_numeral upt_rec)

theorem oph_workflow_validate_iff_dag_witness:
  "oph_workflow_validate ((demo_workflow [])\<lparr>w_tasks := demo_indexed\<rparr>) = Some OPH_WORKFLOW_EXIT_SUCCESS \<and>
   acyclic (dep_rel 2 (w_tasks (demo_workflow [])))"
proof -
  have "oph_workflow_validate ((demo_workflow [])\<lparr>w_tasks := demo_indexed\<rparr>) = Some OPH_WORKFLOW_EXIT_SUCCESS"
    by code_simp
  with oph_workflow_validate_iff_dag [of "demo_workflow []" demo_indexed] demo_indexing show ?thesis by simp
qed

text \<open>
  Remark: a workflow that was indexed and validated has at least one task to start with: \<open>oph_workflow_init\<close>
  succeeds and returns the indexes of the tasks without dependencies, in increasing order.\<close>

theorem oph_workflow_init_nonempty:
  assumes "oph_workflow_indexing ts N = Some (OPH_WORKFLOW_EXIT_SUCCESS, ts')" and "not_indexed N ts"
    and "acyclic (dep_rel N ts)"
  shows "\<exists>l. oph_workflow_init ts' N = (OPH_WORKFLOW_EXIT_SUCCESS, l) \<and> l \<noteq> [] \<and> sorted l \<and>
    set l = {i. i < N \<and> t_deps (ts ! i) = []}"
proof -
  note run = indexing_run [OF assms(1,2)]
  have fin: "finite (dep_rel N ts)"
    by (rule finite_subset [of _ "{..<N} \<times> {..<N}"]) (auto simp: dep_rel_def)
  have "0 \<in> {..<N}" using run(3) by simp
  from wfE_min [OF finite_acyclic_wf [OF fin assms(3)] this] obtain z where z: "z < N"
    and min: "\<And>y. (y, z) \<in> dep_rel N ts \<Longrightarrow> y \<notin> {..<N}" by blast
  have "t_deps (ts ! z) = []"
  proof (rule ccontr)
    assume "t_deps (ts ! z) \<noteq> []"
    then have "0 < length (t_deps (ts ! z))" by simp
    from run(4) [OF z this] obtain k where "k < N" "t_name (ts ! k) = d_task_name (t_deps (ts ! z) ! 0)"
      "d_task_name (t_deps (ts ! z) ! 0) \<noteq> None" by blast
    with \<open>0 < length (t_deps (ts ! z))\<close> z have "(k, z) \<in> dep_rel N ts" by (auto simp: dep_rel_def)
    with min \<open>k < N\<close> show False by blast
  qed
  moreover have e: "t_deps (ts' ! i) = [] \<longleftrightarrow> t_deps (ts ! i) = []" for i
    using same_deps_length [OF run(2), of i] by (metis length_0_conv)
  ultimately have "z \<in> set (filter (\<lambda>i. t_deps (ts' ! i) = []) [0..<N])" using z by simp
  then have "filter (\<lambda>i. t_deps (ts' ! i) = []) [0..<N] \<noteq> []" by fastforce
  then have "oph_workflow_init ts' N = (OPH_WORKFLOW_EXIT_SUCCESS, filter (\<lambda>i. t_deps (ts' ! i) = []) [0..<N])"
    using run(3) by (simp add: oph_workflow_init_def Let_def)
  then show ?thesis
    using \<open>filter _ [0..<N] \<noteq> []\<close> by (auto simp: e sorted_wrt_filter)
qed

theorem oph_workflow_init_nonempty_witness: "oph_workflow_init demo_indexed 2 = (OPH_WORKFLOW_EXIT_SUCCESS, [0])"
proof -
  have "dep_rel 2 (w_tasks (demo_workflow [])) = {(0, 1)}"
    by (auto simp: dep_rel_def demo_workflow_def demo_dep_def zero_task_def empty_workflow_def less_2_cases_iff)
  moreover have "acyclic {(0 :: nat, 1)}" 
    by (rule acyclic_subset [OF wf_acyclic [OF wf_less_than]]) simp
  ultimately have "acyclic (dep_rel 2 (w_tasks (demo_workflow [])))" by simp
  from oph_workflow_init_nonempty [OF demo_indexing(1,2) this] obtain l where
    l: "oph_workflow_init demo_indexed 2 = (OPH_WORKFLOW_EXIT_SUCCESS, l)" by blast
  have "oph_workflow_init demo_indexed 2 = (OPH_WORKFLOW_EXIT_SUCCESS, [0])" by code_simp
  then show ?thesis using l by simp
qed

text \<open>
  Remark: the counter of open brackets is not reset between the values: a value with an unclosed bracket makes
  \<open>oph_workflow_validate\<close> accept a separator in a later value, which it refuses otherwise.\<close>

theorem validate_bracket_leak:
  "check_args [\<lparr>a_key = ''k'', a_value = Some ''a;b'', a_list = []\<rparr>] 0 =
     Some (Inl OPH_WORKFLOW_EXIT_BAD_PARAM_ERROR) \<and>
   check_args [\<lparr>a_key = ''j'', a_value = Some ''['', a_list = []\<rparr>,
               \<lparr>a_key = ''k'', a_value = Some ''a;b'', a_list = []\<rparr>] 0 = Some (Inr 1)"
  by simp

end
