(* ===== verification/Workflow_Flow.thy ===== *)
theory Workflow_Flow
  imports Workflow_Graph "HOL-Library.Monad_Syntax"
begin

text \<open>
  The second half of \<^verbatim>\<open>src/src/oph_workflow/oph_workflow_setup.c\<close>: reachability between tasks
  (\<open>oph_workflow_is_child_of\<close>), the matching of the flow control operators (\<open>workflow_number_of\<close>,
  \<open>oph_workflow_validate_fco\<close>) and the basic variables of a workflow. The recursions follow the dependents of a
  task, without a record of the visited ones; they carry the fuel of their depth and are \<open>None\<close> when it
  runs out. On an acyclic workflow the number of tasks is enough.
\<close>

section \<open>Reachability\<close>

function (sequential) oph_workflow_is_child_of :: "nat \<Rightarrow> oph_workflow \<Rightarrow> int \<Rightarrow> int \<Rightarrow> bool option"
  and any_child :: "nat \<Rightarrow> oph_workflow \<Rightarrow> int \<Rightarrow> int list \<Rightarrow> int \<Rightarrow> bool option" where
  "oph_workflow_is_child_of 0 w p c = None"
| "oph_workflow_is_child_of (Suc fuel) w p c =
     (if p \<ge> int (w_tasks_num w) \<or> c < 0 \<or> c \<ge> int (w_tasks_num w) then Some False
      else if p < 0 \<or> p = c then Some True
      else any_child fuel w p (t_dependents_indexes (w_tasks w ! nat p)) c)"
| "any_child fuel w p [] c = Some False"
| "any_child fuel w p (j # js) c =
     (if j = p then any_child fuel w p js c
      else (case oph_workflow_is_child_of fuel w j c of
              None \<Rightarrow> None
            | Some True \<Rightarrow> Some True
            | Some False \<Rightarrow> any_child fuel w p js c))"
  by pat_completeness auto
termination
  by (relation "measures [\<lambda>x. case x of Inl (f, _) \<Rightarrow> f | Inr (f, _) \<Rightarrow> f,
    \<lambda>x. case x of Inl _ \<Rightarrow> 0 | Inr (_, _, _, js, _) \<Rightarrow> Suc (length js)]") auto

text \<open>\<open>oph_gparent_of\<close> climbs the parents; \<open>None\<close> when the fuel ends or an index is out of the array.\<close>

fun climb :: "nat \<Rightarrow> oph_workflow_task list \<Rightarrow> int \<Rightarrow> int option" where
  "climb 0 tasks k = None"
| "climb (Suc fuel) tasks k =
     (if k < 0 \<or> nat k \<ge> length tasks then None
      else (let p = t_parent (tasks ! nat k) in if p \<ge> 0 then climb fuel tasks p else Some k))"

definition oph_gparent_of :: "nat \<Rightarrow> oph_workflow_task list \<Rightarrow> int \<Rightarrow> int option" where
  [code_defs]: "oph_gparent_of fuel tasks k =
     (if k < 0 then Some (- 2)
      else if nat k \<ge> length tasks then None
      else if t_parent (tasks ! nat k) < 0 then Some (- 2)
      else climb fuel tasks (t_parent (tasks ! nat k)))"

section \<open>Matching the flow control operators\<close>

definition OPH_OPERATOR_FOR :: string where [code_defs]: "OPH_OPERATOR_FOR = ''oph_for''"
definition OPH_OPERATOR_ENDFOR :: string where [code_defs]: "OPH_OPERATOR_ENDFOR = ''oph_endfor''"
definition OPH_OPERATOR_IF :: string where [code_defs]: "OPH_OPERATOR_IF = ''oph_if''"
definition OPH_OPERATOR_ELSEIF :: string where [code_defs]: "OPH_OPERATOR_ELSEIF = ''oph_elseif''"
definition OPH_OPERATOR_ELSE :: string where [code_defs]: "OPH_OPERATOR_ELSE = ''oph_else''"
definition OPH_OPERATOR_ENDIF :: string where [code_defs]: "OPH_OPERATOR_ENDIF = ''oph_endif''"

text \<open>
  What the recursion works on: the tasks, the arrays \<open>flag\<close> and \<open>level\<close> (of type \<open>char\<close>) and the variable \<open>child\<close>
  of the caller, \<open>None\<close> while it is not initialised.
\<close>

record fco_state =
  f_tasks :: "oph_workflow_task list"
  f_flag :: "bool list"
  f_level :: "int list"
  f_child :: "int option"

definition c_char :: "int \<Rightarrow> int" where
  [code_defs]: "c_char i = (i + 128) mod 256 - 128"

definition is_operator :: "string \<Rightarrow> string \<Rightarrow> bool" where
  [code_defs]: "is_operator x op = strncasecmp_eq x op OPH_WORKFLOW_MAX_STRING"

definition raise_level :: "nat \<Rightarrow> int \<Rightarrow> fco_state \<Rightarrow> fco_state" where
  [code_defs]: "raise_level j v st =
     (if f_level st ! j < v then st\<lparr>f_level := (f_level st)[j := c_char v]\<rparr> else st)"

text \<open>An end-task at nesting level 0 that was not counted yet: the new count and the updates of the tasks.\<close>

definition count_end :: "nat \<Rightarrow> nat \<Rightarrow> int \<Rightarrow> nat \<Rightarrow> fco_state \<Rightarrow> nat \<times> fco_state" where
  [code_defs]: "count_end j p gp res st =
     (let tasks = f_tasks st; pj = t_parent (tasks ! j); flag = (f_flag st)[j := False] in
      if pj < 0 \<or> pj = int p then
        (let tasks = tasks[j := (tasks ! j)\<lparr>t_parent := int p\<rparr>];
             tasks = tasks[p := (tasks ! p)\<lparr>t_child := int j\<rparr>];
             tasks = tasks[j := (tasks ! j)\<lparr>t_branch_num := t_branch_num (tasks ! j) + 1\<rparr>] in
         (res + 1, st\<lparr>f_tasks := tasks, f_flag := flag, f_child := Some (int j)\<rparr>))
      else
        (res + 1 + (if pj \<noteq> int p \<and> pj \<noteq> gp then 1 else 0),
         st\<lparr>f_tasks := tasks[j := (tasks ! j)\<lparr>t_branch_num := t_branch_num (tasks ! j) + 1\<rparr>], f_flag := flag\<rparr>))"

definition raise_nesting :: "nat \<Rightarrow> int \<Rightarrow> fco_state \<Rightarrow> fco_state" where
  [code_defs]: "raise_nesting p bn st =
     (if t_nesting_level (f_tasks st ! p) < bn
      then st\<lparr>f_tasks := (f_tasks st)[p := (f_tasks st ! p)\<lparr>t_nesting_level := bn\<rparr>]\<rparr> else st)"

function (sequential) workflow_number_of ::
    "nat \<Rightarrow> nat \<Rightarrow> nat \<Rightarrow> nat \<Rightarrow> int \<Rightarrow> string \<Rightarrow> string \<Rightarrow> int \<Rightarrow> fco_state \<Rightarrow> (nat \<times> fco_state) option"
  and number_loop ::
    "nat \<Rightarrow> nat \<Rightarrow> int list \<Rightarrow> nat \<Rightarrow> int \<Rightarrow> string \<Rightarrow> string \<Rightarrow> int \<Rightarrow> nat \<Rightarrow> fco_state \<Rightarrow> (nat \<times> fco_state) option" where
  "workflow_number_of 0 N k p gp op nop bracket_number st = None"
| "workflow_number_of (Suc fuel) N k p gp op nop bracket_number st =
     (if k \<ge> N then Some (0, st)
      else number_loop fuel N (t_dependents_indexes (f_tasks st ! k)) p gp op nop bracket_number 0 st)"
| "number_loop fuel N [] p gp op nop bracket_number res st = Some (res, st)"
| "number_loop fuel N (j0 # js) p gp op nop bracket_number res st =
     (if j0 < 0 \<or> nat j0 \<ge> N then None
      else
       (let j = nat j0; bn = bracket_number; st1 = raise_level j (bn + f_level st ! p) st in
        case t_operator (f_tasks st1 ! j) of
          None \<Rightarrow> None
        | Some operator \<Rightarrow>
            (case
               (if is_operator operator
                     (if bracket_number > 0 \<and> nop \<noteq> OPH_OPERATOR_FOR then OPH_OPERATOR_ENDIF else op)
                then
                  (let bn = (if f_level st1 ! j > bn + f_level st1 ! p then f_level st1 ! j - f_level st1 ! p
                             else bn) in
                   if bn \<noteq> 0 then
                     (case workflow_number_of fuel N j p gp op nop (bn - 1) st1 of
                        None \<Rightarrow> None
                      | Some (r, st2) \<Rightarrow> Some (res + r, st2))
                   else if f_flag st1 ! j then Some (count_end j p gp res st1)
                   else Some (res, st1))
                else
                  (let check = list_ex (is_operator operator) (strtok CHR ''|'' nop);
                       bn = (if check then bn + 1 else bn);
                       st2 = (if check then raise_level j (bn + f_level st1 ! p) (raise_nesting p bn st1) else st1)
                   in case workflow_number_of fuel N j p gp op nop bn st2 of
                        None \<Rightarrow> None
                      | Some (r, st3) \<Rightarrow> Some (res + r, st3))) of
               None \<Rightarrow> None
             | Some (res, st4) \<Rightarrow>
                 if res > 1 then Some (res, st4)
                 else number_loop fuel N js p gp op nop bracket_number res st4)))"
  by pat_completeness auto
termination
  by (relation "measures [\<lambda>x. case x of Inl (f, _) \<Rightarrow> f | Inr (f, _) \<Rightarrow> f,
    \<lambda>x. case x of Inl _ \<Rightarrow> 0 | Inr (_, _, js, _) \<Rightarrow> Suc (length js)]") auto

text \<open>The flags are set again and the ways from \<open>k\<close> to an operator are counted.\<close>

definition ways :: "nat \<Rightarrow> nat \<Rightarrow> nat \<Rightarrow> int \<Rightarrow> string \<Rightarrow> string \<Rightarrow> fco_state \<Rightarrow> (nat \<times> fco_state) option" where
  [code_defs]: "ways fuel N k gp op nop st =
     workflow_number_of fuel N k k gp op nop 0 (st\<lparr>f_flag := replicate N True\<rparr>)"

text \<open>
  The search for a task whose parent is \<open>k\<close> and that does not precede \<open>child\<close>. The code compares the
  operator of \<open>k\<close> (not of the task found) with \<open>op\<close>.
\<close>

fun wrong_parent :: "nat \<Rightarrow> oph_workflow \<Rightarrow> nat list \<Rightarrow> nat \<Rightarrow> string \<Rightarrow> fco_state \<Rightarrow> bool option" where
  "wrong_parent fuel w [] k op st = Some False"
| "wrong_parent fuel w (i # is) k op st =
     (if t_parent (f_tasks st ! i) = int k \<and> \<not> is_operator (the (t_operator (f_tasks st ! k))) op then
        (case f_child st of
           None \<Rightarrow> None
         | Some c \<Rightarrow>
             (case oph_workflow_is_child_of fuel (w\<lparr>w_tasks := f_tasks st\<rparr>) (int i) c of
                None \<Rightarrow> None
              | Some False \<Rightarrow> Some True
              | Some True \<Rightarrow> wrong_parent fuel w is k op st))
      else wrong_parent fuel w is k op st)"

definition fco_for :: "nat \<Rightarrow> oph_workflow \<Rightarrow> nat \<Rightarrow> fco_state \<Rightarrow> (bool \<times> fco_state) option" where
  [code_defs]: "fco_for fuel w k st =
     do { (number, st) \<leftarrow> ways fuel (w_tasks_num w) k (int k) OPH_OPERATOR_ENDFOR OPH_OPERATOR_FOR st;
          if number = 0 \<or> number > 1 then Some (True, st)
          else do { bad \<leftarrow> wrong_parent fuel w [0..<w_tasks_num w] k OPH_OPERATOR_ENDFOR st;
                    Some (bad, st) } }"

text \<open>
  The search for \<open>elseif\<close> or \<open>else\<close> that the branches of \<open>if\<close> and \<open>elseif\<close> make: \<open>child\<close> is set to -1, more
  than one way is an error, and a match is checked when there is one. The result tells whether to
  stop with an error.
\<close>

definition fco_branch ::
    "nat \<Rightarrow> oph_workflow \<Rightarrow> nat \<Rightarrow> int \<Rightarrow> string \<Rightarrow> fco_state \<Rightarrow> (bool \<times> fco_state) option" where
  [code_defs]: "fco_branch fuel w k gp op st =
     do { (number, st) \<leftarrow> ways fuel (w_tasks_num w) k gp op OPH_OPERATOR_IF (st\<lparr>f_child := Some (- 1)\<rparr>);
          if number > 1 then Some (True, st)
          else if the (f_child st) \<ge> 0 then
            do { bad \<leftarrow> wrong_parent fuel w [0..<w_tasks_num w] k op st; Some (bad, st) }
          else Some (False, st) }"

definition fco_branches ::
    "nat \<Rightarrow> oph_workflow \<Rightarrow> nat \<Rightarrow> int \<Rightarrow> fco_state \<Rightarrow> (bool \<times> fco_state) option" where
  [code_defs]: "fco_branches fuel w k gp st =
     do { (bad, st) \<leftarrow> fco_branch fuel w k gp OPH_OPERATOR_ELSEIF st;
          if bad \<or> the (f_child st) \<ge> 0 then Some (bad, st)
          else fco_branch fuel w k gp OPH_OPERATOR_ELSE st }"

definition fco_endif ::
    "nat \<Rightarrow> oph_workflow \<Rightarrow> nat \<Rightarrow> int \<Rightarrow> bool \<Rightarrow> fco_state \<Rightarrow> (bool \<times> fco_state) option" where
  [code_defs]: "fco_endif fuel w k gp is_if st =
     do { (number, st) \<leftarrow> ways fuel (w_tasks_num w) k gp OPH_OPERATOR_ENDIF OPH_OPERATOR_IF st;
          if (if is_if then number = 0 \<and> number > 1 else number = 0 \<or> number > 1) then Some (True, st)
          else do { bad \<leftarrow> wrong_parent fuel w [0..<w_tasks_num w] k OPH_OPERATOR_ENDIF st;
                    Some (bad, st) } }"

definition fco_task :: "nat \<Rightarrow> oph_workflow \<Rightarrow> nat \<Rightarrow> fco_state \<Rightarrow> (bool \<times> fco_state) option" where
  [code_defs]: "fco_task fuel w k st =
     do { operator \<leftarrow> t_operator (f_tasks st ! k);
          if is_operator operator OPH_OPERATOR_FOR then fco_for fuel w k st
          else if is_operator operator OPH_OPERATOR_IF then
            do { (bad, st) \<leftarrow> fco_branches fuel w k (int k) st;
                 if bad then Some (True, st) else fco_endif fuel w k (int k) True st }
          else if is_operator operator OPH_OPERATOR_ELSEIF then
            do { kk \<leftarrow> oph_gparent_of fuel (f_tasks st) (int k);
                 (bad, st) \<leftarrow> fco_branches fuel w k kk st;
                 if bad \<or> the (f_child st) \<ge> 0 then Some (bad, st) else fco_endif fuel w k kk False st }
          else if is_operator operator OPH_OPERATOR_ELSE then
            do { kk \<leftarrow> oph_gparent_of fuel (f_tasks st) (int k); fco_endif fuel w k kk False st }
          else Some (False, st) }"

fun fco_loop :: "nat \<Rightarrow> oph_workflow \<Rightarrow> nat list \<Rightarrow> fco_state \<Rightarrow> (bool \<times> fco_state) option" where
  "fco_loop fuel w [] st = Some (False, st)"
| "fco_loop fuel w (k # ks) st =
     do { (bad, st) \<leftarrow> fco_task fuel w k st;
          if bad then Some (True, st) else fco_loop fuel w ks st }"

definition fco_unmatched :: "oph_workflow_task \<Rightarrow> bool" where
  [code_defs]: "fco_unmatched t \<longleftrightarrow> t_parent t < 0 \<and>
     (let operator = the (t_operator t) in
      is_operator operator OPH_OPERATOR_ENDFOR \<or> is_operator operator OPH_OPERATOR_ELSEIF \<or>
      is_operator operator OPH_OPERATOR_ELSE \<or> is_operator operator OPH_OPERATOR_ENDIF)"

definition fco_init :: "nat \<Rightarrow> oph_workflow_task list \<Rightarrow> fco_state" where
  [code_defs]: "fco_init N tasks =
     \<lparr>f_tasks = map (\<lambda>t. t\<lparr>t_parent := - 1, t_child := - 1, t_branch_num := 0, t_nesting_level := 0\<rparr>)
                   (take N tasks) @ drop N tasks,
      f_flag = replicate N True, f_level = replicate N 0, f_child = None\<rparr>"

definition oph_workflow_validate_fco :: "nat \<Rightarrow> oph_workflow \<Rightarrow> (wf_code \<times> oph_workflow) option" where
  [code_defs]: "oph_workflow_validate_fco fuel w =
     do { (bad, st) \<leftarrow> fco_loop fuel w [0..<w_tasks_num w] (fco_init (w_tasks_num w) (w_tasks w));
          let w' = w\<lparr>w_tasks := f_tasks st\<rparr> in
          if bad \<or> list_ex fco_unmatched (take (w_tasks_num w) (f_tasks st))
          then Some (OPH_WORKFLOW_EXIT_BAD_PARAM_ERROR, w')
          else Some (OPH_WORKFLOW_EXIT_SUCCESS, w') }"

section \<open>Basic variables\<close>

text \<open>
  The loop of \<open>oph_workflow_set_basic_var\<close>: \<open>host\<close> and \<open>port\<close> are the globals of the server and
  \<open>session_code\<close> what \<open>oph_get_session_code\<close> gives for the session (\<open>None\<close> when it fails). \<open>ivalue\<close> is the content of
  the structure on the stack, which the code does not set.
\<close>

definition basic_values ::
    "oph_workflow \<Rightarrow> string option \<Rightarrow> string option \<Rightarrow> string option \<Rightarrow> (string \<times> string option) list" where
  [code_defs]: "basic_values w host port session_code =
     (let or_none = (\<lambda>x. Some (case x of Some s \<Rightarrow> s | None \<Rightarrow> ''none'')) in
      [(''OPH_SESSION_ID'', or_none (w_sessionid w)),
       (''OPH_SESSION_CODE'', if w_sessionid w = None then None else session_code),
       (''OPH_WORKFLOW_ID'', if w_sessionid w = None then None else Some (show_int (w_workflowid w))),
       (''OPH_SERVER_HOST'', or_none host), (''OPH_SERVER_PORT'', or_none port),
       (''OPH_USER'', or_none (w_username w)), (''OPH_PASSWD'', or_none (w_password w)),
       (''OPH_OS_USER'', or_none (w_os_username w))])"

fun store_basic :: "int \<Rightarrow> (string \<times> string option) list \<Rightarrow> oph_workflow_var hashtbl \<Rightarrow>
    wf_code \<times> oph_workflow_var hashtbl" where
  "store_basic ivalue [] vars = (OPH_WORKFLOW_EXIT_SUCCESS, vars)"
| "store_basic ivalue ((key, svalue) # kvs) vars =
     (case svalue of
        None \<Rightarrow> (OPH_WORKFLOW_EXIT_MEMORY_ERROR, vars)
      | Some s \<Rightarrow>
          store_basic ivalue kvs (snd (hashtbl_insert_with_size vars key
            \<lparr>v_caller = - 1, v_svalue = s, v_ivalue = ivalue\<rparr> (24 + length s + 1))))"

definition oph_workflow_set_basic_var ::
    "oph_workflow \<Rightarrow> string option \<Rightarrow> string option \<Rightarrow> string option \<Rightarrow> int \<Rightarrow> wf_code \<times> oph_workflow" where
  [code_defs]: "oph_workflow_set_basic_var w host port session_code ivalue =
     (case store_basic ivalue (basic_values w host port session_code) (w_vars w) of
        (rc, vars) \<Rightarrow> (rc, w\<lparr>w_vars := vars\<rparr>))"

section \<open>Lemmas on reachability\<close>

definition indexes_ok :: "nat \<Rightarrow> oph_workflow_task list \<Rightarrow> bool" where
  [code_defs]: "indexes_ok N ts \<longleftrightarrow> N \<le> length ts \<and>
     list_all (\<lambda>t. list_all (\<lambda>j. 0 \<le> j \<and> j < int N) (t_dependents_indexes t)) (take N ts)"

definition dag_edges :: "nat \<Rightarrow> oph_workflow_task list \<Rightarrow> (nat \<times> nat) set" where
  "dag_edges N ts = {(p, j). p < N \<and> int j \<in> set (t_dependents_indexes (ts ! p))}"

lemma indexes_okD:
  "indexes_ok N ts \<Longrightarrow> p < N \<Longrightarrow> j \<in> set (t_dependents_indexes (ts ! p)) \<Longrightarrow> 0 \<le> j \<and> j < int N"
  unfolding indexes_ok_def list_all_length by (auto simp: in_set_conv_nth)

lemma dag_edges_bound:
  assumes "indexes_ok N ts"
  shows "dag_edges N ts \<subseteq> {..<N} \<times> {..<N}"
  using indexes_okD [OF assms] by (fastforce simp: dag_edges_def)

text \<open>The tasks below a task get fewer along an edge of an acyclic workflow.\<close>

definition below :: "(nat \<times> nat) set \<Rightarrow> nat \<Rightarrow> nat" where
  "below r p = card (r\<^sup>+ `` {p})"

lemma below_decreases:
  assumes "acyclic r" and "finite r" and "(p, j) \<in> r"
  shows "below r j < below r p"
proof -
  have "r\<^sup>+ `` {j} \<subset> r\<^sup>+ `` {p}"
    using assms(1,3) by (auto simp: acyclic_def intro: trancl_into_trancl2)
  moreover have "finite (r\<^sup>+ `` {p})" using assms(2) by (simp add: finite_trancl finite_Image)
  ultimately show ?thesis unfolding below_def by (rule psubset_card_mono [rotated])
qed

lemma below_bound: "r \<subseteq> {..<N} \<times> {..<N} \<Longrightarrow> below r p \<le> N"
  using card_mono [of "{..<N}" "r\<^sup>+ `` {p}"] trancl_subset_Sigma [of r "{..<N}"] unfolding below_def by force

lemma reach_step: "p \<noteq> c \<Longrightarrow> (p, c) \<in> r\<^sup>* \<longleftrightarrow> (\<exists>j. (p, j) \<in> r \<and> (j, c) \<in> r\<^sup>*)"
  by (metis converse_rtranclE r_into_rtrancl rtrancl_trans)

lemma is_child_of_reach:
  assumes "indexes_ok (w_tasks_num w) (w_tasks w)"
    and "acyclic (dag_edges (w_tasks_num w) (w_tasks w))"
    and "c < w_tasks_num w" and "p < w_tasks_num w" and "below (dag_edges (w_tasks_num w) (w_tasks w)) p < fuel"
  shows "oph_workflow_is_child_of fuel w (int p) (int c) =
    Some ((p, c) \<in> (dag_edges (w_tasks_num w) (w_tasks w))\<^sup>*)"
  using assms(4,5)
proof (induction fuel arbitrary: p)
  case (Suc fuel)
  let ?N = "w_tasks_num w" and ?r = "dag_edges (w_tasks_num w) (w_tasks w)"
  have fin: "finite ?r" using dag_edges_bound [OF assms(1)] by (rule finite_subset) simp
  show ?case
  proof (cases "p = c")
    case False
    have rec: "oph_workflow_is_child_of fuel w j (int c) = Some ((nat j, c) \<in> ?r\<^sup>*) \<and> j \<noteq> int p \<and> (p, nat j) \<in> ?r"
      if "j \<in> set (t_dependents_indexes (w_tasks w ! p))" for j
    proof -
      have j: "0 \<le> j" "j < int ?N" using indexes_okD [OF assms(1) Suc.prems(1) that] by auto
      then have e: "(p, nat j) \<in> ?r" using that Suc.prems(1) by (simp add: dag_edges_def)
      then have "below ?r (nat j) < fuel"
        using below_decreases [OF assms(2) fin e] Suc.prems(2) by simp
      then have "oph_workflow_is_child_of fuel w (int (nat j)) (int c) = Some ((nat j, c) \<in> ?r\<^sup>*)"
        using Suc.IH [of "nat j"] j by simp
      moreover have "nat j \<noteq> p" using e assms(2) by (auto simp: acyclic_def)
      ultimately show ?thesis using e j(1) by auto
    qed
    have "any_child fuel w (int p) js (int c) = Some (\<exists>j\<in>set js. (nat j, c) \<in> ?r\<^sup>*)"
      if "set js \<subseteq> set (t_dependents_indexes (w_tasks w ! p))" for js
      using that rec by (induction js) (auto split: bool.splits)
    then have "any_child fuel w (int p) (t_dependents_indexes (w_tasks w ! p)) (int c) =
        Some (\<exists>j\<in>set (t_dependents_indexes (w_tasks w ! p)). (nat j, c) \<in> ?r\<^sup>*)" by blast
    also have "(\<exists>j\<in>set (t_dependents_indexes (w_tasks w ! p)). (nat j, c) \<in> ?r\<^sup>*) \<longleftrightarrow> (p, c) \<in> ?r\<^sup>*"
    proof
      assume "(p, c) \<in> ?r\<^sup>*"
      with reach_step [OF False] obtain j where "(p, j) \<in> ?r" "(j, c) \<in> ?r\<^sup>*" by blast
      then show "\<exists>j\<in>set (t_dependents_indexes (w_tasks w ! p)). (nat j, c) \<in> ?r\<^sup>*"
        by (metis (mono_tags, lifting) case_prodD dag_edges_def mem_Collect_eq nat_int)
    qed (use rec in \<open>blast intro: converse_rtrancl_into_rtrancl\<close>)
    finally show ?thesis using False Suc.prems(1) assms(3) by simp
  qed (use Suc.prems(1) in simp)
qed simp

text \<open>When the parent of a task is one of its ancestors, the climb ends at an ancestor.\<close>

definition parents_ok :: "nat \<Rightarrow> (nat \<times> nat) set \<Rightarrow> oph_workflow_task list \<Rightarrow> bool" where
  "parents_ok N r ts \<longleftrightarrow> (\<forall>j < N. 0 \<le> t_parent (ts ! j) \<longrightarrow> (nat (t_parent (ts ! j)), j) \<in> r\<^sup>+)"

lemma trancl_bounded: "r \<subseteq> {..<N} \<times> {..<N} \<Longrightarrow> (x, y) \<in> r\<^sup>+ \<Longrightarrow> x < N \<and> y < N"
  using trancl_subset_Sigma [of r "{..<N}"] by auto

lemma climb_ancestor:
  assumes "N \<le> length ts" and b: "r \<subseteq> {..<N} \<times> {..<N}" and "acyclic r" and "parents_ok N r ts"
    and "k < N" and "below ((r\<^sup>+)\<inverse>) k < n"
  shows "\<exists>g. climb n ts (int k) = Some (int g) \<and> (g, k) \<in> r\<^sup>*"
  using assms(5,6)
proof (induction n arbitrary: k)
  case (Suc n)
  show ?case
  proof (cases "0 \<le> t_parent (ts ! k)")
    case True
    let ?p = "nat (t_parent (ts ! k))"
    have e: "(?p, k) \<in> r\<^sup>+" using assms(4) True Suc.prems(1) by (simp add: parents_ok_def)
    have "finite r" using b by (rule finite_subset) simp
    then have "below ((r\<^sup>+)\<inverse>) ?p < below ((r\<^sup>+)\<inverse>) k"
      using assms(3) e by (intro below_decreases) (auto simp: acyclic_converse acyclic_def)
    then obtain g where "climb n ts (int ?p) = Some (int g)" "(g, ?p) \<in> r\<^sup>*"
      using Suc.IH [of ?p] trancl_bounded [OF b e] Suc.prems(2) by auto
    then show ?thesis using True e assms(1) Suc.prems(1) by (auto intro: rtrancl_trans trancl_into_rtrancl)
  qed (use assms(1) Suc.prems(1) in auto)
qed simp

lemma gparent_ancestor:
  assumes "N \<le> length ts" and b: "r \<subseteq> {..<N} \<times> {..<N}" and "acyclic r" and "parents_ok N r ts" and "k < N" and "N < n"
  shows "\<exists>g. oph_gparent_of n ts (int k) = Some g \<and> (g = - 2 \<or> 0 \<le> g \<and> (nat g, k) \<in> r\<^sup>+)"
proof (cases "0 \<le> t_parent (ts ! k)")
  case True
  let ?p = "nat (t_parent (ts ! k))"
  have e: "(?p, k) \<in> r\<^sup>+" using assms(4,5) True by (simp add: parents_ok_def)
  have "(r\<^sup>+)\<inverse> \<subseteq> {..<N} \<times> {..<N}" using trancl_bounded [OF b] by auto
  then have "below ((r\<^sup>+)\<inverse>) ?p < n" using below_bound assms(6) by (metis order_le_less_trans)
  then obtain g where "climb n ts (int ?p) = Some (int g)" "(g, ?p) \<in> r\<^sup>*"
    using climb_ancestor [OF assms(1-4)] trancl_bounded [OF b e] by blast
  then show ?thesis using True e assms(1,5) by (auto simp: oph_gparent_of_def intro: rtrancl_trancl_trancl)
qed (use assms(1,5) in \<open>auto simp: oph_gparent_of_def\<close>)

section \<open>Lemmas on the matching\<close>

text \<open>The changes of a state by the nesting counters alone.\<close>

inductive raises :: "nat \<Rightarrow> fco_state \<Rightarrow> fco_state \<Rightarrow> bool" for p where
  raises_refl: "raises p st st"
| raises_level: "raises p st u \<Longrightarrow> raises p st (raise_level j v u)"
| raises_nesting: "raises p st u \<Longrightarrow> raises p st (raise_nesting p bn u)"

text \<open>What one turn of \<open>number_loop\<close> does, as a case distinction.\<close>

lemma number_loop_cases:
  assumes "number_loop fuel N (j0 # js) p gp op nop b res st = Some (r, st')"
  obtains res1 u where "0 \<le> j0" and "nat j0 < N"
    and "(res1 > 1 \<and> r = res1 \<and> st' = u) \<or> (res1 \<le> 1 \<and> number_loop fuel N js p gp op nop b res1 u = Some (r, st'))"
    and "(\<exists>v bn r1. raises p st v \<and> workflow_number_of fuel N (nat j0) p gp op nop bn v = Some (r1, u) \<and> res1 = res + r1)
      \<or> (\<exists>v operator. raises p st v \<and> t_operator (f_tasks v ! nat j0) = Some operator \<and>
           is_operator operator (if b > 0 \<and> nop \<noteq> OPH_OPERATOR_FOR then OPH_OPERATOR_ENDIF else op) \<and>
           (res1, u) = count_end (nat j0) p gp res v)
      \<or> (raises p st u \<and> res1 = res)"
proof -
  let ?j = "nat j0" and ?st1 = "raise_level (nat j0) (b + f_level st ! p) st"
  let ?endop = "if b > 0 \<and> nop \<noteq> OPH_OPERATOR_FOR then OPH_OPERATOR_ENDIF else op"
  have j: "0 \<le> j0" "nat j0 < N" using assms by (auto split: if_splits)
  have r1: "raises p st ?st1" by (intro raises.intros)
  from assms j obtain operator where o: "t_operator (f_tasks ?st1 ! ?j) = Some operator"
    by (auto simp: Let_def split: option.splits)
  show thesis
  proof (cases "is_operator operator ?endop")
    case True
    define bn where "bn = (if f_level ?st1 ! ?j > b + f_level ?st1 ! p
        then f_level ?st1 ! ?j - f_level ?st1 ! p else b)"
    show thesis
    proof (cases "bn = 0")
      case False
      with assms j o True obtain r1 u where
        n: "workflow_number_of fuel N ?j p gp op nop (bn - 1) ?st1 = Some (r1, u)"
        and l: "(if res + r1 > 1 then Some (res + r1, u)
                 else number_loop fuel N js p gp op nop b (res + r1) u) = Some (r, st')"
        by (auto simp: Let_def bn_def [symmetric] split: option.splits)
      show thesis
        by (rule that [of "res + r1" u]) (use j n l r1 in \<open>auto split: if_splits\<close>)
    next
      case bn0: True
      show thesis
      proof (cases "f_flag ?st1 ! ?j")
        case flag: True
        obtain res1 u where c: "count_end ?j p gp res ?st1 = (res1, u)" by fastforce
        have "(if res1 > 1 then Some (res1, u) else number_loop fuel N js p gp op nop b res1 u) = Some (r, st')"
          using assms j o True bn0 flag c by (auto simp: Let_def bn_def [symmetric])
        then show thesis
          by (intro that [of res1 u]) (use j r1 o True c in \<open>auto split: if_splits\<close>)
      next
        case False
        then have "(if res > 1 then Some (res, ?st1) else number_loop fuel N js p gp op nop b res ?st1) = Some (r, st')"
          using assms j o True bn0 by (auto simp: Let_def bn_def [symmetric])
        then show thesis
          by (intro that [of res ?st1]) (use j r1 in \<open>auto split: if_splits\<close>)
      qed
    qed
  next
    case False
    define check where "check \<longleftrightarrow> list_ex (is_operator operator) (strtok CHR ''|'' nop)"
    define bn where "bn = (if check then b + 1 else b)"
    define v where "v = (if check then raise_level ?j (bn + f_level ?st1 ! p) (raise_nesting p bn ?st1) else ?st1)"
    have rv: "raises p st v" using r1 by (auto simp: v_def intro: raises.intros)
    from assms j o False obtain r1 u where
      n: "workflow_number_of fuel N ?j p gp op nop bn v = Some (r1, u)"
      and l: "(if res + r1 > 1 then Some (res + r1, u)
               else number_loop fuel N js p gp op nop b (res + r1) u) = Some (r, st')"
      by (cases check) (auto simp: Let_def check_def bn_def v_def split: option.splits)
    show thesis
      by (rule that [of "res + r1" u]) (use j n l rv in \<open>auto split: if_splits\<close>)
  qed
qed

text \<open>
  A relation between states that the recursion keeps: it is a preorder and contains the elementary
  changes.
\<close>

locale fco_relation =
  fixes N :: nat and p :: nat and gp :: int and op nop :: string and rel :: "fco_state \<Rightarrow> fco_state \<Rightarrow> bool"
  assumes rel_refl: "rel st st"
    and rel_trans: "rel st u \<Longrightarrow> rel u v \<Longrightarrow> rel st v"
    and rel_raises: "raises p st u \<Longrightarrow> rel st u"
    and rel_count: "j < N \<Longrightarrow> t_operator (f_tasks st ! j) = Some operator \<Longrightarrow>
      is_operator operator op \<or> (nop \<noteq> OPH_OPERATOR_FOR \<and> is_operator operator OPH_OPERATOR_ENDIF) \<Longrightarrow>
      rel st (snd (count_end j p gp res st))"
begin

lemma number_loop_rel:
  assumes "\<And>k bn st r st'. workflow_number_of fuel N k p gp op nop bn st = Some (r, st') \<Longrightarrow> rel st st'"
  shows "number_loop fuel N js p gp op nop b res st = Some (r, st') \<Longrightarrow> rel st st'"
proof (induction js arbitrary: res st)
  case Nil
  then show ?case by (simp add: rel_refl)
next
  case (Cons j js)
  obtain res1 u where "0 \<le> j" and j: "nat j < N"
    and step: "(res1 > 1 \<and> r = res1 \<and> st' = u) \<or>
      (res1 \<le> 1 \<and> number_loop fuel N js p gp op nop b res1 u = Some (r, st'))"
    and c: "(\<exists>v bn r1. raises p st v \<and> workflow_number_of fuel N (nat j) p gp op nop bn v = Some (r1, u) \<and> res1 = res + r1)
      \<or> (\<exists>v operator. raises p st v \<and> t_operator (f_tasks v ! nat j) = Some operator \<and>
           is_operator operator (if b > 0 \<and> nop \<noteq> OPH_OPERATOR_FOR then OPH_OPERATOR_ENDIF else op) \<and>
           (res1, u) = count_end (nat j) p gp res v)
      \<or> (raises p st u \<and> res1 = res)"
    by (rule number_loop_cases [OF Cons.prems])
  have "rel st u" using c
  proof (elim disjE exE conjE)
    fix v bn r1
    assume "raises p st v" "workflow_number_of fuel N (nat j) p gp op nop bn v = Some (r1, u)"
    then show ?thesis using assms rel_raises rel_trans by blast
  next
    fix v operator
    assume "raises p st v" and "(res1, u) = count_end (nat j) p gp res v"
      and o: "t_operator (f_tasks v ! nat j) = Some operator"
        "is_operator operator (if b > 0 \<and> nop \<noteq> OPH_OPERATOR_FOR then OPH_OPERATOR_ENDIF else op)"
    moreover from this(2) have "u = snd (count_end (nat j) p gp res v)" by (metis snd_conv)
    ultimately show ?thesis
      using rel_raises rel_trans rel_count [OF j o(1), of res] by (metis (full_types))
  qed (use rel_raises in blast)
  with step Cons.IH rel_trans show ?case by blast
qed

lemma number_of_rel: "workflow_number_of fuel N k p gp op nop b st = Some (r, st') \<Longrightarrow> rel st st'"
proof (induction fuel arbitrary: k b st r st')
  case (Suc fuel)
  show ?case
  proof (cases "k \<ge> N")
    case False
    with Suc.prems have "number_loop fuel N (t_dependents_indexes (f_tasks st ! k)) p gp op nop b 0 st = Some (r, st')"
      by simp
    then show ?thesis by (rule number_loop_rel [rotated]) (rule Suc.IH)
  qed (use Suc.prems rel_refl in auto)
qed simp

end

definition same_shape :: "fco_state \<Rightarrow> fco_state \<Rightarrow> bool" where
  "same_shape st u \<longleftrightarrow> length (f_tasks u) = length (f_tasks st) \<and>
     (\<forall>x. t_operator (f_tasks u ! x) = t_operator (f_tasks st ! x) \<and>
          t_dependents_indexes (f_tasks u ! x) = t_dependents_indexes (f_tasks st ! x))"

text \<open>Task \<open>j\<close> is the end-task of \<open>x\<close>: the two point at each other.\<close>

definition linked :: "fco_state \<Rightarrow> nat \<Rightarrow> nat \<Rightarrow> bool" where
  "linked st x j \<longleftrightarrow> j < length (f_tasks st) \<and> t_child (f_tasks st ! x) = int j \<and> t_parent (f_tasks st ! j) = int x"

definition keeps :: "nat \<Rightarrow> fco_state \<Rightarrow> fco_state \<Rightarrow> bool" where
  "keeps p st u \<longleftrightarrow> same_shape st u \<and> (\<forall>x j. x \<noteq> p \<longrightarrow> linked st x j \<longrightarrow> linked u x j)"

definition matched :: "nat \<Rightarrow> string \<Rightarrow> nat \<Rightarrow> fco_state \<Rightarrow> bool" where
  "matched N op p st \<longleftrightarrow> (\<exists>j < N. linked st p j \<and>
     (\<exists>operator. t_operator (f_tasks st ! j) = Some operator \<and> is_operator operator op))"

definition keeps_match :: "nat \<Rightarrow> string \<Rightarrow> nat \<Rightarrow> fco_state \<Rightarrow> fco_state \<Rightarrow> bool" where
  "keeps_match N op p st u \<longleftrightarrow> same_shape st u \<and>
     (N \<le> length (f_tasks st) \<and> p < N \<longrightarrow> matched N op p st \<longrightarrow> matched N op p u)"

lemma raises_fields:
  "raises p st u \<Longrightarrow> length (f_tasks u) = length (f_tasks st) \<and>
     (\<forall>x. t_operator (f_tasks u ! x) = t_operator (f_tasks st ! x) \<and>
          t_dependents_indexes (f_tasks u ! x) = t_dependents_indexes (f_tasks st ! x) \<and>
          t_child (f_tasks u ! x) = t_child (f_tasks st ! x) \<and>
          t_parent (f_tasks u ! x) = t_parent (f_tasks st ! x))"
  by (induction rule: raises.induct) (auto simp: raise_level_def raise_nesting_def nth_update_if)

lemma raises_keeps: "raises p st u \<Longrightarrow> same_shape st u \<and> (\<forall>x j. linked u x j \<longleftrightarrow> linked st x j)"
  using raises_fields [of p st u] by (simp add: same_shape_def linked_def)

lemma count_end_shape: "same_shape st (snd (count_end j p gp res st))"
  by (auto simp: count_end_def same_shape_def nth_update_if Let_def)

lemma count_end_keeps: "x \<noteq> p \<Longrightarrow> linked st x i \<Longrightarrow> linked (snd (count_end j p gp res st)) x i"
  by (auto simp: count_end_def linked_def nth_update_if Let_def)

lemma count_end_linked:
  assumes "j < length (f_tasks st)" and "p < length (f_tasks st)"
    and "t_parent (f_tasks st ! j) < 0 \<or> t_parent (f_tasks st ! j) = int p"
  shows "linked (snd (count_end j p gp res st)) p j"
  using assms by (auto simp: count_end_def linked_def nth_update_if Let_def)

lemma count_end_old_link:
  assumes "linked st p i" and "\<not> (t_parent (f_tasks st ! j) < 0 \<or> t_parent (f_tasks st ! j) = int p)"
  shows "linked (snd (count_end j p gp res st)) p i"
  using assms by (auto simp: count_end_def linked_def nth_update_if Let_def)

lemma same_shape_trans: "same_shape st u \<Longrightarrow> same_shape u v \<Longrightarrow> same_shape st v"
  by (simp add: same_shape_def)

interpretation kp: fco_relation N p gp op nop "keeps p" for N p gp op nop
proof
  show "keeps p st st" for st by (simp add: keeps_def same_shape_def)
  show "keeps p st u \<Longrightarrow> keeps p u v \<Longrightarrow> keeps p st v" for st u v
    unfolding keeps_def using same_shape_trans by blast
  show "raises p st u \<Longrightarrow> keeps p st u" for st u
    using raises_keeps unfolding keeps_def by blast
  show "keeps p st (snd (count_end j p gp res st))" for j st operator res
    using count_end_shape count_end_keeps unfolding keeps_def by blast
qed

lemma count_end_matched:
  assumes "N \<le> length (f_tasks st)" and "p < N" and "j < N"
    and "t_operator (f_tasks st ! j) = Some operator" and "is_operator operator op"
    and "matched N op p st \<or> t_parent (f_tasks st ! j) < 0 \<or> t_parent (f_tasks st ! j) = int p"
  shows "matched N op p (snd (count_end j p gp res st))"
proof -
  have o: "t_operator (f_tasks (snd (count_end j p gp res st)) ! x) = t_operator (f_tasks st ! x)" for x
    using count_end_shape by (auto simp: same_shape_def)
  show ?thesis
  proof (cases "t_parent (f_tasks st ! j) < 0 \<or> t_parent (f_tasks st ! j) = int p")
    case True
    with assms(1-5) o show ?thesis
      unfolding matched_def by (metis count_end_linked less_le_trans)
  next
    case False
    with assms(6) o show ?thesis
      unfolding matched_def by (metis count_end_old_link)
  qed
qed

interpretation fm: fco_relation N p gp op OPH_OPERATOR_FOR "keeps_match N op p" for N p gp op
proof
  show "keeps_match N op p st st" for st by (simp add: keeps_match_def same_shape_def)
  show "keeps_match N op p st u \<Longrightarrow> keeps_match N op p u v \<Longrightarrow> keeps_match N op p st v" for st u v
    unfolding keeps_match_def using same_shape_trans by (metis same_shape_def)
  show "raises p st u \<Longrightarrow> keeps_match N op p st u" for st u
    using raises_keeps [of p st u] unfolding keeps_match_def matched_def by (auto simp: same_shape_def)
  fix j and st :: fco_state and operator res
  assume "j < N" and "t_operator (f_tasks st ! j) = Some operator"
    and "is_operator operator op \<or> OPH_OPERATOR_FOR \<noteq> OPH_OPERATOR_FOR \<and> is_operator operator OPH_OPERATOR_ENDIF"
  then show "keeps_match N op p st (snd (count_end j p gp res st))"
    unfolding keeps_match_def using count_end_shape count_end_matched by blast
qed

text \<open>When exactly one way is found, the task and its end-task are linked.\<close>

lemma number_loop_found:
  assumes "\<And>k bn st r st'. workflow_number_of fuel N k p (int p) op OPH_OPERATOR_FOR bn st = Some (r, st') \<Longrightarrow>
      N \<le> length (f_tasks st) \<Longrightarrow> r = 1 \<Longrightarrow> matched N op p st'"
    and "p < N"
  shows "number_loop fuel N js p (int p) op OPH_OPERATOR_FOR b res st = Some (r, st') \<Longrightarrow>
    N \<le> length (f_tasks st) \<Longrightarrow> res = 0 \<or> matched N op p st \<Longrightarrow> r = 1 \<Longrightarrow> matched N op p st'"
proof (induction js arbitrary: res st)
  case Nil
  then show ?case by auto
next
  case (Cons j js)
  obtain res1 u where "0 \<le> j" and j: "nat j < N"
    and step: "(res1 > 1 \<and> r = res1 \<and> st' = u) \<or>
      (res1 \<le> 1 \<and> number_loop fuel N js p (int p) op OPH_OPERATOR_FOR b res1 u = Some (r, st'))"
    and c: "(\<exists>v bn r1. raises p st v \<and>
        workflow_number_of fuel N (nat j) p (int p) op OPH_OPERATOR_FOR bn v = Some (r1, u) \<and> res1 = res + r1)
      \<or> (\<exists>v operator. raises p st v \<and> t_operator (f_tasks v ! nat j) = Some operator \<and>
           is_operator operator (if b > 0 \<and> OPH_OPERATOR_FOR \<noteq> OPH_OPERATOR_FOR then OPH_OPERATOR_ENDIF else op) \<and>
           (res1, u) = count_end (nat j) p (int p) res v)
      \<or> (raises p st u \<and> res1 = res)"
    by (rule number_loop_cases [OF Cons.prems(1)])
  have next_loop: "number_loop fuel N js p (int p) op OPH_OPERATOR_FOR b res1 u = Some (r, st')" and "res1 \<le> 1"
    using step Cons.prems(4) by auto
  have m: "matched N op p st \<Longrightarrow> matched N op p v" "length (f_tasks v) = length (f_tasks st)"
    if "keeps_match N op p st v" for v
    using that Cons.prems(2) assms(2) by (auto simp: keeps_match_def same_shape_def)
  have u: "length (f_tasks u) = length (f_tasks st) \<and> (res1 = 0 \<or> matched N op p u)" using c
  proof (elim disjE exE conjE)
    fix v bn r1
    assume v: "raises p st v" and n: "workflow_number_of fuel N (nat j) p (int p) op OPH_OPERATOR_FOR bn v = Some (r1, u)"
      and r1: "res1 = res + r1"
    have vu: "keeps_match N op p st v" "keeps_match N op p v u"
      by (rule fm.rel_raises [OF v]) (rule fm.number_of_rel [OF n])
    then have l: "length (f_tasks v) = length (f_tasks st)" "length (f_tasks u) = length (f_tasks st)"
      by (simp_all add: keeps_match_def same_shape_def)
    have "matched N op p u" if "res1 \<noteq> 0"
    proof (cases "r1 = 0")
      case True
      then have "matched N op p st" using r1 that Cons.prems(3) by auto
      with m(1) vu(1) have "matched N op p v" by blast
      with vu(2) l Cons.prems(2) assms(2) show ?thesis by (simp add: keeps_match_def)
    next
      case False
      then have "r1 = 1" using r1 \<open>res1 \<le> 1\<close> by simp
      with assms(1) [OF n] l Cons.prems(2) show ?thesis by simp
    qed
    with l show ?thesis by blast
  next
    fix v operator
    assume v: "raises p st v" and o: "t_operator (f_tasks v ! nat j) = Some operator"
      "is_operator operator (if b > 0 \<and> OPH_OPERATOR_FOR \<noteq> OPH_OPERATOR_FOR then OPH_OPERATOR_ENDIF else op)"
      and ce: "(res1, u) = count_end (nat j) p (int p) res v"
    have vu: "keeps_match N op p st v" using fm.rel_raises [OF v] .
    have uu: "u = snd (count_end (nat j) p (int p) res v)" using ce by (metis snd_conv)
    have "t_parent (f_tasks v ! nat j) < 0 \<or> t_parent (f_tasks v ! nat j) = int p \<or> res1 > 1"
      using ce by (auto simp: count_end_def Let_def split: if_splits)
    then have "matched N op p u"
      unfolding uu using count_end_matched [of N v p "nat j" operator op] o j \<open>res1 \<le> 1\<close> m(2) [OF vu]
        Cons.prems(2) assms(2) by auto
    moreover have "length (f_tasks u) = length (f_tasks v)"
      unfolding uu using count_end_shape by (auto simp: same_shape_def)
    ultimately show ?thesis using m(2) [OF vu] by simp
  next
    assume "raises p st u" and "res1 = res"
    then show ?thesis using fm.rel_raises m Cons.prems(3) by blast
  qed
  then show ?case using Cons.IH [OF next_loop] Cons.prems(2,4) by simp
qed

lemma number_of_found:
  "workflow_number_of fuel N k p (int p) op OPH_OPERATOR_FOR b st = Some (r, st') \<Longrightarrow>
   N \<le> length (f_tasks st) \<Longrightarrow> p < N \<Longrightarrow> r = 1 \<Longrightarrow> matched N op p st'"
proof (induction fuel arbitrary: k b st r st')
  case (Suc fuel)
  have "number_loop fuel N (t_dependents_indexes (f_tasks st ! k)) p (int p) op OPH_OPERATOR_FOR b 0 st = Some (r, st')"
    using Suc.prems by (auto split: if_splits)
  from number_loop_found [OF _ Suc.prems(3) this] Suc.IH Suc.prems show ?case by blast
qed simp

lemma keeps_update [simp]:
  "keeps p (st\<lparr>f_flag := x\<rparr>) u \<longleftrightarrow> keeps p st u"
  "keeps p (st\<lparr>f_child := c\<rparr>) u \<longleftrightarrow> keeps p st u"
  by (simp_all add: keeps_def same_shape_def linked_def)

lemma ways_keeps: "ways fuel N k gp op nop st = Some (r, st') \<Longrightarrow> keeps k st st'"
  unfolding ways_def by (drule kp.number_of_rel) simp

lemma fco_branch_keeps: "fco_branch fuel w k gp op st = Some (bad, st') \<Longrightarrow> keeps k st st'"
  unfolding fco_branch_def by (auto split: bind_splits if_splits dest!: ways_keeps)

lemma fco_branches_keeps: "fco_branches fuel w k gp st = Some (bad, st') \<Longrightarrow> keeps k st st'"
  unfolding fco_branches_def
  by (auto split: bind_splits if_splits dest!: fco_branch_keeps intro: kp.rel_trans)

lemma fco_endif_keeps: "fco_endif fuel w k gp b st = Some (bad, st') \<Longrightarrow> keeps k st st'"
  unfolding fco_endif_def by (auto split: bind_splits if_splits dest!: ways_keeps)

lemma fco_for_keeps: "fco_for fuel w k st = Some (bad, st') \<Longrightarrow> keeps k st st'"
  unfolding fco_for_def by (auto split: bind_splits if_splits dest!: ways_keeps)

lemma fco_task_keeps: "fco_task fuel w k st = Some (bad, st') \<Longrightarrow> keeps k st st'"
  unfolding fco_task_def
  by (auto split: bind_splits if_splits intro: kp.rel_trans kp.rel_refl fco_for_keeps
      dest!: fco_branches_keeps fco_endif_keeps)

lemma fco_for_matched:
  assumes "fco_for fuel w k st = Some (False, st')" and "w_tasks_num w \<le> length (f_tasks st)" and "k < w_tasks_num w"
  shows "matched (w_tasks_num w) OPH_OPERATOR_ENDFOR k st'"
proof -
  from assms(1) have "ways fuel (w_tasks_num w) k (int k) OPH_OPERATOR_ENDFOR OPH_OPERATOR_FOR st = Some (1, st')"
    by (auto simp: fco_for_def split: bind_splits if_splits)
  with number_of_found assms(2,3) show ?thesis unfolding ways_def by fastforce
qed

lemma keeps_matched:
  assumes "keeps p st u" and "x \<noteq> p" and "matched N op x st"
  shows "matched N op x u"
  using assms unfolding keeps_def matched_def same_shape_def by metis

lemma fco_loop_matched:
  assumes "fco_loop fuel w ks st = Some (False, st')" and "distinct ks"
    and "w_tasks_num w \<le> length (f_tasks st)" and "\<forall>k\<in>set ks. k < w_tasks_num w"
  shows "same_shape st st' \<and> (\<forall>x. x \<notin> set ks \<longrightarrow> matched (w_tasks_num w) OPH_OPERATOR_ENDFOR x st \<longrightarrow>
      matched (w_tasks_num w) OPH_OPERATOR_ENDFOR x st') \<and>
    (\<forall>k\<in>set ks. \<forall>operator. t_operator (f_tasks st ! k) = Some operator \<longrightarrow> is_operator operator OPH_OPERATOR_FOR \<longrightarrow>
      matched (w_tasks_num w) OPH_OPERATOR_ENDFOR k st')"
  using assms
proof (induction ks arbitrary: st)
  case Nil
  then show ?case by (simp add: same_shape_def)
next
  case (Cons k ks)
  from Cons.prems(1) obtain u where t: "fco_task fuel w k st = Some (False, u)"
    and l: "fco_loop fuel w ks u = Some (False, st')"
    by (auto split: bind_splits if_splits)
  have kp: "keeps k st u" by (rule fco_task_keeps [OF t])
  then have len: "length (f_tasks u) = length (f_tasks st)" and sh: "same_shape st u"
    and o: "t_operator (f_tasks u ! x) = t_operator (f_tasks st ! x)" for x
    by (auto simp: keeps_def same_shape_def)
  note ih = Cons.IH [OF l]
  have ih: "same_shape u st' \<and> (\<forall>x. x \<notin> set ks \<longrightarrow> matched (w_tasks_num w) OPH_OPERATOR_ENDFOR x u \<longrightarrow>
      matched (w_tasks_num w) OPH_OPERATOR_ENDFOR x st') \<and>
    (\<forall>k\<in>set ks. \<forall>operator. t_operator (f_tasks u ! k) = Some operator \<longrightarrow> is_operator operator OPH_OPERATOR_FOR \<longrightarrow>
      matched (w_tasks_num w) OPH_OPERATOR_ENDFOR k st')"
    using ih Cons.prems(2-4) len by simp
  have here: "matched (w_tasks_num w) OPH_OPERATOR_ENDFOR k u"
    if "t_operator (f_tasks st ! k) = Some operator" "is_operator operator OPH_OPERATOR_FOR" for operator
  proof -
    have "fco_for fuel w k st = Some (False, u)" using t that by (simp add: fco_task_def)
    then show ?thesis using fco_for_matched Cons.prems(3,4) by simp
  qed
  show ?case
  proof (intro conjI)
    show "same_shape st st'" using sh ih same_shape_trans by blast
    show "\<forall>x. x \<notin> set (k # ks) \<longrightarrow> matched (w_tasks_num w) OPH_OPERATOR_ENDFOR x st \<longrightarrow>
        matched (w_tasks_num w) OPH_OPERATOR_ENDFOR x st'"
      using ih keeps_matched [OF kp] by auto
    show "\<forall>x\<in>set (k # ks). \<forall>operator. t_operator (f_tasks st ! x) = Some operator \<longrightarrow>
        is_operator operator OPH_OPERATOR_FOR \<longrightarrow> matched (w_tasks_num w) OPH_OPERATOR_ENDFOR x st'"
      using ih here o Cons.prems(2) by auto
  qed
qed

section \<open>The matching returns\<close>

text \<open>
  What holds of every state of the matching: the graph and the operators are those of the workflow, the parent of a task is one of its
  ancestors, and the variable \<open>child\<close> is set as soon as a task has a parent.
\<close>

definition fco_ok :: "nat \<Rightarrow> oph_workflow_task list \<Rightarrow> fco_state \<Rightarrow> bool" where
  "fco_ok N ts st \<longleftrightarrow> length (f_tasks st) = length ts \<and>
     (\<forall>x < N. t_operator (f_tasks st ! x) = t_operator (ts ! x) \<and>
        t_dependents_indexes (f_tasks st ! x) = t_dependents_indexes (ts ! x)) \<and>
     (\<forall>j < N. 0 \<le> t_parent (f_tasks st ! j) \<longrightarrow>
        (nat (t_parent (f_tasks st ! j)), j) \<in> (dag_edges N ts)\<^sup>+ \<and> f_child st \<noteq> None)"

definition operators_ok :: "nat \<Rightarrow> oph_workflow_task list \<Rightarrow> bool" where
  [code_defs]: "operators_ok N ts \<longleftrightarrow> list_all (\<lambda>t. t_operator t \<noteq> None) (take N ts)"

lemma ex_bool: "\<exists>b. b" "\<exists>b. \<not> b" "Ex Not"
  by blast+

lemma operators_okD: "operators_ok N ts \<Longrightarrow> N \<le> length ts \<Longrightarrow> x < N \<Longrightarrow> \<exists>operator. t_operator (ts ! x) = Some operator"
  by (auto simp: operators_ok_def list_all_length)

lemma fco_ok_raise_level: "fco_ok N ts st \<Longrightarrow> fco_ok N ts (raise_level j v st)"
  by (simp add: fco_ok_def raise_level_def)

lemma fco_ok_raise_nesting: "fco_ok N ts st \<Longrightarrow> fco_ok N ts (raise_nesting p bn st)"
  by (auto simp: fco_ok_def raise_nesting_def nth_update_if)

lemma fco_ok_flag [simp]: "fco_ok N ts (st\<lparr>f_flag := fl\<rparr>) = fco_ok N ts st"
  by (simp add: fco_ok_def)

lemma fco_ok_child: "fco_ok N ts st \<Longrightarrow> fco_ok N ts (st\<lparr>f_child := Some c\<rparr>)"
  by (simp add: fco_ok_def)

lemma fco_ok_init: "N \<le> length ts \<Longrightarrow> fco_ok N ts (fco_init N ts)"
  by (simp add: fco_ok_def fco_init_def nth_append)

lemma fco_ok_count_end:
  assumes "fco_ok N ts st" and "(p, j) \<in> (dag_edges N ts)\<^sup>+"
  shows "fco_ok N ts (snd (count_end j p gp res st))"
  using assms by (auto simp: fco_ok_def count_end_def nth_update_if Let_def)

lemma fco_ok_graph:
  assumes "fco_ok N ts st" and "indexes_ok N ts"
  shows "dag_edges N (f_tasks st) = dag_edges N ts" and "indexes_ok N (f_tasks st)"
  using assms by (auto simp: fco_ok_def dag_edges_def indexes_ok_def list_all_length)

text \<open>The workflows on which the matching returns: acyclic, with valid indexes and an operator in every task; and the fuel that is enough.\<close>

definition task_edges :: "oph_workflow \<Rightarrow> (nat \<times> nat) set" where
  "task_edges w = dag_edges (w_tasks_num w) (w_tasks w)"

definition fco_dag :: "oph_workflow \<Rightarrow> nat \<Rightarrow> bool" where
  "fco_dag w fuel \<longleftrightarrow> indexes_ok (w_tasks_num w) (w_tasks w) \<and> acyclic (dag_edges (w_tasks_num w) (w_tasks w)) \<and>
     operators_ok (w_tasks_num w) (w_tasks w) \<and> w_tasks_num w < fuel"

abbreviation fok :: "oph_workflow \<Rightarrow> fco_state \<Rightarrow> bool" where
  "fok w \<equiv> fco_ok (w_tasks_num w) (w_tasks w)"

lemma fco_dagD:
  assumes "fco_dag w fuel"
  shows "indexes_ok (w_tasks_num w) (w_tasks w)" and "acyclic (task_edges w)" and "operators_ok (w_tasks_num w) (w_tasks w)"
    and "w_tasks_num w < fuel"
  using assms by (simp_all add: fco_dag_def task_edges_def)

lemma task_edges_bounded: "fco_dag w fuel \<Longrightarrow> task_edges w \<subseteq> {..<w_tasks_num w} \<times> {..<w_tasks_num w}"
  unfolding task_edges_def by (rule dag_edges_bound) (rule fco_dagD)

lemma finite_task_edges: "fco_dag w fuel \<Longrightarrow> finite (task_edges w)"
  by (rule finite_subset [OF task_edges_bounded]) simp_all

lemma tasks_in: "fco_dag w fuel \<Longrightarrow> w_tasks_num w \<le> length (w_tasks w)"
  by (simp add: fco_dag_def indexes_ok_def)

lemma ok_operator:
  "fco_dag w fuel \<Longrightarrow> fok w st \<Longrightarrow> x < w_tasks_num w \<Longrightarrow> \<exists>operator. t_operator (f_tasks st ! x) = Some operator"
  using operators_okD [OF fco_dagD(3) tasks_in] by (simp add: fco_ok_def)

lemma ok_dependents:
  "fco_dag w fuel \<Longrightarrow> fok w st \<Longrightarrow> x < w_tasks_num w \<Longrightarrow> j \<in> set (t_dependents_indexes (f_tasks st ! x)) \<Longrightarrow>
   0 \<le> j \<and> nat j < w_tasks_num w \<and> (x, nat j) \<in> task_edges w"
  using indexes_okD [OF fco_dagD(1), of w fuel x j] by (auto simp: fco_ok_def task_edges_def dag_edges_def)

text \<open>One turn of the loop: whatever the operator, its count is defined and keeps the state as required.\<close>

lemma number_loop_returns:
  assumes "\<And>j bn u. j \<in> set js \<Longrightarrow> fok w u \<Longrightarrow> \<exists>r1 u'. workflow_number_of n (w_tasks_num w) (nat j) p gp op nop bn u = Some (r1, u') \<and> fok w u'"
    and "\<And>j. j \<in> set js \<Longrightarrow> 0 \<le> j \<and> nat j < w_tasks_num w \<and> (p, nat j) \<in> (task_edges w)\<^sup>+"
    and d: "fco_dag w fuel"
  shows "fok w st \<Longrightarrow> \<exists>r1 st'. number_loop n (w_tasks_num w) js p gp op nop b res st = Some (r1, st') \<and> fok w st'"
  using assms
proof (induction js arbitrary: res st)
  case (Cons j0 js)
  let ?j = "nat j0" and ?st1 = "raise_level (nat j0) (b + f_level st ! p) st"
  let ?endop = "if b > 0 \<and> nop \<noteq> OPH_OPERATOR_FOR then OPH_OPERATOR_ENDIF else op"
  let ?bn = "if f_level ?st1 ! ?j > b + f_level ?st1 ! p then f_level ?st1 ! ?j - f_level ?st1 ! p else b"
  have j: "0 \<le> j0" "?j < w_tasks_num w" "(p, ?j) \<in> (task_edges w)\<^sup>+" using Cons.prems(3) [of j0] by auto
  have ok1: "fok w ?st1" by (rule fco_ok_raise_level [OF Cons.prems(1)])
  obtain operator where o: "t_operator (f_tasks ?st1 ! ?j) = Some operator" using ok_operator [OF d ok1 j(2)] by blast
  have sub: "\<exists>r1 u'. workflow_number_of n (w_tasks_num w) ?j p gp op nop bn u = Some (r1, u') \<and> fok w u'" if "fok w u" for bn u
    using Cons.prems(2) [of j0] that by simp
  have rest: "\<exists>r1 st'. (if res1 > 1 then Some (res1, u) else number_loop n (w_tasks_num w) js p gp op nop b res1 u) = Some (r1, st') \<and> fok w st'"
    if "fok w u" for res1 u
    using Cons.IH [of u res1] that Cons.prems by simp
  show ?case
  proof (cases "is_operator operator ?endop")
    case True
    obtain r1 u where n: "workflow_number_of n (w_tasks_num w) ?j p gp op nop (?bn - 1) ?st1 = Some (r1, u)" "fok w u"
      using sub [OF ok1] by blast
    obtain res2 v where c: "count_end ?j p gp res ?st1 = (res2, v)" by fastforce
    then have "fok w v" using fco_ok_count_end [OF ok1, of p ?j gp res] j(3) by (simp add: task_edges_def)
    then have "\<exists>r1 st'. number_loop n (w_tasks_num w) (j0 # js) p gp op nop b res st = Some (r1, st') \<and> fok w st'" if "?bn = 0"
      using True j(1,2) o c rest [of v res2] rest [of ?st1 res] ok1 that
      by (cases "f_flag ?st1 ! ?j") (simp_all add: Let_def del: if_split)
    moreover have "\<exists>r1 st'. number_loop n (w_tasks_num w) (j0 # js) p gp op nop b res st = Some (r1, st') \<and> fok w st'" if "?bn \<noteq> 0"
      using True j(1,2) o n rest [of u "res + r1"] that by (simp add: Let_def del: if_split)
    ultimately show ?thesis by blast
  next
    case False
    define check where "check \<longleftrightarrow> list_ex (is_operator operator) (strtok CHR ''|'' nop)"
    define bn where "bn = (if check then b + 1 else b)"
    define v where "v = (if check then raise_level ?j (bn + f_level ?st1 ! p) (raise_nesting p bn ?st1) else ?st1)"
    have "fok w v" using ok1 by (simp add: v_def fco_ok_raise_level fco_ok_raise_nesting)
    then obtain r1 u where n: "workflow_number_of n (w_tasks_num w) ?j p gp op nop bn v = Some (r1, u)" "fok w u"
      using sub by blast
    then show ?thesis
      using False j(1,2) o rest [of u "res + r1"] by (cases check) (simp_all add: Let_def bn_def v_def flip: check_def)
  qed
qed simp

lemma number_of_returns:
  assumes d: "fco_dag w fuel" and ok: "fok w st" and k: "k < w_tasks_num w" and "below (task_edges w) k < n" and "(p, k) \<in> (task_edges w)\<^sup>*"
  shows "\<exists>r1 st'. workflow_number_of n (w_tasks_num w) k p gp op nop b st = Some (r1, st') \<and> fok w st'"
  using assms(2-5)
proof (induction n arbitrary: k b st)
  case (Suc n)
  let ?js = "t_dependents_indexes (f_tasks st ! k)"
  have e: "0 \<le> j \<and> nat j < w_tasks_num w \<and> (k, nat j) \<in> task_edges w" if "j \<in> set ?js" for j
    using ok_dependents [OF d Suc.prems(1,2) that] .
  have "\<exists>r1 u'. workflow_number_of n (w_tasks_num w) (nat j) p gp op nop bn u = Some (r1, u') \<and> fok w u'"
    if "j \<in> set ?js" and "fok w u" for j bn u
    using Suc.IH [of u "nat j" bn] e [OF that(1)] that(2) below_decreases [OF fco_dagD(2) [OF d] finite_task_edges [OF d], of k "nat j"] Suc.prems(3,4)
    by (auto intro: rtrancl_into_rtrancl)
  moreover have "(p, nat j) \<in> (task_edges w)\<^sup>+" if "j \<in> set ?js" for j
    using e [OF that] Suc.prems(4) by (auto intro: rtrancl_into_trancl1)
  ultimately have "\<exists>r1 st'. number_loop n (w_tasks_num w) ?js p gp op nop b 0 st = Some (r1, st') \<and> fok w st'"
    using e by (intro number_loop_returns [OF _ _ d Suc.prems(1)]) auto
  then show ?case using Suc.prems(2) by simp
qed simp

lemma ways_returns:
  assumes d: "fco_dag w fuel" and "fok w st" and "k < w_tasks_num w"
  shows "\<exists>r1 st'. ways fuel (w_tasks_num w) k gp op nop st = Some (r1, st') \<and> fok w st'"
  unfolding ways_def using assms below_bound [OF task_edges_bounded [OF d], of k] fco_dagD(4) [OF d]
  by (intro number_of_returns [OF d]) auto

lemma wrong_parent_returns:
  assumes d: "fco_dag w fuel" and ok: "fok w st" and k: "k < w_tasks_num w" and "\<forall>i \<in> set is. i < w_tasks_num w"
  shows "\<exists>bad. wrong_parent fuel w is k op st = Some bad"
  using assms(4)
proof (induction "is")
  case (Cons i "is")
  show ?case
  proof (cases "t_parent (f_tasks st ! i) = int k")
    case True
    then obtain c where c: "f_child st = Some c" using ok Cons.prems by (auto simp: fco_ok_def)
    let ?w = "w\<lparr>w_tasks := f_tasks st\<rparr>"
    have "\<exists>b. oph_workflow_is_child_of fuel ?w (int i) c = Some b"
    proof (cases "0 \<le> c \<and> c < int (w_tasks_num w)")
      case True
      have "oph_workflow_is_child_of fuel ?w (int i) (int (nat c)) = Some ((i, nat c) \<in> (dag_edges (w_tasks_num ?w) (w_tasks ?w))\<^sup>*)"
        by (rule is_child_of_reach)
          (use True Cons.prems fco_ok_graph [OF ok fco_dagD(1) [OF d]] fco_dagD(2) [OF d] below_bound [OF task_edges_bounded [OF d], of i] fco_dagD(4) [OF d] in \<open>auto simp: task_edges_def\<close>)
      then show ?thesis using True by auto
    qed (cases fuel, use fco_dagD(4) [OF d] in auto)
    then obtain b where "oph_workflow_is_child_of fuel ?w (int i) c = Some b" ..
    then show ?thesis using Cons c by (cases b) (auto simp: ex_bool)
  qed (use Cons in auto)
qed (simp add: ex_bool)

lemma gparent_returns:
  assumes d: "fco_dag w fuel" and ok: "fok w st" and k: "k < w_tasks_num w"
  shows "\<exists>x. oph_gparent_of fuel (f_tasks st) (int k) = Some x"
proof -
  have "parents_ok (w_tasks_num w) (task_edges w) (f_tasks st)" "w_tasks_num w \<le> length (f_tasks st)"
    using ok tasks_in [OF d] by (simp_all add: fco_ok_def parents_ok_def task_edges_def)
  then show ?thesis
    using gparent_ancestor [OF _ task_edges_bounded [OF d] fco_dagD(2) [OF d] _ k fco_dagD(4) [OF d]] by blast
qed

lemma fco_for_returns:
  assumes d: "fco_dag w fuel" and ok: "fok w st" and k: "k < w_tasks_num w"
  shows "\<exists>bad st'. fco_for fuel w k st = Some (bad, st') \<and> fok w st'"
proof -
  obtain n u where u: "ways fuel (w_tasks_num w) k (int k) OPH_OPERATOR_ENDFOR OPH_OPERATOR_FOR st = Some (n, u)" "fok w u"
    using ways_returns [OF d ok k] by blast
  obtain bad where "wrong_parent fuel w [0..<w_tasks_num w] k OPH_OPERATOR_ENDFOR u = Some bad"
    using wrong_parent_returns [OF d u(2) k] by fastforce
  with u show ?thesis by (simp add: fco_for_def ex_bool)
qed

lemma fco_endif_returns:
  assumes d: "fco_dag w fuel" and ok: "fok w st" and k: "k < w_tasks_num w"
  shows "\<exists>bad st'. fco_endif fuel w k gp b st = Some (bad, st') \<and> fok w st'"
proof -
  obtain n u where u: "ways fuel (w_tasks_num w) k gp OPH_OPERATOR_ENDIF OPH_OPERATOR_IF st = Some (n, u)" "fok w u"
    using ways_returns [OF d ok k] by blast
  obtain bad where "wrong_parent fuel w [0..<w_tasks_num w] k OPH_OPERATOR_ENDIF u = Some bad"
    using wrong_parent_returns [OF d u(2) k] by fastforce
  with u show ?thesis by (simp add: fco_endif_def ex_bool)
qed

lemma fco_branch_returns:
  assumes d: "fco_dag w fuel" and ok: "fok w st" and k: "k < w_tasks_num w"
  shows "\<exists>bad st'. fco_branch fuel w k gp op st = Some (bad, st') \<and> fok w st'"
proof -
  obtain n u where u: "ways fuel (w_tasks_num w) k gp op OPH_OPERATOR_IF (st\<lparr>f_child := Some (- 1)\<rparr>) = Some (n, u)" "fok w u"
    using ways_returns [OF d fco_ok_child [OF ok] k] by blast
  obtain bad where "wrong_parent fuel w [0..<w_tasks_num w] k op u = Some bad"
    using wrong_parent_returns [OF d u(2) k] by fastforce
  with u show ?thesis by (simp add: fco_branch_def ex_bool)
qed

lemma fco_branches_returns:
  assumes d: "fco_dag w fuel" and ok: "fok w st" and k: "k < w_tasks_num w"
  shows "\<exists>bad st'. fco_branches fuel w k gp st = Some (bad, st') \<and> fok w st'"
proof -
  obtain bad u where u: "fco_branch fuel w k gp OPH_OPERATOR_ELSEIF st = Some (bad, u)" "fok w u"
    using fco_branch_returns [OF d ok k] by blast
  with fco_branch_returns [OF d u(2) k, of gp OPH_OPERATOR_ELSE] show ?thesis by (auto simp: fco_branches_def)
qed

lemma fco_task_returns:
  assumes d: "fco_dag w fuel" and ok: "fok w st" and k: "k < w_tasks_num w"
  shows "\<exists>bad st'. fco_task fuel w k st = Some (bad, st') \<and> fok w st'"
proof -
  obtain operator where o: "t_operator (f_tasks st ! k) = Some operator" using ok_operator [OF d ok k] by blast
  obtain kk where kk: "oph_gparent_of fuel (f_tasks st) (int k) = Some kk" using gparent_returns [OF d ok k] by blast
  have b: "\<exists>bad u bad' u'. fco_branches fuel w k gp st = Some (bad, u) \<and> fok w u \<and> fco_endif fuel w k gp f u = Some (bad', u') \<and> fok w u'" for gp f
    using fco_branches_returns [OF d ok k, of gp] fco_endif_returns [OF d _ k] by blast
  show ?thesis
    using o kk fco_for_returns [OF d ok k] b [of "int k" True] b [of kk False] fco_endif_returns [OF d ok k, of kk False] ok
    by (auto simp: fco_task_def)
qed

lemma fco_loop_returns:
  assumes d: "fco_dag w fuel"
  shows "fok w st \<Longrightarrow> \<forall>k \<in> set ks. k < w_tasks_num w \<Longrightarrow> \<exists>bad st'. fco_loop fuel w ks st = Some (bad, st') \<and> fok w st'"
proof (induction ks arbitrary: st)
  case (Cons k ks)
  obtain bad u where "fco_task fuel w k st = Some (bad, u)" "fok w u"
    using fco_task_returns [OF d Cons.prems(1), of k] Cons.prems(2) by fastforce
  with Cons.IH [of u] Cons.prems(2) show ?case by auto
qed (simp add: ex_bool)

lemma validate_fco_returns:
  assumes d: "fco_dag w fuel"
  shows "\<exists>bad st. fco_loop fuel w [0..<w_tasks_num w] (fco_init (w_tasks_num w) (w_tasks w)) = Some (bad, st) \<and> fok w st"
  using fco_loop_returns [OF d fco_ok_init [OF tasks_in [OF d]]] by simp


section \<open>Properties\<close>

text \<open>
  C27: on an acyclic workflow whose dependents are valid indexes, \<open>oph_workflow_is_child_of\<close> terminates (with
  one more level of recursion than there are tasks) and decides reachability along the dependents.\<close>

theorem oph_workflow_is_child_of_correct:
  assumes "indexes_ok (w_tasks_num w) (w_tasks w)" and "acyclic (dag_edges (w_tasks_num w) (w_tasks w))"
    and "p < w_tasks_num w" and "c < w_tasks_num w" and "w_tasks_num w < fuel"
  shows "oph_workflow_is_child_of fuel w (int p) (int c) =
    Some ((p, c) \<in> (dag_edges (w_tasks_num w) (w_tasks w))\<^sup>*)"
  using is_child_of_reach [OF assms(1,2,4,3)] below_bound [OF dag_edges_bound [OF assms(1)]] assms(5)
  by (meson le_less_trans)

theorem oph_workflow_is_child_of_correct_witness:
  "(0, 1) \<in> (dag_edges 2 demo_indexed)\<^sup>*"
proof -
  let ?w = "(demo_workflow [])\<lparr>w_tasks := demo_indexed\<rparr>"
  have ok: "indexes_ok (w_tasks_num ?w) (w_tasks ?w)" by code_simp
  have n: "w_tasks_num ?w = 2" by code_simp
  have deps: "map t_dependents_indexes (take 2 demo_indexed) = [[1], []]" by code_simp
  have "t_dependents_indexes (demo_indexed ! 1) = []" and d0: "t_dependents_indexes (demo_indexed ! 0) = [1]"
    by code_simp+
  then have "dag_edges 2 demo_indexed \<subseteq> less_than"
    by (auto simp: dag_edges_def less_2_cases_iff)
  then have ac: "acyclic (dag_edges (w_tasks_num ?w) (w_tasks ?w))"
    using n by (auto intro: acyclic_subset [OF wf_acyclic [OF wf_less_than]])
  have "oph_workflow_is_child_of 3 ?w 0 1 = Some True" by code_simp
  with oph_workflow_is_child_of_correct [OF ok ac, of 0 1 3] n show ?thesis by simp
qed

definition is_loop :: "oph_workflow_task \<Rightarrow> bool" where
  [code_defs]: "is_loop t \<longleftrightarrow> (case t_operator t of None \<Rightarrow> False | Some x \<Rightarrow> is_operator x OPH_OPERATOR_FOR)"

definition is_loop_end :: "oph_workflow_task \<Rightarrow> bool" where
  [code_defs]: "is_loop_end t \<longleftrightarrow> (case t_operator t of None \<Rightarrow> False | Some x \<Rightarrow> is_operator x OPH_OPERATOR_ENDFOR)"

text \<open>
  C11: on an acyclic workflow whose dependents are valid indexes and whose tasks all have an operator, \<open>oph_workflow_validate_fco\<close>
  returns, with one more level of recursion than there are tasks, and it either refuses the workflow as badly formed or accepts it; if it
  accepts it, every \<open>oph_for\<close> task has an end-task: the two point at each other through \<open>child\<close> and \<open>parent\<close>, the operator of the
  end-task is \<open>oph_endfor\<close>, and the end-task is a descendant of the \<open>oph_for\<close> task.\<close>

theorem validate_fco_for_matched:
  assumes "indexes_ok (w_tasks_num w) (w_tasks w)" and "acyclic (dag_edges (w_tasks_num w) (w_tasks w))"
    and "operators_ok (w_tasks_num w) (w_tasks w)" and "w_tasks_num w < fuel"
  shows "\<exists>rc w'. oph_workflow_validate_fco fuel w = Some (rc, w') \<and>
    rc \<in> {OPH_WORKFLOW_EXIT_SUCCESS, OPH_WORKFLOW_EXIT_BAD_PARAM_ERROR} \<and>
    (rc = OPH_WORKFLOW_EXIT_SUCCESS \<longrightarrow>
      (\<forall>k < w_tasks_num w. is_loop (w_tasks w ! k) \<longrightarrow>
        (\<exists>j < w_tasks_num w. t_child (w_tasks w' ! k) = int j \<and> t_parent (w_tasks w' ! j) = int k \<and>
           is_loop_end (w_tasks w' ! j) \<and> (k, j) \<in> (dag_edges (w_tasks_num w) (w_tasks w))\<^sup>+)))"
proof -
  let ?N = "w_tasks_num w" and ?st = "fco_init (w_tasks_num w) (w_tasks w)"
  have d: "fco_dag w fuel" using assms by (simp add: fco_dag_def)
  obtain bad st where l: "fco_loop fuel w [0..<?N] ?st = Some (bad, st)" and ok: "fok w st"
    using validate_fco_returns [OF d] by blast
  have "\<exists>j < ?N. t_child (f_tasks st ! k) = int j \<and> t_parent (f_tasks st ! j) = int k \<and>
      is_loop_end (f_tasks st ! j) \<and> (k, j) \<in> (dag_edges ?N (w_tasks w))\<^sup>+"
    if k: "k < ?N" "is_loop (w_tasks w ! k)" and "\<not> bad" for k
  proof -
    obtain operator where o: "t_operator (f_tasks ?st ! k) = Some operator" "is_operator operator OPH_OPERATOR_FOR"
      using k fco_ok_init [OF tasks_in [OF d]] by (auto simp: is_loop_def fco_ok_def split: option.splits)
    have "matched ?N OPH_OPERATOR_ENDFOR k st"
      using fco_loop_matched [of fuel w "[0..<?N]" ?st st] l \<open>\<not> bad\<close> o k(1) tasks_in [OF d] fco_ok_init [OF tasks_in [OF d]]
      by (simp add: fco_ok_def)
    then obtain j where j: "j < ?N" "t_child (f_tasks st ! k) = int j" "t_parent (f_tasks st ! j) = int k"
        "is_loop_end (f_tasks st ! j)"
      by (auto simp: matched_def linked_def is_loop_end_def)
    then have "(k, j) \<in> (dag_edges ?N (w_tasks w))\<^sup>+" using ok by (auto simp: fco_ok_def)
    with j show ?thesis by blast
  qed
  then show ?thesis using l by (simp add: oph_workflow_validate_fco_def Let_def)
qed

definition demo_loop :: oph_workflow where
  [code_defs]: "demo_loop = empty_workflow
     \<lparr>w_tasks := [zero_task\<lparr>t_name := Some ''a'', t_operator := Some ''oph_for'', t_dependents_indexes := [1]\<rparr>,
                 zero_task\<lparr>t_name := Some ''b'', t_operator := Some ''oph_subset'', t_dependents_indexes := [2]\<rparr>,
                 zero_task\<lparr>t_name := Some ''c'', t_operator := Some ''oph_endfor''\<rparr>, zero_task],
      w_tasks_num := 3\<rparr>"

theorem validate_fco_for_matched_witness:
  "\<exists>w' j. oph_workflow_validate_fco 4 demo_loop = Some (OPH_WORKFLOW_EXIT_SUCCESS, w') \<and>
     t_child (w_tasks w' ! 0) = int j \<and> t_parent (w_tasks w' ! j) = 0"
proof -
  have r: "map_option fst (oph_workflow_validate_fco 4 demo_loop) = Some OPH_WORKFLOW_EXIT_SUCCESS" by code_simp
  have n: "w_tasks_num demo_loop = 3" and l: "is_loop (w_tasks demo_loop ! 0)"
    and ok: "indexes_ok (w_tasks_num demo_loop) (w_tasks demo_loop)" "operators_ok (w_tasks_num demo_loop) (w_tasks demo_loop)"
    by code_simp+
  have "dag_edges (w_tasks_num demo_loop) (w_tasks demo_loop) \<subseteq> less_than"
    by (auto simp: dag_edges_def demo_loop_def zero_task_def less_Suc_eq numeral_3_eq_3)
  then have "acyclic (dag_edges (w_tasks_num demo_loop) (w_tasks demo_loop))"
    by (rule acyclic_subset [OF wf_acyclic [OF wf_less_than]])
  note t = validate_fco_for_matched [OF ok(1) this ok(2), of 4]
  obtain w' where v: "oph_workflow_validate_fco 4 demo_loop = Some (OPH_WORKFLOW_EXIT_SUCCESS, w')"
    using r by (auto simp: map_option_case split: option.splits)
  then have "\<forall>k < 3. is_loop (w_tasks demo_loop ! k) \<longrightarrow>
      (\<exists>j < 3. t_child (w_tasks w' ! k) = int j \<and> t_parent (w_tasks w' ! j) = int k \<and>
         is_loop_end (w_tasks w' ! j) \<and> (k, j) \<in> (dag_edges 3 (w_tasks demo_loop))\<^sup>+)"
    using t by (simp add: n)
  from this [rule_format, of 0] l v show ?thesis by fastforce
qed

text \<open>
  Remark: a lone \<open>oph_if\<close> without any \<open>oph_endif\<close> is accepted: the test of the number of ways to the end of the selection
  (zero and more than one at the same time) never holds. A lone \<open>oph_for\<close> is refused.\<close>

theorem validate_fco_if_without_endif:
  "map_option fst (oph_workflow_validate_fco 2 (empty_workflow\<lparr>w_tasks_num := 1,
      w_tasks := [zero_task\<lparr>t_operator := Some ''oph_if''\<rparr>, zero_task]\<rparr>)) = Some OPH_WORKFLOW_EXIT_SUCCESS \<and>
   map_option fst (oph_workflow_validate_fco 2 (empty_workflow\<lparr>w_tasks_num := 1,
      w_tasks := [zero_task\<lparr>t_operator := Some ''oph_for''\<rparr>, zero_task]\<rparr>)) = Some OPH_WORKFLOW_EXIT_BAD_PARAM_ERROR"
  by code_simp

end
