(* ===== verification/Auth_Lists.thy ===== *)
theory Auth_Lists
  imports Args_Parser
begin

text \<open>
  The part of \<^verbatim>\<open>src/src/oph_auth.c\<close> that reads the files of users and sessions, keeps the lists of recent users,
  tokens and failed accesses, and authenticates a user by password. A list of \<open>oph_auth_user_bl\<close> is the list of its
  nodes; the time of \<open>gettimeofday\<close>, the server timeout, the text that \<open>localtime_r\<close> and \<open>strftime\<close> give for a deadline, the
  digest of a password and the content of a file are arguments. The lists of the modules for OpenID and AAA tokens use
  the same functions; the table \<open>usersinfo\<close> of the OpenID build is not part of the model.
\<close>

section \<open>Data\<close>

record oph_auth_user_bl =
  bl_userid :: string
  bl_host :: string
  bl_verified :: bool
  bl_value :: "string option"
  bl_count :: int
  bl_timestamp :: int
  bl_check_time :: int

definition OPH_AUTH_MAX_COUNT :: int where [code_defs]: "OPH_AUTH_MAX_COUNT = 5"

definition c_short :: "int \<Rightarrow> int" where
  [code_defs]: "c_short i = (i + 32768) mod 65536 - 32768"

section \<open>Session codes and files\<close>

text \<open>
  \<open>oph_get_session_code\<close>, for session identifiers shorter than its buffer; the argument \<open>web_server\<close> is the global
  \<open>oph_web_server\<close>.
\<close>

definition oph_get_session_code :: "string option \<Rightarrow> string \<Rightarrow> server_code + string" where
  [code_defs]: "oph_get_session_code web_server sessionid =
     (let tmp = take OPH_MAX_STRING_SIZE sessionid;
          nth_token = (\<lambda>s n. let ts = strtok CHR ''/'' s in
             if n < length ts then Inr (ts ! n) else Inl OPH_SERVER_ERROR) in
      case web_server of
        Some ws \<Rightarrow>
          if length ws \<ge> OPH_MAX_STRING_SIZE \<or> \<not> strncmp_eq sessionid ws (length ws) then Inl OPH_SERVER_ERROR
          else nth_token (drop (length ws) tmp) 1
      | None \<Rightarrow> nth_token tmp 3)"

text \<open>The pieces that successive calls of \<open>fgets\<close> return for the content of a file.\<close>

definition fgets :: "string \<Rightarrow> string" where
  [code_defs]: "fgets s =
     (let t = take (OPH_MAX_STRING_SIZE - 1) s in
      if CHR 0x0A \<in> set t then takeWhile (\<lambda>c. c \<noteq> CHR 0x0A) t @ [CHR 0x0A] else t)"

lemma fgets_nonempty: "s \<noteq> [] \<Longrightarrow> fgets s \<noteq> []"
  by (simp add: fgets_def Let_def OPH_MAX_STRING_SIZE_def)

function file_lines :: "string \<Rightarrow> string list" where
  "file_lines s = (if s = [] then [] else fgets s # file_lines (drop (length (fgets s)) s))"
  by pat_completeness auto
termination
  by (relation "measure length") (auto simp: fgets_nonempty)

declare file_lines.simps [simp del]

definition chop :: "string \<Rightarrow> string" where
  [code_defs]: "chop buffer = (if buffer \<noteq> [] \<and> last buffer = CHR 0x0A then butlast buffer else buffer)"

fun strrchr_cut :: "char \<Rightarrow> string \<Rightarrow> (string \<times> string) option" where
  "strrchr_cut c [] = None"
| "strrchr_cut c (x # s) =
     (case strrchr_cut c s of
        Some (k, v) \<Rightarrow> Some (x # k, v)
      | None \<Rightarrow> if x = c then Some ([], s) else None)"

definition strchr_cut :: "char \<Rightarrow> string \<Rightarrow> (string \<times> string) option" where
  [code_defs]: "strchr_cut c s = map_option (\<lambda>t. (take (length s - length t) s, tl t)) (strchr s c)"

text \<open>
  The loop of \<open>oph_load_file\<close> and \<open>oph_load_file2\<close>, which differ only in the separator and in whether its first or its last
  occurrence ends the key.
\<close>

fun load_lines :: "(string \<Rightarrow> (string \<times> string) option) \<Rightarrow> string list \<Rightarrow> server_code \<times> oph_argument list" where
  "load_lines csplit [] = (OPH_SERVER_OK, [])"
| "load_lines csplit (b # bs) =
     (let buffer = chop b in
      if buffer = [] then load_lines csplit bs
      else (case csplit buffer of
              None \<Rightarrow> (OPH_SERVER_IO_ERROR, [])
            | Some (key, v) \<Rightarrow>
                (case load_lines csplit bs of
                   (rc, args) \<Rightarrow> (rc, \<lparr>arg_key = take OPH_MAX_STRING_SIZE key,
                                     arg_value = take OPH_MAX_STRING_SIZE v\<rparr> # args))))"

definition oph_load_file :: "string option \<Rightarrow> server_code \<times> oph_argument list" where
  [code_defs]: "oph_load_file file =
     (case file of
        None \<Rightarrow> (OPH_SERVER_WRONG_PARAMETER_ERROR, [])
      | Some content \<Rightarrow> load_lines (strchr_cut CHR ''='') (file_lines content))"

definition oph_load_file2 :: "string option \<Rightarrow> server_code \<times> oph_argument list" where
  [code_defs]: "oph_load_file2 file =
     (case file of
        None \<Rightarrow> (OPH_SERVER_WRONG_PARAMETER_ERROR, [])
      | Some content \<Rightarrow> load_lines (strrchr_cut CHR '':'') (file_lines content))"

section \<open>Lists with a deadline\<close>

type_synonym bl = "oph_auth_user_bl list"

definition oph_add_to_bl_verified :: "int \<Rightarrow> bl \<Rightarrow> string \<Rightarrow> string \<Rightarrow> bool \<Rightarrow> bl" where
  [code_defs]: "oph_add_to_bl_verified now head userid host verified =
     \<lparr>bl_userid = userid, bl_host = host, bl_verified = verified, bl_value = None, bl_count = 1,
      bl_timestamp = c_int now, bl_check_time = c_int now\<rparr> # head"

definition oph_add_to_bl :: "int \<Rightarrow> bl \<Rightarrow> string \<Rightarrow> string \<Rightarrow> bl" where
  [code_defs]: "oph_add_to_bl now head userid host = oph_add_to_bl_verified now head userid host False"

text \<open>
  The deadline of an item is a sum of type \<open>int\<close>. Its overflow, which C leaves undefined, is the wrap-around of the machine here; the
  theorems bound the times such that there is none.
\<close>

definition deadtime :: "int \<Rightarrow> oph_auth_user_bl \<Rightarrow> int" where
  [code_defs]: "deadtime timeout item = c_int (bl_timestamp item + timeout)"

definition expired :: "int \<Rightarrow> int \<Rightarrow> oph_auth_user_bl \<Rightarrow> bool" where
  [code_defs]: "expired now timeout item \<longleftrightarrow> now > deadtime timeout item"

text \<open>
  \<open>oph_is_in_bl\<close> removes the expired items on the way to the item of the user and host. \<open>fmt\<close> is \<open>None\<close> when no
  deadline is requested.
\<close>

fun oph_is_in_bl :: "int \<Rightarrow> int \<Rightarrow> (int \<Rightarrow> string option) option \<Rightarrow> string \<Rightarrow> string \<Rightarrow> bl \<Rightarrow>
    int \<times> string option \<times> bl" where
  "oph_is_in_bl now timeout fmt userid host [] = (0, None, [])"
| "oph_is_in_bl now timeout fmt userid host (item # rest) =
     (if expired now timeout item then oph_is_in_bl now timeout fmt userid host rest
      else if bl_userid item = userid \<and> bl_host item = host then
        (let cnt = c_short (bl_count item + 1); hit = (cnt, item\<lparr>bl_count := cnt\<rparr> # rest) in
         case fmt of
           None \<Rightarrow> (fst hit, None, snd hit)
         | Some f \<Rightarrow>
             (case f (deadtime timeout item) of
                None \<Rightarrow> (- 1, None, item # rest)
              | Some d \<Rightarrow> (fst hit, Some d, snd hit)))
      else (case oph_is_in_bl now timeout fmt userid host rest of (r, d, l) \<Rightarrow> (r, d, item # l)))"

fun oph_get_host_by_user_in_bl :: "int \<Rightarrow> int \<Rightarrow> (int \<Rightarrow> string option) option \<Rightarrow> string \<Rightarrow> bl \<Rightarrow>
    string option \<times> string option \<times> bl" where
  "oph_get_host_by_user_in_bl now timeout fmt userid [] = (None, None, [])"
| "oph_get_host_by_user_in_bl now timeout fmt userid (item # rest) =
     (if expired now timeout item then oph_get_host_by_user_in_bl now timeout fmt userid rest
      else if bl_userid item = userid then
        (case fmt of
           None \<Rightarrow> (Some (bl_host item), None, item # rest)
         | Some f \<Rightarrow>
             (case f (deadtime timeout item) of
                None \<Rightarrow> (None, None, item # rest)
              | Some d \<Rightarrow> (Some (bl_host item), Some d, item # rest)))
      else (case oph_get_host_by_user_in_bl now timeout fmt userid rest of (r, d, l) \<Rightarrow> (r, d, item # l)))"

text \<open>\<open>oph_get_user_by_token\<close>: the user, the renewed token when it differs, and whether the token is verified.\<close>

fun oph_get_user_by_token :: "int \<Rightarrow> int \<Rightarrow> string \<Rightarrow> bl \<Rightarrow>
    server_code \<times> (string \<times> string option \<times> bool) option \<times> bl" where
  "oph_get_user_by_token now timeout token [] = (OPH_SERVER_ERROR, None, [])"
| "oph_get_user_by_token now timeout token (item # rest) =
     (if expired now timeout item then oph_get_user_by_token now timeout token rest
      else if bl_host item = token then
        (OPH_SERVER_OK,
         Some (bl_userid item,
               case bl_value item of Some v \<Rightarrow> if v \<noteq> token then Some v else None | None \<Rightarrow> None,
               bl_verified item),
         item\<lparr>bl_count := 0\<rparr> # rest)
      else (case oph_get_user_by_token now timeout token rest of (r, u, l) \<Rightarrow> (r, u, item # l)))"

fun oph_drop_from_bl :: "int \<Rightarrow> int \<Rightarrow> string \<Rightarrow> string \<Rightarrow> bl \<Rightarrow> bl" where
  "oph_drop_from_bl now timeout userid host [] = []"
| "oph_drop_from_bl now timeout userid host (item # rest) =
     (if bl_userid item = userid \<and> bl_host item = host then rest
      else if expired now timeout item then oph_drop_from_bl now timeout userid host rest
      else item # oph_drop_from_bl now timeout userid host rest)"

definition oph_free_bl :: "bl \<Rightarrow> bl" where
  [code_defs]: "oph_free_bl head = []"

fun oph_auth_update_values_of_user :: "int \<Rightarrow> int \<Rightarrow> string \<Rightarrow> string \<Rightarrow> bl \<Rightarrow> bl" where
  "oph_auth_update_values_of_user now timeout userid access_token [] = []"
| "oph_auth_update_values_of_user now timeout userid access_token (item # rest) =
     (if expired now timeout item then oph_auth_update_values_of_user now timeout userid access_token rest
      else (if bl_userid item = userid then item\<lparr>bl_value := Some access_token\<rparr> else item)
           # oph_auth_update_values_of_user now timeout userid access_token rest)"

section \<open>Authentication by password\<close>

text \<open>
  The loop of \<open>oph_auth_user\<close> over the lines of the file of users, in the build with the SSL interface: a null password
  skips the check, a password is compared as it is and by its digest \<open>sha\<close>. The result is the return code, the third
  field of the line on success, the flag \<open>userid_exist\<close> and the list of failed accesses.
\<close>

fun auth_lines :: "int \<Rightarrow> int \<Rightarrow> (int \<Rightarrow> string option) \<Rightarrow> (string \<Rightarrow> string) \<Rightarrow> string \<Rightarrow> string option \<Rightarrow> string \<Rightarrow> bl \<Rightarrow>
    string list \<Rightarrow> server_code \<times> string option \<times> bool \<times> bl" where
  "auth_lines now timeout fmt sha userid passwd host bl [] = (OPH_SERVER_ERROR, None, False, bl)"
| "auth_lines now timeout fmt sha userid passwd host bl (b # bs) =
     (let buffer = chop b in
      if buffer = [] then auth_lines now timeout fmt sha userid passwd host bl bs
      else (case strtok CHR '':'' buffer of
              [] \<Rightarrow> (OPH_SERVER_IO_ERROR, None, False, bl)
            | username # fs \<Rightarrow>
                if userid \<noteq> username then auth_lines now timeout fmt sha userid passwd host bl bs
                else (case oph_is_in_bl now timeout (Some fmt) userid host bl of
                        (cnt, _, bl') \<Rightarrow>
                          if cnt > OPH_AUTH_MAX_COUNT then (OPH_SERVER_AUTH_ERROR, None, False, bl')
                          else (case fs of
                                  [] \<Rightarrow> (OPH_SERVER_IO_ERROR, None, True, bl')
                                | password # rest \<Rightarrow>
                                    if (case passwd of None \<Rightarrow> True | Some p \<Rightarrow> p = password \<or> sha p = password)
                                    then (OPH_SERVER_OK, (case rest of [] \<Rightarrow> None | a # _ \<Rightarrow> Some a), True,
                                          oph_drop_from_bl now timeout userid host bl')
                                    else (OPH_SERVER_ERROR, None, True,
                                          if cnt = 0 then oph_add_to_bl now bl' userid host else bl')))))"

definition oph_auth_user :: "int \<Rightarrow> int \<Rightarrow> (int \<Rightarrow> string option) \<Rightarrow> (string \<Rightarrow> string) \<Rightarrow> string option \<Rightarrow> bl \<Rightarrow> string \<Rightarrow>
    string option \<Rightarrow> string \<Rightarrow> server_code \<times> string option \<times> bool \<times> bl" where
  [code_defs]: "oph_auth_user now timeout fmt sha file bl userid passwd host =
     (case file of
        None \<Rightarrow> (OPH_SERVER_IO_ERROR, None, False, bl)
      | Some content \<Rightarrow> auth_lines now timeout fmt sha userid passwd host bl (file_lines content))"

section \<open>Enabled users\<close>

definition oph_auth_enable_user :: "int \<Rightarrow> bl \<Rightarrow> bl \<Rightarrow> string \<Rightarrow> int \<Rightarrow> string option \<Rightarrow> bl \<times> bl" where
  [code_defs]: "oph_auth_enable_user now auth_users actual_users userid result actual_userid =
     (oph_add_to_bl now auth_users userid (take (OPH_SHORT_STRING_SIZE - 1) (show_int result)),
      case actual_userid of None \<Rightarrow> actual_users | Some a \<Rightarrow> oph_add_to_bl now actual_users userid a)"

definition oph_auth_user_enabling ::
    "int \<Rightarrow> int \<Rightarrow> bl \<Rightarrow> bl \<Rightarrow> string \<Rightarrow> server_code \<times> int \<times> string option \<times> bl \<times> bl" where
  [code_defs]: "oph_auth_user_enabling now timeout auth_users actual_users userid =
     (case oph_get_host_by_user_in_bl now timeout None userid auth_users of
        (None, _, au) \<Rightarrow> (OPH_SERVER_ERROR, - 1, None, au, actual_users)
      | (Some res, _, au) \<Rightarrow>
          (case oph_get_host_by_user_in_bl now timeout None userid actual_users of
             (a, _, ac) \<Rightarrow> (OPH_SERVER_OK, c_int (strtol res), a, au, ac)))"

section \<open>Lemmas\<close>

definition live_entry :: "int \<Rightarrow> int \<Rightarrow> string \<Rightarrow> string \<Rightarrow> bl \<Rightarrow> oph_auth_user_bl option" where
  [code_defs]: "live_entry now timeout userid host bl =
     find (\<lambda>i. \<not> expired now timeout i \<and> bl_userid i = userid \<and> bl_host i = host) bl"

lemma deadtime_simps [simp]:
  "deadtime timeout (i\<lparr>bl_count := n\<rparr>) = deadtime timeout i"
  "0 \<le> bl_timestamp i \<Longrightarrow> 0 \<le> timeout \<Longrightarrow> bl_timestamp i + timeout \<le> 2147483647 \<Longrightarrow> deadtime timeout i = bl_timestamp i + timeout"
  by (simp_all add: deadtime_def c_int_id)

lemma expired_mono: "expired now timeout i \<Longrightarrow> now \<le> now' \<Longrightarrow> expired now' timeout i"
  by (simp add: expired_def)

lemma is_in_bl_None:
  "live_entry now timeout u h bl = None \<Longrightarrow>
   oph_is_in_bl now timeout fmt u h bl = (0, None, filter (\<lambda>i. \<not> expired now timeout i) bl)"
  by (induction bl) (auto simp: live_entry_def split: if_splits)

lemma is_in_bl_Some:
  assumes "live_entry now timeout u h bl = Some i" and "\<forall>x. f x \<noteq> None"
  shows "\<exists>d l. oph_is_in_bl now timeout (Some f) u h bl = (c_short (bl_count i + 1), d, l) \<and>
    (\<forall>now'. now \<le> now' \<longrightarrow> \<not> expired now' timeout i \<longrightarrow>
       live_entry now' timeout u h l = Some (i\<lparr>bl_count := c_short (bl_count i + 1)\<rparr>))"
  using assms(1)
proof (induction bl)
  case (Cons x bl)
  let ?i = "i\<lparr>bl_count := c_short (bl_count i + 1)\<rparr>"
  consider "expired now timeout x" | "\<not> expired now timeout x" "bl_userid x = u \<and> bl_host x = h"
    | "\<not> expired now timeout x" "\<not> (bl_userid x = u \<and> bl_host x = h)" by blast
  then show ?case
  proof cases
    case 1
    with Cons show ?thesis by (simp add: live_entry_def)
  next
    case 2
    with Cons.prems have xi: "x = i" by (simp add: live_entry_def)
    obtain d where d: "f (deadtime timeout i) = Some d" using assms(2) by blast
    have "oph_is_in_bl now timeout (Some f) u h (x # bl) = (c_short (bl_count i + 1), Some d, ?i # bl)"
      using 2 d xi by (simp add: Let_def)
    moreover have "live_entry now' timeout u h (?i # bl) = Some ?i" if "\<not> expired now' timeout i" for now'
      using that 2 xi by (simp add: live_entry_def expired_def)
    ultimately show ?thesis by blast
  next
    case 3
    with Cons.prems have "live_entry now timeout u h bl = Some i" by (auto simp: live_entry_def)
    with Cons.IH obtain d l where
      r: "oph_is_in_bl now timeout (Some f) u h bl = (c_short (bl_count i + 1), d, l)"
      and e: "\<forall>now'. now \<le> now' \<longrightarrow> \<not> expired now' timeout i \<longrightarrow> live_entry now' timeout u h l = Some ?i" by blast
    have "oph_is_in_bl now timeout (Some f) u h (x # bl) = (c_short (bl_count i + 1), d, x # l)"
      using 3 r by auto
    moreover have "live_entry now' timeout u h (x # l) = Some ?i" if "now \<le> now'" "\<not> expired now' timeout i" for now'
      using e that 3 by (auto simp: live_entry_def)
    ultimately show ?thesis by blast
  qed
qed (simp add: live_entry_def)

lemma c_short_id: "- 32768 \<le> i \<Longrightarrow> i \<le> 32767 \<Longrightarrow> c_short i = i"
  by (simp add: c_short_def)

text \<open>The fields after the name in the line of a user, when the file is well-formed up to it.\<close>

fun user_fields :: "string \<Rightarrow> string list \<Rightarrow> string list option" where
  "user_fields u [] = None"
| "user_fields u (b # bs) =
     (let buffer = chop b in
      if buffer = [] then user_fields u bs
      else (case strtok CHR '':'' buffer of
              [] \<Rightarrow> None
            | name # fs \<Rightarrow> if u \<noteq> name then user_fields u bs else Some fs))"

lemma auth_lines_user:
  assumes "user_fields u lines = Some (p # rest)"
  shows "auth_lines now timeout fmt sha u pw host bl lines =
    (case oph_is_in_bl now timeout (Some fmt) u host bl of
       (cnt, _, bl') \<Rightarrow>
         if cnt > OPH_AUTH_MAX_COUNT then (OPH_SERVER_AUTH_ERROR, None, False, bl')
         else if (case pw of None \<Rightarrow> True | Some x \<Rightarrow> x = p \<or> sha x = p)
         then (OPH_SERVER_OK, (case rest of [] \<Rightarrow> None | a # _ \<Rightarrow> Some a), True, oph_drop_from_bl now timeout u host bl')
         else (OPH_SERVER_ERROR, None, True, if cnt = 0 then oph_add_to_bl now bl' u host else bl'))"
  using assms by (induction lines) (auto simp: Let_def split: if_splits list.splits prod.splits)

text \<open>The return codes of a sequence of accesses of the same user from the same host.\<close>

fun run_accesses :: "int \<Rightarrow> (int \<Rightarrow> string option) \<Rightarrow> (string \<Rightarrow> string) \<Rightarrow> string option \<Rightarrow> string \<Rightarrow> string \<Rightarrow> bl \<Rightarrow>
    (int \<times> string option) list \<Rightarrow> server_code list" where
  "run_accesses timeout fmt sha file u h bl [] = []"
| "run_accesses timeout fmt sha file u h bl ((now, pw) # as) =
     (case oph_auth_user now timeout fmt sha file bl u pw h of
        (rc, _, _, bl') \<Rightarrow> rc # run_accesses timeout fmt sha file u h bl' as)"

definition wrong_password :: "(string \<Rightarrow> string) \<Rightarrow> string \<Rightarrow> string option \<Rightarrow> bool" where
  [code_defs]: "wrong_password sha p pw \<longleftrightarrow> (case pw of None \<Rightarrow> False | Some x \<Rightarrow> x \<noteq> p \<and> sha x \<noteq> p)"

lemma access_counted:
  assumes "user_fields u (file_lines content) = Some (p # rest)" and "\<forall>x. fmt x \<noteq> None"
    and "live_entry now timeout u h bl = Some i" and "bl_count i = int k" and "k < 32767"
    and "k < 5 \<longrightarrow> wrong_password sha p pw"
  shows "\<exists>e bl'. oph_auth_user now timeout fmt sha (Some content) bl u pw h =
      (if k < 5 then OPH_SERVER_ERROR else OPH_SERVER_AUTH_ERROR, None, e, bl') \<and>
    (\<forall>now'. now \<le> now' \<longrightarrow> \<not> expired now' timeout i \<longrightarrow>
       live_entry now' timeout u h bl' = Some (i\<lparr>bl_count := int (Suc k)\<rparr>))"
proof -
  have c: "c_short (bl_count i + 1) = int (Suc k)" using assms(4,5) by (simp add: c_short_id)
  obtain d l where r: "oph_is_in_bl now timeout (Some fmt) u h bl = (int (Suc k), d, l)"
    and e: "\<forall>now'. now \<le> now' \<longrightarrow> \<not> expired now' timeout i \<longrightarrow>
      live_entry now' timeout u h l = Some (i\<lparr>bl_count := int (Suc k)\<rparr>)"
    using is_in_bl_Some [OF assms(3,2)] unfolding c by blast
  show ?thesis
    using r e assms(6)
    by (auto simp: oph_auth_user_def auth_lines_user [OF assms(1)] OPH_AUTH_MAX_COUNT_def wrong_password_def
        split: option.splits)
qed

lemma run_accesses_counted:
  assumes "user_fields u (file_lines content) = Some (p # rest)" and "\<forall>x. fmt x \<noteq> None"
    and "live_entry now timeout u h bl = Some i" and "bl_count i = int k" and "k + length as \<le> 32767"
    and "sorted (now # map fst as)" and "\<forall>a\<in>set as. \<not> expired (fst a) timeout i"
    and "\<forall>j < length as. k + j < 5 \<longrightarrow> wrong_password sha p (snd (as ! j))"
    and "\<forall>now'. now \<le> now' \<longrightarrow> \<not> expired now' timeout i \<longrightarrow> live_entry now' timeout u h bl = Some i"
  shows "run_accesses timeout fmt sha (Some content) u h bl as =
    map (\<lambda>j. if j < 5 then OPH_SERVER_ERROR else OPH_SERVER_AUTH_ERROR) [k..<k + length as]"
  using assms(3-)
proof (induction as arbitrary: k i bl now)
  case (Cons a as)
  obtain t pw where a: "a = (t, pw)" by fastforce
  have live: "live_entry t timeout u h bl = Some i" using Cons.prems a by simp
  have w: "k < 5 \<longrightarrow> wrong_password sha p pw" using Cons.prems(6) a by force
  have kl: "k < 32767" using Cons.prems(3) by simp
  from access_counted [OF assms(1,2) live Cons.prems(2) kl w]
  obtain e bl' where
    r: "oph_auth_user t timeout fmt sha (Some content) bl u pw h =
      (if k < 5 then OPH_SERVER_ERROR else OPH_SERVER_AUTH_ERROR, None, e, bl')"
    and l: "\<forall>now'. t \<le> now' \<longrightarrow> \<not> expired now' timeout i \<longrightarrow>
       live_entry now' timeout u h bl' = Some (i\<lparr>bl_count := int (Suc k)\<rparr>)" by blast
  let ?i = "i\<lparr>bl_count := int (Suc k)\<rparr>"
  have ex: "expired now' timeout ?i \<longleftrightarrow> expired now' timeout i" for now' by (simp add: expired_def)
  have "run_accesses timeout fmt sha (Some content) u h bl' as =
      map (\<lambda>j. if j < 5 then OPH_SERVER_ERROR else OPH_SERVER_AUTH_ERROR) [Suc k..<Suc k + length as]"
  proof (rule Cons.IH [of t bl' ?i])
    show "live_entry t timeout u h bl' = Some ?i" using l Cons.prems(5) a by simp
    show "sorted (t # map fst as)" using Cons.prems(4) a by simp
    show "\<forall>j < length as. Suc k + j < 5 \<longrightarrow> wrong_password sha p (snd (as ! j))"
      using Cons.prems(6) by (metis Suc_less_eq add_Suc_shift length_Cons nth_Cons_Suc)
  qed (use Cons.prems l ex a in auto)
  then show ?case using r a by (simp add: upt_rec)
qed simp

lemma fgets_line:
  assumes "CHR 0x0A \<notin> set l" and "length l + 1 < OPH_MAX_STRING_SIZE"
  shows "fgets (l @ CHR 0x0A # r) = l @ [CHR 0x0A]"
proof -
  obtain n where n: "OPH_MAX_STRING_SIZE - 1 - length l = Suc n"
    using assms(2) by (metis Suc_diff_Suc Suc_eq_plus1 less_diff_conv zero_less_diff diff_diff_left add.commute)
  have "take (OPH_MAX_STRING_SIZE - 1) (l @ CHR 0x0A # r) = l @ CHR 0x0A # take n r"
    using assms(2) n by (simp add: take_append del: take_Suc_Cons) (simp add: take_Suc_Cons)
  moreover have "takeWhile (\<lambda>c. c \<noteq> CHR 0x0A) (l @ CHR 0x0A # take n r) = l"
    using assms(1) by (subst takeWhile_append2) auto
  ultimately show ?thesis by (simp add: fgets_def)
qed

lemma file_lines_line:
  assumes "CHR 0x0A \<notin> set l" and "length l + 1 < OPH_MAX_STRING_SIZE"
  shows "file_lines (l @ CHR 0x0A # r) = (l @ [CHR 0x0A]) # file_lines r"
  by (subst file_lines.simps) (simp add: fgets_line [OF assms])

text \<open>A file of lines \<open>key=value\<close> below the size of the buffer is loaded as the list of its pairs, in order.\<close>

lemma oph_load_file_pairs:
  assumes "\<forall>(k, v)\<in>set kvs. CHR ''='' \<notin> set k \<and> CHR 0x0A \<notin> set (k @ v) \<and> length k + length v + 2 < OPH_MAX_STRING_SIZE"
  shows "oph_load_file (Some (concat (map (\<lambda>(k, v). k @ ''='' @ v @ [CHR 0x0A]) kvs))) =
    (OPH_SERVER_OK, map (\<lambda>(k, v). \<lparr>arg_key = k, arg_value = v\<rparr>) kvs)"
  using assms
proof (induction kvs)
  case Nil
  then show ?case by (simp add: oph_load_file_def file_lines.simps)
next
  case (Cons kv kvs)
  obtain k v where kv: "kv = (k, v)" by fastforce
  let ?l = "k @ ''='' @ v" and ?r = "concat (map (\<lambda>(k, v). k @ ''='' @ v @ [CHR 0x0A]) kvs)"
  have ok: "CHR ''='' \<notin> set k" "CHR 0x0A \<notin> set ?l" "length ?l + 1 < OPH_MAX_STRING_SIZE"
    using Cons.prems kv by auto
  have fl: "file_lines (?l @ CHR 0x0A # ?r) = (?l @ [CHR 0x0A]) # file_lines ?r"
    by (rule file_lines_line [OF ok(2,3)])
  have "strchr_cut CHR ''='' ?l = Some (k, v)"
    using ok(1) by (simp add: strchr_cut_def strchr_append)
  moreover have "take OPH_MAX_STRING_SIZE k = k" "take OPH_MAX_STRING_SIZE v = v" using ok(3) by simp_all
  ultimately show ?case
    using Cons kv fl by (simp add: oph_load_file_def chop_def Let_def butlast_append)
qed

section \<open>Properties\<close>

text \<open>
  C24: the lock-out of \<open>oph_auth_user\<close>: of a sequence of accesses of a user of the password file from a host without a
  pending entry, within the timeout from the first one and with a wrong password in the first five, the first five fail as wrong and every later one,
  up to the 32767th, is refused as an authorization error, whatever the password is. The deadlines are numbers of type \<open>int\<close>.\<close>

theorem oph_auth_user_lockout:
  assumes "user_fields u (file_lines content) = Some (p # rest)" and "\<forall>x. fmt x \<noteq> None"
    and "live_entry t0 timeout u h bl = None" and "0 \<le> t0" and "t0 + timeout \<le> 2147483647"
    and "sorted (t0 # map fst as)" and "\<forall>a\<in>set as. fst a \<le> t0 + timeout" and "0 \<le> timeout"
    and "wrong_password sha p pw0" and "\<forall>j < length as. j < 4 \<longrightarrow> wrong_password sha p (snd (as ! j))"
    and "length as < 32767" and "\<forall>i\<in>set bl. - 2147483648 \<le> bl_timestamp i \<and> bl_timestamp i + timeout \<le> 2147483647"
  shows "run_accesses timeout fmt sha (Some content) u h bl ((t0, pw0) # as) =
    map (\<lambda>j. if j < 5 then OPH_SERVER_ERROR else OPH_SERVER_AUTH_ERROR) [0..<Suc (length as)]"
proof -
  let ?bl = "filter (\<lambda>i. \<not> expired t0 timeout i) bl"
  let ?bl' = "oph_add_to_bl t0 ?bl u h" and ?i = "\<lparr>bl_userid = u, bl_host = h, bl_verified = False, bl_value = None,
    bl_count = 1, bl_timestamp = t0, bl_check_time = t0\<rparr>"
  have r: "oph_auth_user t0 timeout fmt sha (Some content) bl u pw0 h = (OPH_SERVER_ERROR, None, True, ?bl')"
    using is_in_bl_None [OF assms(3)] assms(9)
    by (auto simp: oph_auth_user_def auth_lines_user [OF assms(1)] OPH_AUTH_MAX_COUNT_def wrong_password_def
        split: option.splits)
  have b: "?bl' = ?i # ?bl"
    using assms(4,5,8) by (simp add: oph_add_to_bl_def oph_add_to_bl_verified_def c_int_id)
  have live: "live_entry now' timeout u h ?bl' = Some ?i" if "now' \<le> t0 + timeout" for now'
    unfolding b using that assms(4,5,8) by (simp add: live_entry_def expired_def)
  have "run_accesses timeout fmt sha (Some content) u h ?bl' as =
      map (\<lambda>j. if j < 5 then OPH_SERVER_ERROR else OPH_SERVER_AUTH_ERROR) [1..<1 + length as]"
    using assms(4-8,10,11) live
    by (intro run_accesses_counted [OF assms(1,2), where now = t0 and i = ?i]) (auto simp: expired_def)
  then show ?thesis using r by (simp add: upt_rec)
qed

theorem oph_auth_user_lockout_witness:
  "run_accesses 3600 (\<lambda>_. Some ''x'') id (Some ''bob:pw\<newline>'') ''bob'' ''h'' []
     [(10, Some ''a''), (11, Some ''b''), (12, Some ''c''), (13, Some ''d''), (14, Some ''e''), (15, Some ''pw'')] =
   [OPH_SERVER_ERROR, OPH_SERVER_ERROR, OPH_SERVER_ERROR, OPH_SERVER_ERROR, OPH_SERVER_ERROR,
    OPH_SERVER_AUTH_ERROR]"
proof -
  let ?as = "[(11 :: int, Some ''b''), (12, Some ''c''), (13, Some ''d''), (14, Some ''e''), (15, Some ''pw'')]"
  have f: "user_fields ''bob'' (file_lines ''bob:pw\<newline>'') = Some [''pw'']" by code_simp
  have l: "live_entry 10 3600 ''bob'' ''h'' [] = None" by code_simp
  have w: "\<forall>j < length ?as. j < 4 \<longrightarrow> wrong_password id ''pw'' (snd (?as ! j))"
    by (simp add: wrong_password_def numeral_eq_Suc less_Suc_eq)
  have "run_accesses 3600 (\<lambda>_. Some ''x'') id (Some ''bob:pw\<newline>'') ''bob'' ''h'' [] ((10, Some ''a'') # ?as) =
      map (\<lambda>j. if j < 5 then OPH_SERVER_ERROR else OPH_SERVER_AUTH_ERROR) [0..<Suc (length ?as)]"
    by (rule oph_auth_user_lockout [OF f _ l _ _ _ _ _ _ w]) (auto simp: wrong_password_def)
  then show ?thesis by (simp add: upt_rec)
qed

text \<open>
  Remark: the counter of failed accesses is a \<open>short\<close>: after 32767 accesses it wraps to a negative value, the lock-out does
  not hold any more, and the next access is checked against the password again.\<close>

theorem oph_auth_user_lockout_wraps:
  "fst (oph_auth_user 20 3600 (\<lambda>_. Some ''x'') id (Some ''bob:pw\<newline>'')
      [\<lparr>bl_userid = ''bob'', bl_host = ''h'', bl_verified = False, bl_value = None, bl_count = 32767,
        bl_timestamp = 10, bl_check_time = 10\<rparr>] ''bob'' (Some ''pw'') ''h'') = OPH_SERVER_OK \<and>
   fst (oph_auth_user 20 3600 (\<lambda>_. Some ''x'') id (Some ''bob:pw\<newline>'')
      [\<lparr>bl_userid = ''bob'', bl_host = ''h'', bl_verified = False, bl_value = None, bl_count = 32766,
        bl_timestamp = 10, bl_check_time = 10\<rparr>] ''bob'' (Some ''pw'') ''h'') = OPH_SERVER_AUTH_ERROR"
  by code_simp

text \<open>
  Remark: \<open>oph_auth_user_enabling\<close> returns, until the timeout, the result and the actual user that \<open>oph_auth_enable_user\<close>
  stored last for a user.\<close>

theorem oph_auth_enable_roundtrip:
  assumes "0 \<le> t0" and "0 \<le> timeout \<and> t0 + timeout \<le> 2147483647" and "now \<le> t0 + timeout"
    and "- 2147483648 \<le> result" and "result \<le> 2147483647"
    and "oph_auth_enable_user t0 au ac userid result (Some actual) = (au', ac')"
  shows "oph_auth_user_enabling now timeout au' ac' userid = (OPH_SERVER_OK, result, Some actual, au', ac')"
proof -
  have "nat (abs result) < 10 ^ Suc 9" using assms(4,5) by simp
  from length_show_nat [OF this] have len: "length (show_int result) \<le> 127"
    using assms(4,5) by (auto simp: show_int_def)
  then have t: "take (OPH_SHORT_STRING_SIZE - 1) (show_int result) = show_int result"
    by (simp add: OPH_SHORT_STRING_SIZE_def)
  have "c_int (strtol (show_int result)) = result"
    using assms(4,5) by (simp add: strtol_show_int LONG_MIN_def LONG_MAX_def c_int_id)
  then show ?thesis
    using assms(1-3,6) t
    by (auto simp: oph_auth_enable_user_def oph_auth_user_enabling_def oph_add_to_bl_def
        oph_add_to_bl_verified_def expired_def c_int_id)
qed

theorem oph_auth_enable_roundtrip_witness:
  "(case oph_auth_enable_user 10 [] [] ''bob'' (- 3) (Some ''rob'') of
      (au, ac) \<Rightarrow> oph_auth_user_enabling 20 3600 au ac ''bob'' = (OPH_SERVER_OK, - 3, Some ''rob'', au, ac))"
  using oph_auth_enable_roundtrip [of 10 3600 20 "- 3" "[]" "[]" "''bob''" "''rob''"]
  by (auto split: prod.splits)

end
