(* ===== verification/Workflow_Utils.thy ===== *)
theory Workflow_Utils
  imports Workflow_Flow Auth_Lists
begin

text \<open>
  \<^verbatim>\<open>src/src/oph_workflow/oph_workflow_utils.c\<close>: the look-up of a variable, the substitution of the variables in a
  string (\<open>oph_workflow_var_substitute\<close>), and the submission strings of a task. The pointers into the string are
  positions. The substitution loop carries fuel, since it need not end; its outcome keeps apart a return, an
  undefined behaviour (a null pointer handed to the C library, a read beyond the string, an unbounded recursion)
  and the end of the fuel.
\<close>

section \<open>Arguments\<close>

text \<open>The arguments that the functions work on: those of the task, or those of one of its light tasks.\<close>

definition task_args :: "oph_workflow_task \<Rightarrow> int \<Rightarrow> (string \<times> string option) list" where
  [code_defs]: "task_args t li =
     (if li < 0 then map (\<lambda>a. (a_key a, a_value a)) (t_arguments t) else l_arguments (t_light_tasks t ! nat li))"

definition oph_workflow_get_argument_size :: "oph_workflow_task \<Rightarrow> nat \<Rightarrow> nat option" where
  [code_defs]: "oph_workflow_get_argument_size t mx =
     (if list_ex (\<lambda>a. a_value a = None) (t_arguments t) then None
      else Some (fold (\<lambda>a m. let current = 3 + length (a_key a) + length (the (a_value a)) in if m < current then current else m)
             (t_arguments t) (if mx < 1 then 1 else mx)))"

text \<open>
  The loop of \<open>oph_workflow_check_args\<close> from the argument \<open>i\<close> on. A key that does not fit the buffer is capitalised beyond
  it, which is \<open>None\<close>.
\<close>

fun args_match :: "string \<Rightarrow> string option \<Rightarrow> nat \<Rightarrow> (string \<times> string option) list \<Rightarrow> (wf_code + string \<times> int) option" where
  "args_match key current_arg i [] = Some (Inl OPH_WORKFLOW_EXIT_BAD_PARAM_ERROR)"
| "args_match key current_arg i ((k, v) # args) =
     (let arg = take (OPH_WORKFLOW_MAX_STRING - 1) k in
      if current_arg = Some arg then args_match key current_arg (Suc i) args
      else if length k \<ge> OPH_WORKFLOW_MAX_STRING then None
      else if key = map toupper arg then
        (case v of None \<Rightarrow> None | Some s \<Rightarrow> Some (Inr (s, int i)))
      else args_match key current_arg (Suc i) args)"

definition oph_workflow_check_args ::
    "oph_workflow_task \<Rightarrow> int \<Rightarrow> string \<Rightarrow> string option \<Rightarrow> (wf_code + string \<times> int) option" where
  [code_defs]: "oph_workflow_check_args t li key current_arg =
     (let light = t_light_tasks t ! nat li in
      if key = ''OPH_MARKER_ID'' then Some (Inr (show_int (if li < 0 then t_markerid t else l_markerid light), - 1))
      else if key = ''NCORES'' then Some (Inr (show_int (if li < 0 then t_ncores t else l_ncores light), - 1))
      else if key = ''NHOST'' then Some (Inr (show_int (if li < 0 then t_nhosts t else l_nhosts light), - 1))
      else args_match key current_arg 0 (task_args t li))"

section \<open>Substitution of variables\<close>

definition OPH_WORKFLOW_SEPARATORS :: string where [code_defs]: "OPH_WORKFLOW_SEPARATORS = '';=|,:@&{}''"

definition is_letter :: "char \<Rightarrow> bool" where
  [code_defs]: "is_letter c \<longleftrightarrow> (let n = of_char c :: nat in n = 95 \<or> (65 \<le> n \<and> n \<le> 90) \<or> (97 \<le> n \<and> n \<le> 122))"

text \<open>
  The scan of a name: where it ends, as the distance \<open>ep - p\<close> from its prefix, with whether the closing bracket was
  found (\<open>lastcc\<close>); or where another prefix comes first.
\<close>

datatype scan = Scan_End nat bool | Scan_Embedded nat

fun name_end :: "bool \<Rightarrow> nat \<Rightarrow> string \<Rightarrow> scan" where
  "name_end lastc n [] = Scan_End n False"
| "name_end lastc n (c # s) =
     (if lastc \<and> c = CHR ''}'' then Scan_End n True
      else if c = CHR ''@'' \<or> c = CHR ''&'' then Scan_Embedded n
      else if c \<in> set OPH_WORKFLOW_SEPARATORS then Scan_End n False
      else if lastc \<or> is_letter c \<or> (n > 1 \<and> is_digit c) then name_end lastc (Suc n) s
      else Scan_End n False)"

definition opens_bracket :: "string \<Rightarrow> bool" where
  [code_defs]: "opens_bracket t \<longleftrightarrow> t \<noteq> [] \<and> hd t = CHR ''{''"

definition scan_name :: "string \<Rightarrow> scan" where
  [code_defs]: "scan_name t = (if opens_bracket t then name_end True 2 (tl t) else name_end False 1 t)"

lemma name_end_embedded: "name_end lastc n s = Scan_Embedded m \<Longrightarrow> n \<le> m \<and> m < n + length s"
  by (induction lastc n s rule: name_end.induct) (auto split: if_splits)

lemma scan_name_embedded: "scan_name t = Scan_Embedded m \<Longrightarrow> 1 \<le> m \<and> m \<le> length t"
  by (auto simp: scan_name_def opens_bracket_def split: if_splits dest!: name_end_embedded)

text \<open>The \<open>do\<close> loop moves the prefix to an embedded variable: its position, \<open>ep - p\<close>, \<open>lastc\<close> and \<open>lastcc\<close>.\<close>

function parse_var :: "string \<Rightarrow> nat \<Rightarrow> nat \<times> nat \<times> bool \<times> bool" where
  "parse_var s p =
     (case scan_name (drop (Suc p) s) of
        Scan_Embedded n \<Rightarrow> parse_var s (p + n)
      | Scan_End n lastcc \<Rightarrow> (p, n, opens_bracket (drop (Suc p) s), lastcc))"
  by pat_completeness auto
termination
  by (relation "measure (\<lambda>(s, p). length s - p)") (auto dest: scan_name_embedded)

declare parse_var.simps [simp del]

text \<open>The key of the argument that the position belongs to: the text from the last \<open>;\<close> to the next \<open>=\<close>.\<close>

definition current_arg_at :: "string \<Rightarrow> nat \<Rightarrow> string option" where
  [code_defs]: "current_arg_at s p =
     (let seen = take (Suc p) s; ck = rev (takeWhile (\<lambda>c. c \<noteq> CHR '';'') (rev seen)) @ drop (Suc p) s in
      map_option (\<lambda>ek. take (length ck - length ek) ck) (strchr ck CHR ''=''))"

text \<open>
  What a key stands for: nothing (\<open>return_error > 0\<close>), an empty key, a variable (\<open>return_error = 0\<close>, with its value and
  its index) or an argument (\<open>return_error < 0\<close>, with its value and its position).
\<close>

datatype found = Unresolved | Empty_Key | Variable string int | Argument string int

definition resolve :: "oph_workflow \<Rightarrow> nat \<Rightarrow> int \<Rightarrow> string option \<Rightarrow> string \<Rightarrow> found option" where
  [code_defs]: "resolve w ti li current_arg key =
     (let t = w_tasks w ! ti;
          arg = (\<lambda>_ :: unit. case oph_workflow_check_args t li key current_arg of
                 None \<Rightarrow> None
               | Some (Inl _) \<Rightarrow> Some Unresolved
               | Some (Inr (v, i)) \<Rightarrow> Some (Argument v i)) in
      if key = [] then Some Empty_Key
      else (case (case t_vars t of None \<Rightarrow> None | Some vars \<Rightarrow> hashtbl_get vars key) of
              Some var \<Rightarrow> Some (Variable (v_svalue var) (v_ivalue var))
            | None \<Rightarrow>
                (case hashtbl_get (w_vars w) key of
                   None \<Rightarrow> arg ()
                 | Some var \<Rightarrow>
                     if v_caller var < 0 then Some (Variable (v_svalue var) (v_ivalue var))
                     else (case oph_workflow_is_child_of (Suc (w_tasks_num w)) w (v_caller var) (int ti) of
                             None \<Rightarrow> None
                           | Some True \<Rightarrow> Some (Variable (v_svalue var) (v_ivalue var))
                           | Some False \<Rightarrow> arg ()))))"

text \<open>
  One iteration, at the prefix found at \<open>p0\<close>; the state is the string, \<open>skip_until\<close>, and the variable \<open>index\<close>, \<open>None\<close> while it
  is not initialised.
\<close>

type_synonym subst_state = "string \<times> nat \<times> int option"

datatype subst = Subst_Next subst_state | Subst_Return wf_code string | Subst_Undefined | Subst_Fuel

definition subst_step :: "oph_workflow \<Rightarrow> nat \<Rightarrow> int \<Rightarrow> string option \<Rightarrow> nat \<Rightarrow> subst_state \<Rightarrow> subst" where
  [code_defs]: "subst_step w ti li skip_arg p0 st =
     (case st of (s, skip_until, index) \<Rightarrow>
      case parse_var s p0 of (p, n, lastc, lastcc) \<Rightarrow>
      let key = drop (if lastc then 2 else 1) (take n (drop p s));
          ep = p + n + (if lastcc then 1 else 0);
          prefix = s ! p = CHR ''&'';
          replaced = (\<lambda>v. take p s @ v @ drop ep s);
          bad = Subst_Return OPH_WORKFLOW_EXIT_BAD_PARAM_ERROR s;
          skip = (\<lambda>index. if s ! p \<noteq> CHR ''@'' then bad else Subst_Next (s, max skip_until (Suc p), index)) in
      if lastc \<noteq> lastcc then skip index
      else (case resolve w ti li (case skip_arg of None \<Rightarrow> current_arg_at s p | Some k \<Rightarrow> Some k) key of
              None \<Rightarrow> Subst_Undefined
            | Some Unresolved \<Rightarrow> skip (Some (- 1))
            | Some (Variable v i) \<Rightarrow> Subst_Next (replaced (if prefix then show_int i else v), skip_until, index)
            | Some (Argument v i) \<Rightarrow>
                if prefix \<and> i < 0 then bad
                else Subst_Next (replaced (if prefix then show_int i else v), skip_until, Some i)
            | Some Empty_Key \<Rightarrow>
                if \<not> prefix then Subst_Undefined
                else (case index of
                        None \<Rightarrow> Subst_Undefined
                      | Some i \<Rightarrow> if i < 0 then bad else Subst_Next (replaced (show_int i), skip_until, index))))"

definition find_char :: "char \<Rightarrow> nat \<Rightarrow> string \<Rightarrow> nat option" where
  [code_defs]: "find_char c from s = map_option (\<lambda>t. length s - length t) (strchr (drop from s) c)"

fun subst_loop :: "nat \<Rightarrow> oph_workflow \<Rightarrow> nat \<Rightarrow> int \<Rightarrow> string option \<Rightarrow> subst_state \<Rightarrow> subst" where
  "subst_loop 0 w ti li skip_arg st = Subst_Fuel"
| "subst_loop (Suc fuel) w ti li skip_arg st =
     (case st of (s, skip_until, index) \<Rightarrow>
      if skip_until > length s then Subst_Undefined
      else (case (case find_char CHR ''@'' skip_until s of Some p \<Rightarrow> Some p | None \<Rightarrow> find_char CHR ''&'' 0 s) of
              None \<Rightarrow> Subst_Return OPH_WORKFLOW_EXIT_SUCCESS s
            | Some p \<Rightarrow>
                (case subst_step w ti li skip_arg p st of
                   Subst_Next st' \<Rightarrow> subst_loop fuel w ti li skip_arg st'
                 | r \<Rightarrow> r)))"

definition oph_workflow_var_substitute ::
    "nat \<Rightarrow> oph_workflow \<Rightarrow> nat \<Rightarrow> int \<Rightarrow> string option \<Rightarrow> string \<Rightarrow> subst" where
  [code_defs]: "oph_workflow_var_substitute fuel w ti li skip_arg submit_string =
     subst_loop fuel w ti li skip_arg (submit_string, 0, None)"

section \<open>Submission strings\<close>

definition oph_workflow_strcat :: "string option \<Rightarrow> string option \<Rightarrow> wf_code \<times> string option" where
  [code_defs]: "oph_workflow_strcat base extension =
     (OPH_WORKFLOW_EXIT_SUCCESS,
      case extension of
        None \<Rightarrow> base
      | Some e \<Rightarrow> Some ((case base of None \<Rightarrow> [] | Some b \<Rightarrow> b) @ e))"

text \<open>\<open>%s\<close> of a null pointer, as the GNU library prints it.\<close>

definition show_str :: "string option \<Rightarrow> string" where
  [code_defs]: "show_str s = (case s of None \<Rightarrow> ''(null)'' | Some s \<Rightarrow> s)"

definition key_value :: "nat \<Rightarrow> string \<Rightarrow> string \<Rightarrow> string" where
  [code_defs]: "key_value sz key v = take (sz - 1) (key @ ''='' @ v @ '';'')"

definition ext_sub_string :: "oph_workflow \<Rightarrow> oph_workflow_task \<Rightarrow> int \<Rightarrow> int \<Rightarrow> string" where
  [code_defs]: "ext_sub_string w t ti li =
     ''operator='' @ show_str (t_operator t) @ '';sessionid='' @ show_str (w_sessionid w) @
     '';workflowid='' @ show_int (w_workflowid w) @
     '';markerid='' @ show_int (if li < 0 then t_markerid t else l_markerid (t_light_tasks t ! nat li)) @
     '';username='' @ show_str (w_username w) @ '';userid='' @ show_int (w_iduser w) @
     '';userrole='' @ show_int (w_userrole w) @ '';parentid='' @ show_int (w_idjob w) @
     '';taskindex='' @ show_int ti @ '';lighttaskindex='' @ show_int li @
     '';exec_mode='' @ show_str (w_exec_mode w) @ '';''"

text \<open>The value of a path argument is moved into the folder of the session.\<close>

definition path_correction :: "string \<Rightarrow> string \<Rightarrow> string \<Rightarrow> string" where
  [code_defs]: "path_correction session_code key v =
     (if hd v = CHR ''/'' \<and> (key = ''cwd'' \<or> key = ''path'')
      then take (OPH_WORKFLOW_MAX_STRING - 1) (''/'' @ session_code @ (if length v > 1 then v else []))
      else v)"

fun append_args :: "nat \<Rightarrow> string \<Rightarrow> (string \<times> string option) list \<Rightarrow> string \<times> string \<Rightarrow> string \<times> string" where
  "append_args max_size session_code [] (l, s) = (l, s)"
| "append_args max_size session_code ((key, v) # args) (l, s) =
     (case v of
        Some v \<Rightarrow>
          if key \<noteq> [] \<and> v \<noteq> []
          then append_args max_size session_code args
                 (l @ key_value max_size key (path_correction session_code key v), s @ key_value max_size key v)
          else append_args max_size session_code args (l, s)
      | None \<Rightarrow> append_args max_size session_code args (l, s))"

text \<open>The checks on the two indexes; \<open>None\<close> is a task beyond the array or a final task without a name.\<close>

definition index_error :: "oph_workflow \<Rightarrow> int \<Rightarrow> int \<Rightarrow> bool option" where
  [code_defs]: "index_error w ti li =
     (if ti < 0 \<or> ti > int (w_tasks_num w) then Some True
      else if nat ti \<ge> length (w_tasks w) then None
      else (let t = w_tasks w ! nat ti; light = (li \<ge> 0 \<and> li \<ge> int (length (t_light_tasks t))) in
            if ti = int (w_tasks_num w) then
              (case t_name t of None \<Rightarrow> None | Some n \<Rightarrow> Some (n \<noteq> ''Final task'' \<or> light))
            else Some light))"

text \<open>
  The long and the short string before the substitution of the variables; the second is only used when it is
  requested.
\<close>

definition submission_strings :: "oph_workflow \<Rightarrow> nat \<Rightarrow> int \<Rightarrow> string \<Rightarrow> (string \<times> string) option" where
  [code_defs]: "submission_strings w ti li session_code =
     (let t = w_tasks w ! ti; args = task_args t li in
      case oph_workflow_get_argument_size t OPH_WORKFLOW_MAX_STRING of
        None \<Rightarrow> None
      | Some max_size \<Rightarrow>
          Some (append_args max_size session_code args
            (ext_sub_string w t (int ti) li @
             (case w_host_partition w of
                Some hp \<Rightarrow> if list_ex (\<lambda>(k, _). k = ''host_partition'') args then []
                          else key_value OPH_WORKFLOW_MAX_STRING ''host_partition'' hp
              | None \<Rightarrow> []) @
             (if w_nhosts w \<noteq> 0 \<and> \<not> list_ex (\<lambda>(k, _). k = ''nhost'') args
              then key_value OPH_WORKFLOW_MAX_STRING ''nhost'' (show_int (w_nhosts w)) else []),
             show_str (t_operator t) @ '' '')))"

datatype submission = Submitted wf_code "string option" "string option" | Sub_Undefined | Sub_Fuel

definition oph_workflow_get_submission_string ::
    "nat \<Rightarrow> string option \<Rightarrow> oph_workflow \<Rightarrow> int \<Rightarrow> int \<Rightarrow> bool \<Rightarrow> submission" where
  [code_defs]: "oph_workflow_get_submission_string fuel web_server w ti li short_requested =
     (let bad = Submitted OPH_WORKFLOW_EXIT_BAD_PARAM_ERROR None None in
      case index_error w ti li of
        None \<Rightarrow> Sub_Undefined
      | Some True \<Rightarrow> bad
      | Some False \<Rightarrow>
         (case w_sessionid w of
            None \<Rightarrow> Sub_Undefined
          | Some sessionid \<Rightarrow>
             (case oph_get_session_code web_server sessionid of
                Inl _ \<Rightarrow> bad
              | Inr session_code \<Rightarrow>
                  if length session_code \<ge> OPH_WORKFLOW_MAX_STRING then Sub_Undefined
                  else
                  (case submission_strings w (nat ti) li session_code of
                     None \<Rightarrow> Sub_Undefined
                   | Some (l, s) \<Rightarrow>
                      (case oph_workflow_var_substitute fuel w (nat ti) li None l of
                         Subst_Return OPH_WORKFLOW_EXIT_SUCCESS l' \<Rightarrow>
                           if \<not> short_requested then Submitted OPH_WORKFLOW_EXIT_SUCCESS (Some l') None
                           else (case oph_workflow_var_substitute fuel w (nat ti) li None s of
                                   Subst_Return OPH_WORKFLOW_EXIT_SUCCESS s' \<Rightarrow>
                                     Submitted OPH_WORKFLOW_EXIT_SUCCESS (Some l') (Some s')
                                 | Subst_Return _ _ \<Rightarrow> bad
                                 | Subst_Fuel \<Rightarrow> Sub_Fuel
                                 | _ \<Rightarrow> Sub_Undefined)
                       | Subst_Return _ _ \<Rightarrow> bad
                       | Subst_Fuel \<Rightarrow> Sub_Fuel
                       | _ \<Rightarrow> Sub_Undefined)))))"

definition optional_pair :: "string \<Rightarrow> string option \<Rightarrow> string" where
  [code_defs]: "optional_pair key v =
     (case v of Some v \<Rightarrow> if v \<noteq> [] then key_value OPH_WORKFLOW_MAX_STRING key v else [] | None \<Rightarrow> [])"

definition oph_workflow_get_submitted_string :: "oph_workflow \<Rightarrow> int \<Rightarrow> int \<Rightarrow> bool \<Rightarrow> (wf_code \<times> string option) option" where
  [code_defs]: "oph_workflow_get_submitted_string w ti li show_callback =
     (case index_error w ti li of
        None \<Rightarrow> None
      | Some True \<Rightarrow> Some (OPH_WORKFLOW_EXIT_BAD_PARAM_ERROR, None)
      | Some False \<Rightarrow>
          (let t = w_tasks w ! nat ti in
           case oph_workflow_get_argument_size t OPH_WORKFLOW_MAX_STRING of
             None \<Rightarrow> None
           | Some max_size \<Rightarrow>
               Some (OPH_WORKFLOW_EXIT_SUCCESS,
                 Some (snd (append_args max_size [] (task_args t li)
                   ([], show_str (t_operator t) @ '' '' @ optional_pair ''exec_mode'' (w_exec_mode w) @
                    (if show_callback then optional_pair ''callback_url'' (w_callback_url w) else [])))))))"

definition oph_realloc_vector :: "'a option list \<Rightarrow> nat \<Rightarrow> 'a option list" where
  [code_defs]: "oph_realloc_vector vector incr = vector @ replicate incr None"

section \<open>Lemmas on the substitution\<close>

lemma find_char_append:
  assumes "from \<le> length acc" and "c \<notin> set (drop from acc)"
  shows "find_char c from (acc @ c # t) = Some (length acc)"
  using assms strchr_append [of c "drop from acc" t] by (simp add: find_char_def)

lemma find_char_none: "c \<notin> set (drop from s) \<Longrightarrow> find_char c from s = None"
  by (simp add: find_char_def)

lemma find_char_at:
  assumes "find_char c from s = Some p" and "from \<le> length s"
  shows "from \<le> p \<and> p < length s \<and> s ! p = c"
proof -
  obtain t where t: "strchr (drop from s) c = Some t" and p: "p = length s - length t"
    using assms by (auto simp: find_char_def)
  then obtain q t' where q: "drop from s = q @ c # t'" and t': "t = c # t'" by (auto simp: strchr_Some_conv)
  have s: "s = (take from s @ q) @ c # t'" using append_take_drop_id [of "from" s] q by simp
  have len: "length (take from s @ q) = from + length q" using assms(2) by simp
  have "length s = from + length q + length t" using arg_cong [OF s, of length] len t' by simp
  then have "p = length (take from s @ q)" using p len by linarith
  moreover have "((take from s @ q) @ c # t') ! length (take from s @ q) = c" by (rule nth_append_length)
  ultimately show ?thesis using s len t' \<open>length s = _\<close> by simp
qed

lemma name_end_bracket:
  assumes "set n \<inter> set OPH_WORKFLOW_SEPARATORS = {}"
  shows "name_end True k (n @ CHR ''}'' # r) = Scan_End (k + length n) True"
  using assms
  by (induction n arbitrary: k) (auto simp: OPH_WORKFLOW_SEPARATORS_def)

lemma parse_var_bracket:
  assumes "set n \<inter> set OPH_WORKFLOW_SEPARATORS = {}"
  shows "parse_var (acc @ [CHR ''@'', CHR ''{''] @ n @ CHR ''}'' # r) (length acc) = (length acc, 2 + length n, True, True)"
  using name_end_bracket [OF assms, of 2 r]
  by (subst parse_var.simps) (simp add: scan_name_def opens_bracket_def)

text \<open>A string as text and bracketed references, and what the substitution makes of it.\<close>

datatype piece = Lit string | Ref string

fun show_piece :: "piece \<Rightarrow> string" where
  "show_piece (Lit t) = t"
| "show_piece (Ref n) = [CHR ''@'', CHR ''{''] @ n @ ''}''"

fun eval_piece :: "(string \<Rightarrow> found) \<Rightarrow> piece \<Rightarrow> string" where
  "eval_piece f (Lit t) = t"
| "eval_piece f (Ref n) = (case f n of Variable v i \<Rightarrow> v | Argument v i \<Rightarrow> v | _ \<Rightarrow> [CHR ''@'', CHR ''{''] @ n @ ''}'')"

definition no_prefix :: "string \<Rightarrow> bool" where
  [code_defs]: "no_prefix s \<longleftrightarrow> CHR ''@'' \<notin> set s \<and> CHR ''&'' \<notin> set s"

fun found_ok :: "found \<Rightarrow> bool" where
  "found_ok Unresolved = True"
| "found_ok Empty_Key = False"
| "found_ok (Variable v i) = no_prefix v"
| "found_ok (Argument v i) = no_prefix v"

fun piece_ok :: "(string \<Rightarrow> found) \<Rightarrow> piece \<Rightarrow> bool" where
  "piece_ok f (Lit t) = no_prefix t"
| "piece_ok f (Ref n) = (n \<noteq> [] \<and> set n \<inter> set OPH_WORKFLOW_SEPARATORS = {} \<and> found_ok (f n))"

text \<open>\<open>f\<close> is what the names stand for, whatever the argument is that they occur in.\<close>

definition resolves_to :: "oph_workflow \<Rightarrow> nat \<Rightarrow> int \<Rightarrow> string option \<Rightarrow> (string \<Rightarrow> found) \<Rightarrow> string \<Rightarrow> bool" where
  "resolves_to w ti li skip_arg f n \<longleftrightarrow>
     (\<forall>cur. (skip_arg = None \<or> cur = skip_arg) \<longrightarrow> resolve w ti li cur n = Some (f n))"

lemma subst_step_ref:
  assumes "n \<noteq> []" and "set n \<inter> set OPH_WORKFLOW_SEPARATORS = {}" and "found_ok (f n)" and "resolves_to w ti li skip_arg f n"
  shows "subst_step w ti li skip_arg (length acc) (acc @ [CHR ''@'', CHR ''{''] @ n @ CHR ''}'' # r, sk, idx) =
    (case f n of
       Variable v i \<Rightarrow> Subst_Next (acc @ v @ r, sk, idx)
     | Argument v i \<Rightarrow> Subst_Next (acc @ v @ r, sk, Some i)
     | _ \<Rightarrow> Subst_Next (acc @ [CHR ''@'', CHR ''{''] @ n @ CHR ''}'' # r, max sk (Suc (length acc)), Some (- 1)))"
proof -
  have "resolve w ti li (case skip_arg of None \<Rightarrow> current_arg_at s p | Some k \<Rightarrow> Some k) n = Some (f n)" for s p
    using assms(4) by (cases skip_arg) (auto simp: resolves_to_def)
  then show ?thesis
    using assms(3) parse_var_bracket [OF assms(2), of acc r]
    by (cases "f n") (simp_all add: subst_step_def nth_append numeral_3_eq_3)
qed

lemma subst_loop_pieces:
  assumes "\<forall>q\<in>set ps. piece_ok f q \<and> (\<forall>n. q = Ref n \<longrightarrow> resolves_to w ti li skip_arg f n)"
    and "length ps < fuel" and "sk \<le> length acc" and "CHR ''@'' \<notin> set (drop sk acc)" and "CHR ''&'' \<notin> set acc"
  shows "subst_loop fuel w ti li skip_arg (acc @ concat (map show_piece ps), sk, idx) =
    Subst_Return OPH_WORKFLOW_EXIT_SUCCESS (acc @ concat (map (eval_piece f) ps))"
  using assms
proof (induction ps arbitrary: fuel sk acc idx)
  case Nil
  then obtain m where "fuel = Suc m" by (cases fuel) auto
  with Nil show ?case by (simp add: find_char_none)
next
  case (Cons q ps)
  show ?case
  proof (cases q)
    case (Lit t)
    with Cons.prems have "no_prefix t" by simp
    then have "CHR ''@'' \<notin> set (drop sk (acc @ t))" and "CHR ''&'' \<notin> set (acc @ t)"
      using Cons.prems by (auto simp: no_prefix_def dest: in_set_dropD)
    with Cons.IH [of fuel sk "acc @ t"] Cons.prems Lit show ?thesis by simp
  next
    case (Ref n)
    obtain m where m: "fuel = Suc m" "length ps < m" using Cons.prems(2) by (cases fuel) auto
    let ?r = "concat (map show_piece ps)"
    have ok: "n \<noteq> []" "set n \<inter> set OPH_WORKFLOW_SEPARATORS = {}" "found_ok (f n)" "resolves_to w ti li skip_arg f n"
      using Cons.prems(1) Ref by auto
    have amp: "CHR ''&'' \<notin> set n" using ok(2) by (auto simp: OPH_WORKFLOW_SEPARATORS_def)
    have at: "CHR ''@'' \<notin> set n" using ok(2) by (auto simp: OPH_WORKFLOW_SEPARATORS_def)
    have loop: "subst_loop fuel w ti li skip_arg (acc @ [CHR ''@'', CHR ''{''] @ n @ CHR ''}'' # ?r, sk, idx) =
        (case subst_step w ti li skip_arg (length acc) (acc @ [CHR ''@'', CHR ''{''] @ n @ CHR ''}'' # ?r, sk, idx) of
           Subst_Next st' \<Rightarrow> subst_loop m w ti li skip_arg st' | r \<Rightarrow> r)"
      using Cons.prems(3,4) find_char_append [OF Cons.prems(3,4), of "''{'' @ n @ CHR ''}'' # ?r"] m(1) by simp
    have ih: "subst_loop m w ti li skip_arg ((acc @ x) @ ?r, sk', idx') =
        Subst_Return OPH_WORKFLOW_EXIT_SUCCESS ((acc @ x) @ concat (map (eval_piece f) ps))"
      if "sk' \<le> length (acc @ x)" "CHR ''@'' \<notin> set (drop sk' (acc @ x))" "CHR ''&'' \<notin> set x" for x sk' idx'
      using Cons.IH [of m sk' "acc @ x" idx'] Cons.prems m(2) that by simp
    show ?thesis
    proof (cases "f n")
      case (Variable v i)
      then have "no_prefix v" using ok(3) by simp
      then show ?thesis
        using loop subst_step_ref [of n f w ti li skip_arg acc ?r sk idx, OF ok] ih [of sk v idx] Cons.prems(3,4) Ref Variable
        by (simp add: no_prefix_def)
    next
      case (Argument v i)
      then have "no_prefix v" using ok(3) by simp
      then show ?thesis
        using loop subst_step_ref [of n f w ti li skip_arg acc ?r sk idx, OF ok] ih [of sk v "Some i"] Cons.prems(3,4) Ref Argument
        by (simp add: no_prefix_def)
    next
      case Unresolved
      have "max sk (Suc (length acc)) = Suc (length acc)" using Cons.prems(3) by simp
      then show ?thesis
        using loop subst_step_ref [of n f w ti li skip_arg acc ?r sk idx, OF ok]
          ih [of "Suc (length acc)" "[CHR ''@'', CHR ''{''] @ n @ ''}''" "Some (- 1)"] amp at Ref Unresolved
        by simp
    next
      case Empty_Key
      then show ?thesis using ok(3) by simp
    qed
  qed
qed

text \<open>Without index references the number of prefixes that are not skipped yet decreases in every iteration.\<close>

lemma name_end_embedded_char:
  "name_end lastc n s = Scan_Embedded m \<Longrightarrow> s ! (m - n) = CHR ''@'' \<or> s ! (m - n) = CHR ''&''"
proof (induction lastc n s rule: name_end.induct)
  case (2 lastc n c s)
  show ?case
  proof (cases "m = n")
    case False
    then have "name_end lastc (Suc n) s = Scan_Embedded m" using 2(2) by (auto split: if_splits)
    moreover from this have "Suc n \<le> m" using name_end_embedded by blast
    ultimately show ?thesis using 2 by (auto split: if_splits simp: Suc_diff_Suc nth_Cons')
  qed (use 2 name_end_embedded in \<open>fastforce split: if_splits\<close>)
qed simp

lemma name_end_at_least: "name_end lastc n s = Scan_End m b \<Longrightarrow> n \<le> m"
  by (induction lastc n s rule: name_end.induct) (auto split: if_splits)

lemma scan_name_char:
  assumes "scan_name t = Scan_Embedded m"
  shows "t ! (m - 1) = CHR ''@'' \<or> t ! (m - 1) = CHR ''&''"
proof (cases "opens_bracket t")
  case True
  then obtain c r where t: "t = c # r" by (cases t) (auto simp: opens_bracket_def)
  have e: "name_end True 2 r = Scan_Embedded m" using assms True t by (simp add: scan_name_def)
  then have "2 \<le> m" using name_end_embedded by blast
  with name_end_embedded_char [OF e] t show ?thesis by (simp add: nth_Cons' numeral_2_eq_2)
next
  case False
  then show ?thesis using assms name_end_embedded_char [of False 1 t m] by (simp add: scan_name_def)
qed

lemma parse_var_at:
  assumes "parse_var s p0 = (p, n, lastc, lastcc)" and "p0 < length s" and "s ! p0 = CHR ''@'' \<or> s ! p0 = CHR ''&''"
  shows "p0 \<le> p \<and> p < length s \<and> 1 \<le> n \<and> (s ! p = CHR ''@'' \<or> s ! p = CHR ''&'')"
  using assms
proof (induction s p0 rule: parse_var.induct)
  case (1 s p0)
  show ?case
  proof (cases "scan_name (drop (Suc p0) s)")
    case (Scan_End m b)
    have "1 \<le> m"
      using Scan_End name_end_at_least by (fastforce simp: scan_name_def split: if_splits)
    then show ?thesis using "1.prems" Scan_End by (subst (asm) parse_var.simps) simp
  next
    case (Scan_Embedded m)
    note b = scan_name_embedded [OF Scan_Embedded] and c = scan_name_char [OF Scan_Embedded]
    have "p0 + m < length s" using b "1.prems"(2) by auto
    moreover have "drop (Suc p0) s ! (m - 1) = s ! (p0 + m)" using b "1.prems"(2) by simp
    then have "s ! (p0 + m) = CHR ''@'' \<or> s ! (p0 + m) = CHR ''&''" using c by simp
    moreover have "parse_var s (p0 + m) = (p, n, lastc, lastcc)"
      using "1.prems"(1) Scan_Embedded by (subst (asm) parse_var.simps) simp
    ultimately show ?thesis using "1.IH" [OF Scan_Embedded] by auto
  qed
qed

abbreviation ats :: "string \<Rightarrow> nat" where "ats s \<equiv> count_list s CHR ''@''"

lemma ats_drop_le: "a \<le> b \<Longrightarrow> ats (drop b s) \<le> ats (drop a s)"
  by (metis append_take_drop_id count_list_append drop_drop le_add2 le_add_diff_inverse2)

lemma ats_replace:
  assumes "sk \<le> p" and "p < length s" and "s ! p = CHR ''@''" and "p < ep" and "CHR ''@'' \<notin> set v"
  shows "ats (drop sk (take p s @ v @ drop ep s)) < ats (drop sk s)"
proof -
  have "drop sk s = drop sk (take p s) @ CHR ''@'' # drop (Suc p) s"
    using assms(1,2) arg_cong [OF id_take_nth_drop [OF assms(2)], of "drop sk"] by (simp add: assms(3))
  moreover have "ats (drop ep s) \<le> ats (drop (Suc p) s)" using assms(4) by (intro ats_drop_le) simp
  moreover have "sk - length (take p s) = 0" using assms(1,2) by simp
  ultimately show ?thesis using assms(5) by (simp add: count_list_0_iff)
qed

definition values_ok :: "oph_workflow \<Rightarrow> nat \<Rightarrow> int \<Rightarrow> bool" where
  "values_ok w ti li \<longleftrightarrow> (\<forall>cur key x. resolve w ti li cur key = Some x \<longrightarrow> x = Empty_Key \<or> found_ok x)"

definition progress :: "string \<Rightarrow> nat \<Rightarrow> string \<Rightarrow> nat \<Rightarrow> bool" where
  "progress s sk s' sk' \<longleftrightarrow> CHR ''&'' \<notin> set s' \<and> sk' \<le> length s' \<and> ats (drop sk' s') < ats (drop sk s)"

lemma subst_step_decreases:
  assumes "values_ok w ti li" and "CHR ''&'' \<notin> set s" and "sk \<le> length s" and "find_char CHR ''@'' sk s = Some p0"
    and "subst_step w ti li skip_arg p0 (s, sk, idx) = r"
  shows "r = Subst_Undefined \<or>
    (\<exists>s' sk' idx'. r = Subst_Next (s', sk', idx') \<and> progress s sk s' sk')"
proof -
  obtain p n lastc lastcc where pv: "parse_var s p0 = (p, n, lastc, lastcc)" by (metis prod_cases4)
  have p0: "sk \<le> p0" "p0 < length s" "s ! p0 = CHR ''@''" using find_char_at [OF assms(4,3)] by auto
  have p: "p0 \<le> p" "p < length s" "1 \<le> n" and at: "s ! p = CHR ''@''"
    using parse_var_at [OF pv p0(2)] p0(3) assms(2) by (auto simp: in_set_conv_nth)
  have skp: "max sk (Suc p) = Suc p" using p0(1) p(1) by simp
  have suc: "ats (drop (Suc p) s) < ats (drop sk s)"
  proof -
    have "ats (drop (Suc p) s) < ats (drop p s)" using p(2) at Cons_nth_drop_Suc [OF p(2), symmetric] by simp
    also have "\<dots> \<le> ats (drop sk s)" using p0(1) p(1) by (intro ats_drop_le) simp
    finally show ?thesis .
  qed
  have same: "progress s sk s (Suc p)" using suc assms(2) p(2) by (simp add: progress_def)
  have rep: "progress s sk (take p s @ v @ drop ep s) sk" if "no_prefix v" "p < ep" for v ep
    using that assms(2) p0(1) p at ats_replace [of sk p s ep v]
    by (auto simp: no_prefix_def progress_def dest: in_set_takeD in_set_dropD)
  show ?thesis
  proof (cases "lastc \<noteq> lastcc")
    case True
    then show ?thesis using assms(5) pv at same skp by (auto simp: subst_step_def)
  next
    case False
    define cur where "cur = (case skip_arg of None \<Rightarrow> current_arg_at s p | Some k \<Rightarrow> Some k)"
    define key where "key = drop (if lastc then 2 else 1) (take n (drop p s))"
    show ?thesis
    proof (cases "resolve w ti li cur key")
      case None
      then show ?thesis using assms(5) pv False by (simp add: subst_step_def cur_def key_def)
    next
      case (Some x)
      then have "x = Empty_Key \<or> found_ok x" using assms(1) unfolding values_ok_def by blast
      then show ?thesis
        using assms(5) pv False Some at p(3) same skp rep
        by (cases x) (auto simp: subst_step_def cur_def key_def)
    qed
  qed
qed

lemma subst_loop_returns:
  assumes "values_ok w ti li" and "CHR ''&'' \<notin> set s" and "sk \<le> length s" and "ats (drop sk s) < fuel"
  shows "subst_loop fuel w ti li skip_arg (s, sk, idx) = Subst_Undefined \<or>
    (\<exists>s'. subst_loop fuel w ti li skip_arg (s, sk, idx) = Subst_Return OPH_WORKFLOW_EXIT_SUCCESS s')"
  using assms(2-4)
proof (induction fuel arbitrary: s sk idx)
  case (Suc fuel)
  show ?case
  proof (cases "find_char CHR ''@'' sk s")
    case None
    moreover have "find_char CHR ''&'' 0 s = None" using Suc.prems(1) by (simp add: find_char_none)
    ultimately show ?thesis using Suc.prems(2) by simp
  next
    case (Some p)
    obtain r where r: "subst_step w ti li skip_arg p (s, sk, idx) = r" by blast
    from subst_step_decreases [OF assms(1) Suc.prems(1,2) Some r] show ?thesis
    proof
      assume "r = Subst_Undefined"
      then show ?thesis using Some r Suc.prems(2) by simp
    next
      assume "\<exists>s' sk' idx'. r = Subst_Next (s', sk', idx') \<and> progress s sk s' sk'"
      then obtain s' sk' idx' where "r = Subst_Next (s', sk', idx')" "progress s sk s' sk'" by (elim exE conjE)
      then show ?thesis using Suc.IH [of s' sk' idx'] Suc.prems(2,3) Some r by (simp add: progress_def)
    qed
  qed
qed simp

text \<open>An index reference around a variable, \<open>&{@x}\<close>: both prefixes lead to the variable.\<close>

definition plain_name :: "string \<Rightarrow> bool" where
  [code_defs]: "plain_name x \<longleftrightarrow> x \<noteq> [] \<and> is_letter (hd x) \<and> list_all (\<lambda>c. is_letter c \<or> is_digit c) x"

lemma name_char:
  "is_letter c \<or> is_digit c \<Longrightarrow> c \<noteq> CHR ''@'' \<and> c \<noteq> CHR ''&'' \<and> c \<noteq> CHR ''{'' \<and> c \<notin> set OPH_WORKFLOW_SEPARATORS"
  by (auto simp: is_letter_def is_digit_def OPH_WORKFLOW_SEPARATORS_def)

lemma name_end_plain:
  "(\<forall>c \<in> set x. is_letter c \<or> is_digit c) \<Longrightarrow> (x \<noteq> [] \<Longrightarrow> n > 1 \<or> is_letter (hd x)) \<Longrightarrow> 0 < n \<Longrightarrow>
   name_end False n (x @ CHR ''}'' # v) = Scan_End (n + length x) False"
proof (induction x arbitrary: n)
  case Nil
  then show ?case by (simp add: OPH_WORKFLOW_SEPARATORS_def)
next
  case (Cons c x)
  then show ?case using name_char [of c] by auto
qed

lemma parse_var_plain:
  assumes "plain_name x"
  shows "parse_var (u @ ''&{@'' @ x @ ''}'' @ v) (length u + 2) = (length u + 2, Suc (length x), False, False)"
    and "parse_var (u @ ''&{@'' @ x @ ''}'' @ v) (length u) = (length u + 2, Suc (length x), False, False)"
proof -
  let ?s = "u @ ''&{@'' @ x @ ''}'' @ v"
  have d: "drop (Suc (length u + 2)) ?s = x @ CHR ''}'' # v" "drop (Suc (length u)) ?s = CHR ''{'' # CHR ''@'' # x @ CHR ''}'' # v"
    by simp_all
  have x: "\<not> opens_bracket (x @ CHR ''}'' # v)" "name_end False 1 (x @ CHR ''}'' # v) = Scan_End (Suc (length x)) False"
    using assms name_char [of "hd x"] name_end_plain [of x 1 v]
    by (auto simp: plain_name_def opens_bracket_def list_all_iff hd_append)
  then have "scan_name (drop (Suc (length u + 2)) ?s) = Scan_End (Suc (length x)) False" "opens_bracket (drop (Suc (length u + 2)) ?s) = False"
    unfolding d(1) by (simp_all add: scan_name_def)
  then show *: "parse_var ?s (length u + 2) = (length u + 2, Suc (length x), False, False)"
    by (subst parse_var.simps) (simp only: scan.case)
  have "scan_name (drop (Suc (length u)) ?s) = Scan_Embedded 2"
    unfolding d(2) by (simp add: scan_name_def opens_bracket_def)
  then show "parse_var ?s (length u) = (length u + 2, Suc (length x), False, False)"
    using * by (subst parse_var.simps) (simp only: scan.case)
qed

lemma index_reference_step:
  assumes "plain_name x" and "\<forall>cur. resolve w ti li cur x = Some Unresolved"
  shows "subst_step w ti li skip_arg (length u + 2) (u @ ''&{@'' @ x @ ''}'' @ v, skip_until, idx) =
      Subst_Next (u @ ''&{@'' @ x @ ''}'' @ v, max skip_until (Suc (length u + 2)), Some (- 1))"
    and "subst_step w ti li skip_arg (length u) (u @ ''&{@'' @ x @ ''}'' @ v, skip_until, idx) =
      Subst_Next (u @ ''&{@'' @ x @ ''}'' @ v, max skip_until (Suc (length u + 2)), Some (- 1))"
  using assms(2) parse_var_plain [OF assms(1), of u v] by (simp_all add: subst_step_def Let_def nth_append)

lemma index_reference_find:
  assumes "no_prefix u" and "no_prefix v" and "plain_name x"
  shows "find_char CHR ''@'' 0 (u @ ''&{@'' @ x @ ''}'' @ v) = Some (length u + 2)"
    and "find_char CHR ''@'' (Suc (length u + 2)) (u @ ''&{@'' @ x @ ''}'' @ v) = None"
    and "find_char CHR ''&'' 0 (u @ ''&{@'' @ x @ ''}'' @ v) = Some (length u)"
proof -
  have "CHR ''@'' \<notin> set x" using assms(3) name_char by (auto simp: plain_name_def list_all_iff)
  then show "find_char CHR ''@'' 0 (u @ ''&{@'' @ x @ ''}'' @ v) = Some (length u + 2)"
    and "find_char CHR ''@'' (Suc (length u + 2)) (u @ ''&{@'' @ x @ ''}'' @ v) = None"
    and "find_char CHR ''&'' 0 (u @ ''&{@'' @ x @ ''}'' @ v) = Some (length u)"
    using assms(1,2) strchr_append [of "CHR ''@''" "u @ ''&{''" "x @ ''}'' @ v"]
    by (simp_all add: find_char_def no_prefix_def strchr_append)
qed

section \<open>Lemmas on the submission strings\<close>

definition show_pair :: "string \<times> string \<Rightarrow> string" where
  [code_defs]: "show_pair kv = fst kv @ ''='' @ snd kv @ '';''"

lemma argument_size_ge: "oph_workflow_get_argument_size t mx = Some m \<Longrightarrow> mx \<le> m"
proof -
  define f :: "oph_workflow_arg \<Rightarrow> nat \<Rightarrow> nat" where "f = (\<lambda>a m. let current = 3 + length (a_key a) + length (the (a_value a)) in if m < current then current else m)"
  have ge: "m0 \<le> fold f as m0" for as m0
  proof (induction as arbitrary: m0)
    case (Cons b as)
    have "m0 \<le> f b m0" by (simp add: f_def Let_def)
    then show ?case using Cons [of "f b m0"] by simp
  qed simp
  assume "oph_workflow_get_argument_size t mx = Some m"
  then have "m = fold f (t_arguments t) (if mx < 1 then 1 else mx)"
    unfolding oph_workflow_get_argument_size_def f_def by (simp split: if_splits)
  moreover have "mx \<le> (if mx < 1 then 1 else mx)" by simp
  ultimately show "mx \<le> m" using ge le_trans by blast
qed

lemma key_value_fits: "length k + length v + 3 \<le> sz \<Longrightarrow> key_value sz k v = show_pair (k, v)"
  by (simp add: key_value_def show_pair_def)

text \<open>The arguments that are not skipped, with the paths corrected.\<close>

definition sent_args :: "string \<Rightarrow> (string \<times> string option) list \<Rightarrow> (string \<times> string) list" where
  "sent_args code args = map (\<lambda>(k, v). (k, path_correction code k (the v))) (filter (\<lambda>(k, v). k \<noteq> [] \<and> v \<noteq> None \<and> v \<noteq> Some []) args)"

lemma append_args_sent:
  assumes "\<forall>(k, v)\<in>set (sent_args code args). length k + length v + 3 \<le> sz"
  shows "fst (append_args sz code args (l, s)) = l @ concat (map show_pair (sent_args code args))"
  using assms
proof (induction args arbitrary: l s)
  case (Cons a args)
  obtain k v where a: "a = (k, v)" by fastforce
  show ?case
  proof (cases "k \<noteq> [] \<and> v \<noteq> None \<and> v \<noteq> Some []")
    case True
    then obtain v0 where v0: "v = Some v0" "v0 \<noteq> []" "k \<noteq> []" by auto
    let ?kv = "(k, path_correction code k v0)"
    have sent: "sent_args code (a # args) = ?kv # sent_args code args" using a v0 by (simp add: sent_args_def)
    then have "key_value sz k (path_correction code k v0) = show_pair ?kv" using Cons.prems by (auto intro: key_value_fits)
    moreover have "append_args sz code (a # args) (l, s) =
        append_args sz code args (l @ key_value sz k (path_correction code k v0), s @ key_value sz k v0)"
      using a v0 by simp
    ultimately show ?thesis using Cons sent by simp
  next
    case False
    then have "append_args sz code (a # args) (l, s) = append_args sz code args (l, s)"
      using a by (auto split: option.splits)
    moreover have "sent_args code (a # args) = sent_args code args" using a False by (auto simp: sent_args_def)
    ultimately show ?thesis using Cons by simp
  qed
qed (simp add: sent_args_def)

text \<open>The pairs in front of the arguments.\<close>

definition header_pairs :: "oph_workflow \<Rightarrow> oph_workflow_task \<Rightarrow> int \<Rightarrow> int \<Rightarrow> (string \<times> string) list" where
  [code_defs]: "header_pairs w t ti li =
     [(''operator'', show_str (t_operator t)), (''sessionid'', show_str (w_sessionid w)),
      (''workflowid'', show_int (w_workflowid w)),
      (''markerid'', show_int (if li < 0 then t_markerid t else l_markerid (t_light_tasks t ! nat li))),
      (''username'', show_str (w_username w)), (''userid'', show_int (w_iduser w)), (''userrole'', show_int (w_userrole w)),
      (''parentid'', show_int (w_idjob w)), (''taskindex'', show_int ti), (''lighttaskindex'', show_int li),
      (''exec_mode'', show_str (w_exec_mode w))]"

lemma ext_sub_string_pairs: "ext_sub_string w t ti li = concat (map show_pair (header_pairs w t ti li))"
  by (simp add: ext_sub_string_def header_pairs_def show_pair_def)

definition extra_pairs :: "oph_workflow \<Rightarrow> (string \<times> string option) list \<Rightarrow> (string \<times> string) list" where
  [code_defs]: "extra_pairs w args =
     (case w_host_partition w of
        Some hp \<Rightarrow> if list_ex (\<lambda>(k, _). k = ''host_partition'') args then [] else [(''host_partition'', hp)]
      | None \<Rightarrow> []) @
     (if w_nhosts w \<noteq> 0 \<and> \<not> list_ex (\<lambda>(k, _). k = ''nhost'') args then [(''nhost'', show_int (w_nhosts w))] else [])"

lemma no_prefix_show_int: "no_prefix (show_int i)"
proof -
  have "CHR ''@'' \<notin> set (show_nat n)" "CHR ''&'' \<notin> set (show_nat n)" for n
    using show_nat_digits [of "CHR ''@''" n] show_nat_digits [of "CHR ''&''" n] by (auto simp: is_digit_def)
  then show ?thesis by (auto simp: no_prefix_def show_int_def)
qed

lemma show_int_no_sep: "CHR '';'' \<notin> set (show_int i)"
proof -
  have "CHR '';'' \<notin> set (show_nat n)" for n using show_nat_digits [of "CHR '';''" n] by (auto simp: is_digit_def)
  then show ?thesis by (auto simp: show_int_def)
qed

text \<open>
  What a submission string is for a task whose texts have no separator and no prefix, and whose host partition
  fits the buffer: the pairs of the header, the additional ones and those of the arguments.
\<close>

definition clean :: "string \<Rightarrow> bool" where
  [code_defs]: "clean s \<longleftrightarrow> no_prefix s \<and> CHR '';'' \<notin> set s"

definition all_pairs :: "oph_workflow \<Rightarrow> nat \<Rightarrow> int \<Rightarrow> string \<Rightarrow> (string \<times> string) list" where
  [code_defs]: "all_pairs w ti li code =
     (let t = w_tasks w ! ti; args = task_args t li in
      header_pairs w t (int ti) li @ extra_pairs w args @ sent_args code args)"

definition submission_ok :: "oph_workflow \<Rightarrow> nat \<Rightarrow> string \<Rightarrow> bool" where
  [code_defs]: "submission_ok w ti code \<longleftrightarrow>
     (let t = w_tasks w ! ti in
      clean (show_str (t_operator t)) \<and> clean (show_str (w_sessionid w)) \<and> clean (show_str (w_username w)) \<and>
      clean (show_str (w_exec_mode w)) \<and> clean code \<and> - 2147483648 \<le> w_nhosts w \<and> w_nhosts w \<le> 2147483647 \<and>
      (case w_host_partition w of None \<Rightarrow> True | Some hp \<Rightarrow> clean hp \<and> length hp + 17 \<le> OPH_WORKFLOW_MAX_STRING) \<and>
      list_all (\<lambda>a. clean (a_key a) \<and> CHR ''='' \<notin> set (a_key a) \<and>
        (case a_value a of
           None \<Rightarrow> False
         | Some v \<Rightarrow> clean v \<and> length (a_key a) + length code + length v + 4 \<le> OPH_WORKFLOW_MAX_STRING)) (t_arguments t))"

lemma sent_args_ok:
  assumes "submission_ok w ti code" and "li < 0" and "(k, v) \<in> set (sent_args code (task_args (w_tasks w ! ti) li))"
  shows "clean k \<and> CHR ''='' \<notin> set k \<and> clean v \<and> length k + length v + 3 \<le> OPH_WORKFLOW_MAX_STRING"
proof -
  obtain a v0 where a: "a \<in> set (t_arguments (w_tasks w ! ti))" "k = a_key a" "a_value a = Some v0" "v0 \<noteq> []"
    "v = path_correction code k v0"
    using assms(2,3) by (auto simp: sent_args_def task_args_def)
  then have ok: "clean k" "CHR ''='' \<notin> set k" "clean v0" "length k + length code + length v0 + 4 \<le> OPH_WORKFLOW_MAX_STRING" "clean code"
    using assms(1) by (auto simp: submission_ok_def Let_def list_all_iff split: option.splits)
  have "v = v0 \<or> v = take (OPH_WORKFLOW_MAX_STRING - 1) (CHR ''/'' # code @ (if length v0 > 1 then v0 else []))"
    using a(5) by (simp add: path_correction_def)
  then show ?thesis
    using ok by (auto simp: clean_def no_prefix_def dest: in_set_takeD split: if_splits)
qed

lemma submission_strings_pairs:
  assumes "submission_ok w ti code" and "li < 0"
  shows "\<exists>s. submission_strings w ti li code = Some (concat (map show_pair (all_pairs w ti li code)), s)"
proof -
  let ?t = "w_tasks w ! ti"
  obtain m where m: "oph_workflow_get_argument_size ?t OPH_WORKFLOW_MAX_STRING = Some m"
    using assms(1) by (auto simp: submission_ok_def oph_workflow_get_argument_size_def list_all_iff list_ex_iff Let_def
      split: option.splits)
  note ge = argument_size_ge [OF m]
  have fits: "\<forall>(k, v)\<in>set (sent_args code (task_args ?t li)). length k + length v + 3 \<le> m"
    using sent_args_ok [OF assms] ge by fastforce
  have hp: "key_value OPH_WORKFLOW_MAX_STRING ''host_partition'' hp = show_pair (''host_partition'', hp)"
    if "w_host_partition w = Some hp" for hp
    using assms(1) that by (intro key_value_fits) (simp add: submission_ok_def Let_def)
  have "- 2147483648 \<le> w_nhosts w" "w_nhosts w \<le> 2147483647" using assms(1) by (simp_all add: submission_ok_def Let_def)
  then have "nat (abs (w_nhosts w)) < 10 ^ Suc 9" by simp
  then have "length (show_nat (nat (abs (w_nhosts w)))) \<le> 10" using length_show_nat [of _ 9] by simp
  then have "length (show_int (w_nhosts w)) \<le> 11" by (auto simp: show_int_def)
  then have nh: "key_value OPH_WORKFLOW_MAX_STRING ''nhost'' (show_int (w_nhosts w)) = show_pair (''nhost'', show_int (w_nhosts w))"
    by (intro key_value_fits) (simp add: OPH_WORKFLOW_MAX_STRING_def)
  define l0 where "l0 = ext_sub_string w ?t (int ti) li @
      (case w_host_partition w of
         Some hp \<Rightarrow> if list_ex (\<lambda>(k, _). k = ''host_partition'') (task_args ?t li) then []
                   else key_value OPH_WORKFLOW_MAX_STRING ''host_partition'' hp
       | None \<Rightarrow> []) @
      (if w_nhosts w \<noteq> 0 \<and> \<not> list_ex (\<lambda>(k, _). k = ''nhost'') (task_args ?t li)
       then key_value OPH_WORKFLOW_MAX_STRING ''nhost'' (show_int (w_nhosts w)) else [])"
  have "l0 = concat (map show_pair (header_pairs w ?t (int ti) li @ extra_pairs w (task_args ?t li)))"
    using hp nh by (simp add: l0_def ext_sub_string_pairs extra_pairs_def split: option.split)
  moreover have "submission_strings w ti li code =
      Some (append_args m code (task_args ?t li) (l0, show_str (t_operator ?t) @ '' ''))"
    unfolding submission_strings_def l0_def Let_def by (simp add: m)
  ultimately show ?thesis
    using append_args_sent [OF fits, of l0 "show_str (t_operator ?t) @ '' ''"]
    by (cases "append_args m code (task_args ?t li) (l0, show_str (t_operator ?t) @ '' '')")
      (simp add: all_pairs_def Let_def)
qed

lemma subst_loop_no_prefix:
  "no_prefix s \<Longrightarrow> oph_workflow_var_substitute (Suc fuel) w ti li skip_arg s = Subst_Return OPH_WORKFLOW_EXIT_SUCCESS s"
  by (simp add: oph_workflow_var_substitute_def no_prefix_def find_char_none)

section \<open>Properties\<close>

text \<open>
  C22: a string of text and of references (a name in brackets after \<open>@\<close>) is expanded as a template: with one iteration per part, every reference
  is replaced by the value of its variable or argument, one that stands for nothing is kept, and the text is not
  changed.\<close>

theorem var_substitute_template:
  assumes "\<forall>q\<in>set ps. piece_ok f q" and "\<forall>n. Ref n \<in> set ps \<longrightarrow> resolves_to w ti li skip_arg f n" and "length ps < fuel"
  shows "oph_workflow_var_substitute fuel w ti li skip_arg (concat (map show_piece ps)) =
    Subst_Return OPH_WORKFLOW_EXIT_SUCCESS (concat (map (eval_piece f) ps))"
  using subst_loop_pieces [of ps f w ti li skip_arg fuel 0 "[]" None] assms
  by (auto simp: oph_workflow_var_substitute_def)

definition demo_vars :: oph_workflow where
  [code_defs]: "demo_vars = empty_workflow\<lparr>w_tasks := [zero_task, zero_task], w_tasks_num := 1,
     w_vars := snd (hashtbl_insert_with_size (hashtbl_create 3 None) ''x'' \<lparr>v_caller = - 1, v_svalue = ''7'', v_ivalue = 2\<rparr> 26)\<rparr>"

theorem var_substitute_template_witness:
  "oph_workflow_var_substitute 6 demo_vars 0 (- 1) None (''a=@'' @ ''{x}:@'' @ ''{y};'') = Subst_Return OPH_WORKFLOW_EXIT_SUCCESS (''a=7:@'' @ ''{y};'')"
proof -
  let ?f = "\<lambda>n. if n = ''x'' then Variable ''7'' 2 else Unresolved"
  let ?ps = "[Lit ''a='', Ref ''x'', Lit '':'', Ref ''y'', Lit '';'']"
  have x: "resolve demo_vars 0 (- 1) cur ''x'' = Some (Variable ''7'' 2)" for cur by code_simp
  have y: "resolve demo_vars 0 (- 1) cur ''y'' = Some Unresolved" for cur by code_simp
  have "\<forall>n. Ref n \<in> set ?ps \<longrightarrow> resolves_to demo_vars 0 (- 1) None ?f n"
    using x y by (auto simp: resolves_to_def)
  moreover have "\<forall>q\<in>set ?ps. piece_ok ?f q" by code_simp
  ultimately show ?thesis
    using var_substitute_template [of ?ps ?f demo_vars 0 "- 1" None 6] by simp
qed

text \<open>
  C32: without index references the substitution always ends: one more iteration than there are prefixes is enough,
  when no value contains a prefix, and then it never reports an error.\<close>

theorem var_substitute_terminates:
  assumes "values_ok w ti li" and "CHR ''&'' \<notin> set s" and "count_list s CHR ''@'' < fuel"
  shows "oph_workflow_var_substitute fuel w ti li skip_arg s = Subst_Undefined \<or>
    (\<exists>s'. oph_workflow_var_substitute fuel w ti li skip_arg s = Subst_Return OPH_WORKFLOW_EXIT_SUCCESS s')"
  using subst_loop_returns [OF assms(1,2), of 0 fuel skip_arg None] assms(3) by (simp add: oph_workflow_var_substitute_def)

definition demo_args :: oph_workflow where
  [code_defs]: "demo_args = empty_workflow\<lparr>w_tasks := [zero_task\<lparr>t_arguments := [\<lparr>a_key = ''a'', a_value = Some ''5'', a_list = []\<rparr>]\<rparr>,
     zero_task], w_tasks_num := 1\<rparr>"

theorem var_substitute_terminates_witness:
  "oph_workflow_var_substitute 3 demo_args 0 (- 1) None ''b=@A;'' = Subst_Return OPH_WORKFLOW_EXIT_SUCCESS ''b=5;''"
proof -
  have "hashtbl_get (w_vars demo_args) key = None" for key
    by (simp add: demo_args_def empty_workflow_def hashtbl_get_create)
  moreover have "t_vars (w_tasks demo_args ! 0) = None" "task_args (w_tasks demo_args ! 0) (- 1) = [(''a'', Some ''5'')]"
    by code_simp+
  ultimately have r: "resolve demo_args 0 (- 1) cur key =
      (if key = [] then Some Empty_Key
       else (case oph_workflow_check_args (w_tasks demo_args ! 0) (- 1) key cur of
               None \<Rightarrow> None | Some (Inl _) \<Rightarrow> Some Unresolved | Some (Inr (v, i)) \<Rightarrow> Some (Argument v i)))"
    and c: "oph_workflow_check_args (w_tasks demo_args ! 0) (- 1) key cur = Some (Inr (v, i)) \<Longrightarrow> no_prefix v" for cur key v i
    using no_prefix_show_int
    by (auto simp: resolve_def oph_workflow_check_args_def no_prefix_def Let_def split: if_splits)
  have "values_ok demo_args 0 (- 1)"
    unfolding values_ok_def r by (auto split: if_splits option.splits sum.splits dest: c)
  from var_substitute_terminates [OF this, of "''b=@A;''" 3 None]
  obtain s' where s': "oph_workflow_var_substitute 3 demo_args 0 (- 1) None ''b=@A;'' = Subst_Return OPH_WORKFLOW_EXIT_SUCCESS s'
      \<or> oph_workflow_var_substitute 3 demo_args 0 (- 1) None ''b=@A;'' = Subst_Undefined"
    by auto
  have "oph_workflow_var_substitute 3 demo_args 0 (- 1) None ''b=@A;'' = Subst_Return OPH_WORKFLOW_EXIT_SUCCESS ''b=5;''"
    by code_simp
  with s' show ?thesis by simp
qed

text \<open>
  C40: an index reference around a variable that stands for nothing is never left. For every workflow and every text \<open>u&{@x}v\<close> in which \<open>u\<close> and
  \<open>v\<close> have no prefix and \<open>x\<close> is a name (letters, underscores and digits, not beginning with a digit) that is no variable and no argument at that
  place, the variable is skipped, the search for an index reference starts again from the beginning and finds the same variable, so the loop does
  not end whatever the fuel is.\<close>

theorem var_substitute_diverges:
  assumes "no_prefix u" and "no_prefix v" and "plain_name x" and "\<forall>cur. resolve w ti li cur x = Some Unresolved"
  shows "oph_workflow_var_substitute fuel w ti li skip_arg (u @ ''&{@'' @ x @ ''}'' @ v) = Subst_Fuel"
proof -
  let ?s = "u @ ''&{@'' @ x @ ''}'' @ v" and ?p = "length u + 2"
  let ?loop = "\<lambda>fuel. subst_loop fuel w ti li skip_arg (?s, Suc ?p, Some (- 1))"
  note skip = index_reference_step [OF assms(3,4)] and find = index_reference_find [OF assms(1,2,3)]
  have "?loop fuel = Subst_Fuel" for fuel
    by (induction fuel) (use skip(2) [where skip_until = "Suc ?p"] find in \<open>simp_all add: max_def\<close>)
  then show ?thesis
    using skip(1) [where skip_until = 0] find by (cases fuel) (simp_all add: oph_workflow_var_substitute_def max_def)
qed

theorem var_substitute_diverges_witness:
  "\<forall>fuel. oph_workflow_var_substitute fuel demo_vars 0 (- 1) None (''a='' @ ''&{@'' @ ''y'' @ ''}'' @ '';'') = Subst_Fuel"
proof -
  have "\<forall>cur. resolve demo_vars 0 (- 1) cur ''y'' = Some Unresolved" by (intro allI) code_simp
  moreover have "no_prefix ''a=''" "no_prefix '';''" "plain_name ''y''"
    by (simp_all add: no_prefix_def plain_name_def is_letter_def)
  ultimately show ?thesis using var_substitute_diverges by blast
qed

text \<open>
  Remark: a prefix that no name follows is an empty key without a value, whose length is then read from a null pointer.\<close>

theorem var_substitute_lone_prefix:
  "oph_workflow_var_substitute 9 demo_vars 0 (- 1) None ''mail=a@ b;'' = Subst_Undefined"
  by code_simp

end
