(* ===== verification/Workflow_Engine.thy ===== *)
theory Workflow_Engine
  imports Workflow_Flow
begin

text \<open>
  The operations of \<^verbatim>\<open>src/src/oph_workflow_engine.c\<close> on the graph of the tasks: the status of the descendants of a failed
  task (\<open>oph_workflow_set_status\<close>), the reset of the body of a loop from its snapshot (\<open>oph_workflow_reset_task\<close>,
  \<open>oph_workflow_disable_deps\<close>), the marks of the tasks of a parallel loop (\<open>oph_workflow_mark_children_of\<close>), and the ordered
  lists of the outputs. The recursions carry fuel; \<open>None\<close> is an index out of an array or the end of the fuel.
\<close>

section \<open>Status codes\<close>

definition OPH_ODB_STATUS_UNKNOWN :: int where [code_defs]: "OPH_ODB_STATUS_UNKNOWN = 0"
definition OPH_ODB_STATUS_COMPLETED :: int where [code_defs]: "OPH_ODB_STATUS_COMPLETED = 12"
definition OPH_ODB_STATUS_ABORTED :: int where [code_defs]: "OPH_ODB_STATUS_ABORTED = 25"
definition OPH_ODB_STATUS_UNSELECTED :: int where [code_defs]: "OPH_ODB_STATUS_UNSELECTED = 26"

definition valid_index :: "oph_workflow \<Rightarrow> int \<Rightarrow> bool" where
  [code_defs]: "valid_index w i \<longleftrightarrow> 0 \<le> i \<and> nat i < length (w_tasks w)"

definition upd_task :: "(oph_workflow_task \<Rightarrow> oph_workflow_task) \<Rightarrow> nat \<Rightarrow> oph_workflow \<Rightarrow> oph_workflow" where
  [code_defs]: "upd_task f i w = w\<lparr>w_tasks := (w_tasks w)[i := f (w_tasks w ! i)]\<rparr>"

section \<open>Status of the descendants\<close>

fun oph_workflow_set_status :: "nat \<Rightarrow> int \<Rightarrow> int list \<Rightarrow> oph_workflow \<Rightarrow> (wf_code \<times> oph_workflow) option" where
  "oph_workflow_set_status fuel status [] w = Some (OPH_WORKFLOW_EXIT_SUCCESS, w)"
| "oph_workflow_set_status 0 status (i # is) w = None"
| "oph_workflow_set_status (Suc fuel) status (i # is) w =
     (if \<not> valid_index w i then None
      else
      let t = w_tasks w ! nat i in
      if t_status t \<noteq> 0 \<and> t_status t < status then Some (OPH_WORKFLOW_EXIT_BAD_PARAM_ERROR, w)
      else if t_status t < OPH_ODB_STATUS_COMPLETED \<and> w_residual_tasks_num w = 0 then Some (OPH_WORKFLOW_EXIT_BAD_PARAM_ERROR, w)
      else
      (let w = (if t_status t < OPH_ODB_STATUS_COMPLETED then w\<lparr>w_residual_tasks_num := w_residual_tasks_num w - 1\<rparr> else w);
           w = upd_task (\<lambda>t. t\<lparr>t_status := status\<rparr>) (nat i) w in
       case oph_workflow_set_status fuel status (t_dependents_indexes t) w of
         Some (OPH_WORKFLOW_EXIT_SUCCESS, w) \<Rightarrow> oph_workflow_set_status (Suc fuel) status is w
       | r \<Rightarrow> r))"

section \<open>Reset of the body of a loop\<close>

text \<open>
  What a new round takes back to the snapshot of the loop. The number of dependencies of a task does not change; a
  snapshot that is shorter than the arrays of the task would be read beyond its end.
\<close>

definition reset_data :: "oph_workflow_stack_task \<Rightarrow> oph_workflow_task \<Rightarrow> oph_workflow_task option" where
  [code_defs]: "reset_data k t =
     (if length (s_deps_task_index k) < length (t_deps t) \<or> length (s_dependents_indexes k) < length (t_dependents_indexes t) then None
      else Some (t\<lparr>t_idjob := 0, t_markerid := 0, t_status := OPH_ODB_STATUS_UNKNOWN, t_is_skipped := False,
        t_residual_retry_num := t_retry_num t, t_residual_auto_retry_num := 0, t_is_marked_for_auto_retry := False,
        t_is_marked_to_be_aborted := False, t_forward := False,
        t_arguments := map copy_arg (s_arguments k),
        t_deps := map2 (\<lambda>d i. d\<lparr>d_task_index := i\<rparr>) (t_deps t) (s_deps_task_index k),
        t_residual_deps_num := s_residual_deps_num k,
        t_dependents_indexes := take (length (t_dependents_indexes t)) (s_dependents_indexes k),
        t_outputs := [], t_light_tasks := [], t_residual_light_tasks_num := 0, t_response := None\<rparr>))"

fun oph_workflow_reset_task ::
    "nat \<Rightarrow> int \<Rightarrow> oph_workflow_stack \<Rightarrow> int list \<Rightarrow> oph_workflow \<times> int \<Rightarrow> (wf_code \<times> oph_workflow \<times> int) option" where
  "oph_workflow_reset_task fuel last_task stack [] (w, n) = Some (OPH_WORKFLOW_EXIT_SUCCESS, w, n)"
| "oph_workflow_reset_task 0 last_task stack (i # is) (w, n) = None"
| "oph_workflow_reset_task (Suc fuel) last_task stack (i # is) (w, n) =
     (if \<not> valid_index w i then None
      else if t_status (w_tasks w ! nat i) = 0 then oph_workflow_reset_task (Suc fuel) last_task stack is (w, n)
      else if nat i \<ge> length (k_tasks stack) then None
      else
      (case reset_data (k_tasks stack ! nat i) (w_tasks w ! nat i) of
         None \<Rightarrow> None
       | Some t \<Rightarrow>
           (let w = w\<lparr>w_tasks := (w_tasks w)[nat i := t]\<rparr> in
            if i = last_task then oph_workflow_reset_task (Suc fuel) last_task stack is (w, n + 1)
            else (case oph_workflow_reset_task fuel last_task stack (t_dependents_indexes t) (w, n + 1) of
                    Some (OPH_WORKFLOW_EXIT_SUCCESS, w, n) \<Rightarrow> oph_workflow_reset_task (Suc fuel) last_task stack is (w, n)
                  | r \<Rightarrow> r))))"

text \<open>The dependencies of a task on completed tasks outside of the loop.\<close>

definition satisfied_deps :: "oph_workflow \<Rightarrow> int \<Rightarrow> oph_workflow_task \<Rightarrow> int" where
  [code_defs]: "satisfied_deps w first_task t =
     int (length (filter (\<lambda>d. d_task_index d \<ge> 0 \<and> d_task_index d \<noteq> first_task \<and>
       t_status (w_tasks w ! nat (d_task_index d)) \<ge> OPH_ODB_STATUS_COMPLETED) (t_deps t)))"

fun oph_workflow_disable_deps ::
    "nat \<Rightarrow> int \<Rightarrow> int \<Rightarrow> int list \<Rightarrow> oph_workflow \<Rightarrow> (wf_code \<times> oph_workflow) option" where
  "oph_workflow_disable_deps fuel first_task last_task [] w = Some (OPH_WORKFLOW_EXIT_SUCCESS, w)"
| "oph_workflow_disable_deps 0 first_task last_task (i # is) w = None"
| "oph_workflow_disable_deps (Suc fuel) first_task last_task (i # is) w =
     (if \<not> valid_index w i then None
      else
      let t = w_tasks w ! nat i in
      if t_status t \<noteq> 0 then oph_workflow_disable_deps (Suc fuel) first_task last_task is w
      else if list_ex (\<lambda>d. d_task_index d \<ge> 0 \<and> d_task_index d \<noteq> first_task \<and> \<not> valid_index w (d_task_index d)) (t_deps t) then None
      else
      (let w = upd_task (\<lambda>t. t\<lparr>t_residual_deps_num := t_residual_deps_num t - satisfied_deps w first_task t\<rparr>) (nat i) w in
       if i = last_task then oph_workflow_disable_deps (Suc fuel) first_task last_task is w
       else (case oph_workflow_disable_deps fuel first_task last_task (t_dependents_indexes t) w of
               Some (OPH_WORKFLOW_EXIT_SUCCESS, w) \<Rightarrow> oph_workflow_disable_deps (Suc fuel) first_task last_task is w
             | r \<Rightarrow> r)))"

section \<open>Marks of a parallel loop\<close>

text \<open>
  The tasks between \<open>k\<close> and the end-task of \<open>p\<close>. The first of the two functions is a call, the second its loop over the
  dependents.
\<close>

function (sequential) oph_workflow_mark_children_of :: "nat \<Rightarrow> oph_workflow \<Rightarrow> int \<Rightarrow> int \<Rightarrow> (wf_code \<times> oph_workflow) option"
  and mark_loop :: "nat \<Rightarrow> oph_workflow \<Rightarrow> int list \<Rightarrow> int \<Rightarrow> (wf_code \<times> oph_workflow) option" where
  "oph_workflow_mark_children_of 0 w k p = None"
| "oph_workflow_mark_children_of (Suc fuel) w k p =
     (if k < 0 \<or> k \<ge> int (w_tasks_num w) \<or> p < 0 \<or> p \<ge> int (w_tasks_num w) then Some (OPH_WORKFLOW_EXIT_BAD_PARAM_ERROR, w)
      else if \<not> valid_index w k \<or> \<not> valid_index w p then None
      else mark_loop fuel w (t_dependents_indexes (w_tasks w ! nat k)) p)"
| "mark_loop fuel w [] p = Some (OPH_WORKFLOW_EXIT_SUCCESS, w)"
| "mark_loop fuel w (j # js) p =
     (let child = t_child (w_tasks w ! nat p) in
      if j = child then mark_loop fuel w js p
      else (case oph_workflow_is_child_of (Suc (w_tasks_num w)) w j child of
              None \<Rightarrow> None
            | Some False \<Rightarrow> mark_loop fuel w js p
            | Some True \<Rightarrow>
                if \<not> valid_index w j then None
                else (case oph_workflow_mark_children_of fuel (upd_task (\<lambda>t. t\<lparr>t_is_marked := True\<rparr>) (nat j) w) j p of
                        None \<Rightarrow> None
                      | Some (OPH_WORKFLOW_EXIT_SUCCESS, w) \<Rightarrow> mark_loop fuel w js p
                      | Some (_, w) \<Rightarrow> Some (OPH_WORKFLOW_EXIT_BAD_PARAM_ERROR, w))))"
  by pat_completeness auto
termination
  by (relation "measures [\<lambda>x. case x of Inl (f, _) \<Rightarrow> f | Inr (f, _) \<Rightarrow> f,
    \<lambda>x. case x of Inl _ \<Rightarrow> 0 | Inr (_, _, js, _) \<Rightarrow> Suc (length js)]") auto

section \<open>Ordered lists\<close>

text \<open>A new element goes before the first one with a greater key, or without a key.\<close>

fun oph_workflow_add_to_list :: "string \<Rightarrow> string \<Rightarrow> oph_workflow_ordered_list \<Rightarrow> oph_workflow_ordered_list" where
  "oph_workflow_add_to_list key object [] = [(Some key, Some object)]"
| "oph_workflow_add_to_list key object ((k, v) # list) =
     (case k of
        None \<Rightarrow> (Some key, Some object) # (k, v) # list
      | Some c \<Rightarrow>
          if strcmp_gt c key then (Some key, Some object) # (k, v) # list
          else (k, v) # oph_workflow_add_to_list key object list)"

text \<open>
  The objects joined to the given string. A missing object is \<open>None\<close> for the first one, which \<open>strdup\<close> would copy, and is printed
  by the GNU library after it.
\<close>

fun print_items :: "string option \<Rightarrow> oph_workflow_ordered_list \<Rightarrow> string option option" where
  "print_items s [] = Some s"
| "print_items s ((k, v) # list) =
     (case s of
        None \<Rightarrow> (case v of None \<Rightarrow> None | Some obj \<Rightarrow> print_items (Some obj) list)
      | Some s \<Rightarrow> print_items (Some (s @ ''|'' @ (case v of None \<Rightarrow> ''(null)'' | Some obj \<Rightarrow> obj))) list)"

definition oph_workflow_print_list :: "oph_workflow_ordered_list \<Rightarrow> string option \<Rightarrow> (wf_code \<times> string option) option" where
  [code_defs]: "oph_workflow_print_list list s =
     (if list = [] then Some (OPH_WORKFLOW_EXIT_BAD_PARAM_ERROR, s)
      else map_option (\<lambda>r. (OPH_WORKFLOW_EXIT_SUCCESS, r)) (print_items s list))"

section \<open>Changes of sets of tasks\<close>

definition on_tasks :: "(nat \<Rightarrow> oph_workflow_task \<Rightarrow> oph_workflow_task) \<Rightarrow> nat set \<Rightarrow> oph_workflow \<Rightarrow> oph_workflow" where
  "on_tasks f R w = w\<lparr>w_tasks := map (\<lambda>j. if j \<in> R then f j (w_tasks w ! j) else w_tasks w ! j) [0..<length (w_tasks w)]\<rparr>"

lemma on_tasks_simps [simp]:
  "length (w_tasks (on_tasks f R w)) = length (w_tasks w)" "w_tasks_num (on_tasks f R w) = w_tasks_num w"
  "w_residual_tasks_num (on_tasks f R w) = w_residual_tasks_num w"
  "j < length (w_tasks w) \<Longrightarrow> w_tasks (on_tasks f R w) ! j = (if j \<in> R then f j (w_tasks w ! j) else w_tasks w ! j)"
  by (simp_all add: on_tasks_def)

lemma on_tasks_empty [simp]: "on_tasks f {} w = w"
  by (simp add: on_tasks_def map_nth)

lemma on_tasks_single: "i < length (w_tasks w) \<Longrightarrow> on_tasks f {i} w = w\<lparr>w_tasks := (w_tasks w)[i := f i (w_tasks w ! i)]\<rparr>"
  by (auto simp: on_tasks_def intro!: arg_cong [of _ _ "\<lambda>ts. w\<lparr>w_tasks := ts\<rparr>"] nth_equalityI)

lemma on_tasks_comp:
  assumes "\<And>j t. j \<in> A \<inter> B \<Longrightarrow> f j (f j t) = f j t"
  shows "on_tasks f B (on_tasks f A w) = on_tasks f (A \<union> B) w"
  using assms by (auto simp: on_tasks_def)

text \<open>The indexes of the dependents, and the tasks below a list of indexes along the edges \<open>r\<close>.\<close>

definition reach_from :: "(nat \<times> nat) set \<Rightarrow> int list \<Rightarrow> nat set" where
  "reach_from r is = {j. \<exists>i\<in>set is. (nat i, j) \<in> r\<^sup>*}"

lemma reach_from_simps [simp]: "reach_from r [] = {}" "reach_from r (i # is) = r\<^sup>* `` {nat i} \<union> reach_from r is"
  by (auto simp: reach_from_def)

lemma rtrancl_Image: "r\<^sup>* `` {p} = {p} \<union> r\<^sup>+ `` {p}"
  by (auto simp: rtrancl_eq_or_trancl)

lemma reach_from_append: "reach_from r (is @ js) = reach_from r is \<union> reach_from r js"
  by (auto simp: reach_from_def)

lemma reach_from_dependents:
  assumes "indexes_ok N ts" and "p < N"
  shows "reach_from (dag_edges N ts) (t_dependents_indexes (ts ! p)) = (dag_edges N ts)\<^sup>+ `` {p}"
proof -
  have "j \<in> reach_from (dag_edges N ts) (t_dependents_indexes (ts ! p)) \<longleftrightarrow> (p, j) \<in> (dag_edges N ts)\<^sup>+" for j
  proof
    assume "j \<in> reach_from (dag_edges N ts) (t_dependents_indexes (ts ! p))"
    then obtain i where i: "i \<in> set (t_dependents_indexes (ts ! p))" "(nat i, j) \<in> (dag_edges N ts)\<^sup>*"
      by (auto simp: reach_from_def)
    then have "(p, nat i) \<in> dag_edges N ts" using indexes_okD [OF assms i(1)] assms(2) by (simp add: dag_edges_def)
    with i(2) show "(p, j) \<in> (dag_edges N ts)\<^sup>+" by (rule rtrancl_into_trancl2 [rotated])
  next
    assume "(p, j) \<in> (dag_edges N ts)\<^sup>+"
    then obtain i where "(p, i) \<in> dag_edges N ts" "(i, j) \<in> (dag_edges N ts)\<^sup>*" by (meson tranclD)
    then show "j \<in> reach_from (dag_edges N ts) (t_dependents_indexes (ts ! p))"
      by (auto simp: reach_from_def dag_edges_def intro!: bexI [of _ "int i"])
  qed
  then show ?thesis by auto
qed

lemma reach_from_bound:
  assumes "r \<subseteq> {..<N} \<times> {..<N}" and "set is \<subseteq> {0..<int N}"
  shows "reach_from r is \<subseteq> {..<N}"
proof
  fix j
  assume "j \<in> reach_from r is"
  then obtain i where "i \<in> set is" "(nat i, j) \<in> r\<^sup>*" by (auto simp: reach_from_def)
  moreover from this(2) have "j = nat i \<or> (\<exists>y. (y, j) \<in> r)" by (cases rule: rtranclE) auto
  ultimately show "j \<in> {..<N}" using assms by fastforce
qed

lemma dag_edges_cong:
  assumes "\<And>j. j < N \<Longrightarrow> t_dependents_indexes (ts' ! j) = t_dependents_indexes (ts ! j)"
  shows "dag_edges N ts' = dag_edges N ts"
  using assms by (auto simp: dag_edges_def)

lemma indexes_ok_cong:
  assumes "\<And>j. j < N \<Longrightarrow> t_dependents_indexes (ts' ! j) = t_dependents_indexes (ts ! j)" and "length ts' = length ts"
  shows "indexes_ok N ts' \<longleftrightarrow> indexes_ok N ts"
  using assms by (auto simp: indexes_ok_def list_all_length)

section \<open>Lemmas on the status of the descendants\<close>

definition incomplete :: "nat set \<Rightarrow> oph_workflow \<Rightarrow> int" where
  "incomplete R w = int (card {j \<in> R. t_status (w_tasks w ! j) < OPH_ODB_STATUS_COMPLETED})"

definition with_status :: "int \<Rightarrow> nat set \<Rightarrow> oph_workflow \<Rightarrow> oph_workflow" where
  "with_status s R w = (on_tasks (\<lambda>_ t. t\<lparr>t_status := s\<rparr>) R w)\<lparr>w_residual_tasks_num := w_residual_tasks_num w - incomplete R w\<rparr>"

lemma with_status_simps [simp]:
  "length (w_tasks (with_status s R w)) = length (w_tasks w)" "w_tasks_num (with_status s R w) = w_tasks_num w"
  "w_residual_tasks_num (with_status s R w) = w_residual_tasks_num w - incomplete R w"
  "j < length (w_tasks w) \<Longrightarrow> w_tasks (with_status s R w) ! j = (if j \<in> R then (w_tasks w ! j)\<lparr>t_status := s\<rparr> else w_tasks w ! j)"
  by (simp_all add: with_status_def)

lemma incomplete_with_status:
  assumes "OPH_ODB_STATUS_COMPLETED \<le> s" and "B \<subseteq> {..<length (w_tasks w)}"
  shows "incomplete B (with_status s A w) = incomplete (B - A) w"
proof -
  have "t_status (w_tasks (with_status s A w) ! j) = (if j \<in> A then s else t_status (w_tasks w ! j))" if "j \<in> B" for j
    using that assms(2) by (simp add: subset_iff)
  then have "{j \<in> B. t_status (w_tasks (with_status s A w) ! j) < OPH_ODB_STATUS_COMPLETED} =
      {j \<in> B - A. t_status (w_tasks w ! j) < OPH_ODB_STATUS_COMPLETED}"
    using assms(1) by (auto split: if_splits)
  then show ?thesis by (simp add: incomplete_def)
qed

lemma incomplete_split:
  assumes "A \<subseteq> {..<length (w_tasks w)}" and "B \<subseteq> {..<length (w_tasks w)}"
  shows "incomplete A w + incomplete (B - A) w = incomplete (A \<union> B) w"
proof -
  let ?P = "\<lambda>R. {j \<in> R. t_status (w_tasks w ! j) < OPH_ODB_STATUS_COMPLETED}"
  have fin: "finite A" "finite B" using assms finite_subset by auto
  have "?P A \<union> ?P (B - A) = ?P (A \<union> B)" "?P A \<inter> ?P (B - A) = {}" by auto
  then have "card (?P (A \<union> B)) = card (?P A) + card (?P (B - A))"
    using fin card_Un_disjoint [of "?P A" "?P (B - A)"] by auto
  then show ?thesis by (simp add: incomplete_def)
qed

lemma with_status_comp:
  assumes "OPH_ODB_STATUS_COMPLETED \<le> s" and "A \<subseteq> {..<length (w_tasks w)}" and "B \<subseteq> {..<length (w_tasks w)}"
  shows "with_status s B (with_status s A w) = with_status s (A \<union> B) w"
proof -
  let ?f = "\<lambda>_ t. t\<lparr>t_status := s\<rparr> :: oph_workflow_task"
  have "on_tasks ?f B (on_tasks ?f A w) = on_tasks ?f (A \<union> B) w" by (rule on_tasks_comp) simp
  moreover have "on_tasks ?f B (u\<lparr>w_residual_tasks_num := n\<rparr>) = (on_tasks ?f B u)\<lparr>w_residual_tasks_num := n\<rparr>" for u n
    by (simp add: on_tasks_def)
  ultimately have eq: "with_status s B (with_status s A w) = (on_tasks ?f (A \<union> B) w)\<lparr>w_residual_tasks_num :=
      w_residual_tasks_num w - incomplete A w - incomplete B (with_status s A w)\<rparr>"
    by (simp add: with_status_def)
  show ?thesis
    unfolding eq incomplete_with_status [OF assms(1,3)]
    using incomplete_split [OF assms(2,3)] by (simp add: with_status_def algebra_simps)
qed

lemma with_status_edges:
  assumes "w_tasks_num w \<le> length (w_tasks w)"
  shows "dag_edges (w_tasks_num w) (w_tasks (with_status s R w)) = dag_edges (w_tasks_num w) (w_tasks w)"
    and "indexes_ok (w_tasks_num w) (w_tasks (with_status s R w)) \<longleftrightarrow> indexes_ok (w_tasks_num w) (w_tasks w)"
  using assms by (auto intro!: dag_edges_cong indexes_ok_cong)

text \<open>A list of tasks, none of which is in a state that is not final.\<close>

definition can_be_set :: "int \<Rightarrow> nat set \<Rightarrow> oph_workflow \<Rightarrow> bool" where
  "can_be_set s R w \<longleftrightarrow> (\<forall>j\<in>R. t_status (w_tasks w ! j) = 0 \<or> s \<le> t_status (w_tasks w ! j)) \<and> incomplete R w \<le> w_residual_tasks_num w"

lemma can_be_set_with_status:
  assumes "OPH_ODB_STATUS_COMPLETED \<le> s" and "A \<subseteq> {..<length (w_tasks w)}" and "B \<subseteq> {..<length (w_tasks w)}" and "can_be_set s (A \<union> B) w"
  shows "can_be_set s B (with_status s A w)"
  using assms incomplete_split [OF assms(2,3)]
  by (auto simp: can_be_set_def incomplete_with_status subset_iff)

lemma can_be_set_subset:
  assumes "can_be_set s B w" and "A \<subseteq> B" and "B \<subseteq> {..<length (w_tasks w)}"
  shows "can_be_set s A w"
proof -
  have "incomplete A w \<le> incomplete B w"
    unfolding incomplete_def using assms(2,3) finite_subset [OF assms(3)] by (auto intro!: card_mono)
  then show ?thesis using assms(1,2) by (auto simp: can_be_set_def)
qed

lemma set_status_step:
  assumes "i < length (w_tasks w)" and "can_be_set s {i} w"
  shows "oph_workflow_set_status (Suc fuel) s (int i # is) w =
    (case oph_workflow_set_status fuel s (t_dependents_indexes (w_tasks w ! i)) (with_status s {i} w) of
       Some (OPH_WORKFLOW_EXIT_SUCCESS, w) \<Rightarrow> oph_workflow_set_status (Suc fuel) s is w
     | r \<Rightarrow> r)"
proof -
  let ?t = "w_tasks w ! i"
  have "{j \<in> {i}. t_status (w_tasks w ! j) < OPH_ODB_STATUS_COMPLETED} = (if t_status ?t < OPH_ODB_STATUS_COMPLETED then {i} else {})"
    by auto
  then have inc: "incomplete {i} w = (if t_status ?t < OPH_ODB_STATUS_COMPLETED then 1 else 0)" by (simp add: incomplete_def)
  have "upd_task (\<lambda>t. t\<lparr>t_status := s\<rparr>) i
      (if t_status ?t < OPH_ODB_STATUS_COMPLETED then w\<lparr>w_residual_tasks_num := w_residual_tasks_num w - 1\<rparr> else w) = with_status s {i} w"
    using assms(1) by (simp add: with_status_def inc upd_task_def on_tasks_single)
  moreover have "\<not> (t_status ?t < OPH_ODB_STATUS_COMPLETED \<and> w_residual_tasks_num w = 0)" "\<not> (t_status ?t \<noteq> 0 \<and> t_status ?t < s)"
    using assms(2) inc by (auto simp: can_be_set_def split: if_splits)
  ultimately show ?thesis using assms(1) by (auto simp: valid_index_def Let_def)
qed

lemma set_status_reach:
  assumes "indexes_ok (w_tasks_num w) (w_tasks w)" and "acyclic (dag_edges (w_tasks_num w) (w_tasks w))"
    and "set is \<subseteq> {0..<int (w_tasks_num w)}" and "\<forall>i\<in>set is. below (dag_edges (w_tasks_num w) (w_tasks w)) (nat i) < fuel"
    and "OPH_ODB_STATUS_COMPLETED \<le> s" and "can_be_set s (reach_from (dag_edges (w_tasks_num w) (w_tasks w)) is) w"
  shows "oph_workflow_set_status fuel s is w =
    Some (OPH_WORKFLOW_EXIT_SUCCESS, with_status s (reach_from (dag_edges (w_tasks_num w) (w_tasks w)) is) w)"
  using assms
proof (induction fuel arbitrary: "is" w)
  case 0
  then have "is = []" by (cases "is") auto
  then show ?case by (simp add: with_status_def incomplete_def)
next
  case (Suc fuel)
  from Suc.prems show ?case
  proof (induction "is" arbitrary: w)
    case Nil
    then show ?case by (simp add: with_status_def incomplete_def)
  next
    case (Cons i "is")
    let ?N = "w_tasks_num w" and ?r = "dag_edges (w_tasks_num w) (w_tasks w)"
    let ?p = "nat i" and ?js = "t_dependents_indexes (w_tasks w ! nat i)"
    let ?w1 = "with_status s {?p} w" and ?A = "reach_from ?r ?js" and ?B = "reach_from ?r is"
    let ?w2 = "with_status s ({?p} \<union> ?A) w"
    have N: "?N \<le> length (w_tasks w)" using Cons.prems(1) by (simp add: indexes_ok_def)
    have i: "0 \<le> i" "i < int ?N" "?p < ?N" "?p < length (w_tasks w)" using Cons.prems(3) N by auto
    note edges = with_status_edges [OF N]
    have bound: "?r \<subseteq> {..<?N} \<times> {..<?N}" using dag_edges_bound [OF Cons.prems(1)] .
    have fin: "finite ?r" using bound by (rule finite_subset) simp
    have js: "set ?js \<subseteq> {0..<int ?N}" using indexes_okD [OF Cons.prems(1) i(3)] by auto
    have A: "?A = ?r\<^sup>+ `` {?p}" using reach_from_dependents [OF Cons.prems(1) i(3)] .
    have sub: "?A \<subseteq> {..<length (w_tasks w)}" "?B \<subseteq> {..<length (w_tasks w)}" "{?p} \<subseteq> {..<length (w_tasks w)}"
      using reach_from_bound [OF bound js] reach_from_bound [OF bound, of "is"] Cons.prems(3) N i by auto
    have un: "reach_from ?r (i # is) = ({?p} \<union> ?A) \<union> ?B" by (simp add: A rtrancl_Image)
    have can: "can_be_set s (({?p} \<union> ?A) \<union> ?B) w" using Cons.prems(6) un by simp
    have can_p: "can_be_set s {?p} w" by (rule can_be_set_subset [OF can]) (use sub in auto)
    have can_A: "can_be_set s ?A ?w1"
      using can_be_set_with_status [OF Cons.prems(5) sub(3,1) can_be_set_subset [OF can]] sub by auto
    have "below ?r (nat j) < fuel" if "j \<in> set ?js" for j
    proof -
      have "(?p, nat j) \<in> ?r" using that js i(3) by (force simp: dag_edges_def)
      then show ?thesis using below_decreases [OF Cons.prems(2) fin] Cons.prems(4) by fastforce
    qed
    then have "oph_workflow_set_status fuel s ?js ?w1 = Some (OPH_WORKFLOW_EXIT_SUCCESS, with_status s ?A ?w1)"
      using Suc.IH [of ?w1 ?js] edges Cons.prems(1,2,5) js can_A by simp
    then have rec: "oph_workflow_set_status fuel s ?js ?w1 = Some (OPH_WORKFLOW_EXIT_SUCCESS, ?w2)"
      by (simp only: with_status_comp [OF Cons.prems(5) sub(3,1)])
    have "can_be_set s ?B ?w2"
      using can_be_set_with_status [OF Cons.prems(5) _ sub(2) can] sub by simp
    then have "oph_workflow_set_status (Suc fuel) s is ?w2 = Some (OPH_WORKFLOW_EXIT_SUCCESS, with_status s ?B ?w2)"
      using Cons.IH [of ?w2] edges Cons.prems(1-5) by simp
    also have "with_status s ?B ?w2 = with_status s (({?p} \<union> ?A) \<union> ?B) w"
      using with_status_comp [OF Cons.prems(5) _ sub(2)] sub by simp
    finally show ?case
      unfolding un using set_status_step [OF i(4) can_p, of fuel "is"] rec i(1) by (simp del: oph_workflow_set_status.simps)
  qed
qed

section \<open>Lemmas on the reset\<close>

text \<open>The snapshot has the sizes of the tasks, and valid indexes; its edges do not leave the last task of the loop.\<close>

definition snapshot_ok :: "nat \<Rightarrow> oph_workflow_stack \<Rightarrow> oph_workflow \<Rightarrow> bool" where
  [code_defs]: "snapshot_ok N stack w \<longleftrightarrow> N \<le> length (w_tasks w) \<and> N \<le> length (k_tasks stack) \<and>
     list_all (\<lambda>j. let k = k_tasks stack ! j; t = w_tasks w ! j in
       length (s_deps_task_index k) = length (t_deps t) \<and> length (s_dependents_indexes k) = length (t_dependents_indexes t) \<and>
       list_all (\<lambda>i. 0 \<le> i \<and> i < int N) (s_dependents_indexes k)) [0..<N]"

definition snapshot_edges :: "nat \<Rightarrow> int \<Rightarrow> oph_workflow_stack \<Rightarrow> (nat \<times> nat) set" where
  "snapshot_edges N last_task stack = {(p, j). p < N \<and> int p \<noteq> last_task \<and> int j \<in> set (s_dependents_indexes (k_tasks stack ! p))}"

definition restore :: "oph_workflow_stack \<Rightarrow> nat \<Rightarrow> oph_workflow_task \<Rightarrow> oph_workflow_task" where
  "restore stack j t = the (reset_data (k_tasks stack ! j) t)"

definition touched :: "nat \<Rightarrow> oph_workflow \<Rightarrow> nat set" where
  "touched N w = {j. j < N \<and> t_status (w_tasks w ! j) \<noteq> 0}"

lemma finite_touched [simp]: "finite (touched N w)"
  by (simp add: touched_def)

lemma snapshot_okD:
  assumes "snapshot_ok N stack w" and "j < N"
  shows "reset_data (k_tasks stack ! j) (w_tasks w ! j) = Some (restore stack j (w_tasks w ! j))"
    and "t_status (restore stack j (w_tasks w ! j)) = 0"
    and "t_dependents_indexes (restore stack j (w_tasks w ! j)) = s_dependents_indexes (k_tasks stack ! j)"
    and "length (t_deps (restore stack j (w_tasks w ! j))) = length (t_deps (w_tasks w ! j))"
    and "set (s_dependents_indexes (k_tasks stack ! j)) \<subseteq> {0..<int N}"
    and "length (t_dependents_indexes (w_tasks w ! j)) = length (s_dependents_indexes (k_tasks stack ! j))"
  using assms by (auto simp: snapshot_ok_def restore_def reset_data_def Let_def list_all_iff OPH_ODB_STATUS_UNKNOWN_def)

lemma snapshot_ok_restore:
  assumes "snapshot_ok N stack w" and "R \<subseteq> {..<N}"
  shows "snapshot_ok N stack (on_tasks (restore stack) R w)" and "touched N (on_tasks (restore stack) R w) = touched N w - R"
proof -
  have N: "N \<le> length (w_tasks w)" using assms(1) by (simp add: snapshot_ok_def)
  show "touched N (on_tasks (restore stack) R w) = touched N w - R"
    using N snapshot_okD(2) [OF assms(1)] by (auto simp: touched_def split: if_splits)
  show "snapshot_ok N stack (on_tasks (restore stack) R w)"
    using assms(1) N snapshot_okD(3,4,6) [OF assms(1)] by (auto simp: snapshot_ok_def list_all_iff Let_def)
qed

lemma reset_step:
  assumes "snapshot_ok N stack w" and "i < N" and "i \<in> touched N w"
  shows "oph_workflow_reset_task (Suc fuel) last_task stack (int i # is) (w, n) =
    (let w' = on_tasks (restore stack) {i} w in
     if int i = last_task then oph_workflow_reset_task (Suc fuel) last_task stack is (w', n + 1)
     else (case oph_workflow_reset_task fuel last_task stack (s_dependents_indexes (k_tasks stack ! i)) (w', n + 1) of
             Some (OPH_WORKFLOW_EXIT_SUCCESS, w, n) \<Rightarrow> oph_workflow_reset_task (Suc fuel) last_task stack is (w, n)
           | r \<Rightarrow> r))"
proof -
  have "i < length (w_tasks w)" "i < length (k_tasks stack)" using assms(1,2) by (auto simp: snapshot_ok_def)
  then show ?thesis
    using assms(3) snapshot_okD(1,3) [OF assms(1,2)] by (simp add: valid_index_def touched_def Let_def on_tasks_single)
qed

text \<open>
  What a call resets, \<open>R\<close>: among the tasks it can reach; afterwards no task of the list, and no dependent of a task of \<open>R\<close>,
  is left to reset.
\<close>

definition resets :: "nat set \<Rightarrow> (nat \<times> nat) set \<Rightarrow> int list \<Rightarrow> nat set \<Rightarrow> bool" where
  "resets T r is R \<longleftrightarrow> R \<subseteq> T \<and> R \<subseteq> reach_from r is \<and> (\<forall>i\<in>set is. nat i \<notin> T - R) \<and> (\<forall>u\<in>R. \<forall>v. (u, v) \<in> r \<longrightarrow> v \<notin> T - R)"

lemma resets_cons:
  assumes "resets T r [i] R" and "resets (T - R) r is S"
  shows "resets T r (i # is) (R \<union> S)"
proof -
  have "T - (R \<union> S) = T - R - S" by blast
  moreover have "R \<union> S \<subseteq> reach_from r (i # is)" using assms by (auto simp: resets_def)
  ultimately show ?thesis using assms unfolding resets_def by auto
qed

lemma resets_finite: "resets T r is R \<Longrightarrow> finite T \<Longrightarrow> finite R"
  by (auto simp: resets_def dest: finite_subset)

lemma resets_skip: "nat i \<notin> T \<Longrightarrow> resets T r [i] {}"
  by (simp add: resets_def)

lemma resets_last: "nat i \<in> T \<Longrightarrow> \<forall>v. (nat i, v) \<notin> r \<Longrightarrow> resets T r [i] {nat i}"
  by (auto simp: resets_def)

lemma resets_node:
  assumes "resets (T - {nat i}) r js R" and "nat i \<in> T" and "\<And>v. (nat i, v) \<in> r \<longleftrightarrow> v \<in> nat ` set js"
  shows "resets T r [i] (insert (nat i) R)"
proof -
  have "reach_from r js \<subseteq> r\<^sup>* `` {nat i}"
    using assms(3) by (auto simp: reach_from_def intro: converse_rtrancl_into_rtrancl)
  moreover have "T - insert (nat i) R = T - {nat i} - R" by blast
  ultimately show ?thesis using assms unfolding resets_def by auto
qed

lemma snapshot_edges_iff:
  assumes "snapshot_ok N stack w" and "p < N" and "int p \<noteq> last_task"
  shows "(p, v) \<in> snapshot_edges N last_task stack \<longleftrightarrow> v \<in> nat ` set (s_dependents_indexes (k_tasks stack ! p))"
  using assms(2,3) snapshot_okD(5) [OF assms(1,2)] by (force simp: snapshot_edges_def image_iff)

text \<open>One task of the list, given the call on its dependents.\<close>

lemma reset_one:
  assumes "snapshot_ok N stack w" and "0 \<le> i" and "i < int N" and "card (touched N w) < Suc fuel"
    and "\<And>w n. snapshot_ok N stack w \<Longrightarrow> card (touched N w) < fuel \<Longrightarrow>
      \<exists>R. resets (touched N w) (snapshot_edges N last_task stack) (s_dependents_indexes (k_tasks stack ! nat i)) R \<and>
        oph_workflow_reset_task fuel last_task stack (s_dependents_indexes (k_tasks stack ! nat i)) (w, n) =
        Some (OPH_WORKFLOW_EXIT_SUCCESS, on_tasks (restore stack) R w, n + int (card R))"
  shows "\<exists>R. resets (touched N w) (snapshot_edges N last_task stack) [i] R \<and>
    oph_workflow_reset_task (Suc fuel) last_task stack (i # is) (w, n) =
    oph_workflow_reset_task (Suc fuel) last_task stack is (on_tasks (restore stack) R w, n + int (card R))"
proof (cases "nat i \<in> touched N w")
  case False
  have "nat i < length (w_tasks w)" "t_status (w_tasks w ! nat i) = 0"
    using False assms(1-3) by (auto simp: touched_def snapshot_ok_def)
  then show ?thesis using False assms(2) by (intro exI [of _ "{}"]) (simp add: resets_skip valid_index_def)
next
  case True
  let ?p = "nat i" and ?T = "touched N w" and ?r = "snapshot_edges N last_task stack"
  let ?w1 = "on_tasks (restore stack) {?p} w"
  have p: "?p < N" "int ?p = i" using assms(2,3) by auto
  note step = reset_step [OF assms(1) p(1) True, of fuel last_task "is" n, unfolded p(2)]
  show ?thesis
  proof (cases "i = last_task")
    case True
    then have "resets ?T ?r [i] {?p}" using \<open>?p \<in> ?T\<close> p(2) by (intro resets_last) (auto simp: snapshot_edges_def)
    then show ?thesis using step True by (intro exI [of _ "{?p}"]) simp
  next
    case False
    have w1: "snapshot_ok N stack ?w1" "touched N ?w1 = ?T - {?p}" using snapshot_ok_restore [OF assms(1), of "{?p}"] p(1) by auto
    have "card (touched N ?w1) < fuel" using w1(2) True assms(4) card_Diff1_less [of ?T ?p] by simp
    then obtain R where R: "resets (?T - {?p}) ?r (s_dependents_indexes (k_tasks stack ! ?p)) R"
        "oph_workflow_reset_task fuel last_task stack (s_dependents_indexes (k_tasks stack ! ?p)) (?w1, n + 1) =
          Some (OPH_WORKFLOW_EXIT_SUCCESS, on_tasks (restore stack) R ?w1, n + 1 + int (card R))"
      using assms(5) [OF w1(1), of "n + 1"] by (auto simp: w1(2))
    have dis: "?p \<notin> R" and fin: "finite R" using R(1) finite_subset [of R "?T"] by (auto simp: resets_def)
    have "on_tasks (restore stack) R ?w1 = on_tasks (restore stack) (insert ?p R) w"
      using on_tasks_comp [of "{?p}" R] dis by auto
    moreover have "resets ?T ?r [i] (insert ?p R)"
      using R(1) True snapshot_edges_iff [OF assms(1) p(1)] False p(2) by (intro resets_node) auto
    ultimately show ?thesis
      using step R(2) False dis fin by (intro exI [of _ "insert ?p R"]) (simp del: oph_workflow_reset_task.simps add: add.assoc)
  qed
qed

lemma reset_task_dfs:
  assumes "snapshot_ok N stack w" and "set is \<subseteq> {0..<int N}" and "card (touched N w) < fuel"
  shows "\<exists>R. resets (touched N w) (snapshot_edges N last_task stack) is R \<and>
    oph_workflow_reset_task fuel last_task stack is (w, n) =
      Some (OPH_WORKFLOW_EXIT_SUCCESS, on_tasks (restore stack) R w, n + int (card R))"
  using assms
proof (induction fuel arbitrary: "is" w n)
  case (Suc fuel)
  let ?r = "snapshot_edges N last_task stack"
  from Suc.prems show ?case
  proof (induction "is" arbitrary: w n)
    case Nil
    then show ?case by (intro exI [of _ "{}"]) (auto simp: resets_def)
  next
    case (Cons i "is")
    let ?T = "touched N w"
    have i: "0 \<le> i" "i < int N" using Cons.prems(2) by auto
    have js: "set (s_dependents_indexes (k_tasks stack ! nat i)) \<subseteq> {0..<int N}"
      using snapshot_okD(5) [OF Cons.prems(1), of "nat i"] i by auto
    obtain R where R: "resets ?T ?r [i] R" "oph_workflow_reset_task (Suc fuel) last_task stack (i # is) (w, n) =
        oph_workflow_reset_task (Suc fuel) last_task stack is (on_tasks (restore stack) R w, n + int (card R))"
      using reset_one [OF Cons.prems(1) i Cons.prems(3) Suc.IH [OF _ js]] by blast
    have sub: "R \<subseteq> {..<N}" using R(1) by (auto simp: resets_def touched_def)
    note w2 = snapshot_ok_restore [OF Cons.prems(1) sub]
    have "card (?T - R) < Suc fuel" using Cons.prems(3) card_mono [of ?T "?T - R"] by simp
    then obtain S where S: "resets (?T - R) ?r is S" "oph_workflow_reset_task (Suc fuel) last_task stack is
        (on_tasks (restore stack) R w, n + int (card R)) =
        Some (OPH_WORKFLOW_EXIT_SUCCESS, on_tasks (restore stack) S (on_tasks (restore stack) R w), n + int (card R) + int (card S))"
      using Cons.IH [OF w2(1), of "n + int (card R)"] Cons.prems(2) by (auto simp: w2(2))
    have dis: "R \<inter> S = {}" using S(1) by (auto simp: resets_def)
    have fin: "finite R" "finite S" using resets_finite [OF R(1)] resets_finite [OF S(1)] by auto
    have "on_tasks (restore stack) S (on_tasks (restore stack) R w) = on_tasks (restore stack) (R \<union> S) w"
      by (rule on_tasks_comp) (use dis in blast)
    then show ?case
      using resets_cons [OF R(1) S(1)] R(2) S(2) card_Un_disjoint [OF fin dis]
      by (intro exI [of _ "R \<union> S"]) (simp del: oph_workflow_reset_task.simps add: add.assoc)
  qed
qed simp

text \<open>When everything within reach was executed, a reset of the whole.\<close>

lemma resets_all:
  assumes "resets T r is R" and "reach_from r is \<subseteq> T"
  shows "R = reach_from r is"
proof -
  have "v \<in> R" if "(u, v) \<in> r\<^sup>*" "u \<in> R" for u v
    using that
  proof induction
    case (step y z)
    then have "z \<notin> T - R" using assms(1) by (auto simp: resets_def)
    moreover have "z \<in> reach_from r is"
      using assms(1) step(2,3) step.prems by (fastforce simp: resets_def reach_from_def intro: rtrancl_into_rtrancl)
    ultimately show ?case using assms(2) by blast
  qed
  moreover have "nat i \<in> R" if "i \<in> set is" for i
    using assms that by (auto simp: resets_def reach_from_def)
  ultimately show ?thesis using assms(1) by (auto simp: resets_def reach_from_def)
qed

section \<open>Lemmas on the marks\<close>

text \<open>The tasks from which the end-task \<open>c\<close> is reached, below a list of tasks.\<close>

definition between :: "(nat \<times> nat) set \<Rightarrow> nat \<Rightarrow> int list \<Rightarrow> nat set" where
  "between r c is = {j \<in> reach_from r is. j \<noteq> c \<and> (j, c) \<in> r\<^sup>*}"

definition marked :: "nat \<Rightarrow> oph_workflow_task \<Rightarrow> oph_workflow_task" where
  "marked j t = t\<lparr>t_is_marked := True\<rparr>"

lemma marked_simps [simp]:
  "t_dependents_indexes (marked j t) = t_dependents_indexes t" "t_child (marked j t) = t_child t" "marked j (marked j t) = marked j t"
  by (simp_all add: marked_def)

lemma marked_graph:
  assumes "w_tasks_num w \<le> length (w_tasks w)"
  shows "dag_edges (w_tasks_num w) (w_tasks (on_tasks marked R w)) = dag_edges (w_tasks_num w) (w_tasks w)"
    and "indexes_ok (w_tasks_num w) (w_tasks (on_tasks marked R w)) \<longleftrightarrow> indexes_ok (w_tasks_num w) (w_tasks w)"
    and "p < w_tasks_num w \<Longrightarrow> t_child (w_tasks (on_tasks marked R w) ! p) = t_child (w_tasks w ! p)"
  using assms by (auto intro!: dag_edges_cong indexes_ok_cong)

lemma between_cons_skip:
  assumes "acyclic r" and "nat i = c \<or> (nat i, c) \<notin> r\<^sup>*"
  shows "between r c (i # is) = between r c is"
proof -
  have "j \<notin> between r c [i]" for j
    using assms by (auto simp: between_def dest: rtrancl_trans acyclic_impl_antisym_rtrancl [THEN antisymD])
  then show ?thesis by (auto simp: between_def)
qed

lemma between_cons:
  assumes "indexes_ok N ts" and "p < N" and "p \<noteq> c" and "(p, c) \<in> (dag_edges N ts)\<^sup>*"
  shows "between (dag_edges N ts) c (int p # is) =
    ({p} \<union> between (dag_edges N ts) c (t_dependents_indexes (ts ! p))) \<union> between (dag_edges N ts) c is"
  using reach_from_dependents [OF assms(1,2)] assms(3,4) by (auto simp: between_def rtrancl_Image)

lemma mark_children_ok:
  assumes "indexes_ok (w_tasks_num w) (w_tasks w)" and "acyclic (dag_edges (w_tasks_num w) (w_tasks w))"
    and "p < w_tasks_num w" and "t_child (w_tasks w ! p) = int c" and "c < w_tasks_num w"
    and "set js \<subseteq> {0..<int (w_tasks_num w)}" and "\<forall>j\<in>set js. below (dag_edges (w_tasks_num w) (w_tasks w)) (nat j) < fuel"
  shows "mark_loop fuel w js (int p) =
    Some (OPH_WORKFLOW_EXIT_SUCCESS, on_tasks marked (between (dag_edges (w_tasks_num w) (w_tasks w)) c js) w)"
  using assms
proof (induction fuel arbitrary: js w)
  case 0
  then show ?case by (cases js) (auto simp: between_def)
next
  case (Suc fuel)
  from Suc.prems show ?case
  proof (induction js arbitrary: w)
    case Nil
    then show ?case by (simp add: between_def)
  next
    case (Cons j js)
    let ?N = "w_tasks_num w" and ?r = "dag_edges (w_tasks_num w) (w_tasks w)"
    let ?ds = "t_dependents_indexes (w_tasks w ! nat j)" and ?w1 = "on_tasks marked {nat j} w"
    note [simp del] = oph_workflow_is_child_of.simps
    have N: "?N \<le> length (w_tasks w)" using Cons.prems(1) by (simp add: indexes_ok_def)
    have j: "0 \<le> j" "nat j < ?N" "int (nat j) = j" "nat j < length (w_tasks w)" using Cons.prems(6) N by auto
    have child: "oph_workflow_is_child_of (Suc ?N) w j (int c) = Some ((nat j, c) \<in> ?r\<^sup>*)"
      using is_child_of_reach [OF Cons.prems(1,2,5) j(2), of "Suc ?N", unfolded j(3)]
        below_bound [OF dag_edges_bound [OF Cons.prems(1)], of "nat j"]
      by simp
    show ?case
    proof (cases "nat j = c \<or> (nat j, c) \<notin> ?r\<^sup>*")
      case True
      then have "mark_loop (Suc fuel) w (j # js) (int p) = mark_loop (Suc fuel) w js (int p)"
        using child Cons.prems(4) j(1) by (auto simp: Let_def)
      then show ?thesis using between_cons_skip [OF Cons.prems(2) True] Cons.IH [of w] Cons.prems by simp
    next
      case False
      let ?A = "{nat j} \<union> between ?r c ?ds"
      have fin: "finite ?r" using dag_edges_bound [OF Cons.prems(1)] by (rule finite_subset) simp
      have ds: "set ?ds \<subseteq> {0..<int ?N}" using indexes_okD [OF Cons.prems(1) j(2)] by auto
      have "below ?r (nat d) < fuel" if "d \<in> set ?ds" for d
      proof -
        have "(nat j, nat d) \<in> ?r" using that ds j(2) by (force simp: dag_edges_def)
        then show ?thesis using below_decreases [OF Cons.prems(2) fin] Cons.prems(7) by fastforce
      qed
      then have "mark_loop fuel ?w1 ?ds (int p) = Some (OPH_WORKFLOW_EXIT_SUCCESS, on_tasks marked (between ?r c ?ds) ?w1)"
        using Suc.IH [of ?w1 ?ds] marked_graph [OF N] Cons.prems(1-5) ds by simp
      then have "oph_workflow_mark_children_of (Suc fuel) ?w1 j (int p) = Some (OPH_WORKFLOW_EXIT_SUCCESS, on_tasks marked ?A w)"
        using j Cons.prems(3) N on_tasks_comp [of "{nat j}" "between ?r c ?ds" marked w] by (auto simp: valid_index_def)
      moreover have "upd_task (\<lambda>t. t\<lparr>t_is_marked := True\<rparr>) (nat j) w = ?w1"
        using j(4) by (simp add: on_tasks_single upd_task_def marked_def)
      ultimately have "mark_loop (Suc fuel) w (j # js) (int p) = mark_loop (Suc fuel) (on_tasks marked ?A w) js (int p)"
        using child False Cons.prems(4) j by (auto simp: Let_def valid_index_def)
      also have "\<dots> = Some (OPH_WORKFLOW_EXIT_SUCCESS, on_tasks marked (between ?r c js) (on_tasks marked ?A w))"
        using Cons.IH [of "on_tasks marked ?A w"] marked_graph [OF N] Cons.prems by simp
      finally show ?thesis
        using between_cons [OF Cons.prems(1) j(2), of c js] False j(3) on_tasks_comp [of ?A "between ?r c js" marked w] by simp
    qed
  qed
qed

text \<open>From the task of the loop itself the marks are those of the tasks between the task and its end-task.\<close>

lemma mark_children_marks:
  assumes "indexes_ok (w_tasks_num w) (w_tasks w)" and "acyclic (dag_edges (w_tasks_num w) (w_tasks w))" and "p < w_tasks_num w"
    and "t_child (w_tasks w ! p) = int c" and "c < w_tasks_num w" and "Suc (w_tasks_num w) < fuel"
  shows "oph_workflow_mark_children_of fuel w (int p) (int p) = Some (OPH_WORKFLOW_EXIT_SUCCESS,
    on_tasks marked {j. (p, j) \<in> (dag_edges (w_tasks_num w) (w_tasks w))\<^sup>+ \<and> (j, c) \<in> (dag_edges (w_tasks_num w) (w_tasks w))\<^sup>+} w)"
proof -
  let ?r = "dag_edges (w_tasks_num w) (w_tasks w)" and ?js = "t_dependents_indexes (w_tasks w ! p)"
  obtain n where n: "fuel = Suc n" using assms(6) by (cases fuel) auto
  have N: "w_tasks_num w \<le> length (w_tasks w)" using assms(1) by (simp add: indexes_ok_def)
  have "\<forall>j\<in>set ?js. below ?r (nat j) < n"
    using below_bound [OF dag_edges_bound [OF assms(1)]] assms(6) n by (meson Suc_less_eq le_less_trans)
  moreover have "set ?js \<subseteq> {0..<int (w_tasks_num w)}" using indexes_okD [OF assms(1,3)] by auto
  ultimately have "mark_loop n w ?js (int p) = Some (OPH_WORKFLOW_EXIT_SUCCESS, on_tasks marked (between ?r c ?js) w)"
    using mark_children_ok [OF assms(1-5)] by blast
  then have "oph_workflow_mark_children_of fuel w (int p) (int p) =
      Some (OPH_WORKFLOW_EXIT_SUCCESS, on_tasks marked (between ?r c ?js) w)"
    using assms(3) N n by (simp add: valid_index_def)
  moreover have "between ?r c ?js = {j. (p, j) \<in> ?r\<^sup>+ \<and> (j, c) \<in> ?r\<^sup>+}"
    using reach_from_dependents [OF assms(1,3)] assms(2)
    by (auto simp: between_def rtrancl_eq_or_trancl acyclic_def)
  ultimately show ?thesis by simp
qed

section \<open>Lemmas on the ordered lists\<close>

fun key_le :: "string option \<times> string option \<Rightarrow> string option \<times> string option \<Rightarrow> bool" where
  "key_le (Some k, _) (Some k', _) \<longleftrightarrow> \<not> strcmp_gt k k'"
| "key_le _ _ \<longleftrightarrow> False"

lemma not_strcmp_gt_trans: "\<not> strcmp_gt a b \<Longrightarrow> \<not> strcmp_gt b c \<Longrightarrow> \<not> strcmp_gt a c"
  by (metis strcmp_gt_trans strcmp_total)

lemma add_to_list_set: "set (oph_workflow_add_to_list key obj l) = insert (Some key, Some obj) (set l)"
  by (induction key obj l rule: oph_workflow_add_to_list.induct) (auto split: option.splits)

lemma add_to_list_sorted:
  "sorted_wrt key_le l \<Longrightarrow> \<forall>(k, v)\<in>set l. k \<noteq> None \<Longrightarrow> sorted_wrt key_le (oph_workflow_add_to_list key obj l)"
proof (induction key obj l rule: oph_workflow_add_to_list.induct)
  case (2 key obj k v list)
  then obtain c where c: "k = Some c" by auto
  have rest: "\<exists>c'. fst e = Some c' \<and> \<not> strcmp_gt c c'" if "e \<in> set list" for e
    using 2(2,3) that c by (cases e) fastforce
  show ?case
  proof (cases "strcmp_gt c key")
    case True
    have "key_le (Some key, Some obj) e" if "e \<in> set list" for e
      using rest [OF that] strcmp_gt_asym [OF True] not_strcmp_gt_trans [of key c] by (cases e) auto
    then show ?thesis using 2(2) c True strcmp_gt_asym by auto
  next
    case False
    have "sorted_wrt key_le (oph_workflow_add_to_list key obj list)" using 2(1) [OF c False] 2(2,3) by auto
    then show ?thesis using 2(2) c False by (auto simp: add_to_list_set)
  qed
qed simp

lemma add_to_list_filter:
  assumes "sorted_wrt key_le l" and "\<forall>(k, v)\<in>set l. k \<noteq> None"
  shows "filter (\<lambda>e. fst e = Some q) (oph_workflow_add_to_list key obj l) =
    filter (\<lambda>e. fst e = Some q) l @ (if q = key then [(Some key, Some obj)] else [])"
  using assms
proof (induction key obj l rule: oph_workflow_add_to_list.induct)
  case (2 key obj k v list)
  then obtain c where c: "k = Some c" by auto
  have rest: "\<exists>c'. fst e = Some c' \<and> \<not> strcmp_gt c c'" if "e \<in> set list" for e
    using 2(2,3) that c by (cases e) fastforce
  show ?case
  proof (cases "strcmp_gt c key")
    case True
    then have "\<forall>e\<in>set list. fst e \<noteq> Some key" using rest by fastforce
    then show ?thesis using True c by (auto simp: filter_empty_conv)
  next
    case False
    then show ?thesis using 2(1) [OF c False] 2(2,3) c by auto
  qed
qed simp

section \<open>Lemmas on the dependencies of the body of a loop\<close>

text \<open>
  A path from a list of dependents is given by a position in the list and, for every further task, a position in the dependents of the task
  before it; it leads through tasks that are not started, and not beyond the end-task.
\<close>

fun body_path :: "oph_workflow \<Rightarrow> int \<Rightarrow> int list \<Rightarrow> nat list \<Rightarrow> nat option" where
  "body_path w last_task is [] = None"
| "body_path w last_task is [k] =
     (if k < length is \<and> t_status (w_tasks w ! nat (is ! k)) = 0 then Some (nat (is ! k)) else None)"
| "body_path w last_task is (k # ks) =
     (if k < length is \<and> t_status (w_tasks w ! nat (is ! k)) = 0 \<and> is ! k \<noteq> last_task
      then body_path w last_task (t_dependents_indexes (w_tasks w ! nat (is ! k))) ks else None)"

definition body_paths :: "oph_workflow \<Rightarrow> int \<Rightarrow> int list \<Rightarrow> nat \<Rightarrow> nat list set" where
  "body_paths w last_task is j = {ks. body_path w last_task is ks = Some j}"

lemma body_path_Suc: "body_path w e (i # is) (Suc k # ks) = body_path w e is (k # ks)"
  by (cases ks) simp_all

lemma body_paths_not_Nil [simp]: "[] \<notin> body_paths w e is j"
  by (simp add: body_paths_def)

lemma body_paths_Nil: "body_paths w e [] j = {}"
proof -
  have "body_path w e [] ks = None" for ks by (cases "(w, e, [] :: int list, ks)" rule: body_path.cases) simp_all
  then show ?thesis by (simp add: body_paths_def)
qed

lemma body_paths_Cons:
  "body_paths w e (i # is) j =
     (if t_status (w_tasks w ! nat i) \<noteq> 0 then {}
      else (if nat i = j then {[0]} else {}) \<union>
        (if i = e then {} else Cons 0 ` body_paths w e (t_dependents_indexes (w_tasks w ! nat i)) j)) \<union>
     (\<lambda>ks. Suc (hd ks) # tl ks) ` body_paths w e is j" (is "_ = ?here \<union> ?rest")
proof (intro set_eqI)
  fix ks
  consider "ks = []" | "ks = [0]" | k l where "ks = 0 # k # l" | k l where "ks = Suc k # l"
    by (metis list.exhaust old.nat.exhaust)
  then show "ks \<in> body_paths w e (i # is) j \<longleftrightarrow> ks \<in> ?here \<union> ?rest"
  proof cases
    case 4
    have "ks \<in> ?rest \<longleftrightarrow> k # l \<in> body_paths w e is j"
    proof
      assume "ks \<in> ?rest"
      then obtain xs where "xs \<in> body_paths w e is j" "Suc k # l = Suc (hd xs) # tl xs" using 4 by auto
      then show "k # l \<in> body_paths w e is j" by (cases xs) auto
    qed (auto simp: 4 intro: image_eqI [of _ _ "k # l"])
    then show ?thesis using 4 by (auto simp: body_paths_def body_path_Suc split: if_splits)
  qed (auto simp: body_paths_def split: if_splits)
qed

lemma card_body_paths_Cons:
  assumes "finite (body_paths w e is j)" and "t_status (w_tasks w ! nat i) = 0 \<and> i \<noteq> e \<longrightarrow> finite (body_paths w e (t_dependents_indexes (w_tasks w ! nat i)) j)"
  shows "finite (body_paths w e (i # is) j) \<and> card (body_paths w e (i # is) j) =
    (if t_status (w_tasks w ! nat i) \<noteq> 0 then 0
     else (if nat i = j then 1 else 0) + (if i = e then 0 else card (body_paths w e (t_dependents_indexes (w_tasks w ! nat i)) j))) +
    card (body_paths w e is j)"
proof -
  let ?deps = "body_paths w e (t_dependents_indexes (w_tasks w ! nat i)) j" and ?next = "\<lambda>ks. Suc (hd ks) # tl ks"
  have inj: "inj_on ?next (body_paths w e is j)" "inj_on (Cons 0) ?deps"
    by (auto simp: inj_on_def intro: list.expand)
  have c: "card (?next ` body_paths w e is j) = card (body_paths w e is j)" "card (Cons 0 ` ?deps) = card ?deps"
    using inj by (simp_all add: card_image)
  have dis: "[0] \<notin> Cons 0 ` ?deps" "Cons 0 ` ?deps \<inter> ?next ` body_paths w e is j = {}" "[0] \<notin> ?next ` body_paths w e is j"
    by auto
  show ?thesis
    unfolding body_paths_Cons using assms c dis by (auto simp: card_Un_disjoint)
qed

text \<open>The counters lowered by a number for each task.\<close>

definition lowered :: "(nat \<Rightarrow> int) \<Rightarrow> oph_workflow \<Rightarrow> oph_workflow" where
  "lowered f w = on_tasks (\<lambda>j t. t\<lparr>t_residual_deps_num := t_residual_deps_num t - f j\<rparr>) UNIV w"

lemma lowered_simps [simp]:
  "length (w_tasks (lowered f w)) = length (w_tasks w)"
  "j < length (w_tasks w) \<Longrightarrow> w_tasks (lowered f w) ! j = (w_tasks w ! j)\<lparr>t_residual_deps_num := t_residual_deps_num (w_tasks w ! j) - f j\<rparr>"
  by (simp_all add: lowered_def)

lemma lowered_zero: "lowered (\<lambda>_. 0) w = w"
  by (auto simp: lowered_def on_tasks_def map_nth intro!: nth_equalityI arg_cong [of _ _ "\<lambda>ts. w\<lparr>w_tasks := ts\<rparr>"])

lemma lowered_upd:
  assumes "p < length (w_tasks w)"
  shows "upd_task (\<lambda>t. t\<lparr>t_residual_deps_num := t_residual_deps_num t - n\<rparr>) p (lowered f w) = lowered (f(p := f p + n)) w"
  using assms by (auto simp: lowered_def on_tasks_def upd_task_def nth_list_update intro!: nth_equalityI arg_cong [of _ _ "\<lambda>ts. w\<lparr>w_tasks := ts\<rparr>"])

lemma disable_deps_lowers:
  fixes w :: oph_workflow and first_task e :: int
  defines "r \<equiv> dag_edges (w_tasks_num w) (w_tasks w)" and "sat \<equiv> \<lambda>j. satisfied_deps w first_task (w_tasks w ! j)"
  assumes ok: "indexes_ok (w_tasks_num w) (w_tasks w)" and dag: "acyclic (dag_edges (w_tasks_num w) (w_tasks w))"
    and deps: "\<forall>j < w_tasks_num w. \<forall>d \<in> set (t_deps (w_tasks w ! j)). d_task_index d < int (w_tasks_num w)"
  shows "set is \<subseteq> {0..<int (w_tasks_num w)} \<Longrightarrow> \<forall>i \<in> set is. below r (nat i) < fuel \<Longrightarrow>
    (\<forall>j. finite (body_paths w e is j)) \<and>
    oph_workflow_disable_deps fuel first_task e is (lowered f w) =
      Some (OPH_WORKFLOW_EXIT_SUCCESS, lowered (\<lambda>j. f j + int (card (body_paths w e is j)) * sat j) w)"
proof (induction fuel arbitrary: "is" f)
  case 0
  then have "is = []" by (cases "is") auto
  then show ?case by (simp add: body_paths_Nil)
next
  case (Suc fuel)
  have n: "w_tasks_num w \<le> length (w_tasks w)" using ok by (simp add: indexes_ok_def)
  have fin: "finite r" using dag_edges_bound [OF ok] unfolding r_def by (rule finite_subset) simp
  from Suc.prems show ?case
  proof (induction "is" arbitrary: f)
    case Nil
    then show ?case by (simp add: body_paths_Nil)
  next
    case (Cons i "is")
    let ?p = "nat i" and ?u = "lowered f w"
    let ?js = "t_dependents_indexes (w_tasks w ! nat i)"
    have i: "i = int ?p" "?p < w_tasks_num w" "?p < length (w_tasks w)" using Cons.prems(1) n by auto
    have rest: "(\<forall>j. finite (body_paths w e is j)) \<and> oph_workflow_disable_deps (Suc fuel) first_task e is (lowered g w) =
        Some (OPH_WORKFLOW_EXIT_SUCCESS, lowered (\<lambda>j. g j + int (card (body_paths w e is j)) * sat j) w)" for g
      using Cons.IH [of g] Cons.prems by simp
    have dl: "nat (d_task_index d) < length (w_tasks w)" if "d \<in> set (t_deps (w_tasks w ! ?p))" "0 \<le> d_task_index d" for d
      using deps [rule_format, OF i(2) that(1)] that(2) n by linarith
    have u: "valid_index ?u i" "t_status (w_tasks ?u ! ?p) = t_status (w_tasks w ! ?p)" "t_dependents_indexes (w_tasks ?u ! ?p) = ?js"
      "\<not> list_ex (\<lambda>d. d_task_index d \<ge> 0 \<and> d_task_index d \<noteq> first_task \<and> \<not> valid_index ?u (d_task_index d)) (t_deps (w_tasks ?u ! ?p))"
      using Cons.prems(1) i(3) dl by (auto simp: valid_index_def list_ex_iff)
    have sat: "satisfied_deps ?u first_task (w_tasks ?u ! ?p) = sat ?p"
      using i(3) dl unfolding sat_def satisfied_deps_def by (auto intro!: arg_cong [of _ _ length] filter_cong)
    define g where "g = f(?p := f ?p + sat ?p)"
    from sat have upd: "upd_task (\<lambda>t. t\<lparr>t_residual_deps_num := t_residual_deps_num t - satisfied_deps ?u first_task t\<rparr>) ?p ?u =
        lowered g w"
      using lowered_upd [OF i(3), of "sat ?p" f] by (simp add: upd_task_def g_def)
    have js: "set ?js \<subseteq> {0..<int (w_tasks_num w)} \<and> (\<forall>d \<in> set ?js. below r (nat d) < fuel)"
    proof (intro conjI ballI)
      fix d assume d: "d \<in> set ?js"
      then have "(?p, nat d) \<in> r" using i(2) indexes_okD [OF ok i(2) d] by (simp add: r_def dag_edges_def)
      then show "below r (nat d) < fuel" using below_decreases [OF dag [folded r_def] fin] Cons.prems(2) by fastforce
    qed (use indexes_okD [OF ok i(2)] in auto)
    note inner = Suc.IH [OF js [THEN conjunct1] js [THEN conjunct2], of g]
    have card: "finite (body_paths w e (i # is) j) \<and> card (body_paths w e (i # is) j) =
        (if t_status (w_tasks w ! ?p) \<noteq> 0 then 0 else (if ?p = j then 1 else 0) + (if i = e then 0 else card (body_paths w e ?js j))) +
        card (body_paths w e is j)" for j
      using rest inner by (intro card_body_paths_Cons) auto
    show ?case
    proof (cases "t_status (w_tasks w ! ?p) = 0")
      case False
      then show ?thesis using card rest [of f] u by (simp add: Let_def)
    next
      case True
      let ?h = "if i = e then g else (\<lambda>j. g j + int (card (body_paths w e ?js j)) * sat j)"
      have "oph_workflow_disable_deps (Suc fuel) first_task e (i # is) ?u = oph_workflow_disable_deps (Suc fuel) first_task e is (lowered ?h w)"
        using True u upd inner by (simp add: Let_def)
      moreover have "(\<lambda>j. ?h j + int (card (body_paths w e is j)) * sat j) = (\<lambda>j. f j + int (card (body_paths w e (i # is) j)) * sat j)"
        using True by (auto simp: g_def card algebra_simps)
      ultimately show ?thesis using rest [of ?h] card by presburger
    qed
  qed
qed

section \<open>Properties\<close>

text \<open>
  C14: \<open>oph_workflow_set_status\<close> with a final status \<open>s\<close> (\<open>OPH_ODB_STATUS_COMPLETED\<close> or above), called for the list of the dependents of one task of an
  acyclic workflow with valid indexes, each of whose descendants is either not started or has a status of at least \<open>s\<close> already, and with at least as
  many residual tasks as there are incomplete descendants, terminates with success, with one more level of recursion than there are
  tasks: exactly the descendants get the status, and the number of residual tasks is reduced by those of them that were not complete, each counted once
  whatever the number of paths to it.\<close>

theorem set_status_descendants:
  assumes "indexes_ok (w_tasks_num w) (w_tasks w)" and "acyclic (dag_edges (w_tasks_num w) (w_tasks w))" and "p < w_tasks_num w"
    and "OPH_ODB_STATUS_COMPLETED \<le> s"
    and "\<forall>j. (p, j) \<in> (dag_edges (w_tasks_num w) (w_tasks w))\<^sup>+ \<longrightarrow> t_status (w_tasks w ! j) = 0 \<or> s \<le> t_status (w_tasks w ! j)"
    and "int (card {j. (p, j) \<in> (dag_edges (w_tasks_num w) (w_tasks w))\<^sup>+ \<and> t_status (w_tasks w ! j) < OPH_ODB_STATUS_COMPLETED})
      \<le> w_residual_tasks_num w"
    and "w_tasks_num w < fuel"
  shows "\<exists>w'. oph_workflow_set_status fuel s (t_dependents_indexes (w_tasks w ! p)) w = Some (OPH_WORKFLOW_EXIT_SUCCESS, w') \<and>
    length (w_tasks w') = length (w_tasks w) \<and>
    (\<forall>j < length (w_tasks w). w_tasks w' ! j = (if (p, j) \<in> (dag_edges (w_tasks_num w) (w_tasks w))\<^sup>+
       then (w_tasks w ! j)\<lparr>t_status := s\<rparr> else w_tasks w ! j)) \<and>
    w_residual_tasks_num w' = w_residual_tasks_num w -
      int (card {j. (p, j) \<in> (dag_edges (w_tasks_num w) (w_tasks w))\<^sup>+ \<and> t_status (w_tasks w ! j) < OPH_ODB_STATUS_COMPLETED})"
proof -
  let ?r = "dag_edges (w_tasks_num w) (w_tasks w)" and ?is = "t_dependents_indexes (w_tasks w ! p)"
  have R: "reach_from ?r ?is = ?r\<^sup>+ `` {p}" using reach_from_dependents [OF assms(1,3)] .
  have "{j \<in> ?r\<^sup>+ `` {p}. t_status (w_tasks w ! j) < OPH_ODB_STATUS_COMPLETED} =
      {j. (p, j) \<in> ?r\<^sup>+ \<and> t_status (w_tasks w ! j) < OPH_ODB_STATUS_COMPLETED}" by auto
  then have inc: "incomplete (?r\<^sup>+ `` {p}) w =
      int (card {j. (p, j) \<in> ?r\<^sup>+ \<and> t_status (w_tasks w ! j) < OPH_ODB_STATUS_COMPLETED})"
    by (simp add: incomplete_def)
  have "can_be_set s (reach_from ?r ?is) w" using assms(5,6) inc by (auto simp: can_be_set_def R)
  moreover have "set ?is \<subseteq> {0..<int (w_tasks_num w)}" using indexes_okD [OF assms(1,3)] by auto
  moreover have "\<forall>i\<in>set ?is. below ?r (nat i) < fuel"
    using below_bound [OF dag_edges_bound [OF assms(1)]] assms(7) by (meson le_less_trans)
  ultimately have "oph_workflow_set_status fuel s ?is w = Some (OPH_WORKFLOW_EXIT_SUCCESS, with_status s (?r\<^sup>+ `` {p}) w)"
    using set_status_reach [OF assms(1,2), of ?is fuel s] assms(4) by (simp add: R)
  then show ?thesis using inc by simp
qed

text \<open>Task 0 has the dependents 1 and 2, and task 3 depends on both.\<close>

definition demo_diamond :: oph_workflow where
  [code_defs]: "demo_diamond = empty_workflow\<lparr>w_tasks :=
     [zero_task\<lparr>t_dependents_indexes := [1, 2], t_status := 12\<rparr>, zero_task\<lparr>t_dependents_indexes := [3]\<rparr>,
      zero_task\<lparr>t_dependents_indexes := [3]\<rparr>, zero_task, zero_task], w_tasks_num := 4, w_residual_tasks_num := 3\<rparr>"

lemma demo_diamond_graph:
  "indexes_ok (w_tasks_num demo_diamond) (w_tasks demo_diamond)"
  "dag_edges (w_tasks_num demo_diamond) (w_tasks demo_diamond) = {(0, 1), (0, 2), (1, 3), (2, 3)}"
proof -
  have four: "p < 4 \<longleftrightarrow> p = 0 \<or> p = 1 \<or> p = 2 \<or> p = 3" for p :: nat by auto
  have n: "w_tasks_num demo_diamond = 4" by (simp add: code_defs)
  show "indexes_ok (w_tasks_num demo_diamond) (w_tasks demo_diamond)" by (simp add: code_defs)
  have d: "t_dependents_indexes (w_tasks demo_diamond ! 0) = [1, 2]" "t_dependents_indexes (w_tasks demo_diamond ! 1) = [3]"
      "t_dependents_indexes (w_tasks demo_diamond ! 2) = [3]" "t_dependents_indexes (w_tasks demo_diamond ! 3) = []"
    by (simp_all add: code_defs)
  have "(p, j) \<in> dag_edges 4 (w_tasks demo_diamond) \<longleftrightarrow> (p, j) \<in> {(0, 1), (0, 2), (1, 3), (2, 3)}" for p j
  proof (cases "p < 4")
    case True
    then have "p = 0 \<or> p = 1 \<or> p = 2 \<or> p = 3" by (simp only: four)
    then show ?thesis by (elim disjE) (auto simp: dag_edges_def d(1,3,4) d(2) [unfolded One_nat_def])
  qed (auto simp: dag_edges_def)
  then show "dag_edges (w_tasks_num demo_diamond) (w_tasks demo_diamond) = {(0, 1), (0, 2), (1, 3), (2, 3)}"
    unfolding n by (intro equalityI subrelI) (simp_all only:)
qed

lemma demo_diamond_closure:
  "({(0, 1), (0, 2), (1, 3), (2, 3)} :: (nat \<times> nat) set)\<^sup>+ = {(0, 1), (0, 2), (1, 3), (2, 3), (0, 3)}" (is "?r\<^sup>+ = ?t")
proof
  have "trans ?t" by (auto simp: trans_def)
  then show "?r\<^sup>+ \<subseteq> ?t" by (metis insertI1 insert_subset subsetI trancl_id trancl_mono_subset insertCI empty_subsetI)
  have "(0, 1) \<in> ?r\<^sup>+" "(1, 3) \<in> ?r" by auto
  then have "(0, 3) \<in> ?r\<^sup>+" by (rule trancl_into_trancl)
  then show "?t \<subseteq> ?r\<^sup>+" by auto
qed

lemma demo_diamond_acyclic: "acyclic ({(0, 1), (0, 2), (1, 3), (2, 3)} :: (nat \<times> nat) set)"
  unfolding acyclic_def demo_diamond_closure by auto

theorem set_status_descendants_witness:
  "\<exists>w'. oph_workflow_set_status 5 25 [1, 2] demo_diamond = Some (OPH_WORKFLOW_EXIT_SUCCESS, w') \<and> w_residual_tasks_num w' = 0 \<and>
    t_status (w_tasks w' ! 3) = 25"
proof -
  have c: "{j. (0, j) \<in> ({(0, 1), (0, 2), (1, 3), (2, 3), (0, 3)} :: (nat \<times> nat) set) \<and>
      t_status (w_tasks demo_diamond ! j) < OPH_ODB_STATUS_COMPLETED} = {1, 2, 3}"
    by (auto simp: code_defs)
  have "int (card {1, 2, 3 :: nat}) = 3" "w_tasks_num demo_diamond = 4" "w_residual_tasks_num demo_diamond = 3"
      "length (w_tasks demo_diamond) = 5" "t_dependents_indexes (w_tasks demo_diamond ! 0) = [1, 2]" "OPH_ODB_STATUS_COMPLETED = 12"
    by (simp_all add: code_defs)
  moreover have "t_status (w_tasks demo_diamond ! j) = 0" if "j = 1 \<or> j = 2 \<or> j = 3" for j
    using that by (auto simp: code_defs)
  ultimately show ?thesis
    using set_status_descendants [OF demo_diamond_graph(1), of 0 25 5, unfolded demo_diamond_graph(2), OF demo_diamond_acyclic]
    unfolding c demo_diamond_closure by (auto simp del: oph_workflow_set_status.simps)
qed


definition demo_stack :: oph_workflow_stack where
  [code_defs]: "demo_stack = \<lparr>k_caller = 0, k_index = 0, k_tasks = map stack_task (take 4 (w_tasks demo_diamond)), k_name = ''i'',
     k_svalues = None, k_ivalues = Some [1, 2], k_values_num = 2\<rparr>"

definition demo_run :: oph_workflow where
  [code_defs]: "demo_run = demo_diamond\<lparr>w_tasks := map (\<lambda>t. t\<lparr>t_status := 12\<rparr>) (w_tasks demo_diamond)\<rparr>"


text \<open>
  C28: \<open>oph_workflow_mark_children_of\<close> of the task of a parallel loop in an acyclic workflow marks exactly the tasks
  strictly between it and its end-task: its descendants from which the end-task is reached.\<close>

theorem mark_children_between:
  assumes "indexes_ok (w_tasks_num w) (w_tasks w)" and "acyclic (dag_edges (w_tasks_num w) (w_tasks w))" and "p < w_tasks_num w"
    and "t_child (w_tasks w ! p) = int c" and "c < w_tasks_num w" and "Suc (w_tasks_num w) < fuel"
  shows "\<exists>w'. oph_workflow_mark_children_of fuel w (int p) (int p) = Some (OPH_WORKFLOW_EXIT_SUCCESS, w') \<and>
    (\<forall>j < w_tasks_num w. w_tasks w' ! j =
      (if (p, j) \<in> (dag_edges (w_tasks_num w) (w_tasks w))\<^sup>+ \<and> (j, c) \<in> (dag_edges (w_tasks_num w) (w_tasks w))\<^sup>+
       then (w_tasks w ! j)\<lparr>t_is_marked := True\<rparr> else w_tasks w ! j))"
proof -
  have "w_tasks_num w \<le> length (w_tasks w)" using assms(1) by (simp add: indexes_ok_def)
  then show ?thesis using mark_children_marks [OF assms] by (simp add: marked_def)
qed

theorem mark_children_between_witness:
  "\<exists>w'. oph_workflow_mark_children_of 6 (demo_diamond\<lparr>w_tasks := (w_tasks demo_diamond)[0 := (w_tasks demo_diamond ! 0)\<lparr>t_child := 3\<rparr>]\<rparr>) 0 0 =
    Some (OPH_WORKFLOW_EXIT_SUCCESS, w') \<and> t_is_marked (w_tasks w' ! 1)"
proof -
  let ?w = "demo_diamond\<lparr>w_tasks := (w_tasks demo_diamond)[0 := (w_tasks demo_diamond ! 0)\<lparr>t_child := 3\<rparr>]\<rparr>"
  have len: "length (w_tasks demo_diamond) = 5" "w_tasks_num demo_diamond = 4" by (simp_all add: code_defs)
  have "t_dependents_indexes (w_tasks ?w ! j) = t_dependents_indexes (w_tasks demo_diamond ! j)" for j
    using len by (simp add: nth_list_update)
  then have g: "dag_edges (w_tasks_num ?w) (w_tasks ?w) = {(0, 1), (0, 2), (1, 3), (2, 3)}"
      "indexes_ok (w_tasks_num ?w) (w_tasks ?w)"
    using demo_diamond_graph dag_edges_cong [of 4 "w_tasks ?w" "w_tasks demo_diamond"]
      indexes_ok_cong [of 4 "w_tasks ?w" "w_tasks demo_diamond"] len by simp_all
  have "t_child (w_tasks ?w ! 0) = int 3" using len by simp
  then show ?thesis
    using mark_children_between [OF g(2), unfolded g(1), OF demo_diamond_acyclic, of 0 3 6] len
    unfolding demo_diamond_closure by (auto dest!: spec [of _ 1] simp del: oph_workflow_mark_children_of.simps)
qed

text \<open>
  C39: on an acyclic workflow whose dependents and dependencies are valid indexes, \<open>oph_workflow_disable_deps\<close> returns, with one more level of
  recursion than there are tasks, and lowers the counter of residual dependencies of every task by its dependencies on completed tasks
  outside of the loop, once for each path that leads to it from the given dependents through tasks that are not started and not beyond the
  end-task: when two tasks of the body lead to the same third one, these dependencies of the third one are counted twice.\<close>

theorem disable_deps_counts_paths:
  assumes "indexes_ok (w_tasks_num w) (w_tasks w)" and "acyclic (dag_edges (w_tasks_num w) (w_tasks w))"
    and "\<forall>j < w_tasks_num w. \<forall>d \<in> set (t_deps (w_tasks w ! j)). d_task_index d < int (w_tasks_num w)"
    and "set is \<subseteq> {0..<int (w_tasks_num w)}" and "w_tasks_num w < fuel"
  shows "\<exists>w'. oph_workflow_disable_deps fuel first_task last_task is w = Some (OPH_WORKFLOW_EXIT_SUCCESS, w') \<and>
    (\<forall>j < length (w_tasks w). finite {ks. body_path w last_task is ks = Some j} \<and>
      w_tasks w' ! j = (w_tasks w ! j)\<lparr>t_residual_deps_num := t_residual_deps_num (w_tasks w ! j) -
        int (card {ks. body_path w last_task is ks = Some j}) * satisfied_deps w first_task (w_tasks w ! j)\<rparr>)"
proof -
  have "\<forall>i \<in> set is. below (dag_edges (w_tasks_num w) (w_tasks w)) (nat i) < fuel"
    using below_bound [OF dag_edges_bound [OF assms(1)]] assms(5) by (meson order_le_less_trans)
  from disable_deps_lowers [OF assms(1-4) this, where f = "\<lambda>_. 0"] show ?thesis
    by (auto simp: lowered_zero body_paths_def)
qed

text \<open>A loop of the task 0 with the end-task 4; its body is a diamond, and the task 3 also depends on the task 5 outside of the loop.\<close>

definition demo_outer :: oph_workflow where
  [code_defs]: "demo_outer =
     (let dep = (\<lambda>i. \<lparr>d_argument = None, d_order = None, d_task_name = None, d_task_index = i, d_type = None, d_filter = None,
        d_output_argument = None, d_output_order = None\<rparr>);
        task = (\<lambda>status from to. zero_task\<lparr>t_status := status, t_deps := map dep from,
          t_residual_deps_num := int (length from), t_dependents_indexes := to\<rparr>) in
      empty_workflow\<lparr>w_tasks := [task 12 [] [1, 2], task 0 [0] [3], task 0 [0] [3], task 0 [1, 2, 5] [4], task 0 [3] [], task 12 [] [3], zero_task],
        w_tasks_num := 6, w_residual_tasks_num := 4\<rparr>)"

lemma demo_outer_graph:
  "indexes_ok (w_tasks_num demo_outer) (w_tasks demo_outer)" "acyclic (dag_edges (w_tasks_num demo_outer) (w_tasks demo_outer))"
  "\<forall>j < w_tasks_num demo_outer. \<forall>d \<in> set (t_deps (w_tasks demo_outer ! j)). d_task_index d < int (w_tasks_num demo_outer)"
proof -
  show "indexes_ok (w_tasks_num demo_outer) (w_tasks demo_outer)"
    "\<forall>j < w_tasks_num demo_outer. \<forall>d \<in> set (t_deps (w_tasks demo_outer ! j)). d_task_index d < int (w_tasks_num demo_outer)"
    by code_simp+
  have "dag_edges (w_tasks_num demo_outer) (w_tasks demo_outer) \<subseteq> measure (\<lambda>j. if j = 5 then 0 else Suc j)"
    by (auto simp: dag_edges_def demo_outer_def zero_task_def empty_workflow_def less_Suc_eq numeral_eq_Suc)
  then show "acyclic (dag_edges (w_tasks_num demo_outer) (w_tasks demo_outer))"
    by (rule acyclic_subset [OF wf_acyclic [OF wf_measure]])
qed

theorem disable_deps_counts_paths_witness:
  "\<exists>w'. oph_workflow_disable_deps 7 0 4 [1, 2] demo_outer = Some (OPH_WORKFLOW_EXIT_SUCCESS, w') \<and>
    card {ks. body_path demo_outer 4 [1, 2] ks = Some 3} = 2 \<and> t_residual_deps_num (w_tasks w' ! 3) = 1"
proof -
  have t: "t_status (w_tasks demo_outer ! 1) = 0" "t_status (w_tasks demo_outer ! 2) = 0" "t_status (w_tasks demo_outer ! 3) = 0"
    "t_status (w_tasks demo_outer ! 4) = 0" "t_dependents_indexes (w_tasks demo_outer ! 1) = [3]"
    "t_dependents_indexes (w_tasks demo_outer ! 2) = [3]" "t_dependents_indexes (w_tasks demo_outer ! 3) = [4]"
    and n: "length (w_tasks demo_outer) = 7" "w_tasks_num demo_outer = 6" "t_residual_deps_num (w_tasks demo_outer ! 3) = 3"
    "satisfied_deps demo_outer 0 (w_tasks demo_outer ! 3) = 1"
    by code_simp+
  have "body_paths demo_outer 4 [1, 2] 3 = {[1, 0], [0, 0]}"
    using t by (simp add: body_paths_Cons body_paths_Nil)
  then have "card {ks. body_path demo_outer 4 [1, 2] ks = Some 3} = 2" by (simp add: body_paths_def)
  then show ?thesis
    using disable_deps_counts_paths [OF demo_outer_graph, of "[1, 2]" 7 0 4] n
    by (auto simp del: oph_workflow_disable_deps.simps dest!: spec [of _ 3])
qed

text \<open>
  Remark: the list that \<open>oph_workflow_add_to_list\<close> builds from the outputs of the tasks is their stable sort by key: it is sorted,
  and for every key it has the elements with that key in the order in which they were added.\<close>

theorem add_to_list_stable_sort:
  shows "sorted_wrt key_le (fold (\<lambda>(k, v) l. oph_workflow_add_to_list k v l) kvs []) \<and>
    (\<forall>q. filter (\<lambda>e. fst e = Some q) (fold (\<lambda>(k, v) l. oph_workflow_add_to_list k v l) kvs []) =
      map (\<lambda>(k, v). (Some k, Some v)) (filter (\<lambda>(k, v). k = q) kvs))"
proof -
  have "sorted_wrt key_le (fold (\<lambda>(k, v) l. oph_workflow_add_to_list k v l) kvs l) \<and>
      (\<forall>q. filter (\<lambda>e. fst e = Some q) (fold (\<lambda>(k, v) l. oph_workflow_add_to_list k v l) kvs l) =
        filter (\<lambda>e. fst e = Some q) l @ map (\<lambda>(k, v). (Some k, Some v)) (filter (\<lambda>(k, v). k = q) kvs))"
    if "sorted_wrt key_le l" "\<forall>(k, v)\<in>set l. k \<noteq> None" for l
    using that
  proof (induction kvs arbitrary: l)
    case (Cons kv kvs)
    obtain k v where kv: "kv = (k, v)" by fastforce
    have "sorted_wrt key_le (oph_workflow_add_to_list k v l)" "\<forall>(k, v)\<in>set (oph_workflow_add_to_list k v l). k \<noteq> None"
      using Cons.prems add_to_list_sorted by (auto simp: add_to_list_set)
    with Cons.IH [OF this] Cons.prems show ?case by (auto simp: kv add_to_list_filter)
  qed simp
  from this [of "[]"] show ?thesis by simp
qed

end
