(* ===== verification/Auth_Roles.thy ===== *)
theory Auth_Roles
  imports Auth_Lists
begin

unbundle bit_operations_syntax

text \<open>
  The roles and the session files of \<^verbatim>\<open>src/src/oph_auth.c\<close>: the two representations of a role (a sum of
  bits, a string of five characters) and their conversions, the role of a user in the list of users of a
  session, the check of the role against the permission of an operator, and the files of users and sessions.
  The file system is a map from paths to contents, where a symbolic link has the content of its target; \<open>writable\<close>
  tells whether a path can be opened for writing. A read beyond the terminator of a role string is \<open>None\<close>.
\<close>

section \<open>Roles\<close>

datatype oph_role = ROLE_READ | ROLE_WRITE | ROLE_EXECUTE | ROLE_ADMIN | ROLE_OWNER

type_synonym oph_auth_user_role = int

fun role_bit :: "oph_role \<Rightarrow> oph_auth_user_role" where
  "role_bit ROLE_READ = 1"
| "role_bit ROLE_WRITE = 2"
| "role_bit ROLE_EXECUTE = 4"
| "role_bit ROLE_ADMIN = 8"
| "role_bit ROLE_OWNER = 16"

fun role_str :: "oph_role \<Rightarrow> string" where
  "role_str ROLE_READ = ''read''"
| "role_str ROLE_WRITE = ''write''"
| "role_str ROLE_EXECUTE = ''execute''"
| "role_str ROLE_ADMIN = ''admin''"
| "role_str ROLE_OWNER = ''owner''"

text \<open>The position of a role in a role string.\<close>

fun role_pos :: "oph_role \<Rightarrow> nat" where
  "role_pos ROLE_READ = 0"
| "role_pos ROLE_WRITE = 1"
| "role_pos ROLE_EXECUTE = 2"
| "role_pos ROLE_ADMIN = 3"
| "role_pos ROLE_OWNER = 4"

definition OPH_ROLE_NONE :: oph_auth_user_role where [code_defs]: "OPH_ROLE_NONE = 0"
definition OPH_ROLE_ALL :: oph_auth_user_role where [code_defs]: "OPH_ROLE_ALL = 31"
definition OPH_ROLE_NULL_STR :: string where [code_defs]: "OPH_ROLE_NULL_STR = ''-----''"

text \<open>A character of a role string that is tested against the first letter of the name of its role.\<close>

definition role_char :: "string \<Rightarrow> oph_role \<Rightarrow> bool" where
  [code_defs]: "role_char s r \<longleftrightarrow> role_pos r < length s \<and> s ! role_pos r = hd (role_str r)"

definition oph_string_to_role :: "string option \<Rightarrow> oph_auth_user_role option" where
  [code_defs]: "oph_string_to_role role =
     (case role of
        None \<Rightarrow> Some OPH_ROLE_NONE
      | Some s \<Rightarrow>
          if length s < 4 then None
          else
            (let owner = role_char s ROLE_OWNER;
                 admin = owner \<or> role_char s ROLE_ADMIN;
                 executor = admin \<or> role_char s ROLE_EXECUTE;
                 writer = admin \<or> role_char s ROLE_WRITE;
                 reader = writer \<or> role_char s ROLE_READ in
             Some (OPH_ROLE_NONE + (if owner then role_bit ROLE_OWNER else 0) + (if admin then role_bit ROLE_ADMIN else 0) +
               (if executor then role_bit ROLE_EXECUTE else 0) + (if writer then role_bit ROLE_WRITE else 0) +
               (if reader then role_bit ROLE_READ else 0))))"

definition set_role_char :: "oph_role \<Rightarrow> string \<Rightarrow> string" where
  [code_defs]: "set_role_char r s = s[role_pos r := hd (role_str r)]"

definition has_role :: "oph_auth_user_role \<Rightarrow> oph_role \<Rightarrow> bool" where
  [code_defs]: "has_role role r \<longleftrightarrow> role AND role_bit r \<noteq> 0"

definition oph_role_to_string :: "oph_auth_user_role \<Rightarrow> string" where
  [code_defs]: "oph_role_to_string role =
     (let owner = has_role role ROLE_OWNER;
          admin = owner \<or> has_role role ROLE_ADMIN;
          executor = admin \<or> has_role role ROLE_EXECUTE;
          writer = admin \<or> has_role role ROLE_WRITE;
          reader = writer \<or> has_role role ROLE_READ;
          result = OPH_ROLE_NULL_STR;
          result = (if owner then set_role_char ROLE_OWNER result else result);
          result = (if admin then set_role_char ROLE_ADMIN result else result);
          result = (if executor then set_role_char ROLE_EXECUTE result else result);
          result = (if writer then set_role_char ROLE_WRITE result else result) in
      if reader then set_role_char ROLE_READ result else result)"

text \<open>
  One step of \<open>oph_code_role\<close> and \<open>oph_code_role_string\<close>, which differ only in what they do with a granted role
  (add its bit, or set its character). \<open>eq\<close> compares the current token, or the current character, with the name
  of a role. The result is the flag \<open>found\<close>, the roles granted in this step and the flags \<open>owner\<close>, \<open>admin\<close>, \<open>writer\<close>.
\<close>

record role_flags =
  rf_owner :: bool
  rf_admin :: bool
  rf_writer :: bool

definition no_flags :: role_flags where
  [code_defs]: "no_flags = \<lparr>rf_owner = False, rf_admin = False, rf_writer = False\<rparr>"

definition role_step :: "(string \<Rightarrow> bool) \<Rightarrow> role_flags \<Rightarrow> bool \<times> oph_role list \<times> role_flags" where
  [code_defs]: "role_step eq fl =
     (let is_owner = eq (role_str ROLE_OWNER);
          owner = rf_owner fl \<or> is_owner;
          get_admin = owner \<or> eq (role_str ROLE_ADMIN);
          admin = rf_admin fl \<or> get_admin;
          get_execute = admin \<or> eq (role_str ROLE_EXECUTE);
          get_write = admin \<or> eq (role_str ROLE_WRITE);
          writer = rf_writer fl \<or> get_write;
          get_read = writer \<or> eq (role_str ROLE_READ);
          found = is_owner \<or> (get_admin \<and> \<not> owner) \<or> (get_execute \<and> \<not> admin) \<or> (get_write \<and> \<not> admin) \<or>
            (get_read \<and> \<not> writer) in
      (found,
       (if is_owner then [ROLE_OWNER] else []) @ (if get_admin then [ROLE_ADMIN] else []) @
       (if get_execute then [ROLE_EXECUTE] else []) @ (if get_write then [ROLE_WRITE] else []) @
       (if get_read then [ROLE_READ] else []),
       \<lparr>rf_owner = owner, rf_admin = admin, rf_writer = writer\<rparr>))"

text \<open>The loop over the characters of a token that is no name of a role, with the flags reset at each character.\<close>

fun role_chars :: "string \<Rightarrow> role_flags \<Rightarrow> oph_role list \<Rightarrow> (role_flags \<times> oph_role list) option" where
  "role_chars [] fl granted = Some (fl, granted)"
| "role_chars (c # s) fl granted =
     (case role_step (\<lambda>r. c = hd r) no_flags of
        (found, gs, fl') \<Rightarrow> if found then role_chars s fl' (granted @ gs) else None)"

fun role_tokens :: "string list \<Rightarrow> role_flags \<Rightarrow> oph_role list \<Rightarrow> oph_role list option" where
  "role_tokens [] fl granted = Some granted"
| "role_tokens (pch # ps) fl granted =
     (case role_step (\<lambda>r. pch = r) fl of
        (found, gs, fl') \<Rightarrow>
          if found then role_tokens ps fl' (granted @ gs)
          else (case role_chars pch fl' (granted @ gs) of
                  None \<Rightarrow> None
                | Some (fl'', granted') \<Rightarrow> role_tokens ps fl'' granted'))"

definition oph_code_role :: "string option \<Rightarrow> oph_auth_user_role" where
  [code_defs]: "oph_code_role role =
     (case role of
        None \<Rightarrow> OPH_ROLE_NONE
      | Some s \<Rightarrow>
          (case role_tokens (strtok CHR ''|'' s) no_flags [] of
             None \<Rightarrow> OPH_ROLE_NONE
           | Some granted \<Rightarrow> OPH_ROLE_NONE + sum_list (map role_bit granted)))"

definition oph_code_role_string :: "string option \<Rightarrow> string option" where
  [code_defs]: "oph_code_role_string role =
     (case role of
        None \<Rightarrow> Some OPH_ROLE_NULL_STR
      | Some s \<Rightarrow>
          (case role_tokens (strtok CHR ''|'' s) no_flags [] of
             None \<Rightarrow> None
           | Some granted \<Rightarrow> Some (fold set_role_char granted OPH_ROLE_NULL_STR)))"

definition oph_expand_role_string :: "string option \<Rightarrow> string option" where
  [code_defs]: "oph_expand_role_string role =
     (case role of
        None \<Rightarrow> Some []
      | Some s \<Rightarrow>
          if length s < 4 then None
          else if role_char s ROLE_OWNER then Some (role_str ROLE_OWNER)
          else if role_char s ROLE_ADMIN then Some (role_str ROLE_ADMIN)
          else
            (let only_exe = \<not> role_char s ROLE_WRITE \<and> \<not> role_char s ROLE_READ;
                 string = (if role_char s ROLE_WRITE then role_str ROLE_READ @ ''|'' @ role_str ROLE_WRITE
                           else if role_char s ROLE_READ then role_str ROLE_READ else []) in
             if role_char s ROLE_EXECUTE then
               (if only_exe then Some (role_str ROLE_EXECUTE) else Some (string @ ''|'' @ role_str ROLE_EXECUTE))
             else Some string))"

definition oph_auth_check_role :: "oph_auth_user_role \<Rightarrow> oph_auth_user_role \<Rightarrow> server_code" where
  [code_defs]: "oph_auth_check_role role permission =
     (if has_role role ROLE_READ \<and> \<not> has_role permission ROLE_READ then OPH_SERVER_AUTH_ERROR
      else if has_role role ROLE_WRITE \<and> \<not> has_role permission ROLE_WRITE then OPH_SERVER_AUTH_ERROR
      else if has_role role ROLE_EXECUTE \<and> \<not> has_role permission ROLE_EXECUTE then OPH_SERVER_AUTH_ERROR
      else if has_role role ROLE_ADMIN \<and> \<not> has_role permission ROLE_ADMIN then OPH_SERVER_AUTH_ERROR
      else if has_role role ROLE_OWNER \<and> \<not> has_role permission ROLE_OWNER then OPH_SERVER_AUTH_ERROR
      else OPH_SERVER_OK)"

section \<open>The users of a session\<close>

fun strstr :: "string \<Rightarrow> string \<Rightarrow> string option" where
  "strstr [] n = (if n = [] then Some [] else None)"
| "strstr (x # s) n = (if take (length n) (x # s) = n then Some (x # s) else strstr s n)"

text \<open>The characters that are not allowed in the name of a folder become underscores.\<close>

definition underscore :: "string \<Rightarrow> string" where
  [code_defs]: "underscore s =
     map (\<lambda>c. if c = CHR ''/'' \<or> c = CHR '' '' \<or> c = CHR ''='' \<or> c = CHR '':'' then CHR ''_'' else c) s"

text \<open>\<open>oph_check_role_of\<close>; the role is cut at the next comma, which the token starting at the colon ends at.\<close>

definition oph_check_role_of :: "string \<Rightarrow> string \<Rightarrow> (server_code \<times> oph_auth_user_role) option" where
  [code_defs]: "oph_check_role_of userid user_string =
     (case (case strstr user_string userid of Some u \<Rightarrow> Some u | None \<Rightarrow> strstr (underscore user_string) userid) of
        None \<Rightarrow> Some (OPH_SERVER_OK, OPH_ROLE_NONE)
      | Some upointer \<Rightarrow>
          (case strchr upointer CHR '':'' of
             None \<Rightarrow> Some (OPH_SERVER_SYSTEM_ERROR, OPH_ROLE_NONE)
           | Some rpointer \<Rightarrow>
               (case oph_string_to_role (Some (hd (splitc CHR '','' (tl rpointer)))) of
                  None \<Rightarrow> None
                | Some role \<Rightarrow>
                    Some (if role = OPH_ROLE_NONE then OPH_SERVER_SYSTEM_ERROR else OPH_SERVER_OK, role))))"

section \<open>The files of users and sessions\<close>

type_synonym auth_fs = "string \<Rightarrow> string option"

definition print_args :: "oph_argument list \<Rightarrow> string" where
  [code_defs]: "print_args args = concat (map (\<lambda>a. arg_key a @ ''='' @ arg_value a @ [CHR 0x0A]) args)"

definition path_of :: "string list \<Rightarrow> string" where
  [code_defs]: "path_of parts = take (OPH_MAX_STRING_SIZE - 1) (concat parts)"

definition save_file :: "(string \<Rightarrow> bool) \<Rightarrow> auth_fs \<Rightarrow> string \<Rightarrow> oph_argument list \<Rightarrow> server_code \<times> auth_fs" where
  [code_defs]: "save_file writable fs filename args =
     (if writable filename then (OPH_SERVER_OK, fs(filename \<mapsto> print_args args)) else (OPH_SERVER_IO_ERROR, fs))"

definition oph_save_user ::
    "(string \<Rightarrow> bool) \<Rightarrow> string \<Rightarrow> auth_fs \<Rightarrow> string \<Rightarrow> oph_argument list \<Rightarrow> server_code \<times> auth_fs" where
  [code_defs]: "oph_save_user writable location fs userid args =
     (if args = [] then (OPH_SERVER_NULL_POINTER, fs)
      else save_file writable fs (path_of [location, ''/users/'', userid, ''/user.dat'']) args)"

definition oph_save_user_session ::
    "(string \<Rightarrow> bool) \<Rightarrow> string option \<Rightarrow> string \<Rightarrow> auth_fs \<Rightarrow> string \<Rightarrow> string \<Rightarrow> oph_argument list \<Rightarrow>
     server_code \<times> auth_fs" where
  [code_defs]: "oph_save_user_session writable web_server location fs userid sessionid args =
     (if args = [] then (OPH_SERVER_NULL_POINTER, fs)
      else (case oph_get_session_code web_server sessionid of
              Inl _ \<Rightarrow> (OPH_SERVER_ERROR, fs)
            | Inr code \<Rightarrow>
                save_file writable fs (path_of [location, ''/users/'', userid, ''/sessions/'', code, ''.user'']) args))"

text \<open>
  \<open>oph_load_user\<close>, after the creation of the folders: the file of a user that does not exist is created with
  the default limits, which are globals of the server.
\<close>

record auth_defaults =
  ad_max_sessions :: int
  ad_session_timeout :: int
  ad_max_cores :: int
  ad_max_hosts :: int

definition default_user :: "auth_defaults \<Rightarrow> oph_argument list" where
  [code_defs]: "default_user d =
     [\<lparr>arg_key = ''OPH_OPENED_SESSIONS'', arg_value = show_int 0\<rparr>,
      \<lparr>arg_key = ''OPH_MAX_SESSIONS'', arg_value = show_int (ad_max_sessions d)\<rparr>,
      \<lparr>arg_key = ''OPH_TIMEOUT_SESSION'', arg_value = show_int (ad_session_timeout d)\<rparr>,
      \<lparr>arg_key = ''OPH_MAX_CORES'', arg_value = show_int (ad_max_cores d)\<rparr>,
      \<lparr>arg_key = ''OPH_MAX_HOSTS'', arg_value = show_int (ad_max_hosts d)\<rparr>,
      \<lparr>arg_key = ''OPH_IS_ADMIN'', arg_value = ''no''\<rparr>,
      \<lparr>arg_key = ''OPH_ENABLED'', arg_value = ''yes''\<rparr>]"

definition oph_load_user ::
    "(string \<Rightarrow> bool) \<Rightarrow> auth_defaults \<Rightarrow> string \<Rightarrow> auth_fs \<Rightarrow> string \<Rightarrow>
     server_code \<times> oph_argument list \<times> bool \<times> auth_fs" where
  [code_defs]: "oph_load_user writable d location fs userid =
     (case fs (path_of [location, ''/users/'', userid, ''/user.dat'']) of
        None \<Rightarrow>
          (case oph_save_user writable location fs userid (default_user d) of
             (OPH_SERVER_OK, fs') \<Rightarrow> (OPH_SERVER_OK, default_user d, True, fs')
           | (_, fs') \<Rightarrow> (OPH_SERVER_IO_ERROR, [], False, fs'))
      | Some content \<Rightarrow>
          (case oph_load_file (Some content) of
             (OPH_SERVER_OK, args) \<Rightarrow> (OPH_SERVER_OK, args, False, fs)
           | (_, args) \<Rightarrow> (OPH_SERVER_ERROR, args, False, fs)))"

text \<open>
  \<open>oph_auth_session\<close>, with the two optional results requested: the arguments of the session, whether it is active,
  and the role of the user. A result of \<open>Inl\<close> is an error, after which the arguments are released.
\<close>

definition oph_auth_session ::
    "string option \<Rightarrow> string \<Rightarrow> auth_fs \<Rightarrow> string \<Rightarrow> string \<Rightarrow> string option \<Rightarrow>
     (server_code + oph_argument list \<times> bool \<times> oph_auth_user_role) option" where
  [code_defs]: "oph_auth_session web_server location fs userid sessionid serverid =
     (case oph_get_session_code web_server sessionid of
        Inl _ \<Rightarrow> Some (Inl OPH_SERVER_ERROR)
      | Inr code \<Rightarrow>
          if (case serverid of
                None \<Rightarrow> False
              | Some s \<Rightarrow> \<not> strncmp_eq sessionid (path_of [s, ''/sessions/'', code, ''/experiment'']) OPH_MAX_STRING_SIZE)
          then Some (Inl OPH_SERVER_ERROR)
          else (case oph_load_file (fs (path_of [location, ''/users/'', userid, ''/sessions/'', code, ''.session''])) of
                  (rc, args) \<Rightarrow>
                    if rc \<noteq> OPH_SERVER_OK then Some (Inl OPH_SERVER_ERROR)
                    else (case (oph_get_arg args ''OPH_ACTIVE'', oph_get_arg args ''OPH_OWNER'') of
                            (Inr active, Inr owner) \<Rightarrow>
                              if userid = underscore owner then Some (Inr (args, active = ''yes'', OPH_ROLE_ALL))
                              else (case oph_get_arg args ''OPH_USERS'' of
                                      Inl _ \<Rightarrow> Some (Inl OPH_SERVER_ERROR)
                                    | Inr users \<Rightarrow>
                                        (case oph_check_role_of userid users of
                                           None \<Rightarrow> None
                                         | Some (rc, role) \<Rightarrow>
                                             if rc \<noteq> OPH_SERVER_OK then Some (Inl OPH_SERVER_ERROR)
                                             else Some (Inr (args, active = ''yes'', role))))
                          | _ \<Rightarrow> Some (Inl OPH_SERVER_ERROR))))"

section \<open>Lemmas\<close>

text \<open>The role strings that \<open>oph_role_to_string\<close> writes, and the roles that \<open>oph_string_to_role\<close> reads.\<close>

definition role_strings :: "string list" where
  [code_defs]: "role_strings = [''-----'', ''r----'', ''rw---'', ''--e--'', ''r-e--'', ''rwe--'', ''rwea-'', ''rweao'']"

definition closed_roles :: "int list" where
  [code_defs]: "closed_roles = [0, 1, 3, 4, 5, 7, 15, 31]"

lemma role_to_string_cases: "oph_role_to_string r \<in> set role_strings"
  by (cases "has_role r ROLE_OWNER"; cases "has_role r ROLE_ADMIN"; cases "has_role r ROLE_EXECUTE";
      cases "has_role r ROLE_WRITE"; cases "has_role r ROLE_READ")
    (simp_all add: oph_role_to_string_def Let_def set_role_char_def OPH_ROLE_NULL_STR_def role_strings_def)

lemma string_to_role_cases:
  assumes "oph_string_to_role (Some s) = Some u"
  shows "u \<in> set closed_roles"
  using assms
  by (cases "role_char s ROLE_OWNER"; cases "role_char s ROLE_ADMIN"; cases "role_char s ROLE_EXECUTE";
      cases "role_char s ROLE_WRITE"; cases "role_char s ROLE_READ")
    (auto simp: oph_string_to_role_def closed_roles_def OPH_ROLE_NONE_def split: if_splits)

definition expands_back :: "string \<Rightarrow> bool" where
  "expands_back s \<longleftrightarrow>
     (case (oph_expand_role_string (Some s), oph_string_to_role (Some s)) of
        (Some e, Some u) \<Rightarrow> oph_code_role_string (Some e) = Some s \<and> oph_role_to_string u = s
      | _ \<Rightarrow> False)"

lemma role_strings_expand: "list_all expands_back role_strings"
  by code_simp

lemma expands_backE:
  assumes "expands_back s"
  obtains e u where "oph_expand_role_string (Some s) = Some e" and "oph_code_role_string (Some e) = Some s"
    and "oph_string_to_role (Some s) = Some u" and "oph_role_to_string u = s"
  using assms by (auto simp: expands_back_def split: option.splits)

lemma closed_roles_check:
  "list_all (\<lambda>r. list_all (\<lambda>u. (oph_auth_check_role (oph_code_role (Some (role_str r))) u = OPH_SERVER_OK) = has_role u r)
     closed_roles) [ROLE_READ, ROLE_WRITE, ROLE_EXECUTE, ROLE_ADMIN, ROLE_OWNER]"
  by code_simp

lemma strstr_first:
  assumes "\<forall>k<length pre. take (length n) (drop k (pre @ n @ t)) \<noteq> n"
  shows "strstr (pre @ n @ t) n = Some (n @ t)"
  using assms
proof (induction pre)
  case Nil
  have "take (length n) (n @ t) = n" by simp
  then show ?case by (cases "n @ t") auto
next
  case (Cons x pre)
  have "take (length n) (x # pre @ n @ t) \<noteq> n" using Cons.prems by (force dest: spec [of _ 0])
  moreover have "\<forall>k<length pre. take (length n) (drop k (pre @ n @ t)) \<noteq> n"
  proof (intro allI impI)
    fix k assume "k < length pre"
    then show "take (length n) (drop k (pre @ n @ t)) \<noteq> n" using Cons.prems [rule_format, of "Suc k"] by simp
  qed
  ultimately show ?case using Cons.IH by simp
qed

lemma splitc_hd:
  assumes "c \<notin> set s" and "rest = [] \<or> hd rest = c"
  shows "hd (splitc c (s @ rest)) = s"
  using assms by (cases rest) (auto simp: cstr)

text \<open>The entry of a user in the list of users, which no earlier occurrence of the name hides.\<close>

definition first_entry :: "string \<Rightarrow> string \<Rightarrow> string \<Rightarrow> bool" where
  "first_entry users userid role \<longleftrightarrow>
     (\<exists>pre rest. users = pre @ userid @ '':'' @ role @ rest \<and> (rest = [] \<or> hd rest = CHR '','') \<and>
        (\<forall>k<length pre. take (length userid) (drop k users) \<noteq> userid) \<and> CHR '':'' \<notin> set userid \<and> CHR '','' \<notin> set role)"

lemma check_role_of_entry:
  assumes "first_entry users userid role" and "oph_string_to_role (Some role) = Some r" and "r \<noteq> OPH_ROLE_NONE"
  shows "oph_check_role_of userid users = Some (OPH_SERVER_OK, r)"
proof -
  obtain pre rest where u: "users = pre @ userid @ '':'' @ role @ rest" and r: "rest = [] \<or> hd rest = CHR '',''"
    and first: "\<forall>k<length pre. take (length userid) (drop k users) \<noteq> userid"
    and c: "CHR '':'' \<notin> set userid" "CHR '','' \<notin> set role"
    using assms(1) unfolding first_entry_def by (elim exE conjE)
  have "strstr users userid = Some (userid @ '':'' @ role @ rest)"
    using strstr_first [OF first [unfolded u]] by (simp add: u)
  moreover have "strchr (userid @ '':'' @ role @ rest) CHR '':'' = Some (CHR '':'' # role @ rest)"
    using strchr_append [OF c(1), of "role @ rest"] by simp
  ultimately show ?thesis
    using splitc_hd [OF c(2) r] assms(2,3) by (simp add: oph_check_role_of_def)
qed

definition args_fit :: "oph_argument list \<Rightarrow> bool" where
  [code_defs]: "args_fit args \<longleftrightarrow> list_all (\<lambda>a. CHR ''='' \<notin> set (arg_key a) \<and> CHR 0x0A \<notin> set (arg_key a @ arg_value a) \<and>
     length (arg_key a) + length (arg_value a) + 2 < OPH_MAX_STRING_SIZE) args"

lemma load_file_print_args:
  assumes "args_fit args"
  shows "oph_load_file (Some (print_args args)) = (OPH_SERVER_OK, args)"
proof -
  let ?kvs = "map (\<lambda>a. (arg_key a, arg_value a)) args"
  have "\<forall>(k, v)\<in>set ?kvs. CHR ''='' \<notin> set k \<and> CHR 0x0A \<notin> set (k @ v) \<and> length k + length v + 2 < OPH_MAX_STRING_SIZE"
    using assms by (auto simp: args_fit_def list_all_iff)
  moreover have "map (\<lambda>a. \<lparr>arg_key = arg_key a, arg_value = arg_value a\<rparr>) args = args"
    by (induction args) auto
  ultimately show ?thesis
    using oph_load_file_pairs [of ?kvs] by (simp add: print_args_def comp_def)
qed

section \<open>Properties\<close>

text \<open>
  Remark: the conversions of role strings agree: the words that \<open>oph_expand_role_string\<close> writes for a role are coded back
  by \<open>oph_code_role_string\<close> to the same role string, and \<open>oph_string_to_role\<close> reads it as a role that prints the same.\<close>

theorem oph_role_string_roundtrip:
  "\<exists>e u. oph_expand_role_string (Some (oph_role_to_string r)) = Some e \<and>
     oph_code_role_string (Some e) = Some (oph_role_to_string r) \<and>
     oph_string_to_role (Some (oph_role_to_string r)) = Some u \<and> oph_role_to_string u = oph_role_to_string r"
proof -
  have "expands_back (oph_role_to_string r)"
    using role_strings_expand role_to_string_cases [of r] unfolding list_all_iff by (rule bspec)
  then show ?thesis by (rule expands_backE) (intro exI conjI)
qed

text \<open>
  Remark: a user whose role was read from a role string is admitted to an operator that asks for a permission by
  name exactly when the role has this permission, for all five names.\<close>

theorem oph_auth_check_role_named:
  "oph_string_to_role (Some s) = Some u \<Longrightarrow>
   oph_auth_check_role (oph_code_role (Some (role_str r))) u = OPH_SERVER_OK \<longleftrightarrow> has_role u r"
  using string_to_role_cases [of s u] closed_roles_check
  by (cases r) (auto simp: list_all_iff)

theorem oph_auth_check_role_named_witness:
  "oph_auth_check_role (oph_code_role (Some ''write'')) 3 = OPH_SERVER_OK \<and>
   oph_auth_check_role (oph_code_role (Some ''execute'')) 3 \<noteq> OPH_SERVER_OK"
proof -
  have u: "oph_string_to_role (Some ''rw---'') = Some 3" by code_simp
  have "has_role 3 ROLE_WRITE" and "\<not> has_role 3 ROLE_EXECUTE" by (simp_all add: has_role_def)
  with oph_auth_check_role_named [OF u, of ROLE_WRITE] oph_auth_check_role_named [OF u, of ROLE_EXECUTE]
  show ?thesis by simp
qed

text \<open>
  Remark: the permission of an operator that lists several names is coded by adding their bits, and bits implied by
  more than one name are added twice: \<open>read|write\<close> is coded as \<open>execute\<close>, which refuses a writer and admits a user who may
  only execute.\<close>

theorem oph_code_role_adds_twice:
  "oph_code_role (Some ''read|write'') = role_bit ROLE_EXECUTE \<and>
   oph_auth_check_role (oph_code_role (Some ''read|write'')) (role_bit ROLE_READ + role_bit ROLE_WRITE) = OPH_SERVER_AUTH_ERROR \<and>
   oph_auth_check_role (oph_code_role (Some ''read|write'')) (role_bit ROLE_EXECUTE) = OPH_SERVER_OK"
  by code_simp

text \<open>
  Remark: the file that \<open>oph_save_user\<close> writes is what \<open>oph_load_user\<close> reads: arguments that fit the buffer come back
  as they were, in order, and the file system is not changed again.\<close>

theorem oph_save_load_user:
  assumes "args \<noteq> []" and "args_fit args" and "writable (path_of [location, ''/users/'', userid, ''/user.dat''])"
    and "oph_save_user writable location fs userid args = (rc, fs')"
  shows "rc = OPH_SERVER_OK \<and> oph_load_user writable d location fs' userid = (OPH_SERVER_OK, args, False, fs')"
  using assms load_file_print_args [OF assms(2)]
  by (auto simp: oph_save_user_def save_file_def oph_load_user_def)

theorem oph_save_load_user_witness:
  "oph_load_user (\<lambda>_. True) \<lparr>ad_max_sessions = 0, ad_session_timeout = 0, ad_max_cores = 0, ad_max_hosts = 0\<rparr> ''/etc'' (snd (oph_save_user (\<lambda>_. True) ''/etc'' Map.empty ''bob''
      [\<lparr>arg_key = ''OPH_ENABLED'', arg_value = ''yes''\<rparr>])) ''bob'' =
   (OPH_SERVER_OK, [\<lparr>arg_key = ''OPH_ENABLED'', arg_value = ''yes''\<rparr>], False,
    snd (oph_save_user (\<lambda>_. True) ''/etc'' Map.empty ''bob'' [\<lparr>arg_key = ''OPH_ENABLED'', arg_value = ''yes''\<rparr>]))"
proof -
  have "args_fit [\<lparr>arg_key = ''OPH_ENABLED'', arg_value = ''yes''\<rparr>]" by (simp add: code_defs)
  from oph_save_load_user [OF _ this _ prod.collapse [symmetric], of "\<lambda>_. True" "''/etc''" "''bob''" Map.empty "\<lparr>ad_max_sessions = 0, ad_session_timeout = 0, ad_max_cores = 0, ad_max_hosts = 0\<rparr>"]
  show ?thesis by simp
qed

text \<open>
  C33: the role that a session grants, for a session whose file holds the arguments (within the sizes) and whose identifier matches the server,
  if one is given: the owner gets every role, whatever the list of users is; any other user gets the role of his entry in the list of users, if the
  entry has the form \<open>name:role\<close>, the role is a valid one other than none, and the name does not occur in an earlier part of the list, not even as
  a part of another text; a user whose name does not occur in the list, in its original form or with underscores, gets no role; and without a
  list of users the access is an error for everybody but the owner.\<close>

theorem oph_auth_session_role:
  assumes "oph_get_session_code web_server sessionid = Inr code"
    and "fs (path_of [location, ''/users/'', userid, ''/sessions/'', code, ''.session'']) = Some (print_args args)"
    and "args_fit args" and "oph_get_arg args ''OPH_ACTIVE'' = Inr active" and "oph_get_arg args ''OPH_OWNER'' = Inr owner"
    and "\<forall>s. serverid = Some s \<longrightarrow> strncmp_eq sessionid (path_of [s, ''/sessions/'', code, ''/experiment'']) OPH_MAX_STRING_SIZE"
  shows "(userid = underscore owner \<longrightarrow>
      oph_auth_session web_server location fs userid sessionid serverid = Some (Inr (args, active = ''yes'', OPH_ROLE_ALL))) \<and>
    (userid \<noteq> underscore owner \<longrightarrow>
      (\<forall>users role r. oph_get_arg args ''OPH_USERS'' = Inr users \<and> first_entry users userid role \<and>
         oph_string_to_role (Some role) = Some r \<and> r \<noteq> OPH_ROLE_NONE \<longrightarrow>
         oph_auth_session web_server location fs userid sessionid serverid = Some (Inr (args, active = ''yes'', r))) \<and>
      (\<forall>users. oph_get_arg args ''OPH_USERS'' = Inr users \<and> strstr users userid = None \<and> strstr (underscore users) userid = None \<longrightarrow>
         oph_auth_session web_server location fs userid sessionid serverid = Some (Inr (args, active = ''yes'', OPH_ROLE_NONE))) \<and>
      (\<forall>rc. oph_get_arg args ''OPH_USERS'' = Inl rc \<longrightarrow>
         oph_auth_session web_server location fs userid sessionid serverid = Some (Inl OPH_SERVER_ERROR)))"
proof -
  have s: "(case serverid of None \<Rightarrow> False
      | Some s \<Rightarrow> \<not> strncmp_eq sessionid (path_of [s, ''/sessions/'', code, ''/experiment'']) OPH_MAX_STRING_SIZE) = False"
    using assms(6) by (simp split: option.splits)
  have "oph_auth_session web_server location fs userid sessionid serverid =
      (if userid = underscore owner then Some (Inr (args, active = ''yes'', OPH_ROLE_ALL))
       else (case oph_get_arg args ''OPH_USERS'' of
               Inl _ \<Rightarrow> Some (Inl OPH_SERVER_ERROR)
             | Inr users \<Rightarrow> (case oph_check_role_of userid users of
                 None \<Rightarrow> None
               | Some (rc, role) \<Rightarrow> if rc \<noteq> OPH_SERVER_OK then Some (Inl OPH_SERVER_ERROR) else Some (Inr (args, active = ''yes'', role)))))"
    using assms(1-5) load_file_print_args [OF assms(3)] unfolding oph_auth_session_def by (simp add: s)
  moreover have "oph_check_role_of userid users = Some (OPH_SERVER_OK, OPH_ROLE_NONE)"
    if "strstr users userid = None" "strstr (underscore users) userid = None" for users
    using that by (simp add: oph_check_role_of_def)
  ultimately show ?thesis using check_role_of_entry by (auto split: sum.splits)
qed

definition demo_session :: "oph_argument list" where
  [code_defs]: "demo_session = [\<lparr>arg_key = ''OPH_ACTIVE'', arg_value = ''yes''\<rparr>, \<lparr>arg_key = ''OPH_OWNER'', arg_value = ''amy''\<rparr>,
     \<lparr>arg_key = ''OPH_USERS'', arg_value = ''eve:r----,bob:rw---,tom:r----''\<rparr>]"

theorem oph_auth_session_role_witness:
  "oph_auth_session None ''/a'' [''/a/users/bob/sessions/7.session'' \<mapsto> print_args demo_session] ''bob''
     ''http://h/sessions/7/experiment'' None = Some (Inr (demo_session, True, 3))"
proof -
  have c: "oph_get_session_code None ''http://h/sessions/7/experiment'' = Inr ''7''" by (simp add: code_defs)
  have p: "path_of [''/a'', ''/users/'', ''bob'', ''/sessions/'', ''7'', ''.session''] = ''/a/users/bob/sessions/7.session''"
    by (simp add: code_defs)
  have a: "args_fit demo_session" by (simp add: code_defs)
  have g: "oph_get_arg demo_session ''OPH_ACTIVE'' = Inr ''yes''" "oph_get_arg demo_session ''OPH_OWNER'' = Inr ''amy''"
    "oph_get_arg demo_session ''OPH_USERS'' = Inr ''eve:r----,bob:rw---,tom:r----''"
    by (simp_all add: code_defs)
  have "\<forall>k<length ''eve:r----,''. take (length ''bob'') (drop k ''eve:r----,bob:rw---,tom:r----'') \<noteq> ''bob''"
    by (simp add: All_less_Suc2 numeral_nat)
  then have e: "first_entry ''eve:r----,bob:rw---,tom:r----'' ''bob'' ''rw---''"
    unfolding first_entry_def
    by (intro exI [of _ "''eve:r----,''"] exI [of _ "'',tom:r----''"]) simp
  have r: "oph_string_to_role (Some ''rw---'') = Some 3" by code_simp
  have "(''bob'' :: string) \<noteq> underscore ''amy''" by code_simp
  then show ?thesis
    using oph_auth_session_role [OF c _ a g(1,2), of "[''/a/users/bob/sessions/7.session'' \<mapsto> print_args demo_session]" "''/a''" "''bob''" None] g(3) e r
    by (auto simp: p OPH_ROLE_NONE_def)
qed

text \<open>
  Remark: the list of users is searched for the name as a part of any text: a user whose name ends the name of another
  user gets the role of the other.\<close>

theorem oph_check_role_of_substring:
  "oph_check_role_of ''an'' ''dan:rwea-,tom:r----'' = Some (OPH_SERVER_OK, 15)"
  by code_simp

end
