(* ===== verification/Flow_Control.thy ===== *)
theory Flow_Control
  imports Workflow_Engine Workflow_Utils Subset Auth_Roles
begin

text \<open>
  The flow control operators of \<^verbatim>\<open>src/src/oph_flow_control_operators.c\<close>: the values of a loop
  (\<open>oph_check_input_response\<close>), \<open>oph_for_impl\<close> and \<open>oph_endfor_impl\<close>, and the selection \<open>oph_if_impl\<close>, \<open>oph_else_impl\<close> with
  \<open>oph_set_status_of_selection_block\<close>. The texts of the error messages are not part of the model. Two functions are
  parameters: \<open>extract\<close>, the look-up of a value in the JSON response of a previous task (\<open>oph_extract_from_json\<close>), and \<open>eval\<close>, the
  evaluation of an expression by the library \<open>matheval\<close>, printed with \<open>%f\<close>; \<open>None\<close> is a failure. A third one, \<open>truth\<close>, is the
  evaluation of a condition by that library: whether its value is not zero. The model is that of a build with the library.
  \<open>None\<close> as a result is undefined behaviour or the end of the fuel.
\<close>

section \<open>The values of a loop\<close>

text \<open>The number of values: one more than the separators, but for a separator at the end.\<close>

function count_subparams :: "string \<Rightarrow> nat" where
  "count_subparams s =
     (case strchr s CHR ''|'' of
        None \<Rightarrow> 1
      | Some t \<Rightarrow> if tl t = [] then 1 else Suc (count_subparams (tl t)))"
  by pat_completeness auto
termination by (relation "measure length") (auto dest: strchr_tl_length)

declare count_subparams.simps [simp del]

definition response_value :: "(string \<Rightarrow> string \<Rightarrow> string option) \<Rightarrow> oph_workflow \<Rightarrow> int \<Rightarrow> string \<Rightarrow> string option" where
  [code_defs]: "response_value extract w i v =
     fold (\<lambda>t r. case r of
         Some x \<Rightarrow> Some x
       | None \<Rightarrow> (case t_response t of
                   None \<Rightarrow> None
                 | Some resp \<Rightarrow> if i \<in> set (t_dependents_indexes t) then extract v resp else None))
       (take (w_tasks_num w) (w_tasks w)) None"

text \<open>
  The string of the expanded values, in a buffer of \<open>n\<close> bytes: every write starts at the length of the previous one, not at
  the end of what was written.
\<close>

fun write_values :: "nat \<Rightarrow> string list \<Rightarrow> string \<Rightarrow> string \<Rightarrow> nat \<Rightarrow> string option" where
  "write_values n [] v buf hh = (if hh + length v \<ge> n then None else Some (take hh buf @ v))"
| "write_values n (x # vs) v buf hh =
     (if hh + length x + 1 \<ge> n then None else write_values n vs v (take hh buf @ x @ ''|'') (length x + 1))"

definition expanded_value :: "nat \<Rightarrow> string list \<Rightarrow> string \<Rightarrow> string option" where
  [code_defs]: "expanded_value len vs v = write_values (1 + len + length v) vs v [] 0"

text \<open>
  The loop over the tokens; \<open>len\<close> is the length of the argument. An expansion releases the array of the values; the loop goes
  on with it when there is another token.
\<close>

datatype input_step = Input_Parsed "string list" | Input_Expanded string | Input_Undefined

fun input_loop :: "nat \<Rightarrow> (string \<Rightarrow> string option) \<Rightarrow> string list \<Rightarrow> string list \<Rightarrow> input_step" where
  "input_loop len lookup vs [] = Input_Parsed vs"
| "input_loop len lookup vs (tok # toks) =
     (let v = take OPH_WORKFLOW_MAX_STRING tok in
      case lookup v of
        None \<Rightarrow> input_loop len lookup (vs @ [v]) toks
      | Some x \<Rightarrow>
          if CHR ''|'' \<notin> set x then input_loop len lookup (vs @ [x]) toks
          else if toks \<noteq> [] then Input_Undefined
          else (case expanded_value len vs x of None \<Rightarrow> Input_Undefined | Some s \<Rightarrow> Input_Expanded s))"

fun input_values :: "nat \<Rightarrow> nat \<Rightarrow> (string \<Rightarrow> string option) \<Rightarrow> string \<Rightarrow> (server_code + string list) option" where
  "input_values 0 len lookup s = None"
| "input_values (Suc fuel) len lookup s =
     (case input_loop len lookup [] (strtok CHR ''|'' s) of
        Input_Parsed vs \<Rightarrow> Some (if length vs < count_subparams s then Inl OPH_SERVER_ERROR else Inr vs)
      | Input_Expanded s' \<Rightarrow> input_values fuel len lookup s'
      | Input_Undefined \<Rightarrow> None)"

text \<open>The text up to the bracket that closes the expression, and the text after it.\<close>

fun close_bracket :: "nat \<Rightarrow> string \<Rightarrow> (string \<times> string) option" where
  "close_bracket bracket [] = None"
| "close_bracket bracket (c # s) =
     (if c = CHR ''('' then map_option (apfst ((#) c)) (close_bracket (Suc bracket) s)
      else if c = CHR '')'' then
        (if bracket = 1 then Some ([], s) else map_option (apfst ((#) c)) (close_bracket (bracket - 1) s))
      else map_option (apfst ((#) c)) (close_bracket bracket s))"

lemma close_bracket_length: "close_bracket b s = Some (e, r) \<Longrightarrow> length r < length s"
  by (induction b s arbitrary: e r rule: close_bracket.induct) (fastforce split: if_splits)+

lemma strstr_length: "strstr s n = Some t \<Longrightarrow> length t \<le> length s"
  by (induction s n rule: strstr.induct) (auto split: if_splits)

lemma eval_rest_length:
  "strstr base n = Some start \<Longrightarrow> close_bracket b (drop k start) = Some (e, r) \<Longrightarrow> length r < length base"
  using strstr_length [of base n start] close_bracket_length [of b "drop k start" e r] by simp

text \<open>
  The evaluations in a value, from \<open>base\<close> on, with the text written so far and whether there was an evaluation; \<open>None\<close> is
  a text that does not fit the buffer.
\<close>

function eval_loop :: "(string \<Rightarrow> string option) \<Rightarrow> string \<Rightarrow> string \<Rightarrow> bool \<Rightarrow> (string \<times> string \<times> bool) option" where
  "eval_loop eval base tmp2 flag =
     (case strstr base ''EVAL('' of
        None \<Rightarrow> Some (base, tmp2, flag)
      | Some start \<Rightarrow>
          (let pre = take (length base - length start) base in
           if pre \<noteq> [] \<and> length pre \<ge> OPH_MAX_STRING_SIZE - length tmp2 then Some (base, tmp2, flag)
           else
           (case close_bracket 1 (drop 5 start) of
              None \<Rightarrow> Some (base, tmp2 @ pre, flag)
            | Some (expr, rest) \<Rightarrow>
                if expr = [] then eval_loop eval rest (tmp2 @ pre) True
                else (case eval expr of
                        None \<Rightarrow> Some (base, tmp2 @ pre, flag)
                      | Some r \<Rightarrow>
                          if length (tmp2 @ pre @ r) \<ge> OPH_MAX_STRING_SIZE then None
                          else eval_loop eval rest (tmp2 @ pre @ r) True))))"
  by pat_completeness auto
termination
  by (relation "measure (\<lambda>(eval, base, tmp2, flag). length base)") (auto dest: eval_rest_length)

declare eval_loop.simps [simp del]

definition eval_value :: "(string \<Rightarrow> string option) \<Rightarrow> string \<Rightarrow> string option" where
  [code_defs]: "eval_value eval v =
     (case eval_loop eval v [] False of
        None \<Rightarrow> None
      | Some (base, tmp2, flag) \<Rightarrow> Some (if flag then take (OPH_MAX_STRING_SIZE - 1) (tmp2 @ base) else v))"

definition oph_check_input_response ::
    "nat \<Rightarrow> (string \<Rightarrow> string \<Rightarrow> string option) \<Rightarrow> (string \<Rightarrow> string option) \<Rightarrow> oph_workflow \<Rightarrow> int \<Rightarrow> string \<Rightarrow>
     (server_code + string list) option" where
  [code_defs]: "oph_check_input_response fuel extract eval w i s =
     (if s = [] then Some (Inr [])
      else (case input_values fuel (length s) (response_value extract w i) s of
              None \<Rightarrow> None
            | Some (Inl e) \<Rightarrow> Some (Inl e)
            | Some (Inr vs) \<Rightarrow> map_option Inr (those (map (eval_value eval) vs))))"

section \<open>Loops\<close>

text \<open>An argument of a task after the substitution of the variables; the return code of the substitution comes first.\<close>

definition subst_arg :: "nat \<Rightarrow> oph_workflow \<Rightarrow> nat \<Rightarrow> string \<Rightarrow> string \<Rightarrow> (wf_code \<times> string) option" where
  [code_defs]: "subst_arg fuel w i key v =
     (case oph_workflow_var_substitute fuel w i (- 1) (Some key) v of
        Subst_Return rc s \<Rightarrow> Some (rc, s)
      | _ \<Rightarrow> None)"

text \<open>What the first loop over the arguments of \<open>oph_for\<close> collects.\<close>

record for_args =
  fa_name :: "string option"
  fa_svalues :: "string list option"
  fa_mode :: bool

fun for_args_loop ::
    "nat \<Rightarrow> (string \<Rightarrow> string \<Rightarrow> string option) \<Rightarrow> (string \<Rightarrow> string option) \<Rightarrow> oph_workflow \<Rightarrow> nat \<Rightarrow> oph_workflow_arg list \<Rightarrow>
     for_args \<Rightarrow> (server_code + for_args) option" where
  "for_args_loop fuel extract eval w i [] fa = Some (Inr fa)"
| "for_args_loop fuel extract eval w i (a # args) fa =
     (case a_value a of
        None \<Rightarrow> None
      | Some raw \<Rightarrow>
         (case subst_arg fuel w i (a_key a) raw of
            None \<Rightarrow> None
          | Some (rc, v) \<Rightarrow>
              if rc \<noteq> OPH_WORKFLOW_EXIT_SUCCESS then Some (Inl OPH_SERVER_ERROR)
              else if fa_name fa = None \<and> strcasecmp_eq (a_key a) ''key''
              then for_args_loop fuel extract eval w i args (fa\<lparr>fa_name := Some raw\<rparr>)
              else if fa_svalues fa = None \<and> strcasecmp_eq (a_key a) ''values'' \<and> v \<noteq> [] \<and> \<not> strcasecmp_eq v ''-''
              then (case oph_check_input_response fuel extract eval w (int i) v of
                      None \<Rightarrow> None
                    | Some (Inl _) \<Rightarrow> Some (Inl OPH_SERVER_ERROR)
                    | Some (Inr vs) \<Rightarrow> for_args_loop fuel extract eval w i args (fa\<lparr>fa_svalues := Some vs\<rparr>))
              else if \<not> fa_mode fa \<and> strcasecmp_eq (a_key a) ''parallel''
              then if strcasecmp_eq v ''yes'' then for_args_loop fuel extract eval w i args (fa\<lparr>fa_mode := True\<rparr>)
                   else if strcasecmp_eq v ''no'' then for_args_loop fuel extract eval w i args fa
                   else Some (Inl OPH_SERVER_ERROR)
              else for_args_loop fuel extract eval w i args fa))"

text \<open>The second loop looks for the counter, with the number of the values as the limit of its indexes.\<close>

fun for_counter_loop ::
    "nat \<Rightarrow> oph_workflow \<Rightarrow> nat \<Rightarrow> int \<Rightarrow> oph_workflow_arg list \<Rightarrow> int list option \<Rightarrow> (server_code + int list option) option" where
  "for_counter_loop fuel w i svalues_num [] iv = Some (Inr iv)"
| "for_counter_loop fuel w i svalues_num (a # args) iv =
     (case a_value a of
        None \<Rightarrow> None
      | Some raw \<Rightarrow>
         (case subst_arg fuel w i (a_key a) raw of
            None \<Rightarrow> None
          | Some (_, v) \<Rightarrow>
              if iv = None \<and> strcasecmp_eq (a_key a) ''counter'' \<and> v \<noteq> [] \<and> \<not> strcasecmp_eq v ''-''
              then (case oph_subset_parse v (length v) svalues_num of
                      None \<Rightarrow> None
                    | Some (Inl _) \<Rightarrow> Some (Inl OPH_SERVER_ERROR)
                    | Some (Inr s) \<Rightarrow>
                        if length (subset_ivalues s) \<noteq> nat (c_int (uint (ss_total s))) then None
                        else for_counter_loop fuel w i svalues_num args (Some (subset_ivalues s)))
              else for_counter_loop fuel w i svalues_num args iv))"

text \<open>The check of a variable name: the first character that is not allowed refuses the name when it is a separator.\<close>

fun bad_name :: "bool \<Rightarrow> string \<Rightarrow> bool" where
  "bad_name first [] = False"
| "bad_name first (c # s) =
     (if is_letter c \<or> (\<not> first \<and> is_digit c) then bad_name False s else c \<in> set OPH_WORKFLOW_SEPARATORS)"

text \<open>The variable of a loop in the environment, with its value in the round \<open>n\<close>.\<close>

definition loop_var :: "int \<Rightarrow> string option list option \<Rightarrow> int list option \<Rightarrow> nat \<Rightarrow> oph_workflow_var option" where
  [code_defs]: "loop_var caller svalues ivalues n =
     (case ivalues of
        Some iv \<Rightarrow> if n < length iv then Some (iv ! n) else None
      | None \<Rightarrow> Some (1 + int n)) \<bind> (\<lambda>iv.
     (case svalues of
        Some sv \<Rightarrow> if n < length sv then sv ! n else None
      | None \<Rightarrow> Some (show_int iv)) \<bind> (\<lambda>sv.
     Some \<lparr>v_caller = caller, v_svalue = sv, v_ivalue = iv\<rparr>))"

definition var_size :: "oph_workflow_var \<Rightarrow> nat" where
  [code_defs]: "var_size v = 24 + length (v_svalue v) + 1"

text \<open>The values of a loop, its counters and the number of its rounds; a parallel loop has one round here.\<close>

definition for_values :: "for_args \<Rightarrow> int list option \<Rightarrow> server_code + string option list option \<times> int list option \<times> int" where
  [code_defs]: "for_values fa iv =
     (let svalues = map_option (map Some) (fa_svalues fa);
          svalues_num = (case svalues of None \<Rightarrow> 0 | Some vs \<Rightarrow> length vs);
          ivalues_num = (case iv of None \<Rightarrow> 0 | Some is \<Rightarrow> length is) in
      if fa_mode fa then Inr (None, None, 1)
      else if svalues_num \<noteq> 0 then
        (if ivalues_num \<noteq> 0 \<and> ivalues_num \<noteq> svalues_num then Inl OPH_SERVER_ERROR else Inr (svalues, iv, int svalues_num))
      else Inr (svalues, iv, if ivalues_num \<noteq> 0 then int ivalues_num else 1))"

text \<open>The number of rounds and the first value enter the environment; the rest is pushed onto the stack.\<close>

definition for_store ::
    "oph_workflow \<Rightarrow> nat \<Rightarrow> string \<Rightarrow> string option list option \<Rightarrow> int list option \<Rightarrow> int \<Rightarrow> (server_code \<times> oph_workflow) option" where
  [code_defs]: "for_store w i name svalues ivalues n =
     (let number_of_loops = name @ ''_size'';
          var = \<lparr>v_caller = - 1, v_svalue = show_int n, v_ivalue = 1\<rparr> in
      case (if hashtbl_get (w_vars w) number_of_loops \<noteq> None then (0, w_vars w)
            else hashtbl_insert_with_size (w_vars w) number_of_loops var (var_size var)) of
        (rc, vars) \<Rightarrow>
          if rc \<noteq> 0 then Some (OPH_SERVER_ERROR, w)
          else
          loop_var (int i) svalues ivalues 0 \<bind> (\<lambda>var.
          case hashtbl_insert_with_size vars name var (var_size var) of
            (rc, vars') \<Rightarrow>
              if rc \<noteq> 0 then Some (OPH_SERVER_ERROR, w\<lparr>w_vars := vars\<rparr>)
              else (case oph_workflow_push (w\<lparr>w_vars := vars'\<rparr>) (int i) (Some name) svalues ivalues n of
                      (rc, w') \<Rightarrow> Some (if rc = OPH_WORKFLOW_EXIT_SUCCESS then OPH_SERVER_OK else OPH_SERVER_SYSTEM_ERROR, w'))))"

definition oph_for_impl ::
    "nat \<Rightarrow> (string \<Rightarrow> string \<Rightarrow> string option) \<Rightarrow> (string \<Rightarrow> string option) \<Rightarrow> oph_workflow \<Rightarrow> nat \<Rightarrow>
     (server_code \<times> oph_workflow) option" where
  [code_defs]: "oph_for_impl fuel extract eval w i =
     (let args = t_arguments (w_tasks w ! i) in
      case for_args_loop fuel extract eval w i args \<lparr>fa_name = None, fa_svalues = None, fa_mode = False\<rparr> of
        None \<Rightarrow> None
      | Some (Inl rc) \<Rightarrow> Some (rc, w)
      | Some (Inr fa) \<Rightarrow>
         (case for_counter_loop fuel w i (case fa_svalues fa of None \<Rightarrow> 0 | Some vs \<Rightarrow> int (length vs)) args None of
            None \<Rightarrow> None
          | Some (Inl rc) \<Rightarrow> Some (rc, w)
          | Some (Inr iv) \<Rightarrow>
             (case fa_name fa of
                None \<Rightarrow> Some (OPH_SERVER_ERROR, w)
              | Some raw \<Rightarrow>
                  subst_arg fuel w i ''key'' raw \<bind> (\<lambda>(_, name).
                  if bad_name True name then Some (OPH_SERVER_ERROR, w)
                  else (case for_values fa iv of
                          Inl rc \<Rightarrow> Some (rc, w)
                        | Inr (svalues, ivalues, n) \<Rightarrow>
                            if fa_mode fa then Some (OPH_SERVER_OK, w) else for_store w i name svalues ivalues n)))))"

text \<open>
  The end of a round. The entry of the loop is searched in the stack by the task that pushed it; \<open>notify\<close> says that the caller
  takes the identifiers of the loop for the notification (\<open>odb_jobid\<close> is not null), which are returned. The removal of the job
  from the database is not part of the model.
\<close>

fun find_caller :: "int \<Rightarrow> oph_workflow_stack list \<Rightarrow> nat option" where
  "find_caller p [] = None"
| "find_caller p (k # ks) = (if k_caller k = p then Some 0 else map_option Suc (find_caller p ks))"

definition next_round ::
    "nat \<Rightarrow> oph_workflow \<Rightarrow> nat \<Rightarrow> nat \<Rightarrow> oph_workflow_stack \<Rightarrow> oph_trash \<Rightarrow> (oph_workflow \<times> oph_trash) option" where
  [code_defs]: "next_round fuel w i p tmp trash =
     oph_trash_append trash (w_sessionid w) (t_markerid (w_tasks w ! i)) \<bind> (\<lambda>(_, trash).
     oph_workflow_reset_task fuel (int i) tmp (t_dependents_indexes (w_tasks w ! p)) (w, 0) \<bind> (\<lambda>(rc, w, tasks_num).
     let w = (if rc = OPH_WORKFLOW_EXIT_SUCCESS then w\<lparr>w_residual_tasks_num := w_residual_tasks_num w + tasks_num\<rparr> else w) in
     oph_workflow_disable_deps fuel (int p) (int i) (t_dependents_indexes (w_tasks w ! p)) w \<bind> (\<lambda>(_, w).
     Some (upd_task (\<lambda>t. t\<lparr>t_outputs := []\<rparr>) p w, trash))))"

definition oph_endfor_impl ::
    "nat \<Rightarrow> oph_workflow \<Rightarrow> nat \<Rightarrow> oph_trash \<Rightarrow> bool \<Rightarrow>
     (server_code \<times> oph_workflow \<times> oph_trash \<times> (int \<times> int) option) option" where
  [code_defs]: "oph_endfor_impl fuel w i trash notify =
     (case find_caller (t_parent (w_tasks w ! i)) (w_stack w) of
        None \<Rightarrow> Some (OPH_SERVER_OK, w, trash, None)
      | Some pos \<Rightarrow>
         (let tmp = w_stack w ! pos; tmp = tmp\<lparr>k_index := k_index tmp + 1\<rparr>;
              w = w\<lparr>w_stack := (w_stack w)[pos := tmp]\<rparr>;
              pop = (\<lambda>w. case oph_workflow_pop w (if pos = 0 then None else Some (pos - 1)) of
                (rc, w) \<Rightarrow> (if rc = OPH_WORKFLOW_EXIT_SUCCESS then OPH_SERVER_OK else OPH_SERVER_SYSTEM_ERROR, w, trash, None)) in
          case hashtbl_remove (w_vars w) (k_name tmp) of
            (rc, vars) \<Rightarrow>
              if rc \<noteq> 0 then Some (OPH_SERVER_SYSTEM_ERROR, w, trash, None)
              else if k_index tmp \<ge> k_values_num tmp
              then Some (pop (upd_task (\<lambda>t. t\<lparr>t_parallel_mode := 1\<rparr>) i (w\<lparr>w_vars := vars\<rparr>)))
              else
              loop_var (k_caller tmp) (k_svalues tmp) (k_ivalues tmp) (nat (k_index tmp)) \<bind> (\<lambda>var.
              case hashtbl_insert_with_size vars (k_name tmp) var (var_size var) of
                (rc, vars) \<Rightarrow>
                  let w = w\<lparr>w_vars := vars\<rparr>; p = t_parent (w_tasks w ! i) in
                  if rc \<noteq> 0 then Some (OPH_SERVER_SYSTEM_ERROR, w, trash, None)
                  else if \<not> notify then Some (pop w)
                  else if \<not> valid_index w p then None
                  else map_option (\<lambda>(w', trash).
                         (OPH_SERVER_NO_RESPONSE, w', trash, Some (t_idjob (w_tasks w ! nat p), p)))
                       (next_round fuel w i (nat p) tmp trash))))"

section \<open>Selections\<close>

text \<open>
  The block of a selection that is not taken: from the dependents of \<open>task\<close> on, down to the task that ends it or follows it in
  the selection, every task gets the status. \<open>k\<close> is the index of the loop over the dependents, whose array the loop itself
  changes; \<open>nk\<close> is the position in the dependents of \<open>parent\<close> that is redirected, set by the first iteration. The last component
  is the value of \<open>exit_output\<close>. The fuel bounds the iterations along a path.
\<close>

definition set_dependent :: "int \<Rightarrow> int \<Rightarrow> int \<Rightarrow> oph_workflow \<Rightarrow> oph_workflow option" where
  [code_defs]: "set_dependent t nk v w =
     (if valid_index w t \<and> 0 \<le> nk \<and> nat nk < length (t_dependents_indexes (w_tasks w ! nat t))
      then Some (upd_task (\<lambda>t. t\<lparr>t_dependents_indexes := (t_dependents_indexes t)[nat nk := v]\<rparr>) (nat t) w) else None)"

definition redirect_deps :: "int \<Rightarrow> int \<Rightarrow> oph_workflow_task \<Rightarrow> oph_workflow_task" where
  [code_defs]: "redirect_deps old new t =
     t\<lparr>t_deps := map (\<lambda>d. if d_task_index d = old then d\<lparr>d_task_index := new\<rparr> else d) (t_deps t)\<rparr>"

definition drop_deps :: "int \<Rightarrow> int \<Rightarrow> oph_workflow_task \<Rightarrow> oph_workflow_task" where
  [code_defs]: "drop_deps old new t =
     (let t' = redirect_deps old new t in
      if list_ex (\<lambda>d. d_task_index d = old) (t_deps t) then t'\<lparr>t_residual_deps_num := t_residual_deps_num t - 1\<rparr> else t')"

definition is_op :: "oph_workflow_task \<Rightarrow> string \<Rightarrow> bool option" where
  [code_defs]: "is_op t op = map_option (\<lambda>x. strncasecmp_eq x op OPH_MAX_STRING_SIZE) (t_operator t)"

text \<open>A dependent \<open>i\<close> whose parent is the selection: the next branch, or the end of the selection.\<close>

definition close_block :: "bool \<Rightarrow> int \<Rightarrow> int \<Rightarrow> int \<Rightarrow> int \<Rightarrow> oph_workflow \<times> bool \<Rightarrow> (oph_workflow \<times> bool) option" where
  [code_defs]: "close_block skip parent task nk i st =
     (case st of (w, exit_output) \<Rightarrow>
      is_op (w_tasks w ! nat i) OPH_OPERATOR_ENDIF \<bind> (\<lambda>endif.
      if \<not> endif then Some (upd_task (\<lambda>t. t\<lparr>t_is_skipped := skip\<rparr>) (nat i) w, exit_output)
      else if t_branch_num (w_tasks w ! nat i) > 1
      then map_option (\<lambda>w. (upd_task (drop_deps task i) (nat i) w, exit_output)) (set_dependent parent nk parent w)
      else
      set_dependent parent nk i w \<bind> (\<lambda>w.
      is_op (w_tasks w ! nat parent) OPH_OPERATOR_IF \<bind> (\<lambda>is_if.
      Some (upd_task (redirect_deps task parent) (nat i) w,
        exit_output \<and> \<not> (is_if \<and> \<not> t_forward (w_tasks w ! nat parent)))))))"

fun oph_set_status_of_selection_block ::
    "nat \<Rightarrow> int \<Rightarrow> bool \<Rightarrow> int \<Rightarrow> int \<Rightarrow> int \<Rightarrow> nat \<Rightarrow> oph_workflow \<times> bool \<Rightarrow> (wf_code \<times> oph_workflow \<times> bool) option" where
  "oph_set_status_of_selection_block 0 status skip parent task nk k st = None"
| "oph_set_status_of_selection_block (Suc fuel) status skip parent task nk k (w, exit_output) =
     (if k \<ge> length (t_dependents_indexes (w_tasks w ! nat task)) then Some (OPH_WORKFLOW_EXIT_SUCCESS, w, exit_output)
      else
      let nk = (if nk < 0 then int k else nk); i = t_dependents_indexes (w_tasks w ! nat task) ! k in
      if \<not> valid_index w i then None
      else if t_parent (w_tasks w ! nat i) = parent
      then close_block skip parent task nk i (w, exit_output) \<bind>
             oph_set_status_of_selection_block fuel status skip parent task nk (Suc k)
      else
      oph_gparent_of (Suc (length (w_tasks w))) (w_tasks w) parent \<bind> (\<lambda>gparent.
      is_op (w_tasks w ! nat i) OPH_OPERATOR_ENDIF \<bind> (\<lambda>endif.
      if endif \<and> t_parent (w_tasks w ! nat i) = gparent
      then set_dependent parent nk i w \<bind> set_dependent gparent nk i \<bind> (\<lambda>w.
             oph_set_status_of_selection_block fuel status skip parent task nk (Suc k)
               (upd_task (drop_deps task gparent) (nat i) w, exit_output))
      else if t_status (w_tasks w ! nat i) < OPH_ODB_STATUS_COMPLETED \<and> w_residual_tasks_num w = 0
      then Some (OPH_WORKFLOW_EXIT_BAD_PARAM_ERROR, w, exit_output)
      else
      (let w = (if t_status (w_tasks w ! nat i) < OPH_ODB_STATUS_COMPLETED
                then w\<lparr>w_residual_tasks_num := w_residual_tasks_num w - 1\<rparr> else w);
           w = upd_task (\<lambda>t. t\<lparr>t_status := status\<rparr>) (nat i) w in
       oph_set_status_of_selection_block fuel status skip parent i nk 0 (w, exit_output) \<bind> (\<lambda>(res, st).
       if res \<noteq> OPH_WORKFLOW_EXIT_SUCCESS then Some (res, st)
       else oph_set_status_of_selection_block fuel status skip parent task nk (Suc k) st)))))"

text \<open>
  The arguments of \<open>oph_if\<close>: the condition, and whether the outputs are forwarded, which is stored at once. A failed
  substitution has always set the message.
\<close>

fun if_args_loop ::
    "nat \<Rightarrow> nat \<Rightarrow> oph_workflow_arg list \<Rightarrow> oph_workflow \<Rightarrow> string option \<Rightarrow> (bool \<times> oph_workflow \<times> string option) option" where
  "if_args_loop fuel i [] w condition = Some (True, w, condition)"
| "if_args_loop fuel i (a # args) w condition =
     (if strcasecmp_eq (a_key a) ''condition''
      then a_value a \<bind> subst_arg fuel w i ''condition'' \<bind> (\<lambda>(rc, v).
           if rc \<noteq> OPH_WORKFLOW_EXIT_SUCCESS then Some (False, w, condition) else if_args_loop fuel i args w (Some v))
      else if strcasecmp_eq (a_key a) ''forward''
      then a_value a \<bind> subst_arg fuel w i ''forward'' \<bind> (\<lambda>(rc, v).
           if rc \<noteq> OPH_WORKFLOW_EXIT_SUCCESS then Some (False, w, condition)
           else if strcasecmp_eq v ''yes'' then if_args_loop fuel i args (upd_task (\<lambda>t. t\<lparr>t_forward := True\<rparr>) i w) condition
           else if strcasecmp_eq v ''no'' then if_args_loop fuel i args w condition
           else Some (False, w, condition))
      else if_args_loop fuel i args w condition)"

text \<open>The branch that is taken marks the other ones of the selection.\<close>

definition skip_siblings :: "nat \<Rightarrow> oph_workflow \<Rightarrow> oph_workflow option" where
  [code_defs]: "skip_siblings i w =
     map_option (\<lambda>ts. w\<lparr>w_tasks := ts @ drop (w_tasks_num w) (w_tasks w)\<rparr>)
      (those (map (\<lambda>t. if t_parent t \<noteq> int i then Some t
                       else map_option (\<lambda>endif. if endif then t else t\<lparr>t_is_skipped := True\<rparr>) (is_op t OPH_OPERATOR_ENDIF))
        (take (w_tasks_num w) (w_tasks w))))"

definition skip_block :: "nat \<Rightarrow> nat \<Rightarrow> bool \<Rightarrow> oph_workflow \<times> bool \<Rightarrow> (oph_workflow \<times> bool) option" where
  [code_defs]: "skip_block fuel i skip st =
     map_option snd (oph_set_status_of_selection_block fuel OPH_ODB_STATUS_UNSELECTED skip (int i) (int i) (- 1) 0 st)"

definition oph_if_impl ::
    "nat \<Rightarrow> (string \<Rightarrow> bool option) \<Rightarrow> nat \<Rightarrow> oph_workflow \<times> bool \<Rightarrow> (server_code \<times> oph_workflow \<times> bool) option" where
  [code_defs]: "oph_if_impl fuel truth i st =
     (case st of (w, exit_output) \<Rightarrow>
      if t_is_skipped (w_tasks w ! i) then map_option (Pair OPH_SERVER_OK) (skip_block fuel i True (w, exit_output))
      else
      if_args_loop fuel i (t_arguments (w_tasks w ! i)) w None \<bind> (\<lambda>(ok, w, condition).
      if \<not> ok then Some (OPH_SERVER_ERROR, w, exit_output)
      else
      (case (case condition of None \<Rightarrow> Some True | Some c \<Rightarrow> if c = [] then Some True else truth c) of
         None \<Rightarrow> Some (OPH_SERVER_ERROR, w, exit_output)
       | Some False \<Rightarrow>
           map_option (\<lambda>(w, exit_output). (OPH_SERVER_OK, upd_task (\<lambda>t. t\<lparr>t_is_skipped := False\<rparr>) i w, exit_output))
             (skip_block fuel i False (upd_task (\<lambda>t. t\<lparr>t_is_skipped := True\<rparr>) i w, exit_output))
       | Some True \<Rightarrow> map_option (\<lambda>w. (OPH_SERVER_OK, w, exit_output)) (skip_siblings i w))))"

definition oph_else_impl :: "nat \<Rightarrow> nat \<Rightarrow> oph_workflow \<times> bool \<Rightarrow> (server_code \<times> oph_workflow \<times> bool) option" where
  [code_defs]: "oph_else_impl fuel i st =
     (if t_is_skipped (w_tasks (fst st) ! i) then map_option (Pair OPH_SERVER_OK) (skip_block fuel i False st)
      else Some (OPH_SERVER_OK, st))"

section \<open>Lemmas on the rounds of a loop\<close>

text \<open>The changes of the dependency counters alone.\<close>

definition with_residual :: "(nat \<Rightarrow> int) \<Rightarrow> oph_workflow \<Rightarrow> oph_workflow" where
  "with_residual f w = on_tasks (\<lambda>j t. t\<lparr>t_residual_deps_num := f j\<rparr>) UNIV w"

lemma with_residual_simps [simp]:
  "length (w_tasks (with_residual f w)) = length (w_tasks w)" "w_stack (with_residual f w) = w_stack w"
  "w_vars (with_residual f w) = w_vars w" "w_sessionid (with_residual f w) = w_sessionid w"
  "w_residual_tasks_num (with_residual f w) = w_residual_tasks_num w"
  "j < length (w_tasks w) \<Longrightarrow> w_tasks (with_residual f w) ! j = (w_tasks w ! j)\<lparr>t_residual_deps_num := f j\<rparr>"
  "with_residual g (with_residual f w) = with_residual g w"
  by (auto simp: with_residual_def on_tasks_def)

lemma with_residual_id: "w = with_residual (\<lambda>j. t_residual_deps_num (w_tasks w ! j)) w"
  by (auto simp: with_residual_def on_tasks_def map_nth intro!: nth_equalityI arg_cong [of _ _ "\<lambda>ts. w\<lparr>w_tasks := ts\<rparr>"])

lemma upd_residual:
  "\<exists>f. upd_task (\<lambda>t. t\<lparr>t_residual_deps_num := h t\<rparr>) i w = with_residual f w"
proof
  show "upd_task (\<lambda>t. t\<lparr>t_residual_deps_num := h t\<rparr>) i w =
      with_residual (\<lambda>j. if j = i then h (w_tasks w ! i) else t_residual_deps_num (w_tasks w ! j)) w"
    by (auto simp: with_residual_def on_tasks_def upd_task_def nth_list_update
      intro!: nth_equalityI arg_cong [of _ _ "\<lambda>ts. w\<lparr>w_tasks := ts\<rparr>"])
qed

text \<open>
  The edges that \<open>oph_workflow_disable_deps\<close> follows, those of the tasks that are not started, go up along \<open>rank\<close>; the sources of the
  dependencies are tasks.
\<close>

definition idle_ranked :: "nat \<Rightarrow> (nat \<Rightarrow> nat) \<Rightarrow> oph_workflow \<Rightarrow> bool" where
  "idle_ranked N rank w \<longleftrightarrow> N \<le> length (w_tasks w) \<and>
     (\<forall>j < N. t_status (w_tasks w ! j) = 0 \<longrightarrow>
       (\<forall>d\<in>set (t_dependents_indexes (w_tasks w ! j)). 0 \<le> d \<and> d < int N \<and> rank j < rank (nat d))) \<and>
     (\<forall>j < N. \<forall>d\<in>set (t_deps (w_tasks w ! j)). d_task_index d < int N)"

lemma idle_ranked_residual: "idle_ranked N rank w \<Longrightarrow> idle_ranked N rank (with_residual f w)"
  by (simp add: idle_ranked_def)

lemma disable_deps_total:
  assumes "idle_ranked N rank w" and "\<forall>j < N. rank j \<le> N" and "set is \<subseteq> {0..<int N}"
    and "\<forall>i\<in>set is. N < fuel + rank (nat i)"
  shows "\<exists>f. oph_workflow_disable_deps fuel first_task last_task is w = Some (OPH_WORKFLOW_EXIT_SUCCESS, with_residual f w)"
  using assms
proof (induction fuel arbitrary: "is" w)
  case 0
  have "i \<notin> set is" for i
    using 0(3,4) spec [OF 0(2), of "nat i"] by force
  then have "is = []" by (cases "is") auto
  then show ?case using with_residual_id [of w] by auto
next
  case (Suc fuel)
  from Suc.prems show ?case
  proof (induction "is" arbitrary: w)
    case Nil
    then show ?case using with_residual_id [of w] by auto
  next
    case (Cons i "is")
    let ?t = "w_tasks w ! nat i"
    have i: "0 \<le> i" "nat i < N" "valid_index w i"
      using Cons.prems(1,3) by (auto simp: idle_ranked_def valid_index_def)
    have deps: "\<not> list_ex (\<lambda>d. d_task_index d \<ge> 0 \<and> d_task_index d \<noteq> first_task \<and> \<not> valid_index w (d_task_index d)) (t_deps ?t)"
      using Cons.prems(1) i by (fastforce simp: idle_ranked_def valid_index_def list_ex_iff)
    obtain f where f: "upd_task (\<lambda>t. t\<lparr>t_residual_deps_num := t_residual_deps_num t - satisfied_deps w first_task t\<rparr>) (nat i) w =
        with_residual f w"
      using upd_residual [of "\<lambda>t. t_residual_deps_num t - satisfied_deps w first_task t" "nat i" w] by blast
    have rest: "\<exists>g. oph_workflow_disable_deps (Suc fuel) first_task last_task is (with_residual h w) =
        Some (OPH_WORKFLOW_EXIT_SUCCESS, with_residual g w)" for h
      using Cons.IH [OF idle_ranked_residual [OF Cons.prems(1)], of h] Cons.prems(2-4) by simp
    show ?case
    proof (cases "t_status ?t = 0")
      case False
      then show ?thesis using i rest [of "\<lambda>j. t_residual_deps_num (w_tasks w ! j)"] with_residual_id [of w] by (simp add: Let_def)
    next
      case True
      have "0 \<le> d \<and> d < int N \<and> N < fuel + rank (nat d)" if "d \<in> set (t_dependents_indexes ?t)" for d
        using that Cons.prems(1,4) i True by (fastforce simp: idle_ranked_def)
      then have js: "set (t_dependents_indexes ?t) \<subseteq> {0..<int N}" "\<forall>d\<in>set (t_dependents_indexes ?t). N < fuel + rank (nat d)"
        by auto
      obtain g where "oph_workflow_disable_deps fuel first_task last_task (t_dependents_indexes ?t) (with_residual f w) =
          Some (OPH_WORKFLOW_EXIT_SUCCESS, with_residual g w)"
        using Suc.IH [OF idle_ranked_residual [OF Cons.prems(1)] Cons.prems(2) js, of f] by auto
      then show ?thesis using i True deps rest [of f] rest [of g] by (simp add: Let_def f)
    qed
  qed
qed

text \<open>
  What holds in the body of a loop: its entry \<open>k\<close> is on top of the stack, its variable has the value of the round, and the
  edges of the snapshot and of the tasks that are not started go up along \<open>rank\<close>.
\<close>

definition loop_frame ::
    "nat \<Rightarrow> (nat \<Rightarrow> nat) \<Rightarrow> nat \<Rightarrow> nat \<Rightarrow> oph_workflow_stack \<Rightarrow> oph_workflow_stack list \<Rightarrow> oph_workflow \<Rightarrow> bool" where
  "loop_frame N rank p i k rest w \<longleftrightarrow>
     w_stack w = k # rest \<and> k_caller k = int p \<and> t_parent (w_tasks w ! i) = int p \<and> i < N \<and> p < N \<and>
     hashtbl_ok (w_vars w) \<and> w_sessionid w \<noteq> None \<and>
     hashtbl_get (w_vars w) (k_name k) = loop_var (int p) (k_svalues k) (k_ivalues k) (nat (k_index k)) \<and>
     snapshot_ok N k w \<and> idle_ranked N rank w \<and>
     (\<forall>j < N. \<forall>d\<in>set (s_dependents_indexes (k_tasks k ! j)). rank j < rank (nat d)) \<and>
     (\<forall>j < N. \<forall>d\<in>set (s_deps_task_index (k_tasks k ! j)). d < int N) \<and>
     set (t_dependents_indexes (w_tasks w ! p)) \<subseteq> {0..<int N}"

lemma loop_frame_cong:
  assumes "loop_frame N rank p i k rest w"
    and "w_stack w' = w_stack w" and "w_vars w' = w_vars w" and "w_sessionid w' = w_sessionid w"
    and "snapshot_ok N k w'" and "idle_ranked N rank w'" and "t_parent (w_tasks w' ! i) = int p"
    and "set (t_dependents_indexes (w_tasks w' ! p)) \<subseteq> {0..<int N}"
  shows "loop_frame N rank p i k rest w'"
  using assms by (simp add: loop_frame_def)

lemma on_tasks_environment [simp]:
  "w_stack (on_tasks f R w) = w_stack w" "w_vars (on_tasks f R w) = w_vars w" "w_sessionid (on_tasks f R w) = w_sessionid w"
  by (simp_all add: on_tasks_def)

lemma restore_fields:
  assumes "snapshot_ok N k w" and "j < N"
  shows "t_parent (restore k j (w_tasks w ! j)) = t_parent (w_tasks w ! j)"
    and "d_task_index ` set (t_deps (restore k j (w_tasks w ! j))) \<subseteq> set (s_deps_task_index (k_tasks k ! j))"
  using assms
  by (auto simp: snapshot_ok_def list_all_iff Let_def restore_def reset_data_def set_zip in_set_conv_nth image_iff)

lemma snapshot_ok_index [simp]: "snapshot_ok N (k\<lparr>k_index := n\<rparr>) w = snapshot_ok N k w"
  by (simp add: snapshot_ok_def)

lemma snapshot_ok_cong:
  assumes "\<And>j. j < N \<Longrightarrow> t_deps (w_tasks w' ! j) = t_deps (w_tasks w ! j) \<and> t_dependents_indexes (w_tasks w' ! j) = t_dependents_indexes (w_tasks w ! j)"
    and "length (w_tasks w') = length (w_tasks w)"
  shows "snapshot_ok N k w' = snapshot_ok N k w"
  using assms by (auto simp: snapshot_ok_def list_all_iff Let_def)

lemma idle_ranked_restore:
  assumes "loop_frame N rank p i k rest w" and "R \<subseteq> {..<N}"
  shows "idle_ranked N rank (on_tasks (restore k) R w)"
proof -
  have k: "snapshot_ok N k w" "idle_ranked N rank w" using assms(1) by (simp_all add: loop_frame_def)
  have 1: "\<forall>d\<in>set (t_dependents_indexes (restore k j (w_tasks w ! j))). 0 \<le> d \<and> d < int N \<and> rank j < rank (nat d)" if "j < N" for j
    using assms(1) that snapshot_okD(3,5) [OF k(1) that] by (auto simp: loop_frame_def)
  have 2: "\<forall>d\<in>set (t_deps (restore k j (w_tasks w ! j))). d_task_index d < int N" if "j < N" for j
    using assms(1) that restore_fields(2) [OF k(1) that] by (fastforce simp: loop_frame_def)
  have N: "N \<le> length (w_tasks w)" using k(2) by (simp add: idle_ranked_def)
  show ?thesis
    unfolding idle_ranked_def
    using k(2) N 1 2 by (auto simp: idle_ranked_def)
qed

text \<open>The trash has no node without a key, which the comparison with the session could not read.\<close>

definition keyed :: "oph_trash \<Rightarrow> bool" where
  "keyed trash \<longleftrightarrow> (\<forall>n\<in>set trash. tn_key n \<noteq> None)"

lemma keyed_append:
  assumes "keyed trash"
  shows "\<exists>trash'. oph_trash_append trash (Some key) item = Some (OPH_TRASH_OK, trash') \<and> keyed trash'"
proof -
  have "trash_find (Some key) trash \<noteq> None"
    using assms by (induction trash) (auto simp: keyed_def)
  then obtain r where r: "trash_find (Some key) trash = Some r" by blast
  show ?thesis
  proof (cases r)
    case None
    then show ?thesis using assms r by (cases trash) (auto simp: oph_trash_append_def keyed_def)
  next
    case (Some i)
    then have "i < length trash" using r trash_find_less by blast
    then show ?thesis
      using assms r Some by (fastforce simp: oph_trash_append_def keyed_def dest!: set_update_subset_insert [THEN subsetD])
  qed
qed

lemma next_round_frame:
  assumes "loop_frame N rank p i k rest w" and "keyed trash" and "\<forall>j < N. rank j \<le> N" and "N < fuel"
  shows "\<exists>w' trash'. next_round fuel w i p k trash = Some (w', trash') \<and> keyed trash' \<and> loop_frame N rank p i k rest w'"
proof -
  let ?is = "t_dependents_indexes (w_tasks w ! p)"
  have k: "snapshot_ok N k w" "p < N" "i < N" "set ?is \<subseteq> {0..<int N}" using assms(1) by (simp_all add: loop_frame_def)
  have N: "N \<le> length (w_tasks w)" using k(1) by (simp add: snapshot_ok_def)
  obtain trash' where t: "oph_trash_append trash (w_sessionid w) (t_markerid (w_tasks w ! i)) = Some (OPH_TRASH_OK, trash')" "keyed trash'"
    using assms(1) keyed_append [OF assms(2), of _ "t_markerid (w_tasks w ! i)"] unfolding loop_frame_def by (metis option.exhaust)
  have "card (touched N w) < fuel"
    using card_mono [of "{..<N}" "touched N w"] assms(4) by (force simp: touched_def)
  then obtain R where R: "resets (touched N w) (snapshot_edges N (int i) k) ?is R"
      "oph_workflow_reset_task fuel (int i) k ?is (w, 0) = Some (OPH_WORKFLOW_EXIT_SUCCESS, on_tasks (restore k) R w, int (card R))"
    using reset_task_dfs [OF k(1,4), of fuel "int i" 0] by auto
  have sub: "R \<subseteq> {..<N}" using R(1) by (auto simp: resets_def touched_def)
  let ?w1 = "on_tasks (restore k) R w" and ?n = "w_residual_tasks_num w + int (card R)"
  have w1: "idle_ranked N rank (?w1\<lparr>w_residual_tasks_num := ?n\<rparr>)"
    using idle_ranked_restore [OF assms(1) sub] by (simp add: idle_ranked_def)
  have p1: "set (t_dependents_indexes (w_tasks ?w1 ! p)) \<subseteq> {0..<int N}"
    using k(2,4) N snapshot_okD(3,5) [OF k(1,2)] by simp
  have "\<forall>d\<in>set (t_dependents_indexes (w_tasks ?w1 ! p)). N < fuel + rank (nat d)" using assms(4) by simp
  then obtain f where f: "oph_workflow_disable_deps fuel (int p) (int i) (t_dependents_indexes (w_tasks ?w1 ! p))
      (?w1\<lparr>w_residual_tasks_num := ?n\<rparr>) =
      Some (OPH_WORKFLOW_EXIT_SUCCESS, with_residual f (?w1\<lparr>w_residual_tasks_num := ?n\<rparr>))"
    using disable_deps_total [OF w1 assms(3) p1] by blast
  let ?w2 = "with_residual f (?w1\<lparr>w_residual_tasks_num := ?n\<rparr>)"
  let ?w3 = "upd_task (\<lambda>t. t\<lparr>t_outputs := []\<rparr>) p ?w2"
  have "next_round fuel w i p k trash = Some (?w3, trash')"
    by (simp add: next_round_def t(1) R(2) f Let_def)
  moreover have "loop_frame N rank p i k rest ?w3"
  proof (rule loop_frame_cong [OF assms(1)])
    have len: "length (w_tasks ?w3) = length (w_tasks w)" by (simp add: upd_task_def)
    have w3: "t_parent (w_tasks ?w3 ! j) = t_parent (w_tasks w ! j) \<and> t_status (w_tasks ?w3 ! j) = t_status (w_tasks ?w1 ! j) \<and>
        t_deps (w_tasks ?w3 ! j) = t_deps (w_tasks ?w1 ! j) \<and> t_dependents_indexes (w_tasks ?w3 ! j) = t_dependents_indexes (w_tasks ?w1 ! j)"
      if "j < N" for j
    proof -
      have "j < length (w_tasks w)" "p < length (w_tasks w)" using that k(2) N by simp_all
      then show ?thesis using restore_fields(1) [OF k(1) that] by (simp add: upd_task_def nth_list_update)
    qed
    show "snapshot_ok N k ?w3"
      using snapshot_ok_restore(1) [OF k(1) sub] w3 len by (subst snapshot_ok_cong [of N ?w3 ?w1]) auto
    show "idle_ranked N rank ?w3"
      using w1 w3 len by (simp add: idle_ranked_def)
    show "set (t_dependents_indexes (w_tasks ?w3 ! p)) \<subseteq> {0..<int N}" using w3 [OF k(2)] p1 by simp
    show "t_parent (w_tasks ?w3 ! i) = int p" using w3 [OF k(3)] assms(1) by (simp add: loop_frame_def)
  qed (simp_all add: upd_task_def)
  ultimately show ?thesis using t(2) by blast
qed

text \<open>Every round but the last: the loop starts again with the next value.\<close>

lemma endfor_next:
  assumes "loop_frame N rank p i k rest w" and "keyed trash" and "\<forall>j < N. rank j \<le> N" and "N < fuel"
    and "0 \<le> k_index k" and "k_index k + 1 < k_values_num k"
    and "\<forall>m. int m < k_values_num k \<longrightarrow> loop_var (int p) (k_svalues k) (k_ivalues k) m \<noteq> None"
  shows "\<exists>w' trash' ids. oph_endfor_impl fuel w i trash True = Some (OPH_SERVER_NO_RESPONSE, w', trash', ids) \<and> keyed trash' \<and>
    loop_frame N rank p i (k\<lparr>k_index := k_index k + 1\<rparr>) rest w'"
proof -
  let ?k = "k\<lparr>k_index := k_index k + 1\<rparr>" and ?n = "nat (k_index k + 1)"
  note f = assms(1) [unfolded loop_frame_def]
  obtain cur where cur: "hashtbl_get (w_vars w) (k_name k) = Some cur"
    using f assms(5-7) by (metis int_nat_eq less_add_one option.exhaust order_less_trans)
  obtain var where var: "loop_var (int p) (k_svalues k) (k_ivalues k) ?n = Some var"
    using assms(5-7) by (metis add_increasing2 int_nat_eq not_None_eq zero_le_one)
  obtain vars where vars: "hashtbl_remove (w_vars w) (k_name k) = (0, vars)" "hashtbl_ok vars"
      "hashtbl_get vars = (hashtbl_get (w_vars w))(k_name k := None)"
    using remove_bound [of "w_vars w" "k_name k"] f cur by (metis option.simps(3))
  obtain vars' where vars': "hashtbl_insert_with_size vars (k_name k) var (var_size var) = (0, vars')" "hashtbl_ok vars'"
      "hashtbl_get vars' = (hashtbl_get vars)(k_name k \<mapsto> var)"
    using insert_fresh [OF vars(2), of "k_name k" var "var_size var"] vars(3) by (metis fun_upd_same)
  let ?w = "w\<lparr>w_stack := ?k # rest, w_vars := vars'\<rparr>"
  have "loop_frame N rank p i ?k rest ?w"
    using f vars' var snapshot_ok_cong [of N ?w w k] unfolding loop_frame_def by (simp add: idle_ranked_def)
  from next_round_frame [OF this assms(2-4)] obtain w' trash' where
    w': "next_round fuel ?w i p ?k trash = Some (w', trash')" "keyed trash'" "loop_frame N rank p i ?k rest w'" by blast
  have "valid_index ?w (int p)" using f by (auto simp: valid_index_def snapshot_ok_def)
  then have "oph_endfor_impl fuel w i trash True = Some (OPH_SERVER_NO_RESPONSE, w', trash', Some (t_idjob (w_tasks w ! p), int p))"
    using f vars(1) vars'(1) var assms(5,6) w'(1)
    by (simp add: oph_endfor_impl_def Let_def)
  then show ?thesis using w'(2,3) by blast
qed

text \<open>The last round: the variable and the entry of the loop are dropped.\<close>

lemma endfor_last:
  assumes "loop_frame N rank p i k rest w" and "k_index k + 1 \<ge> k_values_num k"
    and "loop_var (int p) (k_svalues k) (k_ivalues k) (nat (k_index k)) \<noteq> None"
  shows "\<exists>w'. oph_endfor_impl fuel w i trash True = Some (OPH_SERVER_OK, w', trash, None) \<and> w_stack w' = rest \<and>
    hashtbl_get (w_vars w') = (hashtbl_get (w_vars w))(k_name k := None) \<and> hashtbl_ok (w_vars w') \<and>
    t_parallel_mode (w_tasks w' ! i) = 1"
proof -
  note f = assms(1) [unfolded loop_frame_def]
  obtain vars where "hashtbl_remove (w_vars w) (k_name k) = (0, vars)" "hashtbl_ok vars"
      "hashtbl_get vars = (hashtbl_get (w_vars w))(k_name k := None)"
    using remove_bound [of "w_vars w" "k_name k"] f assms(3) by metis
  moreover have "i < length (w_tasks w)" using f by (auto simp: snapshot_ok_def)
  ultimately show ?thesis
    using f assms(2) by (simp add: oph_endfor_impl_def oph_workflow_pop_def upd_task_def)
qed

text \<open>
  The rounds of a loop: every body runs, its value of the variable is read, and the end of the round follows, until it does not
  start another one.
\<close>

fun rounds ::
    "nat \<Rightarrow> nat \<Rightarrow> string \<Rightarrow> (oph_workflow \<Rightarrow> oph_workflow) list \<Rightarrow> oph_workflow \<times> oph_trash \<Rightarrow>
     (oph_workflow_var option list \<times> server_code \<times> oph_workflow \<times> oph_trash) option" where
  "rounds fuel i name [] (w, trash) = Some ([], OPH_SERVER_NO_RESPONSE, w, trash)"
| "rounds fuel i name (body # bodies) (w, trash) =
     (case oph_endfor_impl fuel (body w) i trash True of
        None \<Rightarrow> None
      | Some (rc, w', trash', _) \<Rightarrow>
          if rc = OPH_SERVER_NO_RESPONSE
          then map_option (apfst ((#) (hashtbl_get (w_vars w) name))) (rounds fuel i name bodies (w', trash'))
          else Some ([hashtbl_get (w_vars w) name], rc, w', trash'))"

lemma rounds_visit:
  assumes "loop_frame N rank p i k rest w" and "keyed trash" and "\<forall>j < N. rank j \<le> N" and "N < fuel"
    and "0 \<le> k_index k" and "k_values_num k = k_index k + int (length bodies)" and "bodies \<noteq> []"
    and "\<forall>m. int m < k_values_num k \<longrightarrow> loop_var (int p) (k_svalues k) (k_ivalues k) m \<noteq> None"
    and "\<forall>body\<in>set bodies. \<forall>k u. loop_frame N rank p i k rest u \<longrightarrow> loop_frame N rank p i k rest (body u)"
  shows "\<exists>w' trash'. rounds fuel i (k_name k) bodies (w, trash) =
      Some (map (loop_var (int p) (k_svalues k) (k_ivalues k)) [nat (k_index k)..<nat (k_values_num k)], OPH_SERVER_OK, w', trash') \<and>
    w_stack w' = rest \<and> hashtbl_get (w_vars w') (k_name k) = None \<and> t_parallel_mode (w_tasks w' ! i) = 1"
  using assms
proof (induction bodies arbitrary: k w trash)
  case (Cons body bodies)
  have f: "loop_frame N rank p i k rest (body w)" using Cons.prems(1,9) by simp
  have get: "hashtbl_get (w_vars w) (k_name k) = loop_var (int p) (k_svalues k) (k_ivalues k) (nat (k_index k))"
    using Cons.prems(1) by (simp add: loop_frame_def)
  have upt: "[nat (k_index k)..<nat (k_values_num k)] = nat (k_index k) # [Suc (nat (k_index k))..<nat (k_values_num k)]"
    using Cons.prems(5,6) by (intro upt_conv_Cons) simp
  show ?case
  proof (cases "bodies = []")
    case True
    have "loop_var (int p) (k_svalues k) (k_ivalues k) (nat (k_index k)) \<noteq> None"
      using Cons.prems(5,6,8) by simp
    then obtain w' where "oph_endfor_impl fuel (body w) i trash True = Some (OPH_SERVER_OK, w', trash, None)" "w_stack w' = rest"
        "hashtbl_get (w_vars w') = (hashtbl_get (w_vars (body w)))(k_name k := None)" "t_parallel_mode (w_tasks w' ! i) = 1"
      using endfor_last [OF f, of fuel trash] Cons.prems(6) True by auto
    then show ?thesis using True get upt Cons.prems(5,6) by (simp add: nat_add_distrib)
  next
    case False
    let ?k = "k\<lparr>k_index := k_index k + 1\<rparr>"
    obtain w' trash' ids where w': "oph_endfor_impl fuel (body w) i trash True = Some (OPH_SERVER_NO_RESPONSE, w', trash', ids)"
        "keyed trash'" "loop_frame N rank p i ?k rest w'"
      using endfor_next [OF f Cons.prems(2-5) _ Cons.prems(8)] Cons.prems(6) False by auto
    have "nat (k_index ?k) = Suc (nat (k_index k))" using Cons.prems(5) by simp
    then show ?thesis
      using Cons.IH [OF w'(3,2) Cons.prems(3,4)] Cons.prems(5,6,8,9) False w'(1) get upt by auto
  qed
qed simp

text \<open>The graph of a workflow at the start of a loop.\<close>

definition ranked :: "nat \<Rightarrow> (nat \<Rightarrow> nat) \<Rightarrow> oph_workflow \<Rightarrow> bool" where
  [code_defs]: "ranked N rank w \<longleftrightarrow> N \<le> length (w_tasks w) \<and>
     list_all (\<lambda>j. rank j \<le> N \<and>
       list_all (\<lambda>d. 0 \<le> d \<and> d < int N \<and> rank j < rank (nat d)) (t_dependents_indexes (w_tasks w ! j)) \<and>
       list_all (\<lambda>d. d_task_index d < int N) (t_deps (w_tasks w ! j))) [0..<N]"

lemma rankedD:
  assumes "ranked N rank w" and "j < N"
  shows "rank j \<le> N" "N \<le> length (w_tasks w)" "\<forall>d\<in>set (t_dependents_indexes (w_tasks w ! j)). 0 \<le> d \<and> d < int N \<and> rank j < rank (nat d)"
    "\<forall>d\<in>set (t_deps (w_tasks w ! j)). d_task_index d < int N"
  using assms by (auto simp: ranked_def list_all_iff)

lemma ranked_idle:
  assumes "ranked N rank w" and "0 < N"
  shows "idle_ranked N rank w"
  unfolding idle_ranked_def
  using rankedD(3,4) [OF assms(1)] rankedD(2) [OF assms] by blast

lemma ranked_snapshot:
  assumes "ranked N rank w" and "0 < N" and "k_tasks k = map stack_task (take N (w_tasks w))"
  shows "snapshot_ok N k w" and "j < N \<Longrightarrow> s_dependents_indexes (k_tasks k ! j) = t_dependents_indexes (w_tasks w ! j)"
    and "j < N \<Longrightarrow> s_deps_task_index (k_tasks k ! j) = map d_task_index (t_deps (w_tasks w ! j))"
proof -
  have N: "N \<le> length (w_tasks w)" using rankedD(2) [OF assms(1,2)] .
  have nth: "k_tasks k ! j = stack_task (w_tasks w ! j)" if "j < N" for j using that N by (simp add: assms(3))
  then show "j < N \<Longrightarrow> s_dependents_indexes (k_tasks k ! j) = t_dependents_indexes (w_tasks w ! j)"
      "j < N \<Longrightarrow> s_deps_task_index (k_tasks k ! j) = map d_task_index (t_deps (w_tasks w ! j))"
    by (simp_all add: stack_task_def)
  show "snapshot_ok N k w"
    using N nth rankedD(3) [OF assms(1)] by (auto simp: snapshot_ok_def list_all_iff Let_def stack_task_def assms(3))
qed

lemma for_store_ok:
  assumes "for_store w p name sv iv n = Some (OPH_SERVER_OK, w0)" and "hashtbl_ok (w_vars w)"
  obtains var vars where "loop_var (int p) sv iv 0 = Some var" and "hashtbl_ok vars" and "hashtbl_get vars name = Some var" and "n > 0"
    and "w0 = w\<lparr>w_vars := vars, w_stack := \<lparr>k_caller = int p, k_index = 0, k_tasks = map stack_task (take (w_tasks_num w) (w_tasks w)),
      k_name = name, k_svalues = sv, k_ivalues = iv, k_values_num = n\<rparr> # w_stack w\<rparr>"
proof -
  let ?size = "\<lparr>v_caller = - 1, v_svalue = show_int n, v_ivalue = 1\<rparr>"
  obtain rc vars where r: "(if hashtbl_get (w_vars w) (name @ ''_size'') \<noteq> None then (0, w_vars w)
      else hashtbl_insert_with_size (w_vars w) (name @ ''_size'') ?size (var_size ?size)) = (rc, vars)" by fastforce
  then have ok: "hashtbl_ok vars" using assms(2) ht.ins_inv [OF assms(2)] by (metis snd_conv)
  have rc: "rc = 0" using assms(1) r by (auto simp: for_store_def Let_def split: if_splits)
  obtain var where var: "loop_var (int p) sv iv 0 = Some var"
    using assms(1) r rc by (auto simp: for_store_def Let_def split: bind_splits)
  obtain rc' vars' where i: "hashtbl_insert_with_size vars name var (var_size var) = (rc', vars')" by fastforce
  have st: "for_store w p name sv iv n = (if rc' \<noteq> 0 then Some (OPH_SERVER_ERROR, w\<lparr>w_vars := vars\<rparr>)
      else (case oph_workflow_push (w\<lparr>w_vars := vars'\<rparr>) (int p) (Some name) sv iv n of
        (rc, w') \<Rightarrow> Some (if rc = OPH_WORKFLOW_EXIT_SUCCESS then OPH_SERVER_OK else OPH_SERVER_SYSTEM_ERROR, w')))"
    unfolding for_store_def Let_def r rc var by (simp add: i)
  then have rc': "rc' = 0" using assms(1) by (auto split: if_splits)
  have fresh: "hashtbl_get vars name = None" using ht.ins_rc [OF ok, of name var "var_size var"] i rc' by simp
  obtain h where "hashtbl_insert_with_size vars name var (var_size var) = (0, h)" "hashtbl_ok h" "hashtbl_get h = (hashtbl_get vars)(name \<mapsto> var)"
    using insert_fresh [OF ok fresh] by metis
  then have "hashtbl_ok vars'" "hashtbl_get vars' name = Some var" using i by simp_all
  moreover have "n > 0" using assms(1) st rc' by (auto simp: oph_workflow_push_def split: if_splits)
  ultimately show thesis
    using that [OF var] assms(1) st rc' by (simp add: oph_workflow_push_def)
qed

lemma for_values_defined:
  assumes "for_values fa iv0 = Inr (sv, iv, n)" and "\<not> fa_mode fa" and "loop_var c sv iv 0 \<noteq> None" and "int m < n"
  shows "loop_var c sv iv m \<noteq> None"
proof -
  have "sv = map_option (map Some) (fa_svalues fa)" "iv = iv0"
    using assms(1,2) by (auto simp: for_values_def Let_def split: if_splits)
  then show ?thesis
    using assms
    by (cases "fa_svalues fa"; cases iv0) (auto simp: for_values_def loop_var_def Let_def split: if_splits)
qed

lemma for_impl_store:
  assumes "oph_for_impl fuel extract eval w p = Some (OPH_SERVER_OK, w0)" and "w_stack w0 \<noteq> w_stack w"
  obtains fa iv0 name sv iv n where "for_values fa iv0 = Inr (sv, iv, n)" and "\<not> fa_mode fa"
    and "for_store w p name sv iv n = Some (OPH_SERVER_OK, w0)"
  using assms by (auto simp: oph_for_impl_def Let_def split: option.splits sum.splits if_splits bind_splits prod.splits)

section \<open>Lemmas on the selections\<close>

text \<open>
  The number of the tasks that are not finished, which \<open>residual_tasks_num\<close> keeps: of the \<open>tasks_num\<close> tasks, without the final task behind
  them in the array.
\<close>

definition unfinished :: "oph_workflow \<Rightarrow> int" where
  [code_defs]: "unfinished w =
     int (length (filter (\<lambda>s. s < OPH_ODB_STATUS_COMPLETED) (take (w_tasks_num w) (map t_status (w_tasks w)))))"

text \<open>The changes of a block: some tasks get the status, and the counter follows.\<close>

definition accounted :: "int \<Rightarrow> oph_workflow \<Rightarrow> oph_workflow \<Rightarrow> bool" where
  "accounted status w w' \<longleftrightarrow>
     list_all2 (\<lambda>s s'. s' = s \<or> s' = status) (map t_status (w_tasks w)) (map t_status (w_tasks w')) \<and>
     w_tasks_num w' = w_tasks_num w \<and>
     w_residual_tasks_num w' - unfinished w' = w_residual_tasks_num w - unfinished w"

lemma accounted_refl: "accounted status w w"
  by (simp add: accounted_def list.rel_refl)

lemma accounted_trans: "accounted status u v \<Longrightarrow> accounted status v w \<Longrightarrow> accounted status u w"
proof -
  assume a: "accounted status u v" "accounted status v w"
  have "list_all2 (\<lambda>s s'. s' = s \<or> s' = status) (map t_status (w_tasks u)) (map t_status (w_tasks w))"
    by (rule list_all2_trans [OF _ a [unfolded accounted_def, THEN conjunct1]]) auto
  with a show ?thesis by (simp add: accounted_def)
qed

lemma accounted_same:
  "map t_status (w_tasks w') = map t_status (w_tasks w) \<Longrightarrow> w_residual_tasks_num w' = w_residual_tasks_num w \<Longrightarrow>
   w_tasks_num w' = w_tasks_num w \<Longrightarrow> accounted status w w'"
  by (simp add: accounted_def unfinished_def list.rel_refl)

lemma upd_task_accounted:
  assumes "\<And>t. t_status (f t) = t_status t"
  shows "accounted status w (upd_task f i w)"
proof (rule accounted_same)
  show "map t_status (w_tasks (upd_task f i w)) = map t_status (w_tasks w)"
    using assms by (cases "i < length (w_tasks w)") (simp_all add: upd_task_def map_update list_update_beyond list_update_same_conv)
qed (simp_all add: upd_task_def)

lemma length_filter_update:
  assumes "i < length xs" and "\<not> P y"
  shows "length (filter P (xs[i := y])) + (if P (xs ! i) then 1 else 0) = length (filter P xs)"
  using assms
proof (induction xs arbitrary: i)
  case (Cons x xs)
  show ?case
  proof (cases i)
    case (Suc j)
    then show ?thesis using Cons.IH [of j] Cons.prems by auto
  qed (use Cons.prems in auto)
qed simp

lemma set_status_accounted:
  assumes "OPH_ODB_STATUS_COMPLETED \<le> status" and "i < w_tasks_num w" and "w_tasks_num w \<le> length (w_tasks w)"
    and "w' = (if t_status (w_tasks w ! i) < OPH_ODB_STATUS_COMPLETED then w\<lparr>w_residual_tasks_num := w_residual_tasks_num w - 1\<rparr> else w)"
  shows "accounted status w (upd_task (\<lambda>t. t\<lparr>t_status := status\<rparr>) i w')"
proof -
  let ?ss = "map t_status (w_tasks w)" and ?w = "upd_task (\<lambda>t. t\<lparr>t_status := status\<rparr>) i w'"
  have st: "map t_status (w_tasks ?w) = ?ss[i := status]" and n: "w_tasks_num ?w = w_tasks_num w"
    using assms(4) by (simp_all add: upd_task_def map_update)
  have "unfinished ?w + (if t_status (w_tasks w ! i) < OPH_ODB_STATUS_COMPLETED then 1 else 0) = unfinished w"
    using length_filter_update [of i "take (w_tasks_num w) ?ss" "\<lambda>s. s < OPH_ODB_STATUS_COMPLETED" status] assms(1-3)
    unfolding unfinished_def st n by (auto simp: take_update_swap)
  moreover have "w_residual_tasks_num ?w = w_residual_tasks_num w - (if t_status (w_tasks w ! i) < OPH_ODB_STATUS_COMPLETED then 1 else 0)"
    using assms(4) by (simp add: upd_task_def)
  moreover have "list_all2 (\<lambda>s s'. s' = s \<or> s' = status) ?ss (?ss[i := status])"
    using assms(2,3) by (simp add: list_all2_conv_all_nth nth_list_update)
  ultimately show ?thesis unfolding accounted_def st n by simp
qed

lemma set_dependent_accounted: "set_dependent t nk v w = Some w' \<Longrightarrow> accounted status w w'"
  by (auto simp: set_dependent_def intro: upd_task_accounted split: if_splits)

lemma drop_deps_status [simp]: "t_status (redirect_deps old new t) = t_status t" "t_status (drop_deps old new t) = t_status t"
  by (simp_all add: redirect_deps_def drop_deps_def Let_def)

lemma close_block_accounted:
  assumes "close_block skip parent task nk i (w, e) = Some (w', e')"
  shows "accounted status w w'"
  using assms
  by (auto simp: close_block_def split: bind_splits if_splits
    intro!: upd_task_accounted accounted_trans [OF set_dependent_accounted upd_task_accounted])

text \<open>
  What the selections rely on: the dependents are valid indexes of an acyclic graph, every task has an operator, and the parent of a task, if
  any, is one of its ancestors, as \<open>oph_workflow_validate_fco\<close> sets it.
\<close>

definition selection_graph :: "oph_workflow \<Rightarrow> bool" where
  "selection_graph w \<longleftrightarrow> indexes_ok (w_tasks_num w) (w_tasks w) \<and> acyclic (task_edges w) \<and>
     operators_ok (w_tasks_num w) (w_tasks w) \<and> parents_ok (w_tasks_num w) (task_edges w) (w_tasks w) \<and>
     (\<forall>j < w_tasks_num w. - 1 \<le> t_parent (w_tasks w ! j))"

definition same_graph :: "oph_workflow \<Rightarrow> oph_workflow \<Rightarrow> bool" where
  "same_graph w w' \<longleftrightarrow> w_tasks_num w' = w_tasks_num w \<and> length (w_tasks w') = length (w_tasks w) \<and>
     (\<forall>x < length (w_tasks w). t_parent (w_tasks w' ! x) = t_parent (w_tasks w ! x) \<and> t_operator (w_tasks w' ! x) = t_operator (w_tasks w ! x) \<and>
        t_dependents_indexes (w_tasks w' ! x) = t_dependents_indexes (w_tasks w ! x))"

definition keeps_links :: "(oph_workflow_task \<Rightarrow> oph_workflow_task) \<Rightarrow> bool" where
  "keeps_links f \<longleftrightarrow> (\<forall>t. t_parent (f t) = t_parent t \<and> t_operator (f t) = t_operator t \<and>
     t_dependents_indexes (f t) = t_dependents_indexes t)"

lemma same_graph_trans: "same_graph u v \<Longrightarrow> same_graph v w \<Longrightarrow> same_graph u w"
  by (simp add: same_graph_def)

lemma same_graph_upd: "keeps_links f \<Longrightarrow> same_graph w (upd_task f i w)"
  by (cases "i < length (w_tasks w)") (auto simp: same_graph_def keeps_links_def upd_task_def nth_list_update list_update_beyond)

lemma selection_graph_cong:
  assumes "selection_graph w" and "same_graph w w'"
  shows "selection_graph w'"
proof -
  have "w_tasks_num w \<le> length (w_tasks w)" using assms(1) by (simp add: selection_graph_def indexes_ok_def)
  then have "task_edges w' = task_edges w" using assms(2) by (auto simp: task_edges_def dag_edges_def same_graph_def)
  then show ?thesis
    using assms by (auto simp: selection_graph_def same_graph_def indexes_ok_def operators_ok_def parents_ok_def list_all_length)
qed

lemma selection_graphD:
  assumes "selection_graph w"
  shows "w_tasks_num w \<le> length (w_tasks w)" and "task_edges w \<subseteq> {..<w_tasks_num w} \<times> {..<w_tasks_num w}" and "acyclic (task_edges w)"
    and "finite (task_edges w)" and "parents_ok (w_tasks_num w) (task_edges w) (w_tasks w)"
    and "x < w_tasks_num w \<Longrightarrow> \<exists>b. is_op (w_tasks w ! x) op = Some b"
proof -
  show n: "w_tasks_num w \<le> length (w_tasks w)" and b: "task_edges w \<subseteq> {..<w_tasks_num w} \<times> {..<w_tasks_num w}"
    using assms dag_edges_bound by (auto simp: selection_graph_def indexes_ok_def task_edges_def)
  show "finite (task_edges w)" using b by (rule finite_subset) simp
  show "x < w_tasks_num w \<Longrightarrow> \<exists>b. is_op (w_tasks w ! x) op = Some b"
    using operators_okD [OF _ n] assms by (fastforce simp: selection_graph_def is_op_def)
qed (use assms in \<open>simp_all add: selection_graph_def\<close>)

text \<open>
  The workflow while the block of the selection \<open>p\<close> is walked through: only the first dependent of \<open>p\<close> and of the first task of its chain
  of selections have been redirected.
\<close>

definition in_block :: "oph_workflow \<Rightarrow> nat \<Rightarrow> int \<Rightarrow> oph_workflow \<Rightarrow> bool" where
  "in_block w0 p g w \<longleftrightarrow> w_tasks_num w = w_tasks_num w0 \<and> length (w_tasks w) = length (w_tasks w0) \<and>
     (\<forall>x < length (w_tasks w0). t_parent (w_tasks w ! x) = t_parent (w_tasks w0 ! x) \<and> t_operator (w_tasks w ! x) = t_operator (w_tasks w0 ! x) \<and>
        length (t_dependents_indexes (w_tasks w ! x)) = length (t_dependents_indexes (w_tasks w0 ! x)) \<and>
        tl (t_dependents_indexes (w_tasks w ! x)) = tl (t_dependents_indexes (w_tasks w0 ! x)) \<and>
        (x \<noteq> p \<and> int x \<noteq> g \<longrightarrow> t_dependents_indexes (w_tasks w ! x) = t_dependents_indexes (w_tasks w0 ! x)))"

lemma climb_cong:
  "length us = length ts \<Longrightarrow> (\<And>x. x < length ts \<Longrightarrow> t_parent (us ! x) = t_parent (ts ! x)) \<Longrightarrow> climb n us k = climb n ts k"
  by (induction n arbitrary: k) (simp_all add: Let_def)

lemma in_block_gparent: "in_block w0 p g w \<Longrightarrow> oph_gparent_of n (w_tasks w) k = oph_gparent_of n (w_tasks w0) k"
  using climb_cong [of "w_tasks w" "w_tasks w0" n] by (auto simp: in_block_def oph_gparent_of_def)

lemma in_block_refl: "in_block w p g w"
  by (simp add: in_block_def)

lemma in_block_residual [simp]: "in_block w0 p g (w\<lparr>w_residual_tasks_num := n\<rparr>) = in_block w0 p g w"
  by (simp add: in_block_def)

lemma in_block_upd: "keeps_links f \<Longrightarrow> in_block w0 p g w \<Longrightarrow> in_block w0 p g (upd_task f i w)"
  by (cases "i < length (w_tasks w)") (auto simp: in_block_def keeps_links_def upd_task_def nth_list_update list_update_beyond)

lemma keeps_links_simps [simp]:
  "keeps_links (redirect_deps old new)" "keeps_links (drop_deps old new)" "keeps_links (\<lambda>t. t\<lparr>t_status := s\<rparr>)"
  "keeps_links (\<lambda>t. t\<lparr>t_is_skipped := b\<rparr>)" "keeps_links (\<lambda>t. t\<lparr>t_forward := b\<rparr>)"
  by (simp_all add: keeps_links_def redirect_deps_def drop_deps_def Let_def)

lemma in_block_set_dependent:
  assumes "in_block w0 p g w" and "w_tasks_num w0 \<le> length (w_tasks w0)" and "x < w_tasks_num w0" and "x = p \<or> int x = g"
    and "t_dependents_indexes (w_tasks w0 ! x) \<noteq> []"
  shows "\<exists>w'. set_dependent (int x) 0 v w = Some w' \<and> in_block w0 p g w' \<and> accounted status w w'"
proof -
  have n: "valid_index w (int x)" "0 < length (t_dependents_indexes (w_tasks w ! x))"
    using assms by (auto simp: in_block_def valid_index_def)
  then obtain w' where w': "set_dependent (int x) 0 v w = Some w'"
    and u: "w' = upd_task (\<lambda>t. t\<lparr>t_dependents_indexes := (t_dependents_indexes t)[0 := v]\<rparr>) x w"
    by (simp add: set_dependent_def)
  have "tl (xs[0 := v]) = tl xs" for xs :: "int list" by (cases xs) simp_all
  then have "in_block w0 p g w'"
    using assms(1-4) by (auto simp: u in_block_def upd_task_def nth_list_update)
  with w' set_dependent_accounted [OF w'] show ?thesis by blast
qed

lemma in_block_op:
  assumes "selection_graph w0" and "in_block w0 p g w" and "x < w_tasks_num w0"
  shows "\<exists>b. is_op (w_tasks w ! x) op = Some b"
proof -
  have "t_operator (w_tasks w ! x) = t_operator (w_tasks w0 ! x)"
    using assms selection_graphD(1) [OF assms(1)] by (simp add: in_block_def)
  then show ?thesis using selection_graphD(6) [OF assms(1,3), of op] by (simp add: is_op_def)
qed

text \<open>A dependent that ends the branch or the selection.\<close>

lemma close_block_returns:
  assumes g: "selection_graph w0" and w: "in_block w0 p g w" and p: "p < w_tasks_num w0" "t_dependents_indexes (w_tasks w0 ! p) \<noteq> []"
    and i: "0 \<le> i" "nat i < w_tasks_num w0"
  shows "\<exists>w' e'. close_block skip (int p) task 0 i (w, e) = Some (w', e') \<and> in_block w0 p g w' \<and> accounted status w w'"
proof -
  note n = selection_graphD(1) [OF g]
  obtain endif where e: "is_op (w_tasks w ! nat i) OPH_OPERATOR_ENDIF = Some endif" using in_block_op [OF g w i(2)] by blast
  have d: "\<exists>w'. set_dependent (int p) 0 v w = Some w' \<and> in_block w0 p g w'" for v
    using in_block_set_dependent [OF w n p(1) _ p(2)] by blast
  obtain w1 w2 where w1: "set_dependent (int p) 0 (int p) w = Some w1" "in_block w0 p g w1"
    and w2: "set_dependent (int p) 0 i w = Some w2" "in_block w0 p g w2" using d by blast
  obtain is_if where "is_op (w_tasks w2 ! p) OPH_OPERATOR_IF = Some is_if" using in_block_op [OF g w2(2) p(1)] by blast
  then have "\<exists>w' e'. close_block skip (int p) task 0 i (w, e) = Some (w', e') \<and> in_block w0 p g w'"
    using e w w1 w2 by (auto simp: close_block_def intro: in_block_upd)
  then show ?thesis using close_block_accounted by blast
qed

lemma child_in_block:
  assumes w: "in_block w0 p g w" and "task < length (w_tasks w0)" and "k < length (t_dependents_indexes (w_tasks w ! task))"
    and "k = 0 \<Longrightarrow> t_dependents_indexes (w_tasks w ! task) = t_dependents_indexes (w_tasks w0 ! task)"
  shows "t_dependents_indexes (w_tasks w ! task) ! k \<in> set (t_dependents_indexes (w_tasks w0 ! task))"
proof (cases k)
  case 0
  then show ?thesis using assms(3,4) by simp
next
  case (Suc l)
  have "t_dependents_indexes (w_tasks w ! task) ! k = tl (t_dependents_indexes (w_tasks w0 ! task)) ! l" and
    "k < length (t_dependents_indexes (w_tasks w0 ! task))"
    using w assms(2,3) by (simp_all add: in_block_def Suc nth_tl flip: nth_tl)
  then show ?thesis by (simp add: Suc nth_tl)
qed

text \<open>
  The walk returns: the graph below the selection is the one it started with, so the depth is that of an acyclic graph, and each task
  needs one more step than it has dependents.
\<close>

lemma edge_dependents: "(x, y) \<in> (task_edges w)\<^sup>+ \<Longrightarrow> t_dependents_indexes (w_tasks w ! x) \<noteq> []"
  by (erule converse_tranclE) (auto simp: task_edges_def dag_edges_def)

lemma selection_child:
  assumes g: "selection_graph w0" and w: "in_block w0 p g w" and p: "p < w_tasks_num w0"
    and gp: "oph_gparent_of (Suc (length (w_tasks w0))) (w_tasks w0) (int p) = Some g"
    and t: "(p, task) \<in> (task_edges w0)\<^sup>*" and k: "k < length (t_dependents_indexes (w_tasks w ! task))"
    and same: "task = p \<and> k = 0 \<Longrightarrow> t_dependents_indexes (w_tasks w ! p) = t_dependents_indexes (w_tasks w0 ! p)"
  obtains i where "t_dependents_indexes (w_tasks w ! task) ! k = int i" and "(task, i) \<in> task_edges w0" and "i < w_tasks_num w0"
    and "(p, i) \<in> (task_edges w0)\<^sup>+" and "g = - 2 \<or> 0 \<le> g \<and> (nat g, p) \<in> (task_edges w0)\<^sup>+"
proof -
  note b = selection_graphD(2) [OF g] and n = selection_graphD(1) [OF g]
  have task: "task < w_tasks_num w0"
    using t p trancl_bounded [OF b] by (auto simp: rtrancl_eq_or_trancl)
  have anc: "g = - 2 \<or> 0 \<le> g \<and> (nat g, p) \<in> (task_edges w0)\<^sup>+"
    using gparent_ancestor [OF n b selection_graphD(3,5) [OF g] p, of "Suc (length (w_tasks w0))"] gp n by auto
  have "t_dependents_indexes (w_tasks w ! task) = t_dependents_indexes (w_tasks w0 ! task)" if "k = 0"
  proof (cases "task = p")
    case False
    then have "(p, task) \<in> (task_edges w0)\<^sup>+" using t by (simp add: rtrancl_eq_or_trancl)
    then have "int task \<noteq> g" using anc selection_graphD(3) [OF g] by (auto simp: acyclic_def dest: trancl_trans)
    then show ?thesis using False w task n by (simp add: in_block_def)
  qed (use same that in simp)
  then have "t_dependents_indexes (w_tasks w ! task) ! k \<in> set (t_dependents_indexes (w_tasks w0 ! task))" (is "?i \<in> _")
    using child_in_block [OF w _ k] task n by simp
  then have "0 \<le> ?i" "nat ?i < w_tasks_num w0" "(task, nat ?i) \<in> task_edges w0"
    using indexes_okD [of "w_tasks_num w0" "w_tasks w0" task ?i] g task by (auto simp: selection_graph_def task_edges_def dag_edges_def)
  with that [of "nat ?i"] t anc show thesis by (auto intro: rtrancl_into_trancl1)
qed

text \<open>One turn of the walk, given that the rest of the list and the dependents of the task are walked through.\<close>

lemma selection_step_returns:
  assumes g: "selection_graph w0" and w: "in_block w0 p g w" and p: "p < w_tasks_num w0"
    and gp: "oph_gparent_of (Suc (length (w_tasks w0))) (w_tasks w0) (int p) = Some g" and status: "OPH_ODB_STATUS_COMPLETED \<le> status"
    and nk: "nk = 0 \<or> nk < 0 \<and> k = 0" and k: "k < length (t_dependents_indexes (w_tasks w ! task))"
    and i: "t_dependents_indexes (w_tasks w ! task) ! k = int i" "i < w_tasks_num w0" "(p, i) \<in> (task_edges w0)\<^sup>+"
    and anc: "g = - 2 \<or> 0 \<le> g \<and> (nat g, p) \<in> (task_edges w0)\<^sup>+"
    and rest: "\<And>v e1. in_block w0 p g v \<Longrightarrow> accounted status w v \<Longrightarrow>
      \<exists>rc w' e'. oph_set_status_of_selection_block fuel status skip (int p) (int task) 0 (Suc k) (v, e1) = Some (rc, w', e') \<and> in_block w0 p g w' \<and> accounted status w w'"
    and walk: "\<And>v e1. in_block w0 p g v \<Longrightarrow> accounted status w v \<Longrightarrow>
      \<exists>rc w' e'. oph_set_status_of_selection_block fuel status skip (int p) (int i) 0 0 (v, e1) = Some (rc, w', e') \<and> in_block w0 p g w' \<and> accounted status w w'"
  shows "\<exists>rc w' e'. oph_set_status_of_selection_block (Suc fuel) status skip (int p) (int task) nk k (w, e) = Some (rc, w', e') \<and>
    in_block w0 p g w' \<and> accounted status w w'"
proof -
  note n = selection_graphD(1) [OF g] and depsp = edge_dependents [OF i(3)]
  have nk0: "(if nk < 0 then int k else nk) = 0" and kk: "\<not> length (t_dependents_indexes (w_tasks w ! task)) \<le> k"
    and vi: "valid_index w (int i)" "t_parent (w_tasks w ! i) = t_parent (w_tasks w0 ! i)"
    using nk k i(2) n w by (auto simp: valid_index_def in_block_def)
  obtain endif where isop: "is_op (w_tasks w ! i) OPH_OPERATOR_ENDIF = Some endif"
    using in_block_op [OF g w i(2)] by blast
  have gw: "oph_gparent_of (Suc (length (w_tasks w))) (w_tasks w) (int p) = Some g"
    using in_block_gparent [OF w] gp w by (simp add: in_block_def)
  note step = oph_set_status_of_selection_block.simps(2) [of fuel status skip "int p" "int task" nk k w e]
  consider (close) "t_parent (w_tasks w ! i) = int p"
    | (endif) "t_parent (w_tasks w ! i) \<noteq> int p" "endif" "t_parent (w_tasks w ! i) = g"
    | (inner) "t_parent (w_tasks w ! i) \<noteq> int p" "\<not> (endif \<and> t_parent (w_tasks w ! i) = g)" by blast
  then show ?thesis
  proof cases
    case close
    obtain w1 e1 where c: "close_block skip (int p) (int task) 0 (int i) (w, e) = Some (w1, e1)" "in_block w0 p g w1" "accounted status w w1"
      using close_block_returns [OF g w p depsp, where i = "int i" and skip = skip and task = "int task" and e = e and status = status] i(2)
      by auto
    show ?thesis using rest [OF c(2,3), of e1] by (simp add: step Let_def nk0 i(1) vi(1) kk close c(1))
  next
    case endif
    have "- 1 \<le> t_parent (w_tasks w0 ! i)" using g i(2) by (simp add: selection_graph_def)
    then have ga: "g = int (nat g)" "(nat g, p) \<in> (task_edges w0)\<^sup>+" using anc endif(3) vi(2) by auto
    obtain w1 where w1: "set_dependent (int p) 0 (int i) w = Some w1" "in_block w0 p g w1" "accounted status w w1"
      using in_block_set_dependent [OF w n p _ depsp] by blast
    obtain w2 where w2: "set_dependent g 0 (int i) w1 = Some w2" "in_block w0 p g w2" "accounted status w1 w2"
      using in_block_set_dependent [OF w1(2) n, of "nat g" "int i" status] ga edge_dependents [OF ga(2)]
        trancl_bounded [OF selection_graphD(2) [OF g] ga(2)] by auto
    have "in_block w0 p g (upd_task (drop_deps (int task) g) i w2)" "accounted status w (upd_task (drop_deps (int task) g) i w2)"
      using in_block_upd w2(2) accounted_trans [OF accounted_trans [OF w1(3) w2(3)] upd_task_accounted] by simp_all
    then show ?thesis
      using rest [of "upd_task (drop_deps (int task) g) i w2" e] endif isop
      by (simp add: step Let_def nk0 i(1) vi(1) kk gw w1(1) w2(1))
  next
    case inner
    let ?r = "if t_status (w_tasks w ! i) < OPH_ODB_STATUS_COMPLETED then w\<lparr>w_residual_tasks_num := w_residual_tasks_num w - 1\<rparr> else w"
    let ?u = "upd_task (\<lambda>t. t\<lparr>t_status := status\<rparr>) i ?r"
    have "i < w_tasks_num w" "w_tasks_num w \<le> length (w_tasks w)" using w i(2) n by (simp_all add: in_block_def)
    then have u: "in_block w0 p g ?u" "accounted status w ?u"
      using set_status_accounted [OF status, of i w] in_block_upd [of _ w0 p g ?r] w by simp_all
    obtain rc v e1 where v: "oph_set_status_of_selection_block fuel status skip (int p) (int i) 0 0 (?u, e) = Some (rc, v, e1)" "in_block w0 p g v" "accounted status w v"
      using walk [OF u, of e] by blast
    then show ?thesis
      using rest [OF v(2,3), of e1] isop accounted_refl [of status w] w
      by (simp add: step Let_def nk0 i(1) vi(1) kk gw inner)
  qed
qed

lemma selection_block_returns:
  assumes g: "selection_graph w0" and p: "p < w_tasks_num w0"
    and gp: "oph_gparent_of (Suc (length (w_tasks w0))) (w_tasks w0) (int p) = Some g"
    and D: "\<forall>j < w_tasks_num w0. length (t_dependents_indexes (w_tasks w0 ! j)) \<le> D"
    and status: "OPH_ODB_STATUS_COMPLETED \<le> status"
  shows "in_block w0 p g w \<Longrightarrow> (p, task) \<in> (task_edges w0)\<^sup>* \<Longrightarrow> nk = 0 \<or> nk < 0 \<and> k = 0 \<Longrightarrow>
    (task = p \<and> k = 0 \<Longrightarrow> t_dependents_indexes (w_tasks w ! p) = t_dependents_indexes (w_tasks w0 ! p)) \<Longrightarrow>
    below (task_edges w0) task * Suc D + (length (t_dependents_indexes (w_tasks w0 ! task)) - k) < fuel \<Longrightarrow>
    \<exists>rc w' e'. oph_set_status_of_selection_block fuel status skip (int p) (int task) nk k (w, e) = Some (rc, w', e') \<and>
      in_block w0 p g w' \<and> accounted status w w'"
proof (induction fuel arbitrary: task nk k w e)
  case (Suc fuel)
  note acyc = selection_graphD(3) [OF g]
  have "task < w_tasks_num w0"
    using Suc.prems(2) p trancl_bounded [OF selection_graphD(2) [OF g]] by (auto simp: rtrancl_eq_or_trancl)
  then have len: "length (t_dependents_indexes (w_tasks w ! task)) = length (t_dependents_indexes (w_tasks w0 ! task))"
    using Suc.prems(1) selection_graphD(1) [OF g] by (simp add: in_block_def)
  show ?case
  proof (cases "k < length (t_dependents_indexes (w_tasks w ! task))")
    case True
    obtain i where i: "t_dependents_indexes (w_tasks w ! task) ! k = int i" "(task, i) \<in> task_edges w0" "i < w_tasks_num w0"
        "(p, i) \<in> (task_edges w0)\<^sup>+" and anc: "g = - 2 \<or> 0 \<le> g \<and> (nat g, p) \<in> (task_edges w0)\<^sup>+"
      using selection_child [OF g Suc.prems(1) p gp Suc.prems(2) True Suc.prems(4)] .
    have "below (task_edges w0) i < below (task_edges w0) task"
      using below_decreases [OF acyc selection_graphD(4) [OF g] i(2)] .
    then have "Suc (below (task_edges w0) i) * Suc D \<le> below (task_edges w0) task * Suc D" by (intro mult_le_mono1) simp
    moreover have "length (t_dependents_indexes (w_tasks w0 ! i)) \<le> D" using D i(3) by blast
    ultimately have fuel: "below (task_edges w0) i * Suc D + (length (t_dependents_indexes (w_tasks w0 ! i)) - 0) < fuel"
      using Suc.prems(5) True len by simp
    have "i \<noteq> p" using i(4) acyc by (auto simp: acyclic_def)
    show ?thesis
    proof (rule selection_step_returns [OF g Suc.prems(1) p gp status Suc.prems(3) True i(1,3,4) anc])
      fix v e1
      assume v: "in_block w0 p g v" "accounted status w v"
      show "\<exists>rc w' e'. oph_set_status_of_selection_block fuel status skip (int p) (int task) 0 (Suc k) (v, e1) = Some (rc, w', e') \<and>
          in_block w0 p g w' \<and> accounted status w w'"
        using Suc.IH [OF v(1) Suc.prems(2), of 0 "Suc k" e1] Suc.prems(5) True len accounted_trans [OF v(2)] by fastforce
      show "\<exists>rc w' e'. oph_set_status_of_selection_block fuel status skip (int p) (int i) 0 0 (v, e1) = Some (rc, w', e') \<and>
          in_block w0 p g w' \<and> accounted status w w'"
        using Suc.IH [OF v(1) trancl_into_rtrancl [OF i(4)] _ _ fuel, of 0 e1] \<open>i \<noteq> p\<close> accounted_trans [OF v(2)] by blast
    qed
  qed (use Suc.prems(1) accounted_refl in auto)
qed simp

lemma if_args_loop_accounted:
  "if_args_loop fuel i args w c = Some (ok, w', c') \<Longrightarrow> accounted status w w'"
proof (induction args arbitrary: w c)
  case (Cons a args)
  have step: "accounted status w w'" if "if_args_loop fuel i args (upd_task (\<lambda>t. t\<lparr>t_forward := True\<rparr>) i w) c = Some (ok, w', c')"
    using accounted_trans [OF upd_task_accounted Cons.IH [OF that]] by simp
  show ?case
    using Cons.prems by (auto split: if_splits bind_splits simp: accounted_refl dest: Cons.IH step)
qed (simp add: accounted_refl)

lemma those_status:
  "those (map f ts) = Some us \<Longrightarrow> (\<And>t u. f t = Some u \<Longrightarrow> t_status u = t_status t) \<Longrightarrow> map t_status us = map t_status ts"
  by (induction ts arbitrary: us) (auto split: option.splits)

lemma skip_siblings_accounted:
  assumes "skip_siblings i w = Some w'"
  shows "accounted status w w'"
proof -
  obtain ts where ts: "those (map (\<lambda>t. if t_parent t \<noteq> int i then Some t
      else map_option (\<lambda>endif. if endif then t else t\<lparr>t_is_skipped := True\<rparr>) (is_op t OPH_OPERATOR_ENDIF))
        (take (w_tasks_num w) (w_tasks w))) = Some ts" and w': "w' = w\<lparr>w_tasks := ts @ drop (w_tasks_num w) (w_tasks w)\<rparr>"
    using assms by (auto simp: skip_siblings_def)
  have "map t_status ts = map t_status (take (w_tasks_num w) (w_tasks w))"
    by (rule those_status [OF ts]) (auto split: if_splits)
  then have "map t_status (w_tasks w') = map t_status (take (w_tasks_num w) (w_tasks w) @ drop (w_tasks_num w) (w_tasks w))"
    unfolding w' by (simp del: append_take_drop_id)
  then show ?thesis by (intro accounted_same) (simp_all add: w')
qed

text \<open>The conditions under which a selection returns: the graph, and the fuel for its depth and its lists of dependents.\<close>

definition selection_ready :: "nat \<Rightarrow> nat \<Rightarrow> oph_workflow \<Rightarrow> nat \<Rightarrow> bool" where
  "selection_ready fuel D w i \<longleftrightarrow> selection_graph w \<and> i < w_tasks_num w \<and>
     (\<forall>j < w_tasks_num w. length (t_dependents_indexes (w_tasks w ! j)) \<le> D) \<and> Suc (w_tasks_num w) * Suc D \<le> fuel"

lemma selection_ready_cong: "selection_ready fuel D w i \<Longrightarrow> same_graph w w' \<Longrightarrow> selection_ready fuel D w' i"
  using selection_graph_cong [of w w'] selection_graphD(1) [of w] by (auto simp: selection_ready_def same_graph_def)

lemma skip_block_returns:
  assumes "selection_ready fuel D w i"
  shows "\<exists>w' e'. skip_block fuel i skip (w, e) = Some (w', e') \<and> accounted OPH_ODB_STATUS_UNSELECTED w w'"
proof -
  have g: "selection_graph w" and i: "i < w_tasks_num w"
    and D: "\<forall>j < w_tasks_num w. length (t_dependents_indexes (w_tasks w ! j)) \<le> D"
    and fuel: "Suc (w_tasks_num w) * Suc D \<le> fuel"
    using assms by (simp_all add: selection_ready_def)
  obtain gp where gp: "oph_gparent_of (Suc (length (w_tasks w))) (w_tasks w) (int i) = Some gp"
    using gparent_ancestor [OF selection_graphD(1,2,3,5) [OF g] i, of "Suc (length (w_tasks w))"] selection_graphD(1) [OF g] by auto
  have "below (task_edges w) i * Suc D \<le> w_tasks_num w * Suc D"
    by (intro mult_le_mono1 below_bound selection_graphD(2) [OF g])
  then have "below (task_edges w) i * Suc D + (length (t_dependents_indexes (w_tasks w ! i)) - 0) < fuel"
    using fuel D [rule_format, OF i] by simp
  from selection_block_returns [OF g i gp D _ in_block_refl _ _ _ this, of OPH_ODB_STATUS_UNSELECTED "- 1" skip e] show ?thesis
    by (auto simp: skip_block_def OPH_ODB_STATUS_UNSELECTED_def OPH_ODB_STATUS_COMPLETED_def)
qed

lemma if_args_loop_graph: "if_args_loop fuel i args w c = Some (ok, w', c') \<Longrightarrow> same_graph w w'"
proof (induction args arbitrary: w c)
  case (Cons a args)
  have step: "same_graph w w'" if "if_args_loop fuel i args (upd_task (\<lambda>t. t\<lparr>t_forward := True\<rparr>) i w) c = Some (ok, w', c')"
    using same_graph_trans [OF same_graph_upd Cons.IH [OF that]] by simp
  have "same_graph w w" by (simp add: same_graph_def)
  then show ?case
    using Cons.prems by (auto split: if_splits bind_splits dest: Cons.IH step)
qed (simp add: same_graph_def)

lemma skip_siblings_returns:
  assumes "selection_graph w"
  shows "\<exists>w'. skip_siblings i w = Some w'"
proof -
  have "\<exists>ys. those (map f xs) = Some ys" if "\<forall>x \<in> set xs. \<exists>y. f x = Some y" for f :: "oph_workflow_task \<Rightarrow> oph_workflow_task option" and xs
    using that by (induction xs) fastforce+
  moreover have "\<exists>b. is_op t OPH_OPERATOR_ENDIF = Some b" if "t \<in> set (take (w_tasks_num w) (w_tasks w))" for t
    using that assms by (auto simp: selection_graph_def operators_ok_def list_all_iff is_op_def)
  ultimately show ?thesis unfolding skip_siblings_def by fastforce
qed

lemma if_impl_returns:
  assumes r: "selection_ready fuel D w i"
    and args: "t_is_skipped (w_tasks w ! i) \<or> if_args_loop fuel i (t_arguments (w_tasks w ! i)) w None \<noteq> None"
  shows "\<exists>rc w' e'. oph_if_impl fuel truth i (w, e) = Some (rc, w', e') \<and> accounted OPH_ODB_STATUS_UNSELECTED w w'"
proof (cases "t_is_skipped (w_tasks w ! i)")
  case True
  then show ?thesis using skip_block_returns [OF r, of True e] by (auto simp: oph_if_impl_def)
next
  case False
  then obtain ok u c where u: "if_args_loop fuel i (t_arguments (w_tasks w ! i)) w None = Some (ok, u, c)" using args by auto
  note wu = if_args_loop_accounted [OF u, of OPH_ODB_STATUS_UNSELECTED] and gu = if_args_loop_graph [OF u]
  let ?v = "upd_task (\<lambda>t. t\<lparr>t_is_skipped := True\<rparr>) i u"
  have "selection_ready fuel D ?v i"
    using selection_ready_cong [OF r same_graph_trans [OF gu same_graph_upd]] by simp
  then obtain w1 e1 where w1: "skip_block fuel i False (?v, e) = Some (w1, e1)" "accounted OPH_ODB_STATUS_UNSELECTED ?v w1"
    using skip_block_returns by blast
  have "accounted OPH_ODB_STATUS_UNSELECTED w (upd_task (\<lambda>t. t\<lparr>t_is_skipped := False\<rparr>) i w1)"
    by (rule accounted_trans [OF wu accounted_trans [OF accounted_trans [OF _ w1(2)]]]) (simp_all add: upd_task_accounted)
  moreover obtain w2 where w2: "skip_siblings i u = Some w2" "accounted OPH_ODB_STATUS_UNSELECTED w w2"
    using skip_siblings_returns [of u i] selection_graph_cong [OF _ gu] r accounted_trans [OF wu skip_siblings_accounted]
    by (fastforce simp: selection_ready_def)
  ultimately show ?thesis
    using False u wu w1(1) w2 by (auto simp: oph_if_impl_def split: option.splits bool.splits)
qed

lemma else_impl_returns:
  assumes "selection_ready fuel D w i"
  shows "\<exists>rc w' e'. oph_else_impl fuel i (w, e) = Some (rc, w', e') \<and> accounted OPH_ODB_STATUS_UNSELECTED w w'"
  using skip_block_returns [OF assms, of False e] by (auto simp: oph_else_impl_def accounted_refl)

lemma accounted_exact:
  assumes "accounted OPH_ODB_STATUS_UNSELECTED w w'" and "w_residual_tasks_num w = unfinished w"
  shows "w_residual_tasks_num w' = unfinished w' \<and> length (w_tasks w') = length (w_tasks w) \<and>
    (\<forall>j < length (w_tasks w). t_status (w_tasks w' ! j) = t_status (w_tasks w ! j) \<or> t_status (w_tasks w' ! j) = OPH_ODB_STATUS_UNSELECTED)"
  using assms by (auto simp: accounted_def list_all2_conv_all_nth)

section \<open>Lemmas on the values\<close>

lemma count_subparams_joinc:
  assumes "vs \<noteq> []" and "\<forall>v\<in>set vs. v \<noteq> [] \<and> CHR ''|'' \<notin> set v"
  shows "count_subparams (joinc CHR ''|'' vs) = length vs"
  using assms
proof (induction "CHR ''|''" vs rule: joinc.induct)
  case (2 p)
  then show ?case by (subst count_subparams.simps) (simp add: strchr_None)
next
  case (3 p q ps)
  have "strchr (p @ CHR ''|'' # joinc CHR ''|'' (q # ps)) CHR ''|'' = Some (CHR ''|'' # joinc CHR ''|'' (q # ps))"
    using 3(3) by (simp add: cstr)
  moreover have "joinc CHR ''|'' (q # ps) \<noteq> []" using 3(3) by (cases ps) auto
  ultimately show ?case using 3 by (subst count_subparams.simps) simp
qed simp

lemma input_loop_plain:
  assumes "\<forall>v\<in>set toks. length v \<le> OPH_WORKFLOW_MAX_STRING" and "\<forall>v\<in>set toks. \<forall>x. lookup v = Some x \<longrightarrow> CHR ''|'' \<notin> set x"
  shows "input_loop len lookup vs toks = Input_Parsed (vs @ map (\<lambda>v. case lookup v of None \<Rightarrow> v | Some x \<Rightarrow> x) toks)"
  using assms by (induction toks arbitrary: vs) (auto simp: Let_def split: option.splits)

section \<open>Properties\<close>


definition demo_for :: oph_workflow where
  [code_defs]: "demo_for = empty_workflow\<lparr>w_tasks :=
     [zero_task\<lparr>t_operator := Some ''oph_for'', t_parent := - 1, t_dependents_indexes := [1],
        t_arguments := [\<lparr>a_key = ''key'', a_value = Some ''i'', a_list = []\<rparr>, \<lparr>a_key = ''values'', a_value = Some ''a|b'', a_list = []\<rparr>]\<rparr>,
      zero_task\<lparr>t_parent := - 1, t_dependents_indexes := [2]\<rparr>,
      zero_task\<lparr>t_operator := Some ''oph_endfor'', t_parent := 0\<rparr>, zero_task],
     w_tasks_num := 3, w_residual_tasks_num := 3, w_sessionid := Some ''s''\<rparr>"

definition run_task :: "nat \<Rightarrow> oph_workflow \<Rightarrow> oph_workflow" where
  [code_defs]: "run_task = upd_task (\<lambda>t. t\<lparr>t_status := OPH_ODB_STATUS_COMPLETED\<rparr>)"

lemma run_task_frame: "loop_frame N rank p i k rest u \<Longrightarrow> loop_frame N rank p i k rest (run_task j u)"
proof (rule loop_frame_cong)
  assume f: "loop_frame N rank p i k rest u"
  have nth: "w_tasks (run_task j u) ! l = (if l = j \<and> l < length (w_tasks u) then (w_tasks u ! l)\<lparr>t_status := 12\<rparr> else w_tasks u ! l)" for l
    by (cases "j < length (w_tasks u)") (auto simp: run_task_def upd_task_def nth_list_update OPH_ODB_STATUS_COMPLETED_def list_update_beyond)
  have len: "length (w_tasks (run_task j u)) = length (w_tasks u)" by (simp add: run_task_def upd_task_def)
  have "snapshot_ok N k u" "idle_ranked N rank u" using f by (simp_all add: loop_frame_def)
  then show "snapshot_ok N k (run_task j u)" "idle_ranked N rank (run_task j u)"
    using snapshot_ok_cong [of N "run_task j u" u k] nth len by (auto simp: idle_ranked_def)
  show "t_parent (w_tasks (run_task j u) ! i) = int p" "set (t_dependents_indexes (w_tasks (run_task j u) ! p)) \<subseteq> {0..<int N}"
    using f nth by (auto simp: loop_frame_def)
qed (simp_all add: run_task_def upd_task_def)


text \<open>
  C21: \<open>oph_if_impl\<close> and \<open>oph_else_impl\<close> return and keep the count of the residual tasks exact. For a task of a workflow whose dependents are
  valid indexes of an acyclic graph, whose tasks all have an operator and whose parents are ancestors of their children (as
  \<open>oph_workflow_validate_fco\<close> sets them): with at least \<open>(tasks_num + 1) * (D + 1)\<close> levels of recursion, where \<open>D\<close> bounds the numbers of
  dependents, and with arguments of the \<open>oph_if\<close> task that are not null and whose substitution of variables returns, both operators return; and if
  \<open>residual_tasks_num\<close> was the number of the unfinished ones of the \<open>tasks_num\<close> tasks before, it is so after, whatever code is returned and
  whichever tasks are left out, and the status of a task changes only to \<open>OPH_ODB_STATUS_UNSELECTED\<close>.\<close>

theorem selection_keeps_residual:
  assumes "selection_graph w" and "i < w_tasks_num w" and "\<forall>j < w_tasks_num w. length (t_dependents_indexes (w_tasks w ! j)) \<le> D"
    and "Suc (w_tasks_num w) * Suc D \<le> fuel" and "w_residual_tasks_num w = unfinished w"
  shows "(t_is_skipped (w_tasks w ! i) \<or> if_args_loop fuel i (t_arguments (w_tasks w ! i)) w None \<noteq> None \<longrightarrow>
      (\<exists>rc w' e'. oph_if_impl fuel truth i (w, e) = Some (rc, w', e') \<and>
        w_residual_tasks_num w' = unfinished w' \<and> length (w_tasks w') = length (w_tasks w) \<and>
        (\<forall>j < length (w_tasks w). t_status (w_tasks w' ! j) = t_status (w_tasks w ! j) \<or> t_status (w_tasks w' ! j) = OPH_ODB_STATUS_UNSELECTED))) \<and>
    (\<exists>rc w' e'. oph_else_impl fuel i (w, e) = Some (rc, w', e') \<and>
        w_residual_tasks_num w' = unfinished w' \<and> length (w_tasks w') = length (w_tasks w) \<and>
        (\<forall>j < length (w_tasks w). t_status (w_tasks w' ! j) = t_status (w_tasks w ! j) \<or> t_status (w_tasks w' ! j) = OPH_ODB_STATUS_UNSELECTED))"
proof -
  have r: "selection_ready fuel D w i" using assms(1-4) by (simp add: selection_ready_def)
  show ?thesis
    using if_impl_returns [OF r, of truth e] else_impl_returns [OF r, of e] accounted_exact [OF _ assms(5)] by blast
qed

definition demo_if :: oph_workflow where
  [code_defs]: "demo_if = empty_workflow\<lparr>w_tasks :=
     [zero_task\<lparr>t_operator := Some ''oph_if'', t_parent := - 1, t_dependents_indexes := [1],
        t_arguments := [\<lparr>a_key = ''condition'', a_value = Some ''0'', a_list = []\<rparr>]\<rparr>,
      zero_task\<lparr>t_operator := Some ''oph_delete'', t_parent := - 1, t_dependents_indexes := [2]\<rparr>,
      zero_task\<lparr>t_operator := Some ''oph_else'', t_parent := 0, t_dependents_indexes := [3]\<rparr>,
      zero_task\<lparr>t_operator := Some ''oph_endif'', t_parent := 2\<rparr>, zero_task],
     w_tasks_num := 4, w_residual_tasks_num := 4\<rparr>"

lemma demo_if_graph: "selection_graph demo_if"
proof -
  have n: "w_tasks_num demo_if = 4" by code_simp
  have e: "task_edges demo_if = {(0, 1), (1, 2), (2, 3)}"
    by (auto simp: task_edges_def dag_edges_def demo_if_def zero_task_def less_Suc_eq numeral_eq_Suc)
  then have "task_edges demo_if \<subseteq> less_than" by auto
  then have "acyclic (task_edges demo_if)" by (rule acyclic_subset [OF wf_acyclic [OF wf_less_than]])
  moreover have "(0, 2) \<in> (task_edges demo_if)\<^sup>+" "(2, 3) \<in> (task_edges demo_if)\<^sup>+" unfolding e by (auto intro: trancl_into_trancl)
  moreover have "indexes_ok 4 (w_tasks demo_if)" "operators_ok 4 (w_tasks demo_if)" by code_simp+
  ultimately show ?thesis
    by (auto simp: selection_graph_def n parents_ok_def demo_if_def zero_task_def less_Suc_eq numeral_eq_Suc)
qed

theorem selection_keeps_residual_witness:
  "\<exists>w'. oph_if_impl 10 (\<lambda>_. Some False) 0 (demo_if, True) = Some (OPH_SERVER_OK, w', True) \<and>
     map t_status (w_tasks w') = [0, 26, 0, 0, 0] \<and> w_residual_tasks_num w' = unfinished w'"
proof -
  have "map_option (\<lambda>(rc, w', e). (rc, map t_status (w_tasks w'), e)) (oph_if_impl 10 (\<lambda>_. Some False) 0 (demo_if, True)) =
      Some (OPH_SERVER_OK, [0, 26, 0, 0, 0], True)" by code_simp
  then obtain w' where w': "oph_if_impl 10 (\<lambda>_. Some False) 0 (demo_if, True) = Some (OPH_SERVER_OK, w', True)"
      "map t_status (w_tasks w') = [0, 26, 0, 0, 0]" by auto
  have "0 < w_tasks_num demo_if" "Suc (w_tasks_num demo_if) * Suc 1 \<le> 10" "w_residual_tasks_num demo_if = unfinished demo_if"
    "\<forall>j < w_tasks_num demo_if. length (t_dependents_indexes (w_tasks demo_if ! j)) \<le> 1"
    "if_args_loop 10 0 (t_arguments (w_tasks demo_if ! 0)) demo_if None \<noteq> None" by code_simp+
  with w' show ?thesis using selection_keeps_residual [OF demo_if_graph, of 0 1 10 "\<lambda>_. Some False" True] by auto
qed

text \<open>
  Remark: \<open>oph_check_input_response\<close> returns one value per item of the argument, in order: what the responses of the previous tasks
  give for the item, or the item itself, with its expressions evaluated; for items that are not empty and not longer than
  the buffer, as long as no response gives more than one value.\<close>

theorem check_input_values:
  assumes "vs \<noteq> []" and "\<forall>v\<in>set vs. v \<noteq> [] \<and> CHR ''|'' \<notin> set v \<and> length v \<le> OPH_WORKFLOW_MAX_STRING"
    and "\<forall>v\<in>set vs. \<forall>x. response_value extract w i v = Some x \<longrightarrow> CHR ''|'' \<notin> set x"
  shows "oph_check_input_response (Suc fuel) extract eval w i (joinc CHR ''|'' vs) =
    map_option Inr (those (map (\<lambda>v. eval_value eval (case response_value extract w i v of None \<Rightarrow> v | Some x \<Rightarrow> x)) vs))"
proof -
  have "splitc CHR ''|'' (joinc CHR ''|'' vs) = vs" using assms(1,2) by (intro splitc_joinc) auto
  then have tok: "strtok CHR ''|'' (joinc CHR ''|'' vs) = vs" using assms(2) by (auto simp: strtok_def filter_id_conv)
  moreover have "joinc CHR ''|'' vs \<noteq> []" using assms(1,2) by (cases "(CHR ''|'', vs)" rule: joinc.cases) auto
  moreover have "count_subparams (joinc CHR ''|'' vs) = length vs" using count_subparams_joinc [OF assms(1)] assms(2) by blast
  ultimately show ?thesis
    using input_loop_plain [of vs "response_value extract w i" "length (joinc CHR ''|'' vs)" "[]"] assms(2,3)
    by (simp add: oph_check_input_response_def comp_def)
qed

theorem check_input_values_witness:
  "oph_check_input_response 1 (\<lambda>v _. if v = ''[x]'' then Some ''7'' else None) (\<lambda>_. Some ''2.000000'')
     (demo_for\<lparr>w_tasks := (w_tasks demo_for)[1 := (w_tasks demo_for ! 1)\<lparr>t_response := Some ''{}''\<rparr>]\<rparr>) 2 ''a|[x]|EVAL(1+1)'' =
   Some (Inr [''a'', ''7'', ''2.000000''])"
proof -
  let ?ex = "\<lambda>v _. if v = ''[x]'' then Some ''7'' else None"
  let ?w = "demo_for\<lparr>w_tasks := (w_tasks demo_for)[1 := (w_tasks demo_for ! 1)\<lparr>t_response := Some ''{}''\<rparr>]\<rparr>"
  have j: "joinc CHR ''|'' [''a'', ''[x]'', ''EVAL(1+1)''] = ''a|[x]|EVAL(1+1)''" by simp
  have r: "response_value ?ex ?w 2 ''a'' = None" "response_value ?ex ?w 2 ''[x]'' = Some ''7''" "response_value ?ex ?w 2 ''EVAL(1+1)'' = None"
    by code_simp+
  have e: "eval_value (\<lambda>_. Some ''2.000000'') ''a'' = Some ''a''" "eval_value (\<lambda>_. Some ''2.000000'') ''7'' = Some ''7''"
      "eval_value (\<lambda>_. Some ''2.000000'') ''EVAL(1+1)'' = Some ''2.000000''"
    by code_simp+
  show ?thesis
    using check_input_values [of "[''a'', ''[x]'', ''EVAL(1+1)'']" ?ex ?w 2 0 "\<lambda>_. Some ''2.000000''"] r e
    unfolding j by (simp add: OPH_WORKFLOW_MAX_STRING_def)
qed

text \<open>
  Remark: when a response gives several values for an item that comes fourth, the items before it are not all kept: the
  second and the third are lost.\<close>

theorem expanded_values_lost:
  "oph_check_input_response 2 (\<lambda>v _. if v = ''[x]'' then Some ''1|2'' else None) eval
     (demo_for\<lparr>w_tasks := (w_tasks demo_for)[1 := (w_tasks demo_for ! 1)\<lparr>t_response := Some ''{}''\<rparr>]\<rparr>) 2 ''a|b|c|[x]'' =
   Some (Inr [''a'', ''1'', ''2''])"
  by code_simp

end
