(* ===== verification/Workflow_Notify.thy ===== *)
theory Workflow_Notify
  imports Flow_Control Args_Parser Task_Params
begin

text \<open>
  The notifications of \<^verbatim>\<open>src/src/oph_workflow_engine.c\<close> (\<open>oph_workflow_notify\<close>): a running task reports its status, the engine
  updates the task and the workflow, hands the outputs over to the tasks that depend on it, and decides what is executed next.
  The model has the parsing of the notification, the status of tasks and of the children of a massive operation, retries,
  dependencies, exit actions, the trace of the outputs and the final task; of \<open>oph_workflow_execute\<close> it has the choice of the tasks that
  are ready and the success of a single operation. The JSON documents that are written on the way, the database, the logs and
  the pages of the session are not part of the model. The build is the default one (\<open>LEVEL1\<close>), without OpenID.
\<close>

section \<open>Data\<close>

definition OPH_ODB_STATUS_PENDING :: int where [code_defs]: "OPH_ODB_STATUS_PENDING = 1"
definition OPH_ODB_STATUS_WAIT :: int where [code_defs]: "OPH_ODB_STATUS_WAIT = 2"
definition OPH_ODB_STATUS_RUNNING :: int where [code_defs]: "OPH_ODB_STATUS_RUNNING = 3"
definition OPH_ODB_STATUS_START :: int where [code_defs]: "OPH_ODB_STATUS_START = 4"
definition OPH_ODB_STATUS_UNSET_ENV :: int where [code_defs]: "OPH_ODB_STATUS_UNSET_ENV = 11"
definition OPH_ODB_STATUS_ERROR :: int where [code_defs]: "OPH_ODB_STATUS_ERROR = 13"
definition OPH_ODB_STATUS_PENDING_ERROR :: int where [code_defs]: "OPH_ODB_STATUS_PENDING_ERROR = 14"
definition OPH_ODB_STATUS_START_ERROR :: int where [code_defs]: "OPH_ODB_STATUS_START_ERROR = 16"
definition OPH_ODB_STATUS_SKIPPED :: int where [code_defs]: "OPH_ODB_STATUS_SKIPPED = 24"

lemmas status_defs =
  OPH_ODB_STATUS_UNKNOWN_def OPH_ODB_STATUS_PENDING_def OPH_ODB_STATUS_WAIT_def OPH_ODB_STATUS_RUNNING_def OPH_ODB_STATUS_START_def
  OPH_ODB_STATUS_UNSET_ENV_def OPH_ODB_STATUS_COMPLETED_def OPH_ODB_STATUS_ERROR_def OPH_ODB_STATUS_PENDING_ERROR_def
  OPH_ODB_STATUS_START_ERROR_def OPH_ODB_STATUS_SKIPPED_def OPH_ODB_STATUS_ABORTED_def OPH_ODB_STATUS_UNSELECTED_def

text \<open>What a notification says. The other pairs are outputs of the task.\<close>

record notification =
  n_jobid :: int
  n_status :: int
  n_parentid :: int
  n_taskindex :: int
  n_lighttaskindex :: int
  n_markerid :: int
  n_sessionid :: "string option"
  n_query :: "string option"
  n_outputs :: "(string \<times> string) list"

text \<open>
  What the engine reads beside the workflow: the number of automatic retries, whether the response file of the task is missing and
  whether one could be written.
\<close>

record notify_conf =
  nc_auto_retry :: int
  nc_missing :: bool
  nc_saved :: bool

text \<open>The local variables that steer the rest of the function.\<close>

record notify_vars =
  nv_status :: int
  nv_update_wf_data :: int
  nv_update_task_data :: int
  nv_update_light_task_data :: bool
  nv_task_completed :: bool
  nv_final :: bool
  nv_retry_task_execution :: bool
  nv_check_for_constraint :: bool
  nv_massive_completed :: bool

text \<open>A step goes on, returns with a response code, or is undefined (a null pointer, an index out of an array).\<close>

datatype notify_outcome =
    Notify_Go oph_workflow notify_vars
  | Notify_Stop server_code oph_workflow
  | Notify_Undefined

fun notify_then :: "notify_outcome \<Rightarrow> (oph_workflow \<Rightarrow> notify_vars \<Rightarrow> notify_outcome) \<Rightarrow> notify_outcome" where
  "notify_then (Notify_Go w v) f = f w v"
| "notify_then (Notify_Stop rc w) f = Notify_Stop rc w"
| "notify_then Notify_Undefined f = Notify_Undefined"

section \<open>Reading a notification\<close>

definition is_key :: "string \<Rightarrow> string \<Rightarrow> bool" where
  [code_defs]: "is_key k name \<longleftrightarrow> strncmp_eq k name OPH_MAX_STRING_SIZE"

definition to_int :: "string \<Rightarrow> int" where
  [code_defs]: "to_int s = c_int (strtol s)"

text \<open>The loop over the pairs; \<open>None\<close> is a message that is only logged.\<close>

fun notify_args :: "oph_argument list \<Rightarrow> notification \<Rightarrow> notification option" where
  "notify_args [] n = Some n"
| "notify_args (a # args) n =
     (let k = arg_key a; v = arg_value a in
      if is_key k ''jobid'' then notify_args args (n\<lparr>n_jobid := to_int v\<rparr>)
      else if is_key k ''status'' then notify_args args (n\<lparr>n_status := to_int v\<rparr>)
      else if is_key k ''parentid'' then notify_args args (n\<lparr>n_parentid := to_int v\<rparr>)
      else if is_key k ''taskindex'' then notify_args args (n\<lparr>n_taskindex := to_int v\<rparr>)
      else if is_key k ''lighttaskindex'' then notify_args args (n\<lparr>n_lighttaskindex := to_int v\<rparr>)
      else if is_key k ''sessionid'' then notify_args args (n\<lparr>n_sessionid := Some v\<rparr>)
      else if is_key k ''markerid'' then notify_args args (n\<lparr>n_markerid := to_int v\<rparr>)
      else if is_key k ''info'' then None
      else if is_key k ''query'' then notify_args args (n\<lparr>n_query := Some v\<rparr>)
      else notify_args args (n\<lparr>n_outputs := n_outputs n @ [(k, v)]\<rparr>))"

definition no_notification :: notification where
  [code_defs]: "no_notification = \<lparr>n_jobid = - 1, n_status = - 1, n_parentid = - 1, n_taskindex = - 1, n_lighttaskindex = - 1,
     n_markerid = - 1, n_sessionid = None, n_query = None, n_outputs = []\<rparr>"

text \<open>The notification of a string, or the response code with which the function returns.\<close>

definition notify_parse :: "string \<Rightarrow> server_code + notification" where
  [code_defs]: "notify_parse data =
     (case oph_parse_query data of
        (rc, args, _) \<Rightarrow>
          if rc \<noteq> OPH_SERVER_OK then Inl OPH_SERVER_SYSTEM_ERROR
          else (case notify_args args no_notification of
                  None \<Rightarrow> Inl OPH_SERVER_OK
                | Some n \<Rightarrow>
                    if n_jobid n < 0 \<or> n_status n < 0 \<or> n_parentid n < 0 \<or> n_taskindex n < 0 \<or> n_markerid n < 0 \<or> n_sessionid n = None
                    then Inl OPH_SERVER_WRONG_PARAMETER_ERROR
                    else Inr n))"

text \<open>The status that counts for the workflow; \<open>None\<close> is a code that is not one of a job.\<close>

definition notify_status :: "int \<Rightarrow> int option" where
  [code_defs]: "notify_status s =
     (if s = OPH_ODB_STATUS_PENDING \<or> s = OPH_ODB_STATUS_RUNNING \<or> s = OPH_ODB_STATUS_COMPLETED \<or> s = OPH_ODB_STATUS_ERROR then Some s
      else if s = OPH_ODB_STATUS_WAIT \<or> OPH_ODB_STATUS_START \<le> s \<and> s \<le> OPH_ODB_STATUS_UNSET_ENV then Some OPH_ODB_STATUS_RUNNING
      else if s = OPH_ODB_STATUS_UNSELECTED then Some OPH_ODB_STATUS_COMPLETED
      else if OPH_ODB_STATUS_PENDING_ERROR \<le> s \<and> s \<le> OPH_ODB_STATUS_ABORTED \<or> s = 27 then Some OPH_ODB_STATUS_ERROR
      else None)"

text \<open>The notification that the engine itself builds for a task (\<open>OPH_WORKFLOW_BASE_NOTIFICATION\<close>).\<close>

definition base_notification :: "int \<Rightarrow> int \<Rightarrow> int \<Rightarrow> int \<Rightarrow> int \<Rightarrow> string \<Rightarrow> int \<Rightarrow> string \<Rightarrow> string" where
  [code_defs]: "base_notification idjob task_index light_task_index task_idjob status sessionid markerid save =
     ''parentid='' @ show_int idjob @ '';taskindex='' @ show_int task_index @ '';lighttaskindex='' @ show_int light_task_index @
     '';jobid='' @ show_int task_idjob @ '';status='' @ show_int status @ '';sessionid='' @ sessionid @
     '';markerid='' @ show_int markerid @ '';save='' @ save @ '';''"

section \<open>Outputs\<close>

text \<open>The last cube, data folder and working folder become those of the workflow.\<close>

fun save_known :: "(string \<times> string) list \<Rightarrow> oph_workflow \<Rightarrow> oph_workflow" where
  "save_known [] w = w"
| "save_known ((k, x) # outs) w =
     save_known outs
      (if is_key k ''cube'' then w\<lparr>w_cube := Some (take OPH_MAX_STRING_SIZE x)\<rparr>
       else if is_key k ''cdd'' then w\<lparr>w_cdd := Some (take OPH_MAX_STRING_SIZE x)\<rparr>
       else if is_key k ''cwd'' then w\<lparr>w_cwd := Some (take OPH_MAX_STRING_SIZE x)\<rparr>
       else w)"

text \<open>A file takes the place of the cube; the index of that pair, or -1.\<close>

definition file_output :: "(string \<times> string) list \<Rightarrow> (string \<times> string) list \<times> int" where
  [code_defs]: "file_output outs =
     (case find (\<lambda>i. is_key (fst (outs ! i)) ''file'') [0..<length outs] of
        None \<Rightarrow> (outs, - 1)
      | Some i \<Rightarrow>
          (case find (\<lambda>j. i \<noteq> j \<and> is_key (fst (outs ! j)) ''cube'') [0..<length outs] of
             Some j \<Rightarrow> (outs[j := (fst (outs ! j), snd (outs ! i))], int j)
           | None \<Rightarrow> (outs @ [(''cube'', snd (outs ! i))], int (length outs))))"

section \<open>Dependencies\<close>

text \<open>A dependency on one output that meets a massive operation with several of them: the dependent task is aborted.\<close>

definition abort_dependent :: "nat \<Rightarrow> oph_workflow \<Rightarrow> notify_vars \<Rightarrow> notify_outcome" where
  [code_defs]: "abort_dependent dep w v =
     (let w = upd_task (\<lambda>t. t\<lparr>t_status := OPH_ODB_STATUS_ABORTED\<rparr>) dep w in
      case oph_workflow_set_status (Suc (w_tasks_num w)) OPH_ODB_STATUS_ABORTED (t_dependents_indexes (w_tasks w ! dep)) w of
        None \<Rightarrow> Notify_Undefined
      | Some (rc, w) \<Rightarrow>
          if rc \<noteq> OPH_WORKFLOW_EXIT_SUCCESS then Notify_Stop OPH_SERVER_SYSTEM_ERROR w
          else Notify_Go (w\<lparr>w_status := OPH_ODB_STATUS_ERROR\<rparr>) (v\<lparr>nv_check_for_constraint := True\<rparr>))"

definition find_argument :: "string \<Rightarrow> oph_workflow_arg list \<Rightarrow> nat option" where
  [code_defs]: "find_argument key args = find (\<lambda>kk. a_key (args ! kk) = key) [0..<length args]"

text \<open>
  An output enters the ordered list of the argument, which is added when it is missing; a task without arguments has no arrays
  to be enlarged.
\<close>

definition add_output :: "nat \<Rightarrow> oph_workflow_dep \<Rightarrow> string option \<Rightarrow> oph_workflow \<Rightarrow> notify_vars \<Rightarrow> notify_outcome" where
  [code_defs]: "add_output dep d object w v =
     (let args = t_arguments (w_tasks w ! dep) in
      if args = [] then Notify_Stop OPH_SERVER_SYSTEM_ERROR w
      else
      (case d_argument d of
         None \<Rightarrow> Notify_Undefined
       | Some key \<Rightarrow>
           (let (kk, args) = (case find_argument key args of
                                Some kk \<Rightarrow> (kk, args)
                              | None \<Rightarrow> (length args, args @ [\<lparr>a_key = key, a_value = None, a_list = []\<rparr>])) in
            case (d_order d, object) of
              (Some order, Some obj) \<Rightarrow>
                Notify_Go (upd_task (\<lambda>t. t\<lparr>t_arguments :=
                  args[kk := (args ! kk)\<lparr>a_list := oph_workflow_add_to_list order obj (a_list (args ! kk))\<rparr>]\<rparr>) dep w) v
            | _ \<Rightarrow> Notify_Stop OPH_SERVER_SYSTEM_ERROR (upd_task (\<lambda>t. t\<lparr>t_arguments := args\<rparr>) dep w))))"

text \<open>The first output of the task \<open>i\<close> that the dependency asks for.\<close>

fun feed_outputs ::
    "nat \<Rightarrow> nat \<Rightarrow> oph_workflow_dep \<Rightarrow> string \<Rightarrow> (string option \<times> string option) list \<Rightarrow> oph_workflow \<Rightarrow> notify_vars \<Rightarrow> notify_outcome" where
  "feed_outputs i dep d type [] w v = Notify_Go w v"
| "feed_outputs i dep d type ((k, x) # outs) w v =
     (case (k, d_output_argument d) of
        (Some key, Some output_argument) \<Rightarrow>
          if \<not> is_key key output_argument then feed_outputs i dep d type outs w v
          else if length (t_light_tasks (w_tasks w ! i)) > 1 \<and> strncasecmp_eq type ''single'' OPH_MAX_STRING_SIZE \<and>
             \<not> t_retry_num (w_tasks w ! dep) < 0
          then abort_dependent dep w v
          else add_output dep d x w v
      | _ \<Rightarrow> Notify_Undefined)"

text \<open>The dependencies of one task on the task \<open>i\<close>; they are counted down and cleared.\<close>

definition clear_dep :: "nat \<Rightarrow> oph_workflow_task \<Rightarrow> oph_workflow_task" where
  [code_defs]: "clear_dep j t = t\<lparr>t_residual_deps_num := t_residual_deps_num t - 1, t_deps := (t_deps t)[j := (t_deps t ! j)\<lparr>d_task_index := - 1\<rparr>]\<rparr>"

fun deps_loop :: "nat \<Rightarrow> nat \<Rightarrow> nat list \<Rightarrow> oph_workflow \<Rightarrow> notify_vars \<Rightarrow> notify_outcome" where
  "deps_loop i dep [] w v = Notify_Go w v"
| "deps_loop i dep (j # js) w v =
     (let d = t_deps (w_tasks w ! dep) ! j in
      if d_task_index d \<noteq> int i then deps_loop i dep js w v
      else
      (case d_type d of
         None \<Rightarrow> Notify_Undefined
       | Some type \<Rightarrow>
           (let embedded = strncasecmp_eq type ''embedded'' OPH_MAX_STRING_SIZE in
            notify_then
              (if embedded then Notify_Go w v else feed_outputs i dep d type (t_outputs (w_tasks w ! i)) w v)
              (\<lambda>w v.
                 if \<not> embedded \<and> nv_check_for_constraint v then Notify_Go w v
                 else if t_residual_deps_num (w_tasks w ! dep) = 0 then Notify_Stop OPH_SERVER_SYSTEM_ERROR w
                 else deps_loop i dep js (upd_task (clear_dep j) dep w) v))))"

fun dependents_loop :: "nat \<Rightarrow> int list \<Rightarrow> oph_workflow \<Rightarrow> notify_vars \<Rightarrow> notify_outcome" where
  "dependents_loop i [] w v = Notify_Go w v"
| "dependents_loop i (dep # deps) w v =
     (if dep < 0 \<or> dep \<ge> int (w_tasks_num w) then dependents_loop i deps w v
      else if \<not> valid_index w dep then Notify_Undefined
      else notify_then (deps_loop i (nat dep) [0..<length (t_deps (w_tasks w ! nat dep))] w v) (dependents_loop i deps))"

section \<open>Exit actions\<close>

text \<open>Whether the item occurs in the value, at the end of the value or before a separator.\<close>

function contains_item :: "string \<Rightarrow> string \<Rightarrow> bool" where
  "contains_item p s =
     (if p = [] then True
      else (case strstr s p of
              None \<Rightarrow> False
            | Some r \<Rightarrow>
                (let rest = drop (length p) r in
                 if rest = [] \<or> hd rest = CHR ''|'' then True else contains_item p rest)))"
  by pat_completeness auto
termination
proof (relation "measure (\<lambda>(p, s). length s)")
  fix p s r rest :: string
  assume "p \<noteq> []" and "strstr s p = Some r" and "rest = drop (length p) r" and "\<not> (rest = [] \<or> hd rest = CHR ''|'')"
  then show "((p, rest), p, s) \<in> measure (\<lambda>(p, s). length s)"
    using strstr_length [of s p r] by (cases p) auto
qed simp

declare contains_item.simps [simp del]

text \<open>An object that the task had as an input is not an output of its own.\<close>

definition is_input :: "oph_workflow_task \<Rightarrow> string \<Rightarrow> string \<Rightarrow> bool option" where
  [code_defs]: "is_input t target p =
     (case find (\<lambda>i. is_key (a_key (t_arguments t ! i)) target) [0..<length (t_arguments t)] of
        None \<Rightarrow> Some False
      | Some i \<Rightarrow>
          if t_light_tasks t \<noteq> [] then
            fold (\<lambda>l r. case r of
                Some False \<Rightarrow>
                  (if length (l_arguments l) \<le> i then None
                   else (case snd (l_arguments l ! i) of None \<Rightarrow> None | Some x \<Rightarrow> Some (x = p)))
              | _ \<Rightarrow> r)
              (t_light_tasks t) (Some False)
          else (case a_value (t_arguments t ! i) of None \<Rightarrow> Some False | Some x \<Rightarrow> Some (contains_item p x)))"

text \<open>The identifiers of the objects, from the last one to the first one.\<close>

lemma strrchr_cut_length: "strrchr_cut c s = Some (k, r) \<Longrightarrow> length k < length s"
  by (induction s arbitrary: k r) (auto split: option.splits if_splits)

function exit_ids :: "string \<Rightarrow> int list" where
  "exit_ids s =
     (case strrchr_cut CHR ''/'' s of
        None \<Rightarrow> []
      | Some (_, object) \<Rightarrow>
          to_int object # (case strrchr_cut CHR ''|'' s of None \<Rightarrow> [] | Some (front, _) \<Rightarrow> exit_ids front))"
  by pat_completeness auto
termination
  by (relation "measure length") (auto dest: strrchr_cut_length)

declare exit_ids.simps [simp del]

fun append_all :: "oph_trash \<Rightarrow> int list \<Rightarrow> oph_trash option" where
  "append_all trash [] = Some trash"
| "append_all trash (x # xs) = oph_trash_append trash None x \<bind> (\<lambda>(_, trash). append_all trash xs)"

text \<open>The objects that the exit action of the task \<open>t\<close> concerns: the outputs with the key \<open>target\<close> that are neither files nor inputs.\<close>

definition exit_objects :: "oph_workflow_task \<Rightarrow> string \<Rightarrow> string list option" where
  [code_defs]: "exit_objects t target =
     (if list_ex (\<lambda>(k, _). k = None) (t_outputs t) then None
      else (case find (\<lambda>k. is_key (the (fst (t_outputs t ! k))) target) [0..<length (t_outputs t)] of
              None \<Rightarrow> Some []
            | Some k \<Rightarrow>
                if int k = t_outputs_file t then Some []
                else (case snd (t_outputs t ! k) of
                        None \<Rightarrow> None
                      | Some x \<Rightarrow>
                          (let items = strtok CHR ''|'' (take (OPH_MAX_STRING_SIZE - 1) x) in
                           map_option (\<lambda>bs. map fst (filter (\<lambda>(_, b). \<not> b) (zip items bs))) (those (map (is_input t target) items))))))"

definition exit_operation :: "nat \<Rightarrow> oph_workflow \<Rightarrow> notify_vars \<Rightarrow> notify_outcome" where
  [code_defs]: "exit_operation i w v =
     (let t = w_tasks w ! i;
          add = (\<lambda>target trash put.
            case exit_objects t target of
              None \<Rightarrow> Notify_Undefined
            | Some objs \<Rightarrow>
                (let ids = exit_ids (joinc CHR ''|'' objs) in
                 if objs = [] \<or> ids = [] then Notify_Go w v
                 else (case append_all (case trash of None \<Rightarrow> oph_trash_create | Some tr \<Rightarrow> tr) ids of
                         None \<Rightarrow> Notify_Undefined
                       | Some tr \<Rightarrow> Notify_Go (put tr) v))) in
      if t_exit_action t = 1 then add ''cube'' (w_exit_cubes w) (\<lambda>tr. w\<lparr>w_exit_cubes := Some tr\<rparr>)
      else if t_exit_action t = 2 then add ''container_pid'' (w_exit_containers w) (\<lambda>tr. w\<lparr>w_exit_containers := Some tr\<rparr>)
      else Notify_Go w v)"

section \<open>The end of a task\<close>

definition some_running :: "oph_workflow \<Rightarrow> bool" where
  [code_defs]: "some_running w \<longleftrightarrow> list_ex (\<lambda>t. t_status t > OPH_ODB_STATUS_UNKNOWN \<and> t_status t < OPH_ODB_STATUS_COMPLETED)
     (take (w_tasks_num w) (w_tasks w))"

text \<open>After a success: whether it was the last task.\<close>

definition close_completed :: "oph_workflow \<Rightarrow> notify_vars \<Rightarrow> notify_outcome" where
  [code_defs]: "close_completed w v =
     (if w_status w = OPH_ODB_STATUS_ERROR
      then Notify_Go w (if w_residual_tasks_num w = 0 \<or> \<not> some_running w then v\<lparr>nv_final := True\<rparr> else v)
      else if w_residual_tasks_num w = 0
      then Notify_Go (if w_status w < nv_status v then w\<lparr>w_status := nv_status v\<rparr> else w) (v\<lparr>nv_final := True\<rparr>)
      else Notify_Go w (v\<lparr>nv_update_wf_data := 2\<rparr>))"

definition set_outputs :: "nat \<Rightarrow> (string \<times> string) list \<Rightarrow> oph_workflow \<Rightarrow> notify_vars \<Rightarrow> notify_outcome" where
  [code_defs]: "set_outputs i outs w v =
     (let t = w_tasks w ! i; (outs, outputs_file) = file_output outs in
      if t_outputs t \<noteq> [] then
        (if t_parallel_mode t = 0 \<and> (t_light_tasks t = [] \<or> t_residual_light_tasks_num t \<noteq> 0)
         then Notify_Stop OPH_SERVER_SYSTEM_ERROR w else Notify_Go w v)
      else Notify_Go (upd_task (\<lambda>t. t\<lparr>t_outputs := map (\<lambda>(k, x). (Some k, Some x)) outs, t_outputs_file := outputs_file\<rparr>) i w) v)"

definition complete_task :: "nat \<Rightarrow> (string \<times> string) list \<Rightarrow> oph_workflow \<Rightarrow> notify_vars \<Rightarrow> notify_outcome" where
  [code_defs]: "complete_task i outs w v =
     (let t = w_tasks w ! i;
          w = (if t_is_skipped t \<and> t_status t \<le> OPH_ODB_STATUS_COMPLETED
               then upd_task (\<lambda>t. t\<lparr>t_status := OPH_ODB_STATUS_UNSELECTED\<rparr>) i w else w);
          w = w\<lparr>w_residual_tasks_num := w_residual_tasks_num w - 1\<rparr>;
          w = save_known outs w in
      notify_then (set_outputs i outs w (v\<lparr>nv_task_completed := True\<rparr>)) (\<lambda>w v.
      notify_then (dependents_loop i (t_dependents_indexes (w_tasks w ! i)) w v) (\<lambda>w v.
      notify_then (exit_operation i w v) close_completed)))"

text \<open>The automatic retries that are left; the flag is false when none is.\<close>

definition auto_retry :: "int \<Rightarrow> oph_workflow_task \<Rightarrow> bool \<times> oph_workflow_task" where
  [code_defs]: "auto_retry n t =
     (if t_residual_auto_retry_num t = 0 then (True, t\<lparr>t_residual_auto_retry_num := 1 + n\<rparr>)
      else if t_residual_auto_retry_num t > 1 then (True, t\<lparr>t_residual_auto_retry_num := t_residual_auto_retry_num t - 1\<rparr>)
      else (False, t))"

definition restart_task :: "nat \<Rightarrow> oph_workflow_task \<Rightarrow> oph_workflow \<Rightarrow> notify_vars \<Rightarrow> notify_outcome" where
  [code_defs]: "restart_task i t w v =
     Notify_Go (w\<lparr>w_tasks := (w_tasks w)[i := t\<lparr>t_status := OPH_ODB_STATUS_UNKNOWN\<rparr>]\<rparr>)
       (v\<lparr>nv_update_wf_data := 0, nv_status := OPH_ODB_STATUS_RUNNING, nv_retry_task_execution := True\<rparr>)"

definition fail_task :: "notify_conf \<Rightarrow> nat \<Rightarrow> oph_workflow \<Rightarrow> notify_vars \<Rightarrow> notify_outcome" where
  [code_defs]: "fail_task conf i w v =
     (let t = w_tasks w ! i in
      if t_retry_num t = 0 then
        (case oph_workflow_set_status (Suc (w_tasks_num w)) OPH_ODB_STATUS_ABORTED (t_dependents_indexes t)
               (w\<lparr>w_residual_tasks_num := w_residual_tasks_num w - 1\<rparr>) of
           None \<Rightarrow> Notify_Undefined
         | Some (rc, w) \<Rightarrow>
             if rc \<noteq> OPH_WORKFLOW_EXIT_SUCCESS then Notify_Stop OPH_SERVER_SYSTEM_ERROR w
             else if w_residual_tasks_num w = 0
             then Notify_Go (if w_status w < OPH_ODB_STATUS_COMPLETED then w\<lparr>w_status := OPH_ODB_STATUS_COMPLETED\<rparr> else w)
                    (v\<lparr>nv_status := OPH_ODB_STATUS_COMPLETED, nv_final := True\<rparr>)
             else Notify_Go w (if w_status w = OPH_ODB_STATUS_ERROR \<and> \<not> some_running w then v\<lparr>nv_final := True\<rparr> else v))
      else if t_residual_retry_num t = 0 then Notify_Stop OPH_SERVER_SYSTEM_ERROR w
      else
      (let (again, t) = (if nc_auto_retry conf \<noteq> 0 \<and> t_is_marked_for_auto_retry t \<and> t_retry_num t = 1
                         then auto_retry (nc_auto_retry conf) t else (False, t)) in
       if again then restart_task i t w v
       else
       (let t = t\<lparr>t_residual_retry_num := t_residual_retry_num t - 1\<rparr> in
        if t_residual_retry_num t \<noteq> 0 then restart_task i t w v
        else
        (let w = w\<lparr>w_tasks := (w_tasks w)[i := t], w_residual_tasks_num := w_residual_tasks_num w - 1, w_status := nv_status v\<rparr> in
         Notify_Go w (if \<not> some_running w then v\<lparr>nv_final := True\<rparr> else v)))))"

text \<open>The outputs of the ended tasks, ordered by marker.\<close>

fun trace_insert :: "oph_workflow_task_out \<Rightarrow> oph_workflow_task_out list \<Rightarrow> oph_workflow_task_out list" where
  "trace_insert out [] = [out]"
| "trace_insert out (x # xs) =
     (if o_markerid x < o_markerid out then x # trace_insert out xs
      else if o_markerid x = o_markerid out then x # xs
      else out # x # xs)"

definition already_traced :: "int \<Rightarrow> oph_workflow_task_out list \<Rightarrow> bool" where
  [code_defs]: "already_traced markerid outs =
     (case dropWhile (\<lambda>out. o_markerid out < markerid) outs of [] \<Rightarrow> False | out # _ \<Rightarrow> o_markerid out = markerid)"

definition trace_output :: "nat \<Rightarrow> oph_workflow \<Rightarrow> notify_vars \<Rightarrow> notify_outcome" where
  [code_defs]: "trace_output i w v =
     (if nv_status v \<noteq> OPH_ODB_STATUS_COMPLETED \<and> nv_status v \<noteq> OPH_ODB_STATUS_ERROR then Notify_Go w v
      else if already_traced (t_markerid (w_tasks w ! i)) (w_output w) then Notify_Go w v
      else (case oph_workflow_save_task_output (w_tasks w ! i) of
              (_, out, t) \<Rightarrow> Notify_Go (w\<lparr>w_tasks := (w_tasks w)[i := t], w_output := trace_insert out (w_output w)\<rparr>) v))"

text \<open>The response is kept for a loop or a variable that depends on the task.\<close>

fun keep_response :: "nat \<Rightarrow> string \<Rightarrow> int list \<Rightarrow> oph_workflow \<Rightarrow> oph_workflow option" where
  "keep_response i answer [] w = Some w"
| "keep_response i answer (dep # deps) w =
     (if \<not> valid_index w dep then None
      else (case t_operator (w_tasks w ! nat dep) of
              None \<Rightarrow> None
            | Some op \<Rightarrow>
                keep_response i answer deps
                  (if strncasecmp_eq op ''oph_for'' OPH_MAX_STRING_SIZE \<or> strncasecmp_eq op ''oph_set'' OPH_MAX_STRING_SIZE
                   then upd_task (\<lambda>t. t\<lparr>t_response := Some answer\<rparr>) i w else w)))"

text \<open>The end of a task, or of a massive operation, with the status in \<open>nv_status\<close>.\<close>

definition end_task :: "notify_conf \<Rightarrow> string \<Rightarrow> nat \<Rightarrow> (string \<times> string) list \<Rightarrow> oph_workflow \<Rightarrow> notify_vars \<Rightarrow> notify_outcome" where
  [code_defs]: "end_task conf answer i outs w v =
     (let v = v\<lparr>nv_update_wf_data := 1\<rparr> in
      if w_residual_tasks_num w = 0 then Notify_Stop OPH_SERVER_SYSTEM_ERROR w
      else (case keep_response i answer (t_dependents_indexes (w_tasks w ! i)) w of
              None \<Rightarrow> Notify_Undefined
            | Some w \<Rightarrow>
                (let t = w_tasks w ! i;
                     (w, v) = (if t_retry_num t < 0
                               then (if t_status t > OPH_ODB_STATUS_COMPLETED \<and> t_status t < OPH_ODB_STATUS_SKIPPED
                                     then upd_task (\<lambda>t. t\<lparr>t_status := OPH_ODB_STATUS_SKIPPED\<rparr>) i w else w,
                                     v\<lparr>nv_status := OPH_ODB_STATUS_COMPLETED\<rparr>)
                               else (w, v)) in
                 notify_then (if nv_status v = OPH_ODB_STATUS_COMPLETED then complete_task i outs w v else fail_task conf i w v)
                   (trace_output i))))"

section \<open>The status of a task\<close>

text \<open>
  The notification of a task that is not a child of a massive operation. A task that could not be started is marked for the automatic
  retries when they are enabled; otherwise a response is written if there is none.
\<close>

definition task_status :: "notify_conf \<Rightarrow> nat \<Rightarrow> int \<Rightarrow> oph_workflow \<Rightarrow> notify_vars \<Rightarrow> notify_outcome" where
  [code_defs]: "task_status conf i odb_status w v =
     (let t = w_tasks w ! i;
          set_update = (t_status t \<le> OPH_ODB_STATUS_PENDING \<or> t_status t < odb_status);
          t = t\<lparr>t_status := odb_status\<rparr>;
          put = (\<lambda>t. w\<lparr>w_tasks := (w_tasks w)[i := t]\<rparr>);
          v' = (if set_update then v\<lparr>nv_update_task_data := 1\<rparr> else v) in
      if t_is_marked_for_auto_retry t \<or> odb_status = OPH_ODB_STATUS_START_ERROR then
        (if nc_auto_retry conf \<noteq> 0 \<and> t_retry_num t = 1 \<and> t_residual_auto_retry_num t = 0
         then Notify_Go (put (t\<lparr>t_residual_auto_retry_num := 1 + nc_auto_retry conf, t_is_marked_for_auto_retry := True\<rparr>)) v
         else if nc_auto_retry conf \<noteq> 0 \<and> t_retry_num t = 1 \<and> t_residual_auto_retry_num t > 1
         then Notify_Go (put (t\<lparr>t_residual_auto_retry_num := t_residual_auto_retry_num t - 1\<rparr>)) v
         else if i < w_tasks_num w \<and> nc_missing conf then
           (if nc_saved conf then Notify_Go (put t) (v\<lparr>nv_update_task_data := 1\<rparr>) else Notify_Stop OPH_SERVER_IO_ERROR (put t))
         else Notify_Go (put t) v')
      else Notify_Go (put (t\<lparr>t_residual_auto_retry_num := 0\<rparr>)) v')"

text \<open>The outputs of the children of a massive operation are collected, joined by separators, in the outputs of the task.\<close>

fun join_outputs :: "(string \<times> string) list \<Rightarrow> (string option \<times> string option) list \<Rightarrow> (string option \<times> string option) list option" where
  "join_outputs ((k, x) # outs) ((ko, xo) # old) =
     (case ko of
        None \<Rightarrow> None
      | Some key \<Rightarrow>
          map_option ((#) (if is_key k key
             then (ko, Some (take (OPH_MAX_STRING_SIZE - 1) ((case xo of None \<Rightarrow> ''(null)'' | Some y \<Rightarrow> y) @ ''|'' @ x)))
             else (ko, xo)))
          (join_outputs outs old))"
| "join_outputs outs old = Some old"

definition light_outputs :: "nat \<Rightarrow> (string \<times> string) list \<Rightarrow> oph_workflow \<Rightarrow> oph_workflow option" where
  [code_defs]: "light_outputs i outs w =
     (if outs = [] then Some w
      else
      (let w = save_known outs w; (outs, outputs_file) = file_output outs; old = t_outputs (w_tasks w ! i) in
       if old = [] then Some (upd_task (\<lambda>t. t\<lparr>t_outputs := map (\<lambda>(k, x). (Some k, Some x)) outs, t_outputs_file := outputs_file\<rparr>) i w)
       else if length old \<noteq> length outs then Some w
       else map_option (\<lambda>new. upd_task (\<lambda>t. t\<lparr>t_outputs := new\<rparr>) i w) (join_outputs outs old)))"

text \<open>The notification of the child \<open>l\<close> of a massive operation.\<close>

definition raise_status :: "int \<Rightarrow> nat \<Rightarrow> oph_workflow \<Rightarrow> notify_vars \<Rightarrow> oph_workflow \<times> notify_vars" where
  [code_defs]: "raise_status s i w v =
     (let (w, v) = (if t_status (w_tasks w ! i) < s
                    then (upd_task (\<lambda>t. t\<lparr>t_status := s\<rparr>) i w, v\<lparr>nv_update_task_data := 1\<rparr>) else (w, v)) in
      if w_status w < s then (w\<lparr>w_status := s\<rparr>, v\<lparr>nv_update_wf_data := 1\<rparr>) else (w, v))"

definition light_error :: "notify_conf \<Rightarrow> nat \<Rightarrow> oph_workflow \<Rightarrow> notify_vars \<Rightarrow> notify_outcome" where
  [code_defs]: "light_error conf i w v =
     (let w = (if nc_auto_retry conf \<noteq> 0 \<and> t_retry_num (w_tasks w ! i) = 1 \<and> t_residual_auto_retry_num (w_tasks w ! i) \<noteq> 1
               then upd_task (\<lambda>t. t\<lparr>t_is_marked_for_auto_retry := True\<rparr>) i w else w);
          (w, v) = raise_status OPH_ODB_STATUS_RUNNING i w v in
      if i < w_tasks_num w \<and> nc_missing conf then
        (if nc_saved conf then Notify_Go w (v\<lparr>nv_update_light_task_data := True\<rparr>) else Notify_Stop OPH_SERVER_SYSTEM_ERROR w)
      else Notify_Go w v)"

definition light_end :: "nat \<Rightarrow> (string \<times> string) list \<Rightarrow> oph_workflow \<Rightarrow> notify_vars \<Rightarrow> notify_outcome" where
  [code_defs]: "light_end i outs w v =
     (let v = v\<lparr>nv_update_task_data := 1\<rparr> in
      if t_residual_light_tasks_num (w_tasks w ! i) = 0 then Notify_Stop OPH_SERVER_SYSTEM_ERROR w
      else
      (let w = upd_task (\<lambda>t. t\<lparr>t_residual_light_tasks_num := t_residual_light_tasks_num t - 1\<rparr>) i w in
       case (if nv_status v = OPH_ODB_STATUS_COMPLETED then light_outputs i outs w else Some w) of
         None \<Rightarrow> Notify_Undefined
       | Some w \<Rightarrow>
           if t_residual_light_tasks_num (w_tasks w ! i) = 0 then
             (let s = (if list_ex (\<lambda>l. l_status l > OPH_ODB_STATUS_COMPLETED) (t_light_tasks (w_tasks w ! i))
                       then OPH_ODB_STATUS_ERROR else OPH_ODB_STATUS_COMPLETED) in
              Notify_Go (upd_task (\<lambda>t. t\<lparr>t_status := s\<rparr>) i w) (v\<lparr>nv_status := s, nv_massive_completed := True\<rparr>))
           else Notify_Go w (if t_status (w_tasks w ! i) = OPH_ODB_STATUS_RUNNING then v\<lparr>nv_update_task_data := 2\<rparr> else v)))"

definition light_status ::
    "notify_conf \<Rightarrow> nat \<Rightarrow> nat \<Rightarrow> int \<Rightarrow> (string \<times> string) list \<Rightarrow> oph_workflow \<Rightarrow> notify_vars \<Rightarrow> notify_outcome" where
  [code_defs]: "light_status conf i l odb_status outs w v =
     (if l \<ge> length (t_light_tasks (w_tasks w ! i)) then Notify_Undefined
      else
      (let v = (if l_status (t_light_tasks (w_tasks w ! i) ! l) < odb_status then v\<lparr>nv_update_light_task_data := True\<rparr> else v);
           w = upd_task (\<lambda>t. t\<lparr>t_light_tasks := (t_light_tasks t)[l := (t_light_tasks t ! l)\<lparr>l_status := odb_status\<rparr>]\<rparr>) i w in
       notify_then (if odb_status = OPH_ODB_STATUS_START_ERROR then light_error conf i w v else Notify_Go w v) (\<lambda>w v.
         if nv_status v = OPH_ODB_STATUS_COMPLETED \<or> nv_status v = OPH_ODB_STATUS_ERROR then light_end i outs w v
         else if nv_status v = OPH_ODB_STATUS_RUNNING then (case raise_status OPH_ODB_STATUS_RUNNING i w v of (w, v) \<Rightarrow> Notify_Go w v)
         else Notify_Go w v)))"

section \<open>Processing of a notification\<close>

definition start_vars :: "int \<Rightarrow> notify_vars" where
  [code_defs]: "start_vars status = \<lparr>nv_status = status, nv_update_wf_data = 0, nv_update_task_data = 0, nv_update_light_task_data = False,
     nv_task_completed = False, nv_final = False, nv_retry_task_execution = False, nv_check_for_constraint = False,
     nv_massive_completed = False\<rparr>"

text \<open>
  The processing of a notification on the workflow that it concerns; \<open>answer\<close> is the response of the task. The task after the last one has a name
  when the final task is running.
\<close>

definition process_notification ::
    "notify_conf \<Rightarrow> string \<Rightarrow> notification \<Rightarrow> int \<Rightarrow> oph_workflow \<Rightarrow> notify_outcome" where
  [code_defs]: "process_notification conf answer n status w =
     (let i = nat (n_taskindex n); light = (n_lighttaskindex n \<ge> 0); v = start_vars status in
      notify_then
        (if light then light_status conf i (nat (n_lighttaskindex n)) (n_status n) (n_outputs n) w v
         else task_status conf i (n_status n) w v)
        (\<lambda>w v.
           let outs = (if light \<and> status = OPH_ODB_STATUS_COMPLETED then [] else n_outputs n);
               check_status = (nv_status v = OPH_ODB_STATUS_COMPLETED \<or> nv_status v = OPH_ODB_STATUS_ERROR) in
           if light \<and> \<not> nv_massive_completed v then Notify_Go w v
           else if length (w_tasks w) \<le> w_tasks_num w then Notify_Undefined
           else if check_status then
             (if t_name (w_tasks w ! w_tasks_num w) \<noteq> None then Notify_Go w (v\<lparr>nv_update_wf_data := 1, nv_final := True\<rparr>)
              else end_task conf answer i outs w v)
           else if nv_status v = OPH_ODB_STATUS_RUNNING \<and> w_status w < OPH_ODB_STATUS_RUNNING
           then Notify_Go (w\<lparr>w_status := OPH_ODB_STATUS_RUNNING\<rparr>) (v\<lparr>nv_update_wf_data := 1\<rparr>)
           else Notify_Go w v))"

text \<open>
  An error that was already counted is neglected; the answer to an internal request only wakes the waiting thread up; a workflow
  that was closed or aborted is dropped from the list by the notification of its own job.
\<close>

datatype notify_reply =
    Reply_Code server_code
  | Reply_Internal oph_workflow
  | Reply_Neglected
  | Reply_Dropped oph_workflow
  | Reply_Processed notify_outcome

definition neglected :: "notification \<Rightarrow> oph_workflow \<Rightarrow> bool option" where
  [code_defs]: "neglected n w =
     (let t = w_tasks w ! nat (n_taskindex n) in
      if n_lighttaskindex n \<ge> 0 then
        (if nat (n_lighttaskindex n) \<ge> length (t_light_tasks t) then None
         else (let s = l_status (t_light_tasks t ! nat (n_lighttaskindex n)) in Some (s = 0 \<or> s \<ge> OPH_ODB_STATUS_COMPLETED)))
      else Some (t_status t = 0 \<or> t_status t \<ge> OPH_ODB_STATUS_COMPLETED))"

definition internal_answer :: "notification \<Rightarrow> int \<Rightarrow> string option \<Rightarrow> oph_workflow \<Rightarrow> oph_workflow" where
  [code_defs]: "internal_answer n status output_json w =
     upd_task (\<lambda>t.
       let t = t\<lparr>t_response := None\<rparr> in
       if status = OPH_ODB_STATUS_COMPLETED
       then t\<lparr>t_response := output_json, t_query := (case n_query n of None \<Rightarrow> t_query t | Some q \<Rightarrow> Some q)\<rparr>
       else if status = OPH_ODB_STATUS_ERROR then t\<lparr>t_response := Some []\<rparr> else t) (nat (n_taskindex n)) w"

definition oph_workflow_notify ::
    "notify_conf \<Rightarrow> (int \<Rightarrow> oph_workflow option) \<Rightarrow> string \<Rightarrow> string option \<Rightarrow> string \<Rightarrow> notify_reply" where
  [code_defs]: "oph_workflow_notify conf find_wf data output_json answer =
     (case notify_parse data of
        Inl rc \<Rightarrow> Reply_Code rc
      | Inr n \<Rightarrow>
          (case notify_status (n_status n) of
             None \<Rightarrow> Reply_Code OPH_SERVER_WRONG_PARAMETER_ERROR
           | Some status \<Rightarrow>
               (case find_wf (n_parentid n) of
                  None \<Rightarrow> Reply_Code OPH_SERVER_WRONG_PARAMETER_ERROR
                | Some w \<Rightarrow>
                    if \<not> valid_index w (n_taskindex n) then Reply_Processed Notify_Undefined
                    else if n_jobid n = 0 \<and> t_idjob (w_tasks w ! nat (n_taskindex n)) = 0 \<and>
                       t_status (w_tasks w ! nat (n_taskindex n)) < OPH_ODB_STATUS_ERROR
                    then (if status = OPH_ODB_STATUS_COMPLETED \<and> output_json = None then Reply_Processed Notify_Undefined
                          else Reply_Internal (internal_answer n status output_json w))
                    else if w_is_closed w \<or> w_status w \<ge> OPH_ODB_STATUS_ABORTED
                    then (if n_jobid n \<noteq> n_parentid n then Reply_Code OPH_SERVER_WRONG_PARAMETER_ERROR else Reply_Dropped w)
                    else if status = OPH_ODB_STATUS_ERROR
                    then (case neglected n w of
                            None \<Rightarrow> Reply_Processed Notify_Undefined
                          | Some True \<Rightarrow> Reply_Neglected
                          | Some False \<Rightarrow> Reply_Processed (process_notification conf answer n status w))
                    else Reply_Processed (process_notification conf answer n status w))))"

section \<open>What is executed next\<close>

text \<open>
  The cubes of the final task as an index string: an identifier that follows the last one extends its interval. The
  buffer has \<open>OPH_MAX_STRING_SIZE\<close> bytes; the bound of the replacement of an index does not keep it within the buffer.
\<close>

definition append_cube :: "string \<Rightarrow> int \<Rightarrow> string option" where
  [code_defs]: "append_cube s cubeid =
     (let put = (\<lambda>sep. Some (take (OPH_MAX_STRING_SIZE - 1) (s @ sep @ show_int cubeid))) in
      if s = [] then put []
      else
      (let (front, last_block) = (case strrchr_cut CHR '','' s of None \<Rightarrow> ([], s) | Some (b, l) \<Rightarrow> (b @ '','', l)) in
       case strchr_cut CHR '':'' last_block of
         Some (start, last_index) \<Rightarrow>
           if strtol last_index = cubeid - 1
           then (let s' = front @ start @ '':'' @ show_int cubeid in if length s' \<ge> OPH_MAX_STRING_SIZE then None else Some s')
           else put '',''
       | None \<Rightarrow> if strtol last_block = cubeid - 1 then put '':'' else put '',''))"

fun exit_string :: "string \<Rightarrow> int list \<Rightarrow> string option" where
  "exit_string s [] = Some s"
| "exit_string s (x # xs) = append_cube s x \<bind> (\<lambda>s. exit_string s xs)"

text \<open>The items of the list, in the order of the extraction; only the node without a key is used.\<close>

definition exit_list :: "oph_trash \<Rightarrow> int list" where
  [code_defs]: "exit_list trash = concat (map tn_items trash)"

text \<open>
  The final task, for the cubes or for one container of the exit actions: whether an error occurred, whether the final task is to be
  executed, and the workflow. Its argument arrays are enlarged as those of any task, which fails when there are none. (After the error of
  a container without an identifier they have null entries, which are left out here.)
\<close>

definition final_task :: "string \<Rightarrow> oph_workflow_arg list \<Rightarrow> oph_workflow \<Rightarrow> bool \<times> bool \<times> oph_workflow" where
  [code_defs]: "final_task operator args w =
     (let w = upd_task (\<lambda>t. t\<lparr>t_name := Some ''Final task'', t_operator := Some operator, t_ncores := 1\<rparr>) (w_tasks_num w) w in
      if t_arguments (w_tasks w ! w_tasks_num w) = [] then (True, False, w)
      else (False, True, upd_task (\<lambda>t. t\<lparr>t_arguments := t_arguments t @ args\<rparr>) (w_tasks_num w) w))"

definition plain_arg :: "string \<Rightarrow> string \<Rightarrow> oph_workflow_arg" where
  [code_defs]: "plain_arg k x = \<lparr>a_key = k, a_value = Some x, a_list = []\<rparr>"

definition final_operation :: "string \<Rightarrow> oph_workflow \<Rightarrow> (bool \<times> bool \<times> oph_workflow) option" where
  [code_defs]: "final_operation web_server w =
     (case w_exit_cubes w of
        Some cubes \<Rightarrow>
          (if t_arguments (w_tasks w ! w_tasks_num w) = [] then Some []
           else oph_trash_order cubes None \<bind> (\<lambda>(_, cubes). exit_string [] (exit_list cubes))) \<bind> (\<lambda>ids.
          case final_task ''oph_delete''
                 [plain_arg ''cube'' (take (OPH_MAX_STRING_SIZE - 1) (''[cube_filter='' @ ids @ '';path=/;recursive=yes]''))] w of
            (error, ft, w) \<Rightarrow> Some (error, ft, w\<lparr>w_exit_cubes := None\<rparr>))
      | None \<Rightarrow>
          (case w_exit_containers w of
             None \<Rightarrow> Some (False, False, w)
           | Some containers \<Rightarrow>
               (case exit_list containers of
                  [] \<Rightarrow> Some (False, False, w\<lparr>w_exit_containers := None\<rparr>)
                | containerid # _ \<Rightarrow>
                    (case final_task ''oph_deletecontainer''
                       (if containerid = 0 then []
                        else [plain_arg ''container_pid'' (take (OPH_MAX_STRING_SIZE - 1) (web_server @ ''/'' @ show_int containerid)),
                          plain_arg ''container'' ''-'', plain_arg ''force'' ''yes'']) w of
                       (error, ft, w) \<Rightarrow> Some (error \<or> containerid = 0, ft \<and> containerid \<noteq> 0, w\<lparr>w_exit_containers := None\<rparr>)))))"

text \<open>The tasks that the engine tries to start after a notification of the task \<open>i\<close>.\<close>

definition next_tasks :: "string \<Rightarrow> nat \<Rightarrow> oph_workflow \<Rightarrow> notify_vars \<Rightarrow> (int list \<times> oph_workflow) option" where
  [code_defs]: "next_tasks web_server i w v =
     (case (if nv_final v then final_operation web_server w else Some (False, False, w)) of
        None \<Rightarrow> None
      | Some (error, ft, w) \<Rightarrow>
          Some (if error then []
                else if ft then [int (w_tasks_num w)]
                else if nv_retry_task_execution v then [int i]
                else if nv_update_wf_data v \<noteq> 0 \<and> nv_task_completed v \<and> \<not> nv_final v then t_dependents_indexes (w_tasks w ! i)
                else [], w))"

text \<open>
  The loop of \<open>oph_workflow_execute\<close> over the tasks to start: the arguments of a ready task receive the outputs that were
  collected for it, and at the end of the round the task is pending (the assignment at line 2784). The identifiers, the record
  in the database, the expansion of a massive operation and the text of the request, which come between the two, are not part of
  the model; they are taken to succeed.
\<close>

fun fill_arguments :: "oph_workflow_arg list \<Rightarrow> oph_workflow_arg list option" where
  "fill_arguments [] = Some []"
| "fill_arguments (a # args) =
     (if a_list a = [] then map_option ((#) a) (fill_arguments args)
      else (case oph_workflow_print_list (a_list a) (a_value a) of
              None \<Rightarrow> None
            | Some (_, x) \<Rightarrow> map_option ((#) (a\<lparr>a_value := x, a_list := []\<rparr>)) (fill_arguments args)))"

definition ready :: "oph_workflow \<Rightarrow> int \<Rightarrow> bool" where
  [code_defs]: "ready w i \<longleftrightarrow> 0 \<le> i \<and> i \<le> int (w_tasks_num w) \<and>
     (i = int (w_tasks_num w) \<longrightarrow> t_name (w_tasks w ! nat i) = Some ''Final task'') \<and>
     t_residual_deps_num (w_tasks w ! nat i) = 0 \<and> t_status (w_tasks w ! nat i) = 0"

fun prepare_tasks :: "int list \<Rightarrow> oph_workflow \<Rightarrow> oph_workflow option" where
  "prepare_tasks [] w = Some w"
| "prepare_tasks (i # is) w =
     (if length (w_tasks w) \<le> w_tasks_num w \<or> i = int (w_tasks_num w) \<and> t_name (w_tasks w ! w_tasks_num w) = None then None
      else if \<not> ready w i then prepare_tasks is w
      else fill_arguments (t_arguments (w_tasks w ! nat i)) \<bind> (\<lambda>args.
           prepare_tasks is (upd_task (\<lambda>t. t\<lparr>t_arguments := args, t_status := OPH_ODB_STATUS_PENDING\<rparr>) (nat i) w)))"

definition execute_tasks :: "int list \<Rightarrow> oph_workflow \<Rightarrow> oph_workflow option" where
  [code_defs]: "execute_tasks is w =
     (if is = [] then Some w
      else if w_status w < OPH_ODB_STATUS_COMPLETED \<or> hd is = int (w_tasks_num w) then prepare_tasks is w
      else Some w)"

section \<open>Lemmas on the dependencies\<close>

text \<open>A dependency that the code can read, of a task \<open>t\<close> that has arguments when an output is to be handed over.\<close>

definition dep_ok :: "oph_workflow_task \<Rightarrow> oph_workflow_dep \<Rightarrow> bool" where
  [code_defs]: "dep_ok t d \<longleftrightarrow>
     (case d_type d of
        None \<Rightarrow> False
      | Some type \<Rightarrow> strncasecmp_eq type ''embedded'' OPH_MAX_STRING_SIZE \<or>
          t_arguments t \<noteq> [] \<and> d_argument d \<noteq> None \<and> d_order d \<noteq> None \<and> d_output_argument d \<noteq> None)"

definition outputs_ok :: "(string option \<times> string option) list \<Rightarrow> bool" where
  [code_defs]: "outputs_ok outs \<longleftrightarrow> list_all (\<lambda>(k, x). k \<noteq> None \<and> x \<noteq> None) outs"

text \<open>What becomes of a task after the end of the task \<open>i\<close>: other arguments, and the dependencies on \<open>i\<close> at the positions \<open>js\<close> cleared.\<close>

definition clear :: "nat \<Rightarrow> oph_workflow_dep \<Rightarrow> oph_workflow_dep" where
  "clear i d = (if d_task_index d = int i then d\<lparr>d_task_index := - 1\<rparr> else d)"

definition clear_at :: "nat \<Rightarrow> nat set \<Rightarrow> oph_workflow_dep list \<Rightarrow> oph_workflow_dep list" where
  "clear_at i J ds = map (\<lambda>j. if j \<in> J then clear i (ds ! j) else ds ! j) [0..<length ds]"

definition pending_on :: "nat \<Rightarrow> oph_workflow_dep list \<Rightarrow> nat list \<Rightarrow> int" where
  "pending_on i ds js = int (length (filter (\<lambda>j. d_task_index (ds ! j) = int i) js))"

definition args_ok :: "oph_workflow_arg list \<Rightarrow> bool" where
  [code_defs]: "args_ok args \<longleftrightarrow> list_all (\<lambda>a. list_all (\<lambda>(_, x). x \<noteq> None) (a_list a)) args"

definition grown :: "oph_workflow_arg list \<Rightarrow> oph_workflow_arg list \<Rightarrow> bool" where
  "grown old args \<longleftrightarrow> (old \<noteq> [] \<longrightarrow> args \<noteq> []) \<and> (args_ok old \<longrightarrow> args_ok args)"

lemma grown_refl [simp]: "grown args args"
  by (simp add: grown_def)

lemma grown_trans: "grown a b \<Longrightarrow> grown b c \<Longrightarrow> grown a c"
  by (auto simp: grown_def)

definition fed :: "nat \<Rightarrow> nat list \<Rightarrow> oph_workflow_task \<Rightarrow> oph_workflow_task \<Rightarrow> bool" where
  "fed i js t t' \<longleftrightarrow> (\<exists>args. t' = t\<lparr>t_arguments := args, t_deps := clear_at i (set js) (t_deps t),
     t_residual_deps_num := t_residual_deps_num t - pending_on i (t_deps t) js\<rparr> \<and> grown (t_arguments t) args)"

lemma clear_simps [simp]: "d_task_index (clear i d) = (if d_task_index d = int i then - 1 else d_task_index d)" "d_type (clear i d) = d_type d"
  "d_argument (clear i d) = d_argument d" "d_order (clear i d) = d_order d" "d_output_argument (clear i d) = d_output_argument d"
  by (auto simp: clear_def)

lemma clear_clear [simp]: "clear i (clear i d) = clear i d"
  by (simp add: clear_def)

lemma length_clear_at [simp]: "length (clear_at i J ds) = length ds"
  by (simp add: clear_at_def)

lemma nth_clear_at: "j < length ds \<Longrightarrow> clear_at i J ds ! j = (if j \<in> J then clear i (ds ! j) else ds ! j)"
  by (simp add: clear_at_def)

lemma clear_at_all: "clear_at i {0..<length ds} ds = map (clear i) ds"
  by (auto intro!: nth_equalityI simp: nth_clear_at)

lemma pending_on_all: "pending_on i ds [0..<length ds] = int (length (filter (\<lambda>d. d_task_index d = int i) ds))"
proof -
  have "filter (\<lambda>d. d_task_index d = int i) ds = map ((!) ds) (filter (\<lambda>j. d_task_index (ds ! j) = int i) [0..<length ds])"
    by (metis (no_types, lifting) comp_apply filter_cong filter_map map_nth)
  then show ?thesis by (simp add: pending_on_def)
qed

lemma fed_refl: "fed i [] t t"
  by (auto simp: fed_def pending_on_def clear_at_def map_nth intro!: exI [of _ "t_arguments t"])

lemma add_output_arguments:
  assumes "dep < length (w_tasks w)" and "dep_ok (w_tasks w ! dep) d" and "d_type d = Some type"
    and "\<not> strncasecmp_eq type ''embedded'' OPH_MAX_STRING_SIZE" and "x \<noteq> None"
  shows "\<exists>args. add_output dep d x w v = Notify_Go (upd_task (\<lambda>t. t\<lparr>t_arguments := args\<rparr>) dep w) v \<and> grown (t_arguments (w_tasks w ! dep)) args"
proof -
  obtain key order obj where d: "d_argument d = Some key" "d_order d = Some order" "x = Some obj" "t_arguments (w_tasks w ! dep) \<noteq> []"
    using assms by (auto simp: dep_ok_def)
  let ?args = "t_arguments (w_tasks w ! dep)"
  have put: "grown old (args[kk := (args ! kk)\<lparr>a_list := oph_workflow_add_to_list order obj (a_list (args ! kk))\<rparr>])"
      (is "grown old (args[kk := ?a])") if "grown old args" "kk < length args" for old args kk
  proof -
    have "args_ok (args[kk := ?a])" if ok: "args_ok args"
      unfolding args_ok_def list_all_iff
    proof
      fix a
      assume "a \<in> set (args[kk := ?a])"
      then consider "a = ?a" | "a \<in> set args" using set_update_subset_insert [of args kk ?a] by blast
      then show "\<forall>x \<in> set (a_list a). case x of (_, x) \<Rightarrow> x \<noteq> None"
      proof cases
        case 1
        then show ?thesis
          using ok nth_mem [OF \<open>kk < length args\<close>] by (simp add: args_ok_def list_all_iff add_to_list_set)
      qed (use ok in \<open>simp add: args_ok_def list_all_iff\<close>)
    qed
    then show ?thesis using that by (auto simp: grown_def)
  qed
  show ?thesis
  proof (cases "find_argument key ?args")
    case None
    have "grown ?args (?args @ [\<lparr>a_key = key, a_value = None, a_list = []\<rparr>])" by (auto simp: grown_def args_ok_def)
    from put [OF this, of "length ?args"] show ?thesis using None d by (auto simp: add_output_def Let_def)
  next
    case (Some kk)
    then have "kk < length ?args" by (auto simp: find_argument_def find_Some_iff)
    from put [OF grown_refl this] show ?thesis using Some d by (auto simp: add_output_def Let_def)
  qed
qed

lemma feed_outputs_arguments:
  assumes "dep < length (w_tasks w)" and "dep_ok (w_tasks w ! dep) d" and "d_type d = Some type"
    and "\<not> strncasecmp_eq type ''embedded'' OPH_MAX_STRING_SIZE" and "outputs_ok outs" and "t_light_tasks (w_tasks w ! i) = []"
  shows "\<exists>args. feed_outputs i dep d type outs w v = Notify_Go (upd_task (\<lambda>t. t\<lparr>t_arguments := args\<rparr>) dep w) v \<and>
    grown (t_arguments (w_tasks w ! dep)) args"
  using assms(5)
proof (induction outs)
  case Nil
  have "upd_task (\<lambda>t. t\<lparr>t_arguments := t_arguments (w_tasks w ! dep)\<rparr>) dep w = w" by (simp add: upd_task_def)
  then show ?case using grown_refl by (metis feed_outputs.simps(1))
next
  case (Cons o1 outs)
  obtain k x where o1: "o1 = (Some k, Some x)" using Cons.prems by (cases o1) (auto simp: outputs_ok_def)
  obtain oa where "d_output_argument d = Some oa" using assms by (auto simp: dep_ok_def)
  then show ?case
    using Cons o1 assms(6) add_output_arguments [OF assms(1-4), of "Some x"] by (auto simp: outputs_ok_def)
qed

text \<open>The loop over the dependencies of a task ends with all of them cleared that are on \<open>i\<close>.\<close>

lemma fed_skip:
  assumes "j < length (t_deps t)" and "d_task_index (t_deps t ! j) \<noteq> int i" and "fed i js t t'"
  shows "fed i (j # js) t t'"
proof -
  have "clear_at i (set (j # js)) (t_deps t) = clear_at i (set js) (t_deps t)"
    using assms(1,2) by (auto intro!: nth_equalityI simp: nth_clear_at clear_def)
  moreover have "pending_on i (t_deps t) (j # js) = pending_on i (t_deps t) js" using assms(2) by (simp add: pending_on_def)
  ultimately show ?thesis using assms(3) by (simp add: fed_def)
qed

lemma pending_on_other: "j \<notin> set js \<Longrightarrow> pending_on i (ds[j := d]) js = pending_on i ds js"
  unfolding pending_on_def
  by (rule arg_cong [where f = "\<lambda>xs. int (length xs)"], rule filter_cong [OF refl]) (metis nth_list_update_neq)

lemma fed_clear:
  assumes "j < length (t_deps t)" and "d_task_index (t_deps t ! j) = int i" and "j \<notin> set js" and "grown (t_arguments t) args"
    and "fed i js (clear_dep j (t\<lparr>t_arguments := args\<rparr>)) t'"
  shows "fed i (j # js) t t'"
proof -
  let ?ds = "(t_deps t)[j := (t_deps t ! j)\<lparr>d_task_index := - 1\<rparr>]"
  have "clear_at i (set js) ?ds = clear_at i (set (j # js)) (t_deps t)"
    using assms(1-3) by (auto intro!: nth_equalityI simp: nth_clear_at nth_list_update clear_def)
  moreover have "pending_on i ?ds js = pending_on i (t_deps t) js" using assms(3) by (rule pending_on_other)
  moreover obtain args' where "t' = (clear_dep j (t\<lparr>t_arguments := args\<rparr>))\<lparr>t_arguments := args', t_deps := clear_at i (set js) ?ds,
      t_residual_deps_num := t_residual_deps_num t - 1 - pending_on i ?ds js\<rparr>" and "grown args args'"
    using assms(5) by (auto simp: fed_def clear_dep_def)
  ultimately have "t' = t\<lparr>t_arguments := args', t_deps := clear_at i (set (j # js)) (t_deps t),
      t_residual_deps_num := t_residual_deps_num t - pending_on i (t_deps t) (j # js)\<rparr>" and "grown (t_arguments t) args'"
    using assms(2) grown_trans [OF assms(4)] by (simp_all add: clear_dep_def pending_on_def)
  then show ?thesis unfolding fed_def by blast
qed

lemma dep_ok_arguments: "dep_ok t d \<Longrightarrow> grown (t_arguments t) args \<Longrightarrow> dep_ok (clear_dep j (t\<lparr>t_arguments := args\<rparr>)) d"
  by (auto simp: dep_ok_def clear_dep_def grown_def split: option.splits)

lemma deps_loop_fed:
  assumes "distinct js" and "\<forall>j \<in> set js. j < length (t_deps (w_tasks w ! dep))" and "dep < length (w_tasks w)" and "dep \<noteq> i"
    and "t_light_tasks (w_tasks w ! i) = []" and "\<not> nv_check_for_constraint v" and "outputs_ok (t_outputs (w_tasks w ! i))"
    and "\<forall>d \<in> set (t_deps (w_tasks w ! dep)). d_task_index d = int i \<longrightarrow> dep_ok (w_tasks w ! dep) d"
    and "pending_on i (t_deps (w_tasks w ! dep)) js \<le> t_residual_deps_num (w_tasks w ! dep)"
  shows "\<exists>t'. deps_loop i dep js w v = Notify_Go (w\<lparr>w_tasks := (w_tasks w)[dep := t']\<rparr>) v \<and> fed i js (w_tasks w ! dep) t'"
  using assms
proof (induction js arbitrary: w)
  case Nil
  have "w\<lparr>w_tasks := (w_tasks w)[dep := w_tasks w ! dep]\<rparr> = w" by simp
  then show ?case using fed_refl by (metis deps_loop.simps(1))
next
  case (Cons j js)
  let ?t = "w_tasks w ! dep"
  let ?d = "t_deps ?t ! j"
  have j: "j < length (t_deps ?t)" "j \<notin> set js" using Cons.prems(1,2) by auto
  show ?case
  proof (cases "d_task_index ?d = int i")
    case False
    then have "pending_on i (t_deps ?t) js \<le> t_residual_deps_num ?t" using Cons.prems(9) by (simp add: pending_on_def)
    then obtain t' where "deps_loop i dep js w v = Notify_Go (w\<lparr>w_tasks := (w_tasks w)[dep := t']\<rparr>) v" "fed i js ?t t'"
      using Cons.IH [of w] Cons.prems(1-8) by auto
    then show ?thesis using False fed_skip [OF j(1) False] by auto
  next
    case True
    then have ok: "dep_ok ?t ?d" using Cons.prems(8) j(1) by auto
    then obtain type where type: "d_type ?d = Some type" by (auto simp: dep_ok_def split: option.splits)
    have "\<exists>args. (if strncasecmp_eq type ''embedded'' OPH_MAX_STRING_SIZE then Notify_Go w v
        else feed_outputs i dep ?d type (t_outputs (w_tasks w ! i)) w v) =
      Notify_Go (upd_task (\<lambda>t. t\<lparr>t_arguments := args\<rparr>) dep w) v \<and> grown (t_arguments ?t) args"
    proof (cases "strncasecmp_eq type ''embedded'' OPH_MAX_STRING_SIZE")
      case True
      then show ?thesis by (auto simp: upd_task_def intro!: exI [of _ "t_arguments ?t"])
    next
      case False
      then show ?thesis
        using feed_outputs_arguments [OF Cons.prems(3) ok type False Cons.prems(7,5), of v] by auto
    qed
    then obtain args where feed: "(if strncasecmp_eq type ''embedded'' OPH_MAX_STRING_SIZE then Notify_Go w v
        else feed_outputs i dep ?d type (t_outputs (w_tasks w ! i)) w v) = Notify_Go (upd_task (\<lambda>t. t\<lparr>t_arguments := args\<rparr>) dep w) v"
      and args: "grown (t_arguments ?t) args"
      by blast
    let ?t1 = "clear_dep j (?t\<lparr>t_arguments := args\<rparr>)"
    let ?w1 = "w\<lparr>w_tasks := (w_tasks w)[dep := ?t1]\<rparr>"
    have pos: "pending_on i (t_deps ?t) js + 1 \<le> t_residual_deps_num ?t" using Cons.prems(9) True by (simp add: pending_on_def)
    then have "0 < t_residual_deps_num ?t" by (simp add: pending_on_def)
    then have step: "deps_loop i dep (j # js) w v = deps_loop i dep js ?w1 v"
      using feed True type Cons.prems(3,6) by (simp add: Let_def upd_task_def clear_dep_def)
    have t1: "w_tasks ?w1 ! dep = ?t1" and ti: "w_tasks ?w1 ! i = w_tasks w ! i" using Cons.prems(3,4) by simp_all
    have deps1: "t_deps ?t1 = (t_deps ?t)[j := ?d\<lparr>d_task_index := - 1\<rparr>]" and res1: "t_residual_deps_num ?t1 = t_residual_deps_num ?t - 1"
      by (simp_all add: clear_dep_def)
    have "pending_on i (t_deps ?t1) js \<le> t_residual_deps_num ?t1"
      using pos by (simp only: deps1 res1 pending_on_other [OF j(2)])
    moreover have "\<forall>d \<in> set (t_deps ?t1). d_task_index d = int i \<longrightarrow> dep_ok ?t1 d"
    proof (intro ballI impI)
      fix d
      assume "d \<in> set (t_deps ?t1)" and "d_task_index d = int i"
      then have "d \<in> set (t_deps ?t)" unfolding deps1 using set_update_subset_insert by fastforce
      then show "dep_ok ?t1 d" using \<open>d_task_index d = int i\<close> Cons.prems(8) dep_ok_arguments [OF _ args] by blast
    qed
    ultimately obtain t' where "deps_loop i dep js ?w1 v = Notify_Go (?w1\<lparr>w_tasks := (w_tasks ?w1)[dep := t']\<rparr>) v" and "fed i js ?t1 t'"
      using Cons.IH [of ?w1] Cons.prems(1-7) unfolding t1 ti by (auto simp: deps1)
    then show ?thesis using step fed_clear [OF j(1) True j(2) args] by auto
  qed
qed

text \<open>A task that was given the outputs of the task \<open>i\<close> and does not wait for it any more.\<close>

definition waits_on :: "nat \<Rightarrow> oph_workflow_task \<Rightarrow> nat" where
  "waits_on i t = length (filter (\<lambda>d. d_task_index d = int i) (t_deps t))"

definition released :: "nat \<Rightarrow> oph_workflow_task \<Rightarrow> oph_workflow_task \<Rightarrow> bool" where
  "released i t t' \<longleftrightarrow> (\<exists>args. t' = t\<lparr>t_arguments := args, t_deps := map (clear i) (t_deps t),
     t_residual_deps_num := t_residual_deps_num t - int (waits_on i t)\<rparr> \<and> grown (t_arguments t) args)"

definition release_ok :: "nat \<Rightarrow> oph_workflow_task \<Rightarrow> bool" where
  "release_ok i t \<longleftrightarrow> (\<forall>d \<in> set (t_deps t). d_task_index d = int i \<longrightarrow> dep_ok t d) \<and> int (waits_on i t) \<le> t_residual_deps_num t"

lemma waits_on_cleared: "t_deps t = map (clear i) ds \<Longrightarrow> waits_on i t = 0"
  by (simp add: waits_on_def filter_empty_conv)

lemma released_trans: "released i t t1 \<Longrightarrow> released i t1 t2 \<Longrightarrow> released i t t2"
proof -
  assume "released i t t1" and "released i t1 t2"
  then obtain args1 args2 where t1: "t1 = t\<lparr>t_arguments := args1, t_deps := map (clear i) (t_deps t),
      t_residual_deps_num := t_residual_deps_num t - int (waits_on i t)\<rparr>" "grown (t_arguments t) args1"
    and t2: "t2 = t1\<lparr>t_arguments := args2, t_deps := map (clear i) (t_deps t1),
      t_residual_deps_num := t_residual_deps_num t1 - int (waits_on i t1)\<rparr>" "grown (t_arguments t1) args2"
    unfolding released_def by blast
  have "waits_on i t1 = 0" by (rule waits_on_cleared) (simp add: t1)
  then have "t2 = t\<lparr>t_arguments := args2, t_deps := map (clear i) (t_deps t), t_residual_deps_num := t_residual_deps_num t - int (waits_on i t)\<rparr>"
    using t1 t2 by (simp add: comp_def)
  moreover have "grown (t_arguments t) args2" using grown_trans [OF t1(2)] t1(1) t2(2) by simp
  ultimately show ?thesis unfolding released_def by blast
qed

lemma released_ok: "released i t t' \<Longrightarrow> release_ok i t \<Longrightarrow> release_ok i t'"
proof -
  assume r: "released i t t'" and ok: "release_ok i t"
  have deps: "t_deps t' = map (clear i) (t_deps t)" and res: "t_residual_deps_num t' = t_residual_deps_num t - int (waits_on i t)"
    using r by (auto simp: released_def)
  have "\<forall>d \<in> set (t_deps t'). d_task_index d \<noteq> int i" unfolding deps by auto
  then show ?thesis using ok res waits_on_cleared [OF deps] by (auto simp: release_ok_def)
qed

lemma fed_released: "fed i [0..<length (t_deps t)] t t' \<Longrightarrow> released i t t'"
  unfolding fed_def released_def set_upt clear_at_all pending_on_all waits_on_def by blast

lemma deps_loop_released:
  assumes "dep < length (w_tasks w)" and "dep \<noteq> i" and "t_light_tasks (w_tasks w ! i) = []" and "\<not> nv_check_for_constraint v"
    and "outputs_ok (t_outputs (w_tasks w ! i))" and "release_ok i (w_tasks w ! dep)"
  shows "\<exists>t'. deps_loop i dep [0..<length (t_deps (w_tasks w ! dep))] w v = Notify_Go (w\<lparr>w_tasks := (w_tasks w)[dep := t']\<rparr>) v \<and>
    released i (w_tasks w ! dep) t'"
  using deps_loop_fed [of "[0..<length (t_deps (w_tasks w ! dep))]" w dep i v] assms fed_released
  by (force simp: release_ok_def waits_on_def pending_on_all)

text \<open>The loop over the dependent tasks.\<close>

lemma dependents_loop_released:
  assumes "\<forall>x \<in> set deps. 0 \<le> x \<and> x < int (w_tasks_num w) \<and> x \<noteq> int i \<and> release_ok i (w_tasks w ! nat x)"
    and "w_tasks_num w \<le> length (w_tasks w)" and "t_light_tasks (w_tasks w ! i) = []" and "\<not> nv_check_for_constraint v"
    and "outputs_ok (t_outputs (w_tasks w ! i))"
  shows "\<exists>ts. dependents_loop i deps w v = Notify_Go (w\<lparr>w_tasks := ts\<rparr>) v \<and> length ts = length (w_tasks w) \<and>
    (\<forall>j < length ts. if int j \<in> set deps then released i (w_tasks w ! j) (ts ! j) else ts ! j = w_tasks w ! j)"
  using assms
proof (induction deps arbitrary: w)
  case Nil
  show ?case by (rule exI [of _ "w_tasks w"]) simp
next
  case (Cons x xs)
  have x: "0 \<le> x" "x < int (w_tasks_num w)" "nat x < length (w_tasks w)" "nat x \<noteq> i" "valid_index w x" "release_ok i (w_tasks w ! nat x)"
    using Cons.prems(1,2) by (auto simp: valid_index_def)
  obtain t' where t': "deps_loop i (nat x) [0..<length (t_deps (w_tasks w ! nat x))] w v = Notify_Go (w\<lparr>w_tasks := (w_tasks w)[nat x := t']\<rparr>) v"
      "released i (w_tasks w ! nat x) t'"
    using deps_loop_released [OF x(3,4) Cons.prems(3-5) x(6)] by blast
  let ?w1 = "w\<lparr>w_tasks := (w_tasks w)[nat x := t']\<rparr>"
  have "\<forall>y \<in> set xs. 0 \<le> y \<and> y < int (w_tasks_num ?w1) \<and> y \<noteq> int i \<and> release_ok i (w_tasks ?w1 ! nat y)"
    using Cons.prems(1) x(3) released_ok [OF t'(2) x(6)] by (auto simp: nth_list_update)
  then obtain ts where ts: "dependents_loop i xs ?w1 v = Notify_Go (?w1\<lparr>w_tasks := ts\<rparr>) v" "length ts = length (w_tasks w)"
      "\<forall>j < length ts. if int j \<in> set xs then released i (w_tasks ?w1 ! j) (ts ! j) else ts ! j = w_tasks ?w1 ! j"
    using Cons.IH [of ?w1] Cons.prems(2-5) x(4) by auto
  have "dependents_loop i (x # xs) w v = Notify_Go (w\<lparr>w_tasks := ts\<rparr>) v" using x(1,2,5) t'(1) ts(1) by simp
  moreover have "if int j \<in> set (x # xs) then released i (w_tasks w ! j) (ts ! j) else ts ! j = w_tasks w ! j" if "j < length ts" for j
  proof (cases "j = nat x")
    case True
    then show ?thesis using ts(3) that ts(2) x(1) t'(2) released_trans by (auto split: if_splits)
  next
    case False
    then show ?thesis using ts(3) that x(1) by (auto simp: nth_list_update_neq split: if_splits)
  qed
  ultimately show ?case using ts(2) by blast
qed

section \<open>Lemmas on the notification of the engine\<close>

lemma is_key_short: "length k \<le> OPH_MAX_STRING_SIZE \<Longrightarrow> length name \<le> OPH_MAX_STRING_SIZE \<Longrightarrow> is_key k name \<longleftrightarrow> k = name"
  by (simp add: is_key_def strncmp_eq_def)

text \<open>The values that a C \<open>int\<close> has.\<close>

definition is_c_int :: "int \<Rightarrow> bool" where
  [code_defs]: "is_c_int i \<longleftrightarrow> - 2147483648 \<le> i \<and> i \<le> 2147483647"

lemma to_int_show [simp]: "is_c_int i \<Longrightarrow> to_int (show_int i) = i"
  by (simp add: to_int_def strtol_show_int LONG_MIN_def LONG_MAX_def c_int_id is_c_int_def)

lemma show_int_short: "is_c_int i \<Longrightarrow> length (show_int i) \<le> 11"
proof -
  assume "is_c_int i"
  then have "nat (- i) < 10 ^ Suc 9" "nat i < 10 ^ Suc 9" unfolding is_c_int_def by auto
  from this [THEN length_show_nat] show ?thesis by (simp add: show_int_def)
qed

lemma show_int_value: "value_ok (show_int i)"
proof -
  have d: "c \<in> set (show_nat n) \<Longrightarrow> c \<noteq> CHR '';'' \<and> c \<noteq> CHR ''['' \<and> c \<noteq> CHR ''{''" for c n
    using show_nat_digits [of c n] by (auto simp: is_digit_def)
  obtain x xs where "show_int i = x # xs" by (cases "show_int i") (auto simp: show_int_def split: if_splits)
  moreover have "\<forall>c \<in> set (show_int i). c \<noteq> CHR '';'' \<and> c \<noteq> CHR ''['' \<and> c \<noteq> CHR ''{''" using d by (auto simp: show_int_def)
  ultimately show ?thesis by (auto simp: value_ok_def)
qed

lemma notify_parse_base:
  assumes "is_c_int idjob" "is_c_int task_index" "is_c_int light_task_index" "is_c_int task_idjob" "is_c_int status" "is_c_int markerid"
    and "value_ok sessionid" "length sessionid \<le> OPH_MAX_STRING_SIZE" "value_ok save" "length save \<le> OPH_MAX_STRING_SIZE"
    and "0 \<le> idjob" "0 \<le> task_index" "0 \<le> task_idjob" "0 \<le> status" "0 \<le> markerid"
  shows "notify_parse (base_notification idjob task_index light_task_index task_idjob status sessionid markerid save) =
    Inr \<lparr>n_jobid = task_idjob, n_status = status, n_parentid = idjob, n_taskindex = task_index, n_lighttaskindex = light_task_index,
      n_markerid = markerid, n_sessionid = Some sessionid, n_query = None, n_outputs = [(''save'', save)]\<rparr>"
proof -
  let ?int = "\<lambda>k i. \<lparr>arg_key = k, arg_value = show_int i\<rparr>"
  let ?args = "[?int ''parentid'' idjob, ?int ''taskindex'' task_index, ?int ''lighttaskindex'' light_task_index, ?int ''jobid'' task_idjob,
    ?int ''status'' status, \<lparr>arg_key = ''sessionid'', arg_value = sessionid\<rparr>, ?int ''markerid'' markerid, \<lparr>arg_key = ''save'', arg_value = save\<rparr>]"
  have short: "length (show_int i) \<le> OPH_MAX_STRING_SIZE" if "is_c_int i" for i
    using show_int_short [OF that] by (simp add: OPH_MAX_STRING_SIZE_def)
  have "base_notification idjob task_index light_task_index task_idjob status sessionid markerid save = concat (map print_arg ?args)"
    using assms short by (simp add: base_notification_def print_arg_def OPH_MAX_STRING_SIZE_def)
  moreover have "\<forall>a \<in> set ?args. arg_ok a"
    using assms short show_int_value by (simp add: arg_ok_def) (simp add: OPH_MAX_STRING_SIZE_def)
  ultimately have "oph_parse_query (base_notification idjob task_index light_task_index task_idjob status sessionid markerid save) =
      (OPH_SERVER_OK, ?args, length ?args)"
    using query_loop_prints [of ?args] by (simp add: oph_parse_query_def)
  then show ?thesis
    using assms by (simp add: notify_parse_def no_notification_def is_key_short OPH_MAX_STRING_SIZE_def Let_def)
qed

text \<open>
  Remark: the exit actions of a workflow are never executed. The task after the last one, which is to delete the cubes or the container, has
  no argument arrays, and the function that would enlarge them refuses a null vector.
\<close>

lemma final_operation_never_built:
  assumes "t_arguments (w_tasks w ! w_tasks_num w) = []" and "w_tasks_num w < length (w_tasks w)"
    and "final_operation web_server w = Some (error, ft, w')"
  shows "\<not> ft" and "w_exit_cubes w \<noteq> None \<Longrightarrow> error"
  using assms by (auto simp: final_operation_def final_task_def upd_task_def Let_def split: option.splits list.splits if_splits)

section \<open>Properties\<close>

text \<open>
  C25: the engine reads back the notifications that it writes. A string made with \<open>OPH_WORKFLOW_BASE_NOTIFICATION\<close> from valid numbers, a session and a
  flag is parsed to the same numbers, session and flag; the flag \<open>save\<close>, which is no parameter of a notification, ends up among the outputs of the
  task.\<close>

theorem base_notification_roundtrip:
  assumes "is_c_int idjob" "is_c_int task_index" "is_c_int light_task_index" "is_c_int task_idjob" "is_c_int status" "is_c_int markerid"
    and "value_ok sessionid" "length sessionid \<le> OPH_MAX_STRING_SIZE" "value_ok save" "length save \<le> OPH_MAX_STRING_SIZE"
    and "0 \<le> idjob" "0 \<le> task_index" "0 \<le> task_idjob" "0 \<le> status" "0 \<le> markerid"
  shows "notify_parse (base_notification idjob task_index light_task_index task_idjob status sessionid markerid save) =
    Inr \<lparr>n_jobid = task_idjob, n_status = status, n_parentid = idjob, n_taskindex = task_index, n_lighttaskindex = light_task_index,
      n_markerid = markerid, n_sessionid = Some sessionid, n_query = None, n_outputs = [(''save'', save)]\<rparr>"
  using assms by (rule notify_parse_base)

theorem base_notification_roundtrip_witness:
  "notify_parse (base_notification 1 0 (- 1) 7 12 ''S'' 3 ''yes'') =
    Inr \<lparr>n_jobid = 7, n_status = 12, n_parentid = 1, n_taskindex = 0, n_lighttaskindex = - 1, n_markerid = 3, n_sessionid = Some ''S'',
      n_query = None, n_outputs = [(''save'', ''yes'')]\<rparr>"
  by (rule base_notification_roundtrip) (simp_all add: is_c_int_def value_ok_def OPH_MAX_STRING_SIZE_def)

end
