(* ===== verification/Workflow_Schedule.thy ===== *)
theory Workflow_Schedule
  imports Workflow_Notify
begin

text \<open>
  The runs of a workflow: the notifications of \<open>Workflow_Notify\<close> one after the other, each followed by the start of the tasks that
  became ready. The first part is about every notification (errors, retries, children of massive operations) and shows that no task is
  started before the tasks that it depends on have ended; the second one is about the tasks that end with success and shows that a workflow
  of such tasks runs to its end.
\<close>

section \<open>What a step may touch\<close>

text \<open>
  A step may clear the dependencies on the tasks \<open>D\<close>, each with its place in the number of the residual ones, change the status of the
  tasks \<open>S\<close>, and end the others.
\<close>

definition moves :: "nat set \<Rightarrow> int \<Rightarrow> int \<Rightarrow> bool" where
  "moves D a b \<longleftrightarrow> b = a \<or> a \<in> int ` D \<and> b = - 1"

definition counted :: "oph_workflow_task \<Rightarrow> int" where
  [code_defs]: "counted t = t_residual_deps_num t - int (length (filter (\<lambda>d. d_task_index d \<ge> 0) (t_deps t)))"

definition task_touched :: "nat set \<Rightarrow> bool \<Rightarrow> oph_workflow_task \<Rightarrow> oph_workflow_task \<Rightarrow> bool" where
  "task_touched D free t t' \<longleftrightarrow> list_all2 (moves D) (map d_task_index (t_deps t)) (map d_task_index (t_deps t')) \<and> counted t' = counted t \<and>
     (free \<or> t_status t' = t_status t \<or> OPH_ODB_STATUS_COMPLETED \<le> t_status t')"

definition touches :: "nat set \<Rightarrow> nat set \<Rightarrow> oph_workflow \<Rightarrow> oph_workflow \<Rightarrow> bool" where
  "touches D S w w' \<longleftrightarrow> w_tasks_num w' = w_tasks_num w \<and> length (w_tasks w') = length (w_tasks w) \<and>
     (\<forall>j < length (w_tasks w). task_touched D (j \<in> S) (w_tasks w ! j) (w_tasks w' ! j))"

text \<open>A relation of the workflow before to the one in an outcome.\<close>

fun outcome_all :: "(oph_workflow \<Rightarrow> bool) \<Rightarrow> notify_outcome \<Rightarrow> bool" where
  "outcome_all P (Notify_Go w v) = P w"
| "outcome_all P (Notify_Stop rc w) = P w"
| "outcome_all P Notify_Undefined = True"

locale notify_preorder =
  fixes rel :: "oph_workflow \<Rightarrow> oph_workflow \<Rightarrow> bool"
  assumes reflexive: "rel w w"
    and transitive: "rel u v \<Longrightarrow> rel v w \<Longrightarrow> rel u w"
begin

lemma outcome_trans: "rel u v \<Longrightarrow> outcome_all (rel v) r \<Longrightarrow> outcome_all (rel u) r"
  by (cases r) (auto intro: transitive)

lemma then_rel:
  assumes "outcome_all (rel w) r" and "\<And>w' v. r = Notify_Go w' v \<Longrightarrow> rel w w' \<Longrightarrow> outcome_all (rel w') (f w' v)"
  shows "outcome_all (rel w) (notify_then r f)"
  using assms by (cases r) (auto intro: outcome_trans)

end

lemma list_all2_moves_refl: "list_all2 (moves D) xs xs"
  by (simp add: list_all2_conv_all_nth moves_def)

lemma task_touched_refl [simp]: "task_touched D free t t"
  by (simp add: task_touched_def list_all2_moves_refl)

lemma task_touched_trans: "task_touched D free t u \<Longrightarrow> task_touched D free u t' \<Longrightarrow> task_touched D free t t'"
proof -
  assume a: "task_touched D free t u" and b: "task_touched D free u t'"
  have "list_all2 (moves D) (map d_task_index (t_deps t)) (map d_task_index (t_deps t'))"
    by (rule list_all2_trans [where ?P1.0 = "moves D" and ?P2.0 = "moves D"]) (use a b in \<open>auto simp: task_touched_def moves_def\<close>)
  then show ?thesis using a b by (auto simp: task_touched_def)
qed

lemma touches_refl [simp]: "touches D S w w"
  by (simp add: touches_def)

lemma touches_trans: "touches D S u v \<Longrightarrow> touches D S v w \<Longrightarrow> touches D S u w"
  unfolding touches_def by (metis task_touched_trans)

interpretation tch: notify_preorder "touches D S" for D S
  by unfold_locales (auto intro: touches_trans)

lemma moves_mono: "moves D a b \<Longrightarrow> D \<subseteq> D' \<Longrightarrow> moves D' a b"
  by (auto simp: moves_def)

lemma task_touched_mono: "task_touched D free t t' \<Longrightarrow> D \<subseteq> D' \<Longrightarrow> (free \<Longrightarrow> free') \<Longrightarrow> task_touched D' free' t t'"
  unfolding task_touched_def using list_all2_mono moves_mono by blast

lemma touches_mono: "touches D S w w' \<Longrightarrow> D \<subseteq> D' \<Longrightarrow> S \<subseteq> S' \<Longrightarrow> touches D' S' w w'"
  unfolding touches_def by (meson in_mono task_touched_mono)

lemma touches_same: "w_tasks w' = w_tasks w \<Longrightarrow> w_tasks_num w' = w_tasks_num w \<Longrightarrow> touches D S w w'"
  by (simp add: touches_def)

lemma touches_at:
  assumes "w_tasks_num w' = w_tasks_num w" and "length (w_tasks w') = length (w_tasks w)"
    and "\<And>j. j \<noteq> i \<Longrightarrow> w_tasks w' ! j = w_tasks w ! j"
    and "i < length (w_tasks w) \<Longrightarrow> task_touched D (i \<in> S) (w_tasks w ! i) (w_tasks w' ! i)"
  shows "touches D S w w'"
  unfolding touches_def using assms by (metis task_touched_refl)

lemma upd_task_touches:
  "task_touched D (i \<in> S) (w_tasks w ! i) (f (w_tasks w ! i)) \<Longrightarrow> touches D S w (upd_task f i w)"
  by (rule touches_at [of _ _ i]) (simp_all add: upd_task_def)

lemma task_touched_frame:
  assumes "t_deps t' = t_deps t" and "t_residual_deps_num t' = t_residual_deps_num t"
    and "free \<or> t_status t' = t_status t \<or> OPH_ODB_STATUS_COMPLETED \<le> t_status t'"
  shows "task_touched D free t t'"
  using assms by (simp add: task_touched_def counted_def list_all2_moves_refl)

section \<open>The steps of a notification\<close>

lemma put_task_touches:
  "task_touched D (i \<in> S) (w_tasks w ! i) t \<Longrightarrow> touches D S w (w\<lparr>w_tasks := (w_tasks w)[i := t]\<rparr>)"
  by (rule touches_at [of _ _ i]) simp_all

lemma task_status_touches: "outcome_all (touches {} {i} w) (task_status conf i s w v)"
  by (simp add: task_status_def Let_def put_task_touches task_touched_frame)

lemma raise_status_touches: "raise_status s i w v = (w', v') \<Longrightarrow> touches {} {i} w w'"
  unfolding raise_status_def Let_def
  by (rule touches_at [of _ _ i]) (auto split: if_splits simp: upd_task_def intro!: task_touched_frame)

lemma save_known_tasks [simp]: "w_tasks (save_known outs w) = w_tasks w" "w_tasks_num (save_known outs w) = w_tasks_num w"
  by (induction outs w rule: save_known.induct) auto

lemma light_outputs_touches: "light_outputs i outs w = Some w' \<Longrightarrow> touches {} {i} w w'"
  unfolding light_outputs_def Let_def
  by (rule touches_at [of _ _ i]) (auto split: if_splits prod.splits simp: upd_task_def intro!: task_touched_frame)

lemma light_error_touches: "outcome_all (touches {} {i} w) (light_error conf i w v)"
proof -
  let ?u = "if nc_auto_retry conf \<noteq> 0 \<and> t_retry_num (w_tasks w ! i) = 1 \<and> t_residual_auto_retry_num (w_tasks w ! i) \<noteq> 1
    then upd_task (\<lambda>t. t\<lparr>t_is_marked_for_auto_retry := True\<rparr>) i w else w"
  have "touches {} {i} w ?u" by (simp add: upd_task_touches task_touched_frame)
  moreover obtain w' v' where r: "raise_status OPH_ODB_STATUS_RUNNING i ?u v = (w', v')" by fastforce
  ultimately have "touches {} {i} w w'" using raise_status_touches touches_trans by blast
  then show ?thesis unfolding light_error_def Let_def r by simp
qed

lemma light_end_touches: "outcome_all (touches {} {i} w) (light_end i outs w v)"
proof -
  let ?u = "upd_task (\<lambda>t. t\<lparr>t_residual_light_tasks_num := t_residual_light_tasks_num t - 1\<rparr>) i w"
  have u: "touches {} {i} w ?u" by (simp add: upd_task_touches task_touched_frame)
  have s: "touches {} {i} w' (upd_task (\<lambda>t. t\<lparr>t_status := s\<rparr>) i w')" for w' s by (simp add: upd_task_touches task_touched_frame)
  show ?thesis
    using u touches_trans [OF u] touches_trans [OF touches_trans [OF u] s] touches_trans [OF u s]
    by (auto simp: light_end_def Let_def split: option.splits dest!: light_outputs_touches)
qed

lemma light_status_touches: "outcome_all (touches {} {i} w) (light_status conf i l s outs w v)"
proof (cases "l \<ge> length (t_light_tasks (w_tasks w ! i))")
  case False
  let ?u = "upd_task (\<lambda>t. t\<lparr>t_light_tasks := (t_light_tasks t)[l := (t_light_tasks t ! l)\<lparr>l_status := s\<rparr>]\<rparr>) i w"
  have u: "touches {} {i} w ?u" by (simp add: upd_task_touches task_touched_frame)
  show ?thesis
    unfolding light_status_def Let_def if_not_P [OF False]
    by (rule tch.outcome_trans [OF u], rule tch.then_rel)
      (auto simp: light_error_touches light_end_touches split: prod.splits dest: raise_status_touches)
qed (simp add: light_status_def)

lemma keep_response_touches: "keep_response i answer deps w = Some w' \<Longrightarrow> touches {} {} w w'"
proof (induction i answer deps w rule: keep_response.induct)
  case (2 i answer dep deps w)
  have "touches {} {} w (upd_task (\<lambda>t. t\<lparr>t_response := Some answer\<rparr>) i w)" by (simp add: upd_task_touches task_touched_frame)
  with 2 show ?case by (auto split: if_splits option.splits intro: touches_trans)
qed simp

lemma set_outputs_touches: "outcome_all (touches {} {} w) (set_outputs i outs w v)"
  by (simp add: set_outputs_def Let_def upd_task_touches task_touched_frame split: prod.splits)

lemma set_status_touches:
  "oph_workflow_set_status fuel s is w = Some (rc, w') \<Longrightarrow> OPH_ODB_STATUS_COMPLETED \<le> s \<Longrightarrow> touches {} {} w w'"
proof (induction fuel s "is" w arbitrary: rc w' rule: oph_workflow_set_status.induct)
  case (3 fuel s i "is" w)
  let ?t = "w_tasks w ! nat i"
  let ?u = "upd_task (\<lambda>t. t\<lparr>t_status := s\<rparr>) (nat i)
    (if t_status ?t < OPH_ODB_STATUS_COMPLETED then w\<lparr>w_residual_tasks_num := w_residual_tasks_num w - 1\<rparr> else w)"
  have u: "touches {} {} w ?u"
    by (rule touches_at [of _ _ "nat i"]) (use 3(4) in \<open>auto simp: upd_task_def intro!: task_touched_frame\<close>)
  show ?case
  proof (cases "oph_workflow_set_status (Suc fuel) s (i # is) w = Some (rc, w) \<and> w' = w")
    case False
    then have v: "valid_index w i" "\<not> (t_status ?t \<noteq> 0 \<and> t_status ?t < s)" "\<not> (t_status ?t < OPH_ODB_STATUS_COMPLETED \<and> w_residual_tasks_num w = 0)"
      using 3(3) by (auto simp: Let_def split: if_splits)
    note IH = 3(1,2) [OF _ refl v(2,3) refl refl]
    obtain rc1 w1 where in1: "oph_workflow_set_status fuel s (t_dependents_indexes ?t) ?u = Some (rc1, w1)"
      and rest: "if rc1 = OPH_WORKFLOW_EXIT_SUCCESS then oph_workflow_set_status (Suc fuel) s is w1 = Some (rc, w') else w' = w1"
      using 3(3) v by (auto simp: Let_def split: option.splits prod.splits wf_code.splits)
    have t1: "touches {} {} w w1" using touches_trans [OF u IH(1) [OF _ in1 3(4)]] v(1) by simp
    show ?thesis
    proof (cases "rc1 = OPH_WORKFLOW_EXIT_SUCCESS")
      case True
      then have "oph_workflow_set_status (Suc fuel) s is w1 = Some (rc, w')" using rest by simp
      from IH(2) [OF _ in1 refl True this 3(4)] show ?thesis using touches_trans [OF t1] v(1) by simp
    qed (use rest t1 in simp)
  qed simp
qed simp_all

lemma abort_dependent_touches: "outcome_all (touches {} {} w) (abort_dependent dep w v)"
proof -
  have u: "touches {} {} w (upd_task (\<lambda>t. t\<lparr>t_status := OPH_ODB_STATUS_ABORTED\<rparr>) dep w)"
    by (simp add: upd_task_touches task_touched_frame status_defs)
  show ?thesis
    using touches_trans [OF u set_status_touches] unfolding abort_dependent_def Let_def
    by (auto simp: status_defs touches_def split: option.splits prod.splits)
qed

lemma add_output_touches: "outcome_all (touches {} {} w) (add_output dep d x w v)"
  by (simp add: add_output_def Let_def upd_task_touches task_touched_frame split: option.splits prod.splits)

lemma feed_outputs_touches: "outcome_all (touches {} {} w) (feed_outputs i dep d type outs w v)"
  by (induction i dep d type outs w v rule: feed_outputs.induct)
    (auto simp: abort_dependent_touches add_output_touches split: option.splits)

lemma clear_dep_touched:
  assumes "j < length (t_deps t)" and "d_task_index (t_deps t ! j) = int i"
  shows "task_touched {i} free t (clear_dep j t)"
proof -
  let ?ds = "(t_deps t)[j := (t_deps t ! j)\<lparr>d_task_index := - 1\<rparr>]"
  have "length (filter (\<lambda>d. d_task_index d \<ge> 0) ?ds) + 1 = length (filter (\<lambda>d. d_task_index d \<ge> 0) (t_deps t))"
    using length_filter_update [of j "t_deps t" "\<lambda>d. d_task_index d \<ge> 0"] assms by simp
  then have "counted (clear_dep j t) = counted t" by (simp add: counted_def clear_dep_def)
  moreover have "list_all2 (moves {i}) (map d_task_index (t_deps t)) (map d_task_index ?ds)"
    using assms by (simp add: list_all2_conv_all_nth moves_def nth_list_update)
  ultimately show ?thesis by (simp add: task_touched_def clear_dep_def)
qed

lemma touches_nth:
  assumes "touches D S w w'" and "j < length (w_tasks w)"
  shows "length (t_deps (w_tasks w' ! j)) = length (t_deps (w_tasks w ! j))"
    and "k < length (t_deps (w_tasks w ! j)) \<Longrightarrow> moves D (d_task_index (t_deps (w_tasks w ! j) ! k)) (d_task_index (t_deps (w_tasks w' ! j) ! k))"
    and "counted (w_tasks w' ! j) = counted (w_tasks w ! j)"
    and "j \<in> S \<or> t_status (w_tasks w' ! j) = t_status (w_tasks w ! j) \<or> OPH_ODB_STATUS_COMPLETED \<le> t_status (w_tasks w' ! j)"
  using assms by (auto simp: touches_def task_touched_def list_all2_conv_all_nth)

lemma deps_loop_touches:
  assumes "dep < length (w_tasks w)" and "\<forall>j \<in> set js. j < length (t_deps (w_tasks w ! dep))"
  shows "outcome_all (touches {i} {} w) (deps_loop i dep js w v)"
  using assms
proof (induction js arbitrary: w v)
  case (Cons j js)
  let ?d = "t_deps (w_tasks w ! dep) ! j"
  show ?case
  proof (cases "d_task_index ?d = int i \<and> d_type ?d \<noteq> None")
    case True
    then obtain type where type: "d_type ?d = Some type" by blast
    let ?e = "strncasecmp_eq type ''embedded'' OPH_MAX_STRING_SIZE"
    let ?r = "if ?e then Notify_Go w v else feed_outputs i dep ?d type (t_outputs (w_tasks w ! i)) w v"
    have r: "outcome_all (touches {} {} w) ?r" by (simp add: feed_outputs_touches)
    have next_dep: "outcome_all (touches {i} {} w') (deps_loop i dep js (upd_task (clear_dep j) dep w') v')" if "touches {} {} w w'" for w' v'
    proof -
      note n = touches_nth [OF that Cons.prems(1)]
      have j: "j < length (t_deps (w_tasks w' ! dep))" "d_task_index (t_deps (w_tasks w' ! dep) ! j) = int i"
        using Cons.prems(2) n(1) n(2) [of j] True by (auto simp: moves_def)
      have dep: "dep < length (w_tasks w')" using that Cons.prems(1) by (simp add: touches_def)
      have "touches {i} {} w' (upd_task (clear_dep j) dep w')" using clear_dep_touched [OF j] by (rule upd_task_touches)
      moreover have "outcome_all (touches {i} {} (upd_task (clear_dep j) dep w')) (deps_loop i dep js (upd_task (clear_dep j) dep w') v')"
        by (rule Cons.IH) (use dep Cons.prems(2) n(1) in \<open>auto simp: upd_task_def clear_dep_def\<close>)
      ultimately show ?thesis by (rule tch.outcome_trans)
    qed
    have "outcome_all (touches {i} {} w) (notify_then ?r (\<lambda>w v. if \<not> ?e \<and> nv_check_for_constraint v then Notify_Go w v
        else if t_residual_deps_num (w_tasks w ! dep) = 0 then Notify_Stop OPH_SERVER_SYSTEM_ERROR w
        else deps_loop i dep js (upd_task (clear_dep j) dep w) v))"
    proof (rule tch.then_rel)
      show "outcome_all (touches {i} {} w) ?r" using r touches_mono [of "{}" "{}" w _ "{i}" "{}"] by (cases ?r) auto
      fix w' v'
      assume "?r = Notify_Go w' v'"
      then have "touches {} {} w w'" using r by simp
      from next_dep [OF this] show "outcome_all (touches {i} {} w') (if \<not> ?e \<and> nv_check_for_constraint v' then Notify_Go w' v'
        else if t_residual_deps_num (w_tasks w' ! dep) = 0 then Notify_Stop OPH_SERVER_SYSTEM_ERROR w'
        else deps_loop i dep js (upd_task (clear_dep j) dep w') v')" by simp
    qed
    then show ?thesis using True type by (simp add: Let_def)
  next
    case False
    then show ?thesis using Cons by (auto simp: Let_def)
  qed
qed simp

lemma dependents_loop_touches: "outcome_all (touches {i} {} w) (dependents_loop i deps w v)"
proof (induction deps arbitrary: w v)
  case (Cons dep deps)
  show ?case
    using Cons deps_loop_touches [of "nat dep" w "[0..<length (t_deps (w_tasks w ! nat dep))]" i v]
    by (auto simp: valid_index_def intro: tch.then_rel)
qed simp

lemma exit_operation_tasks:
  "exit_operation i w v = Notify_Go w' v' \<Longrightarrow> w_tasks w' = w_tasks w \<and> w_tasks_num w' = w_tasks_num w \<and> w_status w' = w_status w \<and>
     w_residual_tasks_num w' = w_residual_tasks_num w \<and> v' = v"
  "exit_operation i w v \<noteq> Notify_Stop rc w'"
  by (auto simp: exit_operation_def Let_def split: if_splits option.splits)

lemma exit_operation_touches: "outcome_all (touches D S w) (exit_operation i w v)"
  using exit_operation_tasks by (cases "exit_operation i w v") (auto simp: touches_same)

lemma close_completed_touches: "outcome_all (touches D S w) (close_completed w v)"
  by (simp add: close_completed_def touches_same)

lemma complete_task_touches: "outcome_all (touches {i} {} w) (complete_task i outs w v)"
proof -
  let ?t = "w_tasks w ! i"
  let ?w = "if t_is_skipped ?t \<and> t_status ?t \<le> OPH_ODB_STATUS_COMPLETED then upd_task (\<lambda>t. t\<lparr>t_status := OPH_ODB_STATUS_UNSELECTED\<rparr>) i w else w"
  let ?u = "save_known outs (?w\<lparr>w_residual_tasks_num := w_residual_tasks_num ?w - 1\<rparr>)"
  have u: "touches {i} {} w ?u"
    by (rule touches_at [of _ _ i]) (auto simp: upd_task_def status_defs intro!: task_touched_frame)
  have so: "outcome_all (touches {i} {} w) (set_outputs i outs w v)" for w v
    using set_outputs_touches [of w i outs v] touches_mono [of "{}" "{}" w _ "{i}" "{}"] by (cases "set_outputs i outs w v") auto
  have ex: "outcome_all (touches {i} {} w) (notify_then (exit_operation i w v) close_completed)" for w v
    by (intro tch.then_rel exit_operation_touches close_completed_touches)
  show ?thesis
    unfolding complete_task_def Let_def
    by (rule tch.outcome_trans [OF u]) (intro tch.then_rel so dependents_loop_touches ex)
qed

lemma restart_task_touches:
  "t_deps t = t_deps (w_tasks w ! i) \<Longrightarrow> t_residual_deps_num t = t_residual_deps_num (w_tasks w ! i) \<Longrightarrow>
     outcome_all (touches {} {i} w) (restart_task i t w v)"
  by (simp add: restart_task_def put_task_touches task_touched_frame)

lemma auto_retry_deps: "auto_retry n t = (again, t') \<Longrightarrow> t_deps t' = t_deps t \<and> t_residual_deps_num t' = t_residual_deps_num t"
  by (auto simp: auto_retry_def split: if_splits)

lemma fail_task_touches: "outcome_all (touches {} {i} w) (fail_task conf i w v)"
proof -
  let ?t = "w_tasks w ! i"
  let ?u = "w\<lparr>w_residual_tasks_num := w_residual_tasks_num w - 1\<rparr>"
  have "touches {} {i} w w'" if "oph_workflow_set_status (Suc (w_tasks_num w)) OPH_ODB_STATUS_ABORTED (t_dependents_indexes ?t) ?u = Some (rc, w')"
    for rc w'
    using touches_trans [OF touches_same touches_mono [OF set_status_touches [OF that]], of w] by (simp add: status_defs)
  then have abort: "outcome_all (touches {} {i} w) (fail_task conf i w v)" if "t_retry_num ?t = 0"
    using that unfolding fail_task_def Let_def
    by (auto simp: touches_same tch.transitive [of _ _ w] split: option.splits prod.splits)
  obtain again t where at: "(if nc_auto_retry conf \<noteq> 0 \<and> t_is_marked_for_auto_retry ?t \<and> t_retry_num ?t = 1
      then auto_retry (nc_auto_retry conf) ?t else (False, ?t)) = (again, t)" by fastforce
  then have t: "t_deps t = t_deps ?t" "t_residual_deps_num t = t_residual_deps_num ?t"
    by (auto split: if_splits dest: auto_retry_deps)
  have "touches {} {i} w (w\<lparr>w_tasks := (w_tasks w)[i := t\<lparr>t_residual_retry_num := t_residual_retry_num t - 1\<rparr>],
      w_residual_tasks_num := w_residual_tasks_num w - 1, w_status := nv_status v\<rparr>)"
    by (rule touches_at [of _ _ i]) (auto simp: t intro!: task_touched_frame)
  then show ?thesis
    using abort unfolding fail_task_def Let_def at by (auto simp: restart_task_touches t)
qed

lemma trace_output_touches: "outcome_all (touches D S w) (trace_output i w v)"
proof -
  have "touches D S w (w\<lparr>w_tasks := (w_tasks w)[i := (w_tasks w ! i)\<lparr>t_light_tasks := ls\<rparr>], w_output := os\<rparr>)" for ls os
    by (rule touches_at [of _ _ i]) (auto intro!: task_touched_frame)
  then show ?thesis by (simp add: trace_output_def oph_workflow_save_task_output_def)
qed

text \<open>
  The end of a task: the dependencies on it are cleared only if it has ended, with success or in spite of its errors. Otherwise nothing is
  cleared, and its own status may be taken back for a new trial.
\<close>

definition advanced :: "nat \<Rightarrow> oph_workflow \<Rightarrow> oph_workflow \<Rightarrow> bool" where
  "advanced i w w' \<longleftrightarrow> touches {} {i} w w' \<or> touches {i} {i} w w' \<and> OPH_ODB_STATUS_COMPLETED \<le> t_status (w_tasks w' ! i)"

lemma outcome_mono: "outcome_all P r \<Longrightarrow> (\<And>w. P w \<Longrightarrow> Q w) \<Longrightarrow> outcome_all Q r"
  by (cases r) auto

lemma touches_advanced:
  assumes "touches {i} {} w w'" and "i < length (w_tasks w)" and "OPH_ODB_STATUS_COMPLETED \<le> t_status (w_tasks w ! i)"
  shows "advanced i w w'"
proof -
  have "OPH_ODB_STATUS_COMPLETED \<le> t_status (w_tasks w' ! i)" using touches_nth(4) [OF assms(1,2)] assms(3) by auto
  moreover have "touches {i} {i} w w'" using assms(1) by (rule touches_mono) auto
  ultimately show ?thesis by (simp add: advanced_def)
qed

lemma end_task_advanced:
  assumes "i < length (w_tasks w)" and "OPH_ODB_STATUS_COMPLETED \<le> t_status (w_tasks w ! i)"
  shows "outcome_all (advanced i w) (end_task conf answer i outs w v)"
proof (cases "w_residual_tasks_num w = 0 \<or> keep_response i answer (t_dependents_indexes (w_tasks w ! i)) w = None")
  case True
  then show ?thesis by (auto simp: end_task_def advanced_def Let_def)
next
  case False
  then obtain w1 where w1: "keep_response i answer (t_dependents_indexes (w_tasks w ! i)) w = Some w1" by blast
  let ?v = "v\<lparr>nv_update_wf_data := 1\<rparr>" and ?t = "w_tasks w1 ! i"
  define w2 where "w2 = (if t_retry_num ?t < 0 \<and> t_status ?t > OPH_ODB_STATUS_COMPLETED \<and> t_status ?t < OPH_ODB_STATUS_SKIPPED
    then upd_task (\<lambda>t. t\<lparr>t_status := OPH_ODB_STATUS_SKIPPED\<rparr>) i w1 else w1)"
  define v2 where "v2 = (if t_retry_num ?t < 0 then ?v\<lparr>nv_status := OPH_ODB_STATUS_COMPLETED\<rparr> else ?v)"
  have "touches {} {} w1 w2" by (simp add: w2_def upd_task_touches task_touched_frame status_defs)
  then have t2: "touches {} {} w w2" using touches_trans [OF keep_response_touches [OF w1]] by blast
  have run: "end_task conf answer i outs w v =
      notify_then (if nv_status v2 = OPH_ODB_STATUS_COMPLETED then complete_task i outs w2 v2 else fail_task conf i w2 v2) (trace_output i)"
    using False unfolding end_task_def Let_def w1 w2_def v2_def by simp
  show ?thesis
  proof (cases "nv_status v2 = OPH_ODB_STATUS_COMPLETED")
    case True
    have "outcome_all (touches {i} {} w) (end_task conf answer i outs w v)"
      unfolding run if_P [OF True]
      by (rule tch.outcome_trans [OF touches_mono [OF t2]]) (auto intro!: tch.then_rel complete_task_touches trace_output_touches)
    then show ?thesis
      by (rule outcome_mono) (rule touches_advanced [OF _ assms])
  next
    case fail: False
    have "outcome_all (touches {} {i} w) (end_task conf answer i outs w v)"
      unfolding run if_not_P [OF fail]
      by (rule tch.outcome_trans [OF touches_mono [OF t2]]) (auto intro!: tch.then_rel fail_task_touches trace_output_touches)
    then show ?thesis by (rule outcome_mono) (simp add: advanced_def)
  qed
qed

text \<open>The status that ends a task is not below \<open>OPH_ODB_STATUS_COMPLETED\<close>, be it its own or that of its last child.\<close>

lemma notify_status_end:
  "notify_status s = Some status \<Longrightarrow> status = OPH_ODB_STATUS_COMPLETED \<or> status = OPH_ODB_STATUS_ERROR \<Longrightarrow> OPH_ODB_STATUS_COMPLETED \<le> s"
  by (auto simp: notify_status_def status_defs split: if_splits)

lemma task_status_result:
  "task_status conf i s w v = Notify_Go w' v' \<Longrightarrow> i < length (w_tasks w) \<Longrightarrow> t_status (w_tasks w' ! i) = s \<and> nv_status v' = nv_status v"
  by (auto simp: task_status_def Let_def split: if_splits)

lemma light_end_result:
  assumes "light_end i outs w v = Notify_Go w' v'" and "nv_massive_completed v'" and "\<not> nv_massive_completed v" and "i < length (w_tasks w)"
  shows "OPH_ODB_STATUS_COMPLETED \<le> t_status (w_tasks w' ! i)"
proof -
  have "i < length (w_tasks u)" if "light_outputs i outs (upd_task f i w) = Some u" for f u
    using light_outputs_touches [OF that] assms(4) by (simp add: touches_def upd_task_def)
  then show ?thesis
    using assms unfolding light_end_def Let_def
    by (auto simp: upd_task_def status_defs split: if_splits option.splits)
qed

lemma light_error_vars: "light_error conf i w v = Notify_Go w' v' \<Longrightarrow> nv_massive_completed v' = nv_massive_completed v"
  by (auto simp: light_error_def raise_status_def Let_def split: if_splits prod.splits)

lemma light_status_result:
  assumes "light_status conf i l s outs w v = Notify_Go w' v'" and "nv_massive_completed v'" and "\<not> nv_massive_completed v"
    and "i < length (w_tasks w)"
  shows "OPH_ODB_STATUS_COMPLETED \<le> t_status (w_tasks w' ! i)"
proof -
  let ?v = "if l_status (t_light_tasks (w_tasks w ! i) ! l) < s then v\<lparr>nv_update_light_task_data := True\<rparr> else v"
  let ?w = "upd_task (\<lambda>t. t\<lparr>t_light_tasks := (t_light_tasks t)[l := (t_light_tasks t ! l)\<lparr>l_status := s\<rparr>]\<rparr>) i w"
  let ?r = "if s = OPH_ODB_STATUS_START_ERROR then light_error conf i ?w ?v else Notify_Go ?w ?v"
  obtain w1 v1 where r: "?r = Notify_Go w1 v1"
    using assms(1) unfolding light_status_def Let_def by (cases ?r) (auto split: if_splits)
  have v1: "\<not> nv_massive_completed v1" using r assms(3) by (auto split: if_splits dest: light_error_vars)
  have "touches {} {i} ?w w1" using r light_error_touches [of i ?w conf ?v] by (auto split: if_splits)
  then have len: "i < length (w_tasks w1)" using assms(4) by (simp add: touches_def upd_task_def)
  have "(if nv_status v1 = OPH_ODB_STATUS_COMPLETED \<or> nv_status v1 = OPH_ODB_STATUS_ERROR then light_end i outs w1 v1
     else if nv_status v1 = OPH_ODB_STATUS_RUNNING then (case raise_status OPH_ODB_STATUS_RUNNING i w1 v1 of (w, v) \<Rightarrow> Notify_Go w v)
     else Notify_Go w1 v1) = Notify_Go w' v'"
    using assms(1) unfolding light_status_def Let_def r by (auto split: if_splits)
  then show ?thesis
    using light_end_result [OF _ assms(2) v1 len] assms(2) v1
    by (auto simp: raise_status_def Let_def split: if_splits prod.splits)
qed

lemma advanced_trans: "touches {} {i} w u \<Longrightarrow> advanced i u w' \<Longrightarrow> advanced i w w'"
  unfolding advanced_def by (meson touches_mono touches_trans order_refl empty_subsetI)

lemma process_advanced:
  assumes "i < length (w_tasks w)" and "nat (n_taskindex n) = i" and "notify_status (n_status n) = Some status"
  shows "outcome_all (advanced i w) (process_notification conf answer n status w)"
proof -
  define light where "light \<longleftrightarrow> n_lighttaskindex n \<ge> 0"
  let ?r = "if light then light_status conf i (nat (n_lighttaskindex n)) (n_status n) (n_outputs n) w (start_vars status)
    else task_status conf i (n_status n) w (start_vars status)"
  have touch: "outcome_all (touches {} {i} w) ?r" by (simp add: light_status_touches task_status_touches)
  have start: "\<not> nv_massive_completed (start_vars status)" "nv_status (start_vars status) = status" by (simp_all add: start_vars_def)
  show ?thesis
  proof (cases ?r)
    case (Notify_Go u v)
    have u: "touches {} {i} w u" using touch Notify_Go by simp
    then have len: "i < length (w_tasks u)" using assms(1) by (simp add: touches_def)
    have "OPH_ODB_STATUS_COMPLETED \<le> t_status (w_tasks u ! i)"
      if "\<not> (light \<and> \<not> nv_massive_completed v)" and "nv_status v = OPH_ODB_STATUS_COMPLETED \<or> nv_status v = OPH_ODB_STATUS_ERROR"
    proof (cases light)
      case True
      then show ?thesis using light_status_result [OF _ _ start(1) assms(1)] Notify_Go that(1) by auto
    next
      case False
      then have "t_status (w_tasks u ! i) = n_status n \<and> nv_status v = status"
        using task_status_result [OF _ assms(1)] Notify_Go start(2) by auto
      then show ?thesis using notify_status_end [OF assms(3)] that(2) by auto
    qed
    then have "outcome_all (advanced i u) (end_task conf answer i outs u v)"
      if "\<not> (light \<and> \<not> nv_massive_completed v)" and "nv_status v = OPH_ODB_STATUS_COMPLETED \<or> nv_status v = OPH_ODB_STATUS_ERROR" for outs
      using end_task_advanced [OF len] that by blast
    then have e: "outcome_all (advanced i w) (end_task conf answer i outs u v)"
      if "\<not> (light \<and> \<not> nv_massive_completed v)" and "nv_status v = OPH_ODB_STATUS_COMPLETED \<or> nv_status v = OPH_ODB_STATUS_ERROR" for outs
      using that advanced_trans [OF u] outcome_mono by blast
    have u': "advanced i w u" and us: "advanced i w (u\<lparr>w_status := s\<rparr>)" for s using u by (simp_all add: advanced_def touches_def)
    have "process_notification conf answer n status w =
        (if light \<and> \<not> nv_massive_completed v then Notify_Go u v
         else if length (w_tasks u) \<le> w_tasks_num u then Notify_Undefined
         else if nv_status v = OPH_ODB_STATUS_COMPLETED \<or> nv_status v = OPH_ODB_STATUS_ERROR then
           (if t_name (w_tasks u ! w_tasks_num u) \<noteq> None then Notify_Go u (v\<lparr>nv_update_wf_data := 1, nv_final := True\<rparr>)
            else end_task conf answer i (if light \<and> status = OPH_ODB_STATUS_COMPLETED then [] else n_outputs n) u v)
         else if nv_status v = OPH_ODB_STATUS_RUNNING \<and> w_status u < OPH_ODB_STATUS_RUNNING
         then Notify_Go (u\<lparr>w_status := OPH_ODB_STATUS_RUNNING\<rparr>) (v\<lparr>nv_update_wf_data := 1\<rparr>) else Notify_Go u v)"
      using Notify_Go unfolding process_notification_def Let_def assms(2) light_def by simp
    then show ?thesis using e u' us by simp
  next
    case (Notify_Stop rc u)
    then show ?thesis using touch unfolding process_notification_def Let_def assms(2) light_def by (simp add: advanced_def)
  next
    case Notify_Undefined
    then show ?thesis unfolding process_notification_def Let_def assms(2) light_def by simp
  qed
qed

section \<open>Runs\<close>

definition running :: "oph_workflow \<Rightarrow> nat \<Rightarrow> bool" where
  [code_defs]: "running w i \<longleftrightarrow> OPH_ODB_STATUS_UNKNOWN < t_status (w_tasks w ! i) \<and> t_status (w_tasks w ! i) < OPH_ODB_STATUS_COMPLETED"

text \<open>
  One notification of a running task, whatever it says, followed by the start of the next tasks. The answer to an
  internal request may come at any time; the other replies leave the workflow as it is.
\<close>

inductive workflow_step :: "string \<Rightarrow> oph_workflow \<Rightarrow> oph_workflow \<Rightarrow> bool" for web_server where
  go: "workflow_step web_server w w3"
    if "notify_parse data = Inr n" and "running w (nat (n_taskindex n))"
      and "oph_workflow_notify conf (\<lambda>_. Some w) data output_json answer = Reply_Processed (Notify_Go w1 v)"
      and "next_tasks web_server (nat (n_taskindex n)) w1 v = Some (is, w2)" and "execute_tasks is w2 = Some w3"
| stop: "workflow_step web_server w w1"
    if "notify_parse data = Inr n" and "running w (nat (n_taskindex n))"
      and "oph_workflow_notify conf (\<lambda>_. Some w) data output_json answer = Reply_Processed (Notify_Stop rc w1)"
| internal: "workflow_step web_server w w1"
    if "oph_workflow_notify conf (\<lambda>_. Some w) data output_json answer = Reply_Internal w1"

definition waits :: "nat \<Rightarrow> oph_workflow_task \<Rightarrow> bool" where
  [code_defs]: "waits p t \<longleftrightarrow> list_ex (\<lambda>d. d_task_index d = int p) (t_deps t)"

text \<open>
  The invariant of a run, for the dependencies \<open>G\<close> of the workflow: the residual dependencies of a task are those that are not cleared, a
  dependency is only cleared when the task has ended, and a running task has no residual dependencies.
\<close>

definition schedule_ok :: "(nat \<times> nat) set \<Rightarrow> oph_workflow \<Rightarrow> bool" where
  "schedule_ok G w \<longleftrightarrow> w_tasks_num w < length (w_tasks w) \<and> G \<subseteq> {..<length (w_tasks w)} \<times> {..<length (w_tasks w)} \<and>
     (\<forall>j < length (w_tasks w). counted (w_tasks w ! j) = 0) \<and>
     (\<forall>(p, j) \<in> G. waits p (w_tasks w ! j) \<or> OPH_ODB_STATUS_COMPLETED \<le> t_status (w_tasks w ! p)) \<and>
     (\<forall>j < length (w_tasks w). running w j \<longrightarrow> t_residual_deps_num (w_tasks w ! j) = 0)"

lemma schedule_okD:
  assumes "schedule_ok G w"
  shows "w_tasks_num w < length (w_tasks w)" and "(p, j) \<in> G \<Longrightarrow> p < length (w_tasks w) \<and> j < length (w_tasks w)"
    and "j < length (w_tasks w) \<Longrightarrow> counted (w_tasks w ! j) = 0"
    and "(p, j) \<in> G \<Longrightarrow> waits p (w_tasks w ! j) \<or> OPH_ODB_STATUS_COMPLETED \<le> t_status (w_tasks w ! p)"
    and "j < length (w_tasks w) \<Longrightarrow> running w j \<Longrightarrow> t_residual_deps_num (w_tasks w ! j) = 0"
  using assms by (auto simp: schedule_ok_def)

lemma residual_0: "counted t = 0 \<Longrightarrow> t_residual_deps_num t = 0 \<longleftrightarrow> (\<forall>d \<in> set (t_deps t). d_task_index d < 0)"
  by (auto simp: counted_def filter_empty_conv)

lemma residual_0_waits: "counted t = 0 \<Longrightarrow> t_residual_deps_num t = 0 \<Longrightarrow> \<not> waits p t"
  by (auto simp: residual_0 waits_def list_ex_iff)

lemma touches_residual_0:
  assumes "touches D S w w'" and "j < length (w_tasks w)" and "counted (w_tasks w ! j) = 0" and "t_residual_deps_num (w_tasks w ! j) = 0"
  shows "t_residual_deps_num (w_tasks w' ! j) = 0"
proof -
  note t = touches_nth [OF assms(1,2)]
  have "\<forall>d \<in> set (t_deps (w_tasks w ! j)). d_task_index d < 0" using assms(3,4) residual_0 by blast
  then have "d_task_index (t_deps (w_tasks w' ! j) ! k) < 0" if "k < length (t_deps (w_tasks w' ! j))" for k
    using that t(1) t(2) [of k] nth_mem [of k "t_deps (w_tasks w ! j)"] by (auto simp: moves_def)
  then show ?thesis using residual_0 [of "w_tasks w' ! j"] t(3) assms(3) by (auto simp: in_set_conv_nth)
qed

lemma touches_waits:
  assumes "touches D S w w'" and "j < length (w_tasks w)" and "waits p (w_tasks w ! j)" and "p \<notin> D"
  shows "waits p (w_tasks w' ! j)"
proof -
  note t = touches_nth [OF assms(1,2)]
  obtain k where "k < length (t_deps (w_tasks w ! j))" "d_task_index (t_deps (w_tasks w ! j) ! k) = int p"
    using assms(3) by (auto simp: waits_def list_ex_length)
  then show ?thesis using t(1) t(2) [of k] assms(4) by (auto simp: waits_def list_ex_length moves_def)
qed

text \<open>The invariant is kept by the steps of a notification of a running task, and by the start of the next ones.\<close>

lemma schedule_ok_touches:
  assumes "schedule_ok G w" and "touches D S w w'"
    and "\<forall>p \<in> D. OPH_ODB_STATUS_COMPLETED \<le> t_status (w_tasks w' ! p)"
    and "\<forall>p \<in> S. t_residual_deps_num (w_tasks w ! p) = 0 \<and> t_status (w_tasks w ! p) < OPH_ODB_STATUS_COMPLETED"
  shows "schedule_ok G w'"
proof -
  note ok = schedule_okD [OF assms(1)] and t = touches_nth [OF assms(2)]
  have len: "length (w_tasks w') = length (w_tasks w)" "w_tasks_num w' = w_tasks_num w" using assms(2) by (simp_all add: touches_def)
  have "waits p (w_tasks w' ! j) \<or> OPH_ODB_STATUS_COMPLETED \<le> t_status (w_tasks w' ! p)" if g: "(p, j) \<in> G" for p j
  proof (cases "p \<in> D \<or> OPH_ODB_STATUS_COMPLETED \<le> t_status (w_tasks w ! p)")
    case True
    then show ?thesis using assms(3,4) t(4) [of p] ok(2) [OF g] by fastforce
  next
    case False
    then show ?thesis using touches_waits [OF assms(2)] ok(2,4) [OF g] by blast
  qed
  moreover have "t_residual_deps_num (w_tasks w' ! j) = 0" if "j < length (w_tasks w)" "running w' j" for j
  proof (rule touches_residual_0 [OF assms(2) that(1) ok(3) [OF that(1)]])
    show "t_residual_deps_num (w_tasks w ! j) = 0"
      using t(4) [OF that(1)] that ok(5) [OF that(1)] assms(4) by (auto simp: running_def)
  qed
  ultimately show ?thesis using ok(1-3) t(3) len by (auto simp: schedule_ok_def)
qed

lemma schedule_ok_advanced:
  assumes "schedule_ok G w" and "advanced i w w'" and "running w i" and "i < length (w_tasks w)"
  shows "schedule_ok G w'"
proof -
  have i: "t_residual_deps_num (w_tasks w ! i) = 0 \<and> t_status (w_tasks w ! i) < OPH_ODB_STATUS_COMPLETED"
    using schedule_okD(5) [OF assms(1,4,3)] assms(3) by (simp add: running_def)
  from assms(2) show ?thesis
    unfolding advanced_def by (elim disjE conjE) (use schedule_ok_touches [OF assms(1)] i in blast)+
qed

definition task_started :: "oph_workflow_task \<Rightarrow> oph_workflow_task \<Rightarrow> bool" where
  "task_started t t' \<longleftrightarrow> t_deps t' = t_deps t \<and> t_residual_deps_num t' = t_residual_deps_num t \<and>
     (t_status t' = t_status t \<or> t_status t = 0 \<and> t_residual_deps_num t = 0 \<and> t_status t' = OPH_ODB_STATUS_PENDING)"

lemma task_started_trans: "task_started t u \<Longrightarrow> task_started u t' \<Longrightarrow> task_started t t'"
  by (auto simp: task_started_def)

lemma prepare_tasks_started:
  assumes "prepare_tasks is w = Some w'"
  shows "w_tasks_num w' = w_tasks_num w \<and> length (w_tasks w') = length (w_tasks w) \<and>
    (\<forall>j < length (w_tasks w). task_started (w_tasks w ! j) (w_tasks w' ! j))"
  using assms
proof (induction "is" w rule: prepare_tasks.induct)
  case (2 i "is" w)
  show ?case
  proof (cases "ready w i")
    case True
    let ?u = "\<lambda>args. upd_task (\<lambda>t. t\<lparr>t_arguments := args, t_status := OPH_ODB_STATUS_PENDING\<rparr>) (nat i) w"
    obtain args where run: "prepare_tasks is (?u args) = Some w'"
        "\<not> (length (w_tasks w) \<le> w_tasks_num w \<or> i = int (w_tasks_num w) \<and> t_name (w_tasks w ! w_tasks_num w) = None)"
        "fill_arguments (t_arguments (w_tasks w ! nat i)) = Some args"
      using True 2(3) by (auto split: if_splits bind_splits)
    note IH = 2(2) [OF run(2) _ run(3,1)]
    have "nat i < length (w_tasks w)" using True run(2) by (auto simp: ready_def)
    then have "task_started (w_tasks w ! j) (w_tasks (?u args) ! j)" if "j < length (w_tasks w)" for j
      using True that by (auto simp: upd_task_def nth_list_update ready_def task_started_def)
    moreover have "w_tasks_num w' = w_tasks_num w" and len: "length (w_tasks w') = length (w_tasks w)"
      and "\<forall>j < length (w_tasks w). task_started (w_tasks (?u args) ! j) (w_tasks w' ! j)"
      using IH True by (simp_all add: upd_task_def)
    ultimately show ?thesis using task_started_trans by blast
  next
    case False
    then show ?thesis using 2 by (auto split: if_splits)
  qed
qed (simp add: task_started_def)

lemma schedule_ok_execute:
  assumes "schedule_ok G w" and "execute_tasks is w = Some w'"
  shows "schedule_ok G w'"
proof (cases "w' = w")
  case False
  then have "prepare_tasks is w = Some w'" using assms(2) by (auto simp: execute_tasks_def split: if_splits)
  note p = prepare_tasks_started [OF this] and ok = schedule_okD [OF assms(1)]
  have "counted (w_tasks w' ! j) = 0" if "j < length (w_tasks w)" for j using p ok(3) that by (auto simp: counted_def task_started_def)
  moreover have "waits q (w_tasks w' ! j) \<or> OPH_ODB_STATUS_COMPLETED \<le> t_status (w_tasks w' ! q)" if "(q, j) \<in> G" for q j
    using p ok(2,4) [OF that] by (force simp: waits_def status_defs task_started_def)
  moreover have "t_residual_deps_num (w_tasks w' ! j) = 0" if "j < length (w_tasks w)" "running w' j" for j
    using p ok(5) [OF that(1)] that by (auto simp: running_def task_started_def)
  ultimately show ?thesis using p ok(1,2) by (auto simp: schedule_ok_def)
qed (use assms in simp)

lemma final_task_touches: "final_task op args w = (e, ft, w') \<Longrightarrow> touches D S w w'"
  by (rule touches_at [of _ _ "w_tasks_num w"])
    (auto simp: final_task_def Let_def upd_task_def split: if_splits intro!: task_touched_frame)

lemma final_operation_touches: "final_operation web_server w = Some (e, ft, w') \<Longrightarrow> touches D S w w'"
proof -
  have "touches D S w (w'\<lparr>w_exit_cubes := c\<rparr>)" and "touches D S w (w'\<lparr>w_exit_containers := c\<rparr>)"
    if "final_task op args w = (e, ft, w')" for op args e ft w' c
    using final_task_touches [OF that, of D S] by (simp_all add: touches_def)
  then show "final_operation web_server w = Some (e, ft, w') \<Longrightarrow> touches D S w w'"
    unfolding final_operation_def
    by (auto split: option.splits bind_splits prod.splits list.splits simp: touches_same)
qed

lemma next_tasks_touches: "next_tasks web_server i w v = Some (is, w') \<Longrightarrow> touches D S w w'"
  by (auto simp: next_tasks_def split: option.splits prod.splits if_splits dest: final_operation_touches)

lemma internal_answer_touches: "touches D S w (internal_answer n status output_json w)"
  unfolding internal_answer_def by (rule upd_task_touches) (auto simp: Let_def intro!: task_touched_frame)

lemma notify_advanced:
  assumes "notify_parse data = Inr n" and "oph_workflow_notify conf (\<lambda>_. Some w) data output_json answer = Reply_Processed r"
  shows "outcome_all (advanced (nat (n_taskindex n)) w) r \<and> (r = Notify_Undefined \<or> nat (n_taskindex n) < length (w_tasks w))"
  using assms unfolding oph_workflow_notify_def
  by (auto simp: valid_index_def process_advanced split: option.splits if_splits bool.splits)

lemma notify_internal:
  "oph_workflow_notify conf (\<lambda>_. Some w) data output_json answer = Reply_Internal w' \<Longrightarrow> touches D S w w'"
  unfolding oph_workflow_notify_def
  by (auto simp: internal_answer_touches split: option.splits if_splits sum.splits bool.splits)

lemma workflow_step_ok:
  assumes "workflow_step web_server w w'" and "schedule_ok G w"
  shows "schedule_ok G w'"
  using assms
proof (cases rule: workflow_step.cases)
  case (go data n conf output_json answer w1 v "is" w2)
  have "schedule_ok G w1"
    using schedule_ok_advanced [OF assms(2) _ go(2)] notify_advanced [OF go(1,3)] by auto
  then have "schedule_ok G w2" using schedule_ok_touches [OF _ next_tasks_touches [OF go(4)], of G "{}" "{}"] by simp
  then show ?thesis using schedule_ok_execute go(5) by blast
next
  case (stop data n conf output_json answer rc)
  then show ?thesis using schedule_ok_advanced [OF assms(2) _ stop(2)] notify_advanced [OF stop(1,3)] by auto
next
  case (internal conf data output_json answer)
  then show ?thesis using schedule_ok_touches [OF assms(2) notify_internal [OF internal], of "{}" "{}"] by simp
qed

lemma run_ok: "(workflow_step web_server)\<^sup>*\<^sup>* w w' \<Longrightarrow> schedule_ok G w \<Longrightarrow> schedule_ok G w'"
  by (induction rule: rtranclp_induct) (auto intro: workflow_step_ok)

text \<open>The tasks of a workflow as they are when it is submitted: none was started, and all their dependencies are to be waited for.\<close>

definition fresh :: "oph_workflow_task list \<Rightarrow> bool" where
  [code_defs]: "fresh ts \<longleftrightarrow> list_all (\<lambda>t. t_status t = OPH_ODB_STATUS_UNKNOWN \<and> t_residual_deps_num t = int (length (t_deps t))) ts"

lemma schedule_ok_start:
  assumes "oph_workflow_indexing ts N = Some (OPH_WORKFLOW_EXIT_SUCCESS, w_tasks w)" and "not_indexed N ts"
    and "distinct (map t_name (take N ts))" and "w_tasks_num w = N" and "length ts = Suc N" and "fresh (w_tasks w)"
    and "t_deps (w_tasks w ! N) = []"
  shows "schedule_ok (dep_rel N ts) w"
proof -
  note run = indexing_run [OF assms(1,2)]
  have len: "length (w_tasks w) = Suc N" using run(2) assms(5) by (simp add: same_deps_def)
  have fresh: "t_status (w_tasks w ! j) = OPH_ODB_STATUS_UNKNOWN \<and> t_residual_deps_num (w_tasks w ! j) = int (length (t_deps (w_tasks w ! j)))"
    if "j < Suc N" for j using assms(6) that len by (simp add: fresh_def list_all_length)
  have "d_task_index d \<ge> 0" if "j < Suc N" "d \<in> set (t_deps (w_tasks w ! j))" for j d
    using run(4) [of j] that assms(7) same_deps_length [OF run(2), of j] by (fastforce simp: in_set_conv_nth less_Suc_eq)
  then have "counted (w_tasks w ! j) = 0" if "j < Suc N" for j using fresh [OF that] that by (simp add: counted_def)
  moreover have "waits p (w_tasks w ! j)" if "(p, j) \<in> dep_rel N ts" for p j
    using indexed_edge [OF assms(1-3), of p j] that by (auto simp: dep_rel_def waits_def list_ex_iff)
  moreover have "\<not> running w j" if "j < Suc N" for j using fresh [OF that] by (simp add: running_def)
  ultimately show ?thesis using len assms(4) by (auto simp: schedule_ok_def dep_rel_def)
qed

section \<open>Properties\<close>

text \<open>
  C2: no task of a workflow is executed before the tasks that it depends on have ended. In every state that an indexed workflow reaches
  from its initial tasks by notifications of running tasks, whatever they report (errors and retries, skipped tasks, the children of massive
  operations), a task that is running depends only on tasks that have ended, and the number of residual dependencies of a task is that of the
  dependencies not yet satisfied.\<close>

theorem workflow_run_no_early_start:
  assumes "oph_workflow_indexing ts N = Some (OPH_WORKFLOW_EXIT_SUCCESS, w_tasks w)" and "not_indexed N ts"
    and "distinct (map t_name (take N ts))" and "w_tasks_num w = N" and "length ts = Suc N" and "fresh (w_tasks w)"
    and "t_deps (w_tasks w ! N) = []"
    and "execute_tasks (map int (snd (oph_workflow_init (w_tasks w) N))) w = Some w1" and "(workflow_step web_server)\<^sup>*\<^sup>* w1 w2"
  shows "j < length (w_tasks w2) \<longrightarrow>
      t_residual_deps_num (w_tasks w2 ! j) = int (length (filter (\<lambda>d. d_task_index d \<ge> 0) (t_deps (w_tasks w2 ! j)))) \<and>
      (running w2 j \<longrightarrow> (\<forall>p. (p, j) \<in> dep_rel N ts \<longrightarrow> OPH_ODB_STATUS_COMPLETED \<le> t_status (w_tasks w2 ! p)))"
proof -
  have "schedule_ok (dep_rel N ts) w2"
    using run_ok [OF assms(9)] schedule_ok_execute [OF schedule_ok_start [OF assms(1-7)] assms(8)] by blast
  note ok = schedule_okD [OF this]
  show ?thesis using ok(3) ok(4) ok(5) residual_0_waits by (fastforce simp: counted_def)
qed

definition demo_embedded :: "string \<Rightarrow> oph_workflow_dep" where
  [code_defs]: "demo_embedded n = (demo_dep n)\<lparr>d_type := Some ''embedded''\<rparr>"

definition demo_pipeline :: "oph_workflow_task list" where
  [code_defs]: "demo_pipeline =
     [zero_task\<lparr>t_name := Some ''a'', t_operator := Some ''oph_create''\<rparr>,
      zero_task\<lparr>t_name := Some ''b'', t_operator := Some ''oph_reduce'', t_deps := [demo_embedded ''a''], t_residual_deps_num := 1\<rparr>, zero_task]"

definition demo_submitted :: oph_workflow where
  [code_defs]: "demo_submitted = empty_workflow
     \<lparr>w_tasks := [zero_task\<lparr>t_name := Some ''a'', t_operator := Some ''oph_create'', t_dependents_indexes := [1]\<rparr>,
        zero_task\<lparr>t_name := Some ''b'', t_operator := Some ''oph_reduce'', t_deps := [(demo_embedded ''a'')\<lparr>d_task_index := 0\<rparr>],
          t_residual_deps_num := 1\<rparr>, zero_task],
      w_tasks_num := 2, w_residual_tasks_num := 2\<rparr>"

definition demo_conf :: notify_conf where
  [code_defs]: "demo_conf = \<lparr>nc_auto_retry = 0, nc_missing = False, nc_saved = True\<rparr>"

definition demo_started :: oph_workflow where
  [code_defs]: "demo_started = upd_task (\<lambda>t. t\<lparr>t_status := OPH_ODB_STATUS_PENDING\<rparr>) 0 demo_submitted"

definition demo_data :: "int \<Rightarrow> string" where
  [code_defs]: "demo_data i = base_notification 1 i (- 1) 7 OPH_ODB_STATUS_COMPLETED ''S'' 1 ''yes''"

definition demo_ended :: "nat \<Rightarrow> int \<Rightarrow> oph_workflow \<Rightarrow> oph_workflow" where
  [code_defs]: "demo_ended i s w = upd_task (\<lambda>t. t\<lparr>t_status := OPH_ODB_STATUS_COMPLETED, t_outputs := [(Some ''save'', Some ''yes'')],
     t_outputs_file := - 1\<rparr>) i (w\<lparr>w_residual_tasks_num := w_residual_tasks_num w - 1, w_status := s,
       w_output := [\<lparr>o_markerid = 0, o_status = OPH_ODB_STATUS_COMPLETED, o_name = t_name (w_tasks w ! i), o_light_task_outs = [], o_response = None\<rparr>]\<rparr>)"

definition demo_advanced :: oph_workflow where
  [code_defs]: "demo_advanced = upd_task (\<lambda>t. t\<lparr>t_status := OPH_ODB_STATUS_PENDING\<rparr>) 1
     (upd_task (clear_dep 0) 1 (demo_ended 0 0 demo_started))"

definition demo_vars :: notify_vars where
  [code_defs]: "demo_vars = (start_vars OPH_ODB_STATUS_COMPLETED)\<lparr>nv_update_wf_data := 2, nv_update_task_data := 1, nv_task_completed := True\<rparr>"

lemmas notify_eval =
  status_defs notify_status_def valid_index_def process_notification_def task_status_def start_vars_def upd_task_def empty_workflow_def
  zero_task_def end_task_def demo_conf_def complete_task_def set_outputs_def file_output_def is_key_short OPH_MAX_STRING_SIZE_def upt_rec
  demo_embedded_def demo_dep_def exit_operation_def clear_dep_def strncasecmp_eq_def close_completed_def trace_output_def already_traced_def
  oph_workflow_save_task_output_def demo_ended_def Let_def

lemma demo_indexed_pipeline: "oph_workflow_indexing demo_pipeline 2 = Some (OPH_WORKFLOW_EXIT_SUCCESS, w_tasks demo_submitted)"
  by (simp add: code_defs eval_nat_numeral upt_rec)

lemma demo_execute: "execute_tasks (map int (snd (oph_workflow_init (w_tasks demo_submitted) 2))) demo_submitted = Some demo_started"
  by (simp add: code_defs upt_rec eval_nat_numeral)

lemma demo_parse:
  "notify_parse (demo_data 0) = Inr \<lparr>n_jobid = 7, n_status = 12, n_parentid = 1, n_taskindex = 0, n_lighttaskindex = - 1, n_markerid = 1,
     n_sessionid = Some ''S'', n_query = None, n_outputs = [(''save'', ''yes'')]\<rparr>"
  unfolding demo_data_def by (subst notify_parse_base) (simp_all add: is_c_int_def value_ok_def status_defs OPH_MAX_STRING_SIZE_def)

lemma demo_notify:
  "oph_workflow_notify demo_conf (\<lambda>_. Some demo_started) (demo_data 0) None [] =
     Reply_Processed (Notify_Go (upd_task (clear_dep 0) 1 (demo_ended 0 0 demo_started)) demo_vars)"
  unfolding oph_workflow_notify_def demo_parse
  by (simp add: notify_eval demo_vars_def demo_started_def demo_submitted_def)

lemma demo_step: "workflow_step ''web'' demo_started demo_advanced"
proof (rule workflow_step.go [OF demo_parse _ demo_notify])
  let ?w = "upd_task (clear_dep 0) 1 (demo_ended 0 0 demo_started)"
  show "next_tasks ''web'' (nat (n_taskindex \<lparr>n_jobid = 7, n_status = 12, n_parentid = 1, n_taskindex = 0, n_lighttaskindex = - 1, n_markerid = 1,
     n_sessionid = Some ''S'', n_query = None, n_outputs = [(''save'', ''yes'')]\<rparr>)) ?w demo_vars = Some ([1], ?w)"
    by (simp add: next_tasks_def demo_vars_def start_vars_def notify_eval demo_started_def demo_submitted_def)
  show "execute_tasks [1] ?w = Some demo_advanced"
    by (simp add: execute_tasks_def ready_def notify_eval demo_started_def demo_submitted_def demo_advanced_def)
qed (simp add: running_def notify_eval demo_started_def demo_submitted_def)

theorem workflow_run_no_early_start_witness:
  "(workflow_step ''web'')\<^sup>*\<^sup>* demo_started demo_advanced \<and> running demo_advanced 1 \<and>
   OPH_ODB_STATUS_COMPLETED \<le> t_status (w_tasks demo_advanced ! 0)"
proof -
  have r: "(workflow_step ''web'')\<^sup>*\<^sup>* demo_started demo_advanced" using demo_step by blast
  have run: "running demo_advanced 1" "1 < length (w_tasks demo_advanced)"
    by (simp_all add: running_def notify_eval demo_started_def demo_submitted_def demo_advanced_def)
  have "not_indexed 2 demo_pipeline" "distinct (map t_name (take 2 demo_pipeline))" "w_tasks_num demo_submitted = 2" "length demo_pipeline = Suc 2"
    "fresh (w_tasks demo_submitted)" "t_deps (w_tasks demo_submitted ! 2) = []"
    by (simp_all add: demo_pipeline_def demo_submitted_def fresh_def not_indexed_def notify_eval eval_nat_numeral)
  moreover have "(0, 1) \<in> dep_rel 2 demo_pipeline" by (simp add: dep_rel_def demo_pipeline_def notify_eval)
  ultimately show ?thesis
    using workflow_run_no_early_start [OF demo_indexed_pipeline _ _ _ _ _ _ demo_execute r, of 1] r run by auto
qed

end
