(* ===== verification/Workflow_Progress.thy ===== *)
theory Workflow_Progress
  imports Workflow_Schedule
begin

text \<open>
  The runs of a workflow whose tasks end with success: in every state that is reached, the number of the residual tasks is that of the tasks
  that have not ended, one of them is running, and the notification of its end is processed and starts the tasks that were waiting for it.
\<close>

section \<open>The end of a task\<close>

text \<open>A task that is executed as one job and does not remove its outputs at the end of the workflow, and a task of that kind after its end.\<close>

definition plain_task :: "nat \<Rightarrow> nat \<Rightarrow> oph_workflow_task \<Rightarrow> bool" where
  [code_defs]: "plain_task N j t \<longleftrightarrow> t_operator t \<noteq> None \<and> t_light_tasks t = [] \<and> \<not> t_is_marked_for_auto_retry t \<and> t_exit_action t \<noteq> 1 \<and>
     t_exit_action t \<noteq> 2 \<and> args_ok (t_arguments t) \<and> list_all (dep_ok t) (t_deps t) \<and>
     list_all (\<lambda>k. 0 \<le> k \<and> k < int N \<and> k \<noteq> int j) (t_dependents_indexes t)"

definition ended :: "oph_workflow_task \<Rightarrow> oph_workflow_task \<Rightarrow> bool" where
  "ended t t' \<longleftrightarrow> (\<exists>s auto resp outs file. OPH_ODB_STATUS_COMPLETED \<le> s \<and>
     t' = t\<lparr>t_status := s, t_residual_auto_retry_num := auto, t_response := resp, t_outputs := outs, t_outputs_file := file\<rparr>)"

lemma keep_response_defined:
  assumes "\<forall>k \<in> set deps. valid_index w k \<and> t_operator (w_tasks w ! nat k) \<noteq> None" and "i < length (w_tasks w)"
  shows "\<exists>resp. keep_response i answer deps w = Some (upd_task (\<lambda>t. t\<lparr>t_response := resp\<rparr>) i w)"
  using assms
proof (induction deps arbitrary: w)
  case Nil
  have "upd_task (\<lambda>t. t\<lparr>t_response := t_response (w_tasks w ! i)\<rparr>) i w = w" by (simp add: upd_task_def)
  then show ?case by (metis keep_response.simps(1))
next
  case (Cons k deps)
  obtain op where op: "t_operator (w_tasks w ! nat k) = Some op" and k: "valid_index w k" using Cons.prems(1) by auto
  let ?u = "upd_task (\<lambda>t. t\<lparr>t_response := Some answer\<rparr>) i w"
  have "\<forall>k \<in> set deps. valid_index ?u k \<and> t_operator (w_tasks ?u ! nat k) \<noteq> None"
    using Cons.prems by (auto simp: upd_task_def valid_index_def nth_list_update)
  then have "\<exists>resp. keep_response i answer deps ?u = Some (upd_task (\<lambda>t. t\<lparr>t_response := resp\<rparr>) i ?u)"
    by (rule Cons.IH) (use Cons.prems in \<open>simp add: upd_task_def\<close>)
  moreover have "upd_task (\<lambda>t. t\<lparr>t_response := resp\<rparr>) i ?u = upd_task (\<lambda>t. t\<lparr>t_response := resp\<rparr>) i w" for resp
    using Cons.prems(2) by (simp add: upd_task_def)
  ultimately show ?case using op k Cons.IH [of w] Cons.prems by auto
qed

lemma file_output_ok: "outputs_ok (map (\<lambda>(k, x). (Some k, Some x)) outs)"
  by (auto simp: outputs_ok_def list_all_iff)

lemma save_known_frame:
  "\<exists>cube cdd cwd. save_known outs w = w\<lparr>w_cube := cube, w_cdd := cdd, w_cwd := cwd\<rparr>"
proof (induction outs w rule: save_known.induct)
  case (1 w)
  have "save_known [] w = w\<lparr>w_cube := w_cube w, w_cdd := w_cdd w, w_cwd := w_cwd w\<rparr>" by simp
  then show ?case by blast
next
  case (2 k x outs w)
  then show ?case by (auto split: if_splits)
qed

text \<open>What the end of the task \<open>i\<close> makes of the workflow.\<close>

definition completes :: "nat \<Rightarrow> oph_workflow \<Rightarrow> oph_workflow \<Rightarrow> bool" where
  "completes i w w' \<longleftrightarrow> w_tasks_num w' = w_tasks_num w \<and> length (w_tasks w') = length (w_tasks w) \<and>
     w_residual_tasks_num w' = w_residual_tasks_num w - 1 \<and> w_exit_cubes w' = w_exit_cubes w \<and> w_exit_containers w' = w_exit_containers w \<and>
     w_is_closed w' = w_is_closed w \<and> w_status w' = (if w_residual_tasks_num w = 1 \<and> w_status w < OPH_ODB_STATUS_COMPLETED then OPH_ODB_STATUS_COMPLETED else w_status w) \<and>
     (\<forall>j < length (w_tasks w).
        if j = i then ended (w_tasks w ! i) (w_tasks w' ! i)
        else if int j \<in> set (t_dependents_indexes (w_tasks w ! i)) then released i (w_tasks w ! j) (w_tasks w' ! j)
        else w_tasks w' ! j = w_tasks w ! j)"

lemma set_outputs_plain:
  assumes "t_outputs (w_tasks w ! i) = []"
  shows "\<exists>outputs outf. set_outputs i outs w v =
    Notify_Go (upd_task (\<lambda>t. t\<lparr>t_outputs := outputs, t_outputs_file := outf\<rparr>) i w) v \<and> outputs_ok outputs"
  using assms file_output_ok by (cases "file_output outs") (auto simp: set_outputs_def)

lemma exit_operation_plain:
  "t_exit_action (w_tasks w ! i) \<noteq> 1 \<Longrightarrow> t_exit_action (w_tasks w ! i) \<noteq> 2 \<Longrightarrow> exit_operation i w v = Notify_Go w v"
  by (simp add: exit_operation_def Let_def)

lemma complete_task_completes:
  assumes "i < w_tasks_num w" and "length (w_tasks w) = Suc (w_tasks_num w)" and "plain_task (w_tasks_num w) i (w_tasks w ! i)"
    and "t_status (w_tasks w ! i) = OPH_ODB_STATUS_COMPLETED" and "t_outputs (w_tasks w ! i) = []"
    and "\<forall>x \<in> set (t_dependents_indexes (w_tasks w ! i)). release_ok i (w_tasks w ! nat x)"
    and "\<not> nv_check_for_constraint v" and "w_status w < OPH_ODB_STATUS_COMPLETED" and "nv_status v = OPH_ODB_STATUS_COMPLETED"
    and "nv_update_wf_data v \<noteq> 0" and "\<not> nv_retry_task_execution v" and "\<not> nv_final v"
  shows "\<exists>w' v'. complete_task i outs w v = Notify_Go w' v' \<and> completes i w w' \<and> nv_update_wf_data v' \<noteq> 0 \<and> nv_task_completed v' \<and>
    nv_final v' = (w_residual_tasks_num w = 1) \<and> \<not> nv_retry_task_execution v'"
proof -
  let ?t = "w_tasks w ! i" and ?v = "v\<lparr>nv_task_completed := True\<rparr>"
  have len: "i < length (w_tasks w)" using assms(1,2) by simp
  define s where "s = (if t_is_skipped ?t then OPH_ODB_STATUS_UNSELECTED else OPH_ODB_STATUS_COMPLETED)"
  define u where "u = (if t_is_skipped ?t \<and> t_status ?t \<le> OPH_ODB_STATUS_COMPLETED
      then upd_task (\<lambda>t. t\<lparr>t_status := OPH_ODB_STATUS_UNSELECTED\<rparr>) i w else w)"
  have "?t\<lparr>t_status := OPH_ODB_STATUS_COMPLETED\<rparr> = ?t" using assms(4) by simp
  note e = this
  have u: "u\<lparr>w_residual_tasks_num := w_residual_tasks_num u - 1\<rparr> =
      w\<lparr>w_tasks := (w_tasks w)[i := ?t\<lparr>t_status := s\<rparr>], w_residual_tasks_num := w_residual_tasks_num w - 1\<rparr>" (is "_ = ?u")
    by (cases "t_is_skipped ?t") (simp_all add: u_def s_def upd_task_def assms(4) e)
  obtain cube cdd cwd where w0: "save_known outs ?u = ?u\<lparr>w_cube := cube, w_cdd := cdd, w_cwd := cwd\<rparr>"
    using save_known_frame [of outs ?u] by blast
  let ?w0 = "?u\<lparr>w_cube := cube, w_cdd := cdd, w_cwd := cwd\<rparr>"
  obtain outputs outf where so: "set_outputs i outs ?w0 ?v = Notify_Go (upd_task (\<lambda>t. t\<lparr>t_outputs := outputs, t_outputs_file := outf\<rparr>) i ?w0) ?v"
    and oo: "outputs_ok outputs"
    using set_outputs_plain [of ?w0 i outs ?v] assms(5) len by auto
  let ?t1 = "?t\<lparr>t_status := s, t_outputs := outputs, t_outputs_file := outf\<rparr>"
  define w1 where "w1 = ?w0\<lparr>w_tasks := (w_tasks w)[i := ?t1]\<rparr>"
  have w1: "upd_task (\<lambda>t. t\<lparr>t_outputs := outputs, t_outputs_file := outf\<rparr>) i ?w0 = w1" using len by (simp add: upd_task_def w1_def)
  have t1: "w_tasks w1 ! i = ?t1" "w_tasks_num w1 = w_tasks_num w" "w_tasks w1 = (w_tasks w)[i := ?t1]"
    using len by (simp_all add: w1_def)
  have plain: "t_light_tasks ?t = []" "\<forall>x \<in> set (t_dependents_indexes ?t). 0 \<le> x \<and> x < int (w_tasks_num w) \<and> x \<noteq> int i"
    "t_exit_action ?t \<noteq> 1" "t_exit_action ?t \<noteq> 2"
    using assms(3) by (auto simp: plain_task_def list_all_iff)
  have "\<exists>ts. dependents_loop i (t_dependents_indexes ?t) w1 ?v = Notify_Go (w1\<lparr>w_tasks := ts\<rparr>) ?v \<and> length ts = length (w_tasks w1) \<and>
      (\<forall>j < length ts. if int j \<in> set (t_dependents_indexes ?t) then released i (w_tasks w1 ! j) (ts ! j) else ts ! j = w_tasks w1 ! j)"
  proof (rule dependents_loop_released)
    show "\<forall>x \<in> set (t_dependents_indexes ?t). 0 \<le> x \<and> x < int (w_tasks_num w1) \<and> x \<noteq> int i \<and> release_ok i (w_tasks w1 ! nat x)"
      using plain(2) assms(6) by (auto simp: t1(2,3) nth_list_update)
  qed (use plain(1) oo assms(2,7) len in \<open>simp_all add: t1(2,3)\<close>)
  then obtain ts where dl: "dependents_loop i (t_dependents_indexes ?t) w1 ?v = Notify_Go (w1\<lparr>w_tasks := ts\<rparr>) ?v"
    and ts: "length ts = length (w_tasks w)"
      "\<forall>j < length ts. if int j \<in> set (t_dependents_indexes ?t) then released i (w_tasks w1 ! j) (ts ! j) else ts ! j = w_tasks w1 ! j"
    by (auto simp: t1(3))
  have ts_i: "ts ! i = ?t1" using ts len plain(2) t1(1) by auto
  have comp: "completes i w w'" if "w_tasks w' = ts" "w_tasks_num w' = w_tasks_num w" "w_residual_tasks_num w' = w_residual_tasks_num w - 1"
      "w_exit_cubes w' = w_exit_cubes w" "w_exit_containers w' = w_exit_containers w" "w_is_closed w' = w_is_closed w"
      "w_status w' = (if w_residual_tasks_num w = 1 then OPH_ODB_STATUS_COMPLETED else w_status w)" for w'
  proof -
    have "OPH_ODB_STATUS_COMPLETED \<le> s" by (simp add: s_def status_defs)
    moreover have "?t1 = ?t\<lparr>t_status := s, t_residual_auto_retry_num := t_residual_auto_retry_num ?t, t_response := t_response ?t,
        t_outputs := outputs, t_outputs_file := outf\<rparr>" by simp
    ultimately have "ended ?t ?t1" unfolding ended_def by blast
    moreover have "w_tasks w1 ! j = w_tasks w ! j" if "j \<noteq> i" for j using that by (simp add: t1(3))
    ultimately show ?thesis using that ts ts_i assms(8) unfolding completes_def by (auto split: if_splits)
  qed
  let ?w2 = "w1\<lparr>w_tasks := ts\<rparr>"
  have "exit_operation i ?w2 ?v = Notify_Go ?w2 ?v" by (rule exit_operation_plain) (use ts_i plain(3,4) in simp_all)
  then have run: "complete_task i outs w v = close_completed ?w2 ?v"
    unfolding complete_task_def Let_def u_def [symmetric] u w0 by (simp add: so w1 t1(1) dl)
  have f: "w_residual_tasks_num ?w2 = w_residual_tasks_num w - 1" "w_status ?w2 = w_status w" "w_tasks_num ?w2 = w_tasks_num w"
    "w_exit_cubes ?w2 = w_exit_cubes w" "w_exit_containers ?w2 = w_exit_containers w" "w_is_closed ?w2 = w_is_closed w" by (simp_all add: w1_def)
  show ?thesis
  proof (cases "w_residual_tasks_num w = 1")
    case True
    then have "close_completed ?w2 ?v = Notify_Go (?w2\<lparr>w_status := OPH_ODB_STATUS_COMPLETED\<rparr>) (?v\<lparr>nv_final := True\<rparr>)"
      using f assms(8,9) by (auto simp: close_completed_def status_defs)
    moreover have "completes i w (?w2\<lparr>w_status := OPH_ODB_STATUS_COMPLETED\<rparr>)" using comp f True by simp
    ultimately show ?thesis
      using True assms(10,11) unfolding run
      by (intro exI [of _ "?w2\<lparr>w_status := OPH_ODB_STATUS_COMPLETED\<rparr>"] exI [of _ "?v\<lparr>nv_final := True\<rparr>"]) simp
  next
    case False
    then have "close_completed ?w2 ?v = Notify_Go ?w2 (?v\<lparr>nv_update_wf_data := 2\<rparr>)"
      using f assms(8) by (auto simp: close_completed_def status_defs)
    moreover have "completes i w ?w2" using comp f False by simp
    ultimately show ?thesis
      using False assms(11,12) unfolding run by (intro exI [of _ ?w2] exI [of _ "?v\<lparr>nv_update_wf_data := 2\<rparr>"]) simp
  qed
qed


lemma dep_ok_cong: "t_arguments t' = t_arguments t \<Longrightarrow> dep_ok t' = dep_ok t"
  by (simp add: dep_ok_def fun_eq_iff split: option.split)

lemma trace_output_plain:
  assumes "t_light_tasks (w_tasks w ! i) = []"
  shows "\<exists>out. trace_output i w v = Notify_Go (w\<lparr>w_output := out\<rparr>) v"
proof -
  have "(w_tasks w ! i)\<lparr>t_light_tasks := []\<rparr> = w_tasks w ! i" using assms by simp
  then have eq: "w\<lparr>w_tasks := (w_tasks w)[i := (w_tasks w ! i)\<lparr>t_light_tasks := []\<rparr>], w_output := out\<rparr> = w\<lparr>w_output := out\<rparr>" for out by simp
  have same: "w\<lparr>w_output := w_output w\<rparr> = w" by simp
  show ?thesis
  proof (cases "(nv_status v \<noteq> OPH_ODB_STATUS_COMPLETED \<and> nv_status v \<noteq> OPH_ODB_STATUS_ERROR) \<or> already_traced (t_markerid (w_tasks w ! i)) (w_output w)")
    case True
    then have "trace_output i w v = Notify_Go w v" by (auto simp: trace_output_def)
    then show ?thesis using same by metis
  next
    case False
    define out where "out = trace_insert (fst (snd (oph_workflow_save_task_output (w_tasks w ! i)))) (w_output w)"
    have "trace_output i w v = Notify_Go (w\<lparr>w_tasks := (w_tasks w)[i := (w_tasks w ! i)\<lparr>t_light_tasks := []\<rparr>], w_output := out\<rparr>) v"
      using False assms unfolding trace_output_def
      by (subst if_not_P, blast, subst if_not_P, blast) (simp add: oph_workflow_save_task_output_def out_def)
    then show ?thesis unfolding eq by blast
  qed
qed

lemma ended_override: "ended (t\<lparr>t_status := a, t_residual_auto_retry_num := b, t_response := c\<rparr>) t' \<Longrightarrow> ended t t'"
  unfolding ended_def by (elim exE conjE) (intro exI conjI, assumption, simp)

text \<open>The notification of the end of a running task, in a workflow that can process it.\<close>

definition can_end :: "nat \<Rightarrow> oph_workflow \<Rightarrow> bool" where
  "can_end i w \<longleftrightarrow> i < w_tasks_num w \<and> length (w_tasks w) = Suc (w_tasks_num w) \<and> t_name (w_tasks w ! w_tasks_num w) = None \<and>
     plain_task (w_tasks_num w) i (w_tasks w ! i) \<and> t_outputs (w_tasks w ! i) = [] \<and> running w i \<and>
     w_residual_tasks_num w \<noteq> 0 \<and> w_status w < OPH_ODB_STATUS_COMPLETED \<and>
     (\<forall>x \<in> set (t_dependents_indexes (w_tasks w ! i)). t_operator (w_tasks w ! nat x) \<noteq> None \<and> release_ok i (w_tasks w ! nat x))"

lemma process_completes:
  assumes "can_end i w" and "nat (n_taskindex n) = i" and "n_lighttaskindex n < 0" and "n_status n = OPH_ODB_STATUS_COMPLETED"
  shows "\<exists>w' v'. process_notification conf answer n OPH_ODB_STATUS_COMPLETED w = Notify_Go w' v' \<and> completes i w w' \<and>
    nv_update_wf_data v' \<noteq> 0 \<and> nv_task_completed v' \<and> nv_final v' = (w_residual_tasks_num w = 1) \<and> \<not> nv_retry_task_execution v'"
proof -
  let ?t = "w_tasks w ! i"
  let ?t1 = "?t\<lparr>t_status := OPH_ODB_STATUS_COMPLETED, t_residual_auto_retry_num := 0\<rparr>"
  let ?w1 = "w\<lparr>w_tasks := (w_tasks w)[i := ?t1]\<rparr>"
  let ?v1 = "(start_vars OPH_ODB_STATUS_COMPLETED)\<lparr>nv_update_task_data := 1\<rparr>"
  have ok: "i < w_tasks_num w" "length (w_tasks w) = Suc (w_tasks_num w)" "t_name (w_tasks w ! w_tasks_num w) = None"
    "plain_task (w_tasks_num w) i ?t" "t_outputs ?t = []" "running w i" "w_residual_tasks_num w \<noteq> 0" "w_status w < OPH_ODB_STATUS_COMPLETED"
    "\<And>x. x \<in> set (t_dependents_indexes ?t) \<Longrightarrow> t_operator (w_tasks w ! nat x) \<noteq> None \<and> release_ok i (w_tasks w ! nat x)"
    using assms(1) by (auto simp: can_end_def)
  have len: "i < length (w_tasks w)" using ok(1,2) by simp
  have dep: "0 \<le> x \<and> x < int (w_tasks_num w) \<and> nat x \<noteq> i" if "x \<in> set (t_dependents_indexes ?t)" for x
    using ok(4) that by (auto simp: plain_task_def list_all_iff)
  have ts: "task_status conf i (n_status n) w (start_vars OPH_ODB_STATUS_COMPLETED) = Notify_Go ?w1 ?v1"
    using ok(4,6) unfolding assms(4) by (simp add: task_status_def Let_def plain_task_def running_def status_defs)
  obtain resp where kr: "keep_response i answer (t_dependents_indexes ?t) ?w1 = Some (upd_task (\<lambda>t. t\<lparr>t_response := resp\<rparr>) i ?w1)"
  proof -
    have "\<forall>k \<in> set (t_dependents_indexes ?t). valid_index ?w1 k \<and> t_operator (w_tasks ?w1 ! nat k) \<noteq> None"
    proof
      fix k
      assume "k \<in> set (t_dependents_indexes ?t)"
      with dep [OF this] ok(9) [OF this] ok(2) show "valid_index ?w1 k \<and> t_operator (w_tasks ?w1 ! nat k) \<noteq> None"
        by (auto simp: valid_index_def)
    qed
    from keep_response_defined [OF this] len that show ?thesis by auto
  qed
  let ?t2 = "?t1\<lparr>t_response := resp\<rparr>"
  define w2 where "w2 = w\<lparr>w_tasks := (w_tasks w)[i := ?t2]\<rparr>"
  have w2: "upd_task (\<lambda>t. t\<lparr>t_response := resp\<rparr>) i ?w1 = w2" using len by (simp add: upd_task_def w2_def)
  have t2: "w_tasks w2 ! i = ?t2" "\<And>j. j \<noteq> i \<Longrightarrow> w_tasks w2 ! j = w_tasks w ! j" using len by (simp_all add: w2_def)
  let ?v2 = "?v1\<lparr>nv_update_wf_data := 1\<rparr>"
  have "\<exists>w' v'. complete_task i (n_outputs n) w2 ?v2 = Notify_Go w' v' \<and> completes i w2 w' \<and> nv_update_wf_data v' \<noteq> 0 \<and> nv_task_completed v' \<and>
    nv_final v' = (w_residual_tasks_num w2 = 1) \<and> \<not> nv_retry_task_execution v'"
  proof (rule complete_task_completes)
    show "plain_task (w_tasks_num w2) i (w_tasks w2 ! i)" using ok(4) dep_ok_cong [of ?t2 ?t] unfolding t2(1) by (simp add: plain_task_def w2_def)
    show "\<forall>x \<in> set (t_dependents_indexes (w_tasks w2 ! i)). release_ok i (w_tasks w2 ! nat x)" using dep ok(9) t2 by auto
  qed (use ok t2(1) in \<open>simp_all add: w2_def start_vars_def\<close>)
  then obtain w3 v3 where w3: "complete_task i (n_outputs n) w2 ?v2 = Notify_Go w3 v3" "completes i w2 w3" "nv_update_wf_data v3 \<noteq> 0"
      "nv_task_completed v3" "nv_final v3 = (w_residual_tasks_num w = 1)" "\<not> nv_retry_task_execution v3"
    by (auto simp: w2_def)
  have "ended ?t2 (w_tasks w3 ! i)" using w3(2) len unfolding completes_def t2(1) by (simp add: w2_def)
  then have e: "ended ?t (w_tasks w3 ! i)" by (rule ended_override)
  then have "t_light_tasks (w_tasks w3 ! i) = []" using ok(4) by (auto simp: ended_def plain_task_def)
  then obtain out where tr: "trace_output i w3 v3 = Notify_Go (w3\<lparr>w_output := out\<rparr>) v3" using trace_output_plain by blast
  have "end_task conf answer i (n_outputs n) ?w1 ?v1 = Notify_Go (w3\<lparr>w_output := out\<rparr>) v3"
  proof -
    have v: "?v2\<lparr>nv_status := OPH_ODB_STATUS_COMPLETED\<rparr> = ?v2" by (simp add: start_vars_def)
    have "end_task conf answer i (n_outputs n) ?w1 ?v1 = notify_then (complete_task i (n_outputs n) w2 ?v2) (trace_output i)"
      using ok(7) kr len unfolding end_task_def Let_def w2 by (simp add: t2(1) v) (simp add: start_vars_def)
    then show ?thesis using w3(1) tr by simp
  qed
  then have "process_notification conf answer n OPH_ODB_STATUS_COMPLETED w = Notify_Go (w3\<lparr>w_output := out\<rparr>) v3"
    using assms(2,3) ok(1-3) ts unfolding process_notification_def Let_def by (simp add: start_vars_def)
  moreover have "completes i w (w3\<lparr>w_output := out\<rparr>)"
  proof -
    have l: "length (w_tasks w2) = length (w_tasks w)" "t_dependents_indexes (w_tasks w2 ! i) = t_dependents_indexes ?t" using t2(1) by (simp_all add: w2_def)
    have "if int j \<in> set (t_dependents_indexes ?t) then released i (w_tasks w ! j) (w_tasks w3 ! j) else w_tasks w3 ! j = w_tasks w ! j"
      if "j < length (w_tasks w)" "j \<noteq> i" for j
      using w3(2) that unfolding completes_def l t2(2) [OF that(2), symmetric] by auto
    moreover have "w_status w2 = w_status w" "w_residual_tasks_num w2 = w_residual_tasks_num w" by (simp_all add: w2_def)
    ultimately show ?thesis using w3(2) e unfolding completes_def by (simp add: w2_def)
  qed
  ultimately show ?thesis using w3(3-6) by blast
qed


section \<open>The start of tasks\<close>

lemma print_items_defined: "list_all (\<lambda>(_, x). x \<noteq> None) l \<Longrightarrow> \<exists>r. print_items s l = Some r"
  by (induction s l rule: print_items.induct) (auto split: option.splits)

lemma fill_arguments_grown: "args_ok args \<Longrightarrow> \<exists>args'. fill_arguments args = Some args' \<and> grown args args'"
proof (induction args)
  case (Cons a args)
  then obtain args' where IH: "fill_arguments args = Some args'" "args_ok args'" by (auto simp: args_ok_def grown_def)
  have a: "list_all (\<lambda>(_, x). x \<noteq> None) (a_list a)" using Cons.prems by (simp add: args_ok_def)
  show ?case
  proof (cases "a_list a = []")
    case True
    then show ?thesis using IH by (auto simp: grown_def args_ok_def)
  next
    case False
    obtain r where "print_items (a_value a) (a_list a) = Some r" using print_items_defined [OF a] by blast
    then show ?thesis using False IH by (auto simp: grown_def args_ok_def oph_workflow_print_list_def)
  qed
qed simp

definition launched :: "oph_workflow_task \<Rightarrow> oph_workflow_task \<Rightarrow> bool" where
  "launched t t' \<longleftrightarrow> (\<exists>args. t' = t\<lparr>t_arguments := args, t_status := OPH_ODB_STATUS_PENDING\<rparr> \<and> grown (t_arguments t) args)"

lemma prepare_tasks_launch:
  assumes "w_tasks_num w < length (w_tasks w)" and "\<forall>x \<in> set is. 0 \<le> x \<and> x < int (w_tasks_num w)"
    and "\<forall>j < w_tasks_num w. args_ok (t_arguments (w_tasks w ! j))"
  shows "\<exists>ts. prepare_tasks is w = Some (w\<lparr>w_tasks := ts\<rparr>) \<and> length ts = length (w_tasks w) \<and>
    (\<forall>j < length ts. if int j \<in> set is \<and> ready w (int j) then launched (w_tasks w ! j) (ts ! j) else ts ! j = w_tasks w ! j)"
  using assms
proof (induction "is" arbitrary: w)
  case Nil
  show ?case by (rule exI [of _ "w_tasks w"]) simp
next
  case (Cons x xs)
  have x: "0 \<le> x" "x < int (w_tasks_num w)" "nat x < length (w_tasks w)" using Cons.prems(1,2) by auto
  have start: "prepare_tasks (x # xs) w = (if \<not> ready w x then prepare_tasks xs w
      else fill_arguments (t_arguments (w_tasks w ! nat x)) \<bind> (\<lambda>args.
           prepare_tasks xs (upd_task (\<lambda>t. t\<lparr>t_arguments := args, t_status := OPH_ODB_STATUS_PENDING\<rparr>) (nat x) w)))"
    using x Cons.prems(1) by simp
  show ?case
  proof (cases "ready w x")
    case False
    obtain ts where "prepare_tasks xs w = Some (w\<lparr>w_tasks := ts\<rparr>)" "length ts = length (w_tasks w)"
        "\<forall>j < length ts. if int j \<in> set xs \<and> ready w (int j) then launched (w_tasks w ! j) (ts ! j) else ts ! j = w_tasks w ! j"
      using Cons.IH [of w] Cons.prems by auto
    then show ?thesis unfolding start using False by (intro exI [of _ ts]) auto
  next
    case True
    obtain args where args: "fill_arguments (t_arguments (w_tasks w ! nat x)) = Some args" "grown (t_arguments (w_tasks w ! nat x)) args"
      using fill_arguments_grown Cons.prems(3) x(1,2) by (metis nat_less_iff)
    let ?t = "(w_tasks w ! nat x)\<lparr>t_arguments := args, t_status := OPH_ODB_STATUS_PENDING\<rparr>"
    let ?u = "w\<lparr>w_tasks := (w_tasks w)[nat x := ?t]\<rparr>"
    have "args_ok args" using args(2) Cons.prems(3) x(1,2) by (auto simp: grown_def nat_less_iff)
    then have "\<forall>j < w_tasks_num ?u. args_ok (t_arguments (w_tasks ?u ! j))" using Cons.prems(1,3) x(3) by (simp add: nth_list_update)
    then obtain ts where ts: "prepare_tasks xs ?u = Some (?u\<lparr>w_tasks := ts\<rparr>)" "length ts = length (w_tasks w)"
        "\<forall>j < length ts. if int j \<in> set xs \<and> ready ?u (int j) then launched (w_tasks ?u ! j) (ts ! j) else ts ! j = w_tasks ?u ! j"
      using Cons.IH [of ?u] Cons.prems by auto
    have l: "launched (w_tasks w ! nat x) ?t" using args(2) by (auto simp: launched_def)
    have nx: "\<not> ready ?u x" using x(3) by (simp add: ready_def status_defs)
    have other: "ready ?u (int j) = ready w (int j)" "w_tasks ?u ! j = w_tasks w ! j" if "j \<noteq> nat x" for j
      using that x(1,2) by (auto simp: ready_def nth_list_update)
    have "if int j \<in> set (x # xs) \<and> ready w (int j) then launched (w_tasks w ! j) (ts ! j) else ts ! j = w_tasks w ! j" if "j < length ts" for j
    proof (cases "j = nat x")
      case True
      then have "ts ! j = ?t" using ts(3) that x(1,3) nx by auto
      then show ?thesis using True l \<open>ready w x\<close> x(1) by simp
    next
      case False
      then show ?thesis using ts(3) that other [OF False] x(1) by (auto split: if_splits)
    qed
    then show ?thesis unfolding start using True args(1) ts(1,2) by (intro exI [of _ ts]) (simp add: upd_task_def)
  qed
qed


section \<open>The invariant of the runs\<close>

text \<open>
  A workflow of plain tasks under way; the tasks \<open>L\<close> may be ready without being started. A dependency that is not cleared is on a task that
  has not ended and knows its dependent task.
\<close>

definition task_live :: "nat set \<Rightarrow> nat \<Rightarrow> nat \<Rightarrow> oph_workflow_task \<Rightarrow> bool" where
  "task_live L N j t \<longleftrightarrow> plain_task N j t \<and> 0 \<le> t_status t \<and> (t_status t < OPH_ODB_STATUS_COMPLETED \<longrightarrow> t_outputs t = []) \<and> counted t = 0 \<and>
     (t_status t = 0 \<longrightarrow> t_residual_deps_num t \<noteq> 0 \<or> j \<in> L)"

definition live_ok :: "nat set \<Rightarrow> (nat \<times> nat) set \<Rightarrow> nat \<Rightarrow> oph_workflow \<Rightarrow> bool" where
  "live_ok L G N w \<longleftrightarrow> w_tasks_num w = N \<and> length (w_tasks w) = Suc N \<and> t_name (w_tasks w ! N) = None \<and> t_status (w_tasks w ! N) = 0 \<and>
     w_exit_cubes w = None \<and> w_exit_containers w = None \<and> \<not> w_is_closed w \<and>
     (\<forall>j < N. task_live L N j (w_tasks w ! j)) \<and>
     (\<forall>j < N. \<forall>p. waits p (w_tasks w ! j) \<longrightarrow> p < N \<and> (p, j) \<in> G \<and> int j \<in> set (t_dependents_indexes (w_tasks w ! p)) \<and>
        t_status (w_tasks w ! p) < OPH_ODB_STATUS_COMPLETED) \<and>
     w_residual_tasks_num w = int (card {j. j < N \<and> t_status (w_tasks w ! j) < OPH_ODB_STATUS_COMPLETED}) \<and>
     (if w_residual_tasks_num w = 0 then w_status w = OPH_ODB_STATUS_COMPLETED else w_status w < OPH_ODB_STATUS_COMPLETED)"

lemma live_okD:
  assumes "live_ok L G N w"
  shows "w_tasks_num w = N" "length (w_tasks w) = Suc N" "t_name (w_tasks w ! N) = None" "t_status (w_tasks w ! N) = 0"
    "w_exit_cubes w = None" "w_exit_containers w = None" "\<not> w_is_closed w"
    "j < N \<Longrightarrow> task_live L N j (w_tasks w ! j)"
    "j < N \<Longrightarrow> waits p (w_tasks w ! j) \<Longrightarrow> p < N \<and> (p, j) \<in> G \<and> int j \<in> set (t_dependents_indexes (w_tasks w ! p)) \<and>
        t_status (w_tasks w ! p) < OPH_ODB_STATUS_COMPLETED"
    "w_residual_tasks_num w = int (card {j. j < N \<and> t_status (w_tasks w ! j) < OPH_ODB_STATUS_COMPLETED})"
    "if w_residual_tasks_num w = 0 then w_status w = OPH_ODB_STATUS_COMPLETED else w_status w < OPH_ODB_STATUS_COMPLETED"
  using assms unfolding live_ok_def by blast+

lemma live_residual_0: "live_ok L G N w \<Longrightarrow> w_residual_tasks_num w = 0 \<longleftrightarrow> (\<forall>j < N. OPH_ODB_STATUS_COMPLETED \<le> t_status (w_tasks w ! j))"
  using live_okD(10) [of L G N w] by (auto simp: not_less) (metis not_less)

text \<open>As long as a task has not ended, one is running: the first one in the order of the dependencies waits for none.\<close>

lemma live_running:
  assumes "live_ok {} G N w" and "wf G" and "w_residual_tasks_num w \<noteq> 0"
  shows "\<exists>i < N. running w i"
proof -
  note ok = live_okD [OF assms(1)]
  define Q where "Q = {j. j < N \<and> t_status (w_tasks w ! j) < OPH_ODB_STATUS_COMPLETED}"
  obtain j where j: "j \<in> Q" using assms(3) live_residual_0 [OF assms(1)] by (auto simp: not_le Q_def)
  obtain z where z0: "z \<in> Q" and min: "\<And>y. (y, z) \<in> G \<Longrightarrow> y \<notin> Q" using wfE_min [OF assms(2) j] by blast
  have z: "z < N" "t_status (w_tasks w ! z) < OPH_ODB_STATUS_COMPLETED" using z0 by (simp_all add: Q_def)
  have live: "task_live {} N z (w_tasks w ! z)" using ok(8) [OF z(1)] .
  have "\<not> waits p (w_tasks w ! z)" for p using ok(9) [OF z(1), of p] min [of p] unfolding Q_def by blast
  then have "d_task_index d < 0" if "d \<in> set (t_deps (w_tasks w ! z))" for d
    using that zero_le_imp_eq_int [of "d_task_index d"] unfolding waits_def list_ex_iff by (meson not_le)
  then have "t_residual_deps_num (w_tasks w ! z) = 0" using live residual_0 by (simp add: task_live_def)
  then show ?thesis using live z by (auto simp: task_live_def running_def OPH_ODB_STATUS_UNKNOWN_def intro!: exI [of _ z])
qed

lemma waits_on_residual: "counted t = 0 \<Longrightarrow> int (waits_on i t) \<le> t_residual_deps_num t"
proof -
  have "length (filter (\<lambda>d. d_task_index d = int i) ds) \<le> length (filter (\<lambda>d. 0 \<le> d_task_index d) ds)" for ds by (induction ds) auto
  then show "counted t = 0 \<Longrightarrow> int (waits_on i t) \<le> t_residual_deps_num t" unfolding counted_def waits_on_def by simp
qed

lemma live_can_end:
  assumes "live_ok {} G N w" and "i < N" and "running w i"
  shows "can_end i w"
proof -
  note ok = live_okD [OF assms(1)]
  have "task_live {} N i (w_tasks w ! i)" using ok(8) [OF assms(2)] .
  then have i: "plain_task N i (w_tasks w ! i)" "t_outputs (w_tasks w ! i) = []" using assms(3) by (auto simp: task_live_def running_def)
  have r: "w_residual_tasks_num w \<noteq> 0" using live_residual_0 [OF assms(1)] assms(2,3) by (auto simp: running_def)
  have "t_operator (w_tasks w ! nat x) \<noteq> None \<and> release_ok i (w_tasks w ! nat x)" if "x \<in> set (t_dependents_indexes (w_tasks w ! i))" for x
  proof -
    have "nat x < N" using i(1) that by (auto simp: plain_task_def list_all_iff)
    then show ?thesis using ok(8) [of "nat x"] waits_on_residual by (auto simp: task_live_def plain_task_def release_ok_def list_all_iff)
  qed
  then show ?thesis using ok(1-3,11) i r assms(2,3) by (simp add: can_end_def)
qed


text \<open>What the three changes of a task keep.\<close>

lemma ended_fields:
  assumes "ended t t'"
  shows "t_deps t' = t_deps t" "t_dependents_indexes t' = t_dependents_indexes t" "OPH_ODB_STATUS_COMPLETED \<le> t_status t'"
    "task_live L N j t \<Longrightarrow> task_live L' N j t'"
proof -
  obtain s auto resp outs outf where s: "OPH_ODB_STATUS_COMPLETED \<le> s"
    and t': "t' = t\<lparr>t_status := s, t_residual_auto_retry_num := auto, t_response := resp, t_outputs := outs, t_outputs_file := outf\<rparr>"
    using assms by (auto simp: ended_def)
  show "t_deps t' = t_deps t" "t_dependents_indexes t' = t_dependents_indexes t" "OPH_ODB_STATUS_COMPLETED \<le> t_status t'" using s by (simp_all add: t')
  show "task_live L' N j t'" if "task_live L N j t"
    using that s dep_ok_cong [of t' t] by (auto simp: task_live_def plain_task_def t' counted_def status_defs)
qed

lemma dep_ok_clear: "dep_ok t d \<Longrightarrow> grown (t_arguments t) args \<Longrightarrow> t_arguments t' = args \<Longrightarrow> dep_ok t' (clear i d)"
  by (auto simp: dep_ok_def grown_def split: option.splits)

lemma count_clear:
  "int (length (filter (\<lambda>d. 0 \<le> d_task_index d) (map (clear i) ds))) =
     int (length (filter (\<lambda>d. 0 \<le> d_task_index d) ds)) - int (length (filter (\<lambda>d. d_task_index d = int i) ds))"
  by (induction ds) auto

lemma released_fields:
  assumes "released i t t'"
  shows "t_dependents_indexes t' = t_dependents_indexes t" "t_status t' = t_status t" "waits p t' \<longleftrightarrow> waits p t \<and> p \<noteq> i"
    "task_live L N j t \<Longrightarrow> j \<in> L' \<Longrightarrow> task_live L' N j t'"
proof -
  obtain args where t': "t' = t\<lparr>t_arguments := args, t_deps := map (clear i) (t_deps t),
      t_residual_deps_num := t_residual_deps_num t - int (waits_on i t)\<rparr>" and args: "grown (t_arguments t) args"
    using assms unfolding released_def by blast
  show "t_dependents_indexes t' = t_dependents_indexes t" "t_status t' = t_status t" by (simp_all add: t')
  have eq: "d_task_index (clear i d) = int p \<longleftrightarrow> d_task_index d = int p \<and> p \<noteq> i" for d by auto
  show "waits p t' \<longleftrightarrow> waits p t \<and> p \<noteq> i" by (auto simp: t' waits_def list_ex_iff eq simp del: clear_simps)
  assume live: "task_live L N j t" and "j \<in> L'"
  have "counted t' = counted t" using count_clear [of i "t_deps t"] unfolding counted_def by (simp add: t' waits_on_def)
  moreover have "list_all (dep_ok t') (t_deps t')"
    using live dep_ok_clear [OF _ args, of _ t' i] by (auto simp: t' task_live_def plain_task_def list_all_iff)
  moreover have "args_ok args" using live args by (auto simp: task_live_def plain_task_def grown_def)
  ultimately show "task_live L' N j t'" using live \<open>j \<in> L'\<close> by (simp add: task_live_def plain_task_def t')
qed

lemma task_live_mono: "task_live L N j t \<Longrightarrow> L \<subseteq> L' \<Longrightarrow> task_live L' N j t"
  by (auto simp: task_live_def)

lemma completes_live:
  assumes "live_ok {} G N w" and "i < N" and "running w i" and "completes i w w1"
  shows "live_ok (nat ` set (t_dependents_indexes (w_tasks w ! i))) G N w1"
proof -
  note ok = live_okD [OF assms(1)]
  let ?D = "set (t_dependents_indexes (w_tasks w ! i))"
  have c: "w_tasks_num w1 = N" "length (w_tasks w1) = Suc N" "w_residual_tasks_num w1 = w_residual_tasks_num w - 1"
      "w_exit_cubes w1 = None" "w_exit_containers w1 = None" "\<not> w_is_closed w1"
      "w_status w1 = (if w_residual_tasks_num w = 1 \<and> w_status w < OPH_ODB_STATUS_COMPLETED then OPH_ODB_STATUS_COMPLETED else w_status w)"
    and all: "\<forall>j < Suc N. if j = i then ended (w_tasks w ! i) (w_tasks w1 ! i)
        else if int j \<in> ?D then released i (w_tasks w ! j) (w_tasks w1 ! j) else w_tasks w1 ! j = w_tasks w ! j"
    using assms(4) ok(1,2,5,6,7) unfolding completes_def by simp_all
  have e: "ended (w_tasks w ! i) (w_tasks w1 ! i)" using all [rule_format, of i] assms(2) by simp
  have t: "if int j \<in> ?D then released i (w_tasks w ! j) (w_tasks w1 ! j) else w_tasks w1 ! j = w_tasks w ! j"
    if "j \<le> N" "j \<noteq> i" for j using all [rule_format, of j] that by simp
  have D: "x < int N \<and> x \<noteq> int i" if "x \<in> ?D" for x using ok(8) [OF assms(2)] that by (auto simp: task_live_def plain_task_def list_all_iff)
  have N: "w_tasks w1 ! N = w_tasks w ! N" using t [of N] D [of "int N"] assms(2) by (auto split: if_splits)
  have live: "task_live (nat ` ?D) N j (w_tasks w1 ! j)" if "j < N" for j
  proof (cases "j = i")
    case False
    note r = released_fields(4) [of i "w_tasks w ! j" "w_tasks w1 ! j" "{}" N j "nat ` ?D"]
    have "int j \<in> ?D \<Longrightarrow> j \<in> nat ` ?D" by (metis image_eqI nat_int)
    then show ?thesis
      using t [of j] that False ok(8) [OF that] r task_live_mono [of "{}" N j "w_tasks w ! j"] by (auto split: if_splits)
  qed (use ended_fields(4) [OF e] ok(8) [OF that] in blast)
  have status: "t_status (w_tasks w1 ! j) = t_status (w_tasks w ! j)" if "j < N" "j \<noteq> i" for j
    using t [of j] that released_fields(2) by (auto split: if_splits)
  have dependents: "t_dependents_indexes (w_tasks w1 ! j) = t_dependents_indexes (w_tasks w ! j)" if "j < N" for j
    using t [of j] that released_fields(1) ended_fields(2) [OF e] by (cases "j = i") (auto split: if_splits)
  have w: "waits p (w_tasks w ! j) \<and> p \<noteq> i" if "j < N" "waits p (w_tasks w1 ! j)" for p j
  proof (cases "j = i")
    case True
    then show ?thesis using that ended_fields(1) [OF e] ok(9) [OF assms(2), of i] D [of "int i"] by (auto simp: waits_def)
  next
    case False
    then show ?thesis using t [of j] that released_fields(3) ok(9) [OF that(1), of i] by (auto split: if_splits)
  qed
  have "{j. j < N \<and> t_status (w_tasks w1 ! j) < OPH_ODB_STATUS_COMPLETED} = {j. j < N \<and> t_status (w_tasks w ! j) < OPH_ODB_STATUS_COMPLETED} - {i}"
    (is "?A = ?B")
  proof (rule set_eqI)
    show "x \<in> ?A \<longleftrightarrow> x \<in> ?B" for x using status [of x] ended_fields(3) [OF e] by (cases "x = i") auto
  qed
  moreover have "Suc (card ?B) = card {j. j < N \<and> t_status (w_tasks w ! j) < OPH_ODB_STATUS_COMPLETED}"
    by (rule card_Suc_Diff1) (use assms(2,3) in \<open>simp_all add: running_def\<close>)
  ultimately have res: "w_residual_tasks_num w1 = int (card ?A)" using ok(10) c(3) by simp
  have "w_residual_tasks_num w \<noteq> 0" using live_residual_0 [OF assms(1)] assms(2,3) by (auto simp: running_def)
  then have "if w_residual_tasks_num w1 = 0 then w_status w1 = OPH_ODB_STATUS_COMPLETED else w_status w1 < OPH_ODB_STATUS_COMPLETED"
    using c(3,7) ok(11) by (auto split: if_splits)
  moreover have "p < N \<and> (p, j) \<in> G \<and> int j \<in> set (t_dependents_indexes (w_tasks w1 ! p)) \<and> t_status (w_tasks w1 ! p) < OPH_ODB_STATUS_COMPLETED"
    if "j < N" "waits p (w_tasks w1 ! j)" for p j
    using w [OF that] ok(9) [OF that(1), of p] status [of p] dependents [of p] by simp
  ultimately show ?thesis using c(1,2,4,5,6) N ok(3,4) live res unfolding live_ok_def by simp
qed


lemma launched_fields:
  assumes "launched t t'"
  shows "t_dependents_indexes t' = t_dependents_indexes t" "t_status t' = OPH_ODB_STATUS_PENDING" "t_deps t' = t_deps t"
    "task_live L N j t \<Longrightarrow> t_status t = 0 \<Longrightarrow> task_live {} N j t'"
proof -
  obtain args where t': "t' = t\<lparr>t_arguments := args, t_status := OPH_ODB_STATUS_PENDING\<rparr>" and args: "grown (t_arguments t) args"
    using assms by (auto simp: launched_def)
  show "t_dependents_indexes t' = t_dependents_indexes t" "t_status t' = OPH_ODB_STATUS_PENDING" "t_deps t' = t_deps t" by (simp_all add: t')
  assume live: "task_live L N j t" and "t_status t = 0"
  have "dep_ok t' d" if "d \<in> set (t_deps t)" for d
    using live that args by (auto simp: task_live_def plain_task_def list_all_iff dep_ok_def t' grown_def split: option.splits)
  then show "task_live {} N j t'"
    using live args \<open>t_status t = 0\<close> by (auto simp: task_live_def plain_task_def t' counted_def status_defs grown_def list_all_iff)
qed

lemma live_done: "live_ok L G N w \<Longrightarrow> w_residual_tasks_num w = 0 \<or> L = {} \<Longrightarrow> live_ok {} G N w"
proof -
  assume live: "live_ok L G N w" and fin: "w_residual_tasks_num w = 0 \<or> L = {}"
  have "task_live {} N j (w_tasks w ! j)" if "j < N" for j
    using fin live_okD(8) [OF live that] live_residual_0 [OF live] that by (auto simp: task_live_def status_defs)
  then show ?thesis using live unfolding live_ok_def by blast
qed

lemma live_execute:
  assumes "live_ok L G N w" and "\<forall>x \<in> set is. 0 \<le> x \<and> x < int N" and "L \<subseteq> nat ` set is"
  shows "\<exists>w'. execute_tasks is w = Some w' \<and> live_ok {} G N w' \<and> w_residual_tasks_num w' = w_residual_tasks_num w"
proof (cases "w_residual_tasks_num w = 0 \<or> is = []")
  case True
  have "live_ok {} G N w" using live_done [OF assms(1)] True assms(3) by auto
  moreover have "execute_tasks is w = Some w"
    using True live_okD(1,11) [OF assms(1)] assms(2) by (cases "is") (auto simp: execute_tasks_def)
  ultimately show ?thesis by blast
next
  case False
  note ok = live_okD [OF assms(1)]
  have "\<forall>j < w_tasks_num w. args_ok (t_arguments (w_tasks w ! j))" using ok(1,8) by (auto simp: task_live_def plain_task_def)
  then obtain ts where ts: "prepare_tasks is w = Some (w\<lparr>w_tasks := ts\<rparr>)" "length ts = length (w_tasks w)"
      "\<forall>j < length ts. if int j \<in> set is \<and> ready w (int j) then launched (w_tasks w ! j) (ts ! j) else ts ! j = w_tasks w ! j"
    using prepare_tasks_launch [of w "is"] ok(1,2) assms(2) by auto
  have run: "execute_tasks is w = Some (w\<lparr>w_tasks := ts\<rparr>)" using False ok(11) ts(1) by (simp add: execute_tasks_def)
  have r: "ready w (int j) \<longleftrightarrow> t_residual_deps_num (w_tasks w ! j) = 0 \<and> t_status (w_tasks w ! j) = 0" if "j < N" for j
    using that ok(1) by (simp add: ready_def)
  have t: "if int j \<in> set is \<and> ready w (int j) then launched (w_tasks w ! j) (ts ! j) else ts ! j = w_tasks w ! j" if "j \<le> N" for j
    using ts(2,3) that ok(2) by simp
  have N: "ts ! N = w_tasks w ! N" using t [of N] assms(2) by (auto split: if_splits)
  have live: "task_live {} N j (ts ! j)" if "j < N" for j
  proof (cases "int j \<in> set is \<and> ready w (int j)")
    case True
    then show ?thesis using t [of j] that r [OF that] launched_fields(4) [OF _ ok(8) [OF that]] by auto
  next
    case False
    have "j \<in> L \<Longrightarrow> int j \<in> set is" using assms(2,3) by force
    then show ?thesis using t [of j] False that r [OF that] ok(8) [OF that] by (auto simp: task_live_def)
  qed
  have s: "t_status (ts ! j) < OPH_ODB_STATUS_COMPLETED \<longleftrightarrow> t_status (w_tasks w ! j) < OPH_ODB_STATUS_COMPLETED" if "j < N" for j
    using t [of j] that r [OF that] launched_fields(2) by (auto simp: status_defs split: if_splits)
  have d: "t_dependents_indexes (ts ! j) = t_dependents_indexes (w_tasks w ! j)" "t_deps (ts ! j) = t_deps (w_tasks w ! j)" if "j < N" for j
    using t [of j] that launched_fields(1,3) by (auto split: if_splits)
  have "{j. j < N \<and> t_status (ts ! j) < OPH_ODB_STATUS_COMPLETED} = {j. j < N \<and> t_status (w_tasks w ! j) < OPH_ODB_STATUS_COMPLETED}"
    using s by auto
  moreover have "p < N \<and> (p, j) \<in> G \<and> int j \<in> set (t_dependents_indexes (ts ! p)) \<and> t_status (ts ! p) < OPH_ODB_STATUS_COMPLETED"
    if "j < N" "waits p (ts ! j)" for p j
    using ok(9) [OF that(1), of p] that(2) d(2) [OF that(1)] d(1) [of p] s [of p] by (simp add: waits_def)
  ultimately have "live_ok {} G N (w\<lparr>w_tasks := ts\<rparr>)" using ok(1-7,10,11) N ts(2) live unfolding live_ok_def by simp
  then show ?thesis using run by (intro exI [of _ "w\<lparr>w_tasks := ts\<rparr>"]) simp
qed

lemma next_tasks_end:
  assumes "nv_update_wf_data v \<noteq> 0" "nv_task_completed v" "\<not> nv_retry_task_execution v" and "w_exit_cubes w = None" "w_exit_containers w = None"
  shows "next_tasks web_server i w v = Some (if nv_final v then [] else t_dependents_indexes (w_tasks w ! i), w)"
  using assms by (simp add: next_tasks_def final_operation_def)

text \<open>The end of a running task is processed, and its dependent tasks are started when they became ready.\<close>

lemma live_end:
  assumes "live_ok {} G N w" and "i < N" and "running w i" and "nat (n_taskindex n) = i" and "n_lighttaskindex n < 0"
    and "n_status n = OPH_ODB_STATUS_COMPLETED"
  shows "\<exists>w1 v is w2 w3. process_notification conf answer n OPH_ODB_STATUS_COMPLETED w = Notify_Go w1 v \<and> next_tasks web_server i w1 v = Some (is, w2) \<and>
    execute_tasks is w2 = Some w3 \<and> live_ok {} G N w3 \<and> w_residual_tasks_num w3 = w_residual_tasks_num w - 1"
proof -
  obtain w1 v where p: "process_notification conf answer n OPH_ODB_STATUS_COMPLETED w = Notify_Go w1 v" and c: "completes i w w1"
    and v: "nv_update_wf_data v \<noteq> 0" "nv_task_completed v" "nv_final v = (w_residual_tasks_num w = 1)" "\<not> nv_retry_task_execution v"
    using process_completes [OF live_can_end [OF assms(1-3)] assms(4-6)] by blast
  let ?D = "t_dependents_indexes (w_tasks w ! i)" and ?D1 = "t_dependents_indexes (w_tasks w1 ! i)"
  have l1: "live_ok (nat ` set ?D) G N w1" using completes_live [OF assms(1-3) c] .
  note ok1 = live_okD [OF l1] and ok = live_okD [OF assms(1)]
  have "ended (w_tasks w ! i) (w_tasks w1 ! i)"
    using c assms(2) ok(2) unfolding completes_def by (elim conjE allE [of _ i]) simp
  then have D: "?D1 = ?D" by (rule ended_fields(2))
  have b: "\<forall>x \<in> set ?D. 0 \<le> x \<and> x < int N" using ok(8) [OF assms(2)] by (auto simp: task_live_def plain_task_def list_all_iff)
  have r: "w_residual_tasks_num w1 = w_residual_tasks_num w - 1" using c by (simp add: completes_def)
  define ks where "ks = (if nv_final v then [] else ?D1)"
  have n: "next_tasks web_server i w1 v = Some (ks, w1)" using next_tasks_end [OF v(1,2,4) ok1(5,6)] by (simp add: ks_def)
  have "\<exists>w3. execute_tasks ks w1 = Some w3 \<and> live_ok {} G N w3 \<and> w_residual_tasks_num w3 = w_residual_tasks_num w1"
  proof (cases "nv_final v")
    case True
    then have "w_residual_tasks_num w1 = 0" using v(3) r by simp
    then have "live_ok {} G N w1" using live_done [OF l1] by simp
    then show ?thesis using True by (simp add: ks_def execute_tasks_def)
  next
    case False
    then show ?thesis using live_execute [OF l1, of ks] b by (auto simp: ks_def D)
  qed
  then show ?thesis using p n r by auto
qed


text \<open>A notification of progress changes the status of the task, and perhaps that of the workflow.\<close>

lemma progress_process:
  assumes "i < N" and "live_ok {} G N w" and "running w i" and "nat (n_taskindex n) = i" and "n_lighttaskindex n < 0"
    and "notify_status (n_status n) = Some status" and "n_status n < OPH_ODB_STATUS_COMPLETED"
  shows "\<exists>u v. process_notification conf answer n status w =
      Notify_Go (w\<lparr>w_tasks := (w_tasks w)[i := (w_tasks w ! i)\<lparr>t_status := n_status n, t_residual_auto_retry_num := 0\<rparr>], w_status := u\<rparr>) v \<and>
    u < OPH_ODB_STATUS_COMPLETED \<and> \<not> nv_final v \<and> \<not> nv_retry_task_execution v \<and> \<not> nv_task_completed v"
proof -
  note ok = live_okD [OF assms(2)]
  let ?w = "w\<lparr>w_tasks := (w_tasks w)[i := (w_tasks w ! i)\<lparr>t_status := n_status n, t_residual_auto_retry_num := 0\<rparr>]\<rparr>"
  have s: "status = OPH_ODB_STATUS_PENDING \<or> status = OPH_ODB_STATUS_RUNNING" "n_status n \<noteq> OPH_ODB_STATUS_START_ERROR"
    using assms(6,7) by (auto simp: notify_status_def status_defs split: if_splits)
  have m: "\<not> t_is_marked_for_auto_retry (w_tasks w ! i)" using ok(8) [OF assms(1)] by (simp add: task_live_def plain_task_def)
  define v where "v = (if t_status (w_tasks w ! i) \<le> OPH_ODB_STATUS_PENDING \<or> t_status (w_tasks w ! i) < n_status n
    then (start_vars status)\<lparr>nv_update_task_data := 1\<rparr> else start_vars status)"
  have ts: "task_status conf i (n_status n) w (start_vars status) = Notify_Go ?w v"
    using m s(2) by (simp add: task_status_def Let_def v_def)
  have v: "nv_status v = status" "\<not> nv_final v" "\<not> nv_retry_task_execution v" "\<not> nv_task_completed v" "\<not> nv_massive_completed v"
    by (simp_all add: v_def start_vars_def)
  have r: "w_residual_tasks_num w \<noteq> 0" using live_residual_0 [OF assms(2)] assms(1,3) by (auto simp: running_def)
  then have ws: "w_status w < OPH_ODB_STATUS_COMPLETED" using ok(11) by simp
  have p: "process_notification conf answer n status w =
      (if status = OPH_ODB_STATUS_RUNNING \<and> w_status w < OPH_ODB_STATUS_RUNNING
       then Notify_Go (?w\<lparr>w_status := OPH_ODB_STATUS_RUNNING\<rparr>) (v\<lparr>nv_update_wf_data := 1\<rparr>) else Notify_Go ?w v)"
    using assms(4,5) ts v s(1) ok(1,2) unfolding process_notification_def Let_def by (auto simp: status_defs)
  show ?thesis
  proof (cases "status = OPH_ODB_STATUS_RUNNING \<and> w_status w < OPH_ODB_STATUS_RUNNING")
    case True
    then show ?thesis
      unfolding p using v by (intro exI [of _ OPH_ODB_STATUS_RUNNING] exI [of _ "v\<lparr>nv_update_wf_data := 1\<rparr>"]) (simp add: status_defs)
  next
    case False
    have "?w\<lparr>w_status := w_status w\<rparr> = ?w" by simp
    then show ?thesis unfolding p if_not_P [OF False] using v ws by (intro exI [of _ "w_status w"] exI [of _ v]) simp
  qed
qed

lemma progress_live:
  assumes "live_ok {} G N w" and "i < N" and "running w i" and "0 < s" and "s < OPH_ODB_STATUS_COMPLETED" and "u < OPH_ODB_STATUS_COMPLETED"
  shows "live_ok {} G N (w\<lparr>w_tasks := (w_tasks w)[i := (w_tasks w ! i)\<lparr>t_status := s, t_residual_auto_retry_num := 0\<rparr>], w_status := u\<rparr>)"
    (is "live_ok {} G N ?w")
proof -
  note ok = live_okD [OF assms(1)]
  let ?t = "(w_tasks w ! i)\<lparr>t_status := s, t_residual_auto_retry_num := 0\<rparr>"
  have t: "w_tasks ?w ! j = (if j = i then ?t else w_tasks w ! j)" for j using assms(2) ok(2) by (simp add: nth_list_update)
  have "task_live {} N i ?t"
    using ok(8) [OF assms(2)] assms(3-5) dep_ok_cong [of ?t "w_tasks w ! i"] by (simp add: task_live_def plain_task_def counted_def running_def)
  then have live: "task_live {} N j (w_tasks ?w ! j)" if "j < N" for j using ok(8) [OF that] t by simp
  have "t_status (w_tasks w ! i) < OPH_ODB_STATUS_COMPLETED" using assms(3) by (simp add: running_def)
  then have s: "t_status (w_tasks ?w ! j) < OPH_ODB_STATUS_COMPLETED \<longleftrightarrow> t_status (w_tasks w ! j) < OPH_ODB_STATUS_COMPLETED" for j
    unfolding t using assms(5) by simp
  have "p < N \<and> (p, j) \<in> G \<and> int j \<in> set (t_dependents_indexes (w_tasks ?w ! p)) \<and> t_status (w_tasks ?w ! p) < OPH_ODB_STATUS_COMPLETED"
    if "j < N" "waits p (w_tasks ?w ! j)" for p j
  proof -
    have "waits p (w_tasks w ! j)" using that(2) unfolding t by (simp add: waits_def split: if_splits)
    then show ?thesis using ok(9) [OF that(1), of p] s [of p] unfolding t by (cases "p = i") simp_all
  qed
  moreover have "w_residual_tasks_num w \<noteq> 0" using live_residual_0 [OF assms(1)] assms(2,3) by (auto simp: running_def)
  moreover have "t_name (w_tasks ?w ! N) = None \<and> t_status (w_tasks ?w ! N) = 0" using ok(3,4) assms(2) unfolding t by simp
  ultimately show ?thesis
    using ok(1,2,5,6,7,10) live s assms(6) unfolding live_ok_def by (simp del: nth_list_update_eq)
qed


section \<open>Runs\<close>

text \<open>The workflow after a notification and the start of the next tasks.\<close>

definition workflow_next :: "string \<Rightarrow> notify_conf \<Rightarrow> string \<Rightarrow> string option \<Rightarrow> string \<Rightarrow> oph_workflow \<Rightarrow> oph_workflow option" where
  [code_defs]: "workflow_next web_server conf data output_json answer w =
     (case (notify_parse data, oph_workflow_notify conf (\<lambda>_. Some w) data output_json answer) of
        (Inr n, Reply_Processed (Notify_Go w1 v)) \<Rightarrow>
          (case next_tasks web_server (nat (n_taskindex n)) w1 v of None \<Rightarrow> None | Some (is, w2) \<Rightarrow> execute_tasks is w2)
      | _ \<Rightarrow> None)"

text \<open>A running task reports progress or its success.\<close>

inductive success_step :: "string \<Rightarrow> oph_workflow \<Rightarrow> oph_workflow \<Rightarrow> bool" for web_server where
  "success_step web_server w w'"
  if "notify_parse data = Inr n" and "running w (nat (n_taskindex n))" and "n_lighttaskindex n < 0" and "n_status n \<le> OPH_ODB_STATUS_COMPLETED"
    and "workflow_next web_server conf data output_json answer w = Some w'"

lemma workflow_next_process:
  assumes "workflow_next web_server conf data output_json answer w = Some w'" and "notify_parse data = Inr n"
  shows "\<exists>status w1 v is w2. notify_status (n_status n) = Some status \<and> 0 \<le> n_taskindex n \<and> nat (n_taskindex n) < length (w_tasks w) \<and>
    process_notification conf answer n status w = Notify_Go w1 v \<and> next_tasks web_server (nat (n_taskindex n)) w1 v = Some (is, w2) \<and>
    execute_tasks is w2 = Some w'"
  using assms unfolding workflow_next_def oph_workflow_notify_def
  by (auto simp: valid_index_def split: option.splits if_splits bool.splits notify_reply.splits notify_outcome.splits)

lemma success_step_live:
  assumes "success_step web_server w w'" and "live_ok {} G N w"
  shows "live_ok {} G N w'"
  using assms(1)
proof (cases rule: success_step.cases)
  case (1 data n conf output_json answer)
  note ok = live_okD [OF assms(2)]
  obtain status w1 v ks w2 where p: "notify_status (n_status n) = Some status" "nat (n_taskindex n) < length (w_tasks w)"
      "process_notification conf answer n status w = Notify_Go w1 v" "next_tasks web_server (nat (n_taskindex n)) w1 v = Some (ks, w2)"
      "execute_tasks ks w2 = Some w'"
    using workflow_next_process [OF 1(5,1)] by blast
  define i where "i = nat (n_taskindex n)"
  have i: "i < N" "running w i" using p(2) 1(2) ok(2,4) by (auto simp: i_def running_def less_Suc_eq status_defs)
  show ?thesis
  proof (cases "n_status n = OPH_ODB_STATUS_COMPLETED")
    case True
    then have "status = OPH_ODB_STATUS_COMPLETED" using p(1) by (simp add: notify_status_def)
    then show ?thesis using live_end [OF assms(2) i i_def [symmetric] 1(3) True, of conf answer web_server] p(3-5) by (auto simp: i_def)
  next
    case False
    then have s: "n_status n < OPH_ODB_STATUS_COMPLETED" using 1(4) by simp
    have pos: "0 < n_status n" using p(1) s by (auto simp: notify_status_def status_defs split: if_splits)
    obtain u where w1: "w1 = w\<lparr>w_tasks := (w_tasks w)[i := (w_tasks w ! i)\<lparr>t_status := n_status n, t_residual_auto_retry_num := 0\<rparr>], w_status := u\<rparr>"
        and u: "u < OPH_ODB_STATUS_COMPLETED" and v: "\<not> nv_final v" "\<not> nv_retry_task_execution v" "\<not> nv_task_completed v"
      using progress_process [OF i(1) assms(2) i(2) i_def [symmetric] 1(3) p(1) s, of conf answer] p(3) by auto
    have "w' = w1" using p(4,5) v by (auto simp: next_tasks_def execute_tasks_def)
    then show ?thesis unfolding w1 using progress_live [OF assms(2) i pos s u] by simp
  qed
qed

lemma success_run_live: "(success_step web_server)\<^sup>*\<^sup>* w w' \<Longrightarrow> live_ok {} G N w \<Longrightarrow> live_ok {} G N w'"
  by (induction rule: rtranclp_induct) (auto intro: success_step_live)

lemma workflow_next_end:
  assumes "live_ok {} G N w" and "i < N" and "running w i" and "notify_parse data = Inr n" and "n_taskindex n = int i"
    and "n_lighttaskindex n < 0" and "n_status n = OPH_ODB_STATUS_COMPLETED" and "n_jobid n \<noteq> 0"
  shows "\<exists>w'. workflow_next web_server conf data output_json answer w = Some w' \<and> w_residual_tasks_num w' = w_residual_tasks_num w - 1"
proof -
  note ok = live_okD [OF assms(1)]
  have i: "nat (n_taskindex n) = i" using assms(5) by simp
  obtain w1 v ks w2 w3 where p: "process_notification conf answer n OPH_ODB_STATUS_COMPLETED w = Notify_Go w1 v"
      "next_tasks web_server i w1 v = Some (ks, w2)" "execute_tasks ks w2 = Some w3" "w_residual_tasks_num w3 = w_residual_tasks_num w - 1"
    using live_end [OF assms(1-3) i assms(6,7)] by metis
  have "w_status w \<le> OPH_ODB_STATUS_COMPLETED" using ok(11) by (auto split: if_splits)
  then have "oph_workflow_notify conf (\<lambda>_. Some w) data output_json answer = Reply_Processed (Notify_Go w1 v)"
    using assms(2,5,7,8) ok(2,7) p(1) unfolding oph_workflow_notify_def assms(4)
    by (simp add: notify_status_def valid_index_def status_defs)
  then show ?thesis using p(2-4) i unfolding workflow_next_def assms(4) by simp
qed

text \<open>A workflow of plain tasks that is submitted.\<close>

definition submitted :: "oph_workflow \<Rightarrow> bool" where
  [code_defs]: "submitted w \<longleftrightarrow> length (w_tasks w) = Suc (w_tasks_num w) \<and> fresh (w_tasks w) \<and> t_name (w_tasks w ! w_tasks_num w) = None \<and>
     t_deps (w_tasks w ! w_tasks_num w) = [] \<and> w_exit_cubes w = None \<and> w_exit_containers w = None \<and> \<not> w_is_closed w \<and>
     w_residual_tasks_num w = int (w_tasks_num w) \<and> w_status w < OPH_ODB_STATUS_COMPLETED \<and>
     list_all (\<lambda>j. plain_task (w_tasks_num w) j (w_tasks w ! j) \<and> t_outputs (w_tasks w ! j) = []) [0..<w_tasks_num w]"

lemma live_start:
  assumes "oph_workflow_indexing ts N = Some (OPH_WORKFLOW_EXIT_SUCCESS, w_tasks w)" and "not_indexed N ts"
    and "distinct (map t_name (take N ts))" and "w_tasks_num w = N" and "submitted w"
  shows "live_ok {j. j < N \<and> t_deps (w_tasks w ! j) = []} (dep_rel N ts) N w"
proof -
  note run = indexing_run [OF assms(1,2)]
  have sub: "length (w_tasks w) = Suc N" "fresh (w_tasks w)" "t_name (w_tasks w ! N) = None" "t_deps (w_tasks w ! N) = []"
      "w_exit_cubes w = None" "w_exit_containers w = None" "\<not> w_is_closed w" "w_residual_tasks_num w = int N" "w_status w < OPH_ODB_STATUS_COMPLETED"
      "\<And>j. j < N \<Longrightarrow> plain_task N j (w_tasks w ! j) \<and> t_outputs (w_tasks w ! j) = []"
    using assms(4,5) by (auto simp: submitted_def list_all_iff)
  have fresh: "t_status (w_tasks w ! j) = 0 \<and> t_residual_deps_num (w_tasks w ! j) = int (length (t_deps (w_tasks w ! j)))" if "j \<le> N" for j
    using sub(1,2) that by (simp add: fresh_def list_all_length status_defs)
  have "length ts = Suc N" using run(2) sub(1) by (simp add: same_deps_def)
  note start = schedule_okD [OF schedule_ok_start [OF assms(1-4) this sub(2,4)]]
  have "task_live {j. j < N \<and> t_deps (w_tasks w ! j) = []} N j (w_tasks w ! j)" if "j < N" for j
    using fresh [of j] sub(10) [OF that] start(3) [of j] that sub(1) by (auto simp: task_live_def)
  moreover have "p < N \<and> (p, j) \<in> dep_rel N ts \<and> int j \<in> set (t_dependents_indexes (w_tasks w ! p)) \<and>
      t_status (w_tasks w ! p) < OPH_ODB_STATUS_COMPLETED" if "j < N" "waits p (w_tasks w ! j)" for p j
  proof -
    have m: "int p \<in> d_task_index ` set (t_deps (w_tasks w ! j))" using that(2) unfolding waits_def list_ex_iff by (metis image_eqI)
    then have p: "p < N" using run(1) that(1) by (fastforce simp: index_inv_def)
    have "count (mset (t_dependents_indexes (w_tasks w ! p))) (int j) = count (mset (map d_task_index (t_deps (w_tasks w ! j)))) (int p)"
      using run(1) that(1) p by (auto simp: index_inv_def)
    then have "int j \<in> set (t_dependents_indexes (w_tasks w ! p))" using m by (metis count_greater_zero_iff set_map set_mset_mset)
    then show ?thesis using p that(1) m indexed_edge [OF assms(1-3) p that(1)] fresh [of p] by (simp add: status_defs)
  qed
  moreover have "{j. j < N \<and> t_status (w_tasks w ! j) < OPH_ODB_STATUS_COMPLETED} = {..<N}" using fresh by (auto simp: status_defs)
  ultimately show ?thesis using sub fresh [of N] run(3) assms(4) unfolding live_ok_def by simp
qed

lemma live_begin:
  assumes "oph_workflow_indexing ts N = Some (OPH_WORKFLOW_EXIT_SUCCESS, w_tasks w)" and "not_indexed N ts"
    and "distinct (map t_name (take N ts))" and "w_tasks_num w = N" and "submitted w"
  shows "\<exists>w1. execute_tasks (map int (snd (oph_workflow_init (w_tasks w) N))) w = Some w1 \<and> live_ok {} (dep_rel N ts) N w1"
proof -
  have N: "1 \<le> N" using indexing_run(3) [OF assms(1,2)] .
  have "set (snd (oph_workflow_init (w_tasks w) N)) = {j. j < N \<and> t_deps (w_tasks w ! j) = []}"
    using N by (auto simp: oph_workflow_init_def Let_def filter_empty_conv)
  then show ?thesis
    using live_execute [OF live_start [OF assms], of "map int (snd (oph_workflow_init (w_tasks w) N))"]
    by (auto simp: image_image)
qed

text \<open>In every live state a task is running or the workflow has ended, and the end of a running task is counted.\<close>

lemma live_completes:
  assumes "live_ok {} (dep_rel N ts) N w" and "acyclic (dep_rel N ts)"
  shows "w_residual_tasks_num w = int (card {j. j < N \<and> t_status (w_tasks w ! j) < OPH_ODB_STATUS_COMPLETED}) \<and>
    (if w_residual_tasks_num w = 0 then w_status w = OPH_ODB_STATUS_COMPLETED else (\<exists>i < N. running w i)) \<and>
    (\<forall>i data n conf output_json answer. i < N \<and> running w i \<and> notify_parse data = Inr n \<and> n_taskindex n = int i \<and> n_lighttaskindex n < 0 \<and>
       n_status n = OPH_ODB_STATUS_COMPLETED \<and> n_jobid n \<noteq> 0 \<longrightarrow>
       (\<exists>w3. workflow_next web_server conf data output_json answer w = Some w3 \<and> w_residual_tasks_num w3 = w_residual_tasks_num w - 1))"
proof -
  have "finite (dep_rel N ts)" by (rule finite_subset [of _ "{..<N} \<times> {..<N}"]) (auto simp: dep_rel_def)
  then have "wf (dep_rel N ts)" using assms(2) finite_acyclic_wf by blast
  then have "if w_residual_tasks_num w = 0 then w_status w = OPH_ODB_STATUS_COMPLETED else (\<exists>i < N. running w i)"
    using live_okD(11) [OF assms(1)] live_running [OF assms(1)] by simp
  then show ?thesis using live_okD(10) [OF assms(1)] workflow_next_end [OF assms(1)] by blast
qed

section \<open>Properties\<close>

text \<open>
  C4: a workflow whose tasks succeed runs to its end. In every state that a validated workflow of plain tasks reaches from its initial tasks by
  notifications of progress and of success, the residual tasks are those that have not ended; while there are any, one of them is running,
  and otherwise the workflow is completed. The notification of the end of any running task is processed and leaves one residual task
  less, so that no order of the notifications leads to a state without a next one.\<close>

theorem workflow_run_completes:
  assumes "oph_workflow_indexing ts N = Some (OPH_WORKFLOW_EXIT_SUCCESS, w_tasks w)" and "not_indexed N ts"
    and "distinct (map t_name (take N ts))" and "acyclic (dep_rel N ts)" and "w_tasks_num w = N" and "submitted w"
    and "execute_tasks (map int (snd (oph_workflow_init (w_tasks w) N))) w = Some w1" and "(success_step web_server)\<^sup>*\<^sup>* w1 w2"
  shows "w_residual_tasks_num w2 = int (card {j. j < N \<and> t_status (w_tasks w2 ! j) < OPH_ODB_STATUS_COMPLETED}) \<and>
    (if w_residual_tasks_num w2 = 0 then w_status w2 = OPH_ODB_STATUS_COMPLETED else (\<exists>i < N. running w2 i)) \<and>
    (\<forall>i data n conf output_json answer. i < N \<and> running w2 i \<and> notify_parse data = Inr n \<and> n_taskindex n = int i \<and> n_lighttaskindex n < 0 \<and>
       n_status n = OPH_ODB_STATUS_COMPLETED \<and> n_jobid n \<noteq> 0 \<longrightarrow>
       (\<exists>w3. workflow_next web_server conf data output_json answer w2 = Some w3 \<and> w_residual_tasks_num w3 = w_residual_tasks_num w2 - 1))"
proof -
  have "live_ok {} (dep_rel N ts) N w1" using live_begin [OF assms(1-3,5,6)] assms(7) by simp
  from live_completes [OF success_run_live [OF assms(8) this] assms(4)] show ?thesis .
qed

theorem workflow_run_completes_witness:
  "(\<exists>i < 2. running demo_started i) \<and>
   (\<exists>w. workflow_next ''web'' demo_conf (demo_data 0) None [] demo_started = Some w \<and> w_residual_tasks_num w = 1)"
proof -
  have "dep_rel 2 demo_pipeline \<subseteq> {(i, j). i < j}"
    by (auto simp: dep_rel_def demo_pipeline_def demo_embedded_def demo_dep_def zero_task_def less_2_cases_iff)
  then have "acyclic (dep_rel 2 demo_pipeline)" using acyclic_subset [OF wf_acyclic [OF wf_less]] by blast
  moreover have "submitted demo_submitted" and "not_indexed 2 demo_pipeline" and "distinct (map t_name (take 2 demo_pipeline))"
    by (simp_all add: submitted_def fresh_def plain_task_def args_ok_def dep_ok_def demo_pipeline_def demo_submitted_def not_indexed_def
      notify_eval eval_nat_numeral)
  moreover have "w_tasks_num demo_submitted = 2" "w_residual_tasks_num demo_started = 2" "running demo_started 0"
    by (simp_all add: demo_submitted_def demo_started_def upd_task_def running_def status_defs)
  note facts = calculation this
  have "\<forall>i data n conf output_json answer. i < 2 \<and> running demo_started i \<and> notify_parse data = Inr n \<and> n_taskindex n = int i \<and>
      n_lighttaskindex n < 0 \<and> n_status n = OPH_ODB_STATUS_COMPLETED \<and> n_jobid n \<noteq> 0 \<longrightarrow>
      (\<exists>w3. workflow_next ''web'' conf data output_json answer demo_started = Some w3 \<and> w_residual_tasks_num w3 = w_residual_tasks_num demo_started - 1)"
    using workflow_run_completes [OF demo_indexed_pipeline _ _ _ _ _ demo_execute rtranclp.rtrancl_refl, of "''web''"] facts by blast
  from this [rule_format, of 0 "demo_data 0"] show ?thesis using facts demo_parse by (auto simp: status_defs intro!: exI [of _ "0 :: nat"])
qed

end
