(* ===== verification/Workflow_Retry.thy ===== *)
theory Workflow_Retry
  imports Workflow_Progress
begin

text \<open>
  Notifications that come more than once, through the operations of \<open>Workflow_Notify\<close>: how often a task that cannot be started is executed
  again before it counts as failed, and what a second notification of a success does.
\<close>

section \<open>Automatic retries\<close>

text \<open>
  A task with one attempt that cannot be started is executed again as long as the residual automatic retries last; the number \<open>a\<close> of
  them is 0 before the first error.
\<close>

definition retried_task :: "nat \<Rightarrow> int \<Rightarrow> oph_workflow \<Rightarrow> bool" where
  [code_defs]: "retried_task i a w \<longleftrightarrow> i < w_tasks_num w \<and> w_tasks_num w < length (w_tasks w) \<and> t_name (w_tasks w ! w_tasks_num w) = None \<and>
     \<not> w_is_closed w \<and> w_status w < OPH_ODB_STATUS_COMPLETED \<and> w_residual_tasks_num w \<noteq> 0 \<and> running w i \<and>
     (let t = w_tasks w ! i in t_retry_num t = 1 \<and> t_residual_retry_num t = 1 \<and> t_residual_auto_retry_num t = a \<and> 
        (t_is_marked_for_auto_retry t \<longleftrightarrow> a \<noteq> 0) \<and> args_ok (t_arguments t) \<and> t_residual_deps_num t = 0 \<and>
        list_all (\<lambda>k. valid_index w k \<and> t_operator (w_tasks w ! nat k) \<noteq> None) (t_dependents_indexes t))"

definition start_error :: "nat \<Rightarrow> notification \<Rightarrow> bool" where
  [code_defs]: "start_error i n \<longleftrightarrow> n_taskindex n = int i \<and> n_lighttaskindex n < 0 \<and> n_status n = OPH_ODB_STATUS_START_ERROR \<and> n_jobid n \<noteq> 0"

lemma notify_start_error:
  assumes "retried_task i a w" and "start_error i n" and "notify_parse data = Inr n"
  shows "oph_workflow_notify conf (\<lambda>_. Some w) data output_json answer = Reply_Processed (process_notification conf answer n OPH_ODB_STATUS_ERROR w)"
    and "process_notification conf answer n OPH_ODB_STATUS_ERROR w =
      notify_then (task_status conf i OPH_ODB_STATUS_START_ERROR w (start_vars OPH_ODB_STATUS_ERROR)) (end_task conf answer i (n_outputs n))"
proof -
  have n: "n_taskindex n = int i" "n_lighttaskindex n < 0" "n_status n = OPH_ODB_STATUS_START_ERROR" "n_jobid n \<noteq> 0"
    using assms(2) by (simp_all add: start_error_def)
  have w: "i < w_tasks_num w" "w_tasks_num w < length (w_tasks w)" "t_name (w_tasks w ! w_tasks_num w) = None"
      "\<not> w_is_closed w" "w_status w < OPH_ODB_STATUS_COMPLETED" "running w i"
    using assms(1) by (simp_all add: retried_task_def)
  have s: "notify_status OPH_ODB_STATUS_START_ERROR = Some OPH_ODB_STATUS_ERROR" by (simp add: notify_status_def status_defs)
  have ng: "neglected n w = Some False" using n w(6) by (auto simp: neglected_def Let_def running_def status_defs)
  show "oph_workflow_notify conf (\<lambda>_. Some w) data output_json answer = Reply_Processed (process_notification conf answer n OPH_ODB_STATUS_ERROR w)"
    unfolding oph_workflow_notify_def assms(3) using n w ng s by (simp add: valid_index_def status_defs)
  show "process_notification conf answer n OPH_ODB_STATUS_ERROR w =
      notify_then (task_status conf i OPH_ODB_STATUS_START_ERROR w (start_vars OPH_ODB_STATUS_ERROR)) (end_task conf answer i (n_outputs n))"
  proof (cases "task_status conf i OPH_ODB_STATUS_START_ERROR w (start_vars OPH_ODB_STATUS_ERROR)")
    case (Notify_Go u v)
    have u: "w_tasks_num u = w_tasks_num w" "length (w_tasks u) = length (w_tasks w)" "w_tasks u ! w_tasks_num w = w_tasks w ! w_tasks_num w"
        "nv_status v = OPH_ODB_STATUS_ERROR"
      using Notify_Go w(1) by (auto simp: task_status_def Let_def start_vars_def split: if_splits)
    then show ?thesis using Notify_Go n w unfolding process_notification_def Let_def by simp
  qed (use n in \<open>simp_all add: process_notification_def Let_def\<close>)
qed

lemma end_task_retry:
  assumes "i < length (w_tasks w)" and "w_residual_tasks_num w \<noteq> 0" and "nc_auto_retry conf \<noteq> 0" and "nv_status v = OPH_ODB_STATUS_ERROR" and "\<not> nv_final v"
    and "t_retry_num (w_tasks w ! i) = 1" "t_residual_retry_num (w_tasks w ! i) = 1" "t_is_marked_for_auto_retry (w_tasks w ! i)"
    and "list_all (\<lambda>k. valid_index w k \<and> t_operator (w_tasks w ! nat k) \<noteq> None) (t_dependents_indexes (w_tasks w ! i))"
  shows "t_residual_auto_retry_num (w_tasks w ! i) > 1 \<Longrightarrow>
      \<exists>resp v'. end_task conf answer i outs w v = Notify_Go (w\<lparr>w_tasks := (w_tasks w)[i := (w_tasks w ! i)\<lparr>t_response := resp,
        t_residual_auto_retry_num := t_residual_auto_retry_num (w_tasks w ! i) - 1, t_status := OPH_ODB_STATUS_UNKNOWN\<rparr>]\<rparr>) v' \<and>
        nv_retry_task_execution v' \<and> \<not> nv_final v'"
    and "t_residual_auto_retry_num (w_tasks w ! i) = 1 \<Longrightarrow>
      outcome_all (\<lambda>w'. t_status (w_tasks w' ! i) = t_status (w_tasks w ! i)) (end_task conf answer i outs w v)"
proof -
  obtain resp where kr: "keep_response i answer (t_dependents_indexes (w_tasks w ! i)) w = Some (upd_task (\<lambda>t. t\<lparr>t_response := resp\<rparr>) i w)"
    using keep_response_defined [of "t_dependents_indexes (w_tasks w ! i)" w i answer] assms(1,9) by (auto simp: list_all_iff)
  let ?t = "(w_tasks w ! i)\<lparr>t_response := resp\<rparr>" and ?v = "v\<lparr>nv_update_wf_data := 1\<rparr>"
  define w2 where "w2 = w\<lparr>w_tasks := (w_tasks w)[i := ?t]\<rparr>"
  have t: "w_tasks w2 ! i = ?t" using assms(1) by (simp add: w2_def)
  have run: "end_task conf answer i outs w v = notify_then (fail_task conf i w2 ?v) (trace_output i)"
    using assms(2,4,6) kr unfolding end_task_def Let_def by (simp add: upd_task_def w2_def [symmetric] t) (simp add: status_defs)
  show "\<exists>resp v'. end_task conf answer i outs w v = Notify_Go (w\<lparr>w_tasks := (w_tasks w)[i := (w_tasks w ! i)\<lparr>t_response := resp,
        t_residual_auto_retry_num := t_residual_auto_retry_num (w_tasks w ! i) - 1, t_status := OPH_ODB_STATUS_UNKNOWN\<rparr>]\<rparr>) v' \<and>
        nv_retry_task_execution v' \<and> \<not> nv_final v'" if b: "t_residual_auto_retry_num (w_tasks w ! i) > 1"
  proof -
    have "auto_retry (nc_auto_retry conf) ?t = (True, ?t\<lparr>t_residual_auto_retry_num := t_residual_auto_retry_num (w_tasks w ! i) - 1\<rparr>)"
      using b by (simp add: auto_retry_def)
    then have "fail_task conf i w2 ?v = restart_task i (?t\<lparr>t_residual_auto_retry_num := t_residual_auto_retry_num (w_tasks w ! i) - 1\<rparr>) w2 ?v"
      using assms(3,6-8) unfolding fail_task_def Let_def t by simp
    then show ?thesis
      unfolding run restart_task_def using assms(5)
      by (intro exI [of _ resp] exI [of _ "?v\<lparr>nv_update_wf_data := 0, nv_status := OPH_ODB_STATUS_RUNNING, nv_retry_task_execution := True\<rparr>"])
        (simp add: trace_output_def status_defs w2_def)
  qed
  show "outcome_all (\<lambda>w'. t_status (w_tasks w' ! i) = t_status (w_tasks w ! i)) (end_task conf answer i outs w v)"
    if b: "t_residual_auto_retry_num (w_tasks w ! i) = 1"
  proof -
    let ?w3 = "w2\<lparr>w_tasks := (w_tasks w2)[i := ?t\<lparr>t_residual_retry_num := 0\<rparr>], w_residual_tasks_num := w_residual_tasks_num w2 - 1, w_status := nv_status ?v\<rparr>"
    have "auto_retry (nc_auto_retry conf) ?t = (False, ?t)" using b by (simp add: auto_retry_def)
    then obtain v3 where "fail_task conf i w2 ?v = Notify_Go ?w3 v3"
      using assms(3,6-8) unfolding fail_task_def Let_def t by auto
    then show ?thesis
      unfolding run using assms(1)
      by (simp add: trace_output_def oph_workflow_save_task_output_def w2_def)
  qed
qed

lemma start_error_retry:
  assumes "retried_task i a w" and "start_error i n" and "notify_parse data = Inr n" and "0 < nc_auto_retry conf" and "a = 0 \<or> 3 \<le> a"
  shows "\<exists>w'. workflow_next web_server conf data output_json answer w = Some w' \<and>
    retried_task i (if a = 0 then nc_auto_retry conf else a - 2) w'"
proof -
  let ?t = "w_tasks w ! i"
  let ?b = "if a = 0 then 1 + nc_auto_retry conf else a - 1"
  let ?t1 = "?t\<lparr>t_status := OPH_ODB_STATUS_START_ERROR, t_residual_auto_retry_num := ?b, t_is_marked_for_auto_retry := True\<rparr>"
  let ?w1 = "w\<lparr>w_tasks := (w_tasks w)[i := ?t1]\<rparr>"
  have w: "i < w_tasks_num w" "w_tasks_num w < length (w_tasks w)" "i < length (w_tasks w)" "t_name (w_tasks w ! w_tasks_num w) = None" "\<not> w_is_closed w"
      "w_status w < OPH_ODB_STATUS_COMPLETED" "w_residual_tasks_num w \<noteq> 0"
    and t: "t_retry_num ?t = 1" "t_residual_retry_num ?t = 1" "t_residual_auto_retry_num ?t = a" "t_is_marked_for_auto_retry ?t \<longleftrightarrow> a \<noteq> 0"
      "args_ok (t_arguments ?t)" "t_residual_deps_num ?t = 0"
      "list_all (\<lambda>k. valid_index w k \<and> t_operator (w_tasks w ! nat k) \<noteq> None) (t_dependents_indexes ?t)"
    using assms(1) by (auto simp: retried_task_def Let_def)
  have keep: "?t\<lparr>t_is_marked_for_auto_retry := True\<rparr> = ?t" if "a \<noteq> 0" using t(4) that by simp
  have ts: "task_status conf i OPH_ODB_STATUS_START_ERROR w (start_vars OPH_ODB_STATUS_ERROR) = Notify_Go ?w1 (start_vars OPH_ODB_STATUS_ERROR)"
  proof (cases "a = 0")
    case True
    then show ?thesis using assms(4) t by (simp add: task_status_def Let_def)
  next
    case False
    have "?t1 = ?t\<lparr>t_is_marked_for_auto_retry := True\<rparr>\<lparr>t_status := OPH_ODB_STATUS_START_ERROR, t_residual_auto_retry_num := a - 1\<rparr>"
      using False by simp
    then have eq: "?t1 = ?t\<lparr>t_status := OPH_ODB_STATUS_START_ERROR, t_residual_auto_retry_num := a - 1\<rparr>" unfolding keep [OF False] .
    show ?thesis unfolding eq using assms(4,5) False t by (simp add: task_status_def Let_def)
  qed
  have t1: "w_tasks ?w1 ! i = ?t1" using w(3) by simp
  have d: "list_all (\<lambda>k. valid_index ?w1 k \<and> t_operator (w_tasks ?w1 ! nat k) \<noteq> None) (t_dependents_indexes (w_tasks ?w1 ! i))"
    using t(7) w(3) unfolding t1 by (auto simp: list_all_iff valid_index_def nth_list_update)
  have "\<exists>resp v'. end_task conf answer i (n_outputs n) ?w1 (start_vars OPH_ODB_STATUS_ERROR) = Notify_Go (?w1\<lparr>w_tasks := (w_tasks ?w1)[i :=
        (w_tasks ?w1 ! i)\<lparr>t_response := resp, t_residual_auto_retry_num := t_residual_auto_retry_num (w_tasks ?w1 ! i) - 1,
          t_status := OPH_ODB_STATUS_UNKNOWN\<rparr>]\<rparr>) v' \<and> nv_retry_task_execution v' \<and> \<not> nv_final v'"
    by (rule end_task_retry(1)) (use w t d assms(4,5) in \<open>auto simp: t1 start_vars_def\<close>)
  then obtain resp v where e: "end_task conf answer i (n_outputs n) ?w1 (start_vars OPH_ODB_STATUS_ERROR) =
      Notify_Go (w\<lparr>w_tasks := (w_tasks w)[i := ?t1\<lparr>t_response := resp, t_residual_auto_retry_num := ?b - 1, t_status := OPH_ODB_STATUS_UNKNOWN\<rparr>]\<rparr>) v"
      (is "_ = Notify_Go ?w2 v") and v: "nv_retry_task_execution v" "\<not> nv_final v"
    unfolding t1 by auto
  obtain args where args: "fill_arguments (t_arguments ?t) = Some args" "args_ok args" using fill_arguments_grown [OF t(5)] t(5) by (auto simp: grown_def)
  let ?w3 = "upd_task (\<lambda>t. t\<lparr>t_arguments := args, t_status := OPH_ODB_STATUS_PENDING\<rparr>) i ?w2"
  have "next_tasks web_server i ?w2 v = Some ([int i], ?w2)" using v by (simp add: next_tasks_def)
  moreover have "execute_tasks [int i] ?w2 = Some ?w3"
    using w t(6) args(1) by (simp add: execute_tasks_def ready_def upd_task_def status_defs)
  ultimately have "workflow_next web_server conf data output_json answer w = Some ?w3"
    using notify_start_error [OF assms(1-3)] ts e assms(2) unfolding workflow_next_def assms(3) by (simp add: start_error_def)
  moreover have "retried_task i (?b - 1) ?w3"
  proof -
    let ?t3 = "?t1\<lparr>t_response := resp, t_residual_auto_retry_num := ?b - 1, t_arguments := args, t_status := OPH_ODB_STATUS_PENDING\<rparr>"
    have w3: "w_tasks ?w3 = (w_tasks w)[i := ?t3]" using w(3) by (simp add: upd_task_def)
    have i3: "w_tasks ?w3 ! i = ?t3" unfolding w3 using w(3) by simp
    have f: "w_tasks_num ?w3 = w_tasks_num w" "w_is_closed ?w3 = w_is_closed w" "w_status ?w3 = w_status w"
        "w_residual_tasks_num ?w3 = w_residual_tasks_num w" "length (w_tasks ?w3) = length (w_tasks w)"
        "w_tasks ?w3 ! w_tasks_num w = w_tasks w ! w_tasks_num w"
      using w(1) by (simp_all add: upd_task_def)
    have "list_all (\<lambda>k. valid_index ?w3 k \<and> t_operator (w_tasks ?w3 ! nat k) \<noteq> None) (t_dependents_indexes ?t)"
      using t(7) w(3) unfolding w3 valid_index_def f list_all_iff by (auto simp: nth_list_update)
    moreover have "?b - 1 \<noteq> 0" using assms(4,5) by auto
    moreover have "running ?w3 i" unfolding running_def i3 by (simp add: status_defs)
    ultimately show ?thesis unfolding retried_task_def Let_def i3 f using w t args(2) by simp
  qed
  moreover have "?b - 1 = (if a = 0 then nc_auto_retry conf else a - 2)" by simp
  ultimately show ?thesis by (intro exI [of _ ?w3] conjI) (assumption, erule subst [where P = "\<lambda>b. retried_task i b ?w3"], assumption)
qed

lemma start_error_stop:
  assumes "retried_task i a w" and "start_error i n" and "notify_parse data = Inr n" and "0 < nc_auto_retry conf" and "a = 1 \<or> a = 2"
    and "workflow_next web_server conf data output_json answer w = Some w'"
  shows "\<not> running w' i"
proof -
  let ?t = "w_tasks w ! i"
  let ?t1 = "?t\<lparr>t_status := OPH_ODB_STATUS_START_ERROR, t_residual_auto_retry_num := 1\<rparr>"
  let ?w1 = "w\<lparr>w_tasks := (w_tasks w)[i := ?t1]\<rparr>"
  have w: "i < length (w_tasks w)" "w_residual_tasks_num w \<noteq> 0"
    and t: "t_retry_num ?t = 1" "t_residual_retry_num ?t = 1" "t_residual_auto_retry_num ?t = a" "t_is_marked_for_auto_retry ?t"
      "list_all (\<lambda>k. valid_index w k \<and> t_operator (w_tasks w ! nat k) \<noteq> None) (t_dependents_indexes ?t)"
    using assms(1,5) by (auto simp: retried_task_def Let_def)
  have keep: "?t\<lparr>t_residual_auto_retry_num := 1\<rparr> = ?t" if "a = 1" using t(3) that by simp
  have t1: "?t1 = ?t\<lparr>t_status := OPH_ODB_STATUS_START_ERROR\<rparr>" if "a = 1"
  proof -
    have "?t1 = ?t\<lparr>t_residual_auto_retry_num := 1\<rparr>\<lparr>t_status := OPH_ODB_STATUS_START_ERROR\<rparr>" by simp
    then show ?thesis unfolding keep [OF that] .
  qed
  have ts: "(\<exists>v. task_status conf i OPH_ODB_STATUS_START_ERROR w (start_vars OPH_ODB_STATUS_ERROR) = Notify_Go ?w1 v \<and>
        nv_status v = OPH_ODB_STATUS_ERROR \<and> \<not> nv_final v) \<or>
      (\<exists>rc u. task_status conf i OPH_ODB_STATUS_START_ERROR w (start_vars OPH_ODB_STATUS_ERROR) = Notify_Stop rc u)"
  proof (cases "a = 1")
    case True
    show ?thesis unfolding t1 [OF True] using assms(4) t True by (simp add: task_status_def Let_def start_vars_def)
  next
    case False
    then show ?thesis using assms(4,5) t by (simp add: task_status_def Let_def start_vars_def)
  qed
  have i1: "w_tasks ?w1 ! i = ?t1" using w(1) by simp
  have d: "list_all (\<lambda>k. valid_index ?w1 k \<and> t_operator (w_tasks ?w1 ! nat k) \<noteq> None) (t_dependents_indexes (w_tasks ?w1 ! i))"
    using t(5) w(1) unfolding i1 by (auto simp: list_all_iff valid_index_def nth_list_update)
  have e: "outcome_all (\<lambda>w'. t_status (w_tasks w' ! i) = t_status (w_tasks ?w1 ! i)) (end_task conf answer i (n_outputs n) ?w1 v)"
    if "nv_status v = OPH_ODB_STATUS_ERROR" "\<not> nv_final v" for v
    by (rule end_task_retry(2)) (use w t d assms(4) that in \<open>auto simp: i1\<close>)
  obtain u v ks w2 where u: "process_notification conf answer n OPH_ODB_STATUS_ERROR w = Notify_Go u v" "next_tasks web_server i u v = Some (ks, w2)"
      "execute_tasks ks w2 = Some w'"
    using assms(2,6) notify_start_error(1) [OF assms(1-3)] unfolding workflow_next_def assms(3)
    by (auto simp: start_error_def split: notify_outcome.splits option.splits)
  have s: "t_status (w_tasks u ! i) = OPH_ODB_STATUS_START_ERROR"
    using ts u(1) e unfolding notify_start_error(2) [OF assms(1-3)] i1 by fastforce
  have len: "i < length (w_tasks u)"
  proof -
    have "advanced (nat (n_taskindex n)) w u"
      using notify_advanced [OF assms(3) notify_start_error(1) [OF assms(1-3)]] u(1) by (metis outcome_all.simps(1))
    then show ?thesis using w(1) by (auto simp: advanced_def touches_def)
  qed
  have w2: "OPH_ODB_STATUS_COMPLETED \<le> t_status (w_tasks w2 ! i)" "i < length (w_tasks w2)"
    using touches_nth(4) [OF next_tasks_touches [OF u(2), of "{}" "{}"] len] s next_tasks_touches [OF u(2), of "{}" "{}"] len
    by (auto simp: status_defs touches_def)
  have "t_status (w_tasks w' ! i) = t_status (w_tasks w2 ! i)"
  proof (cases "w' = w2")
    case False
    then have "prepare_tasks ks w2 = Some w'" using u(3) by (auto simp: execute_tasks_def split: if_splits)
    then have "task_started (w_tasks w2 ! i) (w_tasks w' ! i)" using prepare_tasks_started w2(2) by blast
    then show ?thesis using w2(1) by (simp add: task_started_def status_defs)
  qed simp
  then show ?thesis using w2(1) by (simp add: running_def)
qed

text \<open>Whether the task is running again after each of \<open>k\<close> errors.\<close>

fun survives :: "(oph_workflow \<Rightarrow> oph_workflow option) \<Rightarrow> nat \<Rightarrow> nat \<Rightarrow> oph_workflow \<Rightarrow> bool" where
  "survives step i 0 w = True"
| "survives step i (Suc k) w = (case step w of None \<Rightarrow> False | Some w' \<Rightarrow> running w' i \<and> survives step i k w')"

lemma survives_later:
  assumes "start_error i n" and "notify_parse data = Inr n" and "0 < nc_auto_retry conf"
  shows "retried_task i a w \<Longrightarrow> 1 \<le> a \<Longrightarrow> survives (workflow_next web_server conf data output_json answer) i k w \<longleftrightarrow> 2 * int k < a"
proof (induction k arbitrary: a w)
  case (Suc k)
  show ?case
  proof (cases "3 \<le> a")
    case True
    obtain w' where w': "workflow_next web_server conf data output_json answer w = Some w'" "retried_task i (a - 2) w'"
      using start_error_retry [OF Suc.prems(1) assms, of web_server output_json answer] True by auto
    then have "running w' i" by (simp add: retried_task_def)
    then show ?thesis using w' Suc.IH [OF w'(2)] True by auto
  next
    case False
    then have "a = 1 \<or> a = 2" using Suc.prems(2) by auto
    from start_error_stop [OF Suc.prems(1) assms this] show ?thesis using False by (auto split: option.splits)
  qed
qed simp

text \<open>
  C26: the automatic retries are counted twice. With \<open>AUTO_RETRY\<close> set to \<open>n\<close>, a task with one attempt that fails to start is executed again
  only after the first \<open>(n + 1) div 2\<close> errors, not after \<open>n\<close> of them: both the update of the status of the task and the treatment of the failure
  take one off the residual retries.\<close>

theorem auto_retry_halved:
  assumes "retried_task i 0 w" and "start_error i n" and "notify_parse data = Inr n" and "0 < nc_auto_retry conf"
  shows "survives (workflow_next web_server conf data output_json answer) i k w \<longleftrightarrow> int k \<le> (nc_auto_retry conf + 1) div 2"
proof (cases k)
  case (Suc m)
  obtain w' where w': "workflow_next web_server conf data output_json answer w = Some w'" "retried_task i (nc_auto_retry conf) w'"
    using start_error_retry [OF assms, of web_server output_json answer] by auto
  then have "running w' i" by (simp add: retried_task_def)
  then show ?thesis using w' Suc survives_later [OF assms(2-4) w'(2)] assms(4) by auto
qed (use assms(4) in simp)

definition demo_retry :: oph_workflow where
  [code_defs]: "demo_retry = empty_workflow
     \<lparr>w_tasks := [zero_task\<lparr>t_name := Some ''a'', t_retry_num := 1, t_residual_retry_num := 1, t_status := OPH_ODB_STATUS_PENDING\<rparr>, zero_task],
      w_tasks_num := 1, w_residual_tasks_num := 1\<rparr>"

theorem auto_retry_halved_witness:
  "\<exists>data. survives (workflow_next ''web'' (demo_conf\<lparr>nc_auto_retry := 3\<rparr>) data None []) 0 2 demo_retry \<and>
     \<not> survives (workflow_next ''web'' (demo_conf\<lparr>nc_auto_retry := 3\<rparr>) data None []) 0 3 demo_retry"
proof -
  let ?data = "base_notification 1 0 (- 1) 7 OPH_ODB_STATUS_START_ERROR ''S'' 1 ''yes''"
  let ?n = "\<lparr>n_jobid = 7, n_status = OPH_ODB_STATUS_START_ERROR, n_parentid = 1, n_taskindex = 0, n_lighttaskindex = - 1, n_markerid = 1,
     n_sessionid = Some ''S'', n_query = None, n_outputs = [(''save'', ''yes'')]\<rparr>"
  have n: "notify_parse ?data = Inr ?n" "start_error 0 ?n"
    by (subst notify_parse_base) (simp_all add: is_c_int_def value_ok_def status_defs OPH_MAX_STRING_SIZE_def start_error_def)
  have r: "retried_task 0 0 demo_retry"
    by (simp add: retried_task_def demo_retry_def running_def notify_eval args_ok_def)
  note h = auto_retry_halved [OF r n(2,1), of "demo_conf\<lparr>nc_auto_retry := 3\<rparr>" "''web''" None "[]"]
  show ?thesis using h [of 2] h [of 3] by (auto intro!: exI [of _ ?data])
qed


section \<open>Repeated notifications\<close>

text \<open>A task that has ended with outputs, as \<open>complete_task\<close> leaves it.\<close>

definition ended_with_outputs :: "nat \<Rightarrow> oph_workflow \<Rightarrow> bool" where
  [code_defs]: "ended_with_outputs i w \<longleftrightarrow> i < w_tasks_num w \<and> w_tasks_num w < length (w_tasks w) \<and> t_name (w_tasks w ! w_tasks_num w) = None \<and>
     (let t = w_tasks w ! i in t_status t = OPH_ODB_STATUS_COMPLETED \<and> t_outputs t \<noteq> [] \<and> t_light_tasks t = [] \<and> t_parallel_mode t = 0 \<and>
        \<not> t_is_marked_for_auto_retry t \<and> list_all (\<lambda>k. valid_index w k \<and> t_operator (w_tasks w ! nat k) \<noteq> None) (t_dependents_indexes t))"

text \<open>
  C34: a success that is notified twice is counted twice. Only a second error is neglected: for a completed task with outputs, without light tasks, not
  of a parallel loop and not marked for a retry, in a workflow without a final task, the second notification of the success is answered with
  \<open>OPH_SERVER_SYSTEM_ERROR\<close>, but only after the number of residual tasks was decremented again, so that the workflow counts one task less than it
  has; no other task is changed.\<close>

theorem completed_notification_counted_again:
  assumes "ended_with_outputs i w" and "w_residual_tasks_num w \<noteq> 0" and "n_taskindex n = int i" and "n_lighttaskindex n < 0"
    and "n_status n = OPH_ODB_STATUS_COMPLETED"
  shows "\<exists>w'. process_notification conf answer n OPH_ODB_STATUS_COMPLETED w = Notify_Stop OPH_SERVER_SYSTEM_ERROR w' \<and>
    w_residual_tasks_num w' = w_residual_tasks_num w - 1 \<and> (\<forall>j. j \<noteq> i \<longrightarrow> w_tasks w' ! j = w_tasks w ! j)"
proof -
  let ?t = "w_tasks w ! i"
  let ?t1 = "?t\<lparr>t_status := OPH_ODB_STATUS_COMPLETED, t_residual_auto_retry_num := 0\<rparr>"
  let ?w1 = "w\<lparr>w_tasks := (w_tasks w)[i := ?t1]\<rparr>"
  have e: "i < w_tasks_num w" "w_tasks_num w < length (w_tasks w)" "i < length (w_tasks w)" "t_name (w_tasks w ! w_tasks_num w) = None"
      "t_status ?t = OPH_ODB_STATUS_COMPLETED" "t_outputs ?t \<noteq> []" "t_light_tasks ?t = []" "t_parallel_mode ?t = 0" "\<not> t_is_marked_for_auto_retry ?t"
      "list_all (\<lambda>k. valid_index w k \<and> t_operator (w_tasks w ! nat k) \<noteq> None) (t_dependents_indexes ?t)"
    using assms(1) by (auto simp: ended_with_outputs_def Let_def)
  have ts: "task_status conf i OPH_ODB_STATUS_COMPLETED w (start_vars OPH_ODB_STATUS_COMPLETED) = Notify_Go ?w1 (start_vars OPH_ODB_STATUS_COMPLETED)"
    using e(5,9) by (simp add: task_status_def Let_def status_defs)
  have "\<forall>k \<in> set (t_dependents_indexes ?t). valid_index ?w1 k \<and> t_operator (w_tasks ?w1 ! nat k) \<noteq> None"
    using e(3,10) by (auto simp: list_all_iff valid_index_def nth_list_update)
  from keep_response_defined [OF this, of i answer] obtain resp where
    kr: "keep_response i answer (t_dependents_indexes ?t) ?w1 = Some (upd_task (\<lambda>t. t\<lparr>t_response := resp\<rparr>) i ?w1)" using e(3) by auto
  define w2 where "w2 = upd_task (\<lambda>t. t\<lparr>t_response := resp\<rparr>) i ?w1"
  have t2: "w_tasks w2 ! i = ?t1\<lparr>t_response := resp\<rparr>" using e(3) by (simp add: w2_def upd_task_def)
  define u where "u = (if t_is_skipped (w_tasks w2 ! i) \<and> t_status (w_tasks w2 ! i) \<le> OPH_ODB_STATUS_COMPLETED
    then upd_task (\<lambda>t. t\<lparr>t_status := OPH_ODB_STATUS_UNSELECTED\<rparr>) i w2 else w2)"
  let ?u = "save_known (n_outputs n) (u\<lparr>w_residual_tasks_num := w_residual_tasks_num u - 1\<rparr>)"
  have u: "t_outputs (w_tasks ?u ! i) = t_outputs ?t" "t_light_tasks (w_tasks ?u ! i) = []" "t_parallel_mode (w_tasks ?u ! i) = 0"
      "\<And>j. j \<noteq> i \<Longrightarrow> w_tasks ?u ! j = w_tasks w ! j"
    using e(3,7,8) t2 by (auto simp: u_def upd_task_def w2_def)
  have r: "w_residual_tasks_num ?u = w_residual_tasks_num w - 1"
    using save_known_frame [of "n_outputs n" "u\<lparr>w_residual_tasks_num := w_residual_tasks_num u - 1\<rparr>"] by (auto simp: u_def upd_task_def w2_def)
  have ct: "complete_task i (n_outputs n) w2 v = Notify_Stop OPH_SERVER_SYSTEM_ERROR ?u" for v
    unfolding complete_task_def Let_def u_def [symmetric] using u(1-3) e(6) by (simp add: set_outputs_def Let_def split: prod.splits)
  have "end_task conf answer i (n_outputs n) ?w1 (start_vars OPH_ODB_STATUS_COMPLETED) = Notify_Stop OPH_SERVER_SYSTEM_ERROR ?u"
    using assms(2) kr e(3) unfolding end_task_def Let_def w2_def [symmetric] by (simp add: t2 ct start_vars_def)
  then have "process_notification conf answer n OPH_ODB_STATUS_COMPLETED w = Notify_Stop OPH_SERVER_SYSTEM_ERROR ?u"
    using assms(3-5) ts e(1,2,4) unfolding process_notification_def Let_def by (simp add: start_vars_def)
  then show ?thesis using r u(4) by blast
qed

theorem completed_notification_counted_again_witness:
  "\<exists>w'. process_notification demo_conf [] (no_notification\<lparr>n_taskindex := 0, n_status := OPH_ODB_STATUS_COMPLETED\<rparr>) OPH_ODB_STATUS_COMPLETED
       demo_advanced = Notify_Stop OPH_SERVER_SYSTEM_ERROR w' \<and> w_residual_tasks_num w' = 0 \<and> running w' 1"
proof -
  let ?n = "no_notification\<lparr>n_taskindex := 0, n_status := OPH_ODB_STATUS_COMPLETED\<rparr>"
  have "ended_with_outputs 0 demo_advanced"
    by (simp add: ended_with_outputs_def notify_eval demo_advanced_def demo_started_def demo_submitted_def)
  moreover have r: "w_residual_tasks_num demo_advanced = 1" and run: "running demo_advanced 1"
    by (simp_all add: running_def notify_eval demo_advanced_def demo_started_def demo_submitted_def)
  ultimately obtain w' where "process_notification demo_conf [] ?n OPH_ODB_STATUS_COMPLETED demo_advanced = Notify_Stop OPH_SERVER_SYSTEM_ERROR w'"
      "w_residual_tasks_num w' = 0" "\<forall>j. j \<noteq> 0 \<longrightarrow> w_tasks w' ! j = w_tasks demo_advanced ! j"
    using completed_notification_counted_again [of 0 demo_advanced ?n demo_conf "[]"] by (auto simp: no_notification_def)
  then show ?thesis using run by (auto simp: running_def)
qed

end
