(* ===== verification/Massive_Tasks.thy ===== *)
theory Massive_Tasks
  imports Workflow_Notify
begin

text \<open>
  Massive operations (\<open>oph_check_for_massive_operation\<close> of \<^verbatim>\<open>src/src/oph_workflow_engine.c\<close>): a task whose input selects several objects
  becomes one light task for each of them; a task that is retried gives back the light tasks that failed. The selection itself
  (\<open>oph_mf_parse_query_unsafe\<close>) asks the database and the file system and is a parameter \<open>mf\<close>, from the text of the input to an error code
  or the objects. The memory of a new light task, of which the code sets some fields only, is a parameter \<open>raw\<close>.
\<close>

section \<open>What the selection gives\<close>

record mf_result =
  mf_inputs :: "string option list option"
  mf_measures :: "string option list option"
  mf_running :: bool

type_synonym mf_query = "oph_workflow \<Rightarrow> nat \<Rightarrow> string \<Rightarrow> string option \<Rightarrow> string option \<Rightarrow> bool \<Rightarrow> server_code + mf_result"

section \<open>Retries\<close>

text \<open>The light tasks that failed are released: their identifiers go to the trash.\<close>

fun release_light :: "bool \<Rightarrow> bool \<Rightarrow> string option \<Rightarrow> oph_workflow_light_task list \<Rightarrow> oph_trash \<Rightarrow> (oph_workflow_light_task list \<times> oph_trash) option" where
  "release_light auto manual sessionid [] trash = Some ([], trash)"
| "release_light auto manual sessionid (l # ls) trash =
     (if auto \<and> l_status l = OPH_ODB_STATUS_START_ERROR \<or> manual \<and> l_status l > OPH_ODB_STATUS_COMPLETED
      then (case oph_trash_append trash sessionid (l_markerid l) of
              None \<Rightarrow> None
            | Some (_, trash) \<Rightarrow>
                map_option (apfst ((#) (l\<lparr>l_markerid := 0, l_status := OPH_ODB_STATUS_UNKNOWN, l_idjob := 0\<rparr>)))
                  (release_light auto manual sessionid ls trash))
      else map_option (apfst ((#) l)) (release_light auto manual sessionid ls trash))"

section \<open>Input of a task\<close>

text \<open>The positions of the arguments that matter; the code keeps pointers to their keys.\<close>

record massive_args =
  ma_path :: "nat option"
  ma_cube :: "nat option"
  ma_ncubes :: nat
  ma_measure :: "nat option"
  ma_cwd :: "string option"
  ma_cdd :: "string option"

fun massive_args_loop :: "nat \<Rightarrow> oph_workflow_arg list \<Rightarrow> massive_args \<Rightarrow> massive_args" where
  "massive_args_loop i [] ma = ma"
| "massive_args_loop i (a # args) ma =
     massive_args_loop (Suc i) args
       (if a_key a = ''input'' then ma\<lparr>ma_path := Some i\<rparr>
        else if a_key a = ''src_path'' then (if ma_path ma = None then ma\<lparr>ma_path := Some i\<rparr> else ma)
        else if a_key a = ''cube'' then (if ma_ncubes ma = 0 then ma\<lparr>ma_cube := Some i, ma_ncubes := 1\<rparr> else ma)
        else if a_key a = ''cubes'' then ma\<lparr>ma_cube := Some i, ma_ncubes := 2\<rparr>
        else if a_key a = ''measure'' then ma\<lparr>ma_measure := Some i\<rparr>
        else if a_key a = ''cwd'' then ma\<lparr>ma_cwd := a_value a\<rparr>
        else if a_key a = ''cdd'' then ma\<lparr>ma_cdd := a_value a\<rparr>
        else ma)"

definition no_massive_args :: massive_args where
  [code_defs]: "no_massive_args =
     \<lparr>ma_path = None, ma_cube = None, ma_ncubes = 0, ma_measure = None, ma_cwd = None, ma_cdd = None\<rparr>"

definition arg_at :: "oph_workflow_arg list \<Rightarrow> nat option \<Rightarrow> string option" where
  [code_defs]: "arg_at args i = (case i of None \<Rightarrow> None | Some i \<Rightarrow> a_value (args ! i))"

section \<open>Light tasks\<close>

text \<open>The arguments of the light task number \<open>n\<close>; \<open>None\<close> is \<open>strdup\<close> of a null pointer or a read beyond an array.\<close>

definition light_value :: "nat option \<Rightarrow> nat option \<Rightarrow> string option list \<Rightarrow> string option list option \<Rightarrow> nat \<Rightarrow> nat \<Rightarrow>
    oph_workflow_arg \<Rightarrow> (string \<times> string option) option" where
  [code_defs]: "light_value target mkey inputs mnames n j a =
     (if target = Some j then map_option (\<lambda>x. (a_key a, Some x)) (inputs ! n)
      else if mkey = Some j then
        (case mnames of
           Some ms \<Rightarrow> (case ms ! n of Some m \<Rightarrow> Some (a_key a, Some m) | None \<Rightarrow> map_option (\<lambda>x. (a_key a, Some x)) (a_value a))
         | None \<Rightarrow> map_option (\<lambda>x. (a_key a, Some x)) (a_value a))
      else Some (a_key a, a_value a))"

definition light_measure :: "bool \<Rightarrow> nat option \<Rightarrow> string option list option \<Rightarrow> nat \<Rightarrow> (string \<times> string option) list" where
  [code_defs]: "light_measure path mkey mnames n =
     (case (path, mkey, mnames) of
        (True, None, Some ms) \<Rightarrow> (case ms ! n of Some m \<Rightarrow> [(''measure'', Some m)] | None \<Rightarrow> [])
      | _ \<Rightarrow> [])"

definition light_task ::
    "oph_workflow_light_task \<Rightarrow> oph_workflow_task \<Rightarrow> bool \<Rightarrow> nat option \<Rightarrow> nat option \<Rightarrow> string option list \<Rightarrow> string option list option \<Rightarrow> nat \<Rightarrow>
     oph_workflow_light_task option" where
  [code_defs]: "light_task raw t path target mkey inputs mnames n =
     (case those (map (\<lambda>j. light_value target mkey inputs mnames n j (t_arguments t ! j)) [0..<length (t_arguments t)]) of
        None \<Rightarrow> None
      | Some args \<Rightarrow> Some (raw\<lparr>l_idjob := 0, l_markerid := 0, l_status := OPH_ODB_STATUS_UNKNOWN, l_ncores := t_ncores t,
          l_arguments := args @ light_measure path mkey mnames n, l_response := None\<rparr>))"

text \<open>The objects as one argument. The buffer has 512 bytes for each; \<open>None\<close> is a write beyond it.\<close>

definition joined_inputs :: "string option list \<Rightarrow> string option" where
  [code_defs]: "joined_inputs inputs =
     (let s = joinc CHR ''|'' (map the (filter (\<lambda>x. x \<noteq> None) inputs)) in
      if length s < length inputs * 512 then Some s else None)"

text \<open>The rest of the function, for the objects that were selected.\<close>

definition massive_children ::
    "oph_workflow_light_task \<Rightarrow> massive_args \<Rightarrow> bool \<Rightarrow> mf_result \<Rightarrow> nat \<Rightarrow> oph_workflow \<Rightarrow>
     (server_code \<times> string option list option \<times> oph_workflow) option" where
  [code_defs]: "massive_children raw ma path r i w =
     (let t = w_tasks w ! i;
          inputs = (if \<not> path \<and> ma_ncubes ma > 1 then None else mf_inputs r) in
      case inputs of
        None \<Rightarrow> Some (OPH_SERVER_OK, None, w)
      | Some xs \<Rightarrow>
          if (case mf_measures r of None \<Rightarrow> False | Some ms \<Rightarrow> length ms \<noteq> length xs) then None else
          if path \<and> xs \<noteq> [] \<and> t_operator t = None then None
          else if path \<and> xs \<noteq> [] \<and>
            (strcasecmp_eq (the (t_operator t)) ''oph_importncs'' \<or> strcasecmp_eq (the (t_operator t)) OPH_OPERATOR_FOR)
          then (case (ma_path ma, joined_inputs xs) of
                  (Some j, Some s) \<Rightarrow>
                    Some (OPH_SERVER_OK, None, upd_task (\<lambda>t. t\<lparr>t_arguments := (t_arguments t)[j := (t_arguments t ! j)\<lparr>a_value := Some s\<rparr>]\<rparr>) i w)
                | _ \<Rightarrow> None)
          else if mf_running r
          then (case those (map (light_task raw t path (if path then ma_path ma else ma_cube ma) (ma_measure ma) xs (mf_measures r)) [0..<length xs]) of
                  None \<Rightarrow> None
                | Some ls \<Rightarrow> Some (OPH_SERVER_OK, None,
                    upd_task (\<lambda>t. t\<lparr>t_light_tasks := ls, t_residual_light_tasks_num := int (length xs)\<rparr>) i w))
          else Some (OPH_SERVER_NO_RESPONSE, Some xs, w))"

definition oph_check_for_massive_operation ::
    "nat \<Rightarrow> int \<Rightarrow> mf_query \<Rightarrow> oph_workflow_light_task \<Rightarrow> oph_trash \<Rightarrow> int \<Rightarrow> oph_workflow \<Rightarrow>
     (server_code \<times> string option list option \<times> oph_trash \<times> oph_workflow) option" where
  [code_defs]: "oph_check_for_massive_operation fuel oph_auto_retry mf raw trash task_index w =
     (if task_index < 0 \<or> task_index > int (w_tasks_num w) then Some (OPH_SERVER_SYSTEM_ERROR, None, trash, w)
      else if \<not> valid_index w task_index then None
      else
      (let i = nat task_index; t = w_tasks w ! i;
           auto = oph_auto_retry \<noteq> 0 \<and> t_residual_auto_retry_num t \<noteq> 0 \<and> t_retry_num t = 1;
           manual = t_residual_retry_num t \<noteq> 0 \<and> t_retry_num t > 1 in
       if auto \<or> manual then
         (case release_light auto manual (w_sessionid w) (t_light_tasks t) trash of
            None \<Rightarrow> None
          | Some (ls, trash) \<Rightarrow> Some (OPH_SERVER_OK, None, trash,
              upd_task (\<lambda>t. t\<lparr>t_light_tasks := ls, t_residual_light_tasks_num := int (length ls)\<rparr>) i w))
       else if t_light_tasks t \<noteq> [] then Some (OPH_SERVER_NO_RESPONSE, None, trash, w)
       else
       (let ma = massive_args_loop 0 (t_arguments t) no_massive_args;
            path = arg_at (t_arguments t) (ma_path ma);
            input = (if path \<noteq> None then path else arg_at (t_arguments t) (ma_cube ma)) in
        case input of
          None \<Rightarrow> Some (OPH_SERVER_OK, None, trash, w)
        | Some target_base \<Rightarrow>
            (case subst_arg fuel w i (if path \<noteq> None then ''src_path'' else if ma_ncubes ma > 1 then ''cubes'' else ''cube'') target_base of
               None \<Rightarrow> None
             | Some (rc, query) \<Rightarrow>
                 if rc \<noteq> OPH_WORKFLOW_EXIT_SUCCESS then Some (OPH_SERVER_SYSTEM_ERROR, None, trash, w)
                 else (case mf w i query (ma_cwd ma) (ma_cdd ma) (path \<noteq> None) of
                         Inl code \<Rightarrow> Some (code, None, trash, w)
                       | Inr r \<Rightarrow> map_option (\<lambda>(rc, xs, w). (rc, xs, trash, w)) (massive_children raw ma (path \<noteq> None) r i w))))))"

section \<open>Lemmas\<close>

lemma no_retry_light: "light_measure path mkey None n = []"
  by (cases path; cases mkey) (simp_all add: light_measure_def)

lemma light_task_args:
  assumes vals: "\<forall>a\<in>set (t_arguments t). a_value a \<noteq> None" and n: "n < length xs"
  shows "light_task raw t path (Some j) mkey (map Some xs) None n =
    Some (raw\<lparr>l_idjob := 0, l_markerid := 0, l_status := OPH_ODB_STATUS_UNKNOWN, l_ncores := t_ncores t,
      l_arguments := (map (\<lambda>a. (a_key a, a_value a)) (t_arguments t))[j := (a_key (t_arguments t ! j), Some (xs ! n))], l_response := None\<rparr>)"
proof -
  let ?args = "t_arguments t"
  let ?v = "\<lambda>k. (a_key (?args ! k), if k = j then Some (xs ! n) else a_value (?args ! k))"
  have "light_value (Some j) mkey (map Some xs) None n k (?args ! k) = Some (?v k)" if k: "k < length ?args" for k
  proof -
    obtain x where "a_value (?args ! k) = Some x" using vals nth_mem [OF k] by blast
    then show ?thesis using n by (simp add: light_value_def)
  qed
  then have "those (map (\<lambda>k. light_value (Some j) mkey (map Some xs) None n k (?args ! k)) [0..<length ?args]) =
    Some (map ?v [0..<length ?args])"
    by (intro those_map_Some) simp
  moreover have "map ?v [0..<length ?args] = (map (\<lambda>a. (a_key a, a_value a)) ?args)[j := (a_key (?args ! j), Some (xs ! n))]"
    by (rule nth_equalityI) (simp_all add: nth_list_update)
  ultimately show ?thesis by (simp add: light_task_def no_retry_light)
qed

text \<open>What the function does with the objects, at the first execution of a task.\<close>

lemma massive_first_run:
  assumes "i \<le> w_tasks_num w" and "i < length (w_tasks w)" and "t_retry_num (w_tasks w ! i) \<le> 1"
    and "t_residual_auto_retry_num (w_tasks w ! i) = 0" and "t_light_tasks (w_tasks w ! i) = []"
    and ma: "massive_args_loop 0 (t_arguments (w_tasks w ! i)) no_massive_args = ma"
    and path: "arg_at (t_arguments (w_tasks w ! i)) (ma_path ma) \<noteq> None \<longleftrightarrow> path"
    and input: "arg_at (t_arguments (w_tasks w ! i)) (if path then ma_path ma else ma_cube ma) = Some v"
    and subst: "subst_arg fuel w i (if path then ''src_path'' else if ma_ncubes ma > 1 then ''cubes'' else ''cube'') v =
      Some (OPH_WORKFLOW_EXIT_SUCCESS, query)"
    and mf: "mf w i query (ma_cwd ma) (ma_cdd ma) path = Inr r"
  shows "oph_check_for_massive_operation fuel auto mf raw trash (int i) w =
    map_option (\<lambda>(rc, xs, w). (rc, xs, trash, w)) (massive_children raw ma path r i w)"
proof (cases path)
  case True
  then obtain p where p: "arg_at (t_arguments (w_tasks w ! i)) (ma_path ma) = Some p" using path by auto
  with True input have "p = v" by simp
  with assms(1-5) ma p subst mf True show ?thesis
    by (simp add: oph_check_for_massive_operation_def valid_index_def Let_def)
next
  case False
  then have p: "arg_at (t_arguments (w_tasks w ! i)) (ma_path ma) = None" using path by auto
  with assms(1-5) ma input subst mf False show ?thesis
    by (simp add: oph_check_for_massive_operation_def valid_index_def Let_def)
qed

section \<open>Properties\<close>

text \<open>
  C18: at its first execution, a task with at most one attempt whose input (the source path, or a single cube) is resolved by the filter into the objects
  \<open>xs\<close>, with no measures and with the massive operation to be run, becomes a massive operation with one child for each object, in order: the
  child has the arguments of the task with its object in place of the input and the cores of the task, and it is still to be started. Nothing else of the
  workflow changes. The operator is neither \<open>oph_importncs\<close> nor \<open>oph_for\<close>, the arguments have values, and the substitution of the variables
  of the input succeeds.\<close>

theorem massive_task_children:
  assumes "i \<le> w_tasks_num w" and "i < length (w_tasks w)" and "t = w_tasks w ! i" and "t_retry_num t \<le> 1" and "t_residual_auto_retry_num t = 0" and "t_light_tasks t = []"
    and "ma = massive_args_loop 0 (t_arguments t) no_massive_args" and "path = (arg_at (t_arguments t) (ma_path ma) \<noteq> None)"
    and "(if path then ma_path ma else ma_cube ma) = Some j" and "j < length (t_arguments t)" and "a_value (t_arguments t ! j) = Some v"
    and "subst_arg fuel w i (if path then ''src_path'' else if ma_ncubes ma > 1 then ''cubes'' else ''cube'') v = Some (OPH_WORKFLOW_EXIT_SUCCESS, query)"
    and "mf w i query (ma_cwd ma) (ma_cdd ma) path = Inr \<lparr>mf_inputs = Some (map Some xs), mf_measures = None, mf_running = True\<rparr>"
    and "path \<or> ma_ncubes ma \<le> 1" and "t_operator t = Some operator"
    and "\<not> strcasecmp_eq operator ''oph_importncs''" and "\<not> strcasecmp_eq operator OPH_OPERATOR_FOR"
    and "\<forall>a\<in>set (t_arguments t). a_value a \<noteq> None"
  shows "\<exists>ls. oph_check_for_massive_operation fuel auto mf raw trash (int i) w = Some (OPH_SERVER_OK, None, trash,
      upd_task (\<lambda>t. t\<lparr>t_light_tasks := ls, t_residual_light_tasks_num := int (length xs)\<rparr>) i w) \<and> length ls = length xs \<and>
    (\<forall>n < length xs. l_status (ls ! n) = OPH_ODB_STATUS_UNKNOWN \<and> l_ncores (ls ! n) = t_ncores t \<and>
      l_arguments (ls ! n) = (map (\<lambda>a. (a_key a, a_value a)) (t_arguments t))[j := (a_key (t_arguments t ! j), Some (xs ! n))])"
proof -
  let ?l = "\<lambda>n. raw\<lparr>l_idjob := 0, l_markerid := 0, l_status := OPH_ODB_STATUS_UNKNOWN, l_ncores := t_ncores t,
       l_arguments := (map (\<lambda>a. (a_key a, a_value a)) (t_arguments t))[j := (a_key (t_arguments t ! j), Some (xs ! n))], l_response := None\<rparr>"
  have input: "arg_at (t_arguments t) (if path then ma_path ma else ma_cube ma) = Some v"
    using assms(9,11) by (auto simp: arg_at_def split: if_splits)
  have "those (map (light_task raw t path (Some j) (ma_measure ma) (map Some xs) None) [0..<length xs]) = Some (map ?l [0..<length xs])"
    by (rule those_map_Some) (simp add: light_task_args [OF assms(18)])
  then have "massive_children raw ma path \<lparr>mf_inputs = Some (map Some xs), mf_measures = None, mf_running = True\<rparr> i w =
      Some (OPH_SERVER_OK, None, upd_task (\<lambda>t. t\<lparr>t_light_tasks := map ?l [0..<length xs], t_residual_light_tasks_num := int (length xs)\<rparr>) i w)"
    using assms(3,9,14-17) by (auto simp: massive_children_def Let_def)
  moreover have "oph_check_for_massive_operation fuel auto mf raw trash (int i) w = map_option (\<lambda>(rc, xs, w). (rc, xs, trash, w))
      (massive_children raw ma path \<lparr>mf_inputs = Some (map Some xs), mf_measures = None, mf_running = True\<rparr> i w)"
    by (rule massive_first_run) (use assms input in simp_all)
  ultimately have "oph_check_for_massive_operation fuel auto mf raw trash (int i) w = Some (OPH_SERVER_OK, None, trash,
      upd_task (\<lambda>t. t\<lparr>t_light_tasks := map ?l [0..<length xs], t_residual_light_tasks_num := int (length xs)\<rparr>) i w)"
    by simp
  then show ?thesis by (intro exI [of _ "map ?l [0..<length xs]"]) simp
qed

definition massive_demo :: "int \<Rightarrow> oph_workflow" where
  [code_defs]: "massive_demo attempts = empty_workflow\<lparr>w_tasks_num := 1, w_tasks :=
     [zero_task\<lparr>t_operator := Some ''oph_reduce'', t_ncores := 4, t_retry_num := attempts, t_residual_retry_num := attempts,
        t_arguments := [\<lparr>a_key = ''operation'', a_value = Some ''max'', a_list = []\<rparr>,
                        \<lparr>a_key = ''cube'', a_value = Some ''[measure=T]'', a_list = []\<rparr>]\<rparr>, zero_task]\<rparr>"

definition mf_demo :: mf_query where
  "mf_demo w i query cwd cdd path =
     (if query = ''[measure=T]'' then Inr \<lparr>mf_inputs = Some [Some ''1/1'', Some ''1/2''], mf_measures = None, mf_running = True\<rparr>
      else Inl OPH_SERVER_SYSTEM_ERROR)"

lemma massive_demo_facts:
  "w_tasks_num (massive_demo 1) = 1" "length (w_tasks (massive_demo 1)) = 2" "t_retry_num (w_tasks (massive_demo 1) ! 0) = 1"
  "t_residual_auto_retry_num (w_tasks (massive_demo 1) ! 0) = 0" "t_light_tasks (w_tasks (massive_demo 1) ! 0) = []"
  "map (\<lambda>a. (a_key a, a_value a)) (t_arguments (w_tasks (massive_demo 1) ! 0)) = [(''operation'', Some ''max''), (''cube'', Some ''[measure=T]'')]"
  "a_key (t_arguments (w_tasks (massive_demo 1) ! 0) ! Suc 0) = ''cube''" "a_value (t_arguments (w_tasks (massive_demo 1) ! 0) ! Suc 0) = Some ''[measure=T]''"
  "massive_args_loop 0 (t_arguments (w_tasks (massive_demo 1) ! 0)) no_massive_args = no_massive_args\<lparr>ma_cube := Some (Suc 0), ma_ncubes := Suc 0\<rparr>"
  "t_operator (w_tasks (massive_demo 1) ! 0) = Some ''oph_reduce''" "length (t_arguments (w_tasks (massive_demo 1) ! 0)) = 2"
  "\<forall>a\<in>set (t_arguments (w_tasks (massive_demo 1) ! 0)). a_value a \<noteq> None"
  by (simp_all add: code_defs)

theorem massive_task_children_witness:
  "\<exists>ls. oph_check_for_massive_operation 10 0 mf_demo undefined [] (int 0) (massive_demo 1) = Some (OPH_SERVER_OK, None, [],
      upd_task (\<lambda>t. t\<lparr>t_light_tasks := ls, t_residual_light_tasks_num := 2\<rparr>) 0 (massive_demo 1)) \<and>
    map l_arguments ls = [[(''operation'', Some ''max''), (''cube'', Some ''1/1'')], [(''operation'', Some ''max''), (''cube'', Some ''1/2'')]]"
proof -
  have "subst_arg 10 (massive_demo 1) 0 ''cube'' ''[measure=T]'' = Some (OPH_WORKFLOW_EXIT_SUCCESS, ''[measure=T]'')"
    and no_input: "ma_path no_massive_args = None" "arg_at (t_arguments (w_tasks (massive_demo 1) ! 0)) None = None"
    and "\<not> strcasecmp_eq ''oph_reduce'' ''oph_importncs''" "\<not> strcasecmp_eq ''oph_reduce'' OPH_OPERATOR_FOR" by code_simp+
  then obtain ls where "oph_check_for_massive_operation 10 0 mf_demo undefined [] (int 0) (massive_demo 1) = Some (OPH_SERVER_OK, None, [],
      upd_task (\<lambda>t. t\<lparr>t_light_tasks := ls, t_residual_light_tasks_num := int (length [''1/1'', ''1/2''])\<rparr>) 0 (massive_demo 1))"
    and "length ls = length [''1/1'', ''1/2'']"
    and "\<forall>n < length [''1/1'', ''1/2'']. l_arguments (ls ! n) =
      (map (\<lambda>a. (a_key a, a_value a)) (t_arguments (w_tasks (massive_demo 1) ! 0)))[Suc 0 :=
        (a_key (t_arguments (w_tasks (massive_demo 1) ! 0) ! Suc 0), Some ([''1/1'', ''1/2''] ! n))]"
    using massive_task_children [of 0 "massive_demo 1" "w_tasks (massive_demo 1) ! 0" "no_massive_args\<lparr>ma_cube := Some (Suc 0), ma_ncubes := Suc 0\<rparr>" False "Suc 0"
        "''[measure=T]''" 10 "''[measure=T]''" mf_demo "[''1/1'', ''1/2'']" "''oph_reduce''" 0 undefined "[]"]
    by (auto simp: massive_demo_facts no_input mf_demo_def)
  then show ?thesis by (intro exI [of _ ls]) (auto simp: massive_demo_facts length_Suc_conv less_Suc_eq)
qed

text \<open>
  C36: a task that may be retried is never a massive operation: with more than one attempt the number of residual attempts is not zero from the
  beginning, and the function takes the first execution for a retry. Whatever its input selects, the task keeps no child and succeeds.\<close>

theorem retried_task_never_massive:
  assumes "i < w_tasks_num w" and "w_tasks_num w < length (w_tasks w)" and "1 < t_retry_num (w_tasks w ! i)"
    and "t_residual_retry_num (w_tasks w ! i) = t_retry_num (w_tasks w ! i)" and "t_light_tasks (w_tasks w ! i) = []"
  shows "oph_check_for_massive_operation fuel auto mf raw trash (int i) w =
    Some (OPH_SERVER_OK, None, trash, upd_task (\<lambda>t. t\<lparr>t_light_tasks := [], t_residual_light_tasks_num := 0\<rparr>) i w)"
  using assms by (simp add: oph_check_for_massive_operation_def valid_index_def Let_def)

theorem retried_task_never_massive_witness:
  "oph_check_for_massive_operation 10 0 mf_demo undefined [] 0 (massive_demo 2) =
    Some (OPH_SERVER_OK, None, [], upd_task (\<lambda>t. t\<lparr>t_light_tasks := [], t_residual_light_tasks_num := 0\<rparr>) 0 (massive_demo 2))"
  using retried_task_never_massive [of 0 "massive_demo 2" 10 0 mf_demo undefined "[]"] by (simp add: massive_demo_def zero_task_def)

end
