(* ===== verification/Parallel_Loops.thy ===== *)
theory Parallel_Loops
  imports Massive_Tasks
begin

text \<open>
  The expansion of parallel loops (\<open>oph_workflow_parallel_fco\<close> of \<^verbatim>\<open>src/src/oph_workflow_engine.c\<close>): before a workflow is executed the tasks
  between an \<open>oph_for\<close> with \<open>parallel=yes\<close> and its \<open>oph_endfor\<close> are replaced by as many copies as the loop has values, each with its own
  value of the loop variable; inner loops are expanded before outer ones.
\<close>

section \<open>Arguments of a parallel loop\<close>

text \<open>The text between separators; \<open>None\<close> when \<open>strtok_r\<close> gives fewer pieces than were counted.\<close>

definition split_values :: "string \<Rightarrow> string list option" where
  [code_defs]: "split_values v =
     (let toks = strtok CHR ''|'' v in
      if length toks < count_subparams v then None
      else Some (map (take OPH_WORKFLOW_MAX_STRING) (take (count_subparams v) toks)))"

fun par_values :: "oph_workflow_arg list \<Rightarrow> string option \<Rightarrow> string list option \<Rightarrow> (string option \<times> string list option) option" where
  "par_values [] name svalues = Some (name, svalues)"
| "par_values (a # args) name svalues =
     (if strcasecmp_eq (a_key a) ''key'' \<and> name = None then par_values args (a_value a) svalues
      else if strcasecmp_eq (a_key a) ''values'' \<and> svalues = None then
        (case a_value a of
           None \<Rightarrow> None
         | Some v \<Rightarrow>
             if v \<noteq> [] \<and> \<not> strcasecmp_eq v ''-''
             then (case split_values v of None \<Rightarrow> None | Some vs \<Rightarrow> par_values args name (Some vs))
             else par_values args name svalues)
      else par_values args name svalues)"

fun par_counter :: "int \<Rightarrow> oph_workflow_arg list \<Rightarrow> int list option \<Rightarrow> (bool \<times> int list option) option" where
  "par_counter svalues_num [] ivalues = Some (True, ivalues)"
| "par_counter svalues_num (a # args) ivalues =
     (if strcasecmp_eq (a_key a) ''counter'' \<and> ivalues = None then
        (case a_value a of
           None \<Rightarrow> None
         | Some v \<Rightarrow>
             if v \<noteq> [] \<and> \<not> strcasecmp_eq v ''-''
             then (case oph_subset_parse v (length v) svalues_num of
                     None \<Rightarrow> None
                   | Some (Inl _) \<Rightarrow> Some (False, ivalues)
                   | Some (Inr s) \<Rightarrow>
                       if length (subset_ivalues s) \<noteq> nat (c_int (uint (ss_total s))) then None
                       else par_counter svalues_num args (Some (subset_ivalues s)))
             else par_counter svalues_num args ivalues)
      else par_counter svalues_num args ivalues)"

text \<open>The flag \<open>parallel\<close>: \<open>False\<close> is a value other than yes and no.\<close>

fun par_mode :: "oph_workflow_arg list \<Rightarrow> int \<Rightarrow> (bool \<times> int) option" where
  "par_mode [] mode = Some (True, mode)"
| "par_mode (a # args) mode =
     (if strcasecmp_eq (a_key a) ''parallel'' \<and> mode = 0 then
        (case a_value a of
           None \<Rightarrow> None
         | Some v \<Rightarrow> if strcasecmp_eq v ''yes'' then par_mode args 1
                     else if strcasecmp_eq v ''no'' then par_mode args mode
                     else Some (False, mode))
      else par_mode args mode)"

text \<open>Name, values and indexes of a loop, and the number of its branches; \<open>Inl\<close> is a wrong argument.\<close>

definition par_args :: "oph_workflow_arg list \<Rightarrow> (unit + string \<times> string list option \<times> int list option \<times> nat) option" where
  [code_defs]: "par_args args =
     (case par_values args None None of
        None \<Rightarrow> None
      | Some (name, svalues) \<Rightarrow>
          (let n = (case svalues of None \<Rightarrow> 0 | Some vs \<Rightarrow> length vs) in
           case par_counter (int n) args None of
             None \<Rightarrow> None
           | Some (ok, ivalues) \<Rightarrow>
               (let m = (case ivalues of None \<Rightarrow> 0 | Some is \<Rightarrow> length is) in
                if \<not> ok then Some (Inl ())
                else (case name of
                        None \<Rightarrow> Some (Inl ())
                      | Some key \<Rightarrow>
                          if bad_name True key then Some (Inl ())
                          else if n \<noteq> 0 \<and> m \<noteq> 0 \<and> m \<noteq> n then Some (Inl ())
                          else Some (Inr (key, svalues, ivalues, if n \<noteq> 0 then n else if m \<noteq> 0 then m else 1))))))"

section \<open>Lists of files\<close>

text \<open>
  What the expansion reads beside the workflow: the selection of the massive operations, the trash, the identifiers that are taken
  for the time of the selection.
\<close>

record par_env =
  pe_fuel :: nat
  pe_auto_retry :: int
  pe_mf :: mf_query
  pe_raw :: oph_workflow_light_task
  pe_trash :: oph_trash
  pe_jobid :: "nat \<Rightarrow> int"
  pe_new_jobid :: int

text \<open>The first argument with the key and a value; \<open>None\<close> is \<open>strlen\<close> of a null pointer.\<close>

fun file_arg :: "string \<Rightarrow> nat \<Rightarrow> oph_workflow_arg list \<Rightarrow> nat option option" where
  "file_arg key j [] = Some None"
| "file_arg key j (a # args) =
     (if strcasecmp_eq (a_key a) key then
        (case a_value a of
           None \<Rightarrow> None
         | Some v \<Rightarrow> if v \<noteq> [] \<and> \<not> strcasecmp_eq v ''-'' then Some (Some j) else file_arg key (Suc j) args)
      else file_arg key (Suc j) args)"

definition file_list :: "oph_workflow_arg list \<Rightarrow> nat option option" where
  [code_defs]: "file_list args =
     (case file_arg ''input'' 0 args of
        Some None \<Rightarrow> file_arg ''src_path'' 0 args
      | r \<Rightarrow> r)"

text \<open>The files become the values of the loop.\<close>

definition override_values :: "nat \<Rightarrow> oph_workflow_arg list \<Rightarrow> oph_workflow_arg list" where
  [code_defs]: "override_values jj args =
     (case find (\<lambda>j. strcasecmp_eq (a_key (args ! j)) ''values'') [0..<length args] of
        Some j \<Rightarrow> args[j := (args ! j)\<lparr>a_value := a_value (args ! jj)\<rparr>]
      | None \<Rightarrow> args[jj := (args ! jj)\<lparr>a_key := ''values''\<rparr>])"

text \<open>
  The pre-parsing of a loop. The workflow is in the job list for the time of the selection; no task has light tasks yet, so that
  the trash is left as it is.
\<close>

definition par_files :: "par_env \<Rightarrow> nat \<Rightarrow> oph_workflow \<Rightarrow> oph_workflow option" where
  [code_defs]: "par_files env i w =
     (if t_massive_expansion (w_tasks w ! i) then Some w
      else
      (case file_list (t_arguments (w_tasks w ! i)) of
         None \<Rightarrow> None
       | Some jj \<Rightarrow>
           (let fresh = w_workflowid w < 0;
                w0 = (if fresh then w\<lparr>w_workflowid := - pe_jobid env i, w_idjob := pe_new_jobid env\<rparr> else w) in
            case oph_check_for_massive_operation (pe_fuel env) (pe_auto_retry env) (pe_mf env) (pe_raw env) (pe_trash env) (int i) w0 of
              None \<Rightarrow> None
            | Some (_, _, _, w1) \<Rightarrow>
                (let w2 = (if fresh then w1\<lparr>w_workflowid := - 1\<rparr> else w1) in
                 Some (case jj of
                         None \<Rightarrow> w2
                       | Some jj \<Rightarrow> upd_task (\<lambda>t. t\<lparr>t_arguments := override_values jj (t_arguments t), t_massive_expansion := True\<rparr>) i w2)))))"

section \<open>Copies of the body\<close>

text \<open>The position of a marked task among the marked ones.\<close>

definition new_index :: "oph_workflow_task list \<Rightarrow> nat \<Rightarrow> nat" where
  [code_defs]: "new_index ts k = length (filter t_is_marked (take k ts))"

definition branch_task :: "nat \<Rightarrow> nat \<Rightarrow> oph_workflow_task list \<Rightarrow> nat \<Rightarrow> nat \<Rightarrow> nat" where
  [code_defs]: "branch_task N r ts j d = N + j * r + new_index ts d"

definition copied :: "oph_workflow_task \<Rightarrow> nat \<Rightarrow> oph_workflow_task option" where
  [code_defs]: "copied t j =
     (case oph_workflow_copy_task t (2 + int j) of
        Some (OPH_WORKFLOW_EXIT_SUCCESS, d) \<Rightarrow> Some d
      | _ \<Rightarrow> None)"

definition fill_copies :: "nat \<Rightarrow> oph_workflow_task list \<Rightarrow> oph_workflow_task list option" where
  [code_defs]: "fill_copies b body = those (concat (map (\<lambda>j. map (\<lambda>t. copied t j) body) [0..<b]))"

definition first_copy :: "oph_workflow_task \<Rightarrow> oph_workflow_task option" where
  [code_defs]: "first_copy t =
     (if \<not> t_is_marked t then Some t
      else (case t_name t of None \<Rightarrow> None | Some n \<Rightarrow> map_option (\<lambda>n. t\<lparr>t_name := Some n\<rparr>) (copy_name n 1)))"

text \<open>An index of a task that is read; the array \<open>new_index\<close> is set for the tasks before the expansion.\<close>

definition in_body :: "nat \<Rightarrow> oph_workflow_task list \<Rightarrow> int \<Rightarrow> bool option" where
  [code_defs]: "in_body N ts d =
     (if d < 0 \<or> int (length ts) \<le> d then None
      else if \<not> t_is_marked (ts ! nat d) then Some False
      else if nat d < N then Some True else None)"

definition relink :: "nat \<Rightarrow> nat \<Rightarrow> oph_workflow_task list \<Rightarrow> nat \<Rightarrow> int \<Rightarrow> int option" where
  [code_defs]: "relink N r ts j d =
     map_option (\<lambda>inside. if inside then int (branch_task N r ts j (nat d)) else d) (in_body N ts d)"

definition with_name :: "oph_workflow_task list \<Rightarrow> oph_workflow_dep \<Rightarrow> oph_workflow_dep option" where
  [code_defs]: "with_name ts d =
     (if d_task_index d < 0 \<or> int (length ts) \<le> d_task_index d then None
      else map_option (\<lambda>n. d\<lparr>d_task_name := Some n\<rparr>) (t_name (ts ! nat (d_task_index d))))"

definition relink_dep :: "nat \<Rightarrow> nat \<Rightarrow> oph_workflow_task list \<Rightarrow> nat \<Rightarrow> oph_workflow_dep \<Rightarrow> oph_workflow_dep option" where
  [code_defs]: "relink_dep N r ts j d = relink N r ts j (d_task_index d) \<bind> (\<lambda>x. with_name ts (d\<lparr>d_task_index := x\<rparr>))"

text \<open>A copy points at the copies of its own branch, and outside of the body where its original does.\<close>

definition relink_copy :: "nat \<Rightarrow> nat \<Rightarrow> oph_workflow_task list \<Rightarrow> nat \<Rightarrow> oph_workflow_task \<Rightarrow> oph_workflow_task option" where
  [code_defs]: "relink_copy N r ts j t =
     (case (those (map (relink N r ts j) (t_dependents_indexes t)), those (map (relink_dep N r ts j) (t_deps t))) of
        (Some dependents, Some deps) \<Rightarrow> Some (t\<lparr>t_dependents_indexes := dependents, t_deps := deps\<rparr>)
      | _ \<Rightarrow> None)"

text \<open>A task outside of the body is linked with every copy. The arrays have room for one entry per copy.\<close>

definition new_dependents :: "nat \<Rightarrow> nat \<Rightarrow> nat \<Rightarrow> oph_workflow_task list \<Rightarrow> int list \<Rightarrow> int list option" where
  [code_defs]: "new_dependents N r b ts ds =
     map_option concat (those (map (\<lambda>d. map_option (\<lambda>inside. if inside then map (\<lambda>j. int (branch_task N r ts j (nat d))) [0..<b] else [])
       (in_body N ts d)) ds))"

definition new_deps :: "nat \<Rightarrow> nat \<Rightarrow> nat \<Rightarrow> oph_workflow_task list \<Rightarrow> oph_workflow_dep list \<Rightarrow> oph_workflow_dep list option" where
  [code_defs]: "new_deps N r b ts ds =
     map_option concat (those (map (\<lambda>d. in_body N ts (d_task_index d) \<bind> (\<lambda>inside.
       if inside then those (map (\<lambda>j. with_name ts (d\<lparr>d_task_index := int (branch_task N r ts j (nat (d_task_index d)))\<rparr>)) [0..<b])
       else Some [])) ds))"

definition update_links :: "nat \<Rightarrow> nat \<Rightarrow> nat \<Rightarrow> oph_workflow_task list \<Rightarrow> oph_workflow_task \<Rightarrow> oph_workflow_task option" where
  [code_defs]: "update_links N r b ts t =
     (if t_is_marked t then map_option (\<lambda>deps. t\<lparr>t_deps := deps\<rparr>) (those (map (with_name ts) (t_deps t)))
      else (case (new_dependents N r b ts (t_dependents_indexes t), new_deps N r b ts (t_deps t)) of
              (Some dependents, Some deps) \<Rightarrow>
                if b * r < length dependents \<or> b * r < length deps then None
                else Some (t\<lparr>t_dependents_indexes := t_dependents_indexes t @ dependents, t_deps := t_deps t @ deps,
                             t_residual_deps_num := t_residual_deps_num t + int (length deps)\<rparr>)
            | _ \<Rightarrow> None))"

definition update_names :: "nat \<Rightarrow> oph_workflow_task list \<Rightarrow> oph_workflow_task \<Rightarrow> oph_workflow_task option" where
  [code_defs]: "update_names N ts t =
     map_option (\<lambda>deps. t\<lparr>t_deps := deps\<rparr>) (those (map (\<lambda>d.
       if d_task_index d < 0 \<or> int (length ts) \<le> d_task_index d then None
       else if t_is_marked (ts ! nat (d_task_index d)) \<and> d_task_index d < int N then with_name ts d
       else Some d) (t_deps t)))"

text \<open>The variable of the loop in the environments of the marked tasks; the first insertion that fails ends the loop.\<close>

fun add_vars :: "string \<Rightarrow> (nat \<Rightarrow> oph_workflow_var option) \<Rightarrow> nat \<Rightarrow> oph_workflow_task list \<Rightarrow> oph_workflow_task list option" where
  "add_vars name var j [] = Some []"
| "add_vars name var j (t # ts) =
     (if \<not> t_is_marked t then map_option ((#) t) (add_vars name var (Suc j) ts)
      else (case (t_vars t, var j) of
              (Some vars, Some v) \<Rightarrow>
                (case hashtbl_insert_with_size vars name v (var_size v) of
                   (rc, vars) \<Rightarrow>
                     if rc \<noteq> 0 then Some (t # ts)
                     else map_option ((#) (t\<lparr>t_vars := Some vars\<rparr>)) (add_vars name var (Suc j) ts))
            | _ \<Rightarrow> None))"

definition branch_of :: "nat \<Rightarrow> nat \<Rightarrow> nat \<Rightarrow> nat" where
  [code_defs]: "branch_of N r j = (if j < N then 0 else Suc ((j - N) div r))"

text \<open>The tasks after the expansion, from the tasks before it: without the final task and the variables.\<close>

definition expand_body :: "nat \<Rightarrow> nat \<Rightarrow> nat \<Rightarrow> oph_workflow_task list \<Rightarrow> oph_workflow_task list option" where
  [code_defs]: "expand_body N r b ts =
     (case (those (map first_copy (take N ts)), fill_copies b (filter t_is_marked (take N ts))) of
        (Some old, Some new) \<Rightarrow>
          (let ts1 = old @ new in
           case (those (map (update_links N r b ts1) old), those (map (\<lambda>c. relink_copy N r ts1 (c div r) (new ! c)) [0..<length new])) of
             (Some old, Some new) \<Rightarrow> map_option (\<lambda>old. old @ new) (those (map (update_names N (old @ new)) old))
           | _ \<Rightarrow> None)
      | _ \<Rightarrow> None)"

datatype par_step =
    Par_Next oph_workflow
  | Par_Later oph_workflow
  | Par_Error oph_workflow
  | Par_Exploded oph_workflow

definition explode :: "nat \<Rightarrow> string \<Rightarrow> string list option \<Rightarrow> int list option \<Rightarrow> nat \<Rightarrow> nat \<Rightarrow> oph_workflow \<Rightarrow> par_step option" where
  [code_defs]: "explode i name svalues ivalues r b w =
     (let N = w_tasks_num w; N' = N + r * b;
          var = (\<lambda>j. loop_var (int i) (map_option (map Some) svalues) ivalues (branch_of N r j)) in
      if b = 0 then
        map_option (\<lambda>ts. Par_Next (w\<lparr>w_tasks := ts @ drop N (w_tasks w)\<rparr>)) (add_vars name var 0 (take N (w_tasks w)))
      else
      (case oph_workflow_expand w N' of
         None \<Rightarrow> None
       | Some (rc, w1) \<Rightarrow>
           if rc \<noteq> OPH_WORKFLOW_EXIT_SUCCESS then Some (Par_Error w1)
           else (case expand_body N r b (w_tasks w1) of
                   None \<Rightarrow> None
                 | Some ts \<Rightarrow> map_option (\<lambda>ts. Par_Exploded (w1\<lparr>w_tasks := ts @ drop N' (w_tasks w1)\<rparr>)) (add_vars name var 0 ts))))"

section \<open>One task\<close>

definition unmark_all :: "oph_workflow \<Rightarrow> oph_workflow" where
  [code_defs]: "unmark_all w =
     w\<lparr>w_tasks := map (\<lambda>t. t\<lparr>t_is_marked := False\<rparr>) (take (w_tasks_num w) (w_tasks w)) @ drop (w_tasks_num w) (w_tasks w)\<rparr>"

text \<open>The number of branches in the environment. The size given to \<open>snprintf\<close> is that of the structure of a variable.\<close>

definition store_branches :: "string \<Rightarrow> nat \<Rightarrow> oph_workflow \<Rightarrow> bool \<times> oph_workflow" where
  [code_defs]: "store_branches name n w =
     (let number_of_loops = take 23 (name @ ''_size'');
          var = \<lparr>v_caller = - 1, v_svalue = show_int (int n), v_ivalue = 1\<rparr> in
      if hashtbl_get (w_vars w) number_of_loops \<noteq> None then (True, w)
      else (case hashtbl_insert_with_size (w_vars w) number_of_loops var (var_size var) of
              (rc, vars) \<Rightarrow> if rc \<noteq> 0 then (False, w) else (True, w\<lparr>w_vars := vars\<rparr>)))"

definition par_expand :: "nat \<Rightarrow> oph_workflow \<Rightarrow> par_step option" where
  [code_defs]: "par_expand i w =
     (case par_args (t_arguments (w_tasks w ! i)) of
        None \<Rightarrow> None
      | Some (Inl _) \<Rightarrow> Some (Par_Error w)
      | Some (Inr (name, svalues, ivalues, n)) \<Rightarrow>
          (case oph_workflow_mark_children_of (w_tasks_num w + 2) (unmark_all w) (int i) (int i) of
             None \<Rightarrow> None
           | Some (rc, w1) \<Rightarrow>
               if rc \<noteq> OPH_WORKFLOW_EXIT_SUCCESS then Some (Par_Error w1)
               else
               (let r = length (filter t_is_marked (take (w_tasks_num w1) (w_tasks w1))) in
                if r = 0 then Some (Par_Next w1)
                else (case store_branches name n w1 of
                        (ok, w2) \<Rightarrow> if \<not> ok then Some (Par_Error w2) else explode i name svalues ivalues r (n - 1) w2))))"

definition parallel_for :: "par_env \<Rightarrow> int \<Rightarrow> nat \<Rightarrow> oph_workflow \<Rightarrow> par_step option" where
  [code_defs]: "parallel_for env level i w =
     (case t_operator (w_tasks w ! i) of
        None \<Rightarrow> None
      | Some operator \<Rightarrow>
          if \<not> is_operator operator OPH_OPERATOR_FOR \<or> t_parallel_mode (w_tasks w ! i) \<noteq> 0 then Some (Par_Next w)
          else
          (case par_files env i w of
             None \<Rightarrow> None
           | Some w1 \<Rightarrow>
               (case par_mode (t_arguments (w_tasks w1 ! i)) 0 of
                  None \<Rightarrow> None
                | Some (ok, mode) \<Rightarrow>
                    (let w2 = (if mode = 0 then w1 else upd_task (\<lambda>t. t\<lparr>t_parallel_mode := 1\<rparr>) i (w1\<lparr>w_parallel_mode := 1\<rparr>)) in
                     if \<not> ok then Some (Par_Error w2)
                     else if mode = 0 then Some (Par_Next w2)
                     else if t_nesting_level (w_tasks w2 ! i) > level
                     then Some (Par_Later (upd_task (\<lambda>t. t\<lparr>t_parallel_mode := 0\<rparr>) i w2))
                     else par_expand i w2))))"

fun parallel_scan :: "par_env \<Rightarrow> int \<Rightarrow> nat list \<Rightarrow> bool \<Rightarrow> oph_workflow \<Rightarrow> par_step option" where
  "parallel_scan env level [] found w = Some (if found then Par_Later w else Par_Next w)"
| "parallel_scan env level (i # is) found w =
     (case parallel_for env level i w of
        None \<Rightarrow> None
      | Some (Par_Next w) \<Rightarrow> parallel_scan env level is found w
      | Some (Par_Later w) \<Rightarrow> parallel_scan env level is True w
      | Some step \<Rightarrow> Some step)"

fun oph_workflow_parallel_fco :: "nat \<Rightarrow> par_env \<Rightarrow> int \<Rightarrow> oph_workflow \<Rightarrow> (wf_code \<times> oph_workflow) option" where
  "oph_workflow_parallel_fco 0 env level w = None"
| "oph_workflow_parallel_fco (Suc fuel) env level w =
     (case parallel_scan env level [0..<w_tasks_num w] False w of
        None \<Rightarrow> None
      | Some (Par_Exploded w) \<Rightarrow> oph_workflow_parallel_fco fuel env level w
      | Some (Par_Error w) \<Rightarrow> Some (OPH_WORKFLOW_EXIT_BAD_PARAM_ERROR, w)
      | Some (Par_Later w) \<Rightarrow> oph_workflow_parallel_fco fuel env (level + 1) w
      | Some (Par_Next w) \<Rightarrow> Some (OPH_WORKFLOW_EXIT_SUCCESS, w))"

end
