(* ===== verification/Parallel_Expansion.thy ===== *)
theory Parallel_Expansion
  imports Parallel_Loops
begin

text \<open>
  What the expansion of one parallel loop does to the graph of the tasks. Every task of the expanded workflow has a source among the
  tasks before the expansion and a branch; the links are those of the sources, within the branch for two tasks of the body.
\<close>

section \<open>Blocks of lists\<close>

lemma div_block: "i < r \<Longrightarrow> (j * r + i) div r = j" "i < r \<Longrightarrow> (r * j + i) div r = j" for r :: nat
  by (rule div_nat_eqI; auto)+

lemma concat_blocks:
  assumes "0 < length xs"
  shows "concat (map (\<lambda>j. map (f j) xs) [0..<b]) = map (\<lambda>c. f (c div length xs) (xs ! (c mod length xs))) [0..<length xs * b]"
proof (induction b)
  case (Suc b)
  have "map (f b) xs = map (\<lambda>c. f (c div length xs) (xs ! (c mod length xs))) [length xs * b..<length xs * b + length xs]"
  proof (rule nth_equalityI)
    fix i assume "i < length (map (f b) xs)"
    then have "i < length xs" by simp
    moreover from this have "(length xs * b + i) div length xs = b" "(length xs * b + i) mod length xs = i" by (simp_all add: div_block)
    ultimately show "map (f b) xs ! i = map (\<lambda>c. f (c div length xs) (xs ! (c mod length xs))) [length xs * b..<length xs * b + length xs] ! i"
      by simp
  qed simp
  moreover have "[0..<length xs * Suc b] = [0..<length xs * b] @ [length xs * b..<length xs * b + length xs]"
    by (metis add.commute le_add2 mult_Suc_right upt_add_eq_append zero_order(1))
  ultimately show ?case using Suc by simp
qed simp

lemma distinct_concat_map:
  assumes "distinct ds" and "\<forall>d\<in>set ds. distinct (f d)" and "\<forall>d\<in>set ds. \<forall>e\<in>set ds. d \<noteq> e \<longrightarrow> set (f d) \<inter> set (f e) = {}"
  shows "distinct (concat (map f ds))"
  using assms by (induction ds) auto

section \<open>Sources and branches\<close>

definition body :: "nat \<Rightarrow> oph_workflow_task list \<Rightarrow> nat list" where
  [code_defs]: "body N ts = filter (\<lambda>j. t_is_marked (ts ! j)) [0..<N]"

definition src :: "nat \<Rightarrow> oph_workflow_task list \<Rightarrow> nat \<Rightarrow> nat" where
  [code_defs]: "src N ts c = (if c < N then c else body N ts ! ((c - N) mod length (body N ts)))"

lemma body_tasks: "N \<le> length ts \<Longrightarrow> filter t_is_marked (take N ts) = map ((!) ts) (body N ts)"
proof -
  assume "N \<le> length ts"
  then have "take N ts = map ((!) ts) [0..<N]" by (simp add: list_eq_iff_nth_eq)
  then show ?thesis by (simp add: body_def filter_map comp_def)
qed

lemma body_set: "set (body N ts) = {j. j < N \<and> t_is_marked (ts ! j)}"
  by (auto simp: body_def)

lemma distinct_body: "distinct (body N ts)"
  by (simp add: body_def)

lemma new_index_nth:
  assumes "d < N" and "N \<le> length ts" and "t_is_marked (ts ! d)"
  shows "new_index ts d < length (body N ts)" and "body N ts ! new_index ts d = d"
proof -
  have "[0..<N] = [0..<d] @ d # [Suc d..<N]"
    using assms(1) by (metis le_add1 less_imp_le_nat plus_nat.add_0 upt_add_eq_append upt_conv_Cons add_diff_inverse_nat not_less)
  then have "body N ts = body d ts @ d # filter (\<lambda>j. t_is_marked (ts ! j)) [Suc d..<N]"
    using assms(3) by (simp add: body_def)
  moreover have "length (body d ts) = new_index ts d"
    using body_tasks [of d ts] assms(1,2) by (metis length_map less_imp_le_nat new_index_def order_trans)
  ultimately show "new_index ts d < length (body N ts)" and "body N ts ! new_index ts d = d"
    by (simp_all add: nth_append)
qed

lemma new_index_body:
  assumes "k < length (body N ts)" and "N \<le> length ts"
  shows "new_index ts (body N ts ! k) = k"
proof -
  have d: "body N ts ! k < N" "t_is_marked (ts ! (body N ts ! k))"
    using assms(1) body_set [of N ts] nth_mem by blast+
  show ?thesis
    using new_index_nth [OF d(1) assms(2) d(2)] distinct_body [of N ts] assms(1) by (simp add: nth_eq_iff_index_eq)
qed

lemma new_index_marks:
  assumes "\<forall>c < d. t_is_marked (ts' ! c) = t_is_marked (ts ! c)" and "d \<le> length ts" and "d \<le> length ts'"
  shows "new_index ts' d = new_index ts d"
proof -
  have "body d ts' = body d ts" using assms(1) by (auto simp: body_def intro: filter_cong)
  then show ?thesis using body_tasks [of d ts] body_tasks [of d ts'] assms(2,3) by (metis length_map new_index_def)
qed

lemma src_branch_task:
  assumes "d < N" and "N \<le> length ts" and "t_is_marked (ts ! d)" and "j < b" and "r = length (body N ts)"
  shows "src N ts (branch_task N r ts j d) = d" and "branch_of N r (branch_task N r ts j d) = Suc j"
    and "branch_task N r ts j d < N + r * b" and "N \<le> branch_task N r ts j d"
proof -
  note k = new_index_nth [OF assms(1-3), folded assms(5)]
  have "j * r + new_index ts d < Suc j * r" using k(1) by simp
  also have "\<dots> \<le> b * r" using assms(4) by (metis Suc_leI mult_le_mono1)
  finally show "branch_task N r ts j d < N + r * b" by (simp add: branch_task_def mult.commute)
  show "N \<le> branch_task N r ts j d" by (simp add: branch_task_def)
  show "src N ts (branch_task N r ts j d) = d" "branch_of N r (branch_task N r ts j d) = Suc j"
    using k assms(5) by (simp_all add: branch_task_def src_def branch_of_def div_block)
qed

text \<open>Every new task is the task of a branch.\<close>

lemma new_task_branch:
  assumes "N \<le> c" and "c < N + r * b" and "N \<le> length ts" and "r = length (body N ts)"
  shows "src N ts c < N" and "t_is_marked (ts ! src N ts c)" and "c = branch_task N r ts ((c - N) div r) (src N ts c)" and "(c - N) div r < b"
proof -
  have r: "0 < r" using assms(1,2) by (cases r) auto
  then have k: "(c - N) mod r < length (body N ts)" using assms(4) by simp
  show "src N ts c < N" "t_is_marked (ts ! src N ts c)"
    using nth_mem [OF k] body_set [of N ts] assms(1,4) by (auto simp: src_def)
  show "c = branch_task N r ts ((c - N) div r) (src N ts c)"
    using new_index_body [OF k assms(3)] assms(1,4) by (simp add: branch_task_def src_def)
  show "(c - N) div r < b" using assms(1,2) r by (simp add: less_mult_imp_div_less mult.commute)
qed

lemma src_bound: "c < N + r * b \<Longrightarrow> N \<le> length ts \<Longrightarrow> r = length (body N ts) \<Longrightarrow> src N ts c < N"
  using new_task_branch(1) [of N c r b ts] by (cases "c < N") (auto simp: src_def)

section \<open>Links of the copies\<close>

definition shift :: "nat \<Rightarrow> nat \<Rightarrow> oph_workflow_task list \<Rightarrow> nat \<Rightarrow> int \<Rightarrow> int" where
  "shift N r ts k d = (if t_is_marked (ts ! nat d) \<and> k \<noteq> 0 then int (branch_task N r ts (k - 1) (nat d)) else d)"

definition copies_of :: "nat \<Rightarrow> nat \<Rightarrow> nat \<Rightarrow> oph_workflow_task list \<Rightarrow> int \<Rightarrow> int list" where
  "copies_of N r b ts d = (if t_is_marked (ts ! nat d) then map (\<lambda>j. int (branch_task N r ts j (nat d))) [0..<b] else [])"

definition spread :: "nat \<Rightarrow> nat \<Rightarrow> nat \<Rightarrow> oph_workflow_task list \<Rightarrow> bool \<Rightarrow> nat \<Rightarrow> int list \<Rightarrow> int list" where
  "spread N r b ts inside k D =
     (if inside then map (shift N r ts k) D else D @ concat (map (copies_of N r b ts) D))"

text \<open>The links of a task of branch \<open>k\<close> after the expansion, from the links \<open>D\<close> of its source.\<close>

lemma spread_iff:
  assumes D: "set D \<subseteq> {0..<int N}" and N: "N \<le> length ts" and r: "r = length (body N ts)" and k: "k \<le> b" and N': "N + r * b = N'"
  shows "set (spread N r b ts inside k D) \<subseteq> {0..<int N'}"
    and "q < N' \<Longrightarrow> int q \<in> set (spread N r b ts inside k D) \<longleftrightarrow>
      int (src N ts q) \<in> set D \<and> (inside \<and> t_is_marked (ts ! src N ts q) \<longrightarrow> branch_of N r q = k)"
proof -
  have d: "0 \<le> d \<and> d < int N \<and> nat d < N" if "d \<in> set D" for d using D that by (auto simp: subset_iff)
  have old: "src N ts q = q \<and> branch_of N r q = 0" if "q < N" for q using that by (simp add: src_def branch_of_def)
  note new = src_branch_task [OF _ N _ _ r, where b = b, unfolded N']
  have le: "N \<le> N'" using N' by simp
  have "0 \<le> shift N r ts k e \<and> shift N r ts k e < int N'" if "e \<in> set D" for e
    using d [OF that] new(3) [of "nat e" "k - 1"] k le by (auto simp: shift_def)
  moreover have "0 \<le> x \<and> x < int N'" if "e \<in> set D" "x \<in> set (copies_of N r b ts e)" for e x
    using d [OF that(1)] new(3) [of "nat e"] that(2) by (auto simp: copies_of_def split: if_splits)
  moreover have "0 \<le> e \<and> e < int N'" if "e \<in> set D" for e using d [OF that] le by linarith
  ultimately show "set (spread N r b ts inside k D) \<subseteq> {0..<int N'}"
    by (auto simp: spread_def)
  assume q: "q < N'"
  have "q < N + r * b" using q N' by simp
  note origin = new_task_branch [OF _ this N r]
  show "int q \<in> set (spread N r b ts inside k D) \<longleftrightarrow>
      int (src N ts q) \<in> set D \<and> (inside \<and> t_is_marked (ts ! src N ts q) \<longrightarrow> branch_of N r q = k)" (is "?l \<longleftrightarrow> ?r")
  proof
    assume ?l
    then consider e where "inside" "e \<in> set D" "int q = shift N r ts k e"
      | "\<not> inside" "int q \<in> set D" | e j where "\<not> inside" "e \<in> set D" "t_is_marked (ts ! nat e)" "j < b" "q = branch_task N r ts j (nat e)"
      by (auto simp: spread_def copies_of_def split: if_splits)
    then show ?r
    proof cases
      case 1
      then show ?thesis
        using d [of e] old [of q] new [of "nat e" "k - 1"] k by (cases "t_is_marked (ts ! nat e) \<and> k \<noteq> 0") (auto simp: shift_def)
    next
      case 2
      then show ?thesis using d [of "int q"] old [of q] by simp
    next
      case 3
      then show ?thesis using d [of e] new [of "nat e" j] by simp
    qed
  next
    assume R: ?r
    show ?l
    proof (cases "q < N")
      case True
      then show ?thesis using R old [OF True] by (auto simp: spread_def shift_def image_iff intro!: bexI [of _ "int q"])
    next
      case False
      then have b: "N \<le> q" by simp
      have "branch_of N r q = Suc ((q - N) div r)" using False by (simp add: branch_of_def)
      then have "int q = shift N r ts k (int (src N ts q))" if inside using R that origin [OF b] by (auto simp: shift_def)
      moreover have "int q \<in> set (copies_of N r b ts (int (src N ts q)))" using origin [OF b] by (auto simp: copies_of_def)
      ultimately show ?thesis using R by (auto simp: spread_def)
    qed
  qed
qed

lemma distinct_spread:
  assumes D: "set D \<subseteq> {0..<int N}" and N: "N \<le> length ts" and r: "r = length (body N ts)" and k: "k \<le> b" and "distinct D"
  shows "distinct (spread N r b ts inside k D)"
proof -
  have d: "0 \<le> d \<and> d < int N \<and> nat d < N" if "d \<in> set D" for d using D that by (auto simp: subset_iff)
  note new = src_branch_task [OF _ N _ _ r]
  have "inj_on (shift N r ts k) (set D)"
  proof (rule inj_on_inverseI [of _ "\<lambda>c. int (src N ts (nat c))"])
    fix x assume "x \<in> set D"
    then show "int (src N ts (nat (shift N r ts k x))) = x"
      using d [of x] new(1) [of "nat x" "k - 1" b] k by (cases "t_is_marked (ts ! nat x) \<and> k \<noteq> 0") (auto simp: shift_def src_def)
  qed
  moreover have "distinct (concat (map (copies_of N r b ts) D))"
  proof (rule distinct_concat_map [OF assms(5)])
    show "\<forall>x\<in>set D. distinct (copies_of N r b ts x)"
    proof
      fix x assume "x \<in> set D"
      then have "inj_on (\<lambda>j. branch_task N r ts j (nat x)) {0..<b}" if "t_is_marked (ts ! nat x)"
        using d [of x] new(2) [of "nat x"] that
        by (intro inj_on_inverseI [of _ "\<lambda>c. branch_of N r c - 1"]) (metis atLeastLessThan_iff diff_Suc_1)
      then show "distinct (copies_of N r b ts x)" by (auto simp: copies_of_def distinct_map inj_on_def)
    qed
    show "\<forall>x\<in>set D. \<forall>y\<in>set D. x \<noteq> y \<longrightarrow> set (copies_of N r b ts x) \<inter> set (copies_of N r b ts y) = {}"
    proof (intro ballI impI equals0I)
      have c: "src N ts (nat c) = nat x" if "x \<in> set D" "c \<in> set (copies_of N r b ts x)" for x c
        using d [OF that(1)] new(1) [of "nat x" _ b] that(2) by (auto simp: copies_of_def split: if_splits)
      fix x y c assume xy: "x \<in> set D" "y \<in> set D" "x \<noteq> y" and "c \<in> set (copies_of N r b ts x) \<inter> set (copies_of N r b ts y)"
      then have "nat x = nat y" using c [of x c] c [of y c] by simp
      then show False using d [OF xy(1)] d [OF xy(2)] xy(3) by linarith
    qed
  qed
  moreover have "int N \<le> x" if "e \<in> set D" "x \<in> set (copies_of N r b ts e)" for e x
    using d [OF that(1)] new(4) [of "nat e" _ b] that(2) by (auto simp: copies_of_def split: if_splits)
  then have "set D \<inter> set (concat (map (copies_of N r b ts) D)) = {}" using d by fastforce
  ultimately show ?thesis using assms(5) by (simp add: spread_def distinct_map)
qed

lemma copies_room:
  assumes D: "set D \<subseteq> {0..<int N}" and r: "r = length (body N ts)" and "distinct D"
  shows "length (concat (map (copies_of N r b ts) D)) \<le> b * r"
proof -
  let ?M = "filter (\<lambda>d. t_is_marked (ts ! nat d)) D"
  have "length (concat (map (copies_of N r b ts) D)) = b * length ?M"
    by (induction D) (simp_all add: copies_of_def)
  moreover have "length ?M = card (set ?M)" by (metis assms(3) distinct_card distinct_filter)
  moreover have "card (set ?M) \<le> card (set (body N ts))"
    by (rule card_inj_on_le [of nat]) (use D in \<open>auto simp: inj_on_def body_set subset_iff eq_nat_nat_iff\<close>)
  ultimately show ?thesis using r distinct_card [OF distinct_body] by simp
qed

section \<open>Copies\<close>

definition named :: "oph_workflow_task \<Rightarrow> bool" where
  [code_defs]: "named t \<longleftrightarrow> t_name t \<noteq> None \<and> t_name t \<noteq> Some []"

definition with_vars :: "oph_workflow_task \<Rightarrow> bool" where
  [code_defs]: "with_vars t \<longleftrightarrow> (case t_vars t of None \<Rightarrow> False | Some h \<Rightarrow> hashtbl_ok h)"

text \<open>A copy of a task: another name, the same environment in another table, other links.\<close>

definition copy_like :: "oph_workflow_task \<Rightarrow> oph_workflow_task \<Rightarrow> bool" where
  "copy_like t t' \<longleftrightarrow> named t' \<and> with_vars t' \<and> hashtbl_get (the (t_vars t')) = hashtbl_get (the (t_vars t)) \<and>
     t' = t\<lparr>t_name := t_name t', t_deps := t_deps t', t_dependents_indexes := t_dependents_indexes t',
            t_residual_deps_num := t_residual_deps_num t', t_vars := t_vars t'\<rparr>"

definition same_links :: "oph_workflow_task \<Rightarrow> oph_workflow_task \<Rightarrow> bool" where
  "same_links t t' \<longleftrightarrow> copy_like t t' \<and> t_dependents_indexes t' = t_dependents_indexes t \<and>
     map d_task_index (t_deps t') = map d_task_index (t_deps t) \<and> t_residual_deps_num t' = t_residual_deps_num t"

lemma copy_like_update:
  "copy_like t t' \<Longrightarrow> copy_like t (t'\<lparr>t_dependents_indexes := a\<rparr>)" "copy_like t t' \<Longrightarrow> copy_like t (t'\<lparr>t_deps := ds\<rparr>)"
  "copy_like t t' \<Longrightarrow> copy_like t (t'\<lparr>t_residual_deps_num := n\<rparr>)"
  by (cases t; cases t'; simp add: copy_like_def named_def with_vars_def)+

lemma copy_like_fields:
  assumes "copy_like t t'"
  shows "named t'" "with_vars t'" "hashtbl_get (the (t_vars t')) = hashtbl_get (the (t_vars t))"
    and "t_is_marked t' = t_is_marked t" "t_operator t' = t_operator t" "t_arguments t' = t_arguments t" "t_child t' = t_child t"
    and "t_nesting_level t' = t_nesting_level t" "t_parallel_mode t' = t_parallel_mode t" "t_status t' = t_status t"
    and "t_massive_expansion t' = t_massive_expansion t" "t_light_tasks t' = t_light_tasks t" "t_retry_num t' = t_retry_num t"
  using assms unfolding copy_like_def by (cases t; cases t'; simp)+

lemma copy_name_ok: "n \<noteq> [] \<Longrightarrow> 0 \<le> k \<Longrightarrow> \<exists>m. copy_name n k = Some m \<and> m \<noteq> []"
  by (simp add: copy_name_def)

lemma first_copy_ok:
  assumes "named t" and "with_vars t"
  shows "\<exists>t'. first_copy t = Some t' \<and> same_links t t'"
proof -
  obtain n where n: "t_name t = Some n" "n \<noteq> []" using assms(1) by (auto simp: named_def)
  obtain m where "copy_name n 1 = Some m" "m \<noteq> []" using copy_name_ok [OF n(2), of 1] by auto
  then show ?thesis
    using assms n by (cases t) (auto simp: first_copy_def same_links_def copy_like_def named_def with_vars_def)
qed

lemma copied_ok:
  assumes "named t" and "with_vars t"
  shows "\<exists>t'. copied t j = Some t' \<and> same_links t t'"
proof -
  obtain n where n: "t_name t = Some n" "n \<noteq> []" using assms(1) by (auto simp: named_def)
  obtain m where m: "copy_name n (2 + int j) = Some m" "m \<noteq> []" using copy_name_ok [OF n(2), of "2 + int j"] by auto
  obtain h where h: "t_vars t = Some h" "hashtbl_ok h" using assms(2) by (auto simp: with_vars_def split: option.splits)
  obtain h' where h': "hashtbl_duplicate h = Some h'" "hashtbl_ok h'" "hashtbl_get h' = hashtbl_get h"
    using hashtbl_copy_resize [OF h(2), of 1] by auto
  show ?thesis
    using n m h h' by (cases t)
      (auto simp: copied_def oph_workflow_copy_task_def same_links_def copy_like_def named_def with_vars_def Let_def copy_dep_def)
qed

section \<open>Links\<close>

text \<open>The tasks while the links are updated: all have names and the marks of their sources.\<close>

definition stage :: "nat \<Rightarrow> nat \<Rightarrow> oph_workflow_task list \<Rightarrow> oph_workflow_task list \<Rightarrow> bool" where
  "stage N N' ts ts1 \<longleftrightarrow> length ts1 = N' \<and> N \<le> N' \<and> N \<le> length ts \<and> (\<forall>c < N'. t_name (ts1 ! c) \<noteq> None) \<and>
     (\<forall>c < N. t_is_marked (ts1 ! c) = t_is_marked (ts ! c))"

lemma stage_in_body: "stage N N' ts ts1 \<Longrightarrow> 0 \<le> d \<Longrightarrow> d < int N \<Longrightarrow> in_body N ts1 d = Some (t_is_marked (ts ! nat d))"
  by (auto simp: stage_def in_body_def)

lemma stage_branch_task: "stage N N' ts ts1 \<Longrightarrow> d < N \<Longrightarrow> branch_task N r ts1 j d = branch_task N r ts j d"
  using new_index_marks [of d ts1 ts] by (simp add: stage_def branch_task_def)

lemma stage_with_name:
  assumes "stage N N' ts ts1" and "0 \<le> d_task_index d" and "d_task_index d < int N'"
  shows "\<exists>d'. with_name ts1 d = Some d' \<and> d_task_index d' = d_task_index d"
proof -
  have "t_name (ts1 ! nat (d_task_index d)) \<noteq> None" using assms unfolding stage_def by simp
  then obtain n where "t_name (ts1 ! nat (d_task_index d)) = Some n" by blast
  then show ?thesis using assms by (simp add: stage_def with_name_def)
qed

lemma those_deps:
  assumes "\<forall>x\<in>set xs. \<exists>d'. f x = Some d' \<and> d_task_index d' = g x"
  shows "\<exists>ds. those (map f xs) = Some ds \<and> map d_task_index ds = map g xs"
  using those_map_ex [of xs f "\<lambda>x d'. d_task_index d' = g x"] assms by (auto simp: list_all2_conv_all_nth list_eq_iff_nth_eq)

lemma those_dep_lists:
  assumes "\<forall>x\<in>set xs. \<exists>ds. f x = Some ds \<and> map d_task_index ds = g x"
  shows "\<exists>dss. those (map f xs) = Some dss \<and> map d_task_index (concat dss) = concat (map g xs)"
  using assms by (induction xs) (fastforce split: option.splits)+

lemma relink_ok:
  assumes "stage N N' ts ts1" and "0 \<le> d" and "d < int N"
  shows "relink N r ts1 j d = Some (shift N r ts (Suc j) d)"
  using assms stage_in_body [OF assms] stage_branch_task [OF assms(1), of "nat d" r j] by (simp add: relink_def shift_def)

lemma relink_copy_ok:
  assumes st: "stage N N' ts ts1" and D: "set (t_dependents_indexes t) \<subseteq> {0..<int N}" "d_task_index ` set (t_deps t) \<subseteq> {0..<int N}"
    and N': "N + r * b = N'" and r: "r = length (body N ts)" and j: "j < b"
  shows "\<exists>ds. relink_copy N r ts1 j t = Some (t\<lparr>t_dependents_indexes := spread N r b ts True (Suc j) (t_dependents_indexes t), t_deps := ds\<rparr>) \<and>
    map d_task_index ds = spread N r b ts True (Suc j) (map d_task_index (t_deps t))"
proof -
  have N: "N \<le> length ts" using st by (simp add: stage_def)
  have "those (map (relink N r ts1 j) (t_dependents_indexes t)) = Some (map (shift N r ts (Suc j)) (t_dependents_indexes t))"
    using relink_ok [OF st] D(1) by (intro those_map_Some) (auto simp: subset_iff)
  moreover have "\<exists>ds. those (map (relink_dep N r ts1 j) (t_deps t)) = Some ds \<and>
      map d_task_index ds = map (\<lambda>d. shift N r ts (Suc j) (d_task_index d)) (t_deps t)"
  proof (rule those_deps, rule ballI)
    fix d assume "d \<in> set (t_deps t)"
    then have d: "0 \<le> d_task_index d" "d_task_index d < int N" using D(2) by auto
    have "set (spread N r b ts True (Suc j) [d_task_index d]) \<subseteq> {0..<int N'}"
      by (rule spread_iff(1)) (use d N r j N' in auto)
    then show "\<exists>d'. relink_dep N r ts1 j d = Some d' \<and> d_task_index d' = shift N r ts (Suc j) (d_task_index d)"
      using stage_with_name [OF st, of "d\<lparr>d_task_index := shift N r ts (Suc j) (d_task_index d)\<rparr>"] relink_ok [OF st d]
      by (simp add: relink_dep_def spread_def)
  qed
  ultimately show ?thesis by (auto simp: relink_copy_def spread_def)
qed

lemma update_links_ok:
  assumes st: "stage N N' ts ts1" and D: "set (t_dependents_indexes t) \<subseteq> {0..<int N}" "d_task_index ` set (t_deps t) \<subseteq> {0..<int N}"
    and N': "N + r * b = N'" and r: "r = length (body N ts)"
    and dist: "distinct (t_dependents_indexes t)" "distinct (map d_task_index (t_deps t))"
  shows "\<exists>ds. update_links N r b ts1 t = Some (t\<lparr>t_dependents_indexes := spread N r b ts (t_is_marked t) 0 (t_dependents_indexes t),
      t_deps := ds, t_residual_deps_num := t_residual_deps_num t + int (length ds) - int (length (t_deps t))\<rparr>) \<and>
    map d_task_index ds = spread N r b ts (t_is_marked t) 0 (map d_task_index (t_deps t))"
proof -
  have N: "N \<le> length ts" "N \<le> N'" using st by (simp_all add: stage_def)
  have zero: "shift N r ts 0 = (\<lambda>d. d)" by (simp add: shift_def fun_eq_iff)
  show ?thesis
  proof (cases "t_is_marked t")
    case True
    have "\<exists>ds. those (map (with_name ts1) (t_deps t)) = Some ds \<and> map d_task_index ds = map d_task_index (t_deps t)"
      by (rule those_deps) (use D(2) N(2) stage_with_name [OF st] in fastforce)
    then obtain ds where ds: "those (map (with_name ts1) (t_deps t)) = Some ds" "map d_task_index ds = map d_task_index (t_deps t)" by auto
    moreover have "length ds = length (t_deps t)" using ds(2) by (rule map_eq_imp_length_eq)
    ultimately show ?thesis
      using True by (intro exI [of _ ds]) (cases t, simp add: update_links_def spread_def zero)
  next
    case False
    have "those (map (\<lambda>d. map_option (\<lambda>inside. if inside then map (\<lambda>j. int (branch_task N r ts1 j (nat d))) [0..<b] else []) (in_body N ts1 d))
        (t_dependents_indexes t)) = Some (map (copies_of N r b ts) (t_dependents_indexes t))"
      by (rule those_map_Some) (use D(1) stage_in_body [OF st] stage_branch_task [OF st] in \<open>auto simp: copies_of_def subset_iff\<close>)
    then have a: "new_dependents N r b ts1 (t_dependents_indexes t) = Some (concat (map (copies_of N r b ts) (t_dependents_indexes t)))"
      by (simp add: new_dependents_def)
    have "\<exists>dss. those (map (\<lambda>d. in_body N ts1 (d_task_index d) \<bind> (\<lambda>inside.
        if inside then those (map (\<lambda>j. with_name ts1 (d\<lparr>d_task_index := int (branch_task N r ts1 j (nat (d_task_index d)))\<rparr>)) [0..<b])
        else Some [])) (t_deps t)) = Some dss \<and>
      map d_task_index (concat dss) = concat (map (\<lambda>d. copies_of N r b ts (d_task_index d)) (t_deps t))"
    proof (rule those_dep_lists, rule ballI)
      fix d assume "d \<in> set (t_deps t)"
      then have d: "0 \<le> d_task_index d" "d_task_index d < int N" using D(2) by auto
      then have d3: "nat (d_task_index d) < N" by simp
      have "\<exists>ds. those (map (\<lambda>j. with_name ts1 (d\<lparr>d_task_index := int (branch_task N r ts1 j (nat (d_task_index d)))\<rparr>)) [0..<b]) = Some ds \<and>
          map d_task_index ds = map (\<lambda>j. int (branch_task N r ts j (nat (d_task_index d)))) [0..<b]" if "t_is_marked (ts ! nat (d_task_index d))"
      proof (rule those_deps, rule ballI)
        fix j assume "j \<in> set [0..<b]"
        then have "branch_task N r ts j (nat (d_task_index d)) < N'" using src_branch_task(3) [OF d3 N(1) that _ r, of j b] N' by simp
        then show "\<exists>d'. with_name ts1 (d\<lparr>d_task_index := int (branch_task N r ts1 j (nat (d_task_index d)))\<rparr>) = Some d' \<and>
            d_task_index d' = int (branch_task N r ts j (nat (d_task_index d)))"
          using stage_with_name [OF st, of "d\<lparr>d_task_index := int (branch_task N r ts j (nat (d_task_index d)))\<rparr>"]
            stage_branch_task [OF st d3, of r j] by simp
      qed
      then show "\<exists>ds. in_body N ts1 (d_task_index d) \<bind> (\<lambda>inside.
          if inside then those (map (\<lambda>j. with_name ts1 (d\<lparr>d_task_index := int (branch_task N r ts1 j (nat (d_task_index d)))\<rparr>)) [0..<b])
          else Some []) = Some ds \<and> map d_task_index ds = copies_of N r b ts (d_task_index d)"
        using stage_in_body [OF st d(1,2)] by (auto simp: copies_of_def)
    qed
    then obtain ds where b: "new_deps N r b ts1 (t_deps t) = Some ds"
      "map d_task_index ds = concat (map (copies_of N r b ts) (map d_task_index (t_deps t)))"
      by (auto simp: new_deps_def comp_def)
    have "length ds \<le> b * r" using copies_room [OF _ r dist(2), of b] D(2) b(2) by (metis length_map list.set_map)
    moreover have "length (concat (map (copies_of N r b ts) (t_dependents_indexes t))) \<le> b * r"
      using copies_room [OF D(1) r dist(1), of b] by simp
    ultimately show ?thesis
      using False a b by (intro exI [of _ "t_deps t @ ds"]) (simp add: update_links_def spread_def)
  qed
qed

lemma update_names_ok:
  assumes "stage N N' ts ts1" and "d_task_index ` set (t_deps t) \<subseteq> {0..<int N'}"
  shows "\<exists>ds. update_names N ts1 t = Some (t\<lparr>t_deps := ds\<rparr>) \<and> map d_task_index ds = map d_task_index (t_deps t)"
proof -
  let ?f = "\<lambda>d. if d_task_index d < 0 \<or> int (length ts1) \<le> d_task_index d then None
       else if t_is_marked (ts1 ! nat (d_task_index d)) \<and> d_task_index d < int N then with_name ts1 d else Some d"
  have "\<exists>ds. those (map ?f (t_deps t)) = Some ds \<and> map d_task_index ds = map d_task_index (t_deps t)"
  proof (rule those_deps, rule ballI)
    fix d assume "d \<in> set (t_deps t)"
    then have d: "0 \<le> d_task_index d" "d_task_index d < int N'" using assms(2) by auto
    then show "\<exists>d'. ?f d = Some d' \<and> d_task_index d' = d_task_index d"
      using stage_with_name [OF assms(1) d] assms(1) by (auto simp: stage_def)
  qed
  then show ?thesis by (auto simp: update_names_def)
qed

section \<open>The expanded tasks\<close>

text \<open>Links of tasks that agree with each other: no task is linked twice with another one.\<close>

definition links_ok :: "nat \<Rightarrow> oph_workflow_task list \<Rightarrow> bool" where
  [code_defs]: "links_ok N ts \<longleftrightarrow> N \<le> length ts \<and> list_all (\<lambda>i. distinct (t_dependents_indexes (ts ! i)) \<and>
     distinct (map d_task_index (t_deps (ts ! i))) \<and>
     list_all (\<lambda>d. 0 \<le> d \<and> d < int N) (t_dependents_indexes (ts ! i)) \<and> list_all (\<lambda>d. 0 \<le> d_task_index d \<and> d_task_index d < int N) (t_deps (ts ! i)) \<and>
     list_all (\<lambda>p. (int i \<in> set (t_dependents_indexes (ts ! p))) = (int p \<in> set (map d_task_index (t_deps (ts ! i))))) [0..<N]) [0..<N]"

lemma links_okD:
  assumes "links_ok N ts"
  shows "N \<le> length ts"
    and "i < N \<Longrightarrow> distinct (t_dependents_indexes (ts ! i))"
    and "i < N \<Longrightarrow> distinct (map d_task_index (t_deps (ts ! i)))"
    and "i < N \<Longrightarrow> set (t_dependents_indexes (ts ! i)) \<subseteq> {0..<int N}"
    and "i < N \<Longrightarrow> d_task_index ` set (t_deps (ts ! i)) \<subseteq> {0..<int N}"
    and "i < N \<Longrightarrow> p < N \<Longrightarrow> int i \<in> set (t_dependents_indexes (ts ! p)) \<longleftrightarrow> int p \<in> d_task_index ` set (t_deps (ts ! i))"
  using assms by (auto simp: links_ok_def list_all_iff)

lemma links_okI:
  assumes "N \<le> length ts"
    and "\<And>i. i < N \<Longrightarrow> distinct (t_dependents_indexes (ts ! i)) \<and> distinct (map d_task_index (t_deps (ts ! i)))"
    and "\<And>i. i < N \<Longrightarrow> set (t_dependents_indexes (ts ! i)) \<subseteq> {0..<int N} \<and> set (map d_task_index (t_deps (ts ! i))) \<subseteq> {0..<int N}"
    and "\<And>i p. i < N \<Longrightarrow> p < N \<Longrightarrow> int i \<in> set (t_dependents_indexes (ts ! p)) \<longleftrightarrow> int p \<in> set (map d_task_index (t_deps (ts ! i)))"
  shows "links_ok N ts"
  using assms by (auto simp: links_ok_def list_all_iff subset_iff)

text \<open>A task of the expanded workflow, with its source and its branch.\<close>

definition expanded :: "nat \<Rightarrow> nat \<Rightarrow> nat \<Rightarrow> oph_workflow_task list \<Rightarrow> nat \<Rightarrow> oph_workflow_task \<Rightarrow> bool" where
  "expanded N r b ts c t \<longleftrightarrow> (let s = ts ! src N ts c in copy_like s t \<and>
     t_dependents_indexes t = spread N r b ts (t_is_marked s) (branch_of N r c) (t_dependents_indexes s) \<and>
     map d_task_index (t_deps t) = spread N r b ts (t_is_marked s) (branch_of N r c) (map d_task_index (t_deps s)) \<and>
     t_residual_deps_num t = t_residual_deps_num s + int (length (t_deps t)) - int (length (t_deps s)))"

lemma fill_copies_ok:
  assumes N: "N \<le> length ts" and t: "\<forall>j < N. named (ts ! j) \<and> with_vars (ts ! j)" and r: "r = length (body N ts)" "0 < r"
  shows "\<exists>new. fill_copies b (filter t_is_marked (take N ts)) = Some new \<and> length new = r * b \<and>
    (\<forall>c < r * b. same_links (ts ! src N ts (N + c)) (new ! c))"
proof -
  have "concat (map (\<lambda>j. map (\<lambda>t. copied t j) (filter t_is_marked (take N ts))) [0..<b]) =
      map (\<lambda>c. copied (ts ! src N ts (N + c)) (c div r)) [0..<r * b]"
    using concat_blocks [of "filter t_is_marked (take N ts)" "\<lambda>j t. copied t j" b] r by (simp add: body_tasks [OF N] src_def)
  moreover have "\<forall>c\<in>set [0..<r * b]. \<exists>y. copied (ts ! src N ts (N + c)) (c div r) = Some y \<and> same_links (ts ! src N ts (N + c)) y"
    using copied_ok t src_bound [OF _ N r(1)] by auto
  ultimately show ?thesis
    using those_map_ex [of "[0..<r * b]" "\<lambda>c. copied (ts ! src N ts (N + c)) (c div r)" "\<lambda>c. same_links (ts ! src N ts (N + c))"]
    by (auto simp: fill_copies_def list_all2_conv_all_nth)
qed

lemma expanded_deps:
  "expanded N r b ts c t \<Longrightarrow> map d_task_index ds = map d_task_index (t_deps t) \<Longrightarrow> expanded N r b ts c (t\<lparr>t_deps := ds\<rparr>)"
  using map_eq_imp_length_eq [of d_task_index ds d_task_index "t_deps t"] by (simp add: expanded_def Let_def copy_like_update)

lemma expanded_stage:
  assumes "length ts2 = N'" and "N \<le> N'" and "N \<le> length ts" and "\<forall>c < N'. expanded N r b ts c (ts2 ! c)"
  shows "stage N N' ts ts2"
proof -
  have "copy_like (ts ! src N ts c) (ts2 ! c)" if "c < N'" for c using assms(4) that by (simp add: expanded_def Let_def)
  then have "named (ts2 ! c)" "t_is_marked (ts2 ! c) = t_is_marked (ts ! src N ts c)" if "c < N'" for c
    using that copy_like_fields by blast+
  then show ?thesis using assms(1-3) by (auto simp: stage_def src_def named_def)
qed

lemma same_linksD:
  "same_links t t' \<Longrightarrow> copy_like t t' \<and> t_dependents_indexes t' = t_dependents_indexes t \<and>
   map d_task_index (t_deps t') = map d_task_index (t_deps t) \<and> t_residual_deps_num t' = t_residual_deps_num t \<and>
   length (t_deps t') = length (t_deps t) \<and> d_task_index ` set (t_deps t') = d_task_index ` set (t_deps t)"
  unfolding same_links_def by (metis length_map list.set_map)

lemma expand_old:
  assumes ok: "links_ok N ts" and st: "stage N N' ts ts1" and r: "r = length (body N ts)" and N': "N + r * b = N'" and c: "c < N"
    and t1: "same_links (ts ! c) t1"
  shows "\<exists>t2. update_links N r b ts1 t1 = Some t2 \<and> expanded N r b ts c t2"
proof -
  note D = links_okD [OF ok]
  note t = same_linksD [OF t1]
  have m: "t_is_marked t1 = t_is_marked (ts ! c)" using t copy_like_fields(4) by blast
  have s: "src N ts c = c" "branch_of N r c = 0" using c by (simp_all add: src_def branch_of_def)
  have "\<exists>ds. update_links N r b ts1 t1 = Some (t1\<lparr>t_dependents_indexes := spread N r b ts (t_is_marked t1) 0 (t_dependents_indexes t1),
      t_deps := ds, t_residual_deps_num := t_residual_deps_num t1 + int (length ds) - int (length (t_deps t1))\<rparr>) \<and>
    map d_task_index ds = spread N r b ts (t_is_marked t1) 0 (map d_task_index (t_deps t1))"
    by (rule update_links_ok [OF st _ _ N' r]) (use t D(2-5) [OF c] in simp_all)
  then show ?thesis using t m s by (auto simp: expanded_def Let_def intro!: copy_like_update)
qed

lemma expand_new:
  assumes ok: "links_ok N ts" and st: "stage N N' ts ts1" and r: "r = length (body N ts)" and N': "N + r * b = N'"
    and c: "N \<le> c" "c < N'" and t1: "same_links (ts ! src N ts c) t1"
  shows "\<exists>t2. relink_copy N r ts1 ((c - N) div r) t1 = Some t2 \<and> expanded N r b ts c t2"
proof -
  note D = links_okD [OF ok]
  note t = same_linksD [OF t1]
  have "c < N + r * b" using c(2) N' by simp
  note s = new_task_branch [OF c(1) this D(1) r]
  have m: "t_is_marked (ts ! src N ts c)" "branch_of N r c = Suc ((c - N) div r)" using s(2) c(1) by (simp_all add: branch_of_def)
  have "\<exists>ds. relink_copy N r ts1 ((c - N) div r) t1 = Some (t1\<lparr>t_dependents_indexes := spread N r b ts True (Suc ((c - N) div r)) (t_dependents_indexes t1), t_deps := ds\<rparr>) \<and>
    map d_task_index ds = spread N r b ts True (Suc ((c - N) div r)) (map d_task_index (t_deps t1))"
    by (rule relink_copy_ok [OF st _ _ N' r s(4)]) (use t D(4,5) [OF s(1)] in simp_all)
  then obtain ds where ds: "relink_copy N r ts1 ((c - N) div r) t1 = Some (t1\<lparr>t_dependents_indexes := spread N r b ts True (Suc ((c - N) div r)) (t_dependents_indexes t1), t_deps := ds\<rparr>)"
    "map d_task_index ds = spread N r b ts True (Suc ((c - N) div r)) (map d_task_index (t_deps t1))"
    by auto
  then have "length ds = length (t_deps t1)" by (metis length_map spread_def)
  then show ?thesis using t m ds by (auto simp: expanded_def Let_def intro!: copy_like_update)
qed

lemma expand_names:
  assumes ok: "links_ok N ts" and st: "stage N N' ts ts2" and r: "r = length (body N ts)" and N': "N + r * b = N'" and c: "c < N'" "branch_of N r c \<le> b"
    and t: "expanded N r b ts c t"
  shows "\<exists>t'. update_names N ts2 t = Some t' \<and> expanded N r b ts c t'"
proof -
  note D = links_okD [OF ok]
  have s: "src N ts c < N" by (rule src_bound [OF _ D(1) r, of c b]) (use c N' in simp)
  have "set (map d_task_index (t_deps t)) \<subseteq> {0..<int N'}"
    using spread_iff(1) [OF _ D(1) r c(2) N', of "map d_task_index (t_deps (ts ! src N ts c))"] D(5) [OF s] t by (simp add: expanded_def Let_def)
  then have "\<exists>ds. update_names N ts2 t = Some (t\<lparr>t_deps := ds\<rparr>) \<and> map d_task_index ds = map d_task_index (t_deps t)"
    by (intro update_names_ok [OF st]) simp
  then show ?thesis using expanded_deps [OF t] by blast
qed

lemma expand_body_ok:
  assumes ok: "links_ok N ts" and t: "\<forall>j < N. named (ts ! j) \<and> with_vars (ts ! j)" and r: "r = length (body N ts)" "0 < r" and b: "0 < b"
    and N': "N + r * b = N'"
  shows "\<exists>ts'. expand_body N r b ts = Some ts' \<and> length ts' = N' \<and> (\<forall>c < N'. expanded N r b ts c (ts' ! c))"
proof -
  note D = links_okD [OF ok]
  have le: "N \<le> N'" using N' by simp
  have "\<forall>x\<in>set (take N ts). \<exists>y. first_copy x = Some y \<and> same_links x y"
    using t D(1) first_copy_ok by (auto simp: in_set_conv_nth)
  then obtain old where old: "those (map first_copy (take N ts)) = Some old" "list_all2 same_links (take N ts) old"
    using those_map_ex by blast
  obtain new where new: "fill_copies b (filter t_is_marked (take N ts)) = Some new" "length new = r * b"
    "\<forall>c < r * b. same_links (ts ! src N ts (N + c)) (new ! c)"
    using fill_copies_ok [OF D(1) t r] by blast
  define ts1 where "ts1 = old @ new"
  have len: "length old = N" "length ts1 = N'" using old(2) new(2) D(1) N' by (auto simp: ts1_def dest: list_all2_lengthD)
  have oldc: "same_links (ts ! c) (old ! c)" if "c < N" for c
    using list_all2_nthD [OF old(2), of c] that D(1) by simp
  have c1: "same_links (ts ! src N ts c) (ts1 ! c)" if "c < N'" for c
    using oldc [of c] new(3) [rule_format, of "c - N"] that N' len(1) by (auto simp: ts1_def nth_append src_def)
  then have "named (ts1 ! c)" "t_is_marked (ts1 ! c) = t_is_marked (ts ! src N ts c)" if "c < N'" for c
    using that copy_like_fields(1,4) unfolding same_links_def by blast+
  then have st: "stage N N' ts ts1" using len(2) le D(1) by (auto simp: stage_def src_def named_def)
  have "\<forall>c\<in>set [0..<N]. \<exists>t2. update_links N r b ts1 (old ! c) = Some t2 \<and> expanded N r b ts c t2"
    using expand_old [OF ok st r(1) N'] oldc by simp
  moreover have "map (update_links N r b ts1) old = map (\<lambda>c. update_links N r b ts1 (old ! c)) [0..<N]"
    using len(1) by (simp add: list_eq_iff_nth_eq)
  ultimately obtain old2 where old2: "those (map (update_links N r b ts1) old) = Some old2" "list_all2 (expanded N r b ts) [0..<N] old2"
    using those_map_ex [of "[0..<N]" "\<lambda>c. update_links N r b ts1 (old ! c)" "expanded N r b ts"] by auto
  have "\<exists>t2. relink_copy N r ts1 (c div r) (new ! c) = Some t2 \<and> expanded N r b ts (N + c) t2" if "c < r * b" for c
    using expand_new [OF ok st r(1) N', of "N + c" "new ! c"] new(3) N' that by simp
  then obtain new2 where new2: "those (map (\<lambda>c. relink_copy N r ts1 (c div r) (new ! c)) [0..<r * b]) = Some new2"
    "list_all2 (\<lambda>c. expanded N r b ts (N + c)) [0..<r * b] new2"
    using those_map_ex [of "[0..<r * b]" "\<lambda>c. relink_copy N r ts1 (c div r) (new ! c)" "\<lambda>c. expanded N r b ts (N + c)"] by auto
  have len2: "length old2 = N" "length new2 = r * b" using old2(2) new2(2) by (auto dest: list_all2_lengthD)
  have e: "expanded N r b ts c ((old2 @ new2) ! c)" if "c < N'" for c
    using list_all2_nthD [OF old2(2), of c] list_all2_nthD [OF new2(2), of "c - N"] that N' len2 by (auto simp: nth_append)
  have st2: "stage N N' ts (old2 @ new2)" by (rule expanded_stage [OF _ le D(1)]) (use e len2 N' in auto)
  have "\<exists>t'. update_names N (old2 @ new2) (old2 ! c) = Some t' \<and> expanded N r b ts c t'" if "c < N" for c
    using expand_names [OF ok st2 r(1) N', of c "old2 ! c"] e [of c] le len2 that by (simp add: nth_append branch_of_def)
  then have "\<forall>c\<in>set [0..<N]. \<exists>t'. update_names N (old2 @ new2) (old2 ! c) = Some t' \<and> expanded N r b ts c t'" by simp
  moreover have "map (update_names N (old2 @ new2)) old2 = map (\<lambda>c. update_names N (old2 @ new2) (old2 ! c)) [0..<N]"
    using len2(1) by (simp add: list_eq_iff_nth_eq)
  ultimately obtain old3 where old3: "those (map (update_names N (old2 @ new2)) old2) = Some old3" "list_all2 (expanded N r b ts) [0..<N] old3"
    using those_map_ex [of "[0..<N]" "\<lambda>c. update_names N (old2 @ new2) (old2 ! c)" "expanded N r b ts"] by auto
  have "expand_body N r b ts = Some (old3 @ new2)"
    using old(1) new(1,2) old2(1) new2(1) old3(1) by (simp add: expand_body_def ts1_def)
  moreover have "length (old3 @ new2) = N'" using list_all2_lengthD [OF old3(2)] len2 N' by simp
  moreover have "expanded N r b ts c ((old3 @ new2) ! c)" if "c < N'" for c
    using e [OF that] list_all2_nthD [OF old3(2), of c] list_all2_lengthD [OF old3(2)] len2 by (auto simp: nth_append)
  ultimately show ?thesis by blast
qed

section \<open>The expanded graph\<close>

text \<open>A map of nodes that keeps the edges: paths are kept too, so that a graph over an acyclic one is acyclic.\<close>

locale graph_cover =
  fixes E' :: "('a \<times> 'a) set" and E :: "('b \<times> 'b) set" and f :: "'a \<Rightarrow> 'b"
  assumes cover: "(p, q) \<in> E' \<Longrightarrow> (f p, f q) \<in> E"
begin

lemma path: "(p, q) \<in> E'\<^sup>+ \<Longrightarrow> (f p, f q) \<in> E\<^sup>+"
  by (induction rule: trancl_induct) (auto intro: cover trancl_into_trancl)

lemma acyclic_cover: "acyclic E \<Longrightarrow> acyclic E'"
  using path by (auto simp: acyclic_def)

end

definition expanded_edges :: "nat \<Rightarrow> nat \<Rightarrow> nat \<Rightarrow> oph_workflow_task list \<Rightarrow> (nat \<times> nat) set" where
  "expanded_edges N r N' ts = {(p, q). p < N' \<and> q < N' \<and> (src N ts p, src N ts q) \<in> dag_edges N ts \<and>
     (t_is_marked (ts ! src N ts p) \<and> t_is_marked (ts ! src N ts q) \<longrightarrow> branch_of N r p = branch_of N r q)}"

lemma branch_le: "c < N + r * b \<Longrightarrow> N \<le> length ts \<Longrightarrow> r = length (body N ts) \<Longrightarrow> branch_of N r c \<le> b"
  using new_task_branch(4) [of N c r b ts] by (cases "c < N") (auto simp: branch_of_def)

lemma expanded_graph:
  assumes ok: "links_ok N ts" and r: "r = length (body N ts)" and N': "N + r * b = N'"
    and ts': "\<forall>c < N'. expanded N r b ts c (ts' ! c)" "N' \<le> length ts'"
  shows "links_ok N' ts'" and "dag_edges N' ts' = expanded_edges N r N' ts"
proof -
  note D = links_okD [OF ok]
  have s: "src N ts c < N" "branch_of N r c \<le> b" if "c < N'" for c
    using src_bound [OF _ D(1) r, of c b] branch_le [OF _ D(1) r, of c b] that N' by simp_all
  have e: "t_dependents_indexes (ts' ! c) = spread N r b ts (t_is_marked (ts ! src N ts c)) (branch_of N r c) (t_dependents_indexes (ts ! src N ts c))"
    "map d_task_index (t_deps (ts' ! c)) = spread N r b ts (t_is_marked (ts ! src N ts c)) (branch_of N r c) (map d_task_index (t_deps (ts ! src N ts c)))"
    if "c < N'" for c
    using ts'(1) that by (simp_all add: expanded_def Let_def)
  have D5: "set (map d_task_index (t_deps (ts ! src N ts c))) \<subseteq> {0..<int N}" if "c < N'" for c
    using D(5) [OF s(1) [OF that]] by simp
  have out: "int q \<in> set (t_dependents_indexes (ts' ! p)) \<longleftrightarrow> int (src N ts q) \<in> set (t_dependents_indexes (ts ! src N ts p)) \<and>
      (t_is_marked (ts ! src N ts p) \<and> t_is_marked (ts ! src N ts q) \<longrightarrow> branch_of N r q = branch_of N r p)" if "p < N'" "q < N'" for p q
    using spread_iff(2) [OF D(4) [OF s(1) [OF that(1)]] D(1) r s(2) [OF that(1)] N' that(2)] e(1) [OF that(1)] by simp
  have into: "int p \<in> set (map d_task_index (t_deps (ts' ! q))) \<longleftrightarrow> int (src N ts p) \<in> set (map d_task_index (t_deps (ts ! src N ts q))) \<and>
      (t_is_marked (ts ! src N ts q) \<and> t_is_marked (ts ! src N ts p) \<longrightarrow> branch_of N r p = branch_of N r q)" if "p < N'" "q < N'" for p q
    using spread_iff(2) [OF D5 [OF that(2)] D(1) r s(2) [OF that(2)] N' that(1)] e(2) [OF that(2)] by metis
  have range: "set (t_dependents_indexes (ts' ! c)) \<subseteq> {0..<int N'}" if "c < N'" for c
    using spread_iff(1) [OF D(4) [OF s(1) [OF that]] D(1) r s(2) [OF that] N'] e(1) [OF that] by simp
  show "links_ok N' ts'"
  proof (rule links_okI [OF ts'(2)])
    fix i assume i: "i < N'"
    show "distinct (t_dependents_indexes (ts' ! i)) \<and> distinct (map d_task_index (t_deps (ts' ! i)))"
      using distinct_spread [OF D(4) [OF s(1) [OF i]] D(1) r s(2) [OF i] D(2) [OF s(1) [OF i]]]
        distinct_spread [OF D5 [OF i] D(1) r s(2) [OF i] D(3) [OF s(1) [OF i]]] e [OF i] by simp
    show "set (t_dependents_indexes (ts' ! i)) \<subseteq> {0..<int N'} \<and> set (map d_task_index (t_deps (ts' ! i))) \<subseteq> {0..<int N'}"
      using range [OF i] spread_iff(1) [OF D5 [OF i] D(1) r s(2) [OF i] N'] e(2) [OF i] by metis
    fix p assume p: "p < N'"
    show "int i \<in> set (t_dependents_indexes (ts' ! p)) \<longleftrightarrow> int p \<in> set (map d_task_index (t_deps (ts' ! i)))"
      unfolding out [OF p i] into [OF p i] unfolding set_map D(6) [OF s(1) [OF i] s(1) [OF p]] by metis
  qed
  have bound: "q < N'" if "(p, q) \<in> dag_edges N' ts'" for p q using range [of p] that by (auto simp: dag_edges_def)
  have "(p, q) \<in> dag_edges N' ts' \<longleftrightarrow> (p, q) \<in> expanded_edges N r N' ts" if "p < N'" "q < N'" for p q
    using that s(1) [OF that(1)] by (simp add: dag_edges_def expanded_edges_def out [OF that] eq_commute [of "branch_of N r p"])
  moreover have "p < N' \<and> q < N'" if "(p, q) \<in> dag_edges N' ts' \<or> (p, q) \<in> expanded_edges N r N' ts" for p q
    using that bound [of p q] by (auto simp: dag_edges_def expanded_edges_def)
  ultimately show "dag_edges N' ts' = expanded_edges N r N' ts" by auto
qed

section \<open>The variable of the loop\<close>

definition var_added :: "oph_workflow_task \<Rightarrow> oph_workflow_task \<Rightarrow> bool" where
  "var_added t t' \<longleftrightarrow> (\<exists>h. hashtbl_ok h \<and> t' = t\<lparr>t_vars := Some h\<rparr>)"

lemma var_added_refl: "with_vars t \<Longrightarrow> var_added t t"
  by (cases t) (auto simp: var_added_def with_vars_def split: option.splits)

text \<open>What the loop over the marked tasks does when the name is new in all their environments.\<close>

definition var_bound :: "string \<Rightarrow> oph_workflow_var option \<Rightarrow> oph_workflow_task \<Rightarrow> oph_workflow_task \<Rightarrow> bool" where
  "var_bound name v t t' \<longleftrightarrow> (t_is_marked t \<longrightarrow> hashtbl_get (the (t_vars t')) = (hashtbl_get (the (t_vars t)))(name := v)) \<and>
     (\<not> t_is_marked t \<longrightarrow> t' = t)"

lemma add_vars_ok:
  assumes "\<forall>t\<in>set ts. with_vars t" and "\<forall>c < length ts. var (j + c) \<noteq> None"
  shows "\<exists>ts'. add_vars name var j ts = Some ts' \<and> list_all2 var_added ts ts' \<and>
    ((\<forall>t\<in>set ts. t_is_marked t \<longrightarrow> hashtbl_get (the (t_vars t)) name = None) \<longrightarrow>
     (\<forall>c < length ts. var_bound name (var (j + c)) (ts ! c) (ts' ! c)))"
  using assms
proof (induction ts arbitrary: j)
  case (Cons t ts)
  have "\<forall>c < length ts. var (Suc j + c) \<noteq> None" using Cons.prems(2) by (metis Suc_less_eq add_Suc_shift length_Cons)
  then obtain ts' where ts': "add_vars name var (Suc j) ts = Some ts'" "list_all2 var_added ts ts'"
    "(\<forall>t\<in>set ts. t_is_marked t \<longrightarrow> hashtbl_get (the (t_vars t)) name = None) \<longrightarrow>
     (\<forall>c < length ts. var_bound name (var (Suc j + c)) (ts ! c) (ts' ! c))"
    using Cons.IH [of "Suc j"] Cons.prems(1) by auto
  have shift: "\<forall>c < length (t # ts). var_bound name (var (j + c)) ((t # ts) ! c) ((t' # ts') ! c)"
    if "var_bound name (var j) t t'" "\<forall>c < length ts. var_bound name (var (Suc j + c)) (ts ! c) (ts' ! c)" for t'
    using that by (auto simp: less_Suc_eq_0_disj)
  obtain h v where h: "t_vars t = Some h" "hashtbl_ok h" "var j = Some v"
    using Cons.prems by (fastforce simp: with_vars_def split: option.splits)
  have refl: "list_all2 var_added (t # ts) (t # ts)"
    using Cons.prems(1) var_added_refl by (intro list.rel_refl_strong) auto
  show ?case
  proof (cases "t_is_marked t")
    case False
    then show ?thesis
      using ts' shift [of t] Cons.prems(1) by (auto simp: var_added_refl var_bound_def)
  next
    case True
    show ?thesis
    proof (cases "hashtbl_get h name")
      case None
      from insert_fresh [OF h(2) None] obtain h' where h': "hashtbl_insert_with_size h name v (var_size v) = (0, h')" "hashtbl_ok h'"
        "hashtbl_get h' = (hashtbl_get h)(name \<mapsto> v)" by metis
      then have "var_bound name (var j) t (t\<lparr>t_vars := Some h'\<rparr>)" using True h by (simp add: var_bound_def)
      moreover have "var_added t (t\<lparr>t_vars := Some h'\<rparr>)" using h'(2) by (auto simp: var_added_def)
      ultimately show ?thesis
        using True h h'(1) ts' shift [of "t\<lparr>t_vars := Some h'\<rparr>"] by auto
    next
      case (Some x)
      then have "add_vars name var j (t # ts) = Some (t # ts)" using True h by (simp add: insert_bound)
      then show ?thesis using refl Some True h(1) by auto
    qed
  qed
qed simp

lemma links_cong:
  assumes "\<forall>c < N. t_dependents_indexes (ts' ! c) = t_dependents_indexes (ts ! c) \<and> t_deps (ts' ! c) = t_deps (ts ! c)"
    and "N \<le> length ts" and "N \<le> length ts'"
  shows "links_ok N ts' \<longleftrightarrow> links_ok N ts" and "dag_edges N ts' = dag_edges N ts"
  using assms by (auto simp: links_ok_def dag_edges_def list_all_iff)

section \<open>One loop\<close>

text \<open>The tasks of the body of a loop, the source of a task after the expansion.\<close>

definition loop_body :: "oph_workflow \<Rightarrow> nat \<Rightarrow> nat set" where
  "loop_body w i = (let E = dag_edges (w_tasks_num w) (w_tasks w) in {j. (i, j) \<in> E\<^sup>+ \<and> (j, nat (t_child (w_tasks w ! i))) \<in> E\<^sup>+})"

definition source :: "nat \<Rightarrow> nat list \<Rightarrow> nat \<Rightarrow> nat" where
  "source N B c = (if c < N then c else B ! ((c - N) mod length B))"

lemma src_source: "src N ts = source N (body N ts)"
  by (simp add: fun_eq_iff src_def source_def)

lemma links_ok_indexes: "links_ok N ts \<Longrightarrow> indexes_ok N ts"
  using links_okD(1,4) [of N ts] by (auto simp: indexes_ok_def list_all_length subset_iff)

text \<open>A workflow whose loops can be expanded.\<close>

definition expandable :: "oph_workflow \<Rightarrow> bool" where
  [code_defs]: "expandable w \<longleftrightarrow> length (w_tasks w) = Suc (w_tasks_num w) \<and> links_ok (w_tasks_num w) (w_tasks w) \<and>
     list_all (\<lambda>t. named t \<and> with_vars t) (take (w_tasks_num w) (w_tasks w)) \<and> hashtbl_ok (w_vars w)"

lemma expandableD:
  assumes "expandable w"
  shows "length (w_tasks w) = Suc (w_tasks_num w)" and "links_ok (w_tasks_num w) (w_tasks w)" and "hashtbl_ok (w_vars w)"
    and "j < w_tasks_num w \<Longrightarrow> named (w_tasks w ! j) \<and> with_vars (w_tasks w ! j)"
  using assms by (auto simp: expandable_def list_all_length)

text \<open>Marks do not matter for the graph.\<close>

lemma unmark_all_fields:
  assumes "w_tasks_num w \<le> length (w_tasks w)"
  shows "w_tasks_num (unmark_all w) = w_tasks_num w" "length (w_tasks (unmark_all w)) = length (w_tasks w)" "w_vars (unmark_all w) = w_vars w"
    and "j < w_tasks_num w \<Longrightarrow> w_tasks (unmark_all w) ! j = (w_tasks w ! j)\<lparr>t_is_marked := False\<rparr>"
    and "w_tasks_num w \<le> j \<Longrightarrow> w_tasks (unmark_all w) ! j = w_tasks w ! j"
  using assms by (auto simp: unmark_all_def nth_append)

lemma loop_body_bound: "expandable w \<Longrightarrow> j \<in> loop_body w i \<Longrightarrow> j < w_tasks_num w"
  using expandableD(2) links_ok_indexes dag_edges_bound by (fastforce simp: loop_body_def Let_def dest: tranclD2)

lemma marked_body:
  assumes ex: "expandable w" and ac: "acyclic (dag_edges (w_tasks_num w) (w_tasks w))" and i: "i < w_tasks_num w"
    and c: "t_child (w_tasks w ! i) = int c" "c < w_tasks_num w"
  obtains ts1 where
    "oph_workflow_mark_children_of (w_tasks_num w + 2) (unmark_all w) (int i) (int i) = Some (OPH_WORKFLOW_EXIT_SUCCESS, w\<lparr>w_tasks := ts1\<rparr>)"
    and "length ts1 = Suc (w_tasks_num w)" and "ts1 ! w_tasks_num w = w_tasks w ! w_tasks_num w"
    and "\<forall>j < w_tasks_num w. ts1 ! j = (w_tasks w ! j)\<lparr>t_is_marked := j \<in> loop_body w i\<rparr>"
proof -
  let ?N = "w_tasks_num w" and ?u = "unmark_all w"
  note D = expandableD [OF ex]
  have N: "?N \<le> length (w_tasks w)" using D(1) by simp
  note u = unmark_all_fields [OF N]
  have g: "links_ok ?N (w_tasks ?u) = links_ok ?N (w_tasks w)" "dag_edges ?N (w_tasks ?u) = dag_edges ?N (w_tasks w)"
    by (rule links_cong; use N u in simp)+
  have "oph_workflow_mark_children_of (?N + 2) ?u (int i) (int i) = Some (OPH_WORKFLOW_EXIT_SUCCESS, on_tasks marked (loop_body w i) ?u)"
    using mark_children_marks [of ?u i c "?N + 2"] u(1,4) i c ac g D(2) links_ok_indexes by (simp add: loop_body_def Let_def)
  moreover have "on_tasks marked (loop_body w i) ?u = w\<lparr>w_tasks := w_tasks (on_tasks marked (loop_body w i) ?u)\<rparr>"
    by (simp add: on_tasks_def unmark_all_def)
  moreover have "j \<in> loop_body w i \<Longrightarrow> j < ?N" for j by (rule loop_body_bound [OF ex])
  moreover have "w_tasks (on_tasks marked (loop_body w i) ?u) ! j = (w_tasks w ! j)\<lparr>t_is_marked := j \<in> loop_body w i\<rparr>" if "j < ?N" for j
    using that u(2) u(4) [OF that] N by (simp add: marked_def)
  moreover have "w_tasks (on_tasks marked (loop_body w i) ?u) ! ?N = w_tasks w ! ?N"
    using u(2) u(5) [of ?N] D(1) calculation(3) [of ?N] by auto
  moreover have "length (w_tasks (on_tasks marked (loop_body w i) ?u)) = Suc ?N" using u(2) D(1) by simp
  ultimately show thesis using that [of "w_tasks (on_tasks marked (loop_body w i) ?u)"] by metis
qed

lemma expanded_none:
  assumes "named (ts ! c)" and "with_vars (ts ! c)" and "c < N"
  shows "expanded N r 0 ts c (ts ! c)"
proof -
  have "shift N r ts 0 = (\<lambda>d. d)" "copies_of N r 0 ts = (\<lambda>d. [])" by (simp_all add: shift_def copies_of_def fun_eq_iff)
  then have "spread N r 0 ts inside 0 D = D" for inside D by (simp add: spread_def)
  then show ?thesis using assms by (cases "ts ! c") (simp add: expanded_def Let_def copy_like_def src_def branch_of_def)
qed

lemma expanded_cong:
  assumes same: "\<forall>c < N. e ! c = ts ! c" and len: "N \<le> length e" "links_ok N ts" and s: "src N ts c < N"
  shows "expanded N r b e c t = expanded N r b ts c t"
proof -
  have N: "N \<le> length ts" using links_okD(1) [OF len(2)] .
  have "body N e = body N ts" using same by (auto simp: body_def intro!: filter_cong)
  then have "src N e c = src N ts c" by (simp add: src_def)
  moreover have ni: "new_index e d = new_index ts d" if "d < N" for d by (rule new_index_marks) (use same len N that in auto)
  have "spread N r b e inside k L = spread N r b ts inside k L" if L: "set L \<subseteq> {0..<int N}" for inside k L
  proof -
    have "shift N r e k d = shift N r ts k d \<and> copies_of N r b e d = copies_of N r b ts d" if "d \<in> set L" for d
    proof -
      have "nat d < N" using L that by (auto simp: subset_iff)
      then show ?thesis using same ni by (simp add: shift_def copies_of_def branch_task_def)
    qed
    then show ?thesis by (auto simp: spread_def intro!: arg_cong [of _ _ concat])
  qed
  ultimately show ?thesis
    using same s links_okD(4,5) [OF len(2) s] by (simp add: expanded_def Let_def)
qed

text \<open>The expansion of the marked tasks: the tasks before the variable is added, and after it.\<close>

lemma explode_run:
  assumes ex: "expandable w" and N: "N = w_tasks_num w" and r: "r = length (body N (w_tasks w))" "0 < r" and N': "N + r * b = N'"
    and var: "\<forall>k \<le> b. loop_var (int i) (map_option (map Some) svalues) ivalues k \<noteq> None"
  obtains ts' ts2 rest where
    "explode i name svalues ivalues r b w = Some ((if b = 0 then Par_Next else Par_Exploded) (w\<lparr>w_tasks := ts2 @ [w_tasks w ! N], w_tasks_num := N',
       w_residual_tasks_num := rest\<rparr>))"
    and "length ts' = N'" and "\<forall>c < N'. expanded N r b (w_tasks w) c (ts' ! c)" and "list_all2 var_added ts' ts2"
    and "(\<forall>t\<in>set ts'. t_is_marked t \<longrightarrow> hashtbl_get (the (t_vars t)) name = None) \<longrightarrow>
      (\<forall>c < N'. var_bound name (loop_var (int i) (map_option (map Some) svalues) ivalues (branch_of N r c)) (ts' ! c) (ts2 ! c))"
proof -
  let ?ts = "w_tasks w" and ?var = "\<lambda>j. loop_var (int i) (map_option (map Some) svalues) ivalues (branch_of N r j)"
  note D = expandableD [OF ex, folded N]
  have nv: "\<forall>j < N. named (?ts ! j) \<and> with_vars (?ts ! j)" using D(4) by blast
  have len: "length ?ts = Suc N" and NN: "N \<le> length ?ts" using D(1) by simp_all
  obtain ts' where ts': "length ts' = N'" "\<forall>c < N'. expanded N r b ?ts c (ts' ! c)"
    and run: "b = 0 \<Longrightarrow> ts' = take N ?ts" "0 < b \<Longrightarrow> expand_body N r b (take N ?ts @ replicate (r * b) zero_task @ [?ts ! N]) = Some ts'"
  proof (cases "b = 0")
    case True
    have "\<forall>c < N'. expanded N r b ?ts c (take N ?ts ! c)" using expanded_none nv True N' by simp
    then show ?thesis using that [of "take N ?ts"] True N' len by simp
  next
    case False
    let ?e = "take N ?ts @ replicate (r * b) zero_task @ [?ts ! N]"
    have same: "?e ! c = ?ts ! c" if "c < N" for c using that len by (simp add: nth_append)
    then have bd: "body N ?e = body N ?ts" by (auto simp: body_def intro!: filter_cong)
    have "links_ok N ?e" using links_cong(1) [of N ?e ?ts] D(2) same len by simp
    moreover have "\<forall>j < N. named (?e ! j) \<and> with_vars (?e ! j)" using nv same by simp
    ultimately obtain ts' where ts': "expand_body N r b ?e = Some ts'" "length ts' = N'" "\<forall>c < N'. expanded N r b ?e c (ts' ! c)"
      using expand_body_ok [of N ?e r b N'] bd r False N' by auto
    have "expanded N r b ?ts c (ts' ! c)" if c: "c < N'" for c
    proof -
      have "src N ?ts c < N" by (rule src_bound [OF _ NN r(1), of c b]) (use c N' in simp)
      moreover have "\<forall>c < N. ?e ! c = ?ts ! c" "N \<le> length ?e" using same len by simp_all
      ultimately show ?thesis using expanded_cong [OF _ _ D(2), of ?e c r b "ts' ! c"] ts'(3) c by blast
    qed
    then show ?thesis using that [of ts'] ts' False by simp
  qed
  have "with_vars t" if "t \<in> set ts'" for t
    using that ts' copy_like_fields(2) by (fastforce simp: in_set_conv_nth expanded_def Let_def)
  moreover have "?var c \<noteq> None" if "c < N'" for c using var branch_le [OF _ NN r(1), of c b] that N' by simp
  ultimately obtain ts2 where ts2: "add_vars name ?var 0 ts' = Some ts2" "list_all2 var_added ts' ts2"
    "(\<forall>t\<in>set ts'. t_is_marked t \<longrightarrow> hashtbl_get (the (t_vars t)) name = None) \<longrightarrow>
      (\<forall>c < N'. var_bound name (?var c) (ts' ! c) (ts2 ! c))"
    using add_vars_ok [of ts' ?var 0 name] ts'(1) by auto
  have "\<exists>rest. explode i name svalues ivalues r b w = Some ((if b = 0 then Par_Next else Par_Exploded) (w\<lparr>w_tasks := ts2 @ [?ts ! N], w_tasks_num := N',
       w_residual_tasks_num := rest\<rparr>))"
  proof (cases "b = 0")
    case True
    have "drop N ?ts = [?ts ! N]" using len by (metis Cons_nth_drop_Suc drop_all lessI order_refl)
    then show ?thesis using run(1) [OF True] ts2(1) True N N'
      by (intro exI [of _ "w_residual_tasks_num w"]) (simp add: explode_def Let_def)
  next
    case False
    then have b: "0 < b" by simp
    have "oph_workflow_expand w N' = Some (OPH_WORKFLOW_EXIT_SUCCESS,
        w\<lparr>w_tasks := take N ?ts @ replicate (r * b) zero_task @ [?ts ! N], w_tasks_num := N', w_residual_tasks_num := int N'\<rparr>)"
      using N N' len r(2) b by (auto simp: oph_workflow_expand_def)
    then show ?thesis
      using run(2) [OF b] ts2(1) b N N' len by (intro exI [of _ "int N'"]) (simp add: explode_def Let_def)
  qed
  then show thesis using that ts' ts2(2,3) by blast
qed

text \<open>A task after the expansion: another name, other links, marks and variables; everything else is that of its source.\<close>

definition derived :: "oph_workflow_task \<Rightarrow> oph_workflow_task \<Rightarrow> bool" where
  "derived s t \<longleftrightarrow> named t \<and> with_vars t \<and>
     t = s\<lparr>t_name := t_name t, t_deps := t_deps t, t_dependents_indexes := t_dependents_indexes t,
           t_residual_deps_num := t_residual_deps_num t, t_vars := t_vars t, t_is_marked := t_is_marked t\<rparr>"

lemma derived_fields:
  assumes "derived s t"
  shows "named t" "with_vars t" "t_operator t = t_operator s" "t_arguments t = t_arguments s" "t_child t = t_child s"
    and "t_nesting_level t = t_nesting_level s" "t_parallel_mode t = t_parallel_mode s" "t_massive_expansion t = t_massive_expansion s"
    and "t_light_tasks t = t_light_tasks s" "t_retry_num t = t_retry_num s" "t_status t = t_status s"
  using assms unfolding derived_def by (cases s; cases t; simp)+

lemma expanded_derived:
  assumes "copy_like (s\<lparr>t_is_marked := m\<rparr>) t" and "var_added t t'"
  shows "derived s t'"
  using assms unfolding copy_like_def var_added_def derived_def by (cases s; cases t; cases t') (auto simp: with_vars_def named_def)

lemma store_branches_ok:
  assumes "hashtbl_ok (w_vars w)"
  obtains vars where "store_branches name n w = (True, w\<lparr>w_vars := vars\<rparr>)" and "hashtbl_ok vars"
proof (cases "hashtbl_get (w_vars w) (take 23 (name @ ''_size''))")
  case None
  let ?v = "\<lparr>v_caller = - 1, v_svalue = show_int (int n), v_ivalue = 1\<rparr>"
  obtain h' where "hashtbl_insert_with_size (w_vars w) (take 23 (name @ ''_size'')) ?v (var_size ?v) = (0, h')" "hashtbl_ok h'"
    by (rule insert_fresh [OF assms None])
  then show thesis using that [of h'] None by (simp add: store_branches_def Let_def)
next
  case (Some v)
  then show thesis using that [of "w_vars w"] assms by (simp add: store_branches_def Let_def)
qed

text \<open>The sources of a loop body in order.\<close>

definition body_list :: "oph_workflow \<Rightarrow> nat \<Rightarrow> nat list" where
  "body_list w i = filter (\<lambda>j. j \<in> loop_body w i) [0..<w_tasks_num w]"

text \<open>The workflow after the expansion of the loop \<open>i\<close> to \<open>N'\<close> tasks.\<close>

definition unrolled :: "oph_workflow \<Rightarrow> nat \<Rightarrow> nat \<Rightarrow> oph_workflow \<Rightarrow> bool" where
  "unrolled w i N' w' \<longleftrightarrow>
     (let N = w_tasks_num w; s = source N (body_list w i); br = branch_of N (length (body_list w i)) in
      w_tasks_num w' = N' \<and> expandable w' \<and> (\<forall>p < N'. s p < N \<and> derived (w_tasks w ! s p) (w_tasks w' ! p)) \<and>
      dag_edges N' (w_tasks w') = {(p, q). p < N' \<and> q < N' \<and> (s p, s q) \<in> dag_edges N (w_tasks w) \<and>
        (s p \<in> loop_body w i \<and> s q \<in> loop_body w i \<longrightarrow> br p = br q)} \<and>
      (\<forall>p < N'. t_residual_deps_num (w_tasks w' ! p) - int (length (t_deps (w_tasks w' ! p))) =
        t_residual_deps_num (w_tasks w ! s p) - int (length (t_deps (w_tasks w ! s p)))))"

lemma unrolledI:
  assumes ex: "expandable w" and N: "N = w_tasks_num w"
    and ts1: "length ts1 = Suc N" "\<forall>j < N. ts1 ! j = (w_tasks w ! j)\<lparr>t_is_marked := j \<in> loop_body w i\<rparr>"
    and r: "r = length (body_list w i)" and N': "N + r * b = N'"
    and ts': "length ts' = N'" "\<forall>c < N'. expanded N r b ts1 c (ts' ! c)" "list_all2 var_added ts' ts2" and vars: "hashtbl_ok vars"
  shows "unrolled w i N' (w\<lparr>w_tasks := ts2 @ [x], w_tasks_num := N', w_residual_tasks_num := rest, w_vars := vars\<rparr>)"
proof -
  note D = expandableD [OF ex, folded N]
  have B: "body N ts1 = body_list w i" using ts1(2) by (auto simp: body_def body_list_def N intro!: filter_cong)
  have r1: "r = length (body N ts1)" using r B by simp
  have g: "links_ok N ts1 = links_ok N (w_tasks w)" "dag_edges N ts1 = dag_edges N (w_tasks w)"
    by (rule links_cong; use D(1) ts1 in simp)+
  have ok: "links_ok N ts1" using g D(2) by simp
  note G = expanded_graph [OF ok r1 N' ts'(2)]
  have len: "length ts2 = N'" using ts'(1,3) by (auto dest: list_all2_lengthD)
  have s: "source N (body_list w i) p < N" if "p < N'" for p
    using src_bound [OF _ _ r1, of p b] that N' ts1(1) by (simp add: src_source B)
  have v: "var_added (ts' ! p) (ts2 ! p)" if "p < N'" for p using list_all2_nthD [OF ts'(3)] that ts'(1) by simp
  have e: "expanded N r b ts1 p (ts' ! p)" if "p < N'" for p using ts'(2) that by simp
  have der: "derived (w_tasks w ! source N (body_list w i) p) (ts2 ! p)" if "p < N'" for p
  proof (rule expanded_derived [OF _ v [OF that]])
    show "copy_like ((w_tasks w ! source N (body_list w i) p)\<lparr>t_is_marked := source N (body_list w i) p \<in> loop_body w i\<rparr>) (ts' ! p)"
      using e [OF that] ts1(2) s [OF that] by (simp add: expanded_def Let_def src_source B)
  qed
  have same: "t_dependents_indexes (ts2 ! p) = t_dependents_indexes (ts' ! p)" "t_deps (ts2 ! p) = t_deps (ts' ! p)"
    "t_residual_deps_num (ts2 ! p) = t_residual_deps_num (ts' ! p)" if "p < N'" for p
    using v [OF that] by (auto simp: var_added_def)
  have g2: "links_ok N' (ts2 @ [x]) = links_ok N' ts'" "dag_edges N' (ts2 @ [x]) = dag_edges N' ts'"
    by (rule links_cong; use same ts'(1) len in \<open>simp add: nth_append\<close>)+
  have mk: "t_is_marked (ts1 ! src N ts1 p) = (source N (body_list w i) p \<in> loop_body w i)" if "p < N'" for p
    using ts1(2) s [OF that] by (simp add: src_source B)
  have "named (ts2 ! p) \<and> with_vars (ts2 ! p)" if "p < N'" for p using derived_fields(1,2) [OF der [OF that]] by simp
  then have "expandable (w\<lparr>w_tasks := ts2 @ [x], w_tasks_num := N', w_residual_tasks_num := rest, w_vars := vars\<rparr>)"
    using len g2(1) G(1) ts'(1) vars by (auto simp: expandable_def list_all_length)
  moreover have "dag_edges N' (ts2 @ [x]) = {(p, q). p < N' \<and> q < N' \<and> (source N (body_list w i) p, source N (body_list w i) q) \<in> dag_edges N (w_tasks w) \<and>
      (source N (body_list w i) p \<in> loop_body w i \<and> source N (body_list w i) q \<in> loop_body w i \<longrightarrow>
       branch_of N (length (body_list w i)) p = branch_of N (length (body_list w i)) q)}"
    using g2(2) G(2) ts'(1) mk r g(2) by (auto simp: expanded_edges_def src_source B)
  moreover have "t_residual_deps_num (ts2 ! p) - int (length (t_deps (ts2 ! p))) =
      t_residual_deps_num (w_tasks w ! source N (body_list w i) p) - int (length (t_deps (w_tasks w ! source N (body_list w i) p)))" if "p < N'" for p
    using e [OF that] same [OF that] ts1(2) s [OF that] by (simp add: expanded_def Let_def src_source B)
  ultimately show ?thesis using s der len unfolding unrolled_def Let_def N by (simp add: nth_append)
qed

text \<open>A loop without a body changes nothing but the marks.\<close>

lemma unrolled_empty:
  assumes ex: "expandable w" and ts: "length ts = Suc (w_tasks_num w)"
    "\<forall>j < w_tasks_num w. ts ! j = (w_tasks w ! j)\<lparr>t_is_marked := j \<in> loop_body w i\<rparr>"
    and B: "length (body_list w i) = 0"
  shows "unrolled w i (w_tasks_num w) (w\<lparr>w_tasks := ts\<rparr>)"
proof -
  let ?N = "w_tasks_num w"
  note D = expandableD [OF ex]
  have nv: "\<forall>j < ?N. named (ts ! j) \<and> with_vars (ts ! j)" using ts(2) D(4) by (simp add: named_def with_vars_def)
  have last: "take ?N ts @ [ts ! ?N] = ts" using ts(1) by (metis lessI take_Suc_conv_app_nth take_all order_refl)
  have "unrolled w i ?N (w\<lparr>w_tasks := take ?N ts @ [ts ! ?N], w_tasks_num := ?N, w_residual_tasks_num := w_residual_tasks_num w, w_vars := w_vars w\<rparr>)"
  proof (rule unrolledI [OF ex refl ts refl, of 0])
    show "\<forall>c < ?N. expanded ?N (length (body_list w i)) 0 ts c (take ?N ts ! c)" using expanded_none nv B by simp
    show "list_all2 var_added (take ?N ts) (take ?N ts)" using nv ts(1) var_added_refl by (auto simp: list_all2_conv_all_nth)
    show "hashtbl_ok (w_vars w)" by (rule D(3))
  qed (use B ts(1) in simp_all)
  moreover have "w\<lparr>w_tasks := ts, w_tasks_num := ?N, w_residual_tasks_num := w_residual_tasks_num w, w_vars := w_vars w\<rparr> = w\<lparr>w_tasks := ts\<rparr>"
    by (cases w) simp
  ultimately show ?thesis using last by simp
qed

text \<open>The environments before the variable is added are those of the sources.\<close>

lemma expanded_fresh:
  assumes ts: "length ts = Suc (w_tasks_num w)" "\<forall>j < w_tasks_num w. ts ! j = (w_tasks w ! j)\<lparr>t_is_marked := j \<in> loop_body w i\<rparr>"
    and ex: "\<forall>c < w_tasks_num w + length (body_list w i) * b. expanded (w_tasks_num w) (length (body_list w i)) b ts c (ts' ! c)"
    and len: "length ts' = w_tasks_num w + length (body_list w i) * b"
    and fresh: "\<forall>j \<in> loop_body w i. hashtbl_get (the (t_vars (w_tasks w ! j))) name = None"
  shows "\<forall>t\<in>set ts'. t_is_marked t \<longrightarrow> hashtbl_get (the (t_vars t)) name = None"
    and "p < length ts' \<Longrightarrow> t_is_marked (ts' ! p) = (source (w_tasks_num w) (body_list w i) p \<in> loop_body w i)"
proof -
  let ?N = "w_tasks_num w" and ?B = "body_list w i"
  have B: "body ?N ts = ?B" using ts(2) by (auto simp: body_def body_list_def intro!: filter_cong)
  have s: "source ?N ?B q < ?N" if "q < length ts'" for q
    using src_bound [of q ?N "length ?B" b ts, unfolded src_source B] that len ts(1) by simp
  have cl: "copy_like ((w_tasks w ! source ?N ?B q)\<lparr>t_is_marked := source ?N ?B q \<in> loop_body w i\<rparr>) (ts' ! q)" if q: "q < length ts'" for q
  proof -
    have "expanded ?N (length ?B) b ts q (ts' ! q)" using ex q len by simp
    then show ?thesis using ts(2) s [OF q] by (simp add: expanded_def Let_def src_source B)
  qed
  have f: "t_is_marked (ts' ! q) = (source ?N ?B q \<in> loop_body w i)"
    "hashtbl_get (the (t_vars (ts' ! q))) = hashtbl_get (the (t_vars (w_tasks w ! source ?N ?B q)))" if "q < length ts'" for q
    using copy_like_fields(3,4) [OF cl [OF that]] by simp_all
  then show "p < length ts' \<Longrightarrow> t_is_marked (ts' ! p) = (source ?N ?B p \<in> loop_body w i)" by blast
  show "\<forall>t\<in>set ts'. t_is_marked t \<longrightarrow> hashtbl_get (the (t_vars t)) name = None"
  proof (intro ballI impI)
    fix t assume "t \<in> set ts'" and m: "t_is_marked t"
    then obtain q where "q < length ts'" "t = ts' ! q" by (auto simp: in_set_conv_nth)
    then show "hashtbl_get (the (t_vars t)) name = None" using m f [of q] fresh by simp
  qed
qed

lemma par_expand_run:
  assumes ex: "expandable w" and ac: "acyclic (dag_edges (w_tasks_num w) (w_tasks w))" and i: "i < w_tasks_num w"
    and c: "t_child (w_tasks w ! i) = int c" "c < w_tasks_num w"
    and args: "par_args (t_arguments (w_tasks w ! i)) = Some (Inr (name, svalues, ivalues, n))"
    and var: "\<forall>k < n. loop_var (int i) (map_option (map Some) svalues) ivalues k \<noteq> None" "0 < n"
    and r: "r = length (body_list w i)" and N': "w_tasks_num w + r * (n - 1) = N'"
  obtains w' where "par_expand i w = Some ((if r = 0 \<or> n = 1 then Par_Next else Par_Exploded) w')" and "unrolled w i N' w'"
    and "(\<forall>j \<in> loop_body w i. hashtbl_get (the (t_vars (w_tasks w ! j))) name = None) \<longrightarrow>
      (\<forall>p < N'. source (w_tasks_num w) (body_list w i) p \<in> loop_body w i \<longrightarrow> hashtbl_get (the (t_vars (w_tasks w' ! p))) name =
        loop_var (int i) (map_option (map Some) svalues) ivalues (branch_of (w_tasks_num w) r p))"
proof -
  let ?N = "w_tasks_num w" and ?B = "body_list w i"
  note D = expandableD [OF ex]
  have NN: "?N \<le> length (w_tasks w)" using D(1) by simp
  obtain ts1 where m: "oph_workflow_mark_children_of (?N + 2) (unmark_all w) (int i) (int i) = Some (OPH_WORKFLOW_EXIT_SUCCESS, w\<lparr>w_tasks := ts1\<rparr>)"
    "length ts1 = Suc ?N" "ts1 ! ?N = w_tasks w ! ?N" "\<forall>j < ?N. ts1 ! j = (w_tasks w ! j)\<lparr>t_is_marked := j \<in> loop_body w i\<rparr>"
    by (rule marked_body [OF ex ac i c])
  have B: "body ?N ts1 = ?B" using m(4) by (auto simp: body_def body_list_def intro!: filter_cong)
  have r1: "length (filter t_is_marked (take ?N ts1)) = r" using body_tasks [of ?N ts1] m(2) B r by simp
  have nv: "\<forall>j < ?N. named (ts1 ! j) \<and> with_vars (ts1 ! j)" using m(4) D(4) by (simp add: named_def with_vars_def)
  show thesis
  proof (cases "r = 0")
    case True
    have "unrolled w i N' (w\<lparr>w_tasks := ts1\<rparr>)" using unrolled_empty [OF ex m(2,4)] True r N' by simp
    moreover have "par_expand i w = Some (Par_Next (w\<lparr>w_tasks := ts1\<rparr>))"
      using args m(1) r1 True by (simp add: par_expand_def Let_def)
    moreover have "source ?N ?B p \<notin> loop_body w i" if "p < N'" for p
      using that N' True r by (auto simp: source_def body_list_def filter_empty_conv)
    ultimately show thesis using that [of "w\<lparr>w_tasks := ts1\<rparr>"] True by auto
  next
    case False
    obtain vars where st: "store_branches name n (w\<lparr>w_tasks := ts1\<rparr>) = (True, w\<lparr>w_tasks := ts1, w_vars := vars\<rparr>)" "hashtbl_ok vars"
      using store_branches_ok [of "w\<lparr>w_tasks := ts1\<rparr>" name n] D(3) by auto
    let ?w2 = "w\<lparr>w_tasks := ts1, w_vars := vars\<rparr>"
    have "links_ok ?N ts1" using links_cong(1) [of ?N ts1 "w_tasks w"] D(2) NN m(2,4) by simp
    then have e2: "expandable ?w2" using m(2) nv st(2) by (auto simp: expandable_def list_all_length)
    have r2: "?N = w_tasks_num ?w2" "r = length (body ?N (w_tasks ?w2))" "0 < r" using B r False by simp_all
    have v2: "\<forall>k \<le> n - 1. loop_var (int i) (map_option (map Some) svalues) ivalues k \<noteq> None" using var by auto
    obtain ts' ts2 rest where run: "explode i name svalues ivalues r (n - 1) ?w2 = Some ((if n - 1 = 0 then Par_Next else Par_Exploded)
        (?w2\<lparr>w_tasks := ts2 @ [w_tasks ?w2 ! ?N], w_tasks_num := N', w_residual_tasks_num := rest\<rparr>))"
      and t: "length ts' = N'" "\<forall>c < N'. expanded ?N r (n - 1) (w_tasks ?w2) c (ts' ! c)" "list_all2 var_added ts' ts2"
      and bound: "(\<forall>t\<in>set ts'. t_is_marked t \<longrightarrow> hashtbl_get (the (t_vars t)) name = None) \<longrightarrow>
        (\<forall>c < N'. var_bound name (loop_var (int i) (map_option (map Some) svalues) ivalues (branch_of ?N r c)) (ts' ! c) (ts2 ! c))"
      by (rule explode_run [OF e2 r2 N' v2, of name])
    let ?w3 = "w\<lparr>w_tasks := ts2 @ [ts1 ! ?N], w_tasks_num := N', w_residual_tasks_num := rest, w_vars := vars\<rparr>"
    have "unrolled w i N' ?w3"
      by (rule unrolledI [OF ex refl m(2,4) r N' t(1) _ t(3) st(2)]) (use t(2) in simp)
    moreover have "par_expand i w = explode i name svalues ivalues r (n - 1) ?w2"
      using args m(1) r1 r2(3) st(1) by (auto simp: par_expand_def Let_def simp del: oph_workflow_mark_children_of.simps)
    then have "par_expand i w = Some ((if n = 1 then Par_Next else Par_Exploded) ?w3)" using run var(2) by simp
    moreover have "hashtbl_get (the (t_vars (ts2 ! p))) name = loop_var (int i) (map_option (map Some) svalues) ivalues (branch_of ?N r p)"
      if fresh: "\<forall>j \<in> loop_body w i. hashtbl_get (the (t_vars (w_tasks w ! j))) name = None" and p: "p < N'" "source ?N ?B p \<in> loop_body w i" for p
    proof -
      have e: "\<forall>c < ?N + length ?B * (n - 1). expanded ?N (length ?B) (n - 1) ts1 c (ts' ! c)" "length ts' = ?N + length ?B * (n - 1)"
        using t(1,2) N' r by simp_all
      have "var_bound name (loop_var (int i) (map_option (map Some) svalues) ivalues (branch_of ?N r p)) (ts' ! p) (ts2 ! p)"
        using bound expanded_fresh(1) [OF m(2,4) e fresh] p(1) by blast
      then show ?thesis using expanded_fresh(2) [OF m(2,4) e fresh, of p] p t(1) by (simp add: var_bound_def)
    qed
    ultimately show thesis
      using that [of ?w3] False t(1) list_all2_lengthD [OF t(3)] by (simp add: nth_append)
  qed
qed

lemma unrolledD:
  assumes "unrolled w i N' w'"
  shows "w_tasks_num w' = N'" and "expandable w'"
    and "p < N' \<Longrightarrow> source (w_tasks_num w) (body_list w i) p < w_tasks_num w"
    and "p < N' \<Longrightarrow> derived (w_tasks w ! source (w_tasks_num w) (body_list w i) p) (w_tasks w' ! p)"
    and "(p, q) \<in> dag_edges N' (w_tasks w') \<longleftrightarrow> p < N' \<and> q < N' \<and>
      (source (w_tasks_num w) (body_list w i) p, source (w_tasks_num w) (body_list w i) q) \<in> dag_edges (w_tasks_num w) (w_tasks w) \<and>
      (source (w_tasks_num w) (body_list w i) p \<in> loop_body w i \<and> source (w_tasks_num w) (body_list w i) q \<in> loop_body w i \<longrightarrow>
       branch_of (w_tasks_num w) (length (body_list w i)) p = branch_of (w_tasks_num w) (length (body_list w i)) q)"
    and "p < N' \<Longrightarrow> t_residual_deps_num (w_tasks w' ! p) - int (length (t_deps (w_tasks w' ! p))) =
      t_residual_deps_num (w_tasks w ! source (w_tasks_num w) (body_list w i) p) -
      int (length (t_deps (w_tasks w ! source (w_tasks_num w) (body_list w i) p)))"
  using assms unfolding unrolled_def Let_def by blast+

text \<open>The graph of the expanded workflow lies over the one before.\<close>

definition unrolled_edges :: "oph_workflow \<Rightarrow> nat \<Rightarrow> nat \<Rightarrow> (nat \<times> nat) set" where
  "unrolled_edges w i N' = {(p, q). p < N' \<and> q < N' \<and>
     (source (w_tasks_num w) (body_list w i) p, source (w_tasks_num w) (body_list w i) q) \<in> dag_edges (w_tasks_num w) (w_tasks w)}"

interpretation ucover: graph_cover "unrolled_edges w i N'" "dag_edges (w_tasks_num w) (w_tasks w)" "source (w_tasks_num w) (body_list w i)" for w i N'
  by unfold_locales (simp add: unrolled_edges_def)

lemma unrolled_cover:
  assumes "unrolled w i N' w'"
  shows "dag_edges N' (w_tasks w') \<subseteq> unrolled_edges w i N'"
proof (rule subrelI)
  fix p q assume "(p, q) \<in> dag_edges N' (w_tasks w')"
  then show "(p, q) \<in> unrolled_edges w i N'" unfolding unrolledD(5) [OF assms] unrolled_edges_def by blast
qed

lemma unrolled_acyclic: "unrolled w i N' w' \<Longrightarrow> acyclic (dag_edges (w_tasks_num w) (w_tasks w)) \<Longrightarrow> acyclic (dag_edges N' (w_tasks w'))"
  by (rule acyclic_subset [OF ucover.acyclic_cover unrolled_cover])

section \<open>Properties\<close>

text \<open>
  C6: the expansion of a parallel loop with at least two values and a body is defined and replaces the body by one copy per value. Every task of the new
  workflow has a source among the tasks before: the tasks that were there are their own sources, and the new tasks are the tasks of the body, in
  order, once per additional branch. A task depends on another one exactly if their sources do and, when both are in the body, they belong to
  the same branch; the workflow stays acyclic and its links consistent, every task waits for all its dependencies, and the variable of the loop has in
  the environment of a task of the body the value of the branch.\<close>

theorem parallel_loop_expansion:
  assumes "expandable w" and "acyclic (dag_edges (w_tasks_num w) (w_tasks w))" and "i < w_tasks_num w"
    and "t_child (w_tasks w ! i) = int c" and "c < w_tasks_num w" and "loop_body w i \<noteq> {}"
    and "par_args (t_arguments (w_tasks w ! i)) = Some (Inr (name, svalues, ivalues, n))" and "2 \<le> n"
    and "\<forall>k < n. loop_var (int i) (map_option (map Some) svalues) ivalues k \<noteq> None"
    and "\<forall>j \<in> loop_body w i. hashtbl_get (the (t_vars (w_tasks w ! j))) name = None"
  shows "let N = w_tasks_num w; r = length (body_list w i); N' = N + r * (n - 1); s = source N (body_list w i); br = branch_of N r in
    \<exists>w'. par_expand i w = Some (Par_Exploded w') \<and> w_tasks_num w' = N' \<and> expandable w' \<and> acyclic (dag_edges N' (w_tasks w')) \<and>
      (\<forall>p < N'. \<forall>q < N'. (p, q) \<in> dag_edges N' (w_tasks w') \<longleftrightarrow>
        (s p, s q) \<in> dag_edges N (w_tasks w) \<and> (s p \<in> loop_body w i \<and> s q \<in> loop_body w i \<longrightarrow> br p = br q)) \<and>
      (\<forall>p < N'. derived (w_tasks w ! s p) (w_tasks w' ! p) \<and>
        (t_residual_deps_num (w_tasks w ! s p) = int (length (t_deps (w_tasks w ! s p))) \<longrightarrow>
         t_residual_deps_num (w_tasks w' ! p) = int (length (t_deps (w_tasks w' ! p)))) \<and>
        (s p \<in> loop_body w i \<longrightarrow> hashtbl_get (the (t_vars (w_tasks w' ! p))) name =
          loop_var (int i) (map_option (map Some) svalues) ivalues (br p)))"
proof -
  have n: "0 < n" using assms(8) by simp
  obtain w' where w': "par_expand i w = Some ((if length (body_list w i) = 0 \<or> n = 1 then Par_Next else Par_Exploded) w')"
    "unrolled w i (w_tasks_num w + length (body_list w i) * (n - 1)) w'"
    "(\<forall>j \<in> loop_body w i. hashtbl_get (the (t_vars (w_tasks w ! j))) name = None) \<longrightarrow>
      (\<forall>p < w_tasks_num w + length (body_list w i) * (n - 1). source (w_tasks_num w) (body_list w i) p \<in> loop_body w i \<longrightarrow>
        hashtbl_get (the (t_vars (w_tasks w' ! p))) name =
        loop_var (int i) (map_option (map Some) svalues) ivalues (branch_of (w_tasks_num w) (length (body_list w i)) p))"
    by (rule par_expand_run [OF assms(1-5,7,9) n refl refl])
  have "body_list w i \<noteq> []" using loop_body_bound [OF assms(1)] assms(6) by (auto simp: body_list_def filter_empty_conv)
  then have "par_expand i w = Some (Par_Exploded w')" using w'(1) assms(8) by simp
  moreover note U = unrolledD [OF w'(2)]
  moreover have "t_residual_deps_num (w_tasks w' ! p) = int (length (t_deps (w_tasks w' ! p)))"
    if "p < w_tasks_num w + length (body_list w i) * (n - 1)" "t_residual_deps_num (w_tasks w ! source (w_tasks_num w) (body_list w i) p) =
      int (length (t_deps (w_tasks w ! source (w_tasks_num w) (body_list w i) p)))" for p
    using U(6) [OF that(1)] that(2) by simp
  ultimately show ?thesis
    using w'(3) assms(10) unrolled_acyclic [OF w'(2) assms(2)] unfolding Let_def by (intro exI [of _ w']) (simp add: U(5))
qed

definition par_demo :: oph_workflow where
  [code_defs]: "par_demo = empty_workflow
     \<lparr>w_tasks := [zero_task\<lparr>t_name := Some ''F'', t_operator := Some ''oph_for'', t_arguments := [plain_arg ''key'' ''i'', plain_arg ''values'' ''x|y'',
          plain_arg ''parallel'' ''yes''], t_dependents_indexes := [1], t_child := 2, t_vars := Some (hashtbl_create 3 None)\<rparr>,
        zero_task\<lparr>t_name := Some ''A'', t_operator := Some ''oph_reduce'', t_deps := [(demo_dep ''F'')\<lparr>d_task_index := 0\<rparr>],
          t_residual_deps_num := 1, t_dependents_indexes := [2], t_vars := Some (hashtbl_create 3 None)\<rparr>,
        zero_task\<lparr>t_name := Some ''E'', t_operator := Some ''oph_endfor'', t_deps := [(demo_dep ''A'')\<lparr>d_task_index := 1\<rparr>],
          t_residual_deps_num := 1, t_vars := Some (hashtbl_create 3 None)\<rparr>, zero_task],
      w_tasks_num := 3, w_residual_tasks_num := 3\<rparr>"

lemma par_demo_graph:
  "w_tasks_num par_demo = 3" "expandable par_demo" "dag_edges 3 (w_tasks par_demo) = {(0, 1), (1, 2)}" "t_child (w_tasks par_demo ! 0) = 2"
  "par_args (t_arguments (w_tasks par_demo ! 0)) = Some (Inr (''i'', Some [''x'', ''y''], None, 2))"
proof -
  show n: "w_tasks_num par_demo = 3" and "t_child (w_tasks par_demo ! 0) = 2" by (simp_all add: code_defs)
  have three: "p < 3 \<longleftrightarrow> p = 0 \<or> p = 1 \<or> p = 2" for p :: nat by auto
  have d: "t_dependents_indexes (w_tasks par_demo ! 0) = [1]" "t_dependents_indexes (w_tasks par_demo ! 1) = [2]"
    "t_dependents_indexes (w_tasks par_demo ! 2) = []" by (simp_all add: code_defs)
  then show "dag_edges 3 (w_tasks par_demo) = {(0, 1), (1, 2)}" by (auto simp: dag_edges_def three)
  have h: "hashtbl_ok (hashtbl_create 3 None)" by (rule hashtbl_ok_create) simp
  then show "expandable par_demo"
    by (simp add: expandable_def par_demo_def empty_workflow_def links_ok_def named_def with_vars_def zero_task_def demo_dep_def upt_rec)
  show "par_args (t_arguments (w_tasks par_demo ! 0)) = Some (Inr (''i'', Some [''x'', ''y''], None, 2))" by code_simp
qed

lemma par_demo_body: "loop_body par_demo 0 = {1}" "body_list par_demo 0 = [1]" "acyclic (dag_edges 3 (w_tasks par_demo))"
proof -
  have t: "({(0, 1), (1, 2)} :: (nat \<times> nat) set)\<^sup>+ = {(0, 1), (1, 2), (0, 2)}"
  proof
    have "trans ({(0, 1), (1, 2), (0, 2)} :: (nat \<times> nat) set)" by (auto simp: trans_def)
    then show "({(0, 1), (1, 2)} :: (nat \<times> nat) set)\<^sup>+ \<subseteq> {(0, 1), (1, 2), (0, 2)}"
      by (metis insertI1 insert_subset subsetI trancl_id trancl_mono_subset insertCI empty_subsetI)
    have "(0, 1) \<in> ({(0, 1), (1, 2)} :: (nat \<times> nat) set)\<^sup>+" by auto
    then have "(0, 2) \<in> ({(0, 1), (1, 2)} :: (nat \<times> nat) set)\<^sup>+" by (rule trancl_into_trancl) simp
    then show "{(0, 1), (1, 2), (0, 2)} \<subseteq> ({(0, 1), (1, 2)} :: (nat \<times> nat) set)\<^sup>+" by auto
  qed
  show b: "loop_body par_demo 0 = {1}"
    by (simp add: loop_body_def Let_def par_demo_graph t del: One_nat_def) auto
  show "body_list par_demo 0 = [1]" by (simp add: body_list_def b par_demo_graph upt_rec)
  show "acyclic (dag_edges 3 (w_tasks par_demo))" by (simp add: par_demo_graph acyclic_def t del: One_nat_def) auto
qed

theorem parallel_loop_expansion_witness:
  "\<exists>w'. par_expand 0 par_demo = Some (Par_Exploded w') \<and> w_tasks_num w' = 4 \<and> (3, 2) \<in> dag_edges 4 (w_tasks w') \<and>
     (1, 3) \<notin> dag_edges 4 (w_tasks w') \<and>
     hashtbl_get (the (t_vars (w_tasks w' ! 3))) ''i'' = Some \<lparr>v_caller = 0, v_svalue = ''y'', v_ivalue = 2\<rparr>"
proof -
  have "\<forall>k < 2. loop_var (int 0) (map_option (map Some) (Some [''x'', ''y''])) None k \<noteq> None"
    by (auto simp: loop_var_def less_2_cases_iff)
  moreover have "hashtbl_get (the (t_vars (w_tasks par_demo ! 1))) ''i'' = None" by code_simp
  moreover have "source 3 [1] p = (if p < 3 then p else 1)" "branch_of 3 1 3 = 1" for p by (simp_all add: source_def branch_of_def)
  moreover have "loop_var 0 (Some [Some ''x'', Some ''y'']) None 1 = Some \<lparr>v_caller = 0, v_svalue = ''y'', v_ivalue = 2\<rparr>"
    by (simp add: loop_var_def)
  ultimately show ?thesis
    using parallel_loop_expansion [of par_demo 0 2 "''i''" "Some [''x'', ''y'']" None 2] par_demo_graph par_demo_body
    by (auto simp: Let_def)
qed

end
