(* ===== verification/Workflow_Parsing.thy ===== *)
theory Workflow_Parsing
  imports Workflow_Notify
begin

text \<open>
  Reading and writing the request of a workflow (\<^verbatim>\<open>src/src/oph_workflow/oph_workflow_parsing.c\<close>). The JSON library is a parameter: what its calls
  answer about a request is the record \<open>request_doc\<close>, the text of a document is read and written by the functions of \<open>parsing_env\<close>.
\<close>

section \<open>A request\<close>

text \<open>
  The strings that \<open>json_unpack\<close> stores for the keys of an object; a key that is missing, or not reached because a value before it is no string,
  stores nothing. An array is the list of its elements, of length \<open>json_array_size\<close>; an argument that is no string is \<open>None\<close>.
\<close>

type_synonym json_strings = "string \<rightharpoonup> string"

record task_doc =
  td_strings :: json_strings
  td_arguments :: "string option list option"
  td_dependencies :: "json_strings list option"
  td_variables :: "json_strings list option"

record request_doc =
  rd_strings :: json_strings
  rd_tasks :: "task_doc list option"

record parsing_env =
  json_loads :: "string \<Rightarrow> request_doc option"
  json_dumps :: "request_doc \<Rightarrow> string option"
  oph_base_backoff :: int
  oph_direct_output :: bool

section \<open>Comments\<close>

text \<open>
  One character of \<open>oph_workflow_skip_comments\<close>: whether it is within a value, the flag (1 after a slash, 2 in a block comment, 3 after a star there,
  4 in a line comment) and the text so far.
\<close>

definition comment_step :: "char option \<Rightarrow> char \<Rightarrow> bool \<times> nat \<times> string \<Rightarrow> bool \<times> nat \<times> string" where
  [code_defs]: "comment_step prev c st =
     (case st of (invalue, flag, out) \<Rightarrow>
      let invalue = (if c = CHR 0x22 \<and> prev \<noteq> Some CHR 0x5C then \<not> invalue else invalue) in
      if invalue then (invalue, flag, if flag < 2 then out @ [c] else out)
      else if c = CHR ''/'' then
        (if flag = 0 then (invalue, 1, out @ [c])
         else if flag = 1 then (invalue, 4, butlast out)
         else if flag = 3 then (invalue, 0, out)
         else (invalue, flag, out))
      else if c = CHR ''*'' then
        (if flag = 1 then (invalue, 2, butlast out)
         else if flag = 2 then (invalue, 3, out)
         else if flag = 3 then (invalue, 2, out)
         else (invalue, flag, if flag < 2 then out @ [c] else out))
      else if c = CHR 0x0A then
        (if flag = 1 \<or> flag = 4 then (invalue, 0, out @ [c])
         else if flag = 2 then (invalue, 2, out @ [c])
         else if flag = 3 then (invalue, 2, out)
         else (invalue, flag, if flag < 2 then out @ [c] else out))
      else
        (if flag = 1 then (invalue, 0, out @ [c])
         else if flag = 3 then (invalue, 2, out)
         else (invalue, flag, if flag < 2 then out @ [c] else out)))"

fun comment_loop :: "char option \<Rightarrow> string \<Rightarrow> bool \<times> nat \<times> string \<Rightarrow> bool \<times> nat \<times> string" where
  "comment_loop prev [] st = st"
| "comment_loop prev (c # s) st = comment_loop (Some c) s (comment_step prev c st)"

definition oph_workflow_skip_comments :: "string \<Rightarrow> string option" where
  [code_defs]: "oph_workflow_skip_comments json_string =
     (case comment_loop None json_string (False, 0, []) of
        (_, flag, out) \<Rightarrow> if flag \<noteq> 0 then None else Some out)"

section \<open>Global values\<close>

definition oph_workflow_alloc :: oph_workflow where
  [code_defs]: "oph_workflow_alloc =
     empty_workflow\<lparr>w_idjob := - 1, w_markerid := - 1, w_status := 1, w_workflowid := - 1, w_run := True, w_tasks := [], w_tasks_num := 0\<rparr>"

definition filled :: "json_strings \<Rightarrow> string \<Rightarrow> string option" where
  [code_defs]: "filled m key = (case m key of Some (c # s) \<Rightarrow> Some (c # s) | _ \<Rightarrow> None)"

text \<open>A flag with the default yes; \<open>None\<close> is a wrong value.\<close>

definition yes_no :: "bool \<Rightarrow> string option \<Rightarrow> bool option" where
  [code_defs]: "yes_no preset v =
     (case v of
        None \<Rightarrow> Some preset
      | Some s \<Rightarrow> if s = [] then Some preset else if s = ''no'' then Some False else if s = ''yes'' then Some True else None)"

definition bad_checkpoint :: "string \<Rightarrow> bool" where
  [code_defs]: "bad_checkpoint s \<longleftrightarrow> s = ''no'' \<or> s = ''all'' \<or> s = ''last''"

definition opt_int :: "string option \<Rightarrow> int" where
  [code_defs]: "opt_int v = (case v of None \<Rightarrow> 0 | Some s \<Rightarrow> to_int s)"

definition output_format :: "string option \<Rightarrow> int option" where
  [code_defs]: "output_format v =
     (case v of
        None \<Rightarrow> Some 0
      | Some s \<Rightarrow> if s = [] \<or> s = ''classic'' then Some 0 else if s = ''compact'' then Some 1 else None)"

definition load_globals :: "parsing_env \<Rightarrow> string \<Rightarrow> string option \<Rightarrow> json_strings \<Rightarrow> wf_code + oph_workflow" where
  [code_defs]: "load_globals env username ip_address m =
     (case m ''name'' of
        None \<Rightarrow> Inl OPH_WORKFLOW_EXIT_BAD_PARAM_ERROR
      | Some name \<Rightarrow>
          if (case filled m ''checkpoint'' of None \<Rightarrow> False | Some s \<Rightarrow> bad_checkpoint s) then Inl OPH_WORKFLOW_EXIT_BAD_PARAM_ERROR
          else
          (case (yes_no True (m ''run''), yes_no True (m ''save''), output_format (m ''output_format''), yes_no (oph_direct_output env) (m ''direct_output'')) of
             (Some run, Some save, Some format, Some direct) \<Rightarrow>
               Inr (oph_workflow_alloc
                 \<lparr>w_username := Some username, w_ip_address := ip_address, w_name := Some name, w_author := filled m ''author'',
                  w_abstract := filled m ''abstract'', w_url := filled m ''url'', w_sessionid := filled m ''sessionid'',
                  w_exec_mode := filled m ''exec_mode'', w_ncores := opt_int (m ''ncores''), w_nhosts := opt_int (m ''nhost''),
                  w_nthreads := opt_int (m ''nthreads''), w_project := filled m ''project'', w_cwd := filled m ''cwd'', w_cdd := filled m ''cdd'',
                  w_cube := filled m ''cube'', w_callback_url := filled m ''callback_url'', w_command := filled m ''command'',
                  w_on_error := filled m ''on_error'', w_on_exit := filled m ''on_exit'', w_checkpoint := filled m ''checkpoint'',
                  w_run := run, w_save := save, w_output_format := format, w_direct_output := direct,
                  w_host_partition := filled m ''host_partition''\<rparr>)
           | _ \<Rightarrow> Inl OPH_WORKFLOW_EXIT_BAD_PARAM_ERROR))"

section \<open>One task\<close>

text \<open>The type of a task, with the operators that a task of type \<open>control\<close> may have.\<close>

definition control_operators :: "string list" where
  [code_defs]: "control_operators =
     [OPH_OPERATOR_FOR, OPH_OPERATOR_ENDFOR, OPH_OPERATOR_IF, OPH_OPERATOR_ELSEIF, OPH_OPERATOR_ELSE, OPH_OPERATOR_ENDIF, ''oph_wait'', ''oph_set'']"

definition load_type :: "string \<Rightarrow> string option \<Rightarrow> wf_code + string" where
  [code_defs]: "load_type operator type =
     (case type of
        None \<Rightarrow> Inr ''ophidia''
      | Some ty \<Rightarrow>
          if ty \<notin> set [''ophidia'', ''cdo'', ''generic'', ''control''] then Inl OPH_WORKFLOW_EXIT_BAD_PARAM_ERROR
          else if ty = ''control'' \<and> ''oph_'' @ operator \<notin> set control_operators then Inl OPH_WORKFLOW_EXIT_BAD_PARAM_ERROR
          else Inr ty)"

text \<open>An argument of a task.\<close>

definition load_argument :: "string \<Rightarrow> (wf_code + oph_workflow_arg) option" where
  [code_defs]: "load_argument s =
     (if CHR ''='' \<notin> set s then Some (Inl OPH_WORKFLOW_EXIT_BAD_PARAM_ERROR)
      else Some (Inr (plain_arg (takeWhile (\<lambda>c. c \<noteq> CHR ''='') s) (tl (dropWhile (\<lambda>c. c \<noteq> CHR ''='') s)))))"

text \<open>
  The arguments that are strings. One that is no string leaves a null key, which the comparisons of the keys read once all tasks are loaded.
\<close>

definition arguments_of :: "task_doc \<Rightarrow> string list" where
  [code_defs]: "arguments_of td = (case td_arguments td of None \<Rightarrow> [] | Some vs \<Rightarrow> map the (filter (\<lambda>v. v \<noteq> None) vs))"

definition null_key :: "task_doc \<Rightarrow> bool" where
  [code_defs]: "null_key td \<longleftrightarrow> (case td_arguments td of None \<Rightarrow> False | Some vs \<Rightarrow> None \<in> set vs)"

definition preset :: "string \<Rightarrow> string option \<Rightarrow> string option" where
  [code_defs]: "preset d v = Some (case v of None \<Rightarrow> d | Some s \<Rightarrow> s)"

text \<open>The dependencies; those without an order are numbered.\<close>

fun load_deps :: "nat \<Rightarrow> json_strings list \<Rightarrow> wf_code + oph_workflow_dep list" where
  "load_deps auto_order [] = Inr []"
| "load_deps auto_order (m # ms) =
     (if m ''task'' = None then Inl OPH_WORKFLOW_EXIT_BAD_PARAM_ERROR
      else if (case m ''type'' of None \<Rightarrow> False | Some ty \<Rightarrow> ty \<notin> set [''all'', ''single'', ''embedded'']) then Inl OPH_WORKFLOW_EXIT_BAD_PARAM_ERROR
      else
      (case load_deps (if m ''order'' = None then Suc auto_order else auto_order) ms of
         Inl e \<Rightarrow> Inl e
       | Inr ds \<Rightarrow>
           Inr (\<lparr>d_argument = preset ''cube'' (m ''argument''), d_order = preset (show_nat auto_order) (m ''order''), d_task_name = m ''task'',
                 d_task_index = 0, d_type = preset (if m ''argument'' = None then ''embedded'' else ''all'') (m ''type''),
                 d_filter = preset ''all'' (m ''filter''), d_output_argument = preset ''cube'' (m ''output_argument''),
                 d_output_order = preset ''0'' (m ''output_order'')\<rparr> # ds)))"

text \<open>The variables of a task; the first one that exists already ends the loop.\<close>

fun load_vars :: "nat \<Rightarrow> json_strings list \<Rightarrow> oph_workflow_var hashtbl \<Rightarrow> oph_workflow_var hashtbl" where
  "load_vars i [] vars = vars"
| "load_vars i (m # ms) vars =
     (case m ''key'' of
        None \<Rightarrow> load_vars i ms vars
      | Some key \<Rightarrow>
          (let ivalue = (case m ''ivalue'' of None \<Rightarrow> 1 | Some s \<Rightarrow> to_int s);
               var = \<lparr>v_caller = int i, v_svalue = (case m ''svalue'' of None \<Rightarrow> show_int ivalue | Some s \<Rightarrow> s), v_ivalue = ivalue\<rparr> in
           case hashtbl_insert_with_size vars key var (var_size var) of
             (rc, vars) \<Rightarrow> if rc \<noteq> 0 then vars else load_vars i ms vars))"

text \<open>The back-off time and type after the number of the retries.\<close>

definition retry_backoff :: "int \<Rightarrow> string \<Rightarrow> int \<times> char" where
  [code_defs]: "retry_backoff base s =
     (let space = dropWhile (\<lambda>c. c \<noteq> CHR '' '') (dropWhile (\<lambda>c. c = CHR '' '') s) in
      if space = [] then (base, CHR 0x00)
      else
      (let time = dropWhile (\<lambda>c. c = CHR '' '') space; space = dropWhile (\<lambda>c. c \<noteq> CHR '' '') time in
       (to_int time, case dropWhile (\<lambda>c. c = CHR '' '') space of [] \<Rightarrow> CHR 0x00 | c # _ \<Rightarrow> c)))"

text \<open>What to do at an error: the number of attempts, the back-off time and type; \<open>None\<close> is the overflow of a number.\<close>

definition error_policy :: "int \<Rightarrow> string option \<Rightarrow> (wf_code + int \<times> int \<times> char) option" where
  [code_defs]: "error_policy base v =
     (case v of
        None \<Rightarrow> Some (Inr (1, base, CHR 0x00))
      | Some s \<Rightarrow>
          if s = ''skip'' then Some (Inr (- 1, base, CHR 0x00))
          else if s = ''continue'' then Some (Inr (0, base, CHR 0x00))
          else if s = ''break'' \<or> s = ''abort'' then Some (Inr (1, base, CHR 0x00))
          else if take 6 s = ''repeat'' then
            (if to_int (drop 6 s) = 2147483647 then None
             else if 1 + to_int (drop 6 s) < 1 then Some (Inl OPH_WORKFLOW_EXIT_BAD_PARAM_ERROR)
             else Some (Inr (1 + to_int (drop 6 s), retry_backoff base (drop 6 s))))
          else Some (Inl OPH_WORKFLOW_EXIT_BAD_PARAM_ERROR))"

definition exit_policy :: "string option \<Rightarrow> wf_code + int" where
  [code_defs]: "exit_policy v =
     (case v of
        None \<Rightarrow> Inr 0
      | Some s \<Rightarrow>
          if s = [] \<or> s = ''nop'' then Inr 0
          else if s = ''oph_delete'' then Inr 1
          else if s = ''oph_deletecontainer'' then Inr 2
          else Inl OPH_WORKFLOW_EXIT_BAD_PARAM_ERROR)"

definition or_else :: "string option \<Rightarrow> string option \<Rightarrow> string option" where
  [code_defs]: "or_else v d = (case v of None \<Rightarrow> d | Some s \<Rightarrow> Some s)"

text \<open>The checkpoint of a task. With a checkpoint of the workflow the code copies the pointer of the task, which is null or empty then.\<close>

definition load_checkpoint :: "string option \<Rightarrow> string option \<Rightarrow> (wf_code + string option) option" where
  [code_defs]: "load_checkpoint global v =
     (case v of
        Some (c # s) \<Rightarrow> if bad_checkpoint (c # s) then Some (Inl OPH_WORKFLOW_EXIT_BAD_PARAM_ERROR) else Some (Inr (Some (c # s)))
      | _ \<Rightarrow> if global = None then Some (Inr None) else if v = None then None else Some (Inr v))"

definition load_task :: "parsing_env \<Rightarrow> json_strings \<Rightarrow> nat \<Rightarrow> nat \<times> task_doc \<Rightarrow> (wf_code + oph_workflow_task) option" where
  [code_defs]: "load_task env global N itd =
     (case itd of (i, td) \<Rightarrow>
      let m = td_strings td in
      case (m ''name'', m ''operator'') of
        (Some name, Some operator) \<Rightarrow>
          and_then (Some (load_type operator (m ''type''))) (\<lambda>type.
          and_then (each load_argument (arguments_of td)) (\<lambda>args.
          and_then (Some (load_deps 0 (case td_dependencies td of None \<Rightarrow> [] | Some ds \<Rightarrow> ds))) (\<lambda>deps.
          and_then (error_policy (c_int (oph_base_backoff env)) (or_else (m ''on_error'') (global ''on_error''))) (\<lambda>(retry_num, backoff_time, backoff_type).
          and_then (Some (exit_policy (or_else (m ''on_exit'') (global ''on_exit'')))) (\<lambda>exit_action.
          (case (yes_no True (or_else (m ''run'') (global ''run'')), yes_no True (or_else (m ''save'') (global ''save''))) of
             (Some run, Some save) \<Rightarrow>
               and_then (load_checkpoint (filled global ''checkpoint'') (m ''checkpoint'')) (\<lambda>checkpoint.
               Some (Inr (zero_task\<lparr>t_name := Some name, t_operator := Some operator, t_type := Some type, t_arguments := args,
                 t_deps := deps, t_residual_deps_num := int (length deps),
                 t_vars := Some (load_vars i (case td_variables td of None \<Rightarrow> [] | Some vs \<Rightarrow> vs) (hashtbl_create (of_nat N) None)),
                 t_retry_num := retry_num, t_backoff_time := backoff_time, t_backoff_type := backoff_type,
                 t_on_error := filled m ''on_error'', t_residual_retry_num := retry_num, t_exit_action := exit_action,
                 t_on_exit := filled m ''on_exit'', t_outputs_file := - 1, t_run := run, t_save := save, t_parent := - 1, t_child := - 1,
                 t_checkpoint := checkpoint\<rparr>)))
           | _ \<Rightarrow> Some (Inl OPH_WORKFLOW_EXIT_BAD_PARAM_ERROR)))))))
      | _ \<Rightarrow> Some (Inl OPH_WORKFLOW_EXIT_BAD_PARAM_ERROR))"

section \<open>Global values in the tasks\<close>

text \<open>The numbers of cores, hosts and threads are fields of a task, the other values are arguments.\<close>

definition set_number :: "string \<Rightarrow> int \<Rightarrow> oph_workflow_task \<Rightarrow> oph_workflow_task" where
  [code_defs]: "set_number key n t =
     (if key = ''ncores'' then t\<lparr>t_ncores := n\<rparr> else if key = ''nhost'' then t\<lparr>t_nhosts := n\<rparr> else t\<lparr>t_nthreads := n\<rparr>)"

definition is_number :: "string \<Rightarrow> bool" where
  [code_defs]: "is_number key \<longleftrightarrow> key = ''ncores'' \<or> key = ''nhost'' \<or> key = ''nthreads''"

definition find_key :: "string \<Rightarrow> oph_workflow_arg list \<Rightarrow> nat option" where
  [code_defs]: "find_key key args = find (\<lambda>j. a_key (args ! j) = key) [0..<length args]"

definition drop_arg :: "nat \<Rightarrow> oph_workflow_arg list \<Rightarrow> oph_workflow_arg list" where
  [code_defs]: "drop_arg j args = take j args @ drop (Suc j) args"

text \<open>\<open>_oph_workflow_substitute_var\<close> for one task. A task without arguments gets the number of hosts as its number of threads.\<close>

definition substitute_var :: "string \<Rightarrow> string \<Rightarrow> oph_workflow_task \<Rightarrow> oph_workflow_task option" where
  [code_defs]: "substitute_var key v t =
     (if t_arguments t = [] then
        Some (if key = ''nhost'' then t\<lparr>t_nthreads := to_int v\<rparr>
              else if is_number key then set_number key (to_int v) t
              else t\<lparr>t_arguments := [plain_arg key v]\<rparr>)
      else
      (case find_key key (t_arguments t) of
         Some j \<Rightarrow>
           if is_number key
           then map_option (\<lambda>x. (set_number key (to_int x) t)\<lparr>t_arguments := drop_arg j (t_arguments t)\<rparr>) (a_value (t_arguments t ! j))
           else Some t
       | None \<Rightarrow>
           Some (if is_number key then set_number key (to_int v) t else t\<lparr>t_arguments := t_arguments t @ [plain_arg key v]\<rparr>)))"

definition oph_workflow_substitute_var :: "string \<Rightarrow> string \<Rightarrow> oph_workflow_task list \<Rightarrow> oph_workflow_task list option" where
  [code_defs]: "oph_workflow_substitute_var key v ts = those (map (substitute_var key v) ts)"

definition get_number :: "string \<Rightarrow> oph_workflow_task \<Rightarrow> int" where
  [code_defs]: "get_number key t = (if key = ''ncores'' then t_ncores t else if key = ''nhost'' then t_nhosts t else t_nthreads t)"

text \<open>A number that is still zero is taken from the argument, which stays; a negative one is an error.\<close>

definition final_number :: "string \<Rightarrow> oph_workflow_task \<Rightarrow> (wf_code + oph_workflow_task) option" where
  [code_defs]: "final_number key t =
     (case (if get_number key t \<noteq> 0 then Some t
            else (case find_key key (t_arguments t) of
                    None \<Rightarrow> Some t
                  | Some j \<Rightarrow> map_option (\<lambda>x. set_number key (to_int x) t) (a_value (t_arguments t ! j)))) of
        None \<Rightarrow> None
      | Some t \<Rightarrow> Some (if get_number key t < 0 then Inl OPH_WORKFLOW_EXIT_GENERIC_ERROR else Inr t))"

text \<open>A function for the tasks of the workflow, the final one left as it is.\<close>

definition on_loaded :: "(oph_workflow_task \<Rightarrow> (wf_code + oph_workflow_task) option) \<Rightarrow> oph_workflow_task list \<Rightarrow> (wf_code + oph_workflow_task list) option" where
  [code_defs]: "on_loaded f ts = and_then (each f (butlast ts)) (\<lambda>us. Some (Inr (us @ [last ts])))"

definition load_number :: "string \<Rightarrow> int \<Rightarrow> oph_workflow_task list \<Rightarrow> (wf_code + oph_workflow_task list) option" where
  [code_defs]: "load_number key n ts =
     (case (if n \<noteq> 0 then oph_workflow_substitute_var key (show_int n) ts else Some ts) of
        None \<Rightarrow> None
      | Some ts \<Rightarrow> on_loaded (final_number key) ts)"

definition load_value :: "string \<Rightarrow> string option \<Rightarrow> oph_workflow_task list \<Rightarrow> (wf_code + oph_workflow_task list) option" where
  [code_defs]: "load_value key v ts =
     (case v of None \<Rightarrow> Some (Inr ts) | Some v \<Rightarrow> map_option Inr (oph_workflow_substitute_var key v ts))"

text \<open>The input cube is for the tasks without a cube whose dependencies are all embedded ones.\<close>

definition substitute_cube :: "string \<Rightarrow> oph_workflow_task \<Rightarrow> (wf_code + oph_workflow_task) option" where
  [code_defs]: "substitute_cube pid t =
     (if find_key ''cube'' (t_arguments t) \<noteq> None then Some (Inr t)
      else if list_ex (\<lambda>d. d_type d = None) (t_deps t) then None
      else Some (Inr (if list_all (\<lambda>d. d_type d = Some ''embedded'') (t_deps t)
                      then t\<lparr>t_arguments := t_arguments t @ [plain_arg ''cube'' pid]\<rparr> else t)))"

text \<open>The operators that are no Ophidia ones. \<open>oph_realloc_vector\<close> refuses to enlarge an array that is null.\<close>

definition load_operator :: "oph_workflow_task \<Rightarrow> (wf_code + oph_workflow_task) option" where
  [code_defs]: "load_operator t =
     (case (t_type t, t_operator t) of
        (Some type, Some operator) \<Rightarrow>
          if type = ''cdo'' \<or> type = ''generic'' then
            (if t_arguments t = [] then Some (Inl OPH_WORKFLOW_EXIT_MEMORY_ERROR)
             else Some (Inr (t\<lparr>t_arguments := t_arguments t @ [plain_arg ''command'' operator], t_operator := Some (''oph_'' @ type),
                               t_rtype := Some type, t_type := Some ''ophidia''\<rparr>)))
          else if type = ''control'' then
            Some (Inr (t\<lparr>t_operator := Some (''oph_'' @ operator), t_rtype := Some type, t_type := Some ''ophidia''\<rparr>))
          else Some (Inr t)
      | _ \<Rightarrow> None)"

section \<open>The whole request\<close>

definition load_final :: "json_strings \<Rightarrow> oph_workflow_task" where
  [code_defs]: "load_final global = zero_task\<lparr>t_run := (global ''run'' \<noteq> Some ''no''), t_retry_num := - 1, t_parent := - 1, t_child := - 1\<rparr>"

definition load_substitutions :: "oph_workflow \<Rightarrow> oph_workflow_task list \<Rightarrow> (wf_code + oph_workflow_task list) option" where
  [code_defs]: "load_substitutions w ts =
     and_then (load_number ''ncores'' (w_ncores w) ts) (\<lambda>ts.
     and_then (load_number ''nhost'' (w_nhosts w) ts) (\<lambda>ts.
     and_then (load_number ''nthreads'' (w_nthreads w) ts) (\<lambda>ts.
     and_then (load_value ''project'' (w_project w) ts) (\<lambda>ts.
     and_then (load_value ''cwd'' (w_cwd w) ts) (\<lambda>ts.
     and_then (load_value ''cdd'' (w_cdd w) ts) (\<lambda>ts.
     and_then (case w_cube w of None \<Rightarrow> Some (Inr ts) | Some pid \<Rightarrow> on_loaded (substitute_cube pid) ts) (\<lambda>ts.
     on_loaded load_operator ts)))))))"

definition load_folders :: "oph_workflow \<Rightarrow> oph_workflow" where
  [code_defs]: "load_folders w = w\<lparr>w_cwd := preset ''/'' (w_cwd w), w_cdd := preset ''/'' (w_cdd w)\<rparr>"

definition load_document :: "parsing_env \<Rightarrow> string \<Rightarrow> string option \<Rightarrow> request_doc \<Rightarrow> (wf_code + oph_workflow) option" where
  [code_defs]: "load_document env username ip_address doc =
     and_then (Some (load_globals env username ip_address (rd_strings doc))) (\<lambda>w.
     case rd_tasks doc of
       None \<Rightarrow> Some (Inl OPH_WORKFLOW_EXIT_GENERIC_ERROR)
     | Some tds \<Rightarrow>
         (let N = nat (c_int (int (length tds))) in
          if N < 1 then Some (Inl OPH_WORKFLOW_EXIT_BAD_PARAM_ERROR)
          else
            and_then (each (load_task env (rd_strings doc) N) (zip [0..<N] (take N tds))) (\<lambda>ts.
            if list_ex null_key (take N tds) then None
            else
             and_then (load_substitutions (load_folders w) (ts @ [load_final (rd_strings doc)])) (\<lambda>ts.
             Some (Inr ((load_folders w)\<lparr>w_tasks := ts, w_tasks_num := N, w_residual_tasks_num := int N, w_vars := hashtbl_create (of_nat N) None\<rparr>))))))"

definition oph_workflow_load :: "parsing_env \<Rightarrow> string \<Rightarrow> string \<Rightarrow> string option \<Rightarrow> (wf_code + oph_workflow) option" where
  [code_defs]: "oph_workflow_load env json_string username ip_address =
     (case oph_workflow_skip_comments json_string of
        None \<Rightarrow> Some (Inl OPH_WORKFLOW_EXIT_BAD_PARAM_ERROR)
      | Some clean_json_string \<Rightarrow>
          (case json_loads env clean_json_string of
             None \<Rightarrow> Some (Inl OPH_WORKFLOW_EXIT_GENERIC_ERROR)
           | Some doc \<Rightarrow> load_document env username ip_address doc))"

section \<open>Writing a request\<close>

definition add_to_json :: "string \<Rightarrow> string option \<Rightarrow> json_strings \<Rightarrow> json_strings" where
  [code_defs]: "add_to_json key v m = (case v of None \<Rightarrow> m | Some s \<Rightarrow> m(key \<mapsto> s))"

definition store_globals :: "oph_workflow \<Rightarrow> string \<Rightarrow> string option \<Rightarrow> json_strings" where
  [code_defs]: "store_globals w name checkpoint =
     (add_to_json ''host_partition'' (case w_host_partition_orig w of None \<Rightarrow> w_host_partition w | Some s \<Rightarrow> Some s) \<circ>
      add_to_json ''command'' (w_command w) \<circ> add_to_json ''callback_url'' (w_callback_url w) \<circ> add_to_json ''cube'' (w_cube w) \<circ>
      add_to_json ''cdd'' (w_cdd w) \<circ> add_to_json ''cwd'' (w_cwd w) \<circ> add_to_json ''checkpoint'' (w_checkpoint w) \<circ>
      add_to_json ''run'' (if w_run w then None else Some ''no'') \<circ> add_to_json ''on_exit'' (w_on_exit w) \<circ>
      add_to_json ''on_error'' (w_on_error w) \<circ> add_to_json ''project'' (w_project w) \<circ>
      add_to_json ''nthreads'' (Some (show_int (w_nthreads w))) \<circ> add_to_json ''nhost'' (Some (show_int (w_nhosts w))) \<circ>
      add_to_json ''ncores'' (Some (show_int (w_ncores w))) \<circ> add_to_json ''exec_mode'' (w_exec_mode w) \<circ>
      add_to_json ''sessionid'' (w_sessionid w) \<circ> add_to_json ''url'' (w_url w) \<circ> add_to_json ''abstract'' (w_abstract w) \<circ>
      add_to_json ''author'' (w_author w) \<circ>
      add_to_json ''name'' (Some (take (OPH_WORKFLOW_MAX_STRING - 1)
        (name @ (case checkpoint of None \<Rightarrow> [] | Some c \<Rightarrow> '' - from checkpoint: '' @ c))))) Map.empty"

text \<open>
  The variables are copied into their table together with a pointer to the value, which is released then; the text of the value follows the structure.
  The function reads the pointer, so that a variable that has to be written is undefined behaviour.
\<close>

definition bvar_keys :: "string list" where
  [code_defs]: "bvar_keys = [''OPH_SESSION_ID'', ''OPH_SESSION_CODE'', ''OPH_WORKFLOW_ID'', ''OPH_SERVER_HOST'', ''OPH_SERVER_PORT'', ''OPH_USER'',
     ''OPH_PASSWD'', ''OPH_OS_USER'']"

definition stored_vars :: "oph_workflow_var hashtbl \<Rightarrow> string list" where
  [code_defs]: "stored_vars vars = map hn_key (concat (ht_nodes vars))"

definition store_argument :: "oph_workflow_arg \<Rightarrow> string option" where
  [code_defs]: "store_argument a = map_option (\<lambda>v. take (OPH_WORKFLOW_MAX_STRING - 1) (a_key a @ ''='' @ v)) (a_value a)"

definition erase_command :: "oph_workflow_task \<Rightarrow> bool" where
  [code_defs]: "erase_command t \<longleftrightarrow> t_rtype t \<noteq> None \<and> t_rtype t \<noteq> Some ''control''"

text \<open>The operator of a task; for a command it is the argument. \<open>None\<close> is the offset beyond the end of a string.\<close>

definition store_operator :: "oph_workflow_task \<Rightarrow> string option option" where
  [code_defs]: "store_operator t =
     (if erase_command t then
        Some (case filter (\<lambda>a. a_key a = ''command'') (rev (t_arguments t)) of [] \<Rightarrow> None | a # _ \<Rightarrow> a_value a)
      else if t_rtype t = None then Some (t_operator t)
      else (case t_operator t of None \<Rightarrow> None | Some s \<Rightarrow> if length s < 4 then None else Some (Some (drop 4 s))))"

text \<open>A dependency: \<open>Some None\<close> is one that is left out.\<close>

definition store_dep :: "oph_workflow \<Rightarrow> string option \<Rightarrow> nat \<Rightarrow> oph_workflow_dep \<Rightarrow> json_strings option option" where
  [code_defs]: "store_dep w checkpoint i d =
     (if checkpoint \<noteq> None \<and> d_task_index d < 0 then Some None
      else
      (case d_task_name d of
         None \<Rightarrow> None
       | Some name \<Rightarrow>
           (case find_name name (take (w_tasks_num w) (w_tasks w)) 0 of
              None \<Rightarrow> None
            | Some None \<Rightarrow> Some None
            | Some (Some k) \<Rightarrow>
                if k = i \<or> checkpoint \<noteq> None \<and> t_status (w_tasks w ! k) \<ge> OPH_ODB_STATUS_COMPLETED then Some None
                else Some (Some
                  ((add_to_json ''output_order'' (d_output_order d) \<circ> add_to_json ''output_argument'' (d_output_argument d) \<circ>
                    add_to_json ''filter'' (d_filter d) \<circ> add_to_json ''type'' (d_type d) \<circ> add_to_json ''task'' (d_task_name d) \<circ>
                    add_to_json ''order'' (d_order d) \<circ> add_to_json ''argument'' (d_argument d)) Map.empty)))))"

definition store_task :: "oph_workflow \<Rightarrow> string option \<Rightarrow> nat \<Rightarrow> task_doc option" where
  [code_defs]: "store_task w checkpoint i =
     (let t = w_tasks w ! i;
          args = (if erase_command t then filter (\<lambda>a. a_key a \<noteq> ''command'') (t_arguments t) else t_arguments t) in
      case (store_operator t, those (map store_argument args), those (map (store_dep w checkpoint i) (t_deps t))) of
        (Some operator, Some args, Some deps) \<Rightarrow>
          Some \<lparr>td_strings =
              (add_to_json ''operator'' operator \<circ> add_to_json ''checkpoint'' (t_checkpoint t) \<circ>
               add_to_json ''run'' (if t_run t then None else Some ''no'') \<circ> add_to_json ''on_exit'' (t_on_exit t) \<circ>
               add_to_json ''on_error'' (t_on_error t) \<circ>
               add_to_json ''type'' (case t_rtype t of None \<Rightarrow> t_type t | Some ty \<Rightarrow> Some ty) \<circ> add_to_json ''name'' (t_name t)) Map.empty,
            td_arguments = Some (map Some args),
            td_dependencies = (if t_deps t = [] then None else Some (map the (filter (\<lambda>d. d \<noteq> None) deps))),
            td_variables = None\<rparr>
      | _ \<Rightarrow> None)"

text \<open>The tasks that are left out of a checkpoint: those that ended, and those whose block ended.\<close>

definition left_out :: "oph_workflow \<Rightarrow> nat \<Rightarrow> bool option" where
  [code_defs]: "left_out w i =
     (let t = w_tasks w ! i in
      if t_status t \<ge> OPH_ODB_STATUS_COMPLETED then Some True
      else if t_parent t < 0 then Some False
      else if int (length (w_tasks w)) \<le> t_parent t then None
      else Some (t_status (w_tasks w ! nat (t_parent t)) \<ge> OPH_ODB_STATUS_COMPLETED))"

text \<open>The loop over the tasks. With a checkpoint a task without variables of its own ends it with an error.\<close>

fun store_tasks :: "oph_workflow \<Rightarrow> string option \<Rightarrow> nat list \<Rightarrow> (wf_code + task_doc list) option" where
  "store_tasks w checkpoint [] = Some (Inr [])"
| "store_tasks w checkpoint (i # is) =
     (case (if checkpoint = None then Some False else left_out w i) of
        None \<Rightarrow> None
      | Some True \<Rightarrow> store_tasks w checkpoint is
      | Some False \<Rightarrow>
          (case store_task w checkpoint i of
             None \<Rightarrow> None
           | Some td \<Rightarrow>
               if checkpoint \<noteq> None \<and> (case t_vars (w_tasks w ! i) of None \<Rightarrow> False | Some vars \<Rightarrow> stored_vars vars \<noteq> []) then None
               else if checkpoint \<noteq> None \<and> t_vars (w_tasks w ! i) \<noteq> None then Some (Inl OPH_WORKFLOW_EXIT_BAD_PARAM_ERROR)
               else and_then (store_tasks w checkpoint is) (\<lambda>tds. Some (Inr (td # tds)))))"

text \<open>The document of a request, and its text.\<close>

definition store_request :: "oph_workflow \<Rightarrow> string option \<Rightarrow> (wf_code + request_doc) option" where
  [code_defs]: "store_request w checkpoint =
     (case w_name w of
        None \<Rightarrow> None
      | Some name \<Rightarrow>
          if checkpoint \<noteq> None \<and> list_ex (\<lambda>key. key \<notin> set bvar_keys) (stored_vars (w_vars w)) then None
          else if length (w_tasks w) < w_tasks_num w then None
          else
            and_then (store_tasks w checkpoint [0..<w_tasks_num w]) (\<lambda>tds.
            if tds = [] then Some (Inl OPH_WORKFLOW_EXIT_GENERIC_ERROR)
            else Some (Inr \<lparr>rd_strings = store_globals w name checkpoint, rd_tasks = Some tds\<rparr>)))"

definition oph_workflow_store :: "parsing_env \<Rightarrow> oph_workflow \<Rightarrow> string option \<Rightarrow> (wf_code + string) option" where
  [code_defs]: "oph_workflow_store env w checkpoint =
     and_then (store_request w checkpoint) (\<lambda>doc.
     case json_dumps env doc of
       None \<Rightarrow> Some (Inl OPH_WORKFLOW_EXIT_MEMORY_ERROR)
     | Some s \<Rightarrow> Some (Inr s))"

section \<open>What the loaded tasks have in common\<close>

definition args_loaded :: "oph_workflow_arg list \<Rightarrow> bool" where
  [code_defs]: "args_loaded args \<longleftrightarrow> list_all (\<lambda>a. a_value a \<noteq> None \<and> a_list a = [] \<and> CHR ''='' \<notin> set (a_key a)) args"

definition dep_loaded :: "oph_workflow_dep \<Rightarrow> bool" where
  [code_defs]: "dep_loaded d \<longleftrightarrow>
     d_task_name d \<noteq> None \<and> d_type d \<in> {Some ''all'', Some ''single'', Some ''embedded''} \<and> d_argument d \<noteq> None \<and> d_order d \<noteq> None \<and>
     d_filter d \<noteq> None \<and> d_output_argument d \<noteq> None \<and> d_output_order d \<noteq> None \<and> d_task_index d = 0"

definition task_loaded :: "oph_workflow_task \<Rightarrow> bool" where
  [code_defs]: "task_loaded t \<longleftrightarrow> t_name t \<noteq> None \<and> t_operator t \<noteq> None \<and> t_type t \<noteq> None \<and> t_status t = OPH_ODB_STATUS_UNKNOWN \<and>
     t_dependents_indexes t = [] \<and> t_residual_deps_num t = int (length (t_deps t)) \<and> args_loaded (t_arguments t) \<and> list_all dep_loaded (t_deps t) \<and>
     t_parent t = - 1 \<and> t_child t = - 1 \<and> t_branch_num t = 0 \<and> t_nesting_level t = 0 \<and>
     t_light_tasks t = [] \<and> \<not> t_is_marked_for_auto_retry t \<and> t_outputs t = [] \<and> t_residual_retry_num t = t_retry_num t \<and>
     (case t_vars t of None \<Rightarrow> False | Some vars \<Rightarrow> hashtbl_ok vars)"

lemma args_loaded_simps [simp]:
  "args_loaded []" "args_loaded (as @ bs) \<longleftrightarrow> args_loaded as \<and> args_loaded bs" "args_loaded [plain_arg k v] \<longleftrightarrow> CHR ''='' \<notin> set k"
  by (simp_all add: args_loaded_def plain_arg_def)

lemma load_argument_loaded: "load_argument s = Some (Inr a) \<Longrightarrow> a_value a \<noteq> None \<and> a_list a = [] \<and> CHR ''='' \<notin> set (a_key a)"
  by (auto simp: load_argument_def plain_arg_def dest: set_takeWhileD split: if_splits)

lemma load_deps_loaded: "load_deps k ms = Inr ds \<Longrightarrow> list_all dep_loaded ds"
  by (induction k ms arbitrary: ds rule: load_deps.induct)
    (auto simp: dep_loaded_def preset_def split: if_splits sum.splits option.splits)

lemma load_vars_ok: "hashtbl_ok vars \<Longrightarrow> hashtbl_ok (load_vars i ms vars)"
proof (induction i ms vars rule: load_vars.induct)
  case (2 i m ms vars)
  have "hashtbl_ok (snd (hashtbl_insert_with_size vars k x n))" for k x n using 2(3) by (rule ht.ins_inv)
  then show ?case using 2 by (auto simp: Let_def split: option.splits prod.splits) (metis snd_conv)+
qed simp

lemma load_taskE:
  assumes "load_task env g N (i, td) = Some (Inr t)"
  obtains name operator type args deps retry_num backoff_time backoff_type exit_action run save checkpoint where
    "td_strings td ''name'' = Some name" and "td_strings td ''operator'' = Some operator" and "load_type operator (td_strings td ''type'') = Inr type"
    and "each load_argument (arguments_of td) = Some (Inr args)"
    and "load_deps 0 (case td_dependencies td of None \<Rightarrow> [] | Some ds \<Rightarrow> ds) = Inr deps"
    and "error_policy (c_int (oph_base_backoff env)) (or_else (td_strings td ''on_error'') (g ''on_error'')) = Some (Inr (retry_num, backoff_time, backoff_type))"
    and "exit_policy (or_else (td_strings td ''on_exit'') (g ''on_exit'')) = Inr exit_action"
    and "yes_no True (or_else (td_strings td ''run'') (g ''run'')) = Some run" and "yes_no True (or_else (td_strings td ''save'') (g ''save'')) = Some save"
    and "load_checkpoint (filled g ''checkpoint'') (td_strings td ''checkpoint'') = Some (Inr checkpoint)"
    and "t = zero_task\<lparr>t_name := Some name, t_operator := Some operator, t_type := Some type, t_arguments := args,
      t_deps := deps, t_residual_deps_num := int (length deps),
      t_vars := Some (load_vars i (case td_variables td of None \<Rightarrow> [] | Some vs \<Rightarrow> vs) (hashtbl_create (of_nat N) None)),
      t_retry_num := retry_num, t_backoff_time := backoff_time, t_backoff_type := backoff_type,
      t_on_error := filled (td_strings td) ''on_error'', t_residual_retry_num := retry_num, t_exit_action := exit_action,
      t_on_exit := filled (td_strings td) ''on_exit'', t_outputs_file := - 1, t_run := run, t_save := save, t_parent := - 1, t_child := - 1,
      t_checkpoint := checkpoint\<rparr>"
proof (cases "td_strings td ''name''"; cases "td_strings td ''operator''"; cases "yes_no True (or_else (td_strings td ''run'') (g ''run''))";
    cases "yes_no True (or_else (td_strings td ''save'') (g ''save''))")
  fix name operator run save
  assume "td_strings td ''name'' = Some name" "td_strings td ''operator'' = Some operator" "yes_no True (or_else (td_strings td ''run'') (g ''run'')) = Some run"
    "yes_no True (or_else (td_strings td ''save'') (g ''save'')) = Some save"
  then show thesis using assms that by (auto simp: load_task_def Let_def)
qed (use assms in \<open>auto simp: load_task_def Let_def\<close>)

lemma load_task_loaded:
  assumes "load_task env g N (i, td) = Some (Inr t)" and "0 < N" and "N < 2 ^ 31"
  shows "task_loaded t"
proof -
  have "(of_nat N :: hash_size) \<noteq> 0" using assms(2,3) by (simp add: word_of_nat_eq_0_iff nat_dvd_not_less)
  then have vars: "hashtbl_ok (load_vars i vs (hashtbl_create (of_nat N) None))" for vs by (intro load_vars_ok hashtbl_ok_create)
  have args: "args_loaded args" if "each load_argument (arguments_of td) = Some (Inr args)" for args
    using each_nth [OF that] load_argument_loaded by (auto simp: args_loaded_def list_all_length)
  show ?thesis
    by (rule load_taskE [OF assms(1)]) (simp add: task_loaded_def zero_task_def OPH_ODB_STATUS_UNKNOWN_def load_deps_loaded vars args)
qed

text \<open>The steps after the reading of the tasks change the arguments, the operator and the numbers of cores, hosts and threads only.\<close>

definition bare :: "oph_workflow_task \<Rightarrow> oph_workflow_task" where
  "bare t = t\<lparr>t_operator := None, t_type := None, t_rtype := None, t_ncores := 0, t_nhosts := 0, t_nthreads := 0, t_arguments := []\<rparr>"

definition reworked :: "oph_workflow_task \<Rightarrow> oph_workflow_task \<Rightarrow> bool" where
  "reworked t t' \<longleftrightarrow> bare t' = bare t \<and> (args_loaded (t_arguments t) \<longrightarrow> args_loaded (t_arguments t')) \<and>
     (t_operator t \<noteq> None \<longrightarrow> t_operator t' \<noteq> None) \<and> (t_type t \<noteq> None \<longrightarrow> t_type t' \<noteq> None)"

lemma reworked_refl [simp]: "reworked t t" by (simp add: reworked_def)

lemma reworked_trans [trans]: "reworked t u \<Longrightarrow> reworked u v \<Longrightarrow> reworked t v" by (simp add: reworked_def)

lemma bare_fields:
  assumes "bare t' = bare t"
  shows "t_name t' = t_name t" "t_status t' = t_status t" "t_dependents_indexes t' = t_dependents_indexes t" "t_deps t' = t_deps t"
    "t_residual_deps_num t' = t_residual_deps_num t" "t_light_tasks t' = t_light_tasks t"
    "t_is_marked_for_auto_retry t' = t_is_marked_for_auto_retry t" "t_outputs t' = t_outputs t" "t_residual_retry_num t' = t_residual_retry_num t"
    "t_retry_num t' = t_retry_num t" "t_vars t' = t_vars t" "t_exit_action t' = t_exit_action t"
    "t_parent t' = t_parent t" "t_child t' = t_child t" "t_branch_num t' = t_branch_num t" "t_nesting_level t' = t_nesting_level t"
  using assms [THEN arg_cong, of t_name] assms [THEN arg_cong, of t_status] assms [THEN arg_cong, of t_dependents_indexes]
    assms [THEN arg_cong, of t_deps] assms [THEN arg_cong, of t_residual_deps_num] assms [THEN arg_cong, of t_light_tasks]
    assms [THEN arg_cong, of t_is_marked_for_auto_retry] assms [THEN arg_cong, of t_outputs] assms [THEN arg_cong, of t_residual_retry_num]
    assms [THEN arg_cong, of t_retry_num] assms [THEN arg_cong, of t_vars] assms [THEN arg_cong, of t_exit_action]
    assms [THEN arg_cong, of t_parent] assms [THEN arg_cong, of t_child] assms [THEN arg_cong, of t_branch_num] assms [THEN arg_cong, of t_nesting_level]
  by (simp_all add: bare_def)

lemma reworked_loaded:
  assumes r: "reworked t t'" and t: "task_loaded t"
  shows "task_loaded t'"
proof -
  have "bare t' = bare t" using r by (simp add: reworked_def)
  note f = bare_fields [OF this]
  show ?thesis using r t unfolding reworked_def task_loaded_def f by blast
qed

lemma args_loaded_drop: "args_loaded args \<Longrightarrow> args_loaded (drop_arg j args)"
  by (auto simp: args_loaded_def drop_arg_def list_all_iff dest: in_set_takeD in_set_dropD)

lemma substitute_var_reworked: "substitute_var key v t = Some t' \<Longrightarrow> CHR ''='' \<notin> set key \<Longrightarrow> reworked t t'"
  by (auto simp: substitute_var_def reworked_def bare_def set_number_def args_loaded_drop split: if_splits option.splits)

lemma set_number_reworked [simp]: "reworked t (set_number key n t)"
  by (simp add: reworked_def set_number_def bare_def)

lemma final_number_reworked: "final_number key t = Some (Inr t') \<Longrightarrow> reworked t t'"
  by (auto simp: final_number_def split: if_splits option.splits)

lemma substitute_cube_reworked: "substitute_cube pid t = Some (Inr t') \<Longrightarrow> reworked t t'"
  by (auto simp: substitute_cube_def reworked_def bare_def split: if_splits)

lemma load_operator_reworked: "load_operator t = Some (Inr t') \<Longrightarrow> reworked t t'"
  by (auto simp: load_operator_def reworked_def bare_def split: if_splits option.splits)

lemma those_all2: "those (map f xs) = Some ys \<Longrightarrow> list_all2 (\<lambda>x y. f x = Some y) xs ys"
  by (induction xs arbitrary: ys) (auto split: option.splits)

lemma on_loaded_all2:
  assumes "on_loaded f ts = Some (Inr us)" and "ts \<noteq> []"
  shows "list_all2 (\<lambda>t u. f t = Some (Inr u)) (butlast ts) (butlast us) \<and> last us = last ts \<and> us \<noteq> []"
  using assms by (auto simp: on_loaded_def each_Inr)

text \<open>The tasks before and after: the last one is the final task.\<close>

definition reworked_tasks :: "oph_workflow_task list \<Rightarrow> oph_workflow_task list \<Rightarrow> bool" where
  "reworked_tasks ts us \<longleftrightarrow> list_all2 reworked ts us"

lemma reworked_tasks_refl [simp]: "reworked_tasks ts ts"
  by (simp add: reworked_tasks_def list_all2_refl)

lemma reworked_tasks_trans [trans]: "reworked_tasks ts us \<Longrightarrow> reworked_tasks us vs \<Longrightarrow> reworked_tasks ts vs"
  unfolding reworked_tasks_def by (rule list_all2_trans [OF reworked_trans])

lemma substitute_reworked: "oph_workflow_substitute_var key v ts = Some us \<Longrightarrow> CHR ''='' \<notin> set key \<Longrightarrow> reworked_tasks ts us"
  unfolding reworked_tasks_def oph_workflow_substitute_var_def
  by (drule those_all2) (auto elim: list_all2_mono dest: substitute_var_reworked)

lemma on_loaded_reworked:
  assumes "on_loaded f ts = Some (Inr us)" and "ts \<noteq> []" and "\<And>t u. f t = Some (Inr u) \<Longrightarrow> reworked t u"
  shows "reworked_tasks ts us"
proof -
  note o = on_loaded_all2 [OF assms(1,2)]
  then have "list_all2 reworked (butlast ts @ [last ts]) (butlast us @ [last us])"
    using assms(3) by (auto intro!: list_all2_appendI elim: list_all2_mono)
  then show ?thesis using o assms(2) by (metis append_butlast_last_id reworked_tasks_def)
qed

lemma load_number_reworked:
  assumes "load_number key n ts = Some (Inr us)" and "ts \<noteq> []" and "CHR ''='' \<notin> set key"
  shows "reworked_tasks ts us"
proof -
  obtain ts1 where s: "(if n \<noteq> 0 then oph_workflow_substitute_var key (show_int n) ts else Some ts) = Some ts1"
    and o: "on_loaded (final_number key) ts1 = Some (Inr us)"
    using assms(1) by (auto simp: load_number_def split: option.splits)
  have "reworked_tasks ts ts1" using s assms(3) substitute_reworked [of key "show_int n" ts ts1] by (auto split: if_splits)
  moreover from this have "ts1 \<noteq> []" using assms(2) by (auto simp: reworked_tasks_def)
  ultimately show ?thesis using on_loaded_reworked [OF o _ final_number_reworked [of key]] reworked_tasks_trans by blast
qed

lemma load_value_reworked: "load_value key v ts = Some (Inr us) \<Longrightarrow> CHR ''='' \<notin> set key \<Longrightarrow> reworked_tasks ts us"
  by (auto simp: load_value_def dest: substitute_reworked split: option.splits)

lemma reworked_tasks_Nil [simp]: "reworked_tasks ts us \<Longrightarrow> us = [] \<longleftrightarrow> ts = []"
  by (auto simp: reworked_tasks_def)

text \<open>Every task has arguments after the working directory was added.\<close>

lemma substitute_var_args: "substitute_var key v t = Some t' \<Longrightarrow> \<not> is_number key \<Longrightarrow> t_arguments t' \<noteq> []"
  by (auto simp: substitute_var_def is_number_def split: if_splits option.splits)

lemma load_value_args: "load_value key (Some v) ts = Some (Inr us) \<Longrightarrow> \<not> is_number key \<Longrightarrow> \<forall>t\<in>set us. t_arguments t \<noteq> []"
  using those_all2 [of "substitute_var key v" ts us] substitute_var_args
  by (fastforce simp: load_value_def oph_workflow_substitute_var_def list_all2_conv_all_nth in_set_conv_nth)

lemma list_all2_source: "list_all2 P xs ys \<Longrightarrow> y \<in> set ys \<Longrightarrow> \<exists>x\<in>set xs. P x y"
  by (induction rule: list_all2_induct) auto

lemma on_loaded_args:
  assumes "on_loaded f ts = Some (Inr us)" and "ts \<noteq> []" and "\<And>t u. f t = Some (Inr u) \<Longrightarrow> t_arguments t \<noteq> [] \<Longrightarrow> t_arguments u \<noteq> []"
    and "\<forall>t\<in>set ts. t_arguments t \<noteq> []"
  shows "\<forall>t\<in>set us. t_arguments t \<noteq> []"
proof -
  note o = on_loaded_all2 [OF assms(1,2)]
  have "t_arguments u \<noteq> []" if u: "u \<in> set (butlast us)" for u
  proof -
    obtain t where "t \<in> set (butlast ts)" "f t = Some (Inr u)"
      using list_all2_source [OF conjunct1 [OF o] u] by blast
    then show ?thesis using assms(3) [of t u] assms(4) in_set_butlastD [of t ts] by blast
  qed
  moreover have "t_arguments (last us) \<noteq> []" using o assms(2,4) by simp
  ultimately show ?thesis using o by (metis append_butlast_last_id in_set_conv_decomp_last Un_iff empty_iff insert_iff list.set(1,2) set_append)
qed

lemma load_substitutions_run:
  assumes "load_substitutions w ts = Some (Inr us)" and "ts \<noteq> []" and "w_cdd w \<noteq> None"
  shows "reworked_tasks ts us" and "\<forall>t\<in>set us. t_arguments t \<noteq> []"
proof -
  obtain cdd where cdd: "w_cdd w = Some cdd" using assms(3) by blast
  obtain a b c d e f g where
    r: "load_number ''ncores'' (w_ncores w) ts = Some (Inr a)" "load_number ''nhost'' (w_nhosts w) a = Some (Inr b)"
       "load_number ''nthreads'' (w_nthreads w) b = Some (Inr c)" "load_value ''project'' (w_project w) c = Some (Inr d)"
       "load_value ''cwd'' (w_cwd w) d = Some (Inr e)" "load_value ''cdd'' (Some cdd) e = Some (Inr f)"
       "(case w_cube w of None \<Rightarrow> Some (Inr f) | Some pid \<Rightarrow> on_loaded (substitute_cube pid) f) = Some (Inr g)"
       "on_loaded load_operator g = Some (Inr us)"
    using assms(1) cdd by (auto simp: load_substitutions_def)
  have f: "reworked_tasks ts f"
  proof -
    have a: "reworked_tasks ts a" using load_number_reworked [OF r(1) assms(2)] by simp
    have b: "reworked_tasks a b" using load_number_reworked [OF r(2)] a assms(2) by simp
    have c: "reworked_tasks b c" using load_number_reworked [OF r(3)] a b assms(2) by simp
    note a also note b also note c also note load_value_reworked [OF r(4), simplified]
    also note load_value_reworked [OF r(5), simplified] also note load_value_reworked [OF r(6), simplified]
    finally show ?thesis .
  qed
  then have fn: "f \<noteq> []" using assms(2) by simp
  have g: "reworked_tasks f g" using r(7) on_loaded_reworked [OF _ fn substitute_cube_reworked [of "the (w_cube w)"]] by (auto split: option.splits)
  then have gn: "g \<noteq> []" using fn by simp
  show "reworked_tasks ts us" using f g on_loaded_reworked [OF r(8) gn load_operator_reworked] by (meson reworked_tasks_trans)
  have fa: "\<forall>t\<in>set f. t_arguments t \<noteq> []" using load_value_args [OF r(6)] by (simp add: is_number_def)
  have ga: "\<forall>t\<in>set g. t_arguments t \<noteq> []"
  proof (cases "w_cube w")
    case (Some pid)
    then have "on_loaded (substitute_cube pid) f = Some (Inr g)" using r(7) by simp
    then show ?thesis by (rule on_loaded_args [OF _ fn _ fa]) (auto simp: substitute_cube_def split: if_splits)
  qed (use r(7) fa in simp)
  show "\<forall>t\<in>set us. t_arguments t \<noteq> []"
    by (rule on_loaded_args [OF r(8) gn _ ga]) (auto simp: load_operator_def split: option.splits if_splits)
qed

text \<open>The workflow that a successful load gives.\<close>

definition workflow_loaded :: "oph_workflow \<Rightarrow> bool" where
  [code_defs]: "workflow_loaded w \<longleftrightarrow> 1 \<le> w_tasks_num w \<and> length (w_tasks w) = Suc (w_tasks_num w) \<and>
     list_all (\<lambda>t. task_loaded t \<and> t_arguments t \<noteq> []) (take (w_tasks_num w) (w_tasks w)) \<and>
     (let f = w_tasks w ! w_tasks_num w in t_name f = None \<and> t_deps f = [] \<and> t_status f = OPH_ODB_STATUS_UNKNOWN \<and> t_residual_deps_num f = 0) \<and>
     w_residual_tasks_num w = int (w_tasks_num w) \<and> w_status w = OPH_ODB_STATUS_PENDING \<and> \<not> w_is_closed w \<and> w_exit_cubes w = None \<and>
     w_exit_containers w = None \<and> w_stack w = [] \<and> hashtbl_ok (w_vars w)"

lemma reworked_final:
  "reworked (load_final g) t \<Longrightarrow> t_name t = None \<and> t_deps t = [] \<and> t_status t = OPH_ODB_STATUS_UNKNOWN \<and> t_residual_deps_num t = 0"
  using bare_fields [of t "load_final g"] by (simp add: reworked_def load_final_def zero_task_def OPH_ODB_STATUS_UNKNOWN_def)

lemma load_globals_fields:
  assumes "load_globals env u ip m = Inr w"
  shows "w_status w = OPH_ODB_STATUS_PENDING" "\<not> w_is_closed w" "w_exit_cubes w = None" "w_exit_containers w = None" "w_stack w = []"
  using assms by (auto simp: load_globals_def oph_workflow_alloc_def empty_workflow_def OPH_ODB_STATUS_PENDING_def split: option.splits if_splits)

lemma c_int_le: "0 \<le> i \<Longrightarrow> c_int i \<le> i"
  unfolding c_int_def using zmod_le_nonneg_dividend [of "i + 2147483648" 4294967296] by simp

lemma load_documentE:
  assumes "load_document env u ip doc = Some (Inr w)"
  obtains w0 tds N ts us where "load_globals env u ip (rd_strings doc) = Inr w0" and "rd_tasks doc = Some tds" and "N = nat (c_int (int (length tds)))"
    and "1 \<le> N" and "each (load_task env (rd_strings doc) N) (zip [0..<N] (take N tds)) = Some (Inr ts)" and "\<not> list_ex null_key (take N tds)"
    and "load_substitutions (load_folders w0) (ts @ [load_final (rd_strings doc)]) = Some (Inr us)"
    and "w = (load_folders w0)\<lparr>w_tasks := us, w_tasks_num := N, w_residual_tasks_num := int N, w_vars := hashtbl_create (of_nat N) None\<rparr>"
proof -
  obtain w0 where w0: "load_globals env u ip (rd_strings doc) = Inr w0"
    using assms by (cases "load_globals env u ip (rd_strings doc)") (simp_all add: load_document_def)
  obtain tds where tds: "rd_tasks doc = Some tds"
    using assms w0 by (cases "rd_tasks doc") (simp_all add: load_document_def)
  show thesis
    using assms w0 tds that [of w0 tds "nat (c_int (int (length tds)))"] by (auto simp: load_document_def Let_def split: if_splits)
qed

lemma load_document_loaded:
  assumes "load_document env u ip doc = Some (Inr w)"
  shows "workflow_loaded w"
proof (rule load_documentE [OF assms])
  fix w0 tds N ts us
  assume g: "load_globals env u ip (rd_strings doc) = Inr w0" and N: "N = nat (c_int (int (length tds)))" "1 \<le> N"
    and ts: "each (load_task env (rd_strings doc) N) (zip [0..<N] (take N tds)) = Some (Inr ts)"
    and us: "load_substitutions (load_folders w0) (ts @ [load_final (rd_strings doc)]) = Some (Inr us)"
    and w: "w = (load_folders w0)\<lparr>w_tasks := us, w_tasks_num := N, w_residual_tasks_num := int N, w_vars := hashtbl_create (of_nat N) None\<rparr>"
  have small: "0 < N" "N < 2 ^ 31" using N c_int_range [of "int (length tds)"] by auto
  then have size: "(of_nat N :: hash_size) \<noteq> 0" by (simp add: word_of_nat_eq_0_iff nat_dvd_not_less)
  have len: "length ts = N" using each_nth [OF ts] c_int_le [of "int (length tds)"] N by simp
  have one: "task_loaded t" if "t \<in> set ts" for t
    using each_nth [OF ts] that load_task_loaded [OF _ small] by (metis in_set_conv_nth surj_pair)
  have "w_cdd (load_folders w0) \<noteq> None" by (simp add: load_folders_def preset_def)
  note run = load_substitutions_run [OF us _ this, simplified]
  have all2: "list_all2 reworked (ts @ [load_final (rd_strings doc)]) us" using run(1) by (simp add: reworked_tasks_def)
  have l: "length us = Suc N" using list_all2_lengthD [OF all2] len by simp
  have "task_loaded (us ! j) \<and> t_arguments (us ! j) \<noteq> []" if "j < N" for j
    using list_all2_nthD [OF all2, of j] reworked_loaded one run(2) that len l by (simp add: nth_append)
  moreover have "reworked (load_final (rd_strings doc)) (us ! N)" using list_all2_nthD [OF all2, of N] len by (simp add: nth_append)
  ultimately show ?thesis
    using l N(2) load_globals_fields [OF g] reworked_final hashtbl_ok_create [OF size]
    by (simp add: workflow_loaded_def w load_folders_def list_all_length Let_def)
qed

lemma load_loaded: "oph_workflow_load env json u ip = Some (Inr w) \<Longrightarrow> workflow_loaded w"
  by (auto simp: oph_workflow_load_def dest: load_document_loaded split: option.splits)

section \<open>Comments are removed\<close>

text \<open>
  A request as a sequence of pieces: texts, block comments and comments up to the end of a line. A text has a slash only within its values,
  which all end in it; a comment has no quote, and a block comment has no star.
\<close>

datatype request_piece = Piece_Text string | Piece_Block string | Piece_Line string

fun clean_text :: "bool \<Rightarrow> char option \<Rightarrow> string \<Rightarrow> bool" where
  "clean_text invalue prev [] \<longleftrightarrow> \<not> invalue \<and> prev \<noteq> Some CHR 0x5C"
| "clean_text invalue prev (c # s) \<longleftrightarrow>
     (let invalue = (if c = CHR 0x22 \<and> prev \<noteq> Some CHR 0x5C then \<not> invalue else invalue) in
      (invalue \<or> c \<noteq> CHR ''/'') \<and> clean_text invalue (Some c) s)"

fun piece_ok :: "request_piece \<Rightarrow> bool" where
  "piece_ok (Piece_Text s) \<longleftrightarrow> clean_text False None s"
| "piece_ok (Piece_Block s) \<longleftrightarrow> CHR 0x22 \<notin> set s \<and> CHR ''*'' \<notin> set s"
| "piece_ok (Piece_Line s) \<longleftrightarrow> CHR 0x22 \<notin> set s \<and> CHR 0x0A \<notin> set s"

fun piece_text :: "request_piece \<Rightarrow> string" where
  "piece_text (Piece_Text s) = s"
| "piece_text (Piece_Block s) = ''/*'' @ s @ ''*/''"
| "piece_text (Piece_Line s) = ''//'' @ s @ [CHR 0x0A]"

text \<open>What is left of a piece: of a block comment its ends of lines.\<close>

fun piece_kept :: "request_piece \<Rightarrow> string" where
  "piece_kept (Piece_Text s) = s"
| "piece_kept (Piece_Block s) = filter (\<lambda>c. c = CHR 0x0A) s"
| "piece_kept (Piece_Line s) = [CHR 0x0A]"

fun last_char :: "char option \<Rightarrow> string \<Rightarrow> char option" where
  "last_char prev [] = prev"
| "last_char prev (c # s) = last_char (Some c) s"

lemma last_char_append [simp]: "last_char prev (s @ t) = last_char (last_char prev s) t"
  by (induction prev s rule: last_char.induct) simp_all

lemma comment_loop_append: "comment_loop prev (s @ t) st = comment_loop (last_char prev s) t (comment_loop prev s st)"
  by (induction prev s st rule: comment_loop.induct) simp_all

lemma comment_loop_text: "clean_text invalue prev s \<Longrightarrow> comment_loop prev s (invalue, 0, out) = (False, 0, out @ s) \<and> last_char prev s \<noteq> Some CHR 0x5C"
proof (induction s arbitrary: invalue prev out)
  case (Cons c s)
  let ?v = "if c = CHR 0x22 \<and> prev \<noteq> Some CHR 0x5C then \<not> invalue else invalue"
  have "comment_step prev c (invalue, 0, out) = (?v, 0, out @ [c])" using Cons.prems by (auto simp: comment_step_def Let_def)
  moreover have "clean_text ?v (Some c) s" using Cons.prems by (simp add: Let_def)
  ultimately show ?case using Cons.IH [of ?v "Some c" "out @ [c]"] by simp
qed simp

lemma comment_loop_block:
  "CHR 0x22 \<notin> set s \<Longrightarrow> CHR ''*'' \<notin> set s \<Longrightarrow> comment_loop prev s (False, 2, out) = (False, 2, out @ filter (\<lambda>c. c = CHR 0x0A) s)"
  by (induction s arbitrary: prev out) (auto simp: comment_step_def)

lemma comment_loop_line: "CHR 0x22 \<notin> set s \<Longrightarrow> CHR 0x0A \<notin> set s \<Longrightarrow> comment_loop prev s (False, 4, out) = (False, 4, out)"
  by (induction s arbitrary: prev out) (auto simp: comment_step_def)

lemma clean_text_prev: "prev \<noteq> Some CHR 0x5C \<Longrightarrow> clean_text invalue None s \<Longrightarrow> clean_text invalue prev s"
  by (cases s) (auto simp: Let_def)

lemma comment_loop_piece:
  assumes "piece_ok p" and "prev \<noteq> Some CHR 0x5C"
  shows "comment_loop prev (piece_text p) (False, 0, out) = (False, 0, out @ piece_kept p) \<and> last_char prev (piece_text p) \<noteq> Some CHR 0x5C"
proof (cases p)
  case (Piece_Text s)
  then show ?thesis using comment_loop_text [of False prev s out] clean_text_prev assms by simp
next
  case (Piece_Block s)
  then show ?thesis using assms by (simp add: comment_loop_append comment_loop_block comment_step_def)
next
  case (Piece_Line s)
  then show ?thesis using assms by (simp add: comment_loop_append comment_loop_line comment_step_def)
qed

lemma comment_loop_pieces:
  "list_all piece_ok ps \<Longrightarrow> prev \<noteq> Some CHR 0x5C \<Longrightarrow>
   comment_loop prev (concat (map piece_text ps)) (False, 0, out) = (False, 0, out @ concat (map piece_kept ps))"
proof (induction ps arbitrary: prev out)
  case (Cons p ps)
  then show ?case using comment_loop_piece [of p prev out] by (simp add: comment_loop_append)
qed simp

section \<open>Properties\<close>

text \<open>
  C20: \<open>oph_workflow_skip_comments\<close> removes the comments of a request and nothing else, for comments without a quote and, in block comments, without a
  star: of a sequence of texts, whose slashes are all within quoted values, of such block comments and of such comments up to the end of a line, it
  returns the texts as they are and the ends of lines.\<close>

theorem skip_comments_removes:
  assumes "list_all piece_ok ps"
  shows "oph_workflow_skip_comments (concat (map piece_text ps)) = Some (concat (map piece_kept ps))"
  using comment_loop_pieces [OF assms, of None "[]"] by (simp add: oph_workflow_skip_comments_def)

theorem skip_comments_removes_witness:
  "oph_workflow_skip_comments (''{/*a'' @ [CHR 0x0A] @ ''b*/'' @ [CHR 0x22] @ ''/x//'' @ [CHR 0x22] @ ''//c'' @ [CHR 0x0A] @ ''}'') =
   Some (''{'' @ [CHR 0x0A] @ [CHR 0x22] @ ''/x//'' @ [CHR 0x22] @ [CHR 0x0A] @ ''}'')"
  using skip_comments_removes [of "[Piece_Text ''{'', Piece_Block (''a'' @ [CHR 0x0A] @ ''b''),
      Piece_Text ([CHR 0x22] @ ''/x//'' @ [CHR 0x22]), Piece_Line ''c'', Piece_Text ''}'']"]
  by simp

text \<open>
  C37: no checkpoint is ever written: when the tasks of a workflow have a table of variables each, as \<open>oph_workflow_load\<close> gives them,
  \<open>oph_workflow_store\<close> for a checkpoint does not succeed. A task without variables ends the loop over the tasks with an error, a variable is read
  through a released pointer, and with no task left there is nothing to write.\<close>

theorem checkpoint_never_stored:
  assumes "list_all (\<lambda>t. t_vars t \<noteq> None) (take (w_tasks_num w) (w_tasks w))"
  shows "oph_workflow_store env w (Some checkpoint) \<noteq> Some (Inr s)"
proof -
  have "store_tasks w (Some checkpoint) is \<noteq> Some (Inr (td # tds))" if "\<forall>i\<in>set is. t_vars (w_tasks w ! i) \<noteq> None" for "is" td tds
    using that
  proof (induction "is")
    case (Cons i "is")
    then show ?case by (auto split: option.splits bool.splits)
  qed simp
  moreover have "\<forall>i\<in>set [0..<w_tasks_num w]. t_vars (w_tasks w ! i) \<noteq> None" if "\<not> length (w_tasks w) < w_tasks_num w"
    using assms that by (auto simp: list_all_length)
  ultimately have "store_request w (Some checkpoint) \<noteq> Some (Inr d)" for d
    by (auto simp: store_request_def neq_Nil_conv split: option.splits if_splits)
  then show ?thesis by (auto simp: oph_workflow_store_def)
qed

definition demo_checkpoint :: oph_workflow where
  [code_defs]: "demo_checkpoint = oph_workflow_alloc
     \<lparr>w_name := Some ''w'', w_tasks := [zero_task\<lparr>t_name := Some ''a'', t_vars := Some (hashtbl_create 1 None)\<rparr>, zero_task], w_tasks_num := 1\<rparr>"

theorem checkpoint_never_stored_witness:
  "oph_workflow_store \<lparr>json_loads = \<lambda>_. None, json_dumps = \<lambda>_. Some ''{}'', oph_base_backoff = 0, oph_direct_output = False\<rparr> demo_checkpoint (Some ''c'')
   \<noteq> Some (Inr ''{}'')"
  by (rule checkpoint_never_stored) (simp add: demo_checkpoint_def)

end
