(* ===== verification/Workflow_Roundtrip.thy ===== *)
theory Workflow_Roundtrip
  imports Workflow_Parsing
begin

text \<open>
  Writing a request and reading it again: the tasks that \<open>oph_workflow_store\<close> writes are the tasks that \<open>oph_workflow_load\<close> reads. The proof goes
  task by task: the steps of the load after the reading of the tasks are one function \<open>rework\<close> of a task, and they change nothing that is written.
\<close>

section \<open>The steps of the load, task by task\<close>

definition put_value :: "string \<Rightarrow> string option \<Rightarrow> oph_workflow_task \<Rightarrow> (wf_code + oph_workflow_task) option" where
  "put_value key v t = (case v of None \<Rightarrow> Some (Inr t) | Some v \<Rightarrow> map_option Inr (substitute_var key v t))"

definition put_cube :: "string option \<Rightarrow> oph_workflow_task \<Rightarrow> (wf_code + oph_workflow_task) option" where
  "put_cube v t = (case v of None \<Rightarrow> Some (Inr t) | Some pid \<Rightarrow> substitute_cube pid t)"

definition put_values :: "oph_workflow \<Rightarrow> oph_workflow_task \<Rightarrow> (wf_code + oph_workflow_task) option" where
  "put_values w t = and_then (and_then (put_value ''project'' (w_project w) t) (put_value ''cwd'' (w_cwd w))) (put_value ''cdd'' (w_cdd w))"

definition final_numbers :: "oph_workflow_task \<Rightarrow> (wf_code + oph_workflow_task) option" where
  "final_numbers t = and_then (and_then (final_number ''ncores'' t) (final_number ''nhost'')) (final_number ''nthreads'')"

definition settle :: "oph_workflow \<Rightarrow> oph_workflow_task \<Rightarrow> (wf_code + oph_workflow_task) option" where
  "settle w t = and_then (and_then (final_numbers t) (put_values w)) (put_cube (w_cube w))"

definition rework :: "oph_workflow \<Rightarrow> oph_workflow_task \<Rightarrow> (wf_code + oph_workflow_task) option" where
  "rework w t = and_then (settle w t) load_operator"

lemma put_simps [simp]:
  "put_value key None = (\<lambda>t. Some (Inr t))" "put_value key (Some v) = (\<lambda>t. map_option Inr (substitute_var key v t))"
  "put_cube None = (\<lambda>t. Some (Inr t))" "put_cube (Some pid) = substitute_cube pid"
  by (simp_all add: fun_eq_iff put_value_def put_cube_def)

lemma and_then_assoc: "and_then (and_then r f) g = and_then r (\<lambda>x. and_then (f x) g)"
  by (auto simp: and_then_def split: option.splits sum.splits)

lemma each_each: "and_then (each f xs) (each g) = Some (Inr zs) \<longleftrightarrow> each (\<lambda>x. and_then (f x) g) xs = Some (Inr zs)"
proof -
  have "(\<lambda>x z. \<exists>y. f x = Some (Inr y) \<and> g y = Some (Inr z)) = (\<lambda>x y. f x = Some (Inr y)) OO (\<lambda>y z. g y = Some (Inr z))" by auto
  then show ?thesis by (simp add: each_Inr list.rel_compp relcompp_apply)
qed

lemma each_Some [simp]: "each (\<lambda>x. Some (Inr x)) xs = Some (Inr xs)"
  by (induction xs) simp_all

lemma each_those: "each (\<lambda>x. map_option Inr (f x)) xs = map_option Inr (those (map f xs))"
  by (induction xs) (auto simp: and_then_def split: option.splits)

lemma each_snoc: "each f (xs @ [x]) = Some (Inr zs) \<longleftrightarrow> (\<exists>ys y. zs = ys @ [y] \<and> each f xs = Some (Inr ys) \<and> f x = Some (Inr y))"
  by (auto simp: each_Inr list_all2_append1 list_all2_Cons1) (metis list_all2_lengthD)

text \<open>A step of the load is a function for the tasks and one for the final task.\<close>

definition splits_into :: "('a list \<Rightarrow> ('e + 'b list) option) \<Rightarrow> ('a \<Rightarrow> ('e + 'b) option) \<Rightarrow> ('a \<Rightarrow> ('e + 'b) option) \<Rightarrow> bool" where
  "splits_into F f g \<longleftrightarrow> (\<forall>ts t us. F (ts @ [t]) = Some (Inr us) \<longleftrightarrow> (\<exists>vs u. us = vs @ [u] \<and> each f ts = Some (Inr vs) \<and> g t = Some (Inr u)))"

lemma splits_then:
  assumes F: "splits_into F f g" and G: "splits_into G f' g'"
  shows "splits_into (\<lambda>ts. and_then (F ts) G) (\<lambda>t. and_then (f t) f') (\<lambda>t. and_then (g t) g')"
  unfolding splits_into_def
proof (intro allI)
  fix ts t us
  have "and_then (F (ts @ [t])) G = Some (Inr us) \<longleftrightarrow> (\<exists>vs u. each f ts = Some (Inr vs) \<and> g t = Some (Inr u) \<and> G (vs @ [u]) = Some (Inr us))"
    using F by (auto simp: splits_into_def)
  also have "\<dots> \<longleftrightarrow> (\<exists>ws x. us = ws @ [x] \<and> and_then (each f ts) (each f') = Some (Inr ws) \<and> and_then (g t) g' = Some (Inr x))"
    using G by (simp add: splits_into_def) blast
  finally show "and_then (F (ts @ [t])) G = Some (Inr us) \<longleftrightarrow>
      (\<exists>vs u. us = vs @ [u] \<and> each (\<lambda>t. and_then (f t) f') ts = Some (Inr vs) \<and> and_then (g t) g' = Some (Inr u))"
    unfolding each_each .
qed

lemma splits_on_loaded: "splits_into (on_loaded f) f (\<lambda>t. Some (Inr t))"
  by (auto simp: splits_into_def on_loaded_def)

lemma splits_number: "splits_into (load_number key 0) (final_number key) (\<lambda>t. Some (Inr t))"
  using splits_on_loaded [of "final_number key"] by (simp add: splits_into_def load_number_def)

lemma splits_value: "splits_into (load_value key v) (put_value key v) (put_value key v)"
proof -
  have "load_value key v ts = each (put_value key v) ts" for ts
    by (cases v) (simp_all add: load_value_def oph_workflow_substitute_var_def each_those)
  then show ?thesis by (simp add: splits_into_def each_snoc)
qed

lemma splits_cube:
  "splits_into (\<lambda>ts. case v of None \<Rightarrow> Some (Inr ts) | Some pid \<Rightarrow> on_loaded (substitute_cube pid) ts) (put_cube v) (\<lambda>t. Some (Inr t))"
  using splits_on_loaded by (cases v) (auto simp: splits_into_def)

lemma splits_substitutions:
  assumes "w_ncores w = 0" and "w_nhosts w = 0" and "w_nthreads w = 0"
  shows "splits_into (load_substitutions w) (rework w) (put_values w)"
proof -
  have "load_substitutions w = (\<lambda>ts. and_then (and_then (and_then (and_then (and_then (and_then (and_then
      (load_number ''ncores'' 0 ts) (load_number ''nhost'' 0)) (load_number ''nthreads'' 0)) (load_value ''project'' (w_project w)))
      (load_value ''cwd'' (w_cwd w))) (load_value ''cdd'' (w_cdd w)))
      (\<lambda>ts. case w_cube w of None \<Rightarrow> Some (Inr ts) | Some pid \<Rightarrow> on_loaded (substitute_cube pid) ts)) (on_loaded load_operator))"
    by (simp add: fun_eq_iff load_substitutions_def assms and_then_assoc)
  moreover have "splits_into \<dots> (\<lambda>t. and_then (and_then (and_then (and_then (and_then (and_then (and_then (final_number ''ncores'' t)
      (final_number ''nhost'')) (final_number ''nthreads'')) (put_value ''project'' (w_project w))) (put_value ''cwd'' (w_cwd w)))
      (put_value ''cdd'' (w_cdd w))) (put_cube (w_cube w))) load_operator)
    (\<lambda>t. and_then (and_then (and_then (and_then (and_then (and_then (and_then (Some (Inr t)) (\<lambda>t. Some (Inr t))) (\<lambda>t. Some (Inr t)))
      (put_value ''project'' (w_project w))) (put_value ''cwd'' (w_cwd w))) (put_value ''cdd'' (w_cdd w))) (\<lambda>t. Some (Inr t))) (\<lambda>t. Some (Inr t)))"
    by (intro splits_then splits_number splits_value splits_cube splits_on_loaded)
  moreover have "and_then r (\<lambda>t. Some (Inr t)) = r" for r :: "(wf_code + oph_workflow_task) option"
    by (auto simp: and_then_def split: option.splits sum.splits)
  ultimately show ?thesis
    by (simp add: rework_def [abs_def] settle_def final_numbers_def put_values_def [abs_def] and_then_assoc)
qed

section \<open>Tasks that the steps leave as they are\<close>

abbreviation keys_of :: "oph_workflow_arg list \<Rightarrow> string set" where
  "keys_of args \<equiv> a_key ` set args"

lemma find_map: "find P (map f xs) = map_option f (find (P \<circ> f) xs)"
  by (induction xs) auto

lemma find_key_Cons: "find_key key (a # args) = (if a_key a = key then Some 0 else map_option Suc (find_key key args))"
proof -
  have "[0..<length (a # args)] = 0 # map Suc [0..<length args]"
    using upt_conv_Cons [of 0 "length (a # args)"] by (simp add: map_Suc_upt del: upt_Suc)
  then show ?thesis by (simp add: find_key_def find_map comp_def)
qed

lemma find_key_find: "(case find_key key args of None \<Rightarrow> None | Some j \<Rightarrow> Some (args ! j)) = find (\<lambda>a. a_key a = key) args"
proof (induction args)
  case (Cons a args)
  then show ?case by (cases "find_key key args") (auto simp: find_key_Cons)
qed (simp add: find_key_def)

lemma find_key_None: "find_key key args = None \<longleftrightarrow> key \<notin> keys_of args"
  by (induction args) (auto simp: find_key_Cons, simp add: find_key_def)

text \<open>The number that the arguments of a task give.\<close>

definition arg_number :: "string \<Rightarrow> oph_workflow_arg list \<Rightarrow> int option" where
  "arg_number key args = (case find (\<lambda>a. a_key a = key) args of None \<Rightarrow> Some 0 | Some a \<Rightarrow> map_option to_int (a_value a))"

lemma arg_number_append: "key \<notin> keys_of bs \<Longrightarrow> arg_number key (as @ bs) = arg_number key as"
proof -
  assume "key \<notin> keys_of bs"
  then have "find (\<lambda>a. a_key a = key) (as @ bs) = find (\<lambda>a. a_key a = key) as"
    by (induction as) (auto simp: find_None_iff)
  then show ?thesis by (simp add: arg_number_def)
qed

lemma final_number_0:
  assumes "get_number key t = 0" and "is_number key"
  shows "final_number key t = Some (Inr u) \<longleftrightarrow> (\<exists>n. arg_number key (t_arguments t) = Some n \<and> 0 \<le> n \<and> u = set_number key n t)"
proof -
  have "set_number key 0 t = t" using assms by (cases t) (auto simp: set_number_def get_number_def is_number_def)
  moreover have "get_number key (set_number key n t) = n" for n by (auto simp: set_number_def get_number_def)
  ultimately show ?thesis
    using assms(1) find_key_find [where key = key and args = "t_arguments t"]
    by (cases "find_key key (t_arguments t)") (auto simp: final_number_def arg_number_def split: option.splits if_splits)
qed

lemma final_numbers_0:
  assumes "t_ncores t = 0" and "t_nhosts t = 0" and "t_nthreads t = 0"
  shows "final_numbers t = Some (Inr u) \<longleftrightarrow> (\<exists>a b c. arg_number ''ncores'' (t_arguments t) = Some a \<and> 0 \<le> a \<and>
    arg_number ''nhost'' (t_arguments t) = Some b \<and> 0 \<le> b \<and> arg_number ''nthreads'' (t_arguments t) = Some c \<and> 0 \<le> c \<and>
    u = t\<lparr>t_ncores := a, t_nhosts := b, t_nthreads := c\<rparr>)"
proof -
  have a: "final_number ''ncores'' t = Some (Inr x) \<longleftrightarrow> (\<exists>n. arg_number ''ncores'' (t_arguments t) = Some n \<and> 0 \<le> n \<and> x = t\<lparr>t_ncores := n\<rparr>)" for x
    using assms by (subst final_number_0) (simp_all add: get_number_def is_number_def set_number_def)
  have b: "final_number ''nhost'' (t\<lparr>t_ncores := n\<rparr>) = Some (Inr x) \<longleftrightarrow>
      (\<exists>m. arg_number ''nhost'' (t_arguments t) = Some m \<and> 0 \<le> m \<and> x = t\<lparr>t_ncores := n, t_nhosts := m\<rparr>)" for n x
    using assms by (subst final_number_0) (simp_all add: get_number_def is_number_def set_number_def)
  have c: "final_number ''nthreads'' (t\<lparr>t_ncores := n, t_nhosts := m\<rparr>) = Some (Inr x) \<longleftrightarrow>
      (\<exists>k. arg_number ''nthreads'' (t_arguments t) = Some k \<and> 0 \<le> k \<and> x = t\<lparr>t_ncores := n, t_nhosts := m, t_nthreads := k\<rparr>)" for n m x
    using assms by (subst final_number_0) (simp_all add: get_number_def is_number_def set_number_def)
  show ?thesis unfolding final_numbers_def by (auto simp: a b c)
qed

lemma put_value_found: "key \<in> keys_of (t_arguments t) \<Longrightarrow> \<not> is_number key \<Longrightarrow> put_value key v t = Some (Inr t)"
  using find_key_None [of key "t_arguments t"] by (cases v) (auto simp: substitute_var_def split: option.splits)

lemma put_value_grows:
  assumes "put_value key v t = Some (Inr u)" and "\<not> is_number key"
  shows "\<exists>bs. u = t\<lparr>t_arguments := t_arguments t @ bs\<rparr> \<and> keys_of bs \<subseteq> {key} \<and> (v \<noteq> None \<longrightarrow> key \<in> keys_of (t_arguments u))"
proof (cases "v = None \<or> key \<in> keys_of (t_arguments t)")
  case True
  then show ?thesis using assms put_value_found [of key t v] by (intro exI [of _ "[]"]) (cases v; cases t; auto)
next
  case False
  then obtain x where "v = Some x" by auto
  then have "u = t\<lparr>t_arguments := t_arguments t @ [plain_arg key x]\<rparr>"
    using assms False find_key_None [of key "t_arguments t"] by (auto simp: substitute_var_def is_number_def split: if_splits option.splits)
  then show ?thesis by (intro exI [of _ "[plain_arg key x]"]) (simp add: plain_arg_def)
qed

lemma put_cube_grows:
  assumes "put_cube v t = Some (Inr u)"
  shows "(\<exists>bs. u = t\<lparr>t_arguments := t_arguments t @ bs\<rparr> \<and> keys_of bs \<subseteq> {''cube''}) \<and> put_cube v u = Some (Inr u)"
proof (cases "u = t")
  case True
  then show ?thesis using assms by (auto intro!: exI [of _ "[]"])
next
  case False
  then obtain pid where "v = Some pid" "u = t\<lparr>t_arguments := t_arguments t @ [plain_arg ''cube'' pid]\<rparr>"
    using assms by (cases v) (auto simp: substitute_cube_def split: if_splits)
  moreover have "find_key ''cube'' (t_arguments t @ [plain_arg ''cube'' pid]) \<noteq> None" unfolding find_key_None by (simp add: plain_arg_def)
  ultimately show ?thesis by (auto simp: substitute_cube_def plain_arg_def)
qed

definition settled :: "oph_workflow \<Rightarrow> oph_workflow_task \<Rightarrow> bool" where
  "settled w v \<longleftrightarrow> arg_number ''ncores'' (t_arguments v) = Some (t_ncores v) \<and> 0 \<le> t_ncores v \<and>
     arg_number ''nhost'' (t_arguments v) = Some (t_nhosts v) \<and> 0 \<le> t_nhosts v \<and>
     arg_number ''nthreads'' (t_arguments v) = Some (t_nthreads v) \<and> 0 \<le> t_nthreads v \<and>
     put_values w v = Some (Inr v) \<and> put_cube (w_cube w) v = Some (Inr v)"

lemma put_values_grows:
  assumes "put_values w t = Some (Inr u)"
  shows "\<exists>bs. u = t\<lparr>t_arguments := t_arguments t @ bs\<rparr> \<and> keys_of bs \<subseteq> {''project'', ''cwd'', ''cdd''} \<and>
    (\<forall>bs'. put_values w (u\<lparr>t_arguments := t_arguments u @ bs'\<rparr>) = Some (Inr (u\<lparr>t_arguments := t_arguments u @ bs'\<rparr>)))"
proof -
  obtain a b where p: "put_value ''project'' (w_project w) t = Some (Inr a)" "put_value ''cwd'' (w_cwd w) a = Some (Inr b)"
    "put_value ''cdd'' (w_cdd w) b = Some (Inr u)"
    using assms by (auto simp: put_values_def)
  obtain x where x: "a = t\<lparr>t_arguments := t_arguments t @ x\<rparr>" "keys_of x \<subseteq> {''project''}" "w_project w \<noteq> None \<longrightarrow> ''project'' \<in> keys_of (t_arguments a)"
    using put_value_grows [OF p(1)] by (auto simp: is_number_def)
  obtain y where y: "b = a\<lparr>t_arguments := t_arguments a @ y\<rparr>" "keys_of y \<subseteq> {''cwd''}" "w_cwd w \<noteq> None \<longrightarrow> ''cwd'' \<in> keys_of (t_arguments b)"
    using put_value_grows [OF p(2)] by (auto simp: is_number_def)
  obtain z where z: "u = b\<lparr>t_arguments := t_arguments b @ z\<rparr>" "keys_of z \<subseteq> {''cdd''}" "w_cdd w \<noteq> None \<longrightarrow> ''cdd'' \<in> keys_of (t_arguments u)"
    using put_value_grows [OF p(3)] by (auto simp: is_number_def)
  have k: "w_project w \<noteq> None \<longrightarrow> ''project'' \<in> keys_of (t_arguments u)" "w_cwd w \<noteq> None \<longrightarrow> ''cwd'' \<in> keys_of (t_arguments u)"
    using x(3) y(3) by (auto simp: y(1) z(1))
  have same: "put_value key v (u\<lparr>t_arguments := t_arguments u @ bs'\<rparr>) = Some (Inr (u\<lparr>t_arguments := t_arguments u @ bs'\<rparr>))"
    if "v \<noteq> None \<longrightarrow> key \<in> keys_of (t_arguments u)" "\<not> is_number key" for key v bs'
    using that put_value_found [of key "u\<lparr>t_arguments := t_arguments u @ bs'\<rparr>" v] by (cases v) auto
  have "put_values w (u\<lparr>t_arguments := t_arguments u @ bs'\<rparr>) = Some (Inr (u\<lparr>t_arguments := t_arguments u @ bs'\<rparr>))" for bs'
    unfolding put_values_def using same [OF k(1)] same [OF k(2)] same [OF z(3)] by (simp add: is_number_def)
  moreover have "u = t\<lparr>t_arguments := t_arguments t @ x @ y @ z\<rparr>" by (simp add: x(1) y(1) z(1))
  moreover have "keys_of (x @ y @ z) \<subseteq> {''project'', ''cwd'', ''cdd''}" using x(2) y(2) z(2) by auto
  ultimately show ?thesis by blast
qed

lemma settle_settled:
  assumes "settle w t = Some (Inr v)" and "t_ncores t = 0" and "t_nhosts t = 0" and "t_nthreads t = 0"
  shows "settled w v" and "\<exists>args a b c. v = t\<lparr>t_arguments := args, t_ncores := a, t_nhosts := b, t_nthreads := c\<rparr> \<and>
    (\<exists>bs. args = t_arguments t @ bs \<and> keys_of bs \<subseteq> {''project'', ''cwd'', ''cdd'', ''cube''})"
proof -
  obtain x y where s: "final_numbers t = Some (Inr x)" "put_values w x = Some (Inr y)" "put_cube (w_cube w) y = Some (Inr v)"
    using assms(1) by (auto simp: settle_def)
  obtain a b c where n: "arg_number ''ncores'' (t_arguments t) = Some a" "0 \<le> a" "arg_number ''nhost'' (t_arguments t) = Some b" "0 \<le> b"
    "arg_number ''nthreads'' (t_arguments t) = Some c" "0 \<le> c" "x = t\<lparr>t_ncores := a, t_nhosts := b, t_nthreads := c\<rparr>"
    using s(1) final_numbers_0 [OF assms(2-4)] by blast
  obtain bs where y: "y = x\<lparr>t_arguments := t_arguments x @ bs\<rparr>" "keys_of bs \<subseteq> {''project'', ''cwd'', ''cdd''}"
    "\<And>bs'. put_values w (y\<lparr>t_arguments := t_arguments y @ bs'\<rparr>) = Some (Inr (y\<lparr>t_arguments := t_arguments y @ bs'\<rparr>))"
    using put_values_grows [OF s(2)] by blast
  obtain cs where v: "v = y\<lparr>t_arguments := t_arguments y @ cs\<rparr>" "keys_of cs \<subseteq> {''cube''}" "put_cube (w_cube w) v = Some (Inr v)"
    using put_cube_grows [OF s(3)] by blast
  have args: "t_arguments v = t_arguments t @ bs @ cs" using v(1) y(1) n(7) by simp
  have k: "keys_of (bs @ cs) \<subseteq> {''project'', ''cwd'', ''cdd'', ''cube''}" using y(2) v(2) by auto
  then have "arg_number key (t_arguments v) = arg_number key (t_arguments t)" if "is_number key" for key
    using that arg_number_append [of key "bs @ cs" "t_arguments t"] unfolding args by (auto simp: is_number_def)
  then show "settled w v"
    using n v y(3) [of cs] by (simp add: settled_def is_number_def y(1))
  show "\<exists>args a b c. v = t\<lparr>t_arguments := args, t_ncores := a, t_nhosts := b, t_nthreads := c\<rparr> \<and>
    (\<exists>bs. args = t_arguments t @ bs \<and> keys_of bs \<subseteq> {''project'', ''cwd'', ''cdd'', ''cube''})"
    using k by (intro exI [of _ "t_arguments t @ bs @ cs"] exI [of _ a] exI [of _ b] exI [of _ c] conjI exI [of _ "bs @ cs"]) (simp_all add: v(1) y(1) n(7))
qed

lemma settle_again:
  assumes "settled w v"
  shows "settle w (v\<lparr>t_ncores := 0, t_nhosts := 0, t_nthreads := 0\<rparr>) = Some (Inr v)"
proof -
  have "final_numbers (v\<lparr>t_ncores := 0, t_nhosts := 0, t_nthreads := 0\<rparr>) = Some (Inr v)"
    using assms by (subst final_numbers_0) (simp_all add: settled_def)
  then show ?thesis using assms by (simp add: settle_def settled_def)
qed

section \<open>A task that is written and read\<close>

lemma add_to_json_apply [simp]: "add_to_json key v m x = (if x = key \<and> v \<noteq> None then v else m x)"
  by (auto simp: add_to_json_def split: option.splits)

lemma load_argument_text: "CHR ''='' \<notin> set k \<Longrightarrow> load_argument (k @ ''='' @ v) = Some (Inr (plain_arg k v))"
proof -
  assume "CHR ''='' \<notin> set k"
  then have "takeWhile (\<lambda>c. c \<noteq> CHR ''='') (k @ CHR ''='' # v) = k" "dropWhile (\<lambda>c. c \<noteq> CHR ''='') (k @ CHR ''='' # v) = CHR ''='' # v"
    by (induction k) auto
  then show ?thesis by (simp add: load_argument_def)
qed

definition arg_text :: "oph_workflow_arg \<Rightarrow> string" where
  "arg_text a = a_key a @ ''='' @ the (a_value a)"

lemma load_arguments_text: "args_loaded args \<Longrightarrow> each load_argument (map arg_text args) = Some (Inr args)"
proof (induction args)
  case (Cons a args)
  then have "CHR ''='' \<notin> set (a_key a)" "plain_arg (a_key a) (the (a_value a)) = a" by (auto simp: args_loaded_def plain_arg_def)
  then have "load_argument (arg_text a) = Some (Inr a)" using load_argument_text by (simp add: arg_text_def)
  then show ?case using Cons by (simp add: args_loaded_def)
qed simp

definition dep_text :: "oph_workflow_dep \<Rightarrow> json_strings" where
  "dep_text d = [''argument'' \<mapsto> the (d_argument d), ''order'' \<mapsto> the (d_order d), ''task'' \<mapsto> the (d_task_name d), ''type'' \<mapsto> the (d_type d),
     ''filter'' \<mapsto> the (d_filter d), ''output_argument'' \<mapsto> the (d_output_argument d), ''output_order'' \<mapsto> the (d_output_order d)]"

lemma load_deps_text: "list_all dep_loaded ds \<Longrightarrow> load_deps k (map dep_text ds) = Inr ds"
  by (induction ds arbitrary: k) (auto simp: dep_loaded_def dep_text_def preset_def)

text \<open>What is written of the operator and the arguments is what was read.\<close>

lemma store_operator_read:
  assumes "load_operator v = Some (Inr t)" and "t_type v = Some ty" and "t_operator v = Some operator" and "t_rtype v = None"
    and "erase_command t \<longrightarrow> length (filter (\<lambda>a. a_key a = ''command'') (t_arguments t)) = 1"
  shows "store_operator t = Some (Some operator)" and "(case t_rtype t of None \<Rightarrow> t_type t | Some ty \<Rightarrow> Some ty) = Some ty"
    and "(if erase_command t then filter (\<lambda>a. a_key a \<noteq> ''command'') (t_arguments t) else t_arguments t) = t_arguments v"
proof -
  consider (command) "ty = ''cdo'' \<or> ty = ''generic''" | (control) "ty = ''control''" | (plain) "ty \<noteq> ''cdo''" "ty \<noteq> ''generic''" "ty \<noteq> ''control''" by blast
  then have "store_operator t = Some (Some operator) \<and> (case t_rtype t of None \<Rightarrow> t_type t | Some ty \<Rightarrow> Some ty) = Some ty \<and>
    (if erase_command t then filter (\<lambda>a. a_key a \<noteq> ''command'') (t_arguments t) else t_arguments t) = t_arguments v"
  proof cases
    case command
    then have t: "t = v\<lparr>t_arguments := t_arguments v @ [plain_arg ''command'' operator], t_operator := Some (''oph_'' @ ty),
        t_rtype := Some ty, t_type := Some ''ophidia''\<rparr>"
      using assms(1-3) by (auto simp: load_operator_def split: if_splits)
    have e: "erase_command t" using command by (auto simp: t erase_command_def)
    then have "\<forall>a\<in>set (t_arguments v). a_key a \<noteq> ''command''" using assms(5) by (simp add: t plain_arg_def filter_empty_conv)
    then show ?thesis using e by (simp add: t store_operator_def plain_arg_def)
  next
    case control
    then show ?thesis using assms(1-4) by (auto simp: load_operator_def store_operator_def erase_command_def)
  next
    case plain
    then show ?thesis using assms(1-4) by (auto simp: load_operator_def store_operator_def erase_command_def)
  qed
  then show "store_operator t = Some (Some operator)" and "(case t_rtype t of None \<Rightarrow> t_type t | Some ty \<Rightarrow> Some ty) = Some ty"
    and "(if erase_command t then filter (\<lambda>a. a_key a \<noteq> ''command'') (t_arguments t) else t_arguments t) = t_arguments v" by blast+
qed

text \<open>A task that is written without a loss: its arguments fit in the buffer, its dependencies name other tasks, and its response is saved.\<close>

definition storable_task :: "oph_workflow \<Rightarrow> nat \<Rightarrow> bool" where
  [code_defs]: "storable_task w i \<longleftrightarrow> (let t = w_tasks w ! i in t_save t \<and>
     list_all (\<lambda>a. length (arg_text a) < OPH_WORKFLOW_MAX_STRING) (t_arguments t) \<and>
     (erase_command t \<longrightarrow> length (filter (\<lambda>a. a_key a = ''command'') (t_arguments t)) = 1) \<and>
     list_all (\<lambda>d. case find_name (the (d_task_name d)) (take (w_tasks_num w) (w_tasks w)) 0 of Some (Some k) \<Rightarrow> k \<noteq> i | _ \<Rightarrow> False) (t_deps t))"

lemma store_dep_text:
  assumes "dep_loaded d" and "find_name (the (d_task_name d)) (take (w_tasks_num w) (w_tasks w)) 0 = Some (Some k)" and "k \<noteq> i"
  shows "store_dep w None i d = Some (Some (dep_text d))"
proof -
  obtain a b c e f g h where d: "d_output_order d = Some a" "d_output_argument d = Some b" "d_filter d = Some c" "d_type d = Some e"
    "d_task_name d = Some f" "d_order d = Some g" "d_argument d = Some h"
    using assms(1) unfolding dep_loaded_def by blast
  show ?thesis using assms(2,3) by (simp add: store_dep_def dep_text_def d add_to_json_def)
qed

lemma store_task_text:
  assumes "storable_task w i" and "w_tasks w ! i = t" and "load_operator v = Some (Inr t)" and "task_loaded v" and "t_rtype v = None"
  shows "\<exists>m. store_task w None i = Some \<lparr>td_strings = m, td_arguments = Some (map Some (map arg_text (t_arguments v))),
      td_dependencies = (if t_deps v = [] then None else Some (map dep_text (t_deps v))), td_variables = None\<rparr> \<and>
    m ''name'' = t_name v \<and> m ''operator'' = t_operator v \<and> m ''type'' = t_type v \<and> m ''on_error'' = t_on_error v \<and> m ''on_exit'' = t_on_exit v \<and>
    m ''run'' = (if t_run v then None else Some ''no'') \<and> m ''save'' = None \<and> m ''checkpoint'' = t_checkpoint v"
proof -
  obtain ty operator where v: "t_type v = Some ty" "t_operator v = Some operator" using assms(4) by (auto simp: task_loaded_def)
  have st: "erase_command t \<longrightarrow> length (filter (\<lambda>a. a_key a = ''command'') (t_arguments t)) = 1" "list_all (\<lambda>a. length (arg_text a) < OPH_WORKFLOW_MAX_STRING) (t_arguments t)"
    and sd: "list_all (\<lambda>d. case find_name (the (d_task_name d)) (take (w_tasks_num w) (w_tasks w)) 0 of Some (Some k) \<Rightarrow> k \<noteq> i | _ \<Rightarrow> False) (t_deps t)"
    using assms(1,2) by (auto simp: storable_task_def Let_def)
  note op = store_operator_read [OF assms(3) v assms(5) st(1)]
  have b: "bare t = bare v" using load_operator_reworked [OF assms(3)] by (simp add: reworked_def)
  have args: "those (map store_argument (t_arguments v)) = Some (map arg_text (t_arguments v))"
  proof -
    have "set (t_arguments v) \<subseteq> set (t_arguments t)" using op(3) by (metis filter_is_subset set_eq_subset)
    then have "store_argument a = Some (arg_text a)" if "a \<in> set (t_arguments v)" for a
      using that st(2) assms(4) by (fastforce simp: task_loaded_def args_loaded_def list_all_iff store_argument_def arg_text_def)
    then show ?thesis by (intro those_map_Some) blast
  qed
  have "store_dep w None i d = Some (Some (dep_text d))" if d: "d \<in> set (t_deps v)" for d
  proof -
    have "dep_loaded d" using d assms(4) by (auto simp: task_loaded_def list_all_iff)
    moreover have "case find_name (the (d_task_name d)) (take (w_tasks_num w) (w_tasks w)) 0 of Some (Some k) \<Rightarrow> k \<noteq> i | _ \<Rightarrow> False"
      using d sd bare_fields(4) [OF b] by (simp add: list_all_iff)
    then obtain k where "find_name (the (d_task_name d)) (take (w_tasks_num w) (w_tasks w)) 0 = Some (Some k)" "k \<noteq> i"
      by (auto split: option.splits)
    ultimately show ?thesis by (rule store_dep_text)
  qed
  then have deps: "those (map (store_dep w None i) (t_deps v)) = Some (map Some (map dep_text (t_deps v)))"
    by (simp add: those_map_Some comp_def)
  have f: "t_on_error t = t_on_error v" "t_on_exit t = t_on_exit v" "t_run t = t_run v" "t_checkpoint t = t_checkpoint v"
    using b [THEN arg_cong, of t_on_error] b [THEN arg_cong, of t_on_exit] b [THEN arg_cong, of t_run] b [THEN arg_cong, of t_checkpoint]
    by (simp_all add: bare_def)
  show ?thesis
    unfolding store_task_def Let_def assms(2) op(1,3) args bare_fields(4) [OF b] deps
    using op(2) v f bare_fields(1) [OF b] by (simp add: comp_def filter_map)
qed

text \<open>The policies of a task, with the values of the workflow where the task has none of its own.\<close>

lemma error_policy_filled:
  assumes "error_policy base (or_else v g) = Some (Inr p)"
  shows "error_policy base (or_else (filled (\<lambda>_. v) key) (filled (\<lambda>_. g) key')) = Some (Inr p)"
proof -
  have "error_policy base (Some []) \<noteq> Some (Inr p)" by (simp add: error_policy_def)
  then show ?thesis using assms by (auto simp: or_else_def filled_def split: option.splits list.splits)
qed

lemma exit_policy_filled:
  assumes "exit_policy (or_else v g) = Inr a" and "filled (\<lambda>_. g) key' = None"
  shows "exit_policy (or_else (filled (\<lambda>_. v) key) None) = Inr a"
proof -
  have "exit_policy None = Inr 0" "exit_policy (Some []) = Inr 0" by (simp_all add: exit_policy_def)
  then show ?thesis using assms by (auto simp: or_else_def filled_def split: option.splits list.splits)
qed

lemma load_checkpoint_again:
  assumes "load_checkpoint g v = Some (Inr c)"
  shows "load_checkpoint g c = Some (Inr c)"
  using assms by (auto simp: load_checkpoint_def split: option.splits list.splits if_splits)

lemma yes_no_run:
  assumes "yes_no True (or_else v g) = Some run" and "yes_no True g = Some True"
  shows "yes_no True (or_else (if run then None else Some ''no'') None) = Some run"
  using assms by (auto simp: yes_no_def or_else_def split: if_splits option.splits)

lemma load_type_again: "load_type operator x = Inr ty \<Longrightarrow> load_type operator (Some ty) = Inr ty"
  by (auto simp: load_type_def split: option.splits if_splits)

lemma load_task_again:
  assumes load: "load_task env g N (i, td) = Some (Inr t0)" and v: "v = t0\<lparr>t_arguments := args, t_ncores := a, t_nhosts := b, t_nthreads := c\<rparr>"
    and args: "args_loaded args" and save: "t_save t0" and exit: "filled g ''on_exit'' = None" and run: "yes_no True (g ''run'') = Some True"
    and m: "m ''name'' = t_name v" "m ''operator'' = t_operator v" "m ''type'' = t_type v" "m ''on_error'' = t_on_error v" "m ''on_exit'' = t_on_exit v"
      "m ''run'' = (if t_run v then None else Some ''no'')" "m ''save'' = None" "m ''checkpoint'' = t_checkpoint v"
    and g': "g' ''on_error'' = filled g ''on_error''" "g' ''on_exit'' = None" "g' ''run'' = None" "g' ''save'' = None" "g' ''checkpoint'' = filled g ''checkpoint''"
  shows "load_task env g' N (i, \<lparr>td_strings = m, td_arguments = Some (map Some (map arg_text args)),
      td_dependencies = (if t_deps v = [] then None else Some (map dep_text (t_deps v))), td_variables = None\<rparr>) =
    Some (Inr (v\<lparr>t_ncores := 0, t_nhosts := 0, t_nthreads := 0, t_vars := Some (hashtbl_create (of_nat N) None)\<rparr>))"
proof (rule load_taskE [OF load])
  fix name operator type args0 deps retry_num backoff_time backoff_type exit_action run' save' checkpoint
  assume l: "td_strings td ''name'' = Some name" "td_strings td ''operator'' = Some operator" "load_type operator (td_strings td ''type'') = Inr type"
    "load_deps 0 (case td_dependencies td of None \<Rightarrow> [] | Some ds \<Rightarrow> ds) = Inr deps"
    "error_policy (c_int (oph_base_backoff env)) (or_else (td_strings td ''on_error'') (g ''on_error'')) = Some (Inr (retry_num, backoff_time, backoff_type))"
    "exit_policy (or_else (td_strings td ''on_exit'') (g ''on_exit'')) = Inr exit_action"
    "yes_no True (or_else (td_strings td ''run'') (g ''run'')) = Some run'"
    "load_checkpoint (filled g ''checkpoint'') (td_strings td ''checkpoint'') = Some (Inr checkpoint)"
    and t0: "t0 = zero_task\<lparr>t_name := Some name, t_operator := Some operator, t_type := Some type, t_arguments := args0,
      t_deps := deps, t_residual_deps_num := int (length deps),
      t_vars := Some (load_vars i (case td_variables td of None \<Rightarrow> [] | Some vs \<Rightarrow> vs) (hashtbl_create (of_nat N) None)),
      t_retry_num := retry_num, t_backoff_time := backoff_time, t_backoff_type := backoff_type,
      t_on_error := filled (td_strings td) ''on_error'', t_residual_retry_num := retry_num, t_exit_action := exit_action,
      t_on_exit := filled (td_strings td) ''on_exit'', t_outputs_file := - 1, t_run := run', t_save := save', t_parent := - 1, t_child := - 1,
      t_checkpoint := checkpoint\<rparr>"
  have arguments: "arguments_of \<lparr>td_strings = m, td_arguments = Some (map Some (map arg_text args)), td_dependencies = ds, td_variables = None\<rparr> = map arg_text args" for ds
    by (simp add: arguments_of_def comp_def filter_map)
  have filled_again: "filled (\<lambda>_. filled x key) key' = filled x key" for x key key' by (simp add: filled_def split: option.splits list.splits)
  have policy: "error_policy (c_int (oph_base_backoff env)) (or_else (filled (td_strings td) ''on_error'') (filled g ''on_error'')) = Some (Inr (retry_num, backoff_time, backoff_type))"
    using error_policy_filled [OF l(5)] by (simp add: filled_def)
  have policy': "exit_policy (or_else (filled (td_strings td) ''on_exit'') None) = Inr exit_action"
    using exit_policy_filled [OF l(6)] exit by (simp add: filled_def)
  have cp: "load_checkpoint (filled g' ''checkpoint'') checkpoint = Some (Inr checkpoint)"
    using load_checkpoint_again [OF l(8)] filled_again g'(5) by (simp add: filled_def)
  have again: "filled m ''on_error'' = filled (td_strings td) ''on_error''" "filled m ''on_exit'' = filled (td_strings td) ''on_exit''"
    using filled_again m(4,5) by (simp_all add: v t0 filled_def)
  let ?ds = "if t_deps v = [] then None else Some (map dep_text (t_deps v))"
  have load_deps: "load_deps 0 (case ?ds of None \<Rightarrow> [] | Some ds \<Rightarrow> ds) = Inr deps"
    using load_deps_text [OF load_deps_loaded [OF l(4)]] by (simp add: v t0)
  have save_again: "yes_no True (or_else (m ''save'') (g' ''save'')) = Some True" using m(7) g'(4) by (simp add: yes_no_def or_else_def)
  have run_again: "yes_no True (or_else (m ''run'') (g' ''run'')) = Some run'" using yes_no_run [OF l(7) run] m(6) g'(3) by (simp add: v t0)
  have "load_task env g' N (i, \<lparr>td_strings = m, td_arguments = Some (map Some (map arg_text args)), td_dependencies = ?ds, td_variables = None\<rparr>) =
    Some (Inr (zero_task\<lparr>t_name := Some name, t_operator := Some operator, t_type := Some type, t_arguments := args,
      t_deps := deps, t_residual_deps_num := int (length deps), t_vars := Some (hashtbl_create (of_nat N) None),
      t_retry_num := retry_num, t_backoff_time := backoff_time, t_backoff_type := backoff_type,
      t_on_error := filled (td_strings td) ''on_error'', t_residual_retry_num := retry_num, t_exit_action := exit_action,
      t_on_exit := filled (td_strings td) ''on_exit'', t_outputs_file := - 1, t_run := run', t_save := True, t_parent := - 1, t_child := - 1,
      t_checkpoint := checkpoint\<rparr>))"
    unfolding load_task_def Let_def prod.case task_doc.select_convs load_deps arguments save_again run_again again
    using m(1-5,8) g'(1,2) load_type_again [OF l(3)] load_arguments_text [OF args] policy policy' cp
    by (simp add: v t0)
  moreover have "save'" using save by (simp add: t0)
  ultimately show ?thesis by (simp add: v t0 zero_task_def)
qed

section \<open>The whole request\<close>

text \<open>A workflow that is written without a loss.\<close>

definition storable :: "oph_workflow \<Rightarrow> bool" where
  [code_defs]: "storable w \<longleftrightarrow> w_ncores w = 0 \<and> w_nhosts w = 0 \<and> w_nthreads w = 0 \<and> w_run w \<and> w_on_exit w = None \<and> w_host_partition_orig w = None \<and>
     length (the (w_name w)) < OPH_WORKFLOW_MAX_STRING \<and> list_all (storable_task w) [0..<w_tasks_num w]"

lemma filled_filled [simp]: "filled (\<lambda>_. filled m key) key' = filled m key"
  by (simp add: filled_def split: option.splits list.splits)

lemma filled_Some: "m key = filled m' key' \<Longrightarrow> filled m key = filled m' key'"
  by (simp add: filled_def split: option.splits list.splits)

lemma to_int_0 [simp]: "to_int (show_int 0) = 0"
  by code_simp

lemma load_globalsE:
  assumes "load_globals env u ip g = Inr w0"
  obtains run where "yes_no True (g ''run'') = Some run" and "w_run w0 = run" and "w_name w0 = g ''name''" and "w_name w0 \<noteq> None"
    and "\<forall>s. filled g ''checkpoint'' = Some s \<longrightarrow> \<not> bad_checkpoint s" and "w_checkpoint w0 = filled g ''checkpoint''"
    and "w_on_error w0 = filled g ''on_error''" and "w_on_exit w0 = filled g ''on_exit''" and "w_project w0 = filled g ''project''"
    and "w_cwd w0 = filled g ''cwd''" and "w_cdd w0 = filled g ''cdd''" and "w_cube w0 = filled g ''cube''"
    and "w_ncores w0 = opt_int (g ''ncores'')" and "w_nhosts w0 = opt_int (g ''nhost'')" and "w_nthreads w0 = opt_int (g ''nthreads'')"
proof (cases "g ''name''"; cases "yes_no True (g ''run'')"; cases "yes_no True (g ''save'')"; cases "output_format (g ''output_format'')";
    cases "yes_no (oph_direct_output env) (g ''direct_output'')")
  fix name run save format direct
  assume e: "g ''name'' = Some name" "yes_no True (g ''run'') = Some run" "yes_no True (g ''save'') = Some save"
    "output_format (g ''output_format'') = Some format" "yes_no (oph_direct_output env) (g ''direct_output'') = Some direct"
  have c: "\<forall>s. filled g ''checkpoint'' = Some s \<longrightarrow> \<not> bad_checkpoint s" using assms e(1) by (auto simp: load_globals_def)
  then have "\<not> (case filled g ''checkpoint'' of None \<Rightarrow> False | Some s \<Rightarrow> bad_checkpoint s)" by (auto split: option.splits)
  then show thesis using assms e c that by (auto simp: load_globals_def)
qed (use assms in \<open>auto simp: load_globals_def split: if_splits\<close>)

lemma load_globals_ok:
  assumes "g ''name'' \<noteq> None" and "yes_no True (g ''run'') \<noteq> None" and "yes_no True (g ''save'') \<noteq> None" and "output_format (g ''output_format'') \<noteq> None"
    and "yes_no (oph_direct_output env) (g ''direct_output'') \<noteq> None" and "\<forall>s. filled g ''checkpoint'' = Some s \<longrightarrow> \<not> bad_checkpoint s"
  shows "\<exists>w. load_globals env u ip g = Inr w"
proof -
  have "\<not> (case filled g ''checkpoint'' of None \<Rightarrow> False | Some s \<Rightarrow> bad_checkpoint s)" using assms(6) by (auto split: option.splits)
  then show ?thesis using assms(1-5) by (auto simp: load_globals_def)
qed

lemma preset_filled: "\<exists>c s. preset ''/'' (filled m key) = Some (c # s)"
  by (auto simp: preset_def filled_def split: option.splits list.splits)

text \<open>The name and the policies of a workflow.\<close>

definition same_policies :: "oph_workflow \<Rightarrow> oph_workflow \<Rightarrow> bool" where
  [code_defs]: "same_policies w w' \<longleftrightarrow> w_name w = w_name w' \<and> w_on_error w = w_on_error w' \<and> w_on_exit w = w_on_exit w' \<and>
     w_checkpoint w = w_checkpoint w' \<and> w_run w = w_run w'"

lemma filled_None: "m key = None \<Longrightarrow> filled m key = None"
  by (simp add: filled_def)

lemma store_globals_read:
  assumes g: "load_globals env u ip g = Inr w0" and w: "w = (load_folders w0)\<lparr>w_tasks := ts, w_tasks_num := N, w_residual_tasks_num := n, w_vars := vars\<rparr>"
    and st: "storable w" and name: "w_name w = Some name"
  shows "(\<exists>w1. load_globals env u' ip' (store_globals w name None) = Inr w1 \<and> w_ncores w1 = 0 \<and> w_nhosts w1 = 0 \<and> w_nthreads w1 = 0 \<and>
      w_project w1 = w_project w \<and> w_cwd (load_folders w1) = w_cwd w \<and> w_cdd (load_folders w1) = w_cdd w \<and> w_cube w1 = w_cube w \<and> same_policies w1 w) \<and>
    store_globals w name None ''on_error'' = filled g ''on_error'' \<and> store_globals w name None ''on_exit'' = None \<and>
    store_globals w name None ''run'' = None \<and> store_globals w name None ''save'' = None \<and>
    store_globals w name None ''checkpoint'' = filled g ''checkpoint'' \<and> filled g ''on_exit'' = None \<and> yes_no True (g ''run'') = Some True"
proof (rule load_globalsE [OF g])
  let ?g = "store_globals w name None"
  fix run
  assume r: "yes_no True (g ''run'') = Some run" "w_run w0 = run" and cp: "\<forall>s. filled g ''checkpoint'' = Some s \<longrightarrow> \<not> bad_checkpoint s"
    and f: "w_checkpoint w0 = filled g ''checkpoint''" "w_on_error w0 = filled g ''on_error''" "w_on_exit w0 = filled g ''on_exit''"
      "w_project w0 = filled g ''project''" "w_cwd w0 = filled g ''cwd''" "w_cdd w0 = filled g ''cdd''" "w_cube w0 = filled g ''cube''"
  obtain a b c d where cwd: "w_cwd w = Some (a # b)" "w_cdd w = Some (c # d)"
    using preset_filled [of g "''cwd''"] preset_filled [of g "''cdd''"] f(5,6) by (auto simp: w load_folders_def)
  have n: "w_ncores w = 0" "w_nhosts w = 0" "w_nthreads w = 0" "w_run w" "w_on_exit w = None" "w_host_partition_orig w = None" "length name < OPH_WORKFLOW_MAX_STRING"
    using st name by (simp_all add: storable_def)
  have wf: "w_checkpoint w = filled g ''checkpoint''" "w_on_error w = filled g ''on_error''" "w_project w = filled g ''project''" "w_cube w = filled g ''cube''"
    "w_on_exit w = filled g ''on_exit''" "w_run w = run"
    using f r by (simp_all add: w load_folders_def)
  have k: "?g ''name'' = Some name" "?g ''run'' = None" "?g ''save'' = None" "?g ''output_format'' = None" "?g ''direct_output'' = None"
    "?g ''on_error'' = w_on_error w" "?g ''on_exit'' = None" "?g ''checkpoint'' = w_checkpoint w" "?g ''project'' = w_project w" "?g ''cwd'' = w_cwd w"
    "?g ''cdd'' = w_cdd w" "?g ''cube'' = w_cube w" "?g ''ncores'' = Some (show_int 0)" "?g ''nhost'' = Some (show_int 0)" "?g ''nthreads'' = Some (show_int 0)"
    using n by (auto simp: store_globals_def)
  have fl: "filled ?g ''on_error'' = filled g ''on_error''" "filled ?g ''checkpoint'' = filled g ''checkpoint''" "filled ?g ''project'' = w_project w" "filled ?g ''cube'' = w_cube w"
    using k wf filled_Some [of ?g "''on_error''" g "''on_error''"] filled_Some [of ?g "''checkpoint''" g "''checkpoint''"] filled_Some [of ?g "''project''" g "''project''"] filled_Some [of ?g "''cube''" g "''cube''"] by simp_all
  have "\<exists>w1. load_globals env u' ip' ?g = Inr w1"
    by (rule load_globals_ok) (use k cp fl in \<open>simp_all add: yes_no_def output_format_def\<close>)
  then obtain w1 where w1: "load_globals env u' ip' ?g = Inr w1" by blast
  have "w_ncores w1 = 0 \<and> w_nhosts w1 = 0 \<and> w_nthreads w1 = 0 \<and> w_project w1 = w_project w \<and> w_cwd (load_folders w1) = w_cwd w \<and>
      w_cdd (load_folders w1) = w_cdd w \<and> w_cube w1 = w_cube w \<and> same_policies w1 w"
    by (rule load_globalsE [OF w1]) (use k fl cwd n(4,5) wf(1,2) name in \<open>simp add: opt_int_def load_folders_def filled_None preset_def yes_no_def same_policies_def; simp add: filled_def\<close>)
  then show ?thesis using w1 k wf n(4,5) r by auto
qed

text \<open>The variables of a task are not read by the steps of the load.\<close>

abbreviation with_vars :: "oph_workflow_var hashtbl \<Rightarrow> oph_workflow_task \<Rightarrow> oph_workflow_task" where
  "with_vars x t \<equiv> t\<lparr>t_vars := Some x\<rparr>"

lemma substitute_var_vars: "substitute_var key v (with_vars x t) = map_option (with_vars x) (substitute_var key v t)"
proof (cases "t_arguments t = []")
  case False
  then show ?thesis
    by (cases "find_key key (t_arguments t)"; cases "a_value (t_arguments t ! the (find_key key (t_arguments t)))")
      (simp_all add: substitute_var_def set_number_def)
qed (simp add: substitute_var_def set_number_def)

lemma put_value_vars: "put_value key v t = Some (Inr u) \<Longrightarrow> put_value key v (with_vars x t) = Some (Inr (with_vars x u))"
  by (cases v) (auto simp: substitute_var_vars)

lemma put_values_vars: "put_values w t = Some (Inr u) \<Longrightarrow> put_values w (with_vars x t) = Some (Inr (with_vars x u))"
  unfolding put_values_def and_then_Inr using put_value_vars by blast

lemma put_cube_vars: "put_cube v t = Some (Inr u) \<Longrightarrow> put_cube v (with_vars x t) = Some (Inr (with_vars x u))"
proof (cases v)
  case (Some pid)
  assume "put_cube v t = Some (Inr u)"
  then show ?thesis unfolding Some put_simps by (simp add: substitute_cube_def split: if_splits) auto
qed simp

lemma settled_vars:
  assumes "settled w v" and "w_project w' = w_project w" and "w_cwd w' = w_cwd w" and "w_cdd w' = w_cdd w" and "w_cube w' = w_cube w"
  shows "settled w' (with_vars x v)"
proof -
  have "put_values w' = put_values w" using assms(2-4) by (simp add: fun_eq_iff put_values_def)
  then show ?thesis using assms(1,5) put_values_vars [of w v v x] put_cube_vars [of "w_cube w" v v x] by (simp add: settled_def)
qed

lemma load_operator_vars: "load_operator v = Some (Inr t) \<Longrightarrow> load_operator (with_vars x v) = Some (Inr (with_vars x t))"
  by (auto simp: load_operator_def split: option.splits if_splits)

lemma settled_rework:
  assumes "settled w v" and "load_operator v = Some (Inr t)"
  shows "rework w (v\<lparr>t_ncores := 0, t_nhosts := 0, t_nthreads := 0\<rparr>) = Some (Inr t)"
  using settle_again [OF assms(1)] assms(2) by (simp add: rework_def)

lemma settle_reworked: "settle w t = Some (Inr v) \<Longrightarrow> reworked t v"
proof -
  assume "settle w t = Some (Inr v)"
  then obtain a b c d e f where s: "final_number ''ncores'' t = Some (Inr a)" "final_number ''nhost'' a = Some (Inr b)"
    "final_number ''nthreads'' b = Some (Inr c)" "put_value ''project'' (w_project w) c = Some (Inr d)" "put_value ''cwd'' (w_cwd w) d = Some (Inr e)"
    "put_value ''cdd'' (w_cdd w) e = Some (Inr f)" "put_cube (w_cube w) f = Some (Inr v)"
    by (auto simp: settle_def final_numbers_def put_values_def)
  have put: "reworked x y" if "put_value key u x = Some (Inr y)" "CHR ''='' \<notin> set key" for key u x y
    using that substitute_var_reworked by (cases u) auto
  have cube: "reworked x y" if "put_cube u x = Some (Inr y)" for u x y
    using that substitute_cube_reworked by (cases u) auto
  note final_number_reworked [OF s(1)] also note final_number_reworked [OF s(2)] also note final_number_reworked [OF s(3)]
  also note put [OF s(4)] also note put [OF s(5)] also note put [OF s(6)] also note cube [OF s(7)]
  finally show ?thesis by simp
qed

text \<open>The whole way of a task: read, reworked, written, read and reworked again.\<close>

lemma task_again:
  assumes load: "load_task env g N (i, td) = Some (Inr t0)" and rw: "rework w0 t0 = Some (Inr t)" and t: "w_tasks w ! i = t" "storable_task w i"
    and N: "0 < N" "N < 2 ^ 31" and exit: "filled g ''on_exit'' = None" and run: "yes_no True (g ''run'') = Some True"
    and g': "g' ''on_error'' = filled g ''on_error''" "g' ''on_exit'' = None" "g' ''run'' = None" "g' ''save'' = None" "g' ''checkpoint'' = filled g ''checkpoint''"
    and w1: "w_project w1 = w_project w0" "w_cwd w1 = w_cwd w0" "w_cdd w1 = w_cdd w0" "w_cube w1 = w_cube w0"
  shows "\<exists>td' u. store_task w None i = Some td' \<and> \<not> null_key td' \<and> load_task env g' N (i, td') = Some (Inr u) \<and>
    rework w1 u = Some (Inr (with_vars (hashtbl_create (of_nat N) None) t))"
proof -
  let ?x = "hashtbl_create (of_nat N) None"
  obtain v where v: "settle w0 t0 = Some (Inr v)" "load_operator v = Some (Inr t)" using rw by (auto simp: rework_def)
  have zero: "t_ncores t0 = 0" "t_nhosts t0 = 0" "t_nthreads t0 = 0" "t_rtype t0 = None"
    by (rule load_taskE [OF load], simp add: zero_task_def)+
  note st = settle_settled [OF v(1) zero(1-3)]
  obtain args a b c bs where va: "v = t0\<lparr>t_arguments := args, t_ncores := a, t_nhosts := b, t_nthreads := c\<rparr>"
    and bs: "args = t_arguments t0 @ bs" "keys_of bs \<subseteq> {''project'', ''cwd'', ''cdd'', ''cube''}"
    using st(2) by blast
  have loaded: "task_loaded v"
    using settle_reworked [OF v(1)] load_task_loaded [OF load N] by (rule reworked_loaded)
  have "bare t = bare v" using load_operator_reworked [OF v(2)] by (simp add: reworked_def)
  from arg_cong [OF this, of t_save] have save: "t_save t0" using t by (simp add: bare_def va storable_task_def Let_def)
  obtain m where m: "store_task w None i = Some \<lparr>td_strings = m, td_arguments = Some (map Some (map arg_text (t_arguments v))),
      td_dependencies = (if t_deps v = [] then None else Some (map dep_text (t_deps v))), td_variables = None\<rparr>"
    "m ''name'' = t_name v" "m ''operator'' = t_operator v" "m ''type'' = t_type v" "m ''on_error'' = t_on_error v" "m ''on_exit'' = t_on_exit v"
    "m ''run'' = (if t_run v then None else Some ''no'')" "m ''save'' = None" "m ''checkpoint'' = t_checkpoint v"
    using store_task_text [OF t(2,1) v(2) loaded] zero(4) va by auto
  have args: "args_loaded args" "t_arguments v = args" using loaded va by (simp_all add: task_loaded_def)
  note again = load_task_again [OF load va args(1) save exit run m(2-9) g']
  have "rework w1 ((with_vars ?x v)\<lparr>t_ncores := 0, t_nhosts := 0, t_nthreads := 0\<rparr>) = Some (Inr (with_vars ?x t))"
    using settled_rework [OF settled_vars [OF st(1) w1] load_operator_vars [OF v(2)]] by blast
  moreover have "(with_vars ?x v)\<lparr>t_ncores := 0, t_nhosts := 0, t_nthreads := 0\<rparr> =
      v\<lparr>t_ncores := 0, t_nhosts := 0, t_nthreads := 0, t_vars := Some ?x\<rparr>" by simp
  ultimately show ?thesis using again m(1) unfolding args(2) by (auto simp: null_key_def)
qed

lemma store_tasks_None: "store_tasks w None is = map_option Inr (those (map (store_task w None) is))"
  by (induction "is") (auto simp: and_then_def split: option.splits)

lemma load_document_again:
  assumes g: "load_globals env u ip g = Inr w1" and n: "w_ncores w1 = 0" "w_nhosts w1 = 0" "w_nthreads w1 = 0"
    and N: "1 \<le> N" "N < 2 ^ 31" "length tds = N" and td: "\<forall>i<N. \<not> null_key (tds ! i) \<and> load_task env g N (i, tds ! i) = Some (Inr (ts ! i)) \<and>
      rework (load_folders w1) (ts ! i) = Some (Inr (us ! i))" "length ts = N" "length us = N"
    and f: "put_values (load_folders w1) (load_final g) = Some (Inr t)"
  shows "load_document env u ip \<lparr>rd_strings = g, rd_tasks = Some tds\<rparr> =
    Some (Inr ((load_folders w1)\<lparr>w_tasks := us @ [t], w_tasks_num := N, w_residual_tasks_num := int N, w_vars := hashtbl_create (of_nat N) None\<rparr>))"
proof -
  have c: "nat (c_int (int (length tds))) = N" using N by (simp add: c_int_def)
  have "each (load_task env g N) (zip [0..<N] (take N tds)) = Some (Inr ts)"
    using td N(3) by (auto simp: each_Inr list_all2_conv_all_nth)
  moreover have "\<not> list_ex null_key tds" using td(1) N(3) by (auto simp: list_ex_length)
  moreover have "load_substitutions (load_folders w1) (ts @ [load_final g]) = Some (Inr (us @ [t]))"
    using splits_substitutions [of "load_folders w1"] n td f by (simp add: splits_into_def load_folders_def each_Inr list_all2_conv_all_nth)
  ultimately show ?thesis using g N c by (simp add: load_document_def)
qed

lemma tasks_again:
  fixes w0 w N g
  defines "W \<equiv> load_folders w0" and "x \<equiv> hashtbl_create (of_nat N) None"
  assumes g: "load_globals env u ip g = Inr w0" and N: "0 < N" "N < 2 ^ 31" "N \<le> length tds"
    and ts: "each (load_task env g N) (zip [0..<N] (take N tds)) = Some (Inr ts)" and us: "load_substitutions W (ts @ [load_final g]) = Some (Inr us)"
    and w: "w = W\<lparr>w_tasks := us, w_tasks_num := N, w_residual_tasks_num := int N, w_vars := x\<rparr>" and st: "storable w"
    and w1: "w_project w1 = w_project W" "w_cwd w1 = w_cwd W" "w_cdd w1 = w_cdd W" "w_cube w1 = w_cube W"
    and g': "filled g ''on_exit'' = None" "yes_no True (g ''run'') = Some True" "g' ''on_error'' = filled g ''on_error''" "g' ''on_exit'' = None"
      "g' ''run'' = None" "g' ''save'' = None" "g' ''checkpoint'' = filled g ''checkpoint''"
  shows "\<exists>vs t. us = vs @ [t] \<and> length vs = N \<and> put_values w1 (load_final g') = Some (Inr t) \<and>
    (\<forall>i<N. \<exists>td u. store_task w None i = Some td \<and> \<not> null_key td \<and> load_task env g' N (i, td) = Some (Inr u) \<and>
      rework w1 u = Some (Inr (with_vars x (vs ! i))))"
proof -
  have lt: "length ts = N" using each_nth [OF ts] N by simp
  have "w_ncores W = 0" "w_nhosts W = 0" "w_nthreads W = 0" using st by (simp_all add: storable_def w)
  from splits_substitutions [OF this] obtain vs t where vs: "us = vs @ [t]" "each (rework W) ts = Some (Inr vs)" "put_values W (load_final g) = Some (Inr t)"
    using us unfolding splits_into_def by blast
  have lv: "length vs = N" using each_nth [OF vs(2)] lt by simp
  have "\<exists>td u. store_task w None i = Some td \<and> \<not> null_key td \<and> load_task env g' N (i, td) = Some (Inr u) \<and>
      rework w1 u = Some (Inr (with_vars x (vs ! i)))" if i: "i < N" for i
    unfolding x_def
  proof (rule task_again [OF _ _ _ _ N(1,2) g' w1])
    show "load_task env g N (i, tds ! i) = Some (Inr (ts ! i))" using each_nth [OF ts] i lt N(3) by auto
    show "rework W (ts ! i) = Some (Inr (vs ! i))" using each_nth [OF vs(2)] i lt by auto
    show "w_tasks w ! i = vs ! i" using i lv by (simp add: w vs(1) nth_append)
    show "storable_task w i" using st i by (simp add: storable_def list_all_iff w)
  qed
  moreover have "load_final g' = load_final g" using g'(2,5) by (auto simp: load_final_def yes_no_def split: option.splits if_splits)
  moreover have "put_values w1 = put_values W" using w1 by (simp add: fun_eq_iff put_values_def)
  ultimately show ?thesis using vs lv by auto
qed

lemma request_roundtrip:
  assumes "load_document env u ip doc = Some (Inr w)" and st: "storable w"
  shows "\<exists>d w'. store_request w None = Some (Inr d) \<and> load_document env u' ip' d = Some (Inr w') \<and> w_tasks_num w' = w_tasks_num w \<and>
    map (\<lambda>t. t\<lparr>t_vars := None\<rparr>) (w_tasks w') = map (\<lambda>t. t\<lparr>t_vars := None\<rparr>) (w_tasks w) \<and> same_policies w' w"
proof (rule load_documentE [OF assms(1)])
  fix w0 tds N ts us
  let ?g = "rd_strings doc" and ?W = "load_folders w0" and ?x = "hashtbl_create (of_nat N) None"
  assume g: "load_globals env u ip ?g = Inr w0" and N: "N = nat (c_int (int (length tds)))" "1 \<le> N"
    and ts: "each (load_task env ?g N) (zip [0..<N] (take N tds)) = Some (Inr ts)"
    and us: "load_substitutions ?W (ts @ [load_final ?g]) = Some (Inr us)"
    and w: "w = ?W\<lparr>w_tasks := us, w_tasks_num := N, w_residual_tasks_num := int N, w_vars := ?x\<rparr>"
  have small: "0 < N" "N < 2 ^ 31" using N c_int_range [of "int (length tds)"] by auto
  have lt: "N \<le> length tds" using c_int_le [of "int (length tds)"] N by simp
  have "w_name w0 \<noteq> None" by (rule load_globalsE [OF g])
  then obtain name where name: "w_name w = Some name" by (auto simp: w load_folders_def)
  let ?g' = "store_globals w name None"
  obtain w1 where w1: "load_globals env u' ip' ?g' = Inr w1" "w_ncores w1 = 0" "w_nhosts w1 = 0" "w_nthreads w1 = 0"
      "w_project w1 = w_project w" "w_cwd (load_folders w1) = w_cwd w" "w_cdd (load_folders w1) = w_cdd w" "w_cube w1 = w_cube w" "same_policies w1 w"
    and g': "filled ?g ''on_exit'' = None" "yes_no True (?g ''run'') = Some True" "?g' ''on_error'' = filled ?g ''on_error''" "?g' ''on_exit'' = None"
      "?g' ''run'' = None" "?g' ''save'' = None" "?g' ''checkpoint'' = filled ?g ''checkpoint''"
    using store_globals_read [OF g w st name] by metis
  have W1: "w_project (load_folders w1) = w_project ?W" "w_cwd (load_folders w1) = w_cwd ?W" "w_cdd (load_folders w1) = w_cdd ?W" "w_cube (load_folders w1) = w_cube ?W"
    using w1 by (simp_all add: w load_folders_def)
  obtain vs t f h where vs: "us = vs @ [t]" "length vs = N" "put_values (load_folders w1) (load_final ?g') = Some (Inr t)"
    and fh: "\<And>i. i < N \<Longrightarrow> store_task w None i = Some (f i) \<and> \<not> null_key (f i) \<and> load_task env ?g' N (i, f i) = Some (Inr (h i)) \<and>
      rework (load_folders w1) (h i) = Some (Inr (with_vars ?x (vs ! i)))"
    using tasks_again [OF g small lt ts us w st W1 g'] by metis
  have "load_document env u' ip' \<lparr>rd_strings = ?g', rd_tasks = Some (map f [0..<N])\<rparr> =
    Some (Inr ((load_folders w1)\<lparr>w_tasks := map (with_vars ?x) vs @ [t], w_tasks_num := N, w_residual_tasks_num := int N, w_vars := ?x\<rparr>))"
    by (rule load_document_again [OF w1(1-4) N(2) small(2) _ _ _ _ vs(3), where ts = "map h [0..<N]"]) (use fh vs(2) in simp_all)
  moreover have "those (map (store_task w None) [0..<N]) = Some (map f [0..<N])" using fh by (intro those_map_Some) simp
  then have "store_request w None = Some (Inr \<lparr>rd_strings = ?g', rd_tasks = Some (map f [0..<N])\<rparr>)"
    using name N(2) vs(2) by (simp add: store_request_def store_tasks_None w vs(1))
  moreover have "same_policies (load_folders w1) w" using w1(9) by (simp add: same_policies_def load_folders_def)
  ultimately show ?thesis by (auto simp: w vs(1) comp_def same_policies_def)
qed

section \<open>Properties\<close>

text \<open>
  C5: a request that is written can be read again, with the same tasks. When a request was loaded, the workflow is one that is written without a loss,
  and the JSON library reads the text it made of the document of the request back as the same document, \<open>oph_workflow_store\<close> returns that text, and
  \<open>oph_workflow_load\<close> of the text gives a workflow with the same name and policies and with the same tasks, the final one included: their names,
  operators, types, arguments, dependencies, error and exit policies, numbers of cores, hosts and threads. Only the variables
  of the tasks are new.\<close>

theorem store_load_roundtrip:
  assumes "oph_workflow_load env json_string username ip_address = Some (Inr w)" and "storable w"
    and "\<And>d. store_request w None = Some (Inr d) \<Longrightarrow> json_dumps env d = Some s \<and> json_loads env s = Some d"
    and "oph_workflow_skip_comments s = Some s"
  shows "oph_workflow_store env w None = Some (Inr s) \<and>
    (\<exists>w'. oph_workflow_load env s username' ip_address' = Some (Inr w') \<and> w_tasks_num w' = w_tasks_num w \<and>
      map (\<lambda>t. t\<lparr>t_vars := None\<rparr>) (w_tasks w') = map (\<lambda>t. t\<lparr>t_vars := None\<rparr>) (w_tasks w) \<and> same_policies w' w)"
proof -
  obtain doc where "load_document env username ip_address doc = Some (Inr w)"
    using assms(1) by (auto simp: oph_workflow_load_def split: option.splits)
  from request_roundtrip [OF this assms(2)] show ?thesis
    using assms(3,4) by (fastforce simp: oph_workflow_load_def oph_workflow_store_def)
qed

text \<open>A request of two tasks, and a JSON library for it.\<close>

definition demo_request :: request_doc where
  [code_defs]: "demo_request =
     \<lparr>rd_strings = [''name'' \<mapsto> ''w'', ''cwd'' \<mapsto> ''/x'', ''on_error'' \<mapsto> ''repeat 2''],
      rd_tasks = Some
        [\<lparr>td_strings = [''name'' \<mapsto> ''a'', ''operator'' \<mapsto> ''ls'', ''type'' \<mapsto> ''generic''], td_arguments = Some [Some ''p=1'', Some ''ncores=2''],
          td_dependencies = None, td_variables = None\<rparr>,
         \<lparr>td_strings = [''name'' \<mapsto> ''b'', ''operator'' \<mapsto> ''oph_list'', ''on_error'' \<mapsto> ''skip''], td_arguments = None,
          td_dependencies = Some [[''task'' \<mapsto> ''a'', ''type'' \<mapsto> ''single'']], td_variables = None\<rparr>]\<rparr>"

definition demo_json :: "request_doc \<Rightarrow> parsing_env" where
  [code_defs]: "demo_json stored =
     \<lparr>json_loads = (\<lambda>s. if s = ''{1}'' then Some demo_request else if s = ''{2}'' then Some stored else None), json_dumps = (\<lambda>_. Some ''{2}''),
      oph_base_backoff = 0, oph_direct_output = False\<rparr>"

definition demo_loaded :: oph_workflow where
  [code_defs]: "demo_loaded = projr (the (oph_workflow_load (demo_json demo_request) ''{1}'' ''u'' None))"

definition demo_stored :: request_doc where
  [code_defs]: "demo_stored = projr (the (store_request demo_loaded None))"

lemma demo_json_loaded: "case oph_workflow_load (demo_json demo_request) ''{1}'' ''u'' None of Some (Inr w) \<Rightarrow> storable w | _ \<Rightarrow> False"
  by code_simp

lemma demo_json_stored: "oph_workflow_load (demo_json stored) ''{1}'' ''u'' None = Some (Inr demo_loaded) \<and> storable demo_loaded"
proof -
  have f: "oph_base_backoff (demo_json d) = 0" "oph_direct_output (demo_json d) = False" "json_loads (demo_json d) ''{1}'' = Some demo_request" for d
    by (simp_all add: demo_json_def)
  have t: "load_task (demo_json stored) = load_task (demo_json demo_request)" unfolding fun_eq_iff load_task_def f by blast
  have g: "load_globals (demo_json stored) = load_globals (demo_json demo_request)" unfolding fun_eq_iff load_globals_def f by blast
  have "load_document (demo_json stored) = load_document (demo_json demo_request)" unfolding fun_eq_iff load_document_def t g by blast
  moreover have "oph_workflow_skip_comments ''{1}'' = Some ''{1}''" by code_simp
  ultimately have "oph_workflow_load (demo_json stored) ''{1}'' ''u'' None = oph_workflow_load (demo_json demo_request) ''{1}'' ''u'' None"
    by (simp add: oph_workflow_load_def f)
  then show ?thesis using demo_json_loaded by (auto simp: demo_loaded_def split: option.splits sum.splits)
qed

theorem store_load_roundtrip_witness:
  "oph_workflow_store (demo_json demo_stored) demo_loaded None = Some (Inr ''{2}'') \<and>
   (\<exists>w'. oph_workflow_load (demo_json demo_stored) ''{2}'' ''v'' None = Some (Inr w') \<and>
     map (\<lambda>t. t\<lparr>t_vars := None\<rparr>) (w_tasks w') = map (\<lambda>t. t\<lparr>t_vars := None\<rparr>) (w_tasks demo_loaded))"
proof -
  have "json_dumps (demo_json demo_stored) d = Some ''{2}'' \<and> json_loads (demo_json demo_stored) ''{2}'' = Some d"
    if "store_request demo_loaded None = Some (Inr d)" for d
    using that by (simp add: demo_json_def demo_stored_def)
  moreover have "oph_workflow_skip_comments ''{2}'' = Some ''{2}''" by code_simp
  ultimately show ?thesis using store_load_roundtrip [of "demo_json demo_stored" "''{1}''" "''u''" None demo_loaded "''{2}''" "''v''" None] demo_json_stored by blast
qed

end
