(* ===== verification/Workflow_Submit.thy ===== *)
theory Workflow_Submit
  imports Workflow_Roundtrip Workflow_Progress Parallel_Loops
begin

text \<open>
  The submission of a workflow (the first part of \<open>oph__ophExecuteMain\<close> of \<^verbatim>\<open>src/src/oph_execute_main.c\<close>, with
  \<open>oph_workflow_command_to_json\<close> of \<^verbatim>\<open>src/src/oph_workflow_engine.c\<close>): a request is loaded, a command is turned into a request first, the
  dependencies are indexed, and the workflow is validated and expanded. The theory connects the parts: a workflow that was submitted runs to its end.
\<close>

section \<open>A command as a request\<close>

text \<open>
  \<open>strncat\<close> to a buffer of \<open>OPH_MAX_PROGRAM_SIZE\<close> characters with the free room as its limit: when the text does not fit, the
  terminator is written behind the buffer (\<open>None\<close>).
\<close>

definition append_text :: "string \<Rightarrow> string \<Rightarrow> string option" where
  [code_defs]: "append_text buf s =
     (if OPH_MAX_PROGRAM_SIZE - length buf \<le> 1 then Some buf
      else if OPH_MAX_PROGRAM_SIZE - length buf \<le> length s then None
      else Some (buf @ s))"

definition quoted :: "string \<Rightarrow> string" where
  [code_defs]: "quoted s = [CHR 0x22] @ s @ [CHR 0x22]"

definition header_keys :: "string list" where
  [code_defs]: "header_keys = [''ncores'', ''exec_mode'', ''sessionid'', ''callback_url'']"

text \<open>The loop over the arguments: the operator, the values of the request and the arguments of the task.\<close>

fun command_loop :: "oph_argument list \<Rightarrow> string option \<Rightarrow> string \<Rightarrow> string \<Rightarrow> (string option \<times> string \<times> string) option" where
  "command_loop [] operator header arguments = Some (operator, header, arguments)"
| "command_loop (item # args) operator header arguments =
     (let key = take OPH_MAX_STRING_SIZE (arg_key item) in
      if key = ''operator'' then command_loop args (Some (arg_value item)) header arguments
      else if key \<in> set header_keys then
        (case append_text header (take (OPH_MAX_STRING_SIZE - 1) (quoted key @ '':'' @ quoted (arg_value item) @ '','')) of
           None \<Rightarrow> None
         | Some header \<Rightarrow> command_loop args operator header arguments)
      else if arguments = [] then
        command_loop args operator header
          (take (OPH_MAX_PROGRAM_SIZE - 1) ('','' @ quoted ''arguments'' @ '':['' @ quoted (arg_key item @ ''='' @ arg_value item)))
      else
        (case append_text arguments (take (OPH_MAX_STRING_SIZE - 1) ('','' @ quoted (arg_key item @ ''='' @ arg_value item))) of
           None \<Rightarrow> None
         | Some arguments \<Rightarrow> command_loop args operator header arguments))"

definition basic_json_string :: "string \<Rightarrow> string \<Rightarrow> string \<Rightarrow> string" where
  [code_defs]: "basic_json_string operator header arguments =
     ''{  '' @ quoted ''name'' @ '':'' @ quoted operator @ '',  '' @ quoted ''author'' @ '':'' @ quoted ''Ophidia Server'' @ '',  '' @
     quoted ''abstract'' @ '':'' @ quoted ''This workflow is automatically generated by Ophidia Server.'' @ '',  '' @ header @ ''  '' @
     quoted ''tasks'' @ '':[           {               '' @ quoted ''name'' @ '':'' @ quoted operator @ '',               '' @
     quoted ''operator'' @ '':'' @ quoted operator @ ''               '' @ arguments @ ''           }          ]}''"

definition oph_workflow_command_to_json :: "string \<Rightarrow> (wf_code + string) option" where
  [code_defs]: "oph_workflow_command_to_json command =
     (case oph_parse_query command of
        (rc, args, _) \<Rightarrow>
          if rc \<noteq> OPH_SERVER_OK then Some (Inl OPH_WORKFLOW_EXIT_BAD_PARAM_ERROR)
          else
          (case command_loop args None [] [] of
             None \<Rightarrow> None
           | Some (None, _, _) \<Rightarrow> Some (Inl OPH_WORKFLOW_EXIT_BAD_PARAM_ERROR)
           | Some (Some operator, header, arguments) \<Rightarrow>
               (case (if arguments = [] then Some [] else append_text arguments '']'') of
                  None \<Rightarrow> None
                | Some arguments \<Rightarrow> Some (Inr (take (OPH_MAX_PROGRAM_SIZE - 1) (basic_json_string operator header arguments))))))"

section \<open>Loading and validation\<close>

text \<open>The request is JSON text or a command.\<close>

definition load_request :: "parsing_env \<Rightarrow> string \<Rightarrow> string \<Rightarrow> string \<Rightarrow> (server_code + oph_workflow) option" where
  [code_defs]: "load_request env request userid host =
     (case oph_workflow_load env request userid (Some host) of
        None \<Rightarrow> None
      | Some (Inr w) \<Rightarrow> Some (Inr w)
      | Some (Inl _) \<Rightarrow>
          (case oph_workflow_command_to_json request of
             None \<Rightarrow> None
           | Some (Inl _) \<Rightarrow> Some (Inl OPH_SERVER_WRONG_PARAMETER_ERROR)
           | Some (Inr json) \<Rightarrow>
               (case oph_workflow_load env json userid (Some host) of
                  None \<Rightarrow> None
                | Some (Inl _) \<Rightarrow> Some (Inl OPH_SERVER_WRONG_PARAMETER_ERROR)
                | Some (Inr w) \<Rightarrow> Some (Inr (w\<lparr>w_author := None\<rparr>)))))"

text \<open>The password is kept, the values that the tasks have got already are dropped.\<close>

definition flush_workflow :: "string option \<Rightarrow> oph_workflow \<Rightarrow> oph_workflow" where
  [code_defs]: "flush_workflow passwd w =
     w\<lparr>w_password := (case passwd of None \<Rightarrow> w_password w | Some p \<Rightarrow> Some p), w_cdd := None, w_cwd := None, w_cube := None\<rparr>"

definition validated :: "nat \<Rightarrow> par_env \<Rightarrow> oph_workflow \<Rightarrow> (server_code + oph_workflow) option" where
  [code_defs]: "validated fuel par w =
     (let checked = (\<lambda>r next. case r of
            None \<Rightarrow> None
          | Some (rc, w) \<Rightarrow> if rc \<noteq> OPH_WORKFLOW_EXIT_SUCCESS then Some (Inl OPH_SERVER_WRONG_PARAMETER_ERROR) else next w) in
      checked (map_option (\<lambda>rc. (rc, w)) (oph_workflow_validate w)) (\<lambda>w.
      checked (oph_workflow_validate_fco fuel w) (\<lambda>w.
      checked (oph_workflow_parallel_fco fuel par 0 w) (\<lambda>w'.
      if w_tasks_num w < w_tasks_num w' then checked (oph_workflow_validate_fco fuel w') (\<lambda>w'. Some (Inr w')) else Some (Inr w')))))"

definition submit_workflow :: "parsing_env \<Rightarrow> par_env \<Rightarrow> nat \<Rightarrow> string \<Rightarrow> string \<Rightarrow> string \<Rightarrow> string option \<Rightarrow> (server_code + oph_workflow) option" where
  [code_defs]: "submit_workflow env par fuel request userid host passwd =
     and_then (load_request env request userid host) (\<lambda>w.
     let w = flush_workflow passwd w in
     if w_tasks_num w = 0 then Some (Inl OPH_SERVER_WRONG_PARAMETER_ERROR)
     else
     (case oph_workflow_indexing (w_tasks w) (w_tasks_num w) of
        None \<Rightarrow> None
      | Some (rc, ts) \<Rightarrow>
          if rc \<noteq> OPH_WORKFLOW_EXIT_SUCCESS then Some (Inl OPH_SERVER_SYSTEM_ERROR)
          else validated fuel par (w\<lparr>w_tasks := ts\<rparr>)))"

section \<open>What a loaded workflow keeps\<close>

lemma load_request_loaded: "load_request env request userid host = Some (Inr w) \<Longrightarrow> workflow_loaded w"
  by (auto simp: load_request_def workflow_loaded_def dest: load_loaded split: option.splits sum.splits)

text \<open>A workflow without flow control operators is not changed by their validation and expansion.\<close>

definition flow_operators :: "string list" where
  [code_defs]: "flow_operators = [OPH_OPERATOR_FOR, OPH_OPERATOR_ENDFOR, OPH_OPERATOR_IF, OPH_OPERATOR_ELSEIF, OPH_OPERATOR_ELSE, OPH_OPERATOR_ENDIF]"

definition no_flow_control :: "oph_workflow \<Rightarrow> bool" where
  [code_defs]: "no_flow_control w \<longleftrightarrow>
     list_all (\<lambda>t. case t_operator t of None \<Rightarrow> False | Some s \<Rightarrow> list_all (\<lambda>op. \<not> is_operator s op) flow_operators) (take (w_tasks_num w) (w_tasks w))"

definition unmatched :: "oph_workflow_task \<Rightarrow> bool" where
  "unmatched t \<longleftrightarrow> t_parent t = - 1 \<and> t_child t = - 1 \<and> t_branch_num t = 0 \<and> t_nesting_level t = 0"

lemma no_flow_controlD:
  assumes "no_flow_control w" and "i < w_tasks_num w" and "w_tasks_num w \<le> length (w_tasks w)"
  obtains s where "t_operator (w_tasks w ! i) = Some s" and "\<forall>op\<in>set flow_operators. \<not> is_operator s op"
proof -
  have "w_tasks w ! i \<in> set (take (w_tasks_num w) (w_tasks w))" using assms(2,3) by (auto simp: in_set_conv_nth intro!: exI [of _ i])
  then show thesis using assms(1) that by (cases "t_operator (w_tasks w ! i)") (fastforce simp: no_flow_control_def list_all_iff)+
qed

lemma fco_init_unmatched:
  assumes "\<forall>t\<in>set (take N ts). unmatched t"
  shows "f_tasks (fco_init N ts) = ts"
proof -
  have "map (\<lambda>t. t\<lparr>t_parent := - 1, t_child := - 1, t_branch_num := 0, t_nesting_level := 0\<rparr>) (take N ts) = take N ts"
    using assms by (intro map_idI) (simp add: unmatched_def)
  then show ?thesis by (simp add: fco_init_def)
qed

lemma validate_fco_none:
  assumes "no_flow_control w" and "w_tasks_num w \<le> length (w_tasks w)" and "\<forall>t\<in>set (take (w_tasks_num w) (w_tasks w)). unmatched t"
  shows "oph_workflow_validate_fco fuel w = Some (OPH_WORKFLOW_EXIT_SUCCESS, w)"
proof -
  let ?st = "fco_init (w_tasks_num w) (w_tasks w)"
  have tasks: "f_tasks ?st = w_tasks w" using fco_init_unmatched [OF assms(3)] .
  have one: "fco_task fuel w k ?st = Some (False, ?st)" if "k < w_tasks_num w" for k
    by (rule no_flow_controlD [OF assms(1) that assms(2)]) (simp add: fco_task_def tasks flow_operators_def)
  have "fco_loop fuel w ks ?st = Some (False, ?st)" if "\<forall>k\<in>set ks. k < w_tasks_num w" for ks
    using that by (induction ks) (simp_all add: one)
  moreover have "\<not> fco_unmatched t" if "t \<in> set (take (w_tasks_num w) (w_tasks w))" for t
    using assms(1) that by (force simp: no_flow_control_def list_all_iff fco_unmatched_def flow_operators_def split: option.splits)
  ultimately show ?thesis by (simp add: oph_workflow_validate_fco_def tasks list_ex_iff)
qed

lemma parallel_fco_none:
  assumes "no_flow_control w" and "w_tasks_num w \<le> length (w_tasks w)"
  shows "oph_workflow_parallel_fco (Suc fuel) par level w = Some (OPH_WORKFLOW_EXIT_SUCCESS, w)"
proof -
  have one: "parallel_for par level i w = Some (Par_Next w)" if "i < w_tasks_num w" for i
    by (rule no_flow_controlD [OF assms(1) that assms(2)]) (simp add: parallel_for_def flow_operators_def)
  have "parallel_scan par level ks False w = Some (Par_Next w)" if "\<forall>k\<in>set ks. k < w_tasks_num w" for ks
    using that by (induction ks) (simp_all add: one)
  then show ?thesis by simp
qed

lemma validated_none:
  assumes "validated (Suc fuel) par w = Some (Inr w')" and "no_flow_control w" and "w_tasks_num w \<le> length (w_tasks w)"
    and "\<forall>t\<in>set (take (w_tasks_num w) (w_tasks w)). unmatched t"
  shows "w' = w" and "oph_workflow_validate w = Some OPH_WORKFLOW_EXIT_SUCCESS"
  using assms(1) by (auto simp: validated_def validate_fco_none [OF assms(2-4)] parallel_fco_none [OF assms(2,3)]
    simp del: oph_workflow_parallel_fco.simps split: option.splits if_splits)

text \<open>The fields of a task that the indexing keeps.\<close>

lemma unlinked_fields:
  assumes "unlinked t' = unlinked t"
  shows "t_name t' = t_name t" "t_operator t' = t_operator t" "t_status t' = t_status t" "t_residual_deps_num t' = t_residual_deps_num t"
    "t_arguments t' = t_arguments t" "t_light_tasks t' = t_light_tasks t" "t_is_marked_for_auto_retry t' = t_is_marked_for_auto_retry t"
    "t_outputs t' = t_outputs t" "t_exit_action t' = t_exit_action t" "unmatched t' = unmatched t"
    "map (\<lambda>d. d\<lparr>d_task_index := 0\<rparr>) (t_deps t') = map (\<lambda>d. d\<lparr>d_task_index := 0\<rparr>) (t_deps t)"
  using assms [THEN arg_cong, of t_name] assms [THEN arg_cong, of t_operator] assms [THEN arg_cong, of t_status]
    assms [THEN arg_cong, of t_residual_deps_num] assms [THEN arg_cong, of t_arguments] assms [THEN arg_cong, of t_light_tasks]
    assms [THEN arg_cong, of t_is_marked_for_auto_retry] assms [THEN arg_cong, of t_outputs] assms [THEN arg_cong, of t_exit_action]
    assms [THEN arg_cong, of t_deps] assms [THEN arg_cong, of t_parent] assms [THEN arg_cong, of t_child]
    assms [THEN arg_cong, of t_branch_num] assms [THEN arg_cong, of t_nesting_level]
  by (simp_all add: unlinked_def unmatched_def)

lemma dep_loaded_ok:
  assumes "dep_loaded d" and "d'\<lparr>d_task_index := 0\<rparr> = d" and "t_arguments t \<noteq> []"
  shows "dep_ok t d'"
proof -
  have "d_type d' = d_type d" "d_argument d' = d_argument d" "d_order d' = d_order d" "d_output_argument d' = d_output_argument d"
    using assms(2) by auto
  then show ?thesis using assms(1,3) by (auto simp: dep_ok_def dep_loaded_def)
qed

lemma loaded_deps_ok:
  assumes "list_all dep_loaded (t_deps t)" and "unlinked t' = unlinked t" and "t_arguments t \<noteq> []"
  shows "list_all (dep_ok t') (t_deps t')"
  unfolding list_all_iff
proof
  fix d assume d: "d \<in> set (t_deps t')"
  note f = unlinked_fields [OF assms(2)]
  have "d\<lparr>d_task_index := 0\<rparr> \<in> set (map (\<lambda>d. d\<lparr>d_task_index := 0\<rparr>) (t_deps t))" using d f(11) by (metis image_eqI set_map)
  then obtain e where e: "e \<in> set (t_deps t)" "d\<lparr>d_task_index := 0\<rparr> = e\<lparr>d_task_index := 0\<rparr>" by auto
  then have "dep_loaded (d\<lparr>d_task_index := 0\<rparr>)" using assms(1) by (auto simp: list_all_iff dep_loaded_def)
  then show "dep_ok t' d" using assms(3) f(5) by (intro dep_loaded_ok [OF _ refl]) simp_all
qed

text \<open>No task of an acyclic workflow is its own dependent.\<close>

lemma no_own_dependent:
  assumes "oph_workflow_indexing ts N = Some (OPH_WORKFLOW_EXIT_SUCCESS, ts')" and "not_indexed N ts"
    and "distinct (map t_name (take N ts))" and "acyclic (dep_rel N ts)" and "j < N"
  shows "list_all (\<lambda>k. 0 \<le> k \<and> k < int N \<and> k \<noteq> int j) (t_dependents_indexes (ts' ! j))"
proof -
  note inv = indexing_run(1) [OF assms(1,2)]
  have "int j \<notin> d_task_index ` set (t_deps (ts' ! j))"
    using indexed_edge [OF assms(1-3,5,5)] assms(4) by (auto simp: acyclic_def dest: r_into_trancl)
  then have "count (mset (map d_task_index (t_deps (ts' ! j)))) (int j) = 0" by (simp add: count_eq_zero_iff)
  then have "int j \<notin> set (t_dependents_indexes (ts' ! j))"
    using inv assms(5) by (metis index_inv_def count_eq_zero_iff set_mset_mset)
  moreover have "set (t_dependents_indexes (ts' ! j)) \<subseteq> {0..<int N}" using inv assms(5) by (simp add: index_inv_def)
  ultimately show ?thesis by (auto simp: list_all_iff)
qed

lemma loaded_not_indexed: "workflow_loaded w \<Longrightarrow> not_indexed (w_tasks_num w) (w_tasks w)"
  by (auto simp: workflow_loaded_def not_indexed_def list_all_iff task_loaded_def)

lemma loaded_submitted:
  assumes w: "workflow_loaded w" and ix: "oph_workflow_indexing (w_tasks w) (w_tasks_num w) = Some (OPH_WORKFLOW_EXIT_SUCCESS, ts)"
    and names: "distinct (map t_name (take (w_tasks_num w) (w_tasks w)))" and acyc: "acyclic (dep_rel (w_tasks_num w) (w_tasks w))"
    and exit: "list_all (\<lambda>t. t_exit_action t = 0) (take (w_tasks_num w) (w_tasks w))"
  shows "submitted (w\<lparr>w_tasks := ts\<rparr>)"
proof -
  let ?N = "w_tasks_num w"
  have len: "length (w_tasks w) = Suc ?N" using w by (simp add: workflow_loaded_def)
  have loaded: "task_loaded (w_tasks w ! j) \<and> t_arguments (w_tasks w ! j) \<noteq> []" if "j < ?N" for j
    using w that by (simp add: workflow_loaded_def list_all_length)
  note not = loaded_not_indexed [OF w]
  have u: "map unlinked ts = map unlinked (w_tasks w)" using indexing_unlinked [OF ix] .
  then have lt: "length ts = Suc ?N" using len by (metis length_map)
  have f: "unlinked (ts ! j) = unlinked (w_tasks w ! j)" if "j \<le> ?N" for j
    using u that len lt by (metis less_Suc_eq_le nth_map)
  have final: "t_name (ts ! ?N) = None" "t_deps (ts ! ?N) = []" "t_status (ts ! ?N) = OPH_ODB_STATUS_UNKNOWN" "t_residual_deps_num (ts ! ?N) = 0"
    using w unlinked_fields [OF f [OF order_refl]] by (auto simp: workflow_loaded_def Let_def)
  have one: "plain_task ?N j (ts ! j) \<and> t_outputs (ts ! j) = [] \<and> t_status (ts ! j) = OPH_ODB_STATUS_UNKNOWN \<and>
      t_residual_deps_num (ts ! j) = int (length (t_deps (ts ! j)))" if j: "j < ?N" for j
  proof -
    note fj = unlinked_fields [OF f [OF less_imp_le [OF j]]]
    have a: "args_ok (t_arguments (w_tasks w ! j))" using loaded [OF j] by (auto simp: task_loaded_def args_loaded_def args_ok_def list_all_iff)
    have d: "list_all (dep_ok (ts ! j)) (t_deps (ts ! j))" using loaded [OF j] j by (intro loaded_deps_ok [OF _ f]) (auto simp: task_loaded_def)
    have "length (t_deps (ts ! j)) = length (t_deps (w_tasks w ! j))" using fj(11) by (metis length_map)
    moreover have "t_exit_action (w_tasks w ! j) = 0" using exit len j by (simp add: list_all_length)
    moreover have "t_operator (w_tasks w ! j) \<noteq> None \<and> t_light_tasks (w_tasks w ! j) = [] \<and> \<not> t_is_marked_for_auto_retry (w_tasks w ! j) \<and>
        t_outputs (w_tasks w ! j) = [] \<and> t_status (w_tasks w ! j) = OPH_ODB_STATUS_UNKNOWN \<and>
        t_residual_deps_num (w_tasks w ! j) = int (length (t_deps (w_tasks w ! j)))"
      using loaded [OF j] unfolding task_loaded_def by blast
    ultimately show ?thesis unfolding plain_task_def fj(2-9) using a d no_own_dependent [OF ix not names acyc j] by simp
  qed
  have "fresh ts" unfolding fresh_def list_all_length lt
  proof (intro allI impI)
    fix j assume "j < Suc ?N"
    then consider "j < ?N" | "j = ?N" by linarith
    then show "t_status (ts ! j) = OPH_ODB_STATUS_UNKNOWN \<and> t_residual_deps_num (ts ! j) = int (length (t_deps (ts ! j)))"
      by cases (use one final in simp_all)
  qed
  then show "submitted (w\<lparr>w_tasks := ts\<rparr>)"
    using w one lt final by (simp add: submitted_def workflow_loaded_def list_all_iff OPH_ODB_STATUS_PENDING_def OPH_ODB_STATUS_COMPLETED_def)
qed

lemma no_flow_control_operators:
  "no_flow_control w \<longleftrightarrow>
   list_all (\<lambda>x. case x of None \<Rightarrow> False | Some s \<Rightarrow> list_all (\<lambda>op. \<not> is_operator s op) flow_operators) (map t_operator (take (w_tasks_num w) (w_tasks w)))"
  by (simp add: no_flow_control_def list.pred_map comp_def)

lemma loaded_names: "workflow_loaded w \<Longrightarrow> \<forall>t\<in>set (take (w_tasks_num w) (w_tasks w)). t_name t \<noteq> None"
  by (auto simp: workflow_loaded_def list_all_iff task_loaded_def)

lemma indexed_plain:
  assumes "workflow_loaded w" and "oph_workflow_indexing (w_tasks w) (w_tasks_num w) = Some (OPH_WORKFLOW_EXIT_SUCCESS, ts)"
  shows "w_tasks_num w \<le> length ts" and "\<forall>t\<in>set (take (w_tasks_num w) ts). unmatched t" and "no_flow_control w \<Longrightarrow> no_flow_control (w\<lparr>w_tasks := ts\<rparr>)"
proof -
  have u: "map unlinked ts = map unlinked (w_tasks w)" using indexing_unlinked [OF assms(2)] .
  have len: "length (w_tasks w) = Suc (w_tasks_num w)" using assms(1) by (simp add: workflow_loaded_def)
  then show lt: "w_tasks_num w \<le> length ts" using u by (metis le_SucI length_map order_refl)
  have f: "unlinked (ts ! j) = unlinked (w_tasks w ! j)" if "j < w_tasks_num w" for j
    using u that len lt by (metis less_SucI length_map nth_map)
  have "unmatched (w_tasks w ! j)" if "j < w_tasks_num w" for j
    using assms(1) that by (simp add: workflow_loaded_def list_all_length task_loaded_def unmatched_def)
  then have "unmatched (ts ! j)" if "j < w_tasks_num w" for j using unlinked_fields(10) [OF f [OF that]] that by simp
  then show "\<forall>t\<in>set (take (w_tasks_num w) ts). unmatched t" using lt by (auto simp: in_set_conv_nth)
  have "map t_operator (take (w_tasks_num w) ts) = map t_operator (take (w_tasks_num w) (w_tasks w))"
    using unlinked_fields(2) [OF f] len lt by (intro nth_equalityI) simp_all
  then show "no_flow_control w \<Longrightarrow> no_flow_control (w\<lparr>w_tasks := ts\<rparr>)" by (simp add: no_flow_control_operators)
qed

section \<open>Properties\<close>

lemma submit_workflowE:
  assumes "submit_workflow env par fuel request userid host passwd = Some (Inr w)"
  obtains w0 ts where "load_request env request userid host = Some (Inr w0)"
    and "oph_workflow_indexing (w_tasks w0) (w_tasks_num w0) = Some (OPH_WORKFLOW_EXIT_SUCCESS, ts)"
    and "validated fuel par ((flush_workflow passwd w0)\<lparr>w_tasks := ts\<rparr>) = Some (Inr w)"
  using assms by (auto simp: submit_workflow_def flush_workflow_def Let_def split: option.splits if_splits)

text \<open>
  C3: a request that the server accepts runs to its end. When a request of tasks without flow control operators and exit actions was
  loaded, indexed and validated, the start of the initial tasks is defined, and in every state that the workflow reaches by
  notifications of progress and of success the residual tasks are those that have not ended; while there are any, one of
  them is running, and otherwise the workflow is completed; the notification of the end of any running task is processed and
  leaves one residual task less.\<close>

theorem accepted_request_completes:
  assumes "load_request env request userid host = Some (Inr w0)" and "no_flow_control w0"
    and "list_all (\<lambda>t. t_exit_action t = 0) (take (w_tasks_num w0) (w_tasks w0))"
    and "submit_workflow env par (Suc fuel) request userid host passwd = Some (Inr w)"
  shows "\<exists>w1. execute_tasks (map int (snd (oph_workflow_init (w_tasks w) (w_tasks_num w)))) w = Some w1 \<and>
    (\<forall>w2. (success_step web_server)\<^sup>*\<^sup>* w1 w2 \<longrightarrow>
      w_residual_tasks_num w2 = int (card {j. j < w_tasks_num w \<and> t_status (w_tasks w2 ! j) < OPH_ODB_STATUS_COMPLETED}) \<and>
      (if w_residual_tasks_num w2 = 0 then w_status w2 = OPH_ODB_STATUS_COMPLETED else (\<exists>i < w_tasks_num w. running w2 i)) \<and>
      (\<forall>i data n conf output_json answer. i < w_tasks_num w \<and> running w2 i \<and> notify_parse data = Inr n \<and> n_taskindex n = int i \<and>
         n_lighttaskindex n < 0 \<and> n_status n = OPH_ODB_STATUS_COMPLETED \<and> n_jobid n \<noteq> 0 \<longrightarrow>
         (\<exists>w3. workflow_next web_server conf data output_json answer w2 = Some w3 \<and> w_residual_tasks_num w3 = w_residual_tasks_num w2 - 1)))"
proof (rule submit_workflowE [OF assms(4)])
  fix w0' ts
  assume l: "load_request env request userid host = Some (Inr w0')" and ix': "oph_workflow_indexing (w_tasks w0') (w_tasks_num w0') = Some (OPH_WORKFLOW_EXIT_SUCCESS, ts)"
    and v': "validated (Suc fuel) par ((flush_workflow passwd w0')\<lparr>w_tasks := ts\<rparr>) = Some (Inr w)"
  define v where "v = flush_workflow passwd w0"
  let ?N = "w_tasks_num v" and ?ts = "w_tasks v"
  have w0: "w0' = w0" using l assms(1) by simp
  have v: "w_tasks v = w_tasks w0" "w_tasks_num v = w_tasks_num w0" by (simp_all add: v_def flush_workflow_def)
  have vl: "workflow_loaded v" using load_request_loaded [OF assms(1)] by (simp add: v_def flush_workflow_def workflow_loaded_def)
  have ix: "oph_workflow_indexing ?ts ?N = Some (OPH_WORKFLOW_EXIT_SUCCESS, ts)" using ix' w0 v by simp
  note keep = indexed_plain [OF vl ix]
  have "no_flow_control v" using assms(2) v by (simp add: no_flow_control_def)
  note same = validated_none [OF v' [unfolded w0, folded v_def]] keep keep(3) [OF this]
  have w: "w = v\<lparr>w_tasks := ts\<rparr>" and ok: "oph_workflow_validate (v\<lparr>w_tasks := ts\<rparr>) = Some OPH_WORKFLOW_EXIT_SUCCESS"
    using same by simp_all
  then have dag: "distinct (map t_name (take ?N ?ts))" "acyclic (dep_rel ?N ?ts)"
    using validate_success_iff [OF ix loaded_not_indexed [OF vl] loaded_names [OF vl]] by simp_all
  have sub: "submitted w" using loaded_submitted [OF vl ix dag] assms(3) v w by simp
  obtain w1 where w1: "execute_tasks (map int (snd (oph_workflow_init (w_tasks w) ?N))) w = Some w1" "live_ok {} (dep_rel ?N ?ts) ?N w1"
    using live_begin [of ?ts ?N w] ix loaded_not_indexed [OF vl] dag(1) sub w by auto
  have num: "w_tasks_num w = ?N" by (simp add: w)
  show ?thesis unfolding num using w1(1) live_completes [OF success_run_live [OF _ w1(2)] dag(2)] by blast
qed

definition demo_par :: par_env where
  [code_defs]: "demo_par =
     \<lparr>pe_fuel = 0, pe_auto_retry = 0, pe_mf = (\<lambda>_ _ _ _ _ _. Inl OPH_SERVER_ERROR),
      pe_raw = \<lparr>l_idjob = 0, l_markerid = 0, l_status = 0, l_ncores = 0, l_nhosts = 0, l_nthreads = 0, l_arguments = [], l_response = None,
        l_is_marked_to_be_aborted = False\<rparr>, pe_trash = oph_trash_create, pe_jobid = (\<lambda>_. 0), pe_new_jobid = 0\<rparr>"

lemma demo_request_submitted:
  "case submit_workflow (demo_json demo_request) demo_par 2 ''{1}'' ''u'' ''h'' None of Some (Inr w) \<Rightarrow> w_tasks_num w = 2 | _ \<Rightarrow> False"
  by code_simp

lemma demo_request_plain:
  "case load_request (demo_json demo_request) ''{1}'' ''u'' ''h'' of
     Some (Inr w) \<Rightarrow> no_flow_control w \<and> list_all (\<lambda>t. t_exit_action t = 0) (take (w_tasks_num w) (w_tasks w)) | _ \<Rightarrow> False"
  by code_simp

theorem accepted_request_completes_witness:
  "\<exists>w w1. submit_workflow (demo_json demo_request) demo_par 2 ''{1}'' ''u'' ''h'' None = Some (Inr w) \<and> w_tasks_num w = 2 \<and>
    execute_tasks (map int (snd (oph_workflow_init (w_tasks w) 2))) w = Some w1 \<and>
    (if w_residual_tasks_num w1 = 0 then w_status w1 = OPH_ODB_STATUS_COMPLETED else (\<exists>i < 2. running w1 i))"
proof -
  obtain w0 where w0: "load_request (demo_json demo_request) ''{1}'' ''u'' ''h'' = Some (Inr w0)" "no_flow_control w0"
      "list_all (\<lambda>t. t_exit_action t = 0) (take (w_tasks_num w0) (w_tasks w0))"
    using demo_request_plain by (auto split: option.splits sum.splits)
  obtain w where w: "submit_workflow (demo_json demo_request) demo_par (Suc 1) ''{1}'' ''u'' ''h'' None = Some (Inr w)" "w_tasks_num w = 2"
    using demo_request_submitted by (auto simp: eval_nat_numeral split: option.splits sum.splits)
  from accepted_request_completes [OF w0 w(1), of "''web''"] obtain w1 where
    w1: "execute_tasks (map int (snd (oph_workflow_init (w_tasks w) 2))) w = Some w1"
      "if w_residual_tasks_num w1 = 0 then w_status w1 = OPH_ODB_STATUS_COMPLETED else (\<exists>i < 2. running w1 i)"
    unfolding w(2) by blast
  have "submit_workflow (demo_json demo_request) demo_par 2 ''{1}'' ''u'' ''h'' None = Some (Inr w)" using w(1) by (simp add: eval_nat_numeral)
  then show ?thesis using w(2) w1 by blast
qed

end
