(* ===== verification/Resource_Limits.thy ===== *)
theory Resource_Limits
  imports Flow_Control "HOL-Library.Word" "HOL-Library.Multiset"
begin

text \<open>
  The limits on the running tasks and cores of the server: a request waits in \<open>oph_serve_request\<close> (\<^verbatim>\<open>src/src/oph_rmanager.c\<close>) until
  there is room for it, and the notification of its end gives the room back (\<open>oph_workflow_notify\<close> of \<^verbatim>\<open>src/src/oph_workflow_engine.c\<close>). The
  counters are global variables of type \<open>unsigned int\<close>, changed under a lock; the operators that the server serves itself are not
  counted.
\<close>

section \<open>Operators of the server\<close>

definition oph_is_flow_control_operator :: "string \<Rightarrow> bool" where
  [code_defs]: "oph_is_flow_control_operator name \<longleftrightarrow> list_ex (\<lambda>op. strncasecmp_eq name op OPH_MAX_STRING_SIZE)
     [''oph_set'', OPH_OPERATOR_FOR, OPH_OPERATOR_ENDFOR, OPH_OPERATOR_IF, OPH_OPERATOR_ELSEIF, OPH_OPERATOR_ELSE, OPH_OPERATOR_ENDIF,
      ''oph_wait'', ''oph_input'']"

definition oph_is_management_operator :: "string \<Rightarrow> bool" where
  [code_defs]: "oph_is_management_operator name \<longleftrightarrow> list_ex (\<lambda>op. strncasecmp_eq name op OPH_MAX_STRING_SIZE)
     [''oph_cancel'', ''oph_manage_session'', ''oph_log_info'', ''oph_cluster'']"

definition oph_is_known_operator :: "string option \<Rightarrow> bool" where
  [code_defs]: "oph_is_known_operator operator =
     (case operator of None \<Rightarrow> False | Some name \<Rightarrow> oph_is_flow_control_operator name \<or> oph_is_management_operator name)"

section \<open>Limits\<close>

record limits =
  oph_server_task_limit :: "32 word"
  oph_server_core_limit :: "32 word"
  oph_server_task_running :: "32 word"
  oph_server_core_running :: "32 word"

text \<open>The condition of the loop that waits, for the number of cores of the request.\<close>

definition must_wait :: "limits \<Rightarrow> int \<Rightarrow> bool" where
  [code_defs]: "must_wait l n \<longleftrightarrow>
     oph_server_task_limit l \<noteq> 0 \<and> oph_server_task_running l \<ge> oph_server_task_limit l \<or>
     oph_server_core_limit l \<noteq> 0 \<and> oph_server_core_running l + word_of_int n > oph_server_core_limit l"

definition effective_cores :: "int \<Rightarrow> int" where
  [code_defs]: "effective_cores ncores = (if ncores < 1 then 1 else ncores)"

text \<open>The admission of a request; \<open>None\<close> when it has to wait.\<close>

definition acquire :: "limits \<Rightarrow> int \<Rightarrow> limits option" where
  [code_defs]: "acquire l ncores =
     (let n = effective_cores ncores in
      if oph_server_task_limit l = 0 \<and> oph_server_core_limit l = 0 then Some l
      else if must_wait l n then None
      else Some (l\<lparr>oph_server_task_running := oph_server_task_running l + (if oph_server_task_limit l \<noteq> 0 then 1 else 0),
                  oph_server_core_running := oph_server_core_running l + (if oph_server_core_limit l \<noteq> 0 then word_of_int n else 0)\<rparr>))"

text \<open>The end of a task; whether the requests that wait are woken up.\<close>

definition release :: "int \<Rightarrow> string option \<Rightarrow> int \<Rightarrow> limits \<Rightarrow> limits \<times> bool" where
  [code_defs]: "release status operator ncores l =
     (if status \<ge> OPH_ODB_STATUS_COMPLETED \<and> \<not> oph_is_known_operator operator then
        (let tasks = oph_server_task_limit l \<noteq> 0 \<and> oph_server_task_running l > 0;
             cores = oph_server_core_limit l \<noteq> 0 \<and> oph_server_core_running l \<ge> word_of_int ncores in
         (l\<lparr>oph_server_task_running := oph_server_task_running l - (if tasks then 1 else 0),
            oph_server_core_running := oph_server_core_running l - (if cores then word_of_int ncores else 0)\<rparr>, tasks \<or> cores))
      else (l, False))"

text \<open>
  The server with the numbers of cores of the tasks that are running, as their requests give them, and of the tasks that have ended:
  admissions and ends in any order, each task ending once. A request for no core is admitted as one for one core, and its end gives
  back the number that was asked for.
\<close>

type_synonym limit_state = "limits \<times> int multiset \<times> int multiset"

inductive limit_step :: "limit_state \<Rightarrow> limit_state \<Rightarrow> bool" where
  admit: "limit_step (l, M, E) (l', add_mset n M, E)" if "0 \<le> n" and "n < 2 ^ 31" and "acquire l n = Some l'"
| finish: "limit_step (l, M, E) (fst (release status operator n l), M - {#n#}, add_mset n E)"
    if "n \<in># M" and "OPH_ODB_STATUS_COMPLETED \<le> status" and "\<not> oph_is_known_operator operator"

inductive_cases limit_stepE: "limit_step s s'"

section \<open>The counters count the running tasks\<close>

text \<open>The cores that the counter holds: the ones of the running tasks, and one for each task that asked for none and has ended.\<close>

definition cores_held :: "int multiset \<Rightarrow> int multiset \<Rightarrow> int" where
  [code_defs]: "cores_held M E = sum_mset (image_mset effective_cores M) + int (count E 0)"

definition limits_ok :: "limits \<Rightarrow> int multiset \<Rightarrow> int multiset \<Rightarrow> bool" where
  [code_defs]: "limits_ok l M E \<longleftrightarrow> (\<forall>n \<in># M. 0 \<le> n) \<and> uint (oph_server_core_limit l) < 2 ^ 31 \<and>
     uint (oph_server_task_running l) = (if oph_server_task_limit l = 0 then 0 else int (size M)) \<and>
     uint (oph_server_core_running l) = (if oph_server_core_limit l = 0 then 0 else cores_held M E) \<and>
     (oph_server_task_limit l \<noteq> 0 \<longrightarrow> int (size M) \<le> uint (oph_server_task_limit l)) \<and>
     (oph_server_core_limit l \<noteq> 0 \<longrightarrow> cores_held M E \<le> uint (oph_server_core_limit l))"

lemma effective_cores_bounds: "1 \<le> effective_cores n" "n < 2 ^ 31 \<Longrightarrow> effective_cores n < 2 ^ 31"
  by (auto simp: effective_cores_def)

lemma cores_held_nonneg: "0 \<le> cores_held M E"
proof (induction M)
  case (add n M)
  then show ?case
    using effective_cores_bounds(1) [of n] by (simp add: cores_held_def)
qed (simp add: cores_held_def)

lemma cores_held_admit: "cores_held (add_mset n M) E = cores_held M E + effective_cores n"
  by (simp add: cores_held_def)

lemma cores_held_finish: "0 \<le> n \<Longrightarrow> cores_held N (add_mset n E) = cores_held (add_mset n N) E - n"
  by (auto simp: cores_held_def effective_cores_def)

lemma uint_plus: "uint (a :: 32 word) + n < 2 ^ 32 \<Longrightarrow> 0 \<le> n \<Longrightarrow> uint (a + word_of_int n) = uint a + n"
  by (simp add: uint_word_ariths take_bit_eq_mod unsigned_of_int) (smt (verit) mod_add_right_eq mod_pos_pos_trivial uint_ge_0)

lemma uint_minus: "n \<le> uint (a :: 32 word) \<Longrightarrow> 0 \<le> n \<Longrightarrow> uint (a - word_of_int n) = uint a - n"
  using uint_bounded [of a]
  by (simp add: uint_word_ariths take_bit_eq_mod unsigned_of_int mod_diff_right_eq)

lemma uint_small: "0 \<le> n \<Longrightarrow> n < 2 ^ 32 \<Longrightarrow> uint (word_of_int n :: 32 word) = n"
  by (simp add: unsigned_of_int take_bit_eq_mod)

lemma uint_pos: "a \<noteq> 0 \<Longrightarrow> 0 < uint (a :: 32 word)"
  by (metis uint_0_iff uint_ge_0 order_le_less)

text \<open>Under the invariant the condition of the loop is the one on numbers: the addition of the cores does not wrap around.\<close>

lemma must_wait_numbers:
  assumes "limits_ok l M E" and "1 \<le> n" and "n < 2 ^ 31"
  shows "must_wait l n \<longleftrightarrow>
    oph_server_task_limit l \<noteq> 0 \<and> uint (oph_server_task_limit l) \<le> int (size M) \<or>
    oph_server_core_limit l \<noteq> 0 \<and> uint (oph_server_core_limit l) < cores_held M E + n"
proof -
  have "uint (oph_server_core_running l + word_of_int n) = uint (oph_server_core_running l) + n"
    by (rule uint_plus) (use assms uint_pos in \<open>auto simp: limits_ok_def split: if_splits\<close>)
  then show ?thesis
    using assms by (auto simp: must_wait_def limits_ok_def word_le_def word_less_def split: if_splits)
qed

lemma acquire_waits:
  assumes "limits_ok l M E" and "n < 2 ^ 31"
  shows "acquire l n = None \<longleftrightarrow>
    oph_server_task_limit l \<noteq> 0 \<and> int (size M) = uint (oph_server_task_limit l) \<or>
    oph_server_core_limit l \<noteq> 0 \<and> uint (oph_server_core_limit l) < cores_held M E + effective_cores n"
proof -
  have "acquire l n = None \<longleftrightarrow> must_wait l (effective_cores n)"
    by (auto simp: acquire_def must_wait_def Let_def)
  then show ?thesis
    using assms must_wait_numbers [OF assms(1) effective_cores_bounds(1), of n] effective_cores_bounds(2) [OF assms(2)]
    by (auto simp: limits_ok_def)
qed

lemma acquire_limits_ok:
  assumes ok: "limits_ok l M E" and n: "0 \<le> n" "n < 2 ^ 31" and a: "acquire l n = Some l'"
  shows "limits_ok l' (add_mset n M) E"
proof (cases "oph_server_task_limit l = 0 \<and> oph_server_core_limit l = 0")
  case True
  then show ?thesis
    using assms by (auto simp: acquire_def limits_ok_def)
next
  case False
  let ?n = "effective_cores n"
  have l': "l' = l\<lparr>oph_server_task_running := oph_server_task_running l + (if oph_server_task_limit l \<noteq> 0 then 1 else 0),
                  oph_server_core_running := oph_server_core_running l + (if oph_server_core_limit l \<noteq> 0 then word_of_int ?n else 0)\<rparr>"
    using False a by (auto simp: acquire_def Let_def split: if_splits)
  have w: "oph_server_task_limit l = 0 \<or> int (size M) < uint (oph_server_task_limit l)"
      "oph_server_core_limit l = 0 \<or> cores_held M E + ?n \<le> uint (oph_server_core_limit l)"
    using acquire_waits [OF ok n(2)] a ok by (auto simp: limits_ok_def)
  have "uint (oph_server_task_running l + 1) = uint (oph_server_task_running l) + 1" if "oph_server_task_limit l \<noteq> 0"
    using uint_plus [of "oph_server_task_running l" 1] w(1) that ok uint_bounded [of "oph_server_task_limit l"]
    by (simp add: limits_ok_def)
  moreover have "uint (oph_server_core_running l + word_of_int ?n) = uint (oph_server_core_running l) + ?n"
    if "oph_server_core_limit l \<noteq> 0"
    by (rule uint_plus)
      (use that ok effective_cores_bounds(1) [of n] effective_cores_bounds(2) [OF n(2)] in \<open>auto simp: limits_ok_def\<close>)
  ultimately show ?thesis
    using ok n w by (auto simp: l' cores_held_admit limits_ok_def split: if_splits)
qed

lemma release_limits_ok:
  assumes ok: "limits_ok l M E" and n: "n \<in># M"
    and k: "OPH_ODB_STATUS_COMPLETED \<le> status" "\<not> oph_is_known_operator operator"
  shows "limits_ok (fst (release status operator n l)) (M - {#n#}) (add_mset n E)"
proof -
  obtain N where M: "M = add_mset n N"
    using n by (auto dest: multi_member_split)
  have p: "0 \<le> n" "n \<le> cores_held M E"
    using ok n cores_held_finish [of n N E] cores_held_nonneg [of N "add_mset n E"] by (auto simp: limits_ok_def M)
  have c: "word_of_int n \<le> oph_server_core_running l \<and> uint (oph_server_core_running l - word_of_int n) = uint (oph_server_core_running l) - n"
    if "oph_server_core_limit l \<noteq> 0"
    using that ok p uint_minus [of n "oph_server_core_running l"] by (auto simp: limits_ok_def word_le_def uint_small)
  have t: "0 < oph_server_task_running l \<and> uint (oph_server_task_running l - 1) = uint (oph_server_task_running l) - 1"
    if "oph_server_task_limit l \<noteq> 0"
    using that ok uint_minus [of 1 "oph_server_task_running l"] by (auto simp: limits_ok_def word_less_def M)
  show ?thesis
    using ok k c t p by (auto simp: release_def limits_ok_def M Let_def cores_held_finish)
qed

lemma limit_step_ok: "limit_step (l, M, E) (l', M', E') \<Longrightarrow> limits_ok l M E \<Longrightarrow> limits_ok l' M' E'"
  by (auto elim!: limit_stepE simp: acquire_limits_ok release_limits_ok)

lemma limit_run_ok: "limit_step\<^sup>*\<^sup>* (l, M, E) (l', M', E') \<Longrightarrow> limits_ok l M E \<Longrightarrow> limits_ok l' M' E'"
  by (induction "(l', M', E')" arbitrary: l' M' E' rule: rtranclp_induct) (auto intro: limit_step_ok)

lemma limit_step_limits:
  "limit_step (l, M, E) (l', M', E') \<Longrightarrow>
   oph_server_core_limit l' = oph_server_core_limit l \<and> oph_server_task_limit l' = oph_server_task_limit l"
  by (auto elim!: limit_stepE simp: acquire_def release_def Let_def split: if_splits)

lemma limit_run_limits:
  "limit_step\<^sup>*\<^sup>* (l, M, E) (l', M', E') \<Longrightarrow>
   oph_server_core_limit l' = oph_server_core_limit l \<and> oph_server_task_limit l' = oph_server_task_limit l"
  by (induction "(l', M', E')" arbitrary: l' M' E' rule: rtranclp_induct) (use limit_step_limits in \<open>force+\<close>)

definition idle_limits :: "32 word \<Rightarrow> 32 word \<Rightarrow> limits" where
  [code_defs]: "idle_limits tasks cores =
     \<lparr>oph_server_task_limit = tasks, oph_server_core_limit = cores, oph_server_task_running = 0, oph_server_core_running = 0\<rparr>"

lemma limits_reachable:
  assumes "uint cores < 2 ^ 31" and "limit_step\<^sup>*\<^sup>* (idle_limits tasks cores, {#}, {#}) (l, M, E)"
  shows "limits_ok l M E" and "oph_server_core_limit l = cores" and "oph_server_task_limit l = tasks"
proof -
  have "limits_ok (idle_limits tasks cores) {#} {#}"
    using assms(1) by (simp add: limits_ok_def idle_limits_def cores_held_def)
  then show "limits_ok l M E"
    using assms(2) limit_run_ok by blast
  show "oph_server_core_limit l = cores" "oph_server_task_limit l = tasks"
    using limit_run_limits [OF assms(2)] by (simp_all add: idle_limits_def)
qed

text \<open>
  C13: the limits on resources hold in every order of admissions and ends of tasks that ask for \<open>0\<close> or more cores (below \<open>2 ^ 31\<close>), each
  task ending once: from a server at rest, with a limit on the cores below \<open>2 ^ 31\<close> (\<open>0\<close> is no limit), the unsigned counter of the tasks is
  at every moment the number of the tasks that are running, and the one of the cores is the sum of the cores that they took (at least one
  each) plus one core for each task that asked for \<open>0\<close> cores and has ended, since its end gives back none; neither counter ever
  exceeds its limit or wraps around, and a request has to wait exactly if these counts leave no room for it. If every task asked for a core
  or more, the counter of the cores is the sum of the cores of the running tasks.
\<close>

theorem limits_never_exceeded:
  assumes "uint cores < 2 ^ 31" and "limit_step\<^sup>*\<^sup>* (idle_limits tasks cores, {#}, {#}) (l, M, E)" and "0 \<le> n" and "n < 2 ^ 31"
  shows "(tasks \<noteq> 0 \<longrightarrow> uint (oph_server_task_running l) = int (size M) \<and> int (size M) \<le> uint tasks) \<and>
    (cores \<noteq> 0 \<longrightarrow> uint (oph_server_core_running l) = sum_mset (image_mset effective_cores M) + int (count E 0) \<and>
       uint (oph_server_core_running l) \<le> uint cores) \<and>
    (cores \<noteq> 0 \<and> (\<forall>m \<in># M + E. 1 \<le> m) \<longrightarrow> uint (oph_server_core_running l) = sum_mset M) \<and>
    (acquire l n = None \<longleftrightarrow> tasks \<noteq> 0 \<and> int (size M) = uint tasks \<or>
       cores \<noteq> 0 \<and> uint cores < sum_mset (image_mset effective_cores M) + int (count E 0) + effective_cores n)"
proof -
  note r = limits_reachable [OF assms(1,2)]
  have "sum_mset (image_mset effective_cores M) + int (count E 0) = sum_mset M" if "\<forall>m \<in># M + E. 1 \<le> m"
  proof -
    have "image_mset effective_cores M = image_mset (\<lambda>m. m) M"
      using that by (intro image_mset_cong) (force simp: effective_cores_def)
    moreover have "count E 0 = 0"
      using that by (force simp: count_eq_zero_iff)
    ultimately show ?thesis
      by simp
  qed
  then show ?thesis
    using r(1) acquire_waits [OF r(1) assms(4)] by (auto simp: limits_ok_def cores_held_def r(2,3))
qed

theorem limits_never_exceeded_witness:
  "uint (oph_server_core_running ((idle_limits 2 8)\<lparr>oph_server_task_running := 1, oph_server_core_running := 4\<rparr>)) = 3 + 1 \<and>
   acquire ((idle_limits 2 8)\<lparr>oph_server_task_running := 1, oph_server_core_running := 4\<rparr>) 5 = None"
proof -
  let ?l = "\<lambda>t c. (idle_limits 2 8)\<lparr>oph_server_task_running := t, oph_server_core_running := c\<rparr>"
  have l0: "?l 0 0 = idle_limits 2 8"
    by (simp add: idle_limits_def)
  have 1: "limit_step (?l 0 0, {#}, {#}) (?l 1 1, {#0#}, {#})"
    by (rule limit_step.admit) (simp_all add: acquire_def effective_cores_def must_wait_def idle_limits_def)
  have 2: "limit_step (?l 1 1, {#0#}, {#}) (?l 2 4, {#3, 0#}, {#})"
    by (rule limit_step.admit) (simp_all add: acquire_def effective_cores_def must_wait_def idle_limits_def word_le_def)
  have "fst (release OPH_ODB_STATUS_COMPLETED None 0 (?l 2 4)) = ?l 1 4"
    by (simp add: release_def oph_is_known_operator_def idle_limits_def)
  then have 3: "limit_step (?l 2 4, {#3, 0#}, {#}) (?l 1 4, {#3#}, {#0#})"
    using limit_step.finish [of 0 "{#3, 0#}" OPH_ODB_STATUS_COMPLETED None "?l 2 4" "{#}"]
    by (simp add: oph_is_known_operator_def)
  have "limit_step\<^sup>*\<^sup>* (idle_limits 2 8, {#}, {#}) (?l 1 4, {#3#}, {#0#})"
    using rtranclp.rtrancl_into_rtrancl [OF rtranclp.rtrancl_into_rtrancl [OF r_into_rtranclp [of limit_step, OF 1] 2] 3]
    unfolding l0 .
  then show ?thesis
    using limits_never_exceeded [of 8 2 "?l 1 4" "{#3#}" "{#0#}" 5] by (simp add: effective_cores_def)
qed

text \<open>
  C35: a request of more cores than the limit of the server is never refused and never served: whatever tasks are admitted and end, it finds
  the condition of the loop true, even when nothing else runs.
\<close>

theorem request_above_limit_waits_forever:
  assumes "uint cores < 2 ^ 31" and "cores \<noteq> 0" and "uint cores < n" and "n < 2 ^ 31"
    and "limit_step\<^sup>*\<^sup>* (idle_limits tasks cores, {#}, {#}) (l, M, E)"
  shows "acquire l n = None"
  using limits_reachable [OF assms(1,5)] acquire_waits [of l M E n] assms(2-4) cores_held_nonneg [of M E]
  by (auto simp: effective_cores_def)

theorem request_above_limit_waits_forever_witness: "acquire (idle_limits 2 8) 9 = None"
  by (rule request_above_limit_waits_forever [of 8 9 2 _ "{#}" "{#}"]) simp_all

end
