(* ===== verification/Job_List.thy ===== *)
theory Job_List
  imports Workflow_Structs
begin

text \<open>
  \<^verbatim>\<open>src/src/oph_job_list.c\<close>, \<^verbatim>\<open>src/src/oph_memory_job.c\<close> and the detached tasks of \<^verbatim>\<open>src/src/oph_rmanager.c\<close>. The lists
  are linked structures with head, tail and predecessor pointers, so the model keeps an explicit store: the items
  and the workflows are arrays of optional cells, an address is an index, \<open>malloc\<close> appends a cell and \<open>free\<close> clears it.
  An access to a cleared cell, and a list that never ends, is \<open>None\<close>.
\<close>

section \<open>Data\<close>

datatype job_list_code =
    OPH_JOB_LIST_OK
  | OPH_JOB_LIST_ERROR
  | OPH_JOB_LIST_EXISTING_JOB
  | OPH_JOB_LIST_FULL
  | OPH_JOB_LIST_FARM_FULL

definition OPH_ODB_STATUS_EXPIRED :: int where [code_defs]: "OPH_ODB_STATUS_EXPIRED = 27"

record oph_job_info =
  ji_timestamp :: int
  ji_wf :: nat
  ji_next :: "nat option"

record oph_job_list =
  jl_head :: "nat option"
  jl_tail :: "nat option"
  jl_saved :: "nat option"
  jl_counter :: "32 word"

text \<open>The store with the one list of the server, and the clock and the settings that the functions read.\<close>

record job_state =
  js_items :: "oph_job_info option list"
  js_wfs :: "oph_workflow option list"
  js_list :: oph_job_list

record job_env =
  e_now :: int
  e_workflow_timeout :: int
  e_farm_size :: "32 word"
  e_queue_size :: "32 word"
  e_status_log :: bool

definition cell :: "'a option list \<Rightarrow> nat \<Rightarrow> 'a option" where
  [code_defs]: "cell mem a = (if a < length mem then mem ! a else None)"

definition set_next :: "job_state \<Rightarrow> nat \<Rightarrow> nat option \<Rightarrow> job_state option" where
  [code_defs]: "set_next s a n =
     (case cell (js_items s) a of
        None \<Rightarrow> None
      | Some i \<Rightarrow> Some (s\<lparr>js_items := (js_items s)[a := Some (i\<lparr>ji_next := n\<rparr>)]\<rparr>))"

definition oph_create_job_list :: oph_job_list where
  [code_defs]: "oph_create_job_list = \<lparr>jl_head = None, jl_tail = None, jl_saved = None, jl_counter = 0\<rparr>"

section \<open>Searches, which also drop the expired workflows\<close>

text \<open>
  An item beyond the deadline is unlinked and freed. A synchronous workflow is only marked, for the thread that waits
  for it; another one is released.
\<close>

definition is_sync :: "oph_workflow \<Rightarrow> bool" where
  [code_defs]: "is_sync w \<longleftrightarrow>
     (case w_exec_mode w of None \<Rightarrow> False | Some m \<Rightarrow> strncasecmp_eq m ''sync'' OPH_MAX_STRING_SIZE)"

definition unlink :: "job_state \<Rightarrow> nat \<Rightarrow> nat option \<Rightarrow> nat option \<Rightarrow> job_state option" where
  [code_defs]: "unlink s temp prev next =
     (let l = js_list s; l = (if jl_tail l = Some temp then l\<lparr>jl_tail := prev\<rparr> else l) in
      if jl_head l = Some temp then Some (s\<lparr>js_list := l\<lparr>jl_head := next\<rparr>\<rparr>)
      else (case prev of None \<Rightarrow> Some (s\<lparr>js_list := l\<rparr>) | Some p \<Rightarrow> set_next (s\<lparr>js_list := l\<rparr>) p next))"

definition expire_item :: "job_state \<Rightarrow> nat \<Rightarrow> oph_job_info \<Rightarrow> nat option \<Rightarrow> job_state option" where
  [code_defs]: "expire_item s temp item prev =
     (case (unlink s temp prev (ji_next item), cell (js_wfs s) (ji_wf item)) of
        (Some s, Some w) \<Rightarrow>
          Some (s\<lparr>js_list := (js_list s)\<lparr>jl_counter := jl_counter (js_list s) - 1\<rparr>,
                  js_wfs := (js_wfs s)[ji_wf item :=
                     (if is_sync w then Some (w\<lparr>w_status := OPH_ODB_STATUS_EXPIRED\<rparr>) else oph_workflow_free w)],
                  js_items := (js_items s)[temp := None]\<rparr>)
      | _ \<Rightarrow> None)"

text \<open>
  The loop that the searches share: \<open>visit\<close> is what they do with a workflow that is not expired, which either goes on with
  a new value or ends the search. The fuel is the size of the store: a list that is longer has a cycle.
\<close>

datatype ('a, 'r) search_outcome = Search_Null | Search_Done 'a | Search_Found nat "nat option" 'r

fun search_list ::
    "nat \<Rightarrow> int \<Rightarrow> ('a \<Rightarrow> oph_workflow \<Rightarrow> ('a + 'r) option) \<Rightarrow> 'a \<Rightarrow> job_state \<Rightarrow> nat option \<Rightarrow> nat option \<Rightarrow>
     (job_state \<times> ('a, 'r) search_outcome) option" where
  "search_list fuel deadline visit a s prev None = Some (s, Search_Done a)"
| "search_list 0 deadline visit a s prev (Some temp) = None"
| "search_list (Suc fuel) deadline visit a s prev (Some temp) =
     (case cell (js_items s) temp of
        None \<Rightarrow> None
      | Some item \<Rightarrow>
          if ji_timestamp item < deadline then
            if jl_counter (js_list s) = 0 then Some (s, Search_Null)
            else (case expire_item s temp item prev of
                    None \<Rightarrow> None
                  | Some s' \<Rightarrow> search_list fuel deadline visit a s' (Some temp) (ji_next item))
          else (case cell (js_wfs s) (ji_wf item) of
                  None \<Rightarrow> None
                | Some w \<Rightarrow>
                    (case visit a w of
                       None \<Rightarrow> None
                     | Some (Inr r) \<Rightarrow> Some (s, Search_Found temp prev r)
                     | Some (Inl a') \<Rightarrow> search_list fuel deadline visit a' s (Some temp) (ji_next item))))"

text \<open>The deadline and the time stamps are of type \<open>int\<close>, the clock is not: they are cut by \<open>c_int\<close>.\<close>

definition remote_deadline :: "job_env \<Rightarrow> int" where
  [code_defs]: "remote_deadline env = c_int (e_now env - e_workflow_timeout env)"

definition search ::
    "job_env \<Rightarrow> ('a \<Rightarrow> oph_workflow \<Rightarrow> ('a + 'r) option) \<Rightarrow> 'a \<Rightarrow> job_state \<Rightarrow> (job_state \<times> ('a, 'r) search_outcome) option" where
  [code_defs]: "search env visit a s =
     search_list (length (js_items s)) (remote_deadline env) visit a s None (jl_head (js_list s))"

text \<open>A search returns the item with its predecessor and what else it found, or null.\<close>

fun found_item :: "('a, 'r) search_outcome \<Rightarrow> (nat \<times> nat option \<times> 'r) option" where
  "found_item (Search_Found t p r) = Some (t, p, r)"
| "found_item _ = None"

type_synonym 'r find_result = "(job_state \<times> (nat \<times> nat option \<times> 'r) option) option"

definition find_with :: "job_env \<Rightarrow> (oph_workflow \<Rightarrow> 'r option option) \<Rightarrow> job_state \<Rightarrow> 'r find_result" where
  [code_defs]: "find_with env match s =
     map_option (apsnd found_item)
       (search env (\<lambda>_ w. map_option (\<lambda>r. case r of None \<Rightarrow> Inl () | Some x \<Rightarrow> Inr x) (match w)) () s)"

definition oph_find_job_in_job_list :: "job_env \<Rightarrow> job_state \<Rightarrow> int \<Rightarrow> unit find_result" where
  [code_defs]: "oph_find_job_in_job_list env s jobid =
     find_with env (\<lambda>w. Some (if w_idjob w = jobid then Some () else None)) s"

definition oph_find_job_in_children_job_lists :: "job_env \<Rightarrow> job_state \<Rightarrow> int \<Rightarrow> unit find_result" where
  [code_defs]: "oph_find_job_in_children_job_lists env s jobid =
     find_with env (\<lambda>w. Some (if list_ex (\<lambda>t. t_idjob t = jobid) (take (w_tasks_num w) (w_tasks w)) then Some () else None)) s"

text \<open>\<open>!sessionid || !strcmp (wf->sessionid, sessionid)\<close>\<close>

definition session_is :: "string option \<Rightarrow> oph_workflow \<Rightarrow> bool option" where
  [code_defs]: "session_is sessionid w =
     (case sessionid of None \<Rightarrow> Some True | Some s \<Rightarrow> map_option (\<lambda>t. t = s) (w_sessionid w))"

definition oph_find_workflow_in_job_list_to_drop ::
    "job_env \<Rightarrow> job_state \<Rightarrow> string option \<Rightarrow> int \<Rightarrow> unit find_result" where
  [code_defs]: "oph_find_workflow_in_job_list_to_drop env s sessionid workflowid =
     find_with env (\<lambda>w. if w_workflowid w = workflowid
                        then map_option (\<lambda>b. if b then Some () else None) (session_is sessionid w) else Some None) s"

definition oph_find_workflow_in_job_list ::
    "job_env \<Rightarrow> job_state \<Rightarrow> string option \<Rightarrow> int \<Rightarrow> unit find_result" where
  [code_defs]: "oph_find_workflow_in_job_list env s sessionid workflowid =
     oph_find_workflow_in_job_list_to_drop env s sessionid workflowid"

text \<open>The positions of the markers of a workflow, in the order of the search: \<open>(marker, task, light task)\<close>.\<close>

definition markers :: "oph_workflow \<Rightarrow> (int \<times> int \<times> int) list" where
  [code_defs]: "markers w = (w_markerid w, - 1, - 1) #
     concat (map (\<lambda>(i, t). (t_markerid t, int i, - 1) #
       map (\<lambda>(j, l). (l_markerid l, int i, int j)) (List.enumerate 0 (t_light_tasks t)))
       (List.enumerate 0 (take (w_tasks_num w) (w_tasks w))))"

definition marker_match :: "string option \<Rightarrow> int \<Rightarrow> oph_workflow \<Rightarrow> (int \<times> int) option option" where
  [code_defs]: "marker_match sessionid markerid w =
     (case List.find (\<lambda>(k, _). k = markerid) (markers w) of
        None \<Rightarrow> Some None
      | Some (_, ij) \<Rightarrow> map_option (\<lambda>b. if b then Some ij else None) (session_is sessionid w))"

definition oph_find_marker_in_job_list ::
    "job_env \<Rightarrow> job_state \<Rightarrow> string option \<Rightarrow> int \<Rightarrow> (int \<times> int) find_result" where
  [code_defs]: "oph_find_marker_in_job_list env s sessionid markerid = find_with env (marker_match sessionid markerid) s"

text \<open>The number of started workflows first; then the first one that is not started, when a server is available.\<close>

fun first_unstarted :: "nat \<Rightarrow> job_state \<Rightarrow> nat option \<Rightarrow> nat option option" where
  "first_unstarted fuel s None = Some None"
| "first_unstarted 0 s (Some temp) = None"
| "first_unstarted (Suc fuel) s (Some temp) =
     (case cell (js_items s) temp of
        None \<Rightarrow> None
      | Some item \<Rightarrow>
          (case cell (js_wfs s) (ji_wf item) of
             None \<Rightarrow> None
           | Some w \<Rightarrow> if w_status w = 0 then Some (Some temp) else first_unstarted fuel s (ji_next item)))"

definition oph_find_unstarted_in_job_list :: "job_env \<Rightarrow> job_state \<Rightarrow> (job_state \<times> nat option) option" where
  [code_defs]: "oph_find_unstarted_in_job_list env s =
     (case search env (\<lambda>n w. Some (Inl (if w_status w \<noteq> 0 then n + 1 else n) :: 32 word + unit)) 0 s of
        None \<Rightarrow> None
      | Some (s, Search_Done n) \<Rightarrow>
          if e_farm_size env \<noteq> 0 \<and> n < e_farm_size env \<and> jl_counter (js_list s) > n
          then map_option (\<lambda>t. (s, t)) (first_unstarted (length (js_items s)) s (jl_head (js_list s)))
          else Some (s, None)
      | Some (s, _) \<Rightarrow> Some (s, None))"

section \<open>Insertion and removal\<close>

text \<open>The item to insert is in the store already.\<close>

definition oph_insert_into_job_list :: "job_env \<Rightarrow> job_state \<Rightarrow> nat \<Rightarrow> (job_state \<times> job_list_code) option" where
  [code_defs]: "oph_insert_into_job_list env s a =
     (let l = js_list s; farm_full = e_farm_size env \<noteq> 0 \<and> jl_counter l \<ge> e_farm_size env in
      if farm_full \<and> e_queue_size env \<noteq> 0 \<and> jl_counter l \<ge> e_farm_size env + e_queue_size env
      then Some (s, OPH_JOB_LIST_FULL)
      else
      (case cell (js_items s) a of
         None \<Rightarrow> None
       | Some item \<Rightarrow>
      (case cell (js_wfs s) (ji_wf item) of
         None \<Rightarrow> None
       | Some w \<Rightarrow>
      (case oph_find_job_in_job_list env s (w_idjob w) of
         None \<Rightarrow> None
       | Some (s, Some _) \<Rightarrow> Some (s, OPH_JOB_LIST_EXISTING_JOB)
       | Some (s, None) \<Rightarrow>
           (case (case jl_tail (js_list s) of None \<Rightarrow> Some s | Some t \<Rightarrow> set_next s t (Some a)) of
              None \<Rightarrow> None
            | Some s \<Rightarrow>
                Some (s\<lparr>js_list := (js_list s)\<lparr>jl_tail := Some a,
                          jl_head := (case jl_head (js_list s) of None \<Rightarrow> Some a | Some h \<Rightarrow> Some h),
                          jl_counter := jl_counter (js_list s) + 1\<rparr>,
                        js_items := (js_items s)[a := Some (item\<lparr>ji_next := None, ji_timestamp := c_int (e_now env)\<rparr>)]\<rparr>,
                      if farm_full then OPH_JOB_LIST_FARM_FULL else OPH_JOB_LIST_OK))))))"

definition oph_drop_from_job_list :: "job_state \<Rightarrow> nat \<Rightarrow> nat option \<Rightarrow> (job_state \<times> job_list_code) option" where
  [code_defs]: "oph_drop_from_job_list s a prev =
     (case cell (js_items s) a of
        None \<Rightarrow> None
      | Some item \<Rightarrow>
          (let l = js_list s;
               l = l\<lparr>jl_counter := jl_counter l - 1, jl_tail := (if jl_tail l = Some a then prev else jl_tail l)\<rparr> in
           if jl_head l = Some a
           then Some (s\<lparr>js_list := l\<lparr>jl_head := ji_next item\<rparr>\<rparr>, OPH_JOB_LIST_OK)
           else (case prev of
                   None \<Rightarrow> Some (s\<lparr>js_list := l\<rparr>, OPH_JOB_LIST_ERROR)
                 | Some p \<Rightarrow> map_option (\<lambda>s. (s, OPH_JOB_LIST_OK)) (set_next (s\<lparr>js_list := l\<rparr>) p (ji_next item)))))"

definition release_wf :: "job_state \<Rightarrow> nat \<Rightarrow> job_state option" where
  [code_defs]: "release_wf s wa =
     (case cell (js_wfs s) wa of
        None \<Rightarrow> None
      | Some w \<Rightarrow> Some (s\<lparr>js_wfs := (js_wfs s)[wa := oph_workflow_free w]\<rparr>))"

definition oph_save_job_in_job_list2 :: "job_env \<Rightarrow> job_state \<Rightarrow> nat \<Rightarrow> bool \<Rightarrow> (job_state \<times> job_list_code) option" where
  [code_defs]: "oph_save_job_in_job_list2 env s a remove =
     (case cell (js_items s) a of
        None \<Rightarrow> None
      | Some item \<Rightarrow>
          if remove \<and> e_status_log env
          then Some (s\<lparr>js_items := (js_items s)[a := Some (item\<lparr>ji_timestamp := c_int (e_now env), ji_next := jl_saved (js_list s)\<rparr>)],
                       js_list := (js_list s)\<lparr>jl_saved := Some a\<rparr>\<rparr>, OPH_JOB_LIST_OK)
          else map_option (\<lambda>s. (s\<lparr>js_items := (js_items s)[a := None]\<rparr>, OPH_JOB_LIST_OK))
                 (if remove then release_wf s (ji_wf item) else Some s))"

definition oph_delete_from_job_list2 ::
    "job_env \<Rightarrow> job_state \<Rightarrow> nat \<Rightarrow> nat option \<Rightarrow> bool \<Rightarrow> (job_state \<times> job_list_code) option" where
  [code_defs]: "oph_delete_from_job_list2 env s a prev remove =
     (case oph_drop_from_job_list s a prev of
        None \<Rightarrow> None
      | Some (s, OPH_JOB_LIST_OK) \<Rightarrow> oph_save_job_in_job_list2 env s a remove
      | Some (s, _) \<Rightarrow> Some (s, OPH_JOB_LIST_ERROR))"

text \<open>The saved workflows that are older than \<open>hysteresis\<close>, all of them when it is zero.\<close>

fun delete_saved :: "nat \<Rightarrow> int \<Rightarrow> int \<Rightarrow> job_state \<Rightarrow> nat option \<Rightarrow> nat option \<Rightarrow> job_state option" where
  "delete_saved fuel now hysteresis s prev None = Some s"
| "delete_saved 0 now hysteresis s prev (Some a) = None"
| "delete_saved (Suc fuel) now hysteresis s prev (Some a) =
     (case cell (js_items s) a of
        None \<Rightarrow> None
      | Some item \<Rightarrow>
          if hysteresis = 0 \<or> ji_timestamp item < now - hysteresis
          then (case release_wf s (ji_wf item) of
                  None \<Rightarrow> None
                | Some s \<Rightarrow>
                    (let s = s\<lparr>js_items := (js_items s)[a := None]\<rparr> in
                     case (case prev of None \<Rightarrow> Some s | Some p \<Rightarrow> set_next s p (ji_next item)) of
                       None \<Rightarrow> None
                     | Some s \<Rightarrow> delete_saved fuel now hysteresis s prev (ji_next item)))
          else (let s = (if jl_saved (js_list s) = None then s\<lparr>js_list := (js_list s)\<lparr>jl_saved := Some a\<rparr>\<rparr> else s) in
                delete_saved fuel now hysteresis s (Some a) (ji_next item)))"

definition oph_delete_saved_jobs_from_job_list :: "job_env \<Rightarrow> job_state \<Rightarrow> int \<Rightarrow> (job_state \<times> job_list_code) option" where
  [code_defs]: "oph_delete_saved_jobs_from_job_list env s hysteresis =
     map_option (\<lambda>s. (s, OPH_JOB_LIST_OK))
       (delete_saved (length (js_items s)) (e_now env) hysteresis (s\<lparr>js_list := (js_list s)\<lparr>jl_saved := None\<rparr>\<rparr>) None
          (jl_saved (js_list s)))"

fun free_items :: "nat \<Rightarrow> job_state \<Rightarrow> job_state option" where
  "free_items 0 s = (if jl_head (js_list s) = None then Some s else None)"
| "free_items (Suc fuel) s =
     (case jl_head (js_list s) of
        None \<Rightarrow> Some s
      | Some a \<Rightarrow>
          (case cell (js_items s) a of
             None \<Rightarrow> None
           | Some item \<Rightarrow>
               (case release_wf (s\<lparr>js_list := (js_list s)\<lparr>jl_head := ji_next item\<rparr>\<rparr>) (ji_wf item) of
                  None \<Rightarrow> None
                | Some s \<Rightarrow> free_items fuel (s\<lparr>js_items := (js_items s)[a := None]\<rparr>))))"

definition oph_free_job_list :: "job_env \<Rightarrow> job_state \<Rightarrow> (job_state \<times> job_list_code) option" where
  [code_defs]: "oph_free_job_list env s =
     (case free_items (length (js_items s)) s of
        None \<Rightarrow> None
      | Some s \<Rightarrow>
          map_option (apsnd (\<lambda>_. OPH_JOB_LIST_OK))
            (oph_delete_saved_jobs_from_job_list env (s\<lparr>js_list := (js_list s)\<lparr>jl_tail := None, jl_counter := 0\<rparr>\<rparr>) 0))"

text \<open>A new identifier, above those of the list; \<open>None\<close> also when the increment overflows.\<close>

fun max_jobid :: "nat \<Rightarrow> job_state \<Rightarrow> int \<Rightarrow> nat option \<Rightarrow> int option" where
  "max_jobid fuel s jobid None = Some jobid"
| "max_jobid 0 s jobid (Some temp) = None"
| "max_jobid (Suc fuel) s jobid (Some temp) =
     (case cell (js_items s) temp of
        None \<Rightarrow> None
      | Some item \<Rightarrow>
          (case cell (js_wfs s) (ji_wf item) of
             None \<Rightarrow> None
           | Some w \<Rightarrow> max_jobid fuel s (if w_idjob w > jobid then w_idjob w else jobid) (ji_next item)))"

definition oph_get_new_jobid_from_job_list :: "job_state \<Rightarrow> int option" where
  [code_defs]: "oph_get_new_jobid_from_job_list s =
     (case max_jobid (length (js_items s)) s 0 (jl_head (js_list s)) of
        None \<Rightarrow> None
      | Some j \<Rightarrow> if j = 2147483647 then None else Some (j + 1))"

section \<open>The operations of the server\<close>

definition oph_wf_list_append :: "job_env \<Rightarrow> job_state \<Rightarrow> nat \<Rightarrow> (job_state \<times> server_code) option" where
  [code_defs]: "oph_wf_list_append env s wa =
     (let a = length (js_items s); item = \<lparr>ji_timestamp = 0, ji_wf = wa, ji_next = None\<rparr> in
      case oph_insert_into_job_list env (s\<lparr>js_items := js_items s @ [Some item]\<rparr>) a of
        None \<Rightarrow> None
      | Some (s, OPH_JOB_LIST_OK) \<Rightarrow> Some (s, OPH_SERVER_OK)
      | Some (s, OPH_JOB_LIST_FARM_FULL) \<Rightarrow> Some (s, OPH_SERVER_NO_RESPONSE)
      | Some (s, _) \<Rightarrow> Some (s\<lparr>js_items := (js_items s)[a := None]\<rparr>, OPH_SERVER_ERROR))"

definition oph_wf_list_drop2 :: "job_env \<Rightarrow> job_state \<Rightarrow> int \<Rightarrow> bool \<Rightarrow> (job_state \<times> server_code) option" where
  [code_defs]: "oph_wf_list_drop2 env s jobid remove =
     (case oph_find_job_in_job_list env s jobid of
        None \<Rightarrow> None
      | Some (s, None) \<Rightarrow> Some (s, OPH_SERVER_OK)
      | Some (s, Some (a, prev, _)) \<Rightarrow>
          map_option (apsnd (\<lambda>r. if r = OPH_JOB_LIST_OK then OPH_SERVER_OK else OPH_SERVER_ERROR))
            (oph_delete_from_job_list2 env s a prev remove))"

definition oph_wf_list_drop :: "job_env \<Rightarrow> job_state \<Rightarrow> int \<Rightarrow> (job_state \<times> server_code) option" where
  [code_defs]: "oph_wf_list_drop env s jobid = oph_wf_list_drop2 env s jobid True"

section \<open>Detached tasks\<close>

text \<open>
  The list of the identifiers of the detached tasks, the last one first. \<open>oph_remove_detached_task\<close> never moves \<open>prev\<close>, so
  the head of the list is set to what comes after the removed task.
\<close>

definition oph_detach_task :: "int list \<Rightarrow> int \<Rightarrow> int list" where
  [code_defs]: "oph_detach_task l i = (if i \<noteq> 0 then i # l else l)"

definition oph_is_detached_task :: "int list \<Rightarrow> int \<Rightarrow> bool" where
  [code_defs]: "oph_is_detached_task l i \<longleftrightarrow> i \<noteq> 0 \<and> dropWhile (\<lambda>x. x \<noteq> i) l \<noteq> []"

definition oph_remove_detached_task :: "int list \<Rightarrow> int \<Rightarrow> int list" where
  [code_defs]: "oph_remove_detached_task l i =
     (if i \<noteq> 0 then (case dropWhile (\<lambda>x. x \<noteq> i) l of [] \<Rightarrow> l | _ # rest \<Rightarrow> rest) else l)"


section \<open>Well-formed lists\<close>

text \<open>
  The segment of a chain through the addresses \<open>xs\<close>, from a pointer up to the pointer \<open>q\<close>; a chain ends with the null
  pointer.
\<close>

fun seg :: "oph_job_info option list \<Rightarrow> nat option \<Rightarrow> nat list \<Rightarrow> nat option \<Rightarrow> bool" where
  "seg m p [] q \<longleftrightarrow> p = q"
| "seg m p (x # xs) q \<longleftrightarrow> p = Some x \<and> (case cell m x of None \<Rightarrow> False | Some i \<Rightarrow> seg m (ji_next i) xs q)"

abbreviation linked :: "oph_job_info option list \<Rightarrow> nat option \<Rightarrow> nat list \<Rightarrow> bool" where
  "linked m p xs \<equiv> seg m p xs None"

text \<open>What the store holds for an address.\<close>

definition wf_addr :: "oph_job_info option list \<Rightarrow> nat \<Rightarrow> nat option" where
  [code_defs]: "wf_addr m x = map_option ji_wf (cell m x)"

definition wf_at :: "job_state \<Rightarrow> nat \<Rightarrow> oph_workflow option" where
  [code_defs]: "wf_at s x = Option.bind (wf_addr (js_items s) x) (cell (js_wfs s))"

definition stamp :: "oph_job_info option list \<Rightarrow> nat \<Rightarrow> int" where
  [code_defs]: "stamp m x = (case cell m x of None \<Rightarrow> 0 | Some i \<Rightarrow> ji_timestamp i)"

definition last_of :: "nat option \<Rightarrow> nat list \<Rightarrow> nat option" where
  [code_defs]: "last_of p xs = (if xs = [] then p else Some (last xs))"

text \<open>
  \<open>xs\<close> are the pending items and \<open>ys\<close> the saved ones: both chains end, they share no item and no workflow, every workflow
  is allocated, and the tail and the counter agree with the chain.
\<close>

definition jobs_ok :: "job_state \<Rightarrow> nat list \<Rightarrow> bool" where
  [code_defs]: "jobs_ok s zs \<longleftrightarrow> distinct (map (wf_addr (js_items s)) zs) \<and> list_all (\<lambda>x. wf_at s x \<noteq> None) zs"

definition job_list_ok :: "job_state \<Rightarrow> nat list \<Rightarrow> nat list \<Rightarrow> bool" where
  [code_defs]: "job_list_ok s xs ys \<longleftrightarrow>
     linked (js_items s) (jl_head (js_list s)) xs \<and> linked (js_items s) (jl_saved (js_list s)) ys \<and>
     distinct (xs @ ys) \<and> jl_tail (js_list s) = last_of None xs \<and>
     length xs < 2 ^ 32 \<and> jl_counter (js_list s) = of_nat (length xs) \<and> jobs_ok s (xs @ ys)"

lemma cell_update: "cell (m[a := v]) x = (if x = a \<and> a < length m then v else cell m x)"
  by (auto simp: cell_def nth_list_update)

lemma cell_append: "cell (m @ m') x = (if x < length m then cell m x else cell m' (x - length m))"
  by (auto simp: cell_def nth_append)

lemma cell_Some_length: "cell m x = Some i \<Longrightarrow> x < length m"
  by (auto simp: cell_def split: if_splits)

lemma seg_append: "seg m p (us @ vs) q \<longleftrightarrow> (\<exists>r. seg m p us r \<and> seg m r vs q)"
  by (induction us arbitrary: p) (auto split: option.splits)

lemma seg_cong:
  assumes "\<And>x. x \<in> set xs \<Longrightarrow> map_option ji_next (cell m' x) = map_option ji_next (cell m x)"
  shows "seg m' p xs q \<longleftrightarrow> seg m p xs q"
  using assms
proof (induction xs arbitrary: p)
  case (Cons x xs)
  then have "seg m' r xs q \<longleftrightarrow> seg m r xs q" for r by simp
  with Cons.prems [of x] show ?case by (cases "cell m' x"; cases "cell m x") auto
qed simp

lemma seg_update [simp]: "a \<notin> set xs \<Longrightarrow> seg (m[a := v]) p xs q \<longleftrightarrow> seg m p xs q"
  by (rule seg_cong) (auto simp: cell_update)

lemma seg_live: "seg m p xs q \<Longrightarrow> x \<in> set xs \<Longrightarrow> x < length m \<and> cell m x \<noteq> None"
  by (induction xs arbitrary: p) (auto split: option.splits dest: cell_Some_length)

lemma seg_alloc: "seg m p xs q \<Longrightarrow> seg (m @ m') p xs q"
  using seg_live [of m p xs q] seg_cong [of xs "m @ m'" m p q] by (auto simp: cell_append)

lemma seg_length: "seg m p xs q \<Longrightarrow> distinct xs \<Longrightarrow> length xs \<le> length m"
  using card_mono [of "{..<length m}" "set xs"] seg_live [of m p xs q]
  by (metis card_lessThan distinct_card finite_lessThan lessThan_iff subsetI)

lemma seg_snoc: "seg m p (us @ [l]) q \<longleftrightarrow> (\<exists>i. seg m p us (Some l) \<and> cell m l = Some i \<and> ji_next i = q)"
  by (auto simp: seg_append split: option.splits)

text \<open>The next pointer of the last address of a segment can be redirected.\<close>

lemma seg_redirect:
  assumes "seg m p (us @ [l]) q" and "distinct (us @ [l])" and "cell m l = Some i"
  shows "seg (m[l := Some (i\<lparr>ji_next := r\<rparr>)]) p (us @ [l]) r"
  using assms by (auto simp: seg_snoc cell_update dest: cell_Some_length)

lemma seg_unlink:
  assumes "linked m p (us @ l # x # vs)" and "distinct (us @ l # vs)" and "cell m l = Some k" and "cell m x = Some i"
  shows "linked (m[l := Some (k\<lparr>ji_next := ji_next i\<rparr>)]) p (us @ l # vs)"
proof -
  obtain r where "seg m p (us @ [l]) r" and "linked m r (x # vs)"
    using assms(1) seg_append [of m p "us @ [l]" "x # vs"] by auto
  with assms(2-) have "seg (m[l := Some (k\<lparr>ji_next := ji_next i\<rparr>)]) p (us @ [l]) (ji_next i)" and "linked m (ji_next i) vs"
    by (auto intro!: seg_redirect)
  then show ?thesis
    using assms(2) seg_append [of _ p "us @ [l]" vs None] by auto
qed

lemma last_of_simps [simp]:
  "last_of p [] = p" "last_of p (xs @ [x]) = Some x" "last_of p (us @ x # vs) = last_of (Some x) vs"
  by (auto simp: last_of_def)

lemma last_of_Some: "last_of (Some x) vs = Some (last (x # vs))"
  by (simp add: last_of_def)

section \<open>Searches without expired items\<close>

definition fresh :: "job_env \<Rightarrow> job_state \<Rightarrow> nat list \<Rightarrow> bool" where
  [code_defs]: "fresh env s xs \<longleftrightarrow> list_all (\<lambda>x. remote_deadline env \<le> stamp (js_items s) x) xs"

definition job_id :: "job_state \<Rightarrow> nat \<Rightarrow> int" where
  [code_defs]: "job_id s x = w_idjob (the (wf_at s x))"

fun visit_chain :: "('a \<Rightarrow> nat \<Rightarrow> 'a + 'r) \<Rightarrow> 'a \<Rightarrow> nat option \<Rightarrow> nat list \<Rightarrow> ('a, 'r) search_outcome" where
  "visit_chain v a prev [] = Search_Done a"
| "visit_chain v a prev (x # xs) =
     (case v a x of Inr r \<Rightarrow> Search_Found x prev r | Inl a' \<Rightarrow> visit_chain v a' (Some x) xs)"

lemma search_list_chain:
  assumes "linked (js_items s) p xs" and "\<forall>x\<in>set xs. dl \<le> stamp (js_items s) x \<and> wf_at s x \<noteq> None"
    and "\<forall>a. \<forall>x\<in>set xs. visit a (the (wf_at s x)) = Some (v a x)" and "length xs \<le> fuel"
  shows "search_list fuel dl visit a s prev p = Some (s, visit_chain v a prev xs)"
  using assms
proof (induction xs arbitrary: fuel a prev p)
  case (Cons x xs)
  then obtain n i where n: "fuel = Suc n" and i: "cell (js_items s) x = Some i" "linked (js_items s) (ji_next i) xs"
    by (cases fuel) (auto split: option.splits)
  then obtain w where w: "cell (js_wfs s) (ji_wf i) = Some w" "wf_at s x = Some w"
    using Cons.prems(2) by (auto simp: wf_at_def wf_addr_def)
  have "\<not> ji_timestamp i < dl" using Cons.prems(2) i by (auto simp: stamp_def)
  then show ?case
    using Cons.IH [OF i(2), of n] Cons.prems n i w by (auto split: sum.split)
qed simp

lemma search_chain:
  assumes "job_list_ok s xs ys" and "fresh env s xs" and "\<And>a x. x \<in> set xs \<Longrightarrow> visit a (the (wf_at s x)) = Some (v a x)"
  shows "search env visit a s = Some (s, visit_chain v a None xs)"
proof -
  have ok: "linked (js_items s) (jl_head (js_list s)) xs" "distinct xs" "\<forall>x\<in>set xs. wf_at s x \<noteq> None"
    using assms(1) by (auto simp: job_list_ok_def jobs_ok_def list_all_iff)
  then show ?thesis
    unfolding search_def using assms(2,3) seg_length [OF ok(1,2)]
    by (intro search_list_chain) (auto simp: fresh_def list_all_iff)
qed

lemma visit_chain_split:
  assumes "\<forall>u\<in>set us. v () u = Inl ()" and "v () x = Inr r"
  shows "visit_chain v () prev (us @ x # vs) = Search_Found x (last_of prev us) r"
  using assms by (induction us arbitrary: prev) (auto simp: last_of_def)

lemma visit_chain_none: "\<forall>x\<in>set xs. v () x = Inl () \<Longrightarrow> visit_chain v () prev xs = Search_Done ()"
  by (induction xs arbitrary: prev) auto

text \<open>What the searches for one item return: the first match with its predecessor, and nothing else changes.\<close>

lemma find_with_first:
  assumes "job_list_ok s (us @ x # vs) ys" and "fresh env s (us @ x # vs)"
    and "\<And>z. z \<in> set (us @ x # vs) \<Longrightarrow> match (the (wf_at s z)) = Some (f z)"
    and "\<forall>u\<in>set us. f u = None" and "f x = Some r"
  shows "find_with env match s = Some (s, Some (x, last_of None us, r))"
proof -
  let ?v = "\<lambda>_ z. case f z of None \<Rightarrow> Inl () | Some r \<Rightarrow> Inr r"
  have "search env (\<lambda>_ w. map_option (\<lambda>r. case r of None \<Rightarrow> Inl () | Some x \<Rightarrow> Inr x) (match w)) () s =
      Some (s, visit_chain ?v () None (us @ x # vs))"
    using assms(3) by (intro search_chain [OF assms(1,2)]) auto
  then show ?thesis using assms(4,5) by (simp add: find_with_def visit_chain_split)
qed

lemma find_with_none:
  assumes "job_list_ok s xs ys" and "fresh env s xs" and "\<And>z. z \<in> set xs \<Longrightarrow> match (the (wf_at s z)) = Some None"
  shows "find_with env match s = Some (s, None)"
proof -
  have "search env (\<lambda>_ w. map_option (\<lambda>r. case r of None \<Rightarrow> Inl () | Some x \<Rightarrow> Inr x) (match w)) () s =
      Some (s, visit_chain (\<lambda>_ _. Inl ()) () None xs)"
    using assms(3) by (intro search_chain [OF assms(1,2)]) auto
  then show ?thesis by (simp add: find_with_def visit_chain_none)
qed

lemma find_job_first:
  assumes "job_list_ok s (us @ x # vs) ys" and "fresh env s (us @ x # vs)" and "job_id s x = j" and "\<forall>u\<in>set us. job_id s u \<noteq> j"
  shows "oph_find_job_in_job_list env s j = Some (s, Some (x, last_of None us, ()))"
  unfolding oph_find_job_in_job_list_def using assms
  by (intro find_with_first [where f = "\<lambda>z. if job_id s z = j then Some () else None"]) (auto simp: job_id_def)

lemma find_job_none:
  assumes "job_list_ok s xs ys" and "fresh env s xs" and "\<forall>x\<in>set xs. job_id s x \<noteq> j"
  shows "oph_find_job_in_job_list env s j = Some (s, None)"
  unfolding oph_find_job_in_job_list_def using assms by (intro find_with_none) (auto simp: job_id_def)

section \<open>Removal keeps the list well-formed\<close>

text \<open>Changes of the next pointer or of the time of an item change neither its workflow nor, for the first, its time.\<close>

lemma wf_addr_update: "cell m a = Some i \<Longrightarrow> ji_wf j = ji_wf i \<Longrightarrow> wf_addr (m[a := Some j]) = wf_addr m"
  by (rule ext) (auto simp: wf_addr_def cell_update)

lemma stamp_update: "cell m a = Some i \<Longrightarrow> ji_timestamp j = ji_timestamp i \<Longrightarrow> stamp (m[a := Some j]) = stamp m"
  by (rule ext) (auto simp: stamp_def cell_update)

lemma js_list_update [simp]: "wf_at (s\<lparr>js_list := l\<rparr>) = wf_at s" "jobs_ok (s\<lparr>js_list := l\<rparr>) zs \<longleftrightarrow> jobs_ok s zs"
  by (simp_all add: wf_at_def jobs_ok_def fun_eq_iff)

lemma set_next_eq: "cell (js_items s) a = Some i \<Longrightarrow>
    set_next s a n = Some (s\<lparr>js_items := (js_items s)[a := Some (i\<lparr>ji_next := n\<rparr>)]\<rparr>)"
  by (simp add: set_next_def)

text \<open>Two states with the same workflows and the same items but for the links.\<close>

definition same_jobs :: "job_state \<Rightarrow> job_state \<Rightarrow> bool" where
  "same_jobs s s' \<longleftrightarrow> js_wfs s' = js_wfs s \<and> length (js_items s') = length (js_items s) \<and>
     wf_addr (js_items s') = wf_addr (js_items s) \<and> stamp (js_items s') = stamp (js_items s)"

lemma same_jobs_wf_at: "same_jobs s s' \<Longrightarrow> wf_at s' = wf_at s"
  by (rule ext) (simp add: same_jobs_def wf_at_def)

lemma same_jobs_ok: "same_jobs s s' \<Longrightarrow> jobs_ok s' zs \<longleftrightarrow> jobs_ok s zs"
  by (frule same_jobs_wf_at) (simp add: jobs_ok_def same_jobs_def)

lemma jobs_ok_subset: "jobs_ok s zs \<Longrightarrow> set zs' \<subseteq> set zs \<Longrightarrow> distinct zs' \<Longrightarrow> jobs_ok s zs'"
  by (auto simp: jobs_ok_def list_all_iff distinct_map intro: inj_on_subset)

lemma job_list_ok_head:
  assumes "job_list_ok s (us @ x # vs) ys"
  shows "jl_head (js_list s) = Some x \<longleftrightarrow> us = []" and "jl_tail (js_list s) = Some x \<longleftrightarrow> vs = []"
  using assms by (cases us; auto simp: job_list_ok_def last_of_def)+

lemma drop_ok:
  assumes "job_list_ok s (us @ x # vs) ys"
  shows "\<exists>s'. oph_drop_from_job_list s x (last_of None us) = Some (s', OPH_JOB_LIST_OK) \<and> job_list_ok s' (us @ vs) ys \<and>
    same_jobs s s' \<and> cell (js_items s') x = cell (js_items s) x"
proof -
  have seg: "linked (js_items s) (jl_head (js_list s)) (us @ x # vs)" and dist: "distinct (us @ x # vs @ ys)"
    using assms by (auto simp: job_list_ok_def)
  then obtain i where i: "cell (js_items s) x = Some i" "linked (js_items s) (ji_next i) vs"
    by (auto simp: seg_append split: option.splits)
  note head = job_list_ok_head [OF assms]
  have jobs: "jobs_ok s ((us @ vs) @ ys)" using assms dist by (auto simp: job_list_ok_def elim!: jobs_ok_subset)
  let ?l = "(js_list s)\<lparr>jl_counter := jl_counter (js_list s) - 1, jl_tail := last_of (last_of None us) vs\<rparr>"
  have tail: "(if jl_tail (js_list s) = Some x then last_of None us else jl_tail (js_list s)) = last_of (last_of None us) vs"
    using head(2) assms by (auto simp: job_list_ok_def last_of_def)
  show ?thesis
  proof (cases us rule: rev_cases)
    case Nil
    then have "oph_drop_from_job_list s x (last_of None us) = Some (s\<lparr>js_list := ?l\<lparr>jl_head := ji_next i\<rparr>\<rparr>, OPH_JOB_LIST_OK)"
      unfolding oph_drop_from_job_list_def Let_def tail using i(1) head by simp
    moreover have "same_jobs s (s\<lparr>js_list := ?l\<lparr>jl_head := ji_next i\<rparr>\<rparr>)" by (simp add: same_jobs_def)
    ultimately show ?thesis
      using assms i Nil jobs by (auto simp: job_list_ok_def)
  next
    case (snoc us' l)
    obtain k where k: "cell (js_items s) l = Some k" using seg by (auto simp: snoc seg_append split: option.splits)
    let ?m = "(js_items s)[l := Some (k\<lparr>ji_next := ji_next i\<rparr>)]"
    have "linked ?m (jl_head (js_list s)) (us @ vs)"
      using seg dist seg_unlink [OF _ _ k i(1), of "jl_head (js_list s)" us' vs] by (auto simp: snoc)
    moreover have "oph_drop_from_job_list s x (last_of None us) = Some (s\<lparr>js_list := ?l, js_items := ?m\<rparr>, OPH_JOB_LIST_OK)"
      unfolding oph_drop_from_job_list_def Let_def tail using i(1) head k snoc by (simp add: set_next_def)
    moreover have same: "same_jobs s (s\<lparr>js_list := ?l, js_items := ?m\<rparr>)"
      using k by (simp add: same_jobs_def wf_addr_update stamp_update)
    moreover have "jobs_ok (s\<lparr>js_list := ?l, js_items := ?m\<rparr>) ((us @ vs) @ ys)"
      using jobs by (simp only: same_jobs_ok [OF same])
    ultimately show ?thesis
      using assms dist snoc by (simp add: job_list_ok_def cell_update)
  qed
qed

lemma jobs_ok_cong:
  assumes "\<And>z. z \<in> set zs \<Longrightarrow> wf_addr (js_items s') z = wf_addr (js_items s) z"
    and "\<And>z. z \<in> set zs \<Longrightarrow> wf_at s' z = wf_at s z"
  shows "jobs_ok s' zs \<longleftrightarrow> jobs_ok s zs"
proof -
  have "map (wf_addr (js_items s')) zs = map (wf_addr (js_items s)) zs" using assms(1) by simp
  with assms(2) show ?thesis by (simp add: jobs_ok_def list_all_iff del: map_eq_conv)
qed

lemma release_ok:
  assumes "jobs_ok s (x # zs)" and "cell (js_items s) x = Some i"
  shows "\<exists>s'. release_wf s (ji_wf i) = Some s' \<and> js_items s' = js_items s \<and> js_list s' = js_list s \<and>
    (\<forall>z\<in>set zs. wf_at s' z = wf_at s z)"
proof -
  obtain w where w: "cell (js_wfs s) (ji_wf i) = Some w"
    using assms by (auto simp: jobs_ok_def wf_at_def wf_addr_def)
  have "wf_addr (js_items s) z \<noteq> Some (ji_wf i)" if "z \<in> set zs" for z
    using assms that by (auto simp: jobs_ok_def wf_addr_def rev_image_eqI)
  then have "\<forall>z\<in>set zs. wf_at (s\<lparr>js_wfs := (js_wfs s)[ji_wf i := oph_workflow_free w]\<rparr>) z = wf_at s z"
    by (auto simp: wf_at_def cell_update split: Option.bind_split)
  then show ?thesis using w by (simp add: release_wf_def)
qed

lemma save_ok:
  assumes "job_list_ok s xs ys" and "x \<notin> set (xs @ ys)" and "jobs_ok s (x # xs @ ys)"
  shows "\<exists>s'. oph_save_job_in_job_list2 env s x remove = Some (s', OPH_JOB_LIST_OK) \<and>
    job_list_ok s' xs (if remove \<and> e_status_log env then x # ys else ys) \<and>
    (\<forall>z\<in>set xs. wf_at s' z = wf_at s z \<and> stamp (js_items s') z = stamp (js_items s) z)"
proof -
  obtain i where i: "cell (js_items s) x = Some i"
    using assms(3) by (cases "cell (js_items s) x") (auto simp: jobs_ok_def wf_at_def wf_addr_def)
  have neq: "z \<noteq> x" if "z \<in> set xs \<union> set ys" for z using assms(2) that by auto
  show ?thesis
  proof (cases "remove \<and> e_status_log env")
    case True
    let ?m = "(js_items s)[x := Some (i\<lparr>ji_timestamp := c_int (e_now env), ji_next := jl_saved (js_list s)\<rparr>)]"
    let ?s = "s\<lparr>js_items := ?m, js_list := (js_list s)\<lparr>jl_saved := Some x\<rparr>\<rparr>"
    have addr: "wf_addr ?m = wf_addr (js_items s)" using i by (intro wf_addr_update) auto
    then have at: "wf_at ?s = wf_at s" by (simp add: wf_at_def fun_eq_iff)
    have "jobs_ok ?s (x # xs @ ys)" using assms(3) addr at by (subst jobs_ok_cong [of _ _ s]) auto
    then have "jobs_ok ?s (xs @ x # ys)" by (rule jobs_ok_subset) (use assms in \<open>auto simp: job_list_ok_def\<close>)
    moreover have "cell ?m x = Some (i\<lparr>ji_timestamp := c_int (e_now env), ji_next := jl_saved (js_list s)\<rparr>)"
      using cell_Some_length [OF i] by (simp add: cell_update)
    ultimately have "job_list_ok ?s xs (x # ys)" using assms(1,2) by (simp add: job_list_ok_def)
    then show ?thesis using True i at neq by (simp add: oph_save_job_in_job_list2_def stamp_def cell_update)
  next
    case False
    obtain s1 where s1: "(if remove then release_wf s (ji_wf i) else Some s) = Some s1" "js_items s1 = js_items s"
        "js_list s1 = js_list s" "\<forall>z\<in>set (xs @ ys). wf_at s1 z = wf_at s z"
      using release_ok [OF assms(3) i] by (cases remove) auto
    let ?s = "s1\<lparr>js_items := (js_items s1)[x := None]\<rparr>"
    have addr: "wf_addr (js_items ?s) z = wf_addr (js_items s) z" if "z \<in> set (xs @ ys)" for z
      using neq that s1(2) by (auto simp: wf_addr_def cell_update)
    moreover have at: "wf_at ?s z = wf_at s z" if "z \<in> set (xs @ ys)" for z
      using that s1(4) neq by (auto simp: wf_at_def wf_addr_def cell_update)
    ultimately have "jobs_ok ?s (xs @ ys)" using assms(1) by (subst jobs_ok_cong [of _ _ s]) (auto simp: job_list_ok_def)
    then have "job_list_ok ?s xs ys" using assms(1,2) s1 by (simp add: job_list_ok_def)
    then show ?thesis using False i at s1 neq by (auto simp: oph_save_job_in_job_list2_def stamp_def cell_update)
  qed
qed

lemma drop2_ok:
  assumes "job_list_ok s (us @ x # vs) ys" and "fresh env s (us @ x # vs)" and "job_id s x = j" and "\<forall>u\<in>set us. job_id s u \<noteq> j"
  shows "\<exists>s'. oph_wf_list_drop2 env s j remove = Some (s', OPH_SERVER_OK) \<and>
    job_list_ok s' (us @ vs) (if remove \<and> e_status_log env then x # ys else ys) \<and>
    (\<forall>z\<in>set (us @ vs). wf_at s' z = wf_at s z \<and> stamp (js_items s') z = stamp (js_items s) z)"
proof -
  obtain s1 where s1: "oph_drop_from_job_list s x (last_of None us) = Some (s1, OPH_JOB_LIST_OK)" "job_list_ok s1 (us @ vs) ys"
      "same_jobs s s1"
    using drop_ok [OF assms(1)] by blast
  have "jobs_ok s ((us @ x # vs) @ ys)" and "distinct ((us @ x # vs) @ ys)" using assms(1) by (auto simp: job_list_ok_def)
  then have "jobs_ok s1 (x # (us @ vs) @ ys)" and x: "x \<notin> set ((us @ vs) @ ys)"
    unfolding same_jobs_ok [OF s1(3)] by (auto elim!: jobs_ok_subset)
  from save_ok [OF s1(2) x this(1), of env remove] obtain s2 where
    "oph_save_job_in_job_list2 env s1 x remove = Some (s2, OPH_JOB_LIST_OK)"
    "job_list_ok s2 (us @ vs) (if remove \<and> e_status_log env then x # ys else ys)"
    "\<forall>z\<in>set (us @ vs). wf_at s2 z = wf_at s1 z \<and> stamp (js_items s2) z = stamp (js_items s1) z" by blast
  then show ?thesis
    using find_job_first [OF assms] s1 same_jobs_wf_at [OF s1(3)]
    by (simp add: oph_wf_list_drop2_def oph_delete_from_job_list2_def same_jobs_def)
qed

section \<open>Insertion keeps the list well-formed\<close>

definition list_full :: "job_env \<Rightarrow> nat \<Rightarrow> bool" where
  [code_defs]: "list_full env n \<longleftrightarrow> e_farm_size env \<noteq> 0 \<and> e_farm_size env \<le> of_nat n \<and>
     e_queue_size env \<noteq> 0 \<and> e_farm_size env + e_queue_size env \<le> of_nat n"

text \<open>A cell that is appended to the store, and a cell that no chain uses, are of no account.\<close>

lemma job_list_ok_alloc:
  fixes s :: job_state and v :: "oph_job_info option"
  assumes "job_list_ok s xs ys"
  defines "s' \<equiv> s\<lparr>js_items := js_items s @ [v]\<rparr>"
  shows "job_list_ok s' xs ys" and "\<forall>z\<in>set (xs @ ys). wf_at s' z = wf_at s z \<and> stamp (js_items s') z = stamp (js_items s) z"
proof -
  have live: "z < length (js_items s)" if "z \<in> set (xs @ ys)" for z
    using assms(1) that seg_live by (auto simp: job_list_ok_def)
  then have addr: "\<forall>z\<in>set (xs @ ys). wf_addr (js_items s') z = wf_addr (js_items s) z"
    by (simp add: s'_def wf_addr_def cell_append)
  then have at: "\<forall>z\<in>set (xs @ ys). wf_at s' z = wf_at s z" by (simp add: s'_def wf_at_def)
  have "jobs_ok s' (xs @ ys)" using assms(1) addr at by (subst jobs_ok_cong [of _ _ s]) (auto simp: job_list_ok_def)
  then show "job_list_ok s' xs ys" using assms(1) by (simp add: job_list_ok_def s'_def seg_alloc)
  show "\<forall>z\<in>set (xs @ ys). wf_at s' z = wf_at s z \<and> stamp (js_items s') z = stamp (js_items s) z"
    using at live by (simp add: s'_def stamp_def cell_append)
qed

lemma fresh_cong: "\<forall>z\<in>set xs. stamp (js_items s') z = stamp (js_items s) z \<Longrightarrow> fresh env s' xs \<longleftrightarrow> fresh env s xs"
  by (simp add: fresh_def list_all_iff)

lemma job_id_cong: "wf_at s' z = wf_at s z \<Longrightarrow> job_id s' z = job_id s z"
  by (simp add: job_id_def)

text \<open>The chain of the pending items redirected to a new one.\<close>

lemma link_tail:
  assumes "job_list_ok s xs ys"
  shows "\<exists>m. (case jl_tail (js_list s) of None \<Rightarrow> Some s | Some t \<Rightarrow> set_next s t (Some a)) = Some (s\<lparr>js_items := m\<rparr>) \<and>
    seg m (case jl_head (js_list s) of None \<Rightarrow> Some a | Some h \<Rightarrow> Some h) xs (Some a) \<and> linked m (jl_saved (js_list s)) ys \<and>
    wf_addr m = wf_addr (js_items s) \<and> stamp m = stamp (js_items s) \<and> length m = length (js_items s)"
proof (cases xs rule: rev_cases)
  case Nil
  then show ?thesis using assms by (intro exI [of _ "js_items s"]) (simp add: job_list_ok_def)
next
  case (snoc us l)
  have ok: "linked (js_items s) (jl_head (js_list s)) (us @ [l])" "distinct (us @ [l])" "jl_tail (js_list s) = Some l" "l \<notin> set ys"
      "linked (js_items s) (jl_saved (js_list s)) ys"
    using assms by (auto simp: job_list_ok_def snoc)
  then obtain k where k: "cell (js_items s) l = Some k" by (auto simp: seg_snoc)
  have "jl_head (js_list s) \<noteq> None" using ok(1) by (cases us) auto
  then show ?thesis
    using ok k seg_redirect [OF ok(1,2) k, of "Some a"]
    by (intro exI [of _ "(js_items s)[l := Some (k\<lparr>ji_next := Some a\<rparr>)]"])
      (auto simp: set_next_def snoc wf_addr_update stamp_update)
qed

lemma insert_new:
  assumes "job_list_ok s xs ys" and "fresh env s xs" and "a \<notin> set (xs @ ys)" and "cell (js_items s) a = Some item"
    and "cell (js_wfs s) (ji_wf item) = Some w" and "Some (ji_wf item) \<notin> wf_addr (js_items s) ` set (xs @ ys)"
    and "\<not> list_full env (length xs)" and "\<forall>x\<in>set xs. job_id s x \<noteq> w_idjob w" and "length xs < 2 ^ 32 - 1"
  shows "\<exists>s'. oph_insert_into_job_list env s a =
      Some (s', if e_farm_size env \<noteq> 0 \<and> e_farm_size env \<le> of_nat (length xs) then OPH_JOB_LIST_FARM_FULL else OPH_JOB_LIST_OK) \<and>
    job_list_ok s' (xs @ [a]) ys \<and> wf_at s' = wf_at s \<and>
    (\<forall>z\<in>set (xs @ ys). stamp (js_items s') z = stamp (js_items s) z) \<and> stamp (js_items s') a = c_int (e_now env)"
proof -
  obtain m where m: "(case jl_tail (js_list s) of None \<Rightarrow> Some s | Some t \<Rightarrow> set_next s t (Some a)) = Some (s\<lparr>js_items := m\<rparr>)"
      "seg m (case jl_head (js_list s) of None \<Rightarrow> Some a | Some h \<Rightarrow> Some h) xs (Some a)" "linked m (jl_saved (js_list s)) ys"
      "wf_addr m = wf_addr (js_items s)" "stamp m = stamp (js_items s)" "length m = length (js_items s)"
    using link_tail [OF assms(1)] by blast
  let ?i = "item\<lparr>ji_next := None, ji_timestamp := c_int (e_now env)\<rparr>"
  let ?l = "(js_list s)\<lparr>jl_tail := Some a, jl_head := (case jl_head (js_list s) of None \<Rightarrow> Some a | Some h \<Rightarrow> Some h),
     jl_counter := jl_counter (js_list s) + 1\<rparr>"
  let ?s = "s\<lparr>js_items := m[a := Some ?i], js_list := ?l\<rparr>"
  have a: "a < length m" using cell_Some_length [OF assms(4)] m(6) by simp
  have addr: "wf_addr (m[a := Some ?i]) = wf_addr (js_items s)"
    using assms(4) m(4) a by (auto simp: fun_eq_iff wf_addr_def cell_update)
  have at: "wf_at ?s = wf_at s" using addr by (simp add: fun_eq_iff wf_at_def)
  have ok: "jobs_ok s (xs @ ys)" "distinct (xs @ ys)" "jl_counter (js_list s) = of_nat (length xs)"
    using assms(1) by (auto simp: job_list_ok_def)
  have "wf_addr (js_items s) a = Some (ji_wf item)" "wf_at s a = Some w"
    using assms(4,5) by (simp_all add: wf_addr_def wf_at_def)
  then have "jobs_ok s (a # xs @ ys)" using ok(1) assms(6) by (auto simp: jobs_ok_def)
  then have "jobs_ok ?s (a # xs @ ys)" using addr at by (subst jobs_ok_cong [of _ _ s]) auto
  then have "jobs_ok ?s ((xs @ [a]) @ ys)" by (rule jobs_ok_subset) (use ok assms(3) in auto)
  moreover have "linked (m[a := Some ?i]) (jl_head ?l) (xs @ [a])"
    using m(2) assms(3) a by (subst seg_append) (auto simp: cell_update)
  moreover have "linked (m[a := Some ?i]) (jl_saved ?l) ys" using m(3) assms(3) by simp
  ultimately have "job_list_ok ?s (xs @ [a]) ys" using ok assms(3,9) by (simp add: job_list_ok_def)
  moreover have "oph_insert_into_job_list env s a =
      Some (?s, if e_farm_size env \<noteq> 0 \<and> e_farm_size env \<le> of_nat (length xs) then OPH_JOB_LIST_FARM_FULL else OPH_JOB_LIST_OK)"
    using find_job_none [OF assms(1,2,8)] assms(4,5,7) m(1) ok(3)
    by (auto simp: oph_insert_into_job_list_def list_full_def Let_def)
  moreover have "stamp (js_items ?s) z = stamp (js_items s) z" if "z \<in> set (xs @ ys)" for z
    using that m(5) assms(3) by (auto simp: stamp_def cell_update fun_eq_iff)
  moreover have "stamp (js_items ?s) a = c_int (e_now env)" using a by (simp add: stamp_def cell_update)
  ultimately show ?thesis using at by (intro exI [of _ ?s] conjI ballI)
qed

lemma insert_existing:
  assumes "job_list_ok s xs ys" and "fresh env s xs" and "cell (js_items s) a = Some item"
    and "cell (js_wfs s) (ji_wf item) = Some w" and "\<not> list_full env (length xs)" and "w_idjob w \<in> job_id s ` set xs"
  shows "oph_insert_into_job_list env s a = Some (s, OPH_JOB_LIST_EXISTING_JOB)"
proof -
  obtain us x vs where xs: "xs = us @ x # vs" "job_id s x = w_idjob w" "\<forall>u\<in>set us. job_id s u \<noteq> w_idjob w"
    using assms(6) split_list_first_prop [of xs "\<lambda>x. job_id s x = w_idjob w"] by (metis (mono_tags) imageE)
  have "jl_counter (js_list s) = of_nat (length xs)" using assms(1) by (simp add: job_list_ok_def)
  with find_job_first [OF assms(1,2) [unfolded xs(1)] xs(2,3)] assms(3-5) show ?thesis
    by (auto simp: oph_insert_into_job_list_def list_full_def Let_def)
qed

lemma append_ok:
  assumes "job_list_ok s xs ys" and "fresh env s xs" and "cell (js_wfs s) wa = Some w"
    and "Some wa \<notin> wf_addr (js_items s) ` set (xs @ ys)" and "length xs < 2 ^ 32 - 1"
  shows "\<exists>s' r. oph_wf_list_append env s wa = Some (s', r) \<and>
    (\<forall>z\<in>set (xs @ ys). wf_at s' z = wf_at s z \<and> stamp (js_items s') z = stamp (js_items s) z) \<and>
    (if list_full env (length xs) \<or> w_idjob w \<in> job_id s ` set xs
     then r = OPH_SERVER_ERROR \<and> job_list_ok s' xs ys
     else r = (if e_farm_size env \<noteq> 0 \<and> e_farm_size env \<le> of_nat (length xs) then OPH_SERVER_NO_RESPONSE else OPH_SERVER_OK) \<and>
       job_list_ok s' (xs @ [length (js_items s)]) ys \<and> wf_at s' (length (js_items s)) = Some w \<and>
       stamp (js_items s') (length (js_items s)) = c_int (e_now env))"
proof -
  let ?a = "length (js_items s)" and ?item = "\<lparr>ji_timestamp = 0, ji_wf = wa, ji_next = None\<rparr>"
  let ?s = "s\<lparr>js_items := js_items s @ [Some ?item]\<rparr>"
  have cnt: "jl_counter (js_list s) = of_nat (length xs)" using assms(1) by (simp add: job_list_ok_def)
  note alloc = job_list_ok_alloc [OF assms(1)]
  have item: "cell (js_items ?s) ?a = Some ?item" by (simp add: cell_append cell_def)
  have free: "?s\<lparr>js_items := (js_items ?s)[?a := None]\<rparr> = s\<lparr>js_items := js_items s @ [None]\<rparr>" by simp
  have fresh: "fresh env ?s xs" using assms(2) fresh_cong [of xs ?s s env] alloc(2) by simp
  show ?thesis
  proof (cases "list_full env (length xs)")
    case True
    then have "oph_wf_list_append env s wa = Some (s\<lparr>js_items := js_items s @ [None]\<rparr>, OPH_SERVER_ERROR)"
      using cnt by (simp add: oph_wf_list_append_def oph_insert_into_job_list_def list_full_def)
    then show ?thesis using True alloc [of None] by simp
  next
    case False
    have w: "cell (js_wfs ?s) (ji_wf ?item) = Some w" using assms(3) by simp
    have ids: "job_id ?s ` set xs = job_id s ` set xs" using alloc(2) by (auto simp: job_id_def)
    have live: "z < ?a" if "z \<in> set (xs @ ys)" for z using assms(1) that seg_live by (auto simp: job_list_ok_def)
    show ?thesis
    proof (cases "w_idjob w \<in> job_id s ` set xs")
      case True
      then have "oph_wf_list_append env s wa = Some (s\<lparr>js_items := js_items s @ [None]\<rparr>, OPH_SERVER_ERROR)"
        using insert_existing [OF alloc(1) fresh item w False] ids by (simp add: oph_wf_list_append_def Let_def)
      then show ?thesis using True alloc [of None] by simp
    next
      case new: False
      have "Some (ji_wf ?item) \<notin> wf_addr (js_items ?s) ` set (xs @ ys)"
        using assms(4) live by (auto simp: wf_addr_def cell_append image_iff)
      moreover have "?a \<notin> set (xs @ ys)" using live by blast
      moreover have "\<forall>x\<in>set xs. job_id ?s x \<noteq> w_idjob w" using new ids by force
      ultimately obtain s' where s': "oph_insert_into_job_list env ?s ?a =
            Some (s', if e_farm_size env \<noteq> 0 \<and> e_farm_size env \<le> of_nat (length xs) then OPH_JOB_LIST_FARM_FULL else OPH_JOB_LIST_OK)"
          "job_list_ok s' (xs @ [?a]) ys" "wf_at s' = wf_at ?s"
          "\<forall>z\<in>set (xs @ ys). stamp (js_items s') z = stamp (js_items ?s) z" "stamp (js_items s') ?a = c_int (e_now env)"
        using insert_new [OF alloc(1) fresh _ item w _ False _ assms(5)] by blast
      moreover have "wf_at ?s ?a = Some w" using item assms(3) by (simp add: wf_at_def wf_addr_def)
      moreover have "oph_wf_list_append env s wa = Some (s', if e_farm_size env \<noteq> 0 \<and> e_farm_size env \<le> of_nat (length xs)
          then OPH_SERVER_NO_RESPONSE else OPH_SERVER_OK)"
        using s'(1) by (simp add: oph_wf_list_append_def Let_def)
      ultimately show ?thesis using alloc(2) [of "Some ?item"] new False by simp
    qed
  qed
qed

section \<open>Deletion of the saved jobs\<close>

definition keeps :: "int \<Rightarrow> int \<Rightarrow> oph_job_info option list \<Rightarrow> nat \<Rightarrow> bool" where
  [code_defs]: "keeps now hysteresis m x \<longleftrightarrow> hysteresis \<noteq> 0 \<and> now - hysteresis \<le> stamp m x"

text \<open>In the middle of the loop: the items kept so far, and those from the current pointer on.\<close>

definition deleting :: "job_state \<Rightarrow> nat list \<Rightarrow> nat list \<Rightarrow> nat list \<Rightarrow> nat option \<Rightarrow> bool" where
  "deleting s xs ks zs p \<longleftrightarrow>
     job_list_ok (s\<lparr>js_list := (js_list s)\<lparr>jl_saved := None\<rparr>\<rparr>) xs [] \<and> distinct (xs @ ks @ zs) \<and> jobs_ok s (xs @ ks @ zs) \<and>
     (if ks = [] then jl_saved (js_list s) = None else seg (js_items s) (jl_saved (js_list s)) ks p) \<and> linked (js_items s) p zs"

lemma deleting_end: "deleting s xs ks [] p \<Longrightarrow> job_list_ok s xs ks"
  by (auto simp: deleting_def job_list_ok_def split: if_splits)

lemma deleting_keep:
  assumes "deleting s xs ks (x # zs) p" and "cell (js_items s) x = Some i"
  shows "deleting (if jl_saved (js_list s) = None then s\<lparr>js_list := (js_list s)\<lparr>jl_saved := Some x\<rparr>\<rparr> else s)
    xs (ks @ [x]) zs (ji_next i)"
proof (cases "ks = []")
  case True
  with assms show ?thesis by (auto simp: deleting_def)
next
  case False
  then have "jl_saved (js_list s) \<noteq> None" using assms(1) by (cases ks) (auto simp: deleting_def)
  with assms False show ?thesis by (auto simp: deleting_def seg_append)
qed

lemma deleting_free:
  assumes "deleting s xs ks (x # zs) p" and "cell (js_items s) x = Some i"
  shows "\<exists>s1 s2. release_wf s (ji_wf i) = Some s1 \<and>
    (case last_of None ks of None \<Rightarrow> Some (s1\<lparr>js_items := (js_items s1)[x := None]\<rparr>)
       | Some l \<Rightarrow> set_next (s1\<lparr>js_items := (js_items s1)[x := None]\<rparr>) l (ji_next i)) = Some s2 \<and>
    deleting s2 xs ks zs (ji_next i) \<and> length (js_items s2) = length (js_items s) \<and>
    (\<forall>z\<in>set (xs @ zs). wf_at s2 z = wf_at s z \<and> stamp (js_items s2) z = stamp (js_items s) z)"
proof -
  have d: "distinct (xs @ ks @ x # zs)" "linked (js_items s) p (x # zs)" "jobs_ok s (xs @ ks @ x # zs)"
    using assms(1) by (auto simp: deleting_def)
  then have x: "x \<notin> set (xs @ ks @ zs)" "linked (js_items s) (ji_next i) zs" using assms(2) by auto
  have jobs: "jobs_ok s (x # xs @ ks @ zs)" using d(1) by (intro jobs_ok_subset [OF d(3)]) auto
  obtain s1 where s1: "release_wf s (ji_wf i) = Some s1" "js_items s1 = js_items s" "js_list s1 = js_list s"
      "\<forall>z\<in>set (xs @ ks @ zs). wf_at s1 z = wf_at s z"
    using release_ok [OF jobs assms(2)] by blast
  let ?m = "(js_items s)[x := None]" and ?s1 = "s1\<lparr>js_items := (js_items s1)[x := None]\<rparr>"
  have "\<exists>m. (case last_of None ks of None \<Rightarrow> Some ?s1 | Some l \<Rightarrow> set_next ?s1 l (ji_next i)) = Some (s1\<lparr>js_items := m\<rparr>) \<and>
      (if ks = [] then m = ?m else seg m (jl_saved (js_list s)) ks (ji_next i)) \<and> length m = length (js_items s) \<and>
      (\<forall>z\<in>set (xs @ ks @ zs). wf_addr m z = wf_addr (js_items s) z \<and> stamp m z = stamp (js_items s) z) \<and>
      (\<forall>z\<in>set (xs @ zs). cell m z = cell (js_items s) z)"
  proof (cases ks rule: rev_cases)
    case Nil
    then show ?thesis using x(1) s1(2)
      by (intro exI [of _ ?m]) (auto simp: wf_addr_def stamp_def cell_update)
  next
    case (snoc us l)
    have seg: "seg (js_items s) (jl_saved (js_list s)) (us @ [l]) p" using assms(1) by (auto simp: deleting_def snoc)
    then obtain k where k: "cell (js_items s) l = Some k" by (auto simp: seg_snoc)
    have neq: "l \<noteq> x" "x \<notin> set (us @ [l])" "distinct (us @ [l])" using x(1) d(1) snoc by auto
    have k': "cell ?m l = Some k" using k neq by (simp add: cell_update)
    have seg': "seg ?m (jl_saved (js_list s)) (us @ [l]) p" using seg neq(2) by (simp add: seg_update)
    have "wf_addr (?m[l := Some (k\<lparr>ji_next := ji_next i\<rparr>)]) = wf_addr ?m" "stamp (?m[l := Some (k\<lparr>ji_next := ji_next i\<rparr>)]) = stamp ?m"
      using k' by (simp_all add: wf_addr_update stamp_update)
    then show ?thesis
      using seg_redirect [OF seg' neq(3) k', of "ji_next i"] k' s1(2) x(1) d(1) snoc
      by (intro exI [of _ "?m[l := Some (k\<lparr>ji_next := ji_next i\<rparr>)]"])
        (auto simp: set_next_def wf_addr_def stamp_def cell_update)
  qed
  then obtain m where m: "(case last_of None ks of None \<Rightarrow> Some ?s1 | Some l \<Rightarrow> set_next ?s1 l (ji_next i)) = Some (s1\<lparr>js_items := m\<rparr>)"
      "ks = [] \<or> seg m (jl_saved (js_list s)) ks (ji_next i)" "length m = length (js_items s)"
      "\<forall>z\<in>set (xs @ ks @ zs). wf_addr m z = wf_addr (js_items s) z \<and> stamp m z = stamp (js_items s) z"
      "\<forall>z\<in>set (xs @ zs). cell m z = cell (js_items s) z"
    by (auto split: if_splits)
  let ?s2 = "s1\<lparr>js_items := m\<rparr>"
  have at: "\<forall>z\<in>set (xs @ ks @ zs). wf_at ?s2 z = wf_at s z" using m(4) s1(2,4) by (simp add: wf_at_def)
  have "jobs_ok s (xs @ ks @ zs)" using d(1) by (intro jobs_ok_subset [OF jobs]) auto
  then have "jobs_ok ?s2 (xs @ ks @ zs)" using m(4) at by (subst jobs_ok_cong [of _ _ s]) auto
  moreover have "linked m q xs \<longleftrightarrow> linked (js_items s) q xs" "linked m q zs \<longleftrightarrow> linked (js_items s) q zs" for q
    using m(5) by (auto intro!: seg_cong)
  moreover have "jobs_ok ?s2 xs" using calculation(1) d(1) by (auto elim!: jobs_ok_subset)
  ultimately have "deleting ?s2 xs ks zs (ji_next i)"
    using assms(1) m(2) s1(3) x(2) by (auto simp: deleting_def job_list_ok_def split: if_splits)
  then show ?thesis using s1(1) m at by (intro exI [of _ s1] exI [of _ ?s2]) auto
qed

lemma delete_saved_loop:
  assumes "deleting s xs ks zs p" and "length zs \<le> fuel"
  shows "\<exists>s'. delete_saved fuel now h s (last_of None ks) p = Some s' \<and>
    job_list_ok s' xs (ks @ filter (keeps now h (js_items s)) zs) \<and>
    (\<forall>z\<in>set xs. wf_at s' z = wf_at s z \<and> stamp (js_items s') z = stamp (js_items s) z)"
  using assms
proof (induction zs arbitrary: s ks p fuel)
  case Nil
  then have "p = None" by (simp add: deleting_def)
  with deleting_end [OF Nil(1)] show ?case by simp
next
  case (Cons x zs)
  then obtain i n where i: "cell (js_items s) x = Some i" "p = Some x" and n: "fuel = Suc n"
    by (cases fuel) (auto simp: deleting_def split: option.splits)
  have x: "stamp (js_items s) x = ji_timestamp i" using i(1) by (simp add: stamp_def)
  show ?case
  proof (cases "keeps now h (js_items s) x")
    case True
    let ?s = "if jl_saved (js_list s) = None then s\<lparr>js_list := (js_list s)\<lparr>jl_saved := Some x\<rparr>\<rparr> else s"
    have s: "js_items ?s = js_items s" "wf_at ?s = wf_at s" by simp_all
    have "\<not> (h = 0 \<or> ji_timestamp i < now - h)" using True x by (simp add: keeps_def)
    then have "delete_saved fuel now h s (last_of None ks) p = delete_saved n now h ?s (last_of None (ks @ [x])) (ji_next i)"
      using i n by (simp add: Let_def)
    then show ?thesis
      using Cons.IH [OF deleting_keep [OF Cons.prems(1) i(1)], of n] Cons.prems(2) True n by (simp only: s) simp
  next
    case False
    obtain s1 s2 where s2: "release_wf s (ji_wf i) = Some s1"
        "(case last_of None ks of None \<Rightarrow> Some (s1\<lparr>js_items := (js_items s1)[x := None]\<rparr>)
          | Some l \<Rightarrow> set_next (s1\<lparr>js_items := (js_items s1)[x := None]\<rparr>) l (ji_next i)) = Some s2"
        "deleting s2 xs ks zs (ji_next i)"
        "\<forall>z\<in>set (xs @ zs). wf_at s2 z = wf_at s z \<and> stamp (js_items s2) z = stamp (js_items s) z"
      using deleting_free [OF Cons.prems(1) i(1)] by blast
    have "filter (keeps now h (js_items s2)) zs = filter (keeps now h (js_items s)) zs"
      using s2(4) by (intro filter_cong) (auto simp: keeps_def)
    moreover have "h = 0 \<or> ji_timestamp i < now - h" using False x by (auto simp: keeps_def)
    then have "delete_saved fuel now h s (last_of None ks) p = delete_saved n now h s2 (last_of None ks) (ji_next i)"
      using i n s2(1,2) by (simp add: Let_def)
    ultimately show ?thesis
      using Cons.IH [OF s2(3), of n] Cons.prems(2) False n s2(4) by simp
  qed
qed

lemma delete_saved_ok:
  assumes "job_list_ok s xs ys"
  shows "\<exists>s'. oph_delete_saved_jobs_from_job_list env s h = Some (s', OPH_JOB_LIST_OK) \<and>
    job_list_ok s' xs (filter (keeps (e_now env) h (js_items s)) ys) \<and>
    (\<forall>z\<in>set xs. wf_at s' z = wf_at s z \<and> stamp (js_items s') z = stamp (js_items s) z)"
proof -
  let ?s = "s\<lparr>js_list := (js_list s)\<lparr>jl_saved := None\<rparr>\<rparr>"
  have ys: "length ys \<le> length (js_items s)" using assms seg_length by (auto simp: job_list_ok_def)
  have "jobs_ok s xs" using assms by (auto simp: job_list_ok_def elim!: jobs_ok_subset)
  then have "deleting ?s xs [] ys (jl_saved (js_list s))" using assms by (simp add: deleting_def job_list_ok_def)
  from delete_saved_loop [OF this, of "length (js_items s)" "e_now env" h] ys show ?thesis
    by (auto simp: oph_delete_saved_jobs_from_job_list_def)
qed

section \<open>The list as a queue of jobs\<close>

text \<open>
  The contract of the queue: an identifier is appended unless the queue is full or has it, and a removal takes its first
  occurrence away. Both operations are defined under their requirement and keep the invariant.
\<close>

locale job_queue =
  fixes ok :: "'s \<Rightarrow> bool" and ids :: "'s \<Rightarrow> int list" and full :: "nat \<Rightarrow> bool"
    and can_add :: "'s \<Rightarrow> 'a \<Rightarrow> bool" and job_of :: "'s \<Rightarrow> 'a \<Rightarrow> int" and add :: "'s \<Rightarrow> 'a \<Rightarrow> 's option"
    and can_take :: "'b \<Rightarrow> bool" and target :: "'b \<Rightarrow> int" and take_out :: "'s \<Rightarrow> 'b \<Rightarrow> 's option"
  assumes add_law: "ok s \<Longrightarrow> can_add s x \<Longrightarrow> \<exists>s'. add s x = Some s' \<and> ok s' \<and>
      ids s' = (if full (length (ids s)) \<or> job_of s x \<in> set (ids s) then ids s else ids s @ [job_of s x])"
    and take_law: "ok s \<Longrightarrow> can_take y \<Longrightarrow> \<exists>s'. take_out s y = Some s' \<and> ok s' \<and> ids s' = remove1 (target y) (ids s)"
begin

lemma add_defined: "ok s \<Longrightarrow> can_add s x \<Longrightarrow> add s x \<noteq> None"
  using add_law by fastforce

lemma take_defined: "ok s \<Longrightarrow> can_take y \<Longrightarrow> take_out s y \<noteq> None"
  using take_law by fastforce

lemma add_inv:
  assumes "ok s" and "can_add s x" and "add s x = Some s'" and "distinct (ids s)" and "\<forall>n. full n \<longrightarrow> length (ids s) \<le> n"
  shows "ok s' \<and> distinct (ids s') \<and> (\<forall>n. full n \<longrightarrow> length (ids s') \<le> n)"
  using add_law [OF assms(1,2)] assms by (auto simp: Suc_le_eq le_less)

lemma take_inv:
  assumes "ok s" and "can_take y" and "take_out s y = Some s'" and "distinct (ids s)" and "\<forall>n. full n \<longrightarrow> length (ids s) \<le> n"
  shows "ok s' \<and> distinct (ids s') \<and> (\<forall>n. full n \<longrightarrow> length (ids s') \<le> n)"
  using take_law [OF assms(1,2)] assms by (auto simp: length_remove1 intro: le_trans [of "length (ids s) - 1" "length (ids s)"])

text \<open>A job that was added and taken out again leaves the queue as it was.\<close>

lemma add_take:
  assumes "ok s" and "can_add s x" and "add s x = Some s'" and "can_take y" and "target y = job_of s x" and "job_of s x \<notin> set (ids s)"
    and "\<not> full (length (ids s))"
  shows "\<exists>s''. take_out s' y = Some s'' \<and> ids s'' = ids s"
  using add_law [OF assms(1,2)] take_law [OF _ assms(4), of s'] assms by (auto simp: remove1_append)

end

text \<open>The addresses of the two chains, and the identifiers of the pending jobs.\<close>

fun chain :: "nat \<Rightarrow> oph_job_info option list \<Rightarrow> nat option \<Rightarrow> nat list" where
  "chain fuel m None = []"
| "chain 0 m (Some x) = []"
| "chain (Suc fuel) m (Some x) = x # (case cell m x of None \<Rightarrow> [] | Some i \<Rightarrow> chain fuel m (ji_next i))"

definition pending :: "job_state \<Rightarrow> nat list" where
  [code_defs]: "pending s = chain (length (js_items s)) (js_items s) (jl_head (js_list s))"

definition saved :: "job_state \<Rightarrow> nat list" where
  [code_defs]: "saved s = chain (length (js_items s)) (js_items s) (jl_saved (js_list s))"

definition pending_ids :: "job_state \<Rightarrow> int list" where
  [code_defs]: "pending_ids s = map (job_id s) (pending s)"

lemma chain_linked: "linked m p xs \<Longrightarrow> length xs \<le> fuel \<Longrightarrow> chain fuel m p = xs"
proof (induction xs arbitrary: p fuel)
  case (Cons x xs)
  then show ?case by (cases fuel) (auto split: option.splits)
qed simp

lemma job_list_ok_chains: "job_list_ok s xs ys \<Longrightarrow> pending s = xs \<and> saved s = ys"
  unfolding pending_def saved_def
  using seg_length [of "js_items s"] by (auto simp: job_list_ok_def intro!: chain_linked)

text \<open>
  The invariant from a time \<open>e_now conf\<close> on: the lists are well-formed and no pending item is older. The requests come within
  the timeout from that time, and while the clock is still a number of type \<open>int\<close>.
\<close>

definition job_inv :: "job_env \<Rightarrow> job_state \<Rightarrow> bool" where
  [code_defs]: "job_inv conf s \<longleftrightarrow> job_list_ok s (pending s) (saved s) \<and> list_all (\<lambda>x. e_now conf \<le> stamp (js_items s) x) (pending s)"

definition in_time :: "job_env \<Rightarrow> int \<Rightarrow> bool" where
  [code_defs]: "in_time conf t \<longleftrightarrow> 0 \<le> e_now conf \<and> e_now conf \<le> t \<and> t \<le> e_now conf + e_workflow_timeout conf \<and> t \<le> 2147483647 \<and>
     e_workflow_timeout conf \<le> 2147483647"

lemma in_timeD:
  assumes "in_time conf t"
  shows "c_int t = t" and "remote_deadline (conf\<lparr>e_now := t\<rparr>) = t - e_workflow_timeout conf"
  using assms by (simp_all add: in_time_def remote_deadline_def c_int_id)

definition can_append :: "job_env \<Rightarrow> job_state \<Rightarrow> int \<times> nat \<Rightarrow> bool" where
  [code_defs]: "can_append conf s = (\<lambda>(t, wa). in_time conf t \<and> cell (js_wfs s) wa \<noteq> None \<and>
     Some wa \<notin> set (map (wf_addr (js_items s)) (pending s @ saved s)) \<and> length (pending s) < 2 ^ 32 - 1)"

definition appended_job :: "job_state \<Rightarrow> int \<times> nat \<Rightarrow> int" where
  [code_defs]: "appended_job s = (\<lambda>(t, wa). w_idjob (the (cell (js_wfs s) wa)))"

definition append_at :: "job_env \<Rightarrow> job_state \<Rightarrow> int \<times> nat \<Rightarrow> job_state option" where
  [code_defs]: "append_at conf s = (\<lambda>(t, wa). map_option fst (oph_wf_list_append (conf\<lparr>e_now := t\<rparr>) s wa))"

definition drop_at :: "job_env \<Rightarrow> job_state \<Rightarrow> int \<times> int \<times> bool \<Rightarrow> job_state option" where
  [code_defs]: "drop_at conf s = (\<lambda>(t, j, remove). map_option fst (oph_wf_list_drop2 (conf\<lparr>e_now := t\<rparr>) s j remove))"

lemma job_inv_fresh: "job_inv conf s \<Longrightarrow> in_time conf t \<Longrightarrow> fresh (conf\<lparr>e_now := t\<rparr>) s (pending s)"
  using in_timeD(2) [of conf t] by (auto simp: job_inv_def in_time_def fresh_def list_all_iff)

lemma list_full_now [simp]: "list_full (conf\<lparr>e_now := t\<rparr>) n = list_full conf n"
  by (simp add: list_full_def)

lemma job_invI: "job_list_ok s xs ys \<Longrightarrow> \<forall>x\<in>set xs. e_now conf \<le> stamp (js_items s) x \<Longrightarrow> job_inv conf s"
  using job_list_ok_chains [of s xs ys] by (auto simp: job_inv_def list_all_iff)

lemma pending_ids_ok: "job_list_ok s xs ys \<Longrightarrow> pending_ids s = map (job_id s) xs"
  using job_list_ok_chains [of s xs ys] by (simp add: pending_ids_def)

lemma append_law:
  assumes "job_inv conf s" and "can_append conf s x"
  shows "\<exists>s'. append_at conf s x = Some s' \<and> job_inv conf s' \<and>
    pending_ids s' = (if list_full conf (length (pending_ids s)) \<or> appended_job s x \<in> set (pending_ids s) then pending_ids s
      else pending_ids s @ [appended_job s x])"
proof -
  obtain t wa where x: "x = (t, wa)" by fastforce
  then obtain w where w: "in_time conf t" "cell (js_wfs s) wa = Some w" "Some wa \<notin> wf_addr (js_items s) ` set (pending s @ saved s)"
      "length (pending s) < 2 ^ 32 - 1"
    using assms(2) by (auto simp: can_append_def)
  have ok: "job_list_ok s (pending s) (saved s)" and st: "\<forall>z\<in>set (pending s). e_now conf \<le> stamp (js_items s) z"
    using assms(1) by (auto simp: job_inv_def list_all_iff)
  obtain s' r where s': "oph_wf_list_append (conf\<lparr>e_now := t\<rparr>) s wa = Some (s', r)"
      "\<forall>z\<in>set (pending s @ saved s). wf_at s' z = wf_at s z \<and> stamp (js_items s') z = stamp (js_items s) z"
      "if list_full conf (length (pending s)) \<or> w_idjob w \<in> job_id s ` set (pending s) then job_list_ok s' (pending s) (saved s)
       else job_list_ok s' (pending s @ [length (js_items s)]) (saved s) \<and> wf_at s' (length (js_items s)) = Some w \<and>
         stamp (js_items s') (length (js_items s)) = t"
    using append_ok [OF ok job_inv_fresh [OF assms(1) w(1)] w(2-4)] in_timeD(1) [OF w(1)] by (auto split: if_splits)
  have ids: "map (job_id s') (pending s) = pending_ids s"
    using s'(2) by (auto simp: pending_ids_def job_id_def)
  show ?thesis
  proof (cases "list_full conf (length (pending s)) \<or> w_idjob w \<in> job_id s ` set (pending s)")
    case True
    with s'(3) have "job_list_ok s' (pending s) (saved s)" by simp
    from job_invI [OF this, of conf] pending_ids_ok [OF this] show ?thesis
      using True s' w(2) st ids by (auto simp: x append_at_def appended_job_def pending_ids_def)
  next
    case False
    with s'(3) have n: "job_list_ok s' (pending s @ [length (js_items s)]) (saved s)"
        "wf_at s' (length (js_items s)) = Some w" "stamp (js_items s') (length (js_items s)) = t" by simp_all
    have "job_inv conf s'" using s'(2) st n(3) w(1) by (intro job_invI [OF n(1)]) (auto simp: in_time_def)
    moreover have "pending_ids s' = pending_ids s @ [w_idjob w]" using pending_ids_ok [OF n(1)] n ids by (simp add: job_id_def)
    moreover have "\<not> (list_full conf (length (pending_ids s)) \<or> w_idjob w \<in> set (pending_ids s))"
      using False by (auto simp: pending_ids_def)
    ultimately show ?thesis using s'(1) w(2) by (simp add: x append_at_def appended_job_def)
  qed
qed

lemma drop_law:
  assumes "job_inv conf s" and "in_time conf (fst y)"
  shows "\<exists>s'. drop_at conf s y = Some s' \<and> job_inv conf s' \<and> pending_ids s' = remove1 (fst (snd y)) (pending_ids s)"
proof -
  obtain t j remove where y: "y = (t, j, remove)" by (cases y)
  have ok: "job_list_ok s (pending s) (saved s)" and st: "\<forall>z\<in>set (pending s). e_now conf \<le> stamp (js_items s) z"
    using assms(1) by (auto simp: job_inv_def list_all_iff)
  have fresh: "fresh (conf\<lparr>e_now := t\<rparr>) s (pending s)" using job_inv_fresh assms y by simp
  show ?thesis
  proof (cases "\<exists>x\<in>set (pending s). job_id s x = j")
    case False
    then have "remove1 j (pending_ids s) = pending_ids s" by (intro remove1_idem) (auto simp: pending_ids_def)
    moreover have "oph_find_job_in_job_list (conf\<lparr>e_now := t\<rparr>) s j = Some (s, None)"
      using False by (intro find_job_none [OF ok fresh]) auto
    ultimately show ?thesis using assms(1) by (auto simp: y drop_at_def oph_wf_list_drop2_def)
  next
    case True
    then obtain us x vs where xs: "pending s = us @ x # vs" "job_id s x = j" "\<forall>u\<in>set us. job_id s u \<noteq> j"
      using split_list_first_prop [of "pending s" "\<lambda>x. job_id s x = j"] by blast
    obtain s' where s': "oph_wf_list_drop2 (conf\<lparr>e_now := t\<rparr>) s j remove = Some (s', OPH_SERVER_OK)"
        "job_list_ok s' (us @ vs) (if remove \<and> e_status_log (conf\<lparr>e_now := t\<rparr>) then x # saved s else saved s)"
        "\<forall>z\<in>set (us @ vs). wf_at s' z = wf_at s z \<and> stamp (js_items s') z = stamp (js_items s) z"
      using drop2_ok [OF ok [unfolded xs(1)] fresh [unfolded xs(1)] xs(2,3), of remove] by blast
    have "j \<notin> set (map (job_id s) us)" using xs(3) by auto
    moreover have "map (job_id s') (us @ vs) = map (job_id s) (us @ vs)" using s'(3) by (simp add: job_id_def)
    ultimately have "map (job_id s') (us @ vs) = remove1 j (pending_ids s)"
      using xs(1,2) by (simp add: pending_ids_def remove1_append)
    moreover have "job_inv conf s'" using s'(3) st xs(1) by (intro job_invI [OF s'(2)]) auto
    ultimately show ?thesis using s'(1) pending_ids_ok [OF s'(2)] by (simp add: y drop_at_def)
  qed
qed

interpretation jq: job_queue "job_inv conf" pending_ids "list_full conf" "can_append conf" appended_job "append_at conf"
    "\<lambda>y. in_time conf (fst y)" "\<lambda>y. fst (snd y)" "drop_at conf" for conf
  by unfold_locales (rule append_law drop_law; assumption)+

section \<open>Histories of requests\<close>

text \<open>
  The states of the list under the requests of the server, all within the timeout from \<open>e_now conf\<close>. Between the requests
  workflows are allocated and changed in any way that keeps their job identifiers.
\<close>

inductive job_step :: "job_env \<Rightarrow> job_state \<Rightarrow> job_state \<Rightarrow> bool" for conf where
  Append: "can_append conf s (t, wa) \<Longrightarrow> oph_wf_list_append (conf\<lparr>e_now := t\<rparr>) s wa = Some (s', r) \<Longrightarrow> job_step conf s s'"
| Drop: "in_time conf t \<Longrightarrow> oph_wf_list_drop2 (conf\<lparr>e_now := t\<rparr>) s j remove = Some (s', r) \<Longrightarrow> job_step conf s s'"
| Clean: "in_time conf t \<Longrightarrow> oph_delete_saved_jobs_from_job_list (conf\<lparr>e_now := t\<rparr>) s h = Some (s', r) \<Longrightarrow> job_step conf s s'"
| New_Workflow: "job_step conf s (s\<lparr>js_wfs := js_wfs s @ [Some w]\<rparr>)"
| Work: "cell (js_wfs s) k = Some w \<Longrightarrow> w_idjob w' = w_idjob w \<Longrightarrow> job_step conf s (s\<lparr>js_wfs := (js_wfs s)[k := Some w']\<rparr>)"

inductive job_reach :: "job_env \<Rightarrow> job_state \<Rightarrow> bool" for conf where
  Start: "job_reach conf \<lparr>js_items = [], js_wfs = [], js_list = oph_create_job_list\<rparr>"
| Step: "job_reach conf s \<Longrightarrow> job_step conf s s' \<Longrightarrow> job_reach conf s'"

lemma job_inv_wfs:
  assumes "job_inv conf s" and "\<And>k w. cell (js_wfs s) k = Some w \<Longrightarrow> \<exists>w'. cell wfs k = Some w' \<and> w_idjob w' = w_idjob w"
  shows "job_inv conf (s\<lparr>js_wfs := wfs\<rparr>) \<and> pending_ids (s\<lparr>js_wfs := wfs\<rparr>) = pending_ids s"
proof -
  let ?s = "s\<lparr>js_wfs := wfs\<rparr>"
  have at: "\<exists>w'. wf_at ?s x = Some w' \<and> w_idjob w' = w_idjob w" if "wf_at s x = Some w" for x w
    using that assms(2) by (auto simp: wf_at_def split: Option.bind_splits)
  have chains: "pending ?s = pending s" "saved ?s = saved s" by (simp_all add: pending_def saved_def)
  have live: "wf_at s x \<noteq> None" if "x \<in> set (pending s @ saved s)" for x
    using assms(1) that by (auto simp: job_inv_def job_list_ok_def jobs_ok_def list_all_iff)
  then have "\<forall>x\<in>set (pending s @ saved s). wf_at ?s x \<noteq> None" using at by (metis option.exhaust option.simps(3))
  then have "jobs_ok ?s (pending s @ saved s)"
    using assms(1) by (simp add: job_inv_def job_list_ok_def jobs_ok_def list_all_iff)
  then have "job_inv conf ?s" using assms(1) by (simp add: job_inv_def job_list_ok_def chains)
  moreover have "job_id ?s x = job_id s x" if x: "x \<in> set (pending s)" for x
  proof -
    obtain w where "wf_at s x = Some w" using live [of x] x by auto
    with at [of x w] show ?thesis by (auto simp: job_id_def)
  qed
  ultimately show ?thesis by (simp add: pending_ids_def chains)
qed

lemma clean_law:
  assumes "job_inv conf s" and "oph_delete_saved_jobs_from_job_list env s h = Some (s', r)"
  shows "job_inv conf s' \<and> pending_ids s' = pending_ids s"
proof -
  have ok: "job_list_ok s (pending s) (saved s)" and st: "\<forall>z\<in>set (pending s). e_now conf \<le> stamp (js_items s) z"
    using assms(1) by (auto simp: job_inv_def list_all_iff)
  then have s': "job_list_ok s' (pending s) (filter (keeps (e_now env) h (js_items s)) (saved s))"
      "\<forall>z\<in>set (pending s). wf_at s' z = wf_at s z \<and> stamp (js_items s') z = stamp (js_items s) z"
    using delete_saved_ok [OF ok, of env h] assms(2) by auto
  then have "job_inv conf s'" using st by (intro job_invI [OF s'(1)]) auto
  moreover have "pending_ids s' = pending_ids s"
    using pending_ids_ok [OF s'(1)] s'(2) by (simp add: pending_ids_def job_id_def)
  ultimately show ?thesis by simp
qed

text \<open>Every step keeps the invariant, the uniqueness of the identifiers, and the limit of a queue that has one.\<close>

lemma job_step_inv:
  assumes "job_step conf s s'" and "job_inv conf s" and "distinct (pending_ids s)"
    and "\<forall>n. list_full conf n \<longrightarrow> length (pending_ids s) \<le> n"
  shows "job_inv conf s' \<and> distinct (pending_ids s') \<and> (\<forall>n. list_full conf n \<longrightarrow> length (pending_ids s') \<le> n)"
  using assms
proof cases
  case (Append t wa r)
  then have "append_at conf s (t, wa) = Some s'" by (simp add: append_at_def)
  with Append assms show ?thesis by (intro jq.add_inv [where x = "(t, wa)"])
next
  case (Drop t j remove r)
  then have "drop_at conf s (t, j, remove) = Some s'" by (simp add: drop_at_def)
  with Drop assms show ?thesis by (intro jq.take_inv [where y = "(t, j, remove)"]) auto
next
  case (Clean t h r)
  with clean_law [of conf s] assms show ?thesis by fastforce
next
  case (New_Workflow w)
  have "job_inv conf s' \<and> pending_ids s' = pending_ids s"
    unfolding New_Workflow using assms(2) by (intro job_inv_wfs) (auto simp: cell_append dest: cell_Some_length)
  with assms show ?thesis by simp
next
  case (Work k w w')
  have "job_inv conf s' \<and> pending_ids s' = pending_ids s"
    unfolding Work(1) using assms(2) Work(2-) by (intro job_inv_wfs) (auto simp: cell_update dest: cell_Some_length)
  with assms show ?thesis by simp
qed

lemma job_inv_start: "job_inv conf \<lparr>js_items = [], js_wfs = [], js_list = oph_create_job_list\<rparr>"
  by (simp add: code_defs)

lemma job_reach_inv:
  assumes "job_reach conf s"
  shows "job_inv conf s \<and> distinct (pending_ids s) \<and> (\<forall>n. list_full conf n \<longrightarrow> length (pending_ids s) \<le> n)"
  using assms
proof induction
  case Start
  show ?case using job_inv_start by (simp add: pending_ids_def pending_def oph_create_job_list_def)
next
  case (Step s s')
  then show ?case using job_step_inv by blast
qed

section \<open>Expired items\<close>

text \<open>
  A search over items that are all expired frees them and leaves the tail at the item before the last, which was freed:
  the loop moves its predecessor pointer to the item it has just freed.
\<close>

lemma expire_head:
  assumes "jl_head (js_list s) = Some x" and "cell (js_items s) x = Some i" and "cell (js_wfs s) (ji_wf i) = Some w"
  shows "\<exists>v. expire_item s x i prev = Some
    (s\<lparr>js_list := (js_list s)\<lparr>jl_head := ji_next i, jl_tail := (if jl_tail (js_list s) = Some x then prev else jl_tail (js_list s)),
         jl_counter := jl_counter (js_list s) - 1\<rparr>,
       js_wfs := (js_wfs s)[ji_wf i := v], js_items := (js_items s)[x := None]\<rparr>)"
  using assms
  by (intro exI [of _ "if is_sync w then Some (w\<lparr>w_status := OPH_ODB_STATUS_EXPIRED\<rparr>) else oph_workflow_free w"])
    (cases s; cases "js_list s"; simp add: expire_item_def unlink_def Let_def)

lemma unat_length: "n < 2 ^ 32 \<Longrightarrow> unat (of_nat n :: 32 word) = n"
  by (simp add: unat_of_nat)

lemma counter_pos: "length (x # zs) < 2 ^ 32 \<Longrightarrow> (of_nat (length (x # zs)) :: 32 word) \<noteq> 0"
  using unat_length [of "length (x # zs)"] by (metis length_Cons nat.distinct(1) unat_0)

lemma search_expired:
  assumes "linked (js_items s) (jl_head (js_list s)) zs" and "zs \<noteq> [] \<longrightarrow> jl_tail (js_list s) = Some (last zs)" and "distinct zs"
    and "length zs < 2 ^ 32" and "jl_counter (js_list s) = of_nat (length zs)" and "jobs_ok s zs"
    and "\<forall>z\<in>set zs. stamp (js_items s) z < dl" and "length zs \<le> fuel"
  shows "\<exists>s'. search_list fuel dl visit a s prev (jl_head (js_list s)) = Some (s', Search_Done a) \<and> jl_head (js_list s') = None \<and>
    jl_tail (js_list s') = (if zs = [] then jl_tail (js_list s) else last_of prev (butlast zs)) \<and>
    (\<forall>z. cell (js_items s') z = (if z \<in> set zs then None else cell (js_items s) z))"
  using assms
proof (induction zs arbitrary: s prev fuel)
  case (Cons x zs)
  then obtain i n where i: "jl_head (js_list s) = Some x" "cell (js_items s) x = Some i" "linked (js_items s) (ji_next i) zs"
      and n: "fuel = Suc n" by (cases fuel) (auto split: option.splits)
  obtain w where w: "cell (js_wfs s) (ji_wf i) = Some w"
    using Cons.prems(6) i(2) by (auto simp: jobs_ok_def wf_at_def wf_addr_def)
  obtain v where v: "expire_item s x i prev = Some
    (s\<lparr>js_list := (js_list s)\<lparr>jl_head := ji_next i, jl_tail := (if jl_tail (js_list s) = Some x then prev else jl_tail (js_list s)),
         jl_counter := jl_counter (js_list s) - 1\<rparr>,
       js_wfs := (js_wfs s)[ji_wf i := v], js_items := (js_items s)[x := None]\<rparr>)" (is "_ = Some ?s")
    using expire_head [OF i(1,2) w] by blast
  have x: "x \<notin> set zs" "ji_timestamp i < dl" using Cons.prems(3,7) i(2) by (auto simp: stamp_def)
  have cnt: "jl_counter (js_list s) \<noteq> 0" "jl_counter (js_list ?s) = of_nat (length zs)"
    using Cons.prems(4,5) by (simp_all only: counter_pos) simp_all
  have step: "search_list fuel dl visit a s prev (jl_head (js_list s)) = search_list n dl visit a ?s (Some x) (jl_head (js_list ?s))"
    using i n v x(2) cnt(1) by simp
  have neq: "wf_addr (js_items s) z \<noteq> Some (ji_wf i)" if "z \<in> set zs" for z
    using Cons.prems(6) i(2) that by (auto simp: jobs_ok_def wf_addr_def rev_image_eqI)
  have addr: "wf_addr (js_items ?s) z = wf_addr (js_items s) z" if "z \<in> set zs" for z
    using that x by (auto simp: wf_addr_def cell_update)
  moreover have "wf_at ?s z = wf_at s z" if "z \<in> set zs" for z
    using addr [OF that] neq [OF that] by (auto simp: wf_at_def cell_update split: Option.bind_split)
  ultimately have "jobs_ok ?s zs"
    using Cons.prems(6) by (subst jobs_ok_cong [of _ _ s]) (auto simp: jobs_ok_def)
  moreover have "linked (js_items ?s) (jl_head (js_list ?s)) zs" using i(3) x(1) by simp
  moreover have "\<forall>z\<in>set zs. stamp (js_items ?s) z < dl" using Cons.prems(7) x(1) by (auto simp: stamp_def cell_update)
  moreover have "zs \<noteq> [] \<longrightarrow> jl_tail (js_list ?s) = Some (last zs)" using Cons.prems(2,3) by auto
  ultimately obtain s' where s': "search_list n dl visit a ?s (Some x) (jl_head (js_list ?s)) = Some (s', Search_Done a)"
      "jl_head (js_list s') = None" "jl_tail (js_list s') = (if zs = [] then jl_tail (js_list ?s) else last_of (Some x) (butlast zs))"
      "\<forall>z. cell (js_items s') z = (if z \<in> set zs then None else cell (js_items ?s) z)"
    using Cons.IH [of ?s n "Some x"] Cons.prems(3,4,8) cnt(2) n by auto
  moreover have "cell (js_items s') z = (if z \<in> set (x # zs) then None else cell (js_items s) z)" for z
    using s'(4) x(1) cell_Some_length [OF i(2)] by (auto simp: cell_update)
  moreover have "jl_tail (js_list s') = last_of prev (butlast (x # zs))"
    using s'(3) Cons.prems(2) by (auto simp: last_of_def)
  ultimately show ?case by (simp add: step)
qed simp

section \<open>Waiting jobs and new identifiers\<close>

definition started :: "job_state \<Rightarrow> nat \<Rightarrow> bool" where
  [code_defs]: "started s x \<longleftrightarrow> w_status (the (wf_at s x)) \<noteq> 0"

lemma visit_chain_count:
  "visit_chain (\<lambda>n x. Inl (if f x then n + 1 else n) :: 32 word + unit) n prev xs =
    Search_Done (n + of_nat (length (filter f xs)))"
  by (induction xs arbitrary: n prev) (auto simp: add_ac)

lemma first_unstarted_find:
  assumes "linked (js_items s) p xs" and "\<forall>x\<in>set xs. wf_at s x \<noteq> None" and "length xs \<le> fuel"
  shows "first_unstarted fuel s p = Some (List.find (\<lambda>x. \<not> started s x) xs)"
  using assms
proof (induction xs arbitrary: p fuel)
  case (Cons x xs)
  then show ?case by (cases fuel) (auto simp: started_def wf_at_def wf_addr_def split: option.splits)
qed simp

lemma find_unstarted_ok:
  assumes "job_list_ok s xs ys" and "fresh env s xs"
  shows "oph_find_unstarted_in_job_list env s =
    Some (s, if e_farm_size env \<noteq> 0 \<and> length (filter (started s) xs) < unat (e_farm_size env)
             then List.find (\<lambda>x. \<not> started s x) xs else None)"
proof -
  let ?n = "length (filter (started s) xs)"
  have ok: "linked (js_items s) (jl_head (js_list s)) xs" "distinct xs" "length xs < 2 ^ 32" "jl_counter (js_list s) = of_nat (length xs)"
      "\<forall>x\<in>set xs. wf_at s x \<noteq> None"
    using assms(1) by (auto simp: job_list_ok_def jobs_ok_def list_all_iff)
  have le: "?n \<le> length xs" by (rule length_filter_le)
  have n: "unat (of_nat ?n :: 32 word) = ?n" using ok(3) le by (intro unat_length) linarith
  have "search env (\<lambda>n w. Some (Inl (if w_status w \<noteq> 0 then n + 1 else n) :: 32 word + unit)) 0 s = Some (s, Search_Done (of_nat ?n))"
    using search_chain [OF assms, of "\<lambda>n w. Some (Inl (if w_status w \<noteq> 0 then n + 1 else n) :: 32 word + unit)"
        "\<lambda>n x. Inl (if started s x then n + 1 else n)" 0]
    by (simp add: started_def [abs_def] visit_chain_count)
  moreover have "(of_nat ?n :: 32 word) < e_farm_size env \<longleftrightarrow> ?n < unat (e_farm_size env)"
    by (simp add: word_less_nat_alt n)
  moreover have "(of_nat ?n :: 32 word) < jl_counter (js_list s) \<longleftrightarrow> ?n < length xs"
    using unat_length [OF ok(3)] by (simp add: word_less_nat_alt n ok(4))
  moreover have "List.find (\<lambda>x. \<not> started s x) xs = None" if "\<not> ?n < length xs"
    using that le length_filter_less [of _ xs "started s"] by (fastforce simp: find_None_iff)
  moreover have "first_unstarted (length (js_items s)) s (jl_head (js_list s)) = Some (List.find (\<lambda>x. \<not> started s x) xs)"
    using ok seg_length [OF ok(1,2)] by (intro first_unstarted_find)
  ultimately show ?thesis by (auto simp: oph_find_unstarted_in_job_list_def)
qed

lemma max_jobid_ok:
  assumes "linked (js_items s) p xs" and "\<forall>x\<in>set xs. wf_at s x \<noteq> None" and "length xs \<le> fuel"
  shows "max_jobid fuel s j p = Some (fold max (map (job_id s) xs) j)"
  using assms
proof (induction xs arbitrary: p fuel j)
  case (Cons x xs)
  then show ?case
    by (cases fuel) (auto simp: job_id_def wf_at_def wf_addr_def max_def split: option.splits)
qed simp

lemma fold_max_ge: "j \<le> fold max xs j \<and> (\<forall>x\<in>set xs. x \<le> fold max xs j) \<and> (fold max xs j \<in> insert j (set xs))" for j :: int
  by (induction xs arbitrary: j) (fastforce simp: max_def)+

section \<open>Properties\<close>

text \<open>
  C8: whatever sequence of appends, removals and clean-ups the server performs within the timeout from a given time, before the clock
  exceeds the range of \<open>int\<close>, while workflows are allocated and changed, the job list stays well-formed (chains, tail and counter agree, nothing freed is linked), no two
  pending jobs have the same identifier, the limit of the farm and the queue is kept, and the next request never touches
  freed memory.\<close>

theorem job_history_safe:
  assumes "job_reach conf s"
  shows "job_inv conf s \<and> distinct (pending_ids s) \<and> (\<forall>n. list_full conf n \<longrightarrow> length (pending_ids s) \<le> n) \<and>
    (can_append conf s (t, wa) \<longrightarrow> oph_wf_list_append (conf\<lparr>e_now := t\<rparr>) s wa \<noteq> None) \<and>
    (in_time conf t \<longrightarrow> oph_wf_list_drop2 (conf\<lparr>e_now := t\<rparr>) s j remove \<noteq> None)"
proof -
  have inv: "job_inv conf s" using job_reach_inv [OF assms] by simp
  have "oph_wf_list_append (conf\<lparr>e_now := t\<rparr>) s wa \<noteq> None" if "can_append conf s (t, wa)"
    using jq.add_defined [OF inv that] by (simp add: append_at_def)
  moreover have "oph_wf_list_drop2 (conf\<lparr>e_now := t\<rparr>) s j remove \<noteq> None" if "in_time conf t"
    using jq.take_defined [OF inv, of "(t, j, remove)"] that by (simp add: drop_at_def)
  ultimately show ?thesis using job_reach_inv [OF assms] by blast
qed

definition demo_job :: "int \<Rightarrow> oph_workflow" where
  [code_defs]: "demo_job j = empty_workflow\<lparr>w_idjob := j, w_status := 1\<rparr>"

definition demo_conf :: job_env where
  [code_defs]: "demo_conf = \<lparr>e_now = 100, e_workflow_timeout = 50, e_farm_size = 2, e_queue_size = 1, e_status_log = True\<rparr>"

definition demo_jobs :: job_state where
  [code_defs]: "demo_jobs =
     \<lparr>js_items = [Some \<lparr>ji_timestamp = 110, ji_wf = 0, ji_next = None\<rparr>], js_wfs = [Some (demo_job 7)],
      js_list = \<lparr>jl_head = Some 0, jl_tail = Some 0, jl_saved = None, jl_counter = 1\<rparr>\<rparr>"

lemma demo_jobs_reach: "job_reach demo_conf demo_jobs"
proof -
  let ?s0 = "\<lparr>js_items = [], js_wfs = [], js_list = oph_create_job_list\<rparr>"
  let ?s1 = "\<lparr>js_items = [], js_wfs = [Some (demo_job 7)], js_list = oph_create_job_list\<rparr>"
  have "job_step demo_conf ?s0 ?s1" using job_step.New_Workflow [of demo_conf ?s0 "demo_job 7"] by simp
  then have "job_reach demo_conf ?s1" using job_reach.Start job_reach.Step by blast
  moreover have "can_append demo_conf ?s1 (110, 0)" by (simp add: code_defs)
  moreover have "oph_wf_list_append (demo_conf\<lparr>e_now := 110\<rparr>) ?s1 0 = Some (demo_jobs, OPH_SERVER_OK)"
    by (simp add: code_defs)
  ultimately show ?thesis using job_step.Append job_reach.Step by blast
qed

theorem job_history_safe_witness:
  "distinct (pending_ids demo_jobs) \<and> length (pending_ids demo_jobs) \<le> 3 \<and>
    oph_wf_list_drop2 (demo_conf\<lparr>e_now := 120\<rparr>) demo_jobs 7 True \<noteq> None"
  using job_history_safe [OF demo_jobs_reach, of 120 0 7 True] by (simp add: code_defs)

text \<open>
  C10: under the invariant the linked list refines a queue of job identifiers: for a request within the timeout, before the
  clock exceeds the range of \<open>int\<close>, an append adds the identifier at the end unless the list is full or has it already, and a removal takes
  the first occurrence of an identifier out; both keep the invariant and are defined.\<close>

theorem wf_list_refines_queue:
  assumes "job_inv conf s" and "can_append conf s (t, wa)"
  shows "\<exists>s' r s'' r'. oph_wf_list_append (conf\<lparr>e_now := t\<rparr>) s wa = Some (s', r) \<and> job_inv conf s' \<and>
    pending_ids s' = (let j = appended_job s (t, wa) in
      if list_full conf (length (pending_ids s)) \<or> j \<in> set (pending_ids s) then pending_ids s else pending_ids s @ [j]) \<and>
    oph_wf_list_drop2 (conf\<lparr>e_now := t\<rparr>) s' j remove = Some (s'', r') \<and> job_inv conf s'' \<and>
    pending_ids s'' = remove1 j (pending_ids s')"
proof -
  have t: "in_time conf t" using assms(2) by (simp add: can_append_def)
  obtain s' r where s': "oph_wf_list_append (conf\<lparr>e_now := t\<rparr>) s wa = Some (s', r)" "job_inv conf s'"
      "pending_ids s' = (let j = appended_job s (t, wa) in
        if list_full conf (length (pending_ids s)) \<or> j \<in> set (pending_ids s) then pending_ids s else pending_ids s @ [j])"
    using jq.add_law [OF assms] by (auto simp: append_at_def Let_def)
  moreover obtain s'' r' where "oph_wf_list_drop2 (conf\<lparr>e_now := t\<rparr>) s' j remove = Some (s'', r')" "job_inv conf s''"
      "pending_ids s'' = remove1 j (pending_ids s')"
    using jq.take_law [OF s'(2), of "(t, j, remove)"] t by (auto simp: drop_at_def)
  ultimately show ?thesis by blast
qed

definition demo_jobs2 :: job_state where
  [code_defs]: "demo_jobs2 = demo_jobs\<lparr>js_wfs := [Some (demo_job 7), Some (demo_job 8)]\<rparr>"

theorem wf_list_refines_queue_witness:
  "\<exists>s' r s'' r'. oph_wf_list_append (demo_conf\<lparr>e_now := 120\<rparr>) demo_jobs2 1 = Some (s', r) \<and> pending_ids s' = [7, 8] \<and>
    oph_wf_list_drop2 (demo_conf\<lparr>e_now := 120\<rparr>) s' 7 False = Some (s'', r') \<and> pending_ids s'' = [8]"
proof -
  have "job_inv demo_conf demo_jobs2" "can_append demo_conf demo_jobs2 (120, 1)" by (simp_all add: code_defs)
  moreover have "pending_ids demo_jobs2 = [7]" "appended_job demo_jobs2 (120, 1) = 8" "\<not> list_full demo_conf 1"
    by (simp_all add: code_defs word_le_nat_alt)
  ultimately show ?thesis
    using wf_list_refines_queue [of demo_conf demo_jobs2 120 1 7 False] by (fastforce simp: Let_def)
qed

text \<open>
  Remark: when a workflow can start, \<open>oph_find_unstarted_in_job_list\<close> returns the first pending one that is not started, and
  nothing when the number of those started has reached the size of the farm, or when there is no farm.\<close>

theorem find_unstarted_first:
  assumes "job_inv conf s" and "in_time conf t"
  shows "oph_find_unstarted_in_job_list (conf\<lparr>e_now := t\<rparr>) s =
    Some (s, if e_farm_size conf \<noteq> 0 \<and> length (filter (started s) (pending s)) < unat (e_farm_size conf)
             then List.find (\<lambda>x. \<not> started s x) (pending s) else None)"
  using find_unstarted_ok [of s "pending s" "saved s" "conf\<lparr>e_now := t\<rparr>"] job_inv_fresh [OF assms] assms(1)
  by (simp add: job_inv_def)

theorem find_unstarted_first_witness:
  "oph_find_unstarted_in_job_list (demo_conf\<lparr>e_now := 120\<rparr>) (demo_jobs\<lparr>js_wfs := [Some (demo_job 7\<lparr>w_status := 0\<rparr>)]\<rparr>) =
    Some (demo_jobs\<lparr>js_wfs := [Some (demo_job 7\<lparr>w_status := 0\<rparr>)]\<rparr>, Some 0)"
  using find_unstarted_first [of demo_conf "demo_jobs\<lparr>js_wfs := [Some (demo_job 7\<lparr>w_status := 0\<rparr>)]\<rparr>" 120]
  by (simp add: code_defs)

text \<open>
  Remark: the identifier from \<open>oph_get_new_jobid_from_job_list\<close> is positive and above those of all pending jobs, so that a
  workflow with it is never refused as an existing job.\<close>

theorem new_jobid_above:
  assumes "job_inv conf s" and "\<forall>x\<in>set (pending_ids s). x < 2147483647"
  shows "\<exists>j. oph_get_new_jobid_from_job_list s = Some j \<and> 0 < j \<and> (\<forall>x\<in>set (pending_ids s). x < j)"
proof -
  have ok: "linked (js_items s) (jl_head (js_list s)) (pending s)" "distinct (pending s)" "\<forall>x\<in>set (pending s). wf_at s x \<noteq> None"
    using assms(1) by (auto simp: job_inv_def job_list_ok_def jobs_ok_def list_all_iff)
  have "max_jobid (length (js_items s)) s 0 (jl_head (js_list s)) = Some (fold max (pending_ids s) 0)"
    using max_jobid_ok [OF ok(1,3)] seg_length [OF ok(1,2)] by (simp add: pending_ids_def)
  moreover have "fold max (pending_ids s) 0 < 2147483647" using fold_max_ge [of 0 "pending_ids s"] assms(2) by auto
  ultimately show ?thesis
    using fold_max_ge [of 0 "pending_ids s"] by (fastforce simp: oph_get_new_jobid_from_job_list_def)
qed

theorem new_jobid_above_witness:
  "\<exists>j. oph_get_new_jobid_from_job_list demo_jobs = Some j \<and> 0 < j \<and> list_all (\<lambda>x. x < j) (pending_ids demo_jobs)"
  using new_jobid_above [of demo_conf demo_jobs] by (simp add: code_defs)

text \<open>
  C38: when the pending workflows are at least two, all of them have expired and the list is not full, the next append is undefined: the
  search that frees them leaves the tail of the list at a freed item, and the insertion writes through it.\<close>

theorem append_after_expiry_undefined:
  assumes "job_list_ok s xs ys" and "2 \<le> length xs" and "\<forall>x\<in>set xs. stamp (js_items s) x < remote_deadline env"
    and "cell (js_wfs s) wa = Some w" and "\<not> list_full env (length xs)"
  shows "oph_wf_list_append env s wa = None"
proof -
  let ?a = "length (js_items s)" and ?item = "\<lparr>ji_timestamp = 0, ji_wf = wa, ji_next = None\<rparr>"
  let ?s = "s\<lparr>js_items := js_items s @ [Some ?item]\<rparr>"
  note alloc = job_list_ok_alloc [OF assms(1), of "Some ?item"]
  have item: "cell (js_items ?s) ?a = Some ?item" by (simp add: cell_append cell_def)
  have ok: "linked (js_items ?s) (jl_head (js_list ?s)) xs" "distinct xs" "length xs < 2 ^ 32" "jl_tail (js_list ?s) = last_of None xs"
      "jl_counter (js_list ?s) = of_nat (length xs)" "jobs_ok ?s xs"
    using alloc(1) by (auto simp: job_list_ok_def elim!: jobs_ok_subset)
  define v :: "unit \<Rightarrow> oph_workflow \<Rightarrow> (unit + unit) option" where
    "v = (\<lambda>_ x. map_option (\<lambda>r. case r of None \<Rightarrow> Inl () | Some x \<Rightarrow> Inr x) (Some (if w_idjob x = w_idjob w then Some () else None)))"
  have "butlast xs \<noteq> []" using assms(2) by (cases xs rule: rev_cases) auto
  moreover have "last (butlast xs) \<in> set xs" using calculation by (meson in_set_butlastD last_in_set)
  moreover have "\<forall>x\<in>set xs. stamp (js_items ?s) x < remote_deadline env" using alloc(2) assms(3) by simp
  moreover have "length xs \<le> length (js_items ?s)" using seg_length [OF ok(1,2)] .
  moreover have "xs \<noteq> []" using assms(2) by auto
  moreover have "xs \<noteq> [] \<longrightarrow> jl_tail (js_list ?s) = Some (last xs)" using ok(4) by (simp add: last_of_def)
  ultimately obtain s' where s': "search env v () ?s = Some (s', Search_Done ())"
      "jl_tail (js_list s') = Some (last (butlast xs))" "cell (js_items s') (last (butlast xs)) = None"
    using search_expired [OF ok(1) _ ok(2,3,5,6), of "remote_deadline env" "length (js_items ?s)" v "()" None]
    unfolding search_def by (auto simp: last_of_def)
  then have "oph_find_job_in_job_list env ?s (w_idjob w) = Some (s', None)"
    by (simp add: oph_find_job_in_job_list_def find_with_def v_def)
  with s'(2,3) have "oph_insert_into_job_list env ?s ?a = None"
    using item assms(4,5) ok(5) by (auto simp: oph_insert_into_job_list_def list_full_def Let_def set_next_def)
  then show ?thesis by (simp add: oph_wf_list_append_def Let_def)
qed

definition demo_expired :: job_state where
  [code_defs]: "demo_expired =
     \<lparr>js_items = [Some \<lparr>ji_timestamp = 10, ji_wf = 0, ji_next = Some 1\<rparr>, Some \<lparr>ji_timestamp = 11, ji_wf = 1, ji_next = None\<rparr>],
      js_wfs = [Some (demo_job 7), Some (demo_job 8), Some (demo_job 9)],
      js_list = \<lparr>jl_head = Some 0, jl_tail = Some 1, jl_saved = None, jl_counter = 2\<rparr>\<rparr>"

theorem append_after_expiry_undefined_witness: "oph_wf_list_append demo_conf demo_expired 2 = None"
proof -
  have "job_list_ok demo_expired [0, 1] []" "cell (js_wfs demo_expired) 2 = Some (demo_job 9)" by (simp_all add: code_defs)
  moreover have "\<not> list_full demo_conf (length [0 :: nat, 1])" by (simp add: code_defs word_le_nat_alt)
  moreover have "\<forall>x\<in>set [0, 1]. stamp (js_items demo_expired) x < remote_deadline demo_conf"
    by (simp add: code_defs)
  ultimately show ?thesis using append_after_expiry_undefined [of demo_expired "[0, 1]" "[]" demo_conf 2] by fastforce
qed

text \<open>
  Remark: \<open>oph_remove_detached_task\<close> forgets, with the task, every task that was detached after it.\<close>

theorem remove_detached_task_forgets:
  assumes "i \<notin> set later" and "i \<noteq> 0" and "x \<in> set later" and "x \<notin> set earlier"
  shows "oph_is_detached_task (later @ i # earlier) x = (x \<noteq> 0) \<and>
    \<not> oph_is_detached_task (oph_remove_detached_task (later @ i # earlier) i) x"
proof -
  have "dropWhile (\<lambda>y. y \<noteq> i) (later @ i # earlier) = i # earlier" using assms(1) by (subst dropWhile_append2) auto
  then show ?thesis
    using assms by (auto simp: oph_is_detached_task_def oph_remove_detached_task_def dropWhile_eq_Nil_conv)
qed

theorem remove_detached_task_forgets_witness:
  "oph_is_detached_task [6, 5] 6 \<and> \<not> oph_is_detached_task (oph_remove_detached_task [6, 5] 5) 6"
  using remove_detached_task_forgets [of 5 "[6]" 6 "[]"] by simp

end
