(* ===== verification/Json_Objects.thy ===== *)
theory Json_Objects
  imports Oph_Prelude "HOL-Library.Monad_Syntax"
begin

text \<open>
  The JSON objects of the responses, \<^verbatim>\<open>src/src/oph_json\<close>: the operations that build them (\<^verbatim>\<open>oph_json_common.c\<close>,
  \<^verbatim>\<open>oph_json_text.c\<close>, \<^verbatim>\<open>oph_json_grid.c\<close>, \<^verbatim>\<open>oph_json_multigrid.c\<close>, \<^verbatim>\<open>oph_json_graph.c\<close>, \<^verbatim>\<open>oph_json_tree.c\<close>). An object has a
  key, a class and a list of fragments of that class; the content is a datatype with a constructor for each structure that
  \<open>objcontent\<close> may point to, and the use of a content as a structure of another class is \<open>None\<close>, as is the read of a row beyond
  its end. The locale \<open>json_class\<close> is what the operations rely on of a class, interpreted for the six classes. The conversions
  from and to text, over the library \<open>jansson\<close>, are not part of the model.
\<close>

section \<open>Data\<close>

datatype json_code =
    OPH_JSON_SUCCESS | OPH_JSON_MEMORY_ERROR | OPH_JSON_BAD_PARAM_ERROR | OPH_JSON_IO_ERROR | OPH_JSON_GENERIC_ERROR

definition OPH_JSON_TEXT :: string where [code_defs]: "OPH_JSON_TEXT = ''text''"
definition OPH_JSON_GRID :: string where [code_defs]: "OPH_JSON_GRID = ''grid''"
definition OPH_JSON_MULTIGRID :: string where [code_defs]: "OPH_JSON_MULTIGRID = ''multidimgrid''"
definition OPH_JSON_TREE :: string where [code_defs]: "OPH_JSON_TREE = ''tree''"
definition OPH_JSON_DGRAPH :: string where [code_defs]: "OPH_JSON_DGRAPH = ''digraph''"
definition OPH_JSON_GRAPH :: string where [code_defs]: "OPH_JSON_GRAPH = ''graph''"

record oph_json_source =
  src_srckey :: string
  src_srcname :: string
  src_srcurl :: "string option"
  src_description :: "string option"
  src_producer :: "string option"
  src_keys :: "string list"
  src_values :: "string list"

record oph_json_extra =
  ex_keys :: "string list"
  ex_values :: "string list"

record oph_json_link =
  lk_node :: string
  lk_description :: "string option"

record oph_json_obj_text =
  tx_title :: string
  tx_message :: "string option"

record oph_json_obj_grid =
  gd_title :: string
  gd_description :: "string option"
  gd_keys :: "string list"
  gd_fieldtypes :: "string list"
  gd_values :: "string list list"
  gd_values_num2 :: nat

record oph_json_obj_multigrid =
  mg_title :: string
  mg_description :: "string option"
  mg_rowkeys :: "string list"
  mg_rowfieldtypes :: "string list"
  mg_rowvalues :: "string list list"
  mg_rowvalues_num2 :: nat
  mg_colkeys :: "string list"
  mg_colfieldtypes :: "string list"
  mg_colvalues :: "string list list"
  mg_colvalues_num2 :: nat
  mg_measurename :: "string option"
  mg_measuretype :: "string option"
  mg_measurevalues :: "string list list"
  mg_measurevalues_num2 :: nat

record oph_json_obj_graph =
  gh_title :: string
  gh_description :: "string option"
  gh_nodekeys :: "string list"
  gh_nodevalues :: "string list list"
  gh_nodevalues_num2 :: nat
  gh_nodelinks :: "oph_json_link list list"

record oph_json_obj_tree =
  tr_title :: string
  tr_description :: "string option"
  tr_nodekeys :: "string list"
  tr_nodevalues :: "string list list"
  tr_nodevalues_num2 :: nat
  tr_rootnode :: "string option"
  tr_nodelinks :: "oph_json_link list list"

datatype objcontent =
    Text_Content "oph_json_obj_text list"
  | Grid_Content "oph_json_obj_grid list"
  | Multigrid_Content "oph_json_obj_multigrid list"
  | Tree_Content "oph_json_obj_tree list"
  | Graph_Content "oph_json_obj_graph list"

record oph_json_response =
  jr_objclass :: string
  jr_objkey :: string
  jr_objcontent :: objcontent

record oph_json =
  jn_source :: "oph_json_source option"
  jn_consumers :: "string list"
  jn_responseKeyset :: "string list"
  jn_response :: "oph_json_response list"
  jn_extra :: "oph_json_extra option"

section \<open>Common operations\<close>

definition oph_json_is_type_correct :: "string \<Rightarrow> bool" where
  [code_defs]: "oph_json_is_type_correct t \<longleftrightarrow>
     t = ''int'' \<or> t = ''long'' \<or> t = ''short'' \<or> t = ''byte'' \<or> t = ''float'' \<or> t = ''double'' \<or> t = ''string'' \<or> t = ''blob''"

definition oph_json_is_measuretype_correct :: "string \<Rightarrow> bool" where
  [code_defs]: "oph_json_is_measuretype_correct t \<longleftrightarrow>
     t = ''int'' \<or> t = ''long'' \<or> t = ''short'' \<or> t = ''byte'' \<or> t = ''float'' \<or> t = ''double'' \<or> t = ''string'' \<or> t = ''blob''"

definition oph_json_alloc :: oph_json where
  [code_defs]: "oph_json_alloc = \<lparr>jn_source = None, jn_consumers = [], jn_responseKeyset = [], jn_response = [], jn_extra = None\<rparr>"

definition oph_json_add_responseKey :: "oph_json \<Rightarrow> string \<Rightarrow> json_code \<times> oph_json" where
  [code_defs]: "oph_json_add_responseKey json k =
     (if k \<in> set (jn_responseKeyset json) then (OPH_JSON_BAD_PARAM_ERROR, json)
      else (OPH_JSON_SUCCESS, json\<lparr>jn_responseKeyset := jn_responseKeyset json @ [k]\<rparr>))"

definition oph_json_add_consumer :: "oph_json \<Rightarrow> string \<Rightarrow> json_code \<times> oph_json" where
  [code_defs]: "oph_json_add_consumer json consumer =
     (if consumer \<in> set (jn_consumers json) then (OPH_JSON_BAD_PARAM_ERROR, json)
      else (OPH_JSON_SUCCESS, json\<lparr>jn_consumers := jn_consumers json @ [consumer]\<rparr>))"

definition oph_json_set_source ::
    "oph_json \<Rightarrow> string \<Rightarrow> string \<Rightarrow> string option \<Rightarrow> string option \<Rightarrow> string option \<Rightarrow> json_code \<times> oph_json" where
  [code_defs]: "oph_json_set_source json srckey srcname srcurl description producer =
     (if jn_source json \<noteq> None then (OPH_JSON_BAD_PARAM_ERROR, json)
      else (OPH_JSON_SUCCESS, json\<lparr>jn_source := Some \<lparr>src_srckey = srckey, src_srcname = srcname, src_srcurl = srcurl,
        src_description = description, src_producer = producer, src_keys = [], src_values = []\<rparr>\<rparr>))"

definition oph_json_add_source_detail :: "oph_json \<Rightarrow> string \<Rightarrow> string \<Rightarrow> json_code \<times> oph_json" where
  [code_defs]: "oph_json_add_source_detail json key v =
     (case jn_source json of
        None \<Rightarrow> (OPH_JSON_BAD_PARAM_ERROR, json)
      | Some s \<Rightarrow>
          if key \<in> set (src_keys s) then (OPH_JSON_BAD_PARAM_ERROR, json)
          else (OPH_JSON_SUCCESS, json\<lparr>jn_source := Some (s\<lparr>src_keys := src_keys s @ [key], src_values := src_values s @ [v]\<rparr>)\<rparr>))"

definition oph_json_add_extra_detail :: "oph_json \<Rightarrow> string \<Rightarrow> string \<Rightarrow> json_code \<times> oph_json" where
  [code_defs]: "oph_json_add_extra_detail json key v =
     (let e = (case jn_extra json of None \<Rightarrow> \<lparr>ex_keys = [], ex_values = []\<rparr> | Some e \<Rightarrow> e) in
      if key \<in> set (ex_keys e) then (OPH_JSON_BAD_PARAM_ERROR, json\<lparr>jn_extra := Some e\<rparr>)
      else (OPH_JSON_SUCCESS, json\<lparr>jn_extra := Some (e\<lparr>ex_keys := ex_keys e @ [key], ex_values := ex_values e @ [v]\<rparr>)\<rparr>))"

definition oph_json_is_objkey_printable :: "string list \<Rightarrow> string \<Rightarrow> bool" where
  [code_defs]: "oph_json_is_objkey_printable objkeys objkey =
     (case objkeys of
        [] \<Rightarrow> True
      | k # _ \<Rightarrow> if k = ''all'' then True else if k = ''none'' then False else objkey \<in> set objkeys)"

section \<open>Objects and fragments\<close>

fun find_response :: "string \<Rightarrow> oph_json_response list \<Rightarrow> nat option" where
  "find_response objkey [] = None"
| "find_response objkey (r # rs) = (if jr_objkey r = objkey then Some 0 else map_option Suc (find_response objkey rs))"

text \<open>
  A new fragment: of an object that has the key, which must be of the class, or of a new object. The code of every class
  has the same statements for the fragment of the first object, of an existing one and of a new one. The key of a new object
  is registered after the object was added. \<open>built\<close> is the fragment with the return code of its construction, which may be an error.
\<close>

definition add_fragment ::
    "string \<Rightarrow> ('f list \<Rightarrow> objcontent) \<Rightarrow> (objcontent \<Rightarrow> 'f list option) \<Rightarrow> oph_json \<Rightarrow> string \<Rightarrow> (json_code \<times> 'f) option \<Rightarrow>
     (json_code \<times> oph_json) option" where
  [code_defs]: "add_fragment cls wrap unwrap json objkey built =
     (case find_response objkey (jn_response json) of
        Some i \<Rightarrow>
          (let r = jn_response json ! i in
           if jr_objclass r \<noteq> cls then Some (OPH_JSON_BAD_PARAM_ERROR, json)
           else
           unwrap (jr_objcontent r) \<bind> (\<lambda>fs. built \<bind> (\<lambda>(rc, frag).
             Some (rc, json\<lparr>jn_response := (jn_response json)[i := r\<lparr>jr_objcontent := wrap (fs @ [frag])\<rparr>]\<rparr>))))
      | None \<Rightarrow>
          (let add = (\<lambda>json fs. json\<lparr>jn_response := jn_response json @
                 [\<lparr>jr_objclass = cls, jr_objkey = objkey, jr_objcontent = wrap fs\<rparr>]\<rparr>) in
           case oph_json_add_responseKey json objkey of
             (OPH_JSON_SUCCESS, json) \<Rightarrow> built \<bind> (\<lambda>(rc, frag). Some (rc, add json [frag]))
           | (_, json) \<Rightarrow> Some (OPH_JSON_MEMORY_ERROR, add json [])))"

text \<open>
  A change of the last fragment of an object of one of the classes; \<open>missing\<close> is the return code when no object has the key.
\<close>

definition on_last_fragment ::
    "(string \<Rightarrow> bool) \<Rightarrow> ('f list \<Rightarrow> objcontent) \<Rightarrow> (objcontent \<Rightarrow> 'f list option) \<Rightarrow> json_code \<Rightarrow> oph_json \<Rightarrow> string \<Rightarrow>
     (string \<Rightarrow> 'f \<Rightarrow> (json_code \<times> 'f) option) \<Rightarrow> (json_code \<times> oph_json) option" where
  [code_defs]: "on_last_fragment classes wrap unwrap missing json objkey change =
     (if jn_response json = [] then Some (OPH_JSON_BAD_PARAM_ERROR, json)
      else (case find_response objkey (jn_response json) of
              None \<Rightarrow> Some (missing, json)
            | Some i \<Rightarrow>
                (let r = jn_response json ! i in
                 if \<not> classes (jr_objclass r) then Some (OPH_JSON_BAD_PARAM_ERROR, json)
                 else (case unwrap (jr_objcontent r) of
                         None \<Rightarrow> None
                       | Some fs \<Rightarrow>
                           if fs = [] then Some (OPH_JSON_BAD_PARAM_ERROR, json)
                           else map_option (\<lambda>(rc, frag).
                                  (rc, json\<lparr>jn_response := (jn_response json)
                                     [i := r\<lparr>jr_objcontent := wrap (butlast fs @ [frag])\<rparr>]\<rparr>))
                                (change (jr_objclass r) (last fs))))))"

text \<open>The keys are copied up to the first one that occurred before, the types up to the first one that is not a type.\<close>

fun copy_keys :: "string list \<Rightarrow> string list \<Rightarrow> bool \<times> string list" where
  "copy_keys done [] = (True, done)"
| "copy_keys done (k # ks) = (if k \<in> set done then (False, done) else copy_keys (done @ [k]) ks)"

fun copy_types :: "string list \<Rightarrow> string list \<Rightarrow> bool \<times> string list" where
  "copy_types done [] = (True, done)"
| "copy_types done (t # ts) = (if \<not> oph_json_is_type_correct t then (False, done) else copy_types (done @ [t]) ts)"

definition copy_row :: "nat \<Rightarrow> string list \<Rightarrow> string list option" where
  [code_defs]: "copy_row n vs = (if length vs < n then None else Some (take n vs))"

section \<open>Texts and grids\<close>

fun text_of :: "objcontent \<Rightarrow> oph_json_obj_text list option" where
  "text_of (Text_Content fs) = Some fs"
| "text_of _ = None"

definition oph_json_add_text :: "oph_json \<Rightarrow> string \<Rightarrow> string \<Rightarrow> string option \<Rightarrow> (json_code \<times> oph_json) option" where
  [code_defs]: "oph_json_add_text json objkey title message =
     add_fragment OPH_JSON_TEXT Text_Content text_of json objkey
       (Some (OPH_JSON_SUCCESS, \<lparr>tx_title = title, tx_message = message\<rparr>))"

fun grid_of :: "objcontent \<Rightarrow> oph_json_obj_grid list option" where
  "grid_of (Grid_Content fs) = Some fs"
| "grid_of _ = None"

definition make_grid :: "string \<Rightarrow> string option \<Rightarrow> string list \<Rightarrow> string list \<Rightarrow> json_code \<times> oph_json_obj_grid" where
  [code_defs]: "make_grid title description keys fieldtypes =
     (let grid = (\<lambda>ks ts n. \<lparr>gd_title = title, gd_description = description, gd_keys = ks, gd_fieldtypes = ts, gd_values = [],
        gd_values_num2 = n\<rparr>) in
      case copy_keys [] keys of
        (False, ks) \<Rightarrow> (OPH_JSON_BAD_PARAM_ERROR, grid ks [] 0)
      | (True, ks) \<Rightarrow>
          (case copy_types [] fieldtypes of
             (False, ts) \<Rightarrow> (OPH_JSON_BAD_PARAM_ERROR, grid ks ts 0)
           | (True, ts) \<Rightarrow>
               if length keys \<noteq> length fieldtypes then (OPH_JSON_BAD_PARAM_ERROR, grid ks ts 0)
               else (OPH_JSON_SUCCESS, grid ks ts (length ks))))"

definition oph_json_add_grid ::
    "oph_json \<Rightarrow> string \<Rightarrow> string \<Rightarrow> string option \<Rightarrow> string list \<Rightarrow> string list \<Rightarrow> (json_code \<times> oph_json) option" where
  [code_defs]: "oph_json_add_grid json objkey title description keys fieldtypes =
     (if keys = [] \<or> fieldtypes = [] then Some (OPH_JSON_BAD_PARAM_ERROR, json)
      else add_fragment OPH_JSON_GRID Grid_Content grid_of json objkey (Some (make_grid title description keys fieldtypes)))"

definition grid_row :: "string list \<Rightarrow> oph_json_obj_grid \<Rightarrow> (json_code \<times> oph_json_obj_grid) option" where
  [code_defs]: "grid_row vs g =
     map_option (\<lambda>row. (OPH_JSON_SUCCESS, g\<lparr>gd_values := gd_values g @ [row]\<rparr>)) (copy_row (gd_values_num2 g) vs)"

definition oph_json_add_grid_row :: "oph_json \<Rightarrow> string \<Rightarrow> string list \<Rightarrow> (json_code \<times> oph_json) option" where
  [code_defs]: "oph_json_add_grid_row json objkey vs =
     on_last_fragment (\<lambda>c. c = OPH_JSON_GRID) Grid_Content grid_of OPH_JSON_BAD_PARAM_ERROR json objkey (\<lambda>_. grid_row vs)"

section \<open>Multidimensional grids\<close>

fun multigrid_of :: "objcontent \<Rightarrow> oph_json_obj_multigrid list option" where
  "multigrid_of (Multigrid_Content fs) = Some fs"
| "multigrid_of _ = None"

text \<open>The fields are filled one after the other; the first error leaves the rest of them empty.\<close>

definition make_multigrid ::
    "string \<Rightarrow> string option \<Rightarrow> string list \<Rightarrow> string list \<Rightarrow> string list \<Rightarrow> string list \<Rightarrow> string list list \<Rightarrow> string \<Rightarrow> string \<Rightarrow>
     (json_code \<times> oph_json_obj_multigrid) option" where
  [code_defs]: "make_multigrid title description rowkeys rowfieldtypes colkeys colfieldtypes colvalues measurename measuretype =
     (let m = \<lparr>mg_title = title, mg_description = description, mg_rowkeys = [], mg_rowfieldtypes = [], mg_rowvalues = [],
            mg_rowvalues_num2 = 0, mg_colkeys = [], mg_colfieldtypes = [], mg_colvalues = [], mg_colvalues_num2 = 0,
            mg_measurename = None, mg_measuretype = None, mg_measurevalues = [], mg_measurevalues_num2 = 0\<rparr>;
          bad = (\<lambda>m. Some (OPH_JSON_BAD_PARAM_ERROR, m));
          (rk_ok, rks) = copy_keys [] rowkeys; m1 = m\<lparr>mg_rowkeys := rks\<rparr>;
          (rt_ok, rts) = copy_types [] rowfieldtypes; m2 = m1\<lparr>mg_rowfieldtypes := rts\<rparr>;
          (ck_ok, cks) = copy_keys [] colkeys; m3 = m2\<lparr>mg_colkeys := cks\<rparr>;
          (ct_ok, cts) = copy_types [] colfieldtypes; m4 = m3\<lparr>mg_colfieldtypes := cts\<rparr> in
      if \<not> rk_ok then bad m1
      else if \<not> rt_ok then bad m2
      else if \<not> ck_ok then bad m3
      else if \<not> ct_ok then bad m4
      else
      (case those (map (copy_row (length colkeys)) colvalues) of
         None \<Rightarrow> None
       | Some cvs \<Rightarrow>
           (let m5 = m4\<lparr>mg_colvalues := cvs, mg_colvalues_num2 := length colkeys, mg_measurename := Some measurename\<rparr> in
            if \<not> oph_json_is_measuretype_correct measuretype then bad m5
            else Some (OPH_JSON_SUCCESS, m5\<lparr>mg_measuretype := Some measuretype, mg_measurevalues_num2 := length colvalues,
                   mg_rowvalues_num2 := length rowkeys\<rparr>))))"

definition oph_json_add_multigrid ::
    "oph_json \<Rightarrow> string \<Rightarrow> string \<Rightarrow> string option \<Rightarrow> string list \<Rightarrow> string list \<Rightarrow> string list \<Rightarrow> string list \<Rightarrow>
     string list list \<Rightarrow> string \<Rightarrow> string \<Rightarrow> (json_code \<times> oph_json) option" where
  [code_defs]: "oph_json_add_multigrid json objkey title description rowkeys rowfieldtypes colkeys colfieldtypes colvalues
       measurename measuretype =
     (if rowkeys = [] \<or> rowfieldtypes = [] \<or> colkeys = [] \<or> colfieldtypes = [] \<or> colvalues = []
      then Some (OPH_JSON_BAD_PARAM_ERROR, json)
      else add_fragment OPH_JSON_MULTIGRID Multigrid_Content multigrid_of json objkey
             (make_multigrid title description rowkeys rowfieldtypes colkeys colfieldtypes colvalues measurename measuretype))"

definition multigrid_row ::
    "string list \<Rightarrow> string list \<Rightarrow> oph_json_obj_multigrid \<Rightarrow> (json_code \<times> oph_json_obj_multigrid) option" where
  [code_defs]: "multigrid_row rowvalues measurevalues m =
     copy_row (mg_measurevalues_num2 m) measurevalues \<bind> (\<lambda>mrow.
     copy_row (mg_rowvalues_num2 m) rowvalues \<bind> (\<lambda>rrow.
     Some (OPH_JSON_SUCCESS, m\<lparr>mg_measurevalues := mg_measurevalues m @ [mrow], mg_rowvalues := mg_rowvalues m @ [rrow]\<rparr>)))"

definition oph_json_add_multigrid_row :: "oph_json \<Rightarrow> string \<Rightarrow> string list \<Rightarrow> string list \<Rightarrow> (json_code \<times> oph_json) option" where
  [code_defs]: "oph_json_add_multigrid_row json objkey rowvalues measurevalues =
     on_last_fragment (\<lambda>c. c = OPH_JSON_MULTIGRID) Multigrid_Content multigrid_of OPH_JSON_BAD_PARAM_ERROR json objkey
       (\<lambda>_. multigrid_row rowvalues measurevalues)"

section \<open>Graphs and trees\<close>

fun graph_of :: "objcontent \<Rightarrow> oph_json_obj_graph list option" where
  "graph_of (Graph_Content fs) = Some fs"
| "graph_of _ = None"

definition make_graph :: "string \<Rightarrow> string option \<Rightarrow> string list option \<Rightarrow> json_code \<times> oph_json_obj_graph" where
  [code_defs]: "make_graph title description nodekeys =
     (let graph = (\<lambda>ks n. \<lparr>gh_title = title, gh_description = description, gh_nodekeys = ks, gh_nodevalues = [],
        gh_nodevalues_num2 = n, gh_nodelinks = []\<rparr>) in
      case nodekeys of
        None \<Rightarrow> (OPH_JSON_SUCCESS, graph [] 0)
      | Some keys \<Rightarrow>
          (case copy_keys [] keys of
             (False, ks) \<Rightarrow> (OPH_JSON_BAD_PARAM_ERROR, graph ks 0)
           | (True, ks) \<Rightarrow> (OPH_JSON_SUCCESS, graph ks (length keys))))"

definition oph_json_add_graph ::
    "oph_json \<Rightarrow> string \<Rightarrow> bool \<Rightarrow> string \<Rightarrow> string option \<Rightarrow> string list option \<Rightarrow> (json_code \<times> oph_json) option" where
  [code_defs]: "oph_json_add_graph json objkey is_digraph title description nodekeys =
     add_fragment (if is_digraph then OPH_JSON_DGRAPH else OPH_JSON_GRAPH) Graph_Content graph_of json objkey
       (Some (make_graph title description nodekeys))"

text \<open>The values of a new node, given as an array or a null pointer; \<open>n\<close> is the number of properties.\<close>

definition node_row :: "nat \<Rightarrow> string list option \<Rightarrow> (json_code \<times> string list list) option" where
  [code_defs]: "node_row n nodevalues =
     (case nodevalues of
        Some vs \<Rightarrow> if n = 0 then Some (OPH_JSON_BAD_PARAM_ERROR, []) else map_option (\<lambda>row. (OPH_JSON_SUCCESS, [row])) (copy_row n vs)
      | None \<Rightarrow> Some (if n \<noteq> 0 then OPH_JSON_BAD_PARAM_ERROR else OPH_JSON_SUCCESS, []))"

definition graph_node :: "string list option \<Rightarrow> oph_json_obj_graph \<Rightarrow> (json_code \<times> oph_json_obj_graph) option" where
  [code_defs]: "graph_node nodevalues g =
     map_option (\<lambda>(rc, rows).
       if rc \<noteq> OPH_JSON_SUCCESS then (rc, g)
       else (OPH_JSON_SUCCESS, g\<lparr>gh_nodevalues := gh_nodevalues g @ rows, gh_nodelinks := gh_nodelinks g @ [[]]\<rparr>))
     (node_row (gh_nodevalues_num2 g) nodevalues)"

definition is_graph_class :: "string \<Rightarrow> bool" where
  [code_defs]: "is_graph_class c \<longleftrightarrow> c = OPH_JSON_DGRAPH \<or> c = OPH_JSON_GRAPH"

definition oph_json_add_graph_node :: "oph_json \<Rightarrow> string \<Rightarrow> string list option \<Rightarrow> (json_code \<times> oph_json) option" where
  [code_defs]: "oph_json_add_graph_node json objkey nodevalues =
     on_last_fragment is_graph_class Graph_Content graph_of OPH_JSON_BAD_PARAM_ERROR json objkey (\<lambda>_. graph_node nodevalues)"

definition has_link :: "oph_json_link list \<Rightarrow> nat \<Rightarrow> bool" where
  [code_defs]: "has_link links node \<longleftrightarrow> list_ex (\<lambda>l. lk_node l = show_int (int node)) links"

text \<open>
  The bounds of the nodes are compared with \<open>node + 1\<close>, of type \<open>int\<close>: its overflow is undefined. The second node is compared
  only when the first one is within the bounds.
\<close>

definition link_overflow :: "nat \<Rightarrow> nat \<Rightarrow> nat \<Rightarrow> bool" where
  [code_defs]: "link_overflow node1 node2 nodelinks_num \<longleftrightarrow>
     node1 \<noteq> node2 \<and> (node1 = 2147483647 \<or> node1 + 1 \<le> nodelinks_num \<and> node2 = 2147483647)"

text \<open>
  A link of a graph; the other direction counts as the same link when the graph is undirected. A key that no object has is
  logged but not returned as an error.
\<close>

definition graph_link ::
    "nat \<Rightarrow> nat \<Rightarrow> string option \<Rightarrow> string \<Rightarrow> oph_json_obj_graph \<Rightarrow> (json_code \<times> oph_json_obj_graph) option" where
  [code_defs]: "graph_link node1 node2 description cls g =
     (let links = gh_nodelinks g in
      if link_overflow node1 node2 (length links) then None
      else if node1 = node2 \<or> length links < node1 + 1 \<or> length links < node2 + 1 then Some (OPH_JSON_BAD_PARAM_ERROR, g)
      else if cls \<noteq> OPH_JSON_DGRAPH \<and> has_link (links ! node2) node1 then Some (OPH_JSON_BAD_PARAM_ERROR, g)
      else if has_link (links ! node1) node2 then Some (OPH_JSON_BAD_PARAM_ERROR, g)
      else Some (OPH_JSON_SUCCESS, g\<lparr>gh_nodelinks := links[node1 := links ! node1 @
             [\<lparr>lk_node = show_int (int node2), lk_description = description\<rparr>]]\<rparr>))"

definition oph_json_add_graph_link ::
    "oph_json \<Rightarrow> string \<Rightarrow> int \<Rightarrow> int \<Rightarrow> string option \<Rightarrow> (json_code \<times> oph_json) option" where
  [code_defs]: "oph_json_add_graph_link json objkey node1 node2 description =
     (if node1 < 0 \<or> node2 < 0 then Some (OPH_JSON_BAD_PARAM_ERROR, json)
      else on_last_fragment is_graph_class Graph_Content graph_of OPH_JSON_SUCCESS json objkey
             (graph_link (nat node1) (nat node2) description))"

fun tree_of :: "objcontent \<Rightarrow> oph_json_obj_tree list option" where
  "tree_of (Tree_Content fs) = Some fs"
| "tree_of _ = None"

definition make_tree :: "string \<Rightarrow> string option \<Rightarrow> string list option \<Rightarrow> json_code \<times> oph_json_obj_tree" where
  [code_defs]: "make_tree title description nodekeys =
     (let tree = (\<lambda>ks n. \<lparr>tr_title = title, tr_description = description, tr_nodekeys = ks, tr_nodevalues = [],
        tr_nodevalues_num2 = n, tr_rootnode = None, tr_nodelinks = []\<rparr>) in
      case nodekeys of
        None \<Rightarrow> (OPH_JSON_SUCCESS, tree [] 0)
      | Some keys \<Rightarrow>
          (case copy_keys [] keys of
             (False, ks) \<Rightarrow> (OPH_JSON_BAD_PARAM_ERROR, tree ks 0)
           | (True, ks) \<Rightarrow> (OPH_JSON_SUCCESS, tree ks (length keys))))"

definition oph_json_add_tree ::
    "oph_json \<Rightarrow> string \<Rightarrow> string \<Rightarrow> string option \<Rightarrow> string list option \<Rightarrow> (json_code \<times> oph_json) option" where
  [code_defs]: "oph_json_add_tree json objkey title description nodekeys =
     add_fragment OPH_JSON_TREE Tree_Content tree_of json objkey (Some (make_tree title description nodekeys))"

definition tree_node :: "string list option \<Rightarrow> oph_json_obj_tree \<Rightarrow> (json_code \<times> oph_json_obj_tree) option" where
  [code_defs]: "tree_node nodevalues t =
     map_option (\<lambda>(rc, rows).
       if rc \<noteq> OPH_JSON_SUCCESS then (rc, t)
       else (OPH_JSON_SUCCESS, t\<lparr>tr_nodevalues := tr_nodevalues t @ rows, tr_nodelinks := tr_nodelinks t @ [[]]\<rparr>))
     (node_row (tr_nodevalues_num2 t) nodevalues)"

definition oph_json_add_tree_node :: "oph_json \<Rightarrow> string \<Rightarrow> string list option \<Rightarrow> (json_code \<times> oph_json) option" where
  [code_defs]: "oph_json_add_tree_node json objkey nodevalues =
     on_last_fragment (\<lambda>c. c = OPH_JSON_TREE) Tree_Content tree_of OPH_JSON_BAD_PARAM_ERROR json objkey (\<lambda>_. tree_node nodevalues)"

definition tree_root :: "int \<Rightarrow> oph_json_obj_tree \<Rightarrow> (json_code \<times> oph_json_obj_tree) option" where
  [code_defs]: "tree_root rootnode t =
     Some (if tr_rootnode t \<noteq> None then (OPH_JSON_BAD_PARAM_ERROR, t)
           else (OPH_JSON_SUCCESS, t\<lparr>tr_rootnode := Some (show_int rootnode)\<rparr>))"

definition oph_json_set_tree_root :: "oph_json \<Rightarrow> string \<Rightarrow> int \<Rightarrow> (json_code \<times> oph_json) option" where
  [code_defs]: "oph_json_set_tree_root json objkey rootnode =
     (if rootnode < 0 then Some (OPH_JSON_BAD_PARAM_ERROR, json)
      else on_last_fragment (\<lambda>c. c = OPH_JSON_TREE) Tree_Content tree_of OPH_JSON_BAD_PARAM_ERROR json objkey (\<lambda>_. tree_root rootnode))"

definition tree_link :: "nat \<Rightarrow> nat \<Rightarrow> string option \<Rightarrow> oph_json_obj_tree \<Rightarrow> (json_code \<times> oph_json_obj_tree) option" where
  [code_defs]: "tree_link sourcenode targetnode description t =
     (let links = tr_nodelinks t in
      if link_overflow sourcenode targetnode (length links) then None
      else if sourcenode = targetnode \<or> length links < sourcenode + 1 \<or> length links < targetnode + 1
      then Some (OPH_JSON_BAD_PARAM_ERROR, t)
      else if has_link (links ! sourcenode) targetnode then Some (OPH_JSON_BAD_PARAM_ERROR, t)
      else Some (OPH_JSON_SUCCESS, t\<lparr>tr_nodelinks := links[sourcenode := links ! sourcenode @
             [\<lparr>lk_node = show_int (int targetnode), lk_description = description\<rparr>]]\<rparr>))"

definition oph_json_add_tree_link ::
    "oph_json \<Rightarrow> string \<Rightarrow> int \<Rightarrow> int \<Rightarrow> string option \<Rightarrow> (json_code \<times> oph_json) option" where
  [code_defs]: "oph_json_add_tree_link json objkey sourcenode targetnode description =
     (if sourcenode < 0 \<or> targetnode < 0 then Some (OPH_JSON_BAD_PARAM_ERROR, json)
      else on_last_fragment (\<lambda>c. c = OPH_JSON_TREE) Tree_Content tree_of OPH_JSON_BAD_PARAM_ERROR json objkey
             (\<lambda>_. tree_link (nat sourcenode) (nat targetnode) description))"

section \<open>Sequences of operations\<close>

text \<open>The operations with their arguments, and their execution on an object that a program builds.\<close>

datatype json_op =
    Add_Consumer string
  | Set_Source string string "string option" "string option" "string option"
  | Add_Source_Detail string string
  | Add_Extra_Detail string string
  | Add_Text string string "string option"
  | Add_Grid string string "string option" "string list" "string list"
  | Add_Grid_Row string "string list"
  | Add_Multigrid string string "string option" "string list" "string list" "string list" "string list" "string list list" string string
  | Add_Multigrid_Row string "string list" "string list"
  | Add_Graph string bool string "string option" "string list option"
  | Add_Graph_Node string "string list option"
  | Add_Graph_Link string int int "string option"
  | Add_Tree string string "string option" "string list option"
  | Add_Tree_Node string "string list option"
  | Set_Tree_Root string int
  | Add_Tree_Link string int int "string option"

fun json_exec :: "oph_json \<Rightarrow> json_op \<Rightarrow> (json_code \<times> oph_json) option" where
  "json_exec json (Add_Consumer c) = Some (oph_json_add_consumer json c)"
| "json_exec json (Set_Source k n u d p) = Some (oph_json_set_source json k n u d p)"
| "json_exec json (Add_Source_Detail k v) = Some (oph_json_add_source_detail json k v)"
| "json_exec json (Add_Extra_Detail k v) = Some (oph_json_add_extra_detail json k v)"
| "json_exec json (Add_Text k t m) = oph_json_add_text json k t m"
| "json_exec json (Add_Grid k t d ks ts) = oph_json_add_grid json k t d ks ts"
| "json_exec json (Add_Grid_Row k vs) = oph_json_add_grid_row json k vs"
| "json_exec json (Add_Multigrid k t d rk rt ck ct cv mn mt) = oph_json_add_multigrid json k t d rk rt ck ct cv mn mt"
| "json_exec json (Add_Multigrid_Row k rs ms) = oph_json_add_multigrid_row json k rs ms"
| "json_exec json (Add_Graph k dir t d ks) = oph_json_add_graph json k dir t d ks"
| "json_exec json (Add_Graph_Node k vs) = oph_json_add_graph_node json k vs"
| "json_exec json (Add_Graph_Link k i j d) = oph_json_add_graph_link json k i j d"
| "json_exec json (Add_Tree k t d ks) = oph_json_add_tree json k t d ks"
| "json_exec json (Add_Tree_Node k vs) = oph_json_add_tree_node json k vs"
| "json_exec json (Set_Tree_Root k r) = oph_json_set_tree_root json k r"
| "json_exec json (Add_Tree_Link k i j d) = oph_json_add_tree_link json k i j d"

fun json_run :: "oph_json \<Rightarrow> json_op list \<Rightarrow> oph_json option" where
  "json_run json [] = Some json"
| "json_run json (op # ops) = json_exec json op \<bind> (\<lambda>(_, json). json_run json ops)"

text \<open>The operations that read arrays whose length they are not told, or that compute the successor of a node.\<close>

fun trusts_caller :: "json_op \<Rightarrow> bool" where
  "trusts_caller (Add_Grid_Row _ _) = True"
| "trusts_caller (Add_Multigrid _ _ _ _ _ _ _ _ _ _) = True"
| "trusts_caller (Add_Multigrid_Row _ _ _) = True"
| "trusts_caller (Add_Graph_Node _ vs) = (vs \<noteq> None)"
| "trusts_caller (Add_Tree_Node _ vs) = (vs \<noteq> None)"
| "trusts_caller (Add_Graph_Link _ i j _) = (i \<ge> 2147483647 \<or> j \<ge> 2147483647)"
| "trusts_caller (Add_Tree_Link _ i j _) = (i \<ge> 2147483647 \<or> j \<ge> 2147483647)"
| "trusts_caller _ = False"

text \<open>The abstract view of the objects: the class and the content of each key; and the grids of a key.\<close>

definition objects :: "oph_json \<Rightarrow> string \<Rightarrow> (string \<times> objcontent) option" where
  [code_defs]: "objects json = map_of (map (\<lambda>r. (jr_objkey r, jr_objclass r, jr_objcontent r)) (jn_response json))"

definition grids :: "oph_json \<Rightarrow> string \<Rightarrow> oph_json_obj_grid list" where
  [code_defs]: "grids json k = (case objects json k of Some (_, Grid_Content gs) \<Rightarrow> gs | _ \<Rightarrow> [])"

section \<open>Invariant\<close>

text \<open>
  A grid that was built completely has as many types as keys, and rows of that width; after an error its width is 0. The
  same holds of the other classes.
\<close>

definition rows_ok :: "nat \<Rightarrow> string list list \<Rightarrow> bool" where
  [code_defs]: "rows_ok n rows \<longleftrightarrow> list_all (\<lambda>r. length r = n) rows"

definition grid_ok :: "oph_json_obj_grid \<Rightarrow> bool" where
  [code_defs]: "grid_ok g \<longleftrightarrow> distinct (gd_keys g) \<and> list_all oph_json_is_type_correct (gd_fieldtypes g) \<and>
     rows_ok (gd_values_num2 g) (gd_values g) \<and>
     (gd_values_num2 g = 0 \<or> gd_values_num2 g = length (gd_keys g) \<and> length (gd_fieldtypes g) = length (gd_keys g))"

definition multigrid_ok :: "oph_json_obj_multigrid \<Rightarrow> bool" where
  [code_defs]: "multigrid_ok m \<longleftrightarrow> distinct (mg_rowkeys m) \<and> distinct (mg_colkeys m) \<and>
     list_all oph_json_is_type_correct (mg_rowfieldtypes m) \<and> list_all oph_json_is_type_correct (mg_colfieldtypes m) \<and>
     rows_ok (mg_colvalues_num2 m) (mg_colvalues m) \<and> rows_ok (mg_rowvalues_num2 m) (mg_rowvalues m) \<and>
     rows_ok (mg_measurevalues_num2 m) (mg_measurevalues m) \<and> length (mg_measurevalues m) = length (mg_rowvalues m) \<and>
     (case mg_measuretype m of
        None \<Rightarrow> mg_rowvalues_num2 m = 0 \<and> mg_measurevalues_num2 m = 0
      | Some t \<Rightarrow> oph_json_is_measuretype_correct t \<and> mg_rowvalues_num2 m = length (mg_rowkeys m) \<and>
          mg_colvalues_num2 m = length (mg_colkeys m) \<and> mg_measurevalues_num2 m = length (mg_colvalues m))"

text \<open>The links of a node lead to other nodes, to each one at most once; in an undirected graph in one direction only.\<close>

definition links_ok :: "bool \<Rightarrow> oph_json_link list list \<Rightarrow> bool" where
  "links_ok undirected links \<longleftrightarrow> (\<forall>i < length links.
     (\<forall>l\<in>set (links ! i). \<exists>j < length links. j \<noteq> i \<and> lk_node l = show_int (int j)) \<and>
     distinct (map lk_node (links ! i)) \<and>
     (undirected \<longrightarrow> (\<forall>j < length links. has_link (links ! i) j \<longrightarrow> \<not> has_link (links ! j) i)))"

definition nodes_ok :: "string list \<Rightarrow> string list list \<Rightarrow> nat \<Rightarrow> oph_json_link list list \<Rightarrow> bool" where
  "nodes_ok keys vals n links \<longleftrightarrow> distinct keys \<and> rows_ok n vals \<and> (n = 0 \<or> n = length keys) \<and>
     (if n = 0 then vals = [] else length vals = length links)"

definition graph_frag_ok :: "bool \<Rightarrow> oph_json_obj_graph \<Rightarrow> bool" where
  "graph_frag_ok undirected g \<longleftrightarrow> nodes_ok (gh_nodekeys g) (gh_nodevalues g) (gh_nodevalues_num2 g) (gh_nodelinks g) \<and>
     links_ok undirected (gh_nodelinks g)"

definition tree_ok :: "oph_json_obj_tree \<Rightarrow> bool" where
  "tree_ok t \<longleftrightarrow> nodes_ok (tr_nodekeys t) (tr_nodevalues t) (tr_nodevalues_num2 t) (tr_nodelinks t) \<and>
     links_ok False (tr_nodelinks t)"

fun content_ok :: "string \<Rightarrow> objcontent \<Rightarrow> bool" where
  "content_ok cls (Text_Content fs) \<longleftrightarrow> cls = OPH_JSON_TEXT \<and> fs \<noteq> []"
| "content_ok cls (Grid_Content fs) \<longleftrightarrow> cls = OPH_JSON_GRID \<and> fs \<noteq> [] \<and> list_all grid_ok fs"
| "content_ok cls (Multigrid_Content fs) \<longleftrightarrow> cls = OPH_JSON_MULTIGRID \<and> fs \<noteq> [] \<and> list_all multigrid_ok fs"
| "content_ok cls (Tree_Content fs) \<longleftrightarrow> cls = OPH_JSON_TREE \<and> fs \<noteq> [] \<and> list_all tree_ok fs"
| "content_ok cls (Graph_Content fs) \<longleftrightarrow>
     (cls = OPH_JSON_DGRAPH \<or> cls = OPH_JSON_GRAPH) \<and> fs \<noteq> [] \<and> list_all (graph_frag_ok (cls = OPH_JSON_GRAPH)) fs"

definition details_ok :: "string list \<Rightarrow> string list \<Rightarrow> bool" where
  "details_ok keys vals \<longleftrightarrow> distinct keys \<and> length vals = length keys"

definition json_ok :: "oph_json \<Rightarrow> bool" where
  "json_ok json \<longleftrightarrow> jn_responseKeyset json = map jr_objkey (jn_response json) \<and> distinct (jn_responseKeyset json) \<and>
     distinct (jn_consumers json) \<and>
     (\<forall>r\<in>set (jn_response json). content_ok (jr_objclass r) (jr_objcontent r)) \<and>
     (case jn_source json of None \<Rightarrow> True | Some s \<Rightarrow> details_ok (src_keys s) (src_values s)) \<and>
     (case jn_extra json of None \<Rightarrow> True | Some e \<Rightarrow> details_ok (ex_keys e) (ex_values e))"

section \<open>Lemmas on objects\<close>

lemma find_response_Some:
  "find_response k rs = Some i \<Longrightarrow> i < length rs \<and> jr_objkey (rs ! i) = k"
  by (induction rs arbitrary: i) (auto split: if_splits)

lemma find_response_None: "find_response k rs = None \<longleftrightarrow> k \<notin> jr_objkey ` set rs"
  by (induction rs) auto

lemma json_ok_update:
  assumes "json_ok json" and "i < length (jn_response json)" and "content_ok (jr_objclass (jn_response json ! i)) c"
  shows "json_ok (json\<lparr>jn_response := (jn_response json)[i := (jn_response json ! i)\<lparr>jr_objcontent := c\<rparr>]\<rparr>)"
proof -
  have "map jr_objkey ((jn_response json)[i := (jn_response json ! i)\<lparr>jr_objcontent := c\<rparr>]) = map jr_objkey (jn_response json)"
    using assms(2) by (simp add: map_update list_update_same_conv)
  then show ?thesis
    using assms by (auto simp: json_ok_def dest!: set_update_subset_insert [THEN subsetD])
qed

text \<open>
  A class of objects: its contents are the lists of fragments that are well formed. Every operation on such objects keeps the
  invariant when it builds or changes fragments accordingly.
\<close>

locale json_class =
  fixes cls :: string and wrap :: "'f list \<Rightarrow> objcontent" and unwrap :: "objcontent \<Rightarrow> 'f list option" and frag_ok :: "'f \<Rightarrow> bool"
  assumes unwrap_wrap: "unwrap (wrap fs) = Some fs"
    and content_iff: "content_ok cls c \<longleftrightarrow> (\<exists>fs. c = wrap fs \<and> fs \<noteq> [] \<and> list_all frag_ok fs)"
begin

lemma object_fragments:
  assumes "json_ok json" and "find_response k (jn_response json) = Some i" and "jr_objclass (jn_response json ! i) = cls"
  obtains fs where "jr_objcontent (jn_response json ! i) = wrap fs" and "fs \<noteq> []" and "list_all frag_ok fs"
proof -
  have "i < length (jn_response json)" using find_response_Some [OF assms(2)] by simp
  then have "content_ok cls (jr_objcontent (jn_response json ! i))"
    using assms(1,3) by (metis json_ok_def nth_mem)
  then show thesis using that content_iff by blast
qed

lemma add_fragment_ok:
  assumes "json_ok json" and "built = Some (rc0, frag)" and "frag_ok frag"
  shows "\<exists>rc json'. add_fragment cls wrap unwrap json k built = Some (rc, json') \<and> json_ok json'"
proof (cases "find_response k (jn_response json)")
  case None
  have "k \<notin> set (jn_responseKeyset json)" using None assms(1) by (auto simp: find_response_None json_ok_def)
  moreover have "content_ok cls (wrap [frag])" using content_iff assms(3) by auto
  ultimately show ?thesis
    using None assms by (auto simp: add_fragment_def oph_json_add_responseKey_def Let_def json_ok_def)
next
  case (Some i)
  show ?thesis
  proof (cases "jr_objclass (jn_response json ! i) = cls")
    case True
    then obtain fs where fs: "jr_objcontent (jn_response json ! i) = wrap fs" "fs \<noteq> []" "list_all frag_ok fs"
      using object_fragments [OF assms(1) Some] by blast
    have "content_ok cls (wrap (fs @ [frag]))" using content_iff fs(3) assms(3) by auto
    then have "json_ok (json\<lparr>jn_response := (jn_response json)[i := (jn_response json ! i)\<lparr>jr_objcontent := wrap (fs @ [frag])\<rparr>]\<rparr>)"
      using json_ok_update [OF assms(1)] find_response_Some [OF Some] True by blast
    then show ?thesis using Some True fs(1) assms(2) by (simp add: add_fragment_def Let_def unwrap_wrap)
  qed (use Some assms(1) in \<open>simp add: add_fragment_def Let_def\<close>)
qed

text \<open>One change of a fragment, at an object of this class.\<close>

lemma change_ok:
  assumes "json_ok json" and "find_response k (jn_response json) = Some i" and "jr_objclass (jn_response json ! i) = cls"
    and "classes cls" and "\<And>f rc f'. frag_ok f \<Longrightarrow> change cls f = Some (rc, f') \<Longrightarrow> frag_ok f'"
    and "on_last_fragment classes wrap unwrap missing json k change = Some (rc, json')"
  shows "json_ok json'"
proof -
  obtain fs where fs: "jr_objcontent (jn_response json ! i) = wrap fs" "fs \<noteq> []" "list_all frag_ok fs"
    using object_fragments [OF assms(1-3)] .
  have i: "i < length (jn_response json)" using find_response_Some [OF assms(2)] by simp
  then have ne: "jn_response json \<noteq> []" by auto
  obtain f' where f': "change cls (last fs) = Some (rc, f')"
      "json' = json\<lparr>jn_response := (jn_response json)[i := (jn_response json ! i)\<lparr>jr_objcontent := wrap (butlast fs @ [f'])\<rparr>]\<rparr>"
    using assms(2-4,6) ne fs(1,2) by (auto simp: on_last_fragment_def Let_def unwrap_wrap)
  have "frag_ok (last fs)" "list_all frag_ok (butlast fs)"
    using fs(2,3) by (auto simp: list_all_iff dest: in_set_butlastD)
  then have "content_ok cls (wrap (butlast fs @ [f']))" using content_iff assms(5) f'(1) by auto
  then show ?thesis unfolding f'(2) using json_ok_update [OF assms(1) i] assms(3) by simp
qed

end

interpretation text_class: json_class OPH_JSON_TEXT Text_Content text_of "\<lambda>_. True"
proof
  show "content_ok OPH_JSON_TEXT c \<longleftrightarrow> (\<exists>fs. c = Text_Content fs \<and> fs \<noteq> [] \<and> list_all (\<lambda>_. True) fs)" for c
    by (cases c) (auto simp: code_defs list_all_iff)
qed simp

interpretation grid_class: json_class OPH_JSON_GRID Grid_Content grid_of grid_ok
proof
  show "content_ok OPH_JSON_GRID c \<longleftrightarrow> (\<exists>fs. c = Grid_Content fs \<and> fs \<noteq> [] \<and> list_all grid_ok fs)" for c
    by (cases c) (auto simp: OPH_JSON_TEXT_def OPH_JSON_GRID_def OPH_JSON_MULTIGRID_def OPH_JSON_TREE_def OPH_JSON_GRAPH_def OPH_JSON_DGRAPH_def)
qed simp

lemmas json_class_names =
  OPH_JSON_TEXT_def OPH_JSON_GRID_def OPH_JSON_MULTIGRID_def OPH_JSON_TREE_def OPH_JSON_GRAPH_def OPH_JSON_DGRAPH_def

interpretation multigrid_class: json_class OPH_JSON_MULTIGRID Multigrid_Content multigrid_of multigrid_ok
proof
  show "content_ok OPH_JSON_MULTIGRID c \<longleftrightarrow> (\<exists>fs. c = Multigrid_Content fs \<and> fs \<noteq> [] \<and> list_all multigrid_ok fs)" for c
    by (cases c) (auto simp: json_class_names)
qed simp

interpretation tree_class: json_class OPH_JSON_TREE Tree_Content tree_of tree_ok
proof
  show "content_ok OPH_JSON_TREE c \<longleftrightarrow> (\<exists>fs. c = Tree_Content fs \<and> fs \<noteq> [] \<and> list_all tree_ok fs)" for c
    by (cases c) (auto simp: json_class_names)
qed simp

interpretation graph_class: json_class OPH_JSON_GRAPH Graph_Content graph_of "graph_frag_ok True"
proof
  show "content_ok OPH_JSON_GRAPH c \<longleftrightarrow> (\<exists>fs. c = Graph_Content fs \<and> fs \<noteq> [] \<and> list_all (graph_frag_ok True) fs)" for c
    by (cases c) (auto simp: json_class_names)
qed simp

interpretation digraph_class: json_class OPH_JSON_DGRAPH Graph_Content graph_of "graph_frag_ok False"
proof
  show "content_ok OPH_JSON_DGRAPH c \<longleftrightarrow> (\<exists>fs. c = Graph_Content fs \<and> fs \<noteq> [] \<and> list_all (graph_frag_ok False) fs)" for c
    by (cases c) (auto simp: json_class_names)
qed simp

section \<open>Fragments\<close>

lemma copy_keys_distinct: "copy_keys ds ks = (b, r) \<Longrightarrow> distinct ds \<Longrightarrow> distinct r \<and> (b \<longrightarrow> r = ds @ ks)"
  by (induction ds ks rule: copy_keys.induct) (auto split: if_splits)

lemma copy_types_correct:
  "copy_types ds ts = (b, r) \<Longrightarrow> list_all oph_json_is_type_correct ds \<Longrightarrow>
   list_all oph_json_is_type_correct r \<and> (b \<longrightarrow> r = ds @ ts)"
  by (induction ds ts rule: copy_types.induct) (auto split: if_splits)

lemmas copy_keys_ok = copy_keys_distinct [where ds = "[]", simplified]

lemmas copy_types_ok = copy_types_correct [where ds = "[]", simplified]

lemma copy_row_length: "copy_row n vs = Some row \<Longrightarrow> length row = n"
  by (auto simp: copy_row_def split: if_splits)

lemma rows_ok_simps [simp]:
  "rows_ok n []" "rows_ok n (rs @ ss) \<longleftrightarrow> rows_ok n rs \<and> rows_ok n ss" "rows_ok n (r # rs) \<longleftrightarrow> length r = n \<and> rows_ok n rs"
  by (auto simp: rows_ok_def)

lemma make_grid_ok:
  assumes "make_grid title d ks ts = (rc, g)"
  shows "grid_ok g"
proof -
  obtain k_ok ks' t_ok ts' where c: "copy_keys [] ks = (k_ok, ks')" "copy_types [] ts = (t_ok, ts')"
    by (meson surj_pair)
  show ?thesis
    using assms copy_keys_ok [OF c(1)] copy_types_ok [OF c(2)]
    by (cases k_ok; cases t_ok) (auto simp: make_grid_def grid_ok_def Let_def c split: if_splits)
qed

lemma grid_row_ok: "grid_ok g \<Longrightarrow> grid_row vs g = Some (rc, g') \<Longrightarrow> grid_ok g'"
  by (auto simp: grid_row_def grid_ok_def dest: copy_row_length)

lemma those_copy_rows: "those (map (copy_row n) rs) = Some out \<Longrightarrow> rows_ok n out \<and> length out = length rs"
  by (induction rs arbitrary: out) (auto split: option.splits dest: copy_row_length)

lemma make_multigrid_ok:
  assumes "make_multigrid title d rk rt ck ct cv mn mt = Some (rc, m)"
  shows "multigrid_ok m"
proof -
  obtain rk_ok rks rt_ok rts ck_ok cks ct_ok cts where
    c: "copy_keys [] rk = (rk_ok, rks)" "copy_types [] rt = (rt_ok, rts)" "copy_keys [] ck = (ck_ok, cks)" "copy_types [] ct = (ct_ok, cts)"
    by (meson surj_pair)
  show ?thesis
    using assms copy_keys_ok [OF c(1)] copy_types_ok [OF c(2)] copy_keys_ok [OF c(3)] copy_types_ok [OF c(4)]
    by (auto simp: make_multigrid_def multigrid_ok_def Let_def c split: if_splits option.splits dest: those_copy_rows)
qed

lemma multigrid_row_ok: "multigrid_ok m \<Longrightarrow> multigrid_row rs ms m = Some (rc, m') \<Longrightarrow> multigrid_ok m'"
  by (auto simp: multigrid_row_def multigrid_ok_def Option.bind_eq_Some_conv split: option.splits dest: copy_row_length)

text \<open>Nodes and links, of graphs and trees.\<close>

lemma show_node_inj [simp]: "show_int (int i) = show_int (int j) \<longleftrightarrow> i = j"
  by (metis int_nat_eq nat_int of_nat_less_0_iff read_digits_show_nat show_int_def)

lemma has_link_append [simp]: "has_link (ls @ ms) j \<longleftrightarrow> has_link ls j \<or> has_link ms j"
  by (auto simp: has_link_def)

lemma has_link_simps [simp]: "\<not> has_link [] j" "has_link [\<lparr>lk_node = show_int (int i), lk_description = d\<rparr>] j \<longleftrightarrow> i = j"
  by (auto simp: has_link_def)

lemma links_ok_new_node: "links_ok u links \<Longrightarrow> links_ok u (links @ [[]])"
  unfolding links_ok_def by (auto simp: nth_append less_Suc_eq) (metis less_SucI)+

lemma links_ok_new_link:
  assumes "links_ok u links" and "i < length links" and "j < length links" and "i \<noteq> j"
    and "\<not> has_link (links ! i) j" and "u \<longrightarrow> \<not> has_link (links ! j) i"
  shows "links_ok u (links[i := links ! i @ [\<lparr>lk_node = show_int (int j), lk_description = d\<rparr>]])"
  unfolding links_ok_def
proof (intro allI impI conjI)
  let ?links = "links[i := links ! i @ [\<lparr>lk_node = show_int (int j), lk_description = d\<rparr>]]"
  fix k assume k: "k < length ?links"
  show "\<forall>l\<in>set (?links ! k). \<exists>m < length ?links. m \<noteq> k \<and> lk_node l = show_int (int m)"
    using assms(1-4) k by (auto simp: links_ok_def nth_list_update)
  show "distinct (map lk_node (?links ! k))"
    using assms(1,2,5) k by (auto simp: links_ok_def nth_list_update has_link_def list_ex_iff)
  fix m assume u and m: "m < length ?links" and l: "has_link (?links ! k) m"
  have one_way: "\<not> has_link (links ! b) a" if "has_link (links ! a) b" "a < length links" "b < length links" for a b
    using assms(1) that \<open>u\<close> by (auto simp: links_ok_def)
  have has: "has_link (?links ! a) b \<longleftrightarrow> has_link (links ! a) b \<or> a = i \<and> b = j" for a b
    using assms(2) by (auto simp: nth_list_update)
  show "\<not> has_link (?links ! m) k"
    using one_way [of k m] l k m assms(4-6) \<open>u\<close> by (auto simp: has)
qed

lemma links_ok_Nil [simp]: "links_ok u []"
  by (simp add: links_ok_def)

lemma node_row_ok:
  assumes "nodes_ok ks vals n links" and "node_row n nv = Some (OPH_JSON_SUCCESS, rows)"
  shows "nodes_ok ks (vals @ rows) n (links @ [[]])"
  using assms by (auto simp: nodes_ok_def node_row_def split: option.splits if_splits dest: copy_row_length)

lemma make_graph_ok:
  assumes "make_graph title d ks = (rc, g)"
  shows "graph_frag_ok u g"
proof (cases ks)
  case None
  then show ?thesis using assms by (auto simp: make_graph_def Let_def graph_frag_ok_def nodes_ok_def)
next
  case (Some keys)
  obtain k_ok ks' where c: "copy_keys [] keys = (k_ok, ks')" by (meson surj_pair)
  show ?thesis
    using assms copy_keys_ok [OF c] Some c
    by (cases k_ok) (auto simp: make_graph_def Let_def graph_frag_ok_def nodes_ok_def)
qed

lemma make_tree_ok:
  assumes "make_tree title d ks = (rc, t)"
  shows "tree_ok t"
proof (cases ks)
  case None
  then show ?thesis using assms by (auto simp: make_tree_def Let_def tree_ok_def nodes_ok_def)
next
  case (Some keys)
  obtain k_ok ks' where c: "copy_keys [] keys = (k_ok, ks')" by (meson surj_pair)
  show ?thesis
    using assms copy_keys_ok [OF c] Some c
    by (cases k_ok) (auto simp: make_tree_def Let_def tree_ok_def nodes_ok_def)
qed

lemma graph_node_ok: "graph_frag_ok u g \<Longrightarrow> graph_node nv g = Some (rc, g') \<Longrightarrow> graph_frag_ok u g'"
  by (auto simp: graph_node_def graph_frag_ok_def node_row_ok links_ok_new_node split: if_splits)

lemma tree_node_ok: "tree_ok t \<Longrightarrow> tree_node nv t = Some (rc, t') \<Longrightarrow> tree_ok t'"
  by (auto simp: tree_node_def tree_ok_def node_row_ok links_ok_new_node split: if_splits)

lemma tree_root_ok: "tree_ok t \<Longrightarrow> tree_root r t = Some (rc, t') \<Longrightarrow> tree_ok t'"
  by (auto simp: tree_root_def tree_ok_def split: if_splits)

lemma nodes_ok_update [simp]: "nodes_ok ks vals n (links[i := l]) \<longleftrightarrow> nodes_ok ks vals n links"
  by (simp add: nodes_ok_def)

lemma graph_link_ok:
  assumes "graph_frag_ok u g" and "graph_link i j d cls g = Some (rc, g')" and "u \<longrightarrow> cls \<noteq> OPH_JSON_DGRAPH"
  shows "graph_frag_ok u g'"
  using assms links_ok_new_link [of u "gh_nodelinks g" i j d]
  by (auto simp: graph_link_def graph_frag_ok_def Let_def split: if_splits)

lemma tree_link_ok:
  assumes "tree_ok t" and "tree_link i j d t = Some (rc, t')"
  shows "tree_ok t'"
  using assms links_ok_new_link [of False "tr_nodelinks t" i j d]
  by (auto simp: tree_link_def tree_ok_def Let_def split: if_splits)

lemma on_last_cases:
  assumes "on_last_fragment classes wrap unwrap missing json k change = Some (rc, json')"
  obtains "json' = json"
  | i where "find_response k (jn_response json) = Some i" and "classes (jr_objclass (jn_response json ! i))"
  using assms by (auto simp: on_last_fragment_def Let_def split: if_splits option.splits)

context json_class
begin

lemma on_last_ok:
  assumes "json_ok json" and "\<And>f rc f'. frag_ok f \<Longrightarrow> change cls f = Some (rc, f') \<Longrightarrow> frag_ok f'"
    and "on_last_fragment (\<lambda>c. c = cls) wrap unwrap missing json k change = Some (rc, json')"
  shows "json_ok json'"
  using assms(3)
proof (rule on_last_cases)
  fix i assume "find_response k (jn_response json) = Some i" and "jr_objclass (jn_response json ! i) = cls"
  then show ?thesis using change_ok [OF assms(1) _ _ _ assms(2,3)] by simp
qed (use assms(1) in simp)

lemma add_ok:
  assumes "json_ok json" and "add_fragment cls wrap unwrap json k built = Some (rc, json')"
    and "\<And>rc0 frag. built = Some (rc0, frag) \<Longrightarrow> frag_ok frag"
  shows "json_ok json'"
proof (cases built)
  case None
  then show ?thesis
    using assms by (auto simp: add_fragment_def oph_json_add_responseKey_def Let_def json_ok_def find_response_None
      Option.bind_eq_Some_conv split: if_splits option.splits)
next
  case (Some b)
  then show ?thesis using add_fragment_ok [OF assms(1), of built "fst b" "snd b" k] assms(2,3) by (cases b) auto
qed

end

lemma graph_on_last_ok:
  assumes "json_ok json"
    and "on_last_fragment is_graph_class Graph_Content graph_of missing json k change = Some (rc, json')"
    and "\<And>u cls f rc f'. graph_frag_ok u f \<Longrightarrow> change cls f = Some (rc, f') \<Longrightarrow> (u \<longrightarrow> cls = OPH_JSON_GRAPH) \<Longrightarrow> graph_frag_ok u f'"
  shows "json_ok json'"
  using assms(2)
proof (rule on_last_cases)
  fix i assume i: "find_response k (jn_response json) = Some i" and "is_graph_class (jr_objclass (jn_response json ! i))"
  then consider "jr_objclass (jn_response json ! i) = OPH_JSON_GRAPH" | "jr_objclass (jn_response json ! i) = OPH_JSON_DGRAPH"
    by (auto simp: is_graph_class_def)
  then show ?thesis
  proof cases
    case 1
    show ?thesis
      by (rule graph_class.change_ok [OF assms(1) i 1 _ _ assms(2)]) (use assms(3) in \<open>auto simp: is_graph_class_def\<close>)
  next
    case 2
    show ?thesis
      by (rule digraph_class.change_ok [OF assms(1) i 2 _ _ assms(2)]) (use assms(3) in \<open>auto simp: is_graph_class_def\<close>)
  qed
qed (use assms(1) in simp)

section \<open>Every operation keeps the invariant\<close>

lemma json_ok_alloc: "json_ok oph_json_alloc"
  by (simp add: json_ok_def oph_json_alloc_def)

lemma common_ops_ok:
  assumes "json_ok json"
  shows "json_ok (snd (oph_json_add_consumer json c))"
    and "json_ok (snd (oph_json_set_source json k n u d p))"
    and "json_ok (snd (oph_json_add_source_detail json k v))"
    and "json_ok (snd (oph_json_add_extra_detail json k v))"
  using assms by (auto simp: json_ok_def oph_json_add_consumer_def oph_json_set_source_def oph_json_add_source_detail_def
    oph_json_add_extra_detail_def details_ok_def Let_def split: option.splits)

lemma add_ops_ok:
  assumes "json_ok json"
  shows "oph_json_add_text json k t m = Some (rc, json') \<Longrightarrow> json_ok json'"
    and "oph_json_add_grid json k t d ks ts = Some (rc, json') \<Longrightarrow> json_ok json'"
    and "oph_json_add_graph json k dir t d nks = Some (rc, json') \<Longrightarrow> json_ok json'"
    and "oph_json_add_tree json k t d nks = Some (rc, json') \<Longrightarrow> json_ok json'"
    and "oph_json_add_multigrid json k t d rk rt ck ct cv mn mt = Some (rc, json') \<Longrightarrow> json_ok json'"
  unfolding oph_json_add_text_def oph_json_add_grid_def oph_json_add_graph_def oph_json_add_tree_def oph_json_add_multigrid_def
  using assms
  by (auto split: if_splits intro: make_grid_ok make_graph_ok make_tree_ok make_multigrid_ok
    elim!: text_class.add_ok [OF assms] grid_class.add_ok [OF assms] graph_class.add_ok [OF assms]
      digraph_class.add_ok [OF assms] tree_class.add_ok [OF assms] multigrid_class.add_ok [OF assms])

lemma change_ops_ok:
  assumes "json_ok json"
  shows "oph_json_add_grid_row json k vs = Some (rc, json') \<Longrightarrow> json_ok json'"
    and "oph_json_add_multigrid_row json k vs ms = Some (rc, json') \<Longrightarrow> json_ok json'"
    and "oph_json_add_tree_node json k nv = Some (rc, json') \<Longrightarrow> json_ok json'"
    and "oph_json_set_tree_root json k i = Some (rc, json') \<Longrightarrow> json_ok json'"
    and "oph_json_add_tree_link json k i j d = Some (rc, json') \<Longrightarrow> json_ok json'"
  unfolding oph_json_add_grid_row_def oph_json_add_multigrid_row_def oph_json_add_tree_node_def oph_json_set_tree_root_def
    oph_json_add_tree_link_def
  using assms grid_class.on_last_ok [OF assms grid_row_ok] multigrid_class.on_last_ok [OF assms multigrid_row_ok]
    tree_class.on_last_ok [OF assms tree_node_ok] tree_class.on_last_ok [OF assms tree_root_ok]
    tree_class.on_last_ok [OF assms tree_link_ok]
  by (auto split: if_splits)

lemma graph_ops_ok:
  assumes "json_ok json"
  shows "oph_json_add_graph_node json k nv = Some (rc, json') \<Longrightarrow> json_ok json'"
    and "oph_json_add_graph_link json k i j d = Some (rc, json') \<Longrightarrow> json_ok json'"
proof -
  show "oph_json_add_graph_node json k nv = Some (rc, json') \<Longrightarrow> json_ok json'"
    unfolding oph_json_add_graph_node_def by (erule graph_on_last_ok [OF assms]) (rule graph_node_ok)
  have "graph_frag_ok u g'" if "graph_frag_ok u g" "graph_link (nat i) (nat j) d cls g = Some (rc, g')" "u \<longrightarrow> cls = OPH_JSON_GRAPH" for u g cls rc g'
    using graph_link_ok [OF that(1,2)] that(3) by (auto simp: json_class_names)
  from graph_on_last_ok [OF assms _ this]
  show "oph_json_add_graph_link json k i j d = Some (rc, json') \<Longrightarrow> json_ok json'"
    using assms by (auto simp: oph_json_add_graph_link_def split: if_splits)
qed

lemma json_exec_ok:
  assumes "json_ok json" and "json_exec json op = Some (rc, json')"
  shows "json_ok json'"
  using assms(2) common_ops_ok [OF assms(1)] add_ops_ok [OF assms(1)] change_ops_ok [OF assms(1)]
    graph_ops_ok [OF assms(1)]
  by (cases op) (simp; metis snd_conv)+

lemma json_run_ok: "json_ok json \<Longrightarrow> json_run json ops = Some json' \<Longrightarrow> json_ok json'"
  by (induction ops arbitrary: json) (auto simp: Option.bind_eq_Some_conv dest: json_exec_ok)

section \<open>Defined operations\<close>

lemma on_last_defined:
  assumes "\<And>i. find_response k (jn_response json) = Some i \<Longrightarrow> classes (jr_objclass (jn_response json ! i)) \<Longrightarrow>
      \<exists>fs. unwrap (jr_objcontent (jn_response json ! i)) = Some fs \<and>
        (fs \<noteq> [] \<longrightarrow> change (jr_objclass (jn_response json ! i)) (last fs) \<noteq> None)"
  shows "on_last_fragment classes wrap unwrap missing json k change \<noteq> None"
  using assms by (cases "find_response k (jn_response json)") (auto simp: on_last_fragment_def Let_def)

context json_class
begin

lemma class_on_last_defined:
  assumes "json_ok json" and "\<And>f. change cls f \<noteq> None"
  shows "on_last_fragment (\<lambda>c. c = cls) wrap unwrap missing json k change \<noteq> None"
proof (rule on_last_defined)
  fix i assume "find_response k (jn_response json) = Some i" and c: "jr_objclass (jn_response json ! i) = cls"
  then obtain fs where "jr_objcontent (jn_response json ! i) = wrap fs" using object_fragments [OF assms(1)] by blast
  then show "\<exists>fs. unwrap (jr_objcontent (jn_response json ! i)) = Some fs \<and>
      (fs \<noteq> [] \<longrightarrow> change (jr_objclass (jn_response json ! i)) (last fs) \<noteq> None)"
    using assms(2) c unwrap_wrap by auto
qed

lemma add_defined: "json_ok json \<Longrightarrow> frag_ok (snd b) \<Longrightarrow> add_fragment cls wrap unwrap json k (Some b) \<noteq> None"
  using add_fragment_ok [of json "Some b" "fst b" "snd b" k] by auto

end

lemma graph_on_last_defined:
  assumes "json_ok json" and "\<And>cls f. change cls f \<noteq> None"
  shows "on_last_fragment is_graph_class Graph_Content graph_of missing json k change \<noteq> None"
proof (rule on_last_defined)
  fix i assume i: "find_response k (jn_response json) = Some i" and c: "is_graph_class (jr_objclass (jn_response json ! i))"
  obtain fs where "jr_objcontent (jn_response json ! i) = Graph_Content fs"
    using c graph_class.object_fragments [OF assms(1) i] digraph_class.object_fragments [OF assms(1) i]
    by (auto simp: is_graph_class_def)
  then show "\<exists>fs. graph_of (jr_objcontent (jn_response json ! i)) = Some fs \<and>
      (fs \<noteq> [] \<longrightarrow> change (jr_objclass (jn_response json ! i)) (last fs) \<noteq> None)"
    using assms(2) by auto
qed

lemma node_link_defined:
  "graph_node None g \<noteq> None" "tree_node None t \<noteq> None" "tree_root r t \<noteq> None"
  "i < 2147483647 \<Longrightarrow> j < 2147483647 \<Longrightarrow> graph_link i j d cls g \<noteq> None"
  "i < 2147483647 \<Longrightarrow> j < 2147483647 \<Longrightarrow> tree_link i j d t \<noteq> None"
  by (auto simp: graph_node_def tree_node_def node_row_def tree_root_def graph_link_def tree_link_def link_overflow_def Let_def)

lemma add_exec_defined:
  assumes "json_ok json"
  shows "oph_json_add_text json k t m \<noteq> None" and "oph_json_add_grid json k t d ks ts \<noteq> None"
    and "oph_json_add_graph json k dir t d nks \<noteq> None" and "oph_json_add_tree json k t d nks \<noteq> None"
  using text_class.add_defined [OF assms] grid_class.add_defined [OF assms make_grid_ok [OF prod.collapse [symmetric]]]
    graph_class.add_defined [OF assms make_graph_ok [OF prod.collapse [symmetric]]]
    digraph_class.add_defined [OF assms make_graph_ok [OF prod.collapse [symmetric]]]
    tree_class.add_defined [OF assms make_tree_ok [OF prod.collapse [symmetric]]]
  unfolding oph_json_add_text_def oph_json_add_grid_def oph_json_add_graph_def oph_json_add_tree_def
  by auto

lemma change_exec_defined:
  assumes "json_ok json"
  shows "oph_json_add_tree_node json k None \<noteq> None" and "oph_json_set_tree_root json k r \<noteq> None"
    and "oph_json_add_graph_node json k None \<noteq> None"
    and "i < 2147483647 \<Longrightarrow> j < 2147483647 \<Longrightarrow> oph_json_add_tree_link json k i j d \<noteq> None"
    and "i < 2147483647 \<Longrightarrow> j < 2147483647 \<Longrightarrow> oph_json_add_graph_link json k i j d \<noteq> None"
  unfolding oph_json_add_tree_node_def oph_json_set_tree_root_def oph_json_add_graph_node_def oph_json_add_tree_link_def
    oph_json_add_graph_link_def
  using tree_class.class_on_last_defined [OF assms] graph_on_last_defined [OF assms] node_link_defined
  by auto

lemma json_exec_defined: "json_ok json \<Longrightarrow> \<not> trusts_caller op \<Longrightarrow> json_exec json op \<noteq> None"
  using add_exec_defined change_exec_defined by (cases op) auto

lemma json_run_defined: "json_ok json \<Longrightarrow> list_all (\<lambda>op. \<not> trusts_caller op) ops \<Longrightarrow> json_run json ops \<noteq> None"
proof (induction ops arbitrary: json)
  case (Cons op ops)
  then obtain rc json' where "json_exec json op = Some (rc, json')" using json_exec_defined [of json op] by auto
  then show ?case using Cons json_exec_ok by simp
qed simp

section \<open>The objects after an operation\<close>

lemma objs_update:
  "find_response k rs = Some i \<Longrightarrow>
   map_of (map (\<lambda>r. (jr_objkey r, jr_objclass r, jr_objcontent r)) (rs[i := (rs ! i)\<lparr>jr_objcontent := c\<rparr>])) =
   (map_of (map (\<lambda>r. (jr_objkey r, jr_objclass r, jr_objcontent r)) rs))(k \<mapsto> (jr_objclass (rs ! i), c))"
  by (induction rs arbitrary: i) (auto split: if_splits)

lemma objs_append:
  "find_response k rs = None \<Longrightarrow>
   map_of (map (\<lambda>r. (jr_objkey r, jr_objclass r, jr_objcontent r)) (rs @ [\<lparr>jr_objclass = cls, jr_objkey = k, jr_objcontent = c\<rparr>])) =
   (map_of (map (\<lambda>r. (jr_objkey r, jr_objclass r, jr_objcontent r)) rs))(k \<mapsto> (cls, c))"
  by (induction rs) (auto split: if_splits)

lemma objects_find:
  "objects json k = (case find_response k (jn_response json) of
     None \<Rightarrow> None | Some i \<Rightarrow> Some (jr_objclass (jn_response json ! i), jr_objcontent (jn_response json ! i)))"
proof -
  have "map_of (map (\<lambda>r. (jr_objkey r, jr_objclass r, jr_objcontent r)) rs) k = (case find_response k rs of
     None \<Rightarrow> None | Some i \<Rightarrow> Some (jr_objclass (rs ! i), jr_objcontent (rs ! i)))" for rs
    by (induction rs) (auto split: option.splits)
  then show ?thesis by (simp add: objects_def)
qed

context json_class
begin

lemma add_fragment_objects:
  assumes "json_ok json" and "add_fragment cls wrap unwrap json k (Some (rc0, frag)) = Some (OPH_JSON_SUCCESS, json')"
  shows "rc0 = OPH_JSON_SUCCESS" and "objects json' = (objects json)
    (k \<mapsto> (cls, wrap ((case objects json k of None \<Rightarrow> [] | Some (_, c) \<Rightarrow> the (unwrap c)) @ [frag])))"
proof -
  have "rc0 = OPH_JSON_SUCCESS \<and> objects json' = (objects json)
    (k \<mapsto> (cls, wrap ((case objects json k of None \<Rightarrow> [] | Some (_, c) \<Rightarrow> the (unwrap c)) @ [frag])))"
  proof (cases "find_response k (jn_response json)")
    case None
    then have "k \<notin> set (jn_responseKeyset json)" using assms(1) by (auto simp: find_response_None json_ok_def)
    then show ?thesis
      using None assms(2) objs_append [OF None]
      by (auto simp: add_fragment_def oph_json_add_responseKey_def objects_find Let_def) (simp add: objects_def)
  next
    case (Some i)
    then show ?thesis
      using assms(2) objs_update [OF Some]
      by (auto simp: add_fragment_def objects_find Let_def Option.bind_eq_Some_conv split: if_splits) (simp add: objects_def)
  qed
  then show "rc0 = OPH_JSON_SUCCESS" and "objects json' = (objects json)
    (k \<mapsto> (cls, wrap ((case objects json k of None \<Rightarrow> [] | Some (_, c) \<Rightarrow> the (unwrap c)) @ [frag])))"
    by simp_all
qed

lemma on_last_objects:
  assumes "objects json k = Some (cls, wrap (fs @ [f]))" and "change cls f = Some (rc, f')"
  obtains json' where "on_last_fragment (\<lambda>c. c = cls) wrap unwrap missing json k change = Some (rc, json')"
    and "objects json' = (objects json)(k \<mapsto> (cls, wrap (fs @ [f'])))"
proof -
  obtain i where i: "find_response k (jn_response json) = Some i" "jr_objclass (jn_response json ! i) = cls"
      "jr_objcontent (jn_response json ! i) = wrap (fs @ [f])"
    using assms(1) by (auto simp: objects_find split: option.splits)
  then have "jn_response json \<noteq> []" by auto
  then show thesis
    using that i assms(2) objs_update [OF i(1)] by (simp add: on_last_fragment_def Let_def unwrap_wrap objects_def)
qed

end

lemma grid_rows_objects:
  assumes "objects json k = Some (OPH_JSON_GRID, Grid_Content (gs @ [g]))" and "\<forall>row\<in>set rows. length row = gd_values_num2 g"
  shows "\<exists>json'. json_run json (map (Add_Grid_Row k) rows) = Some json' \<and>
    objects json' = (objects json)(k \<mapsto> (OPH_JSON_GRID, Grid_Content (gs @ [g\<lparr>gd_values := gd_values g @ rows\<rparr>])))"
  using assms
proof (induction rows arbitrary: json g)
  case Nil
  then show ?case by (auto simp: fun_upd_idem_iff)
next
  case (Cons row rows)
  let ?g = "g\<lparr>gd_values := gd_values g @ [row]\<rparr>"
  have "grid_row row g = Some (OPH_JSON_SUCCESS, ?g)" using Cons.prems(2) by (simp add: grid_row_def copy_row_def)
  then obtain json1 where j1: "oph_json_add_grid_row json k row = Some (OPH_JSON_SUCCESS, json1)"
      "objects json1 = (objects json)(k \<mapsto> (OPH_JSON_GRID, Grid_Content (gs @ [?g])))"
    using grid_class.on_last_objects [OF Cons.prems(1), of "\<lambda>_. grid_row row"] unfolding oph_json_add_grid_row_def by metis
  then have "objects json1 k = Some (OPH_JSON_GRID, Grid_Content (gs @ [?g]))"
    and "\<forall>row\<in>set rows. length row = gd_values_num2 ?g"
    using Cons.prems(2) by simp_all
  from Cons.IH [OF this] obtain json2 where "json_run json1 (map (Add_Grid_Row k) rows) = Some json2"
      "objects json2 = (objects json1)(k \<mapsto> (OPH_JSON_GRID, Grid_Content (gs @ [?g\<lparr>gd_values := gd_values ?g @ rows\<rparr>])))"
    by blast
  then show ?case using j1 by (auto simp: fun_eq_iff)
qed

section \<open>Properties\<close>

text \<open>
  C16: Every JSON object that is built from an empty one by the operations of the library, with any arguments and any errors
  in between, is well formed: the list of keys is the list of the keys of the objects, without repetitions; the content of
  every object is of the structure that its class names, with at least one fragment, so that no content is used as a
  structure of another class; every row has the width that was set up, keys are distinct and types are known; links lead to
  other nodes of the same graph or tree, at most once, in an undirected graph in one direction only; every detail has a value.
  Moreover an operation has undefined behaviour only when it reads an array of its caller whose length it is not told, or is
  given the greatest \<open>int\<close> as a node.
\<close>

theorem json_ops_keep_invariant:
  assumes "json_run oph_json_alloc ops = Some json"
  shows "json_ok json \<and> (trusts_caller op \<or> (\<exists>rc json'. json_exec json op = Some (rc, json')))"
  using json_run_ok [OF json_ok_alloc assms] json_exec_defined [of json op] by auto

theorem json_ops_keep_invariant_witness:
  "(let ops = [Add_Graph ''g'' False ''t'' None None, Add_Graph_Node ''g'' None, Add_Graph_Node ''g'' None,
      Add_Graph_Link ''g'' 0 1 None, Add_Graph_Link ''g'' 1 0 None, Add_Text ''g'' ''t'' None, Add_Text ''m'' ''t'' None,
      Add_Grid ''e'' ''t'' None [''a'', ''a''] [''int'', ''int'']] in
    json_run oph_json_alloc ops \<noteq> None \<and> json_ok (the (json_run oph_json_alloc ops)))"
proof -
  define ops where "ops = [Add_Graph ''g'' False ''t'' None None, Add_Graph_Node ''g'' None, Add_Graph_Node ''g'' None,
      Add_Graph_Link ''g'' 0 1 None, Add_Graph_Link ''g'' 1 0 None, Add_Text ''g'' ''t'' None, Add_Text ''m'' ''t'' None,
      Add_Grid ''e'' ''t'' None [''a'', ''a''] [''int'', ''int'']]"
  have "json_run oph_json_alloc ops \<noteq> None" 
    by (rule json_run_defined [OF json_ok_alloc]) (simp add: ops_def)
  then show ?thesis
    using json_ops_keep_invariant [of ops] unfolding Let_def ops_def by force
qed

text \<open>
  C17: A grid that was added successfully and then extended by rows of its width holds exactly these rows, in their order,
  with the title, keys and types given, as the last grid of its object; the objects of other keys, and earlier grids of the
  same key, are unchanged.
\<close>

theorem grid_holds_rows:
  assumes "json_ok json" and "oph_json_add_grid json k title d keys types = Some (OPH_JSON_SUCCESS, json1)"
    and "\<forall>row\<in>set rows. length row = length keys"
  shows "\<exists>json2. json_run json1 (map (Add_Grid_Row k) rows) = Some json2 \<and>
    objects json2 = (objects json)(k \<mapsto> (OPH_JSON_GRID, Grid_Content (grids json k @
      [\<lparr>gd_title = title, gd_description = d, gd_keys = keys, gd_fieldtypes = types, gd_values = rows,
        gd_values_num2 = length keys\<rparr>])))"
proof -
  obtain rc g where g: "make_grid title d keys types = (rc, g)" by fastforce
  have add: "add_fragment OPH_JSON_GRID Grid_Content grid_of json k (Some (rc, g)) = Some (OPH_JSON_SUCCESS, json1)"
    using assms(2) g by (simp add: oph_json_add_grid_def split: if_splits)
  note o1 = grid_class.add_fragment_objects [OF assms(1) add]
  have g': "g = \<lparr>gd_title = title, gd_description = d, gd_keys = keys, gd_fieldtypes = types, gd_values = [],
      gd_values_num2 = length keys\<rparr>"
    using g o1(1) by (auto simp: make_grid_def Let_def split: prod.splits bool.splits if_splits dest: copy_keys_ok copy_types_ok)
  have "(case objects json k of None \<Rightarrow> [] | Some (_, c) \<Rightarrow> the (grid_of c)) = grids json k"
    using add by (auto simp: add_fragment_def grids_def objects_find Let_def Option.bind_eq_Some_conv
      split: option.splits objcontent.splits if_splits)
  then show ?thesis
    using grid_rows_objects [of json1 k "grids json k" g rows] o1(2) assms(3) by (simp add: g')
qed

theorem grid_holds_rows_witness:
  "\<exists>json2. json_run (snd (the (oph_json_add_grid oph_json_alloc ''k'' ''t'' None [''a''] [''int'']))) (map (Add_Grid_Row ''k'') [[''1''], [''2'']]) =
      Some json2 \<and>
    objects json2 = (objects oph_json_alloc)(''k'' \<mapsto> (OPH_JSON_GRID, Grid_Content (grids oph_json_alloc ''k'' @
      [\<lparr>gd_title = ''t'', gd_description = None, gd_keys = [''a''], gd_fieldtypes = [''int''], gd_values = [[''1''], [''2'']],
        gd_values_num2 = length [''a'']\<rparr>])))"
proof (rule grid_holds_rows)
  show "json_ok oph_json_alloc" by (rule json_ok_alloc)
  have "fst (the (oph_json_add_grid oph_json_alloc ''k'' ''t'' None [''a''] [''int''])) = OPH_JSON_SUCCESS"
    and "oph_json_add_grid oph_json_alloc ''k'' ''t'' None [''a''] [''int''] \<noteq> None"
    by code_simp+
  then show "oph_json_add_grid oph_json_alloc ''k'' ''t'' None [''a''] [''int''] =
      Some (OPH_JSON_SUCCESS, snd (the (oph_json_add_grid oph_json_alloc ''k'' ''t'' None [''a''] [''int''])))"
    by (metis option.exhaust_sel prod.collapse)
qed simp

text \<open>
  Remark: A grid whose construction fails stays: its object is registered with an incomplete grid, of width 0. A link of a
  graph that does not exist is reported as a success.
\<close>

theorem failed_grid_is_registered:
  assumes "json_ok json" and "k \<notin> set (jn_responseKeyset json)" and "keys \<noteq> []" and "types \<noteq> []"
    and "make_grid title d keys types = (OPH_JSON_BAD_PARAM_ERROR, g)"
  shows "\<exists>json'. oph_json_add_grid json k title d keys types = Some (OPH_JSON_BAD_PARAM_ERROR, json') \<and>
    objects json' k = Some (OPH_JSON_GRID, Grid_Content [g])"
proof -
  have n: "find_response k (jn_response json) = None" using assms(1,2) by (auto simp: find_response_None json_ok_def)
  show ?thesis
    using n assms objs_append [OF n]
    by (simp add: oph_json_add_grid_def add_fragment_def oph_json_add_responseKey_def Let_def objects_def)
qed

theorem link_of_unknown_graph_succeeds:
  assumes "jn_response json \<noteq> []" and "k \<notin> jr_objkey ` set (jn_response json)" and "0 \<le> i" and "0 \<le> j"
  shows "oph_json_add_graph_link json k i j d = Some (OPH_JSON_SUCCESS, json)"
  using assms by (simp add: oph_json_add_graph_link_def on_last_fragment_def find_response_None [symmetric])

end
