(* ===== verification/Spec2Isabelle.thy ===== *)
theory Spec2Isabelle
  imports Hashtbl Trash Subset Args_Parser Task_String Task_Params Workflow_Structs Workflow_Graph Workflow_Flow
    Workflow_Utils Workflow_Engine Flow_Control Workflow_Retry Parallel_Expansion Workflow_Submit Resource_Limits Job_List Auth_Lists Auth_Roles Json_Objects
begin

text \<open>
  A verification library for the core of the Ophidia server (\<^verbatim>\<open>src/src\<close>): the program receives requests
  that are single tasks or workflows, checks who asks, validates and orders the tasks, expands variables and loops, queues
  the jobs and follows them to their end.

  \<^bold>\<open>The parts and how they interact.\<close> A request is read from its JSON text or by the argument parser; its user is checked by the authorization
  functions; a workflow is set up as a graph of tasks (indexing, validation, matching of the flow control operators); its
  variables live in a hash table; the engine and the flow control operators run the tasks, reset loops and leave branches
  out; a task is sent as a submission string, which the task parser reads against the XML description of its operator;
  running workflows are kept in the job list and released identifiers in the trash.

  \<^bold>\<open>The theories.\<close>
  \<^item> \<open>Oph_Prelude\<close>: return codes, the string functions of the C library, numbers and their conversions, the collections
    \<open>code_defs\<close> (what evaluates the model) and \<open>cstr\<close> (string lemmas).
  \<^item> \<open>Hashtbl\<close> (\<^verbatim>\<open>hashtbl.c\<close>): chained hash table, refinement of a finite map; the locale \<open>string_env\<close> is the contract
    of the environments, interpreted on the table as \<open>ht\<close>.
  \<^item> \<open>Trash\<close> (\<^verbatim>\<open>oph_trash.c\<close>): queues of released identifiers; the locale \<open>fifo\<close>, interpreted as \<open>tq\<close>.
  \<^item> \<open>Subset\<close> (\<^verbatim>\<open>oph_subset_library.c\<close>): index strings and the counters of the loops.
  \<^item> \<open>Args_Parser\<close> (\<^verbatim>\<open>oph_parser.c\<close>): queries, programs, argument lists; the locale \<open>arg_store\<close>, interpreted as \<open>av\<close>.
  \<^item> \<open>Task_String\<close>, \<open>Task_Params\<close> (\<^verbatim>\<open>oph_task_parser_library.c\<close>): the syntax of a task string and the check of its
    parameters against a description.
  \<^item> \<open>Workflow_Structs\<close>, \<open>Workflow_Graph\<close>, \<open>Workflow_Flow\<close>, \<open>Workflow_Utils\<close> (\<^verbatim>\<open>oph_workflow/\<close>): the records of a workflow and
    its stack; indexing and validation; reachability and the matching of the flow control operators (locale \<open>fco_relation\<close>,
    interpreted for the two relations of the proofs); variable substitution and submission strings.
  \<^item> \<open>Workflow_Engine\<close> (\<^verbatim>\<open>oph_workflow_engine.c\<close>): the operations on the graph of the running tasks and the ordered lists.
  \<^item> \<open>Flow_Control\<close> (\<^verbatim>\<open>oph_flow_control_operators.c\<close>): the values of the loops, \<open>oph_for\<close>, \<open>oph_endfor\<close>, \<open>oph_if\<close>, \<open>oph_else\<close>.
  \<^item> \<open>Workflow_Notify\<close>, \<open>Workflow_Schedule\<close>, \<open>Workflow_Progress\<close>, \<open>Workflow_Retry\<close> (\<open>oph_workflow_notify\<close> of
    \<^verbatim>\<open>oph_workflow_engine.c\<close> with the start of the next tasks): the processing of a notification; the runs of a workflow as the
    step relations \<open>workflow_step\<close> (any notification of a running task) and \<open>success_step\<close> (progress and successes), with the
    invariants \<open>schedule_ok\<close> and \<open>live_ok\<close>; the locale \<open>notify_preorder\<close> carries a preorder on workflows through the steps of the
    processing, interpreted as \<open>tch\<close>; failures, retries and repeated notifications.
  \<^item> \<open>Massive_Tasks\<close> (\<open>oph_check_for_massive_operation\<close> of \<^verbatim>\<open>oph_workflow_engine.c\<close>): the children of a task whose input selects
    several objects, the children that are given back at a retry, the lists of files. The selection is a parameter.
  \<^item> \<open>Parallel_Loops\<close>, \<open>Parallel_Expansion\<close> (\<open>oph_workflow_parallel_fco\<close> of \<^verbatim>\<open>oph_workflow_engine.c\<close>): the arguments of a parallel
    loop, the copies of its body, their links and variables, the recursion over the nesting levels; the expanded workflow against
    the specification \<open>unrolled\<close> (a task stands for the task it was copied from, links join tasks of one branch), with the locale
    \<open>graph_cover\<close> for graphs that lie over another one, interpreted as \<open>ucover\<close>.
  \<^item> \<open>Workflow_Parsing\<close>, \<open>Workflow_Roundtrip\<close> (\<^verbatim>\<open>oph_workflow/oph_workflow_parsing.c\<close>): the removal of the comments, \<open>oph_workflow_load\<close>
    from the values of a request to the tasks with the global values substituted, \<open>oph_workflow_store\<close> with and without a
    checkpoint; \<open>workflow_loaded\<close> is what every loaded workflow has, and a request that is written and loaded again gives the same tasks. The
    JSON library is a parameter (\<open>parsing_env\<close>), of which the round trip assumes that it reads the text it wrote as the same document.
  \<^item> \<open>Workflow_Submit\<close> (\<^verbatim>\<open>oph_execute_main.c\<close>, \<open>oph_workflow_command_to_json\<close> of \<^verbatim>\<open>oph_workflow_engine.c\<close>): from the text of a request to the
    validated workflow; the theorem that an accepted request runs to its end joins the parser, the set-up and the notifications.
  \<^item> \<open>Resource_Limits\<close> (\<^verbatim>\<open>oph_rmanager.c\<close>, \<^verbatim>\<open>oph_workflow_engine.c\<close>): the limits on running tasks and cores, with unsigned
    counters as words; the step relation \<open>limit_step\<close> and its invariant \<open>limits_ok\<close>, which also accounts for the tasks that ask for no core.
  \<^item> \<open>Job_List\<close> (\<^verbatim>\<open>oph_job_list.c\<close>, \<^verbatim>\<open>oph_memory_job.c\<close>, the detached tasks of \<^verbatim>\<open>oph_rmanager.c\<close>): the list of the jobs on
    an explicit store of items and workflows; the locale \<open>job_queue\<close>, interpreted as \<open>jq\<close>.
  \<^item> \<open>Auth_Lists\<close>, \<open>Auth_Roles\<close> (\<^verbatim>\<open>oph_auth.c\<close>): lists with a deadline, lock-out, password and session files, roles.
  \<^item> \<open>Json_Objects\<close> (\<^verbatim>\<open>oph_json/\<close>): the builders of the responses. The locale \<open>json_class\<close>, interpreted for the six classes of
    objects, gives for each one that adding a fragment or changing the last one keeps the invariant \<open>json_ok\<close>; the abstract view
    \<open>objects\<close> is a map from keys to contents, of which the operations are updates.
  This theory holds what spans components: the submission string of a task is read back by the task parser.

  \<^bold>\<open>How the code is translated.\<close> A structure is a record, an array with its count a list, a pointer that may be null an
  option; return codes are datatypes with the names of the source. A function that changes its arguments returns them.
  Allocation succeeds, and the null checks of the arguments of internal functions are left out. Undefined behaviour (a read
  beyond an array, a null or released pointer) is the value \<open>None\<close> or a constructor of its own. Machine integers are words
  or carry their wrap-around where it matters (\<open>c_int\<close>, \<open>c_short\<close>, the counters of the hash table and of the job list, the times of the job list and
  of the black list).
  The texts of messages, the logging and the locks are not part of the model.

  \<^bold>\<open>Fuel.\<close> A recursion along the graph of the tasks carries fuel; the theorems show that the number of the tasks is enough
  on an acyclic workflow, for the matching of the flow control operators (\<open>fco_dag\<close>) and, with the numbers of dependents, for the
  blocks of the selections (\<open>selection_ready\<close>) too. The loop of the variable substitution carries fuel too: one more than the number of prefixes is
  enough in the cases that the theorems name, and a class of texts is shown for which no fuel is enough. The chains of the job list
  are walked with the size of the store as fuel.

  \<^bold>\<open>What the groups of lemmas show.\<close> Each component has an invariant and lemmas that its operations keep it
  (\<open>hashtbl_ok\<close>, \<open>job_list_ok\<close>, \<open>index_inv\<close>, \<open>sort_inv\<close>, \<open>loop_frame\<close>, \<open>fco_ok\<close>, \<open>in_block\<close>, \<open>accounted\<close>, \<open>schedule_ok\<close>, \<open>live_ok\<close>, \<open>limits_ok\<close>), lemmas that tie the loops of the code to a
  specification on sets, lists or maps (\<open>reach_from\<close>, \<open>resets\<close>, \<open>between\<close>, \<open>body_path\<close>, \<open>task_pairs\<close>, \<open>show_pair\<close>, \<open>pending_ids\<close>), and the
  properties, each with a witness on a concrete input where it has hypotheses. Some properties and remarks state what the
  code does although it was meant to do something else.

  \<^bold>\<open>Not modelled.\<close> Of the submission of a workflow the check of the operators against their XML files, the sessions and the users. Of the notifications the JSON document of a massive operation, the
  records of the database and the checkpoints; of the submission of tasks what follows the check of a task and its arguments; \<open>oph_set\<close>, \<open>oph_input\<close>
  and \<open>oph_wait\<close> (the last one is threads and file system polling); the look-up in a JSON response, a parameter of the flow
  control; the JSON library itself and the conversions of JSON objects from and to text, the filters that select the objects of a massive operation, and the access to the database (SQL and
  JSON libraries); the tokens of the authorization (network); the management operators; server, plug-ins and transport;
  the SOAP run-time, which is generated and vendored code.
\<close>

section \<open>From the submission string to the task parser\<close>

lemma find_param_show_pairs:
  assumes "\<forall>(k, v)\<in>set kvs. CHR ''='' \<notin> set k \<and> CHR '';'' \<notin> set k \<and> CHR '';'' \<notin> set v" and "CHR ''='' \<notin> set param"
  shows "find_param_loop (concat (map show_pair kvs)) param =
    Some (case map_of kvs param of Some v \<Rightarrow> Inr v | None \<Rightarrow> Inl OPH_TP_TASK_PARSER_ERROR)"
  using assms(1)
proof (induction kvs)
  case Nil
  then show ?case by (simp add: find_param_loop.simps)
next
  case (Cons kv kvs)
  obtain k v where kv: "kv = (k, v)" by fastforce
  have ok: "CHR '';'' \<notin> set (k @ CHR ''='' # v)" "CHR ''='' \<in> set (k @ CHR ''='' # v)" "CHR ''='' \<notin> set k"
    using Cons.prems kv by auto
  have "cut_pair (k @ CHR ''='' # v) = (k, v)"
    using ok(3) by (auto simp: cut_pair_def takeWhile_append dropWhile_append)
  moreover have "show_pair (k, v) = (k @ CHR ''='' # v) @ CHR '';'' # []" by (simp add: show_pair_def)
  ultimately show ?case
    using find_param_segment [OF ok(1,2) assms(2), of "concat (map show_pair kvs)"] Cons kv by auto
qed

lemma all_pairs_ok:
  assumes "submission_ok w ti code" and "li < 0" and "(k, v) \<in> set (all_pairs w ti li code)"
  shows "clean k \<and> CHR ''='' \<notin> set k \<and> clean v"
proof -
  consider "(k, v) \<in> set (header_pairs w (w_tasks w ! ti) (int ti) li)"
    | "(k, v) \<in> set (extra_pairs w (task_args (w_tasks w ! ti) li))"
    | "(k, v) \<in> set (sent_args code (task_args (w_tasks w ! ti) li))"
    using assms(3) by (auto simp: all_pairs_def Let_def)
  then show ?thesis
  proof cases
    case 1
    then show ?thesis
      using assms(1) no_prefix_show_int show_int_no_sep
      by (auto simp: header_pairs_def submission_ok_def clean_def no_prefix_def Let_def)
  next
    case 2
    then show ?thesis
      using assms(1) no_prefix_show_int show_int_no_sep
      by (auto simp: extra_pairs_def submission_ok_def clean_def no_prefix_def Let_def split: option.splits if_splits)
  next
    case 3
    then show ?thesis using sent_args_ok [OF assms(1,2)] by blast
  qed
qed

lemma clean_show_pairs:
  assumes "\<forall>(k, v)\<in>set kvs. clean k \<and> clean v"
  shows "no_prefix (concat (map show_pair kvs))"
  using assms by (induction kvs) (auto simp: show_pair_def clean_def no_prefix_def)

lemma extra_pairs_key:
  assumes "(k, v) \<in> set (extra_pairs w args)"
  shows "k \<notin> fst ` set args"
  using assms by (auto simp: extra_pairs_def list_ex_iff split: option.splits if_splits)

lemma sent_args_key: "(k, v) \<in> set (sent_args code args) \<Longrightarrow> k \<in> fst ` set args"
  by (force simp: sent_args_def)

text \<open>
  C12: what the submission string says of a task is what the task parser reads. For a task whose operator, session, user, mode, partition, keys and values
  have no separator and no variable prefix and fit the buffers, \<open>oph_workflow_get_submission_string\<close> succeeds, and
  \<open>oph_tp_find_param_in_task_string\<close> finds in the string, under the key of every argument that is sent (with a key and a value that are not empty), its
  value as it is sent, with a path moved into the folder of the session, unless the key is one of those that the server sets itself.\<close>

theorem submission_string_find_param:
  assumes "ti < w_tasks_num w" and "w_tasks_num w \<le> length (w_tasks w)" and "li < 0" and "w_sessionid w = Some sid"
    and "oph_get_session_code ws sid = Inr code" and "length code < OPH_WORKFLOW_MAX_STRING" and "submission_ok w ti code"
    and "map_of (sent_args code (task_args (w_tasks w ! ti) li)) key = Some v"
    and "key \<notin> fst ` set (header_pairs w (w_tasks w ! ti) (int ti) li)" and "0 < fuel"
  shows "\<exists>l. oph_workflow_get_submission_string fuel ws w (int ti) li False = Submitted OPH_WORKFLOW_EXIT_SUCCESS (Some l) None \<and>
    oph_tp_find_param_in_task_string l key = Some (Inr v)"
proof -
  let ?args = "task_args (w_tasks w ! ti) li" and ?l = "concat (map show_pair (all_pairs w ti li code))"
  obtain s where s: "submission_strings w ti li code = Some (?l, s)"
    using submission_strings_pairs [OF assms(7,3)] by blast
  have ok: "\<forall>(k, v)\<in>set (all_pairs w ti li code). clean k \<and> CHR ''='' \<notin> set k \<and> clean v"
    using all_pairs_ok [OF assms(7,3)] by blast
  obtain m where m: "fuel = Suc m" using assms(10) by (cases fuel) auto
  have "index_error w (int ti) li = Some False" using assms(1-3) by (simp add: index_error_def Let_def)
  moreover have "no_prefix ?l" using ok by (intro clean_show_pairs) auto
  ultimately have l: "oph_workflow_get_submission_string fuel ws w (int ti) li False = Submitted OPH_WORKFLOW_EXIT_SUCCESS (Some ?l) None"
    using assms(4-6) s m by (simp add: oph_workflow_get_submission_string_def subst_loop_no_prefix)
  have sent: "(key, v) \<in> set (sent_args code ?args)" using assms(8) by (rule map_of_SomeD)
  then have eq: "CHR ''='' \<notin> set key" using sent_args_ok [OF assms(7,3)] by blast
  have "map_of (extra_pairs w ?args) key = None"
    using extra_pairs_key [of key _ w ?args] sent_args_key [OF sent] by (meson map_of_SomeD not_None_eq)
  moreover have "map_of (header_pairs w (w_tasks w ! ti) (int ti) li) key = None"
    using assms(9) by (simp only: map_of_eq_None_iff not_False_eq_True)
  ultimately have "map_of (all_pairs w ti li code) key = Some v"
    using assms(8) by (simp add: all_pairs_def Let_def map_add_def del: map_of_eq_None_iff)
  then have "oph_tp_find_param_in_task_string ?l key = Some (Inr v)"
    using find_param_show_pairs [OF _ eq, of "all_pairs w ti li code"] ok
    by (auto simp: oph_tp_find_param_in_task_string_def clean_def)
  with l show ?thesis by blast
qed

definition demo_submission :: oph_workflow where
  [code_defs]: "demo_submission = demo_args\<lparr>w_sessionid := Some ''http://h/sessions/7/experiment'', w_username := Some ''bob'',
     w_exec_mode := Some ''sync''\<rparr>"

theorem submission_string_find_param_witness:
  "\<exists>l. oph_workflow_get_submission_string 1 None demo_submission 0 (- 1) False = Submitted OPH_WORKFLOW_EXIT_SUCCESS (Some l) None \<and>
    oph_tp_find_param_in_task_string l ''a'' = Some (Inr ''5'')"
proof -
  have c: "oph_get_session_code None ''http://h/sessions/7/experiment'' = Inr ''7''" by (simp add: code_defs)
  have n: "w_tasks_num demo_submission = 1" "length (w_tasks demo_submission) = 2"
    and s: "w_sessionid demo_submission = Some ''http://h/sessions/7/experiment''" by code_simp+
  have a: "task_args (w_tasks demo_submission ! 0) (- 1) = [(''a'', Some ''5'')]" by code_simp
  have ok: "submission_ok demo_submission 0 ''7''" by (simp add: code_defs)
  have m: "map_of (sent_args ''7'' (task_args (w_tasks demo_submission ! 0) (- 1))) ''a'' = Some ''5''"
    by (simp add: a sent_args_def path_correction_def)
  have h: "''a'' \<notin> fst ` set (header_pairs demo_submission (w_tasks demo_submission ! 0) (int 0) (- 1))"
    by (simp add: header_pairs_def)
  show ?thesis
    using submission_string_find_param [of 0 demo_submission "- 1", OF _ _ _ s c _ ok m h, of 1] n
    by (simp add: OPH_WORKFLOW_MAX_STRING_def)
qed

end
